(* ===== verification/Prelude.thy ===== *)
theory Prelude
  imports Complex_Main "HOL-Library.Word"
begin

text \<open>
  Shared material of the development: the names of the machine types the
  sources use (\<^verbatim>\<open>chi::u32\<close>, \<^verbatim>\<open>chi::u64\<close>, \<^verbatim>\<open>size_t\<close>), flat memory
  with \<^verbatim>\<open>memcpy\<close>, the decimal printing of \<^verbatim>\<open>std::to_string\<close>, and the
  lemmas on words, lists and memory that several components use. The
  collections \<open>word_simps\<close>, \<open>mem_simps\<close> and \<open>codec_simps\<close> gather the
  rewrite rules the component proofs add to the simplifier.
\<close>

named_theorems word_simps
named_theorems mem_simps
named_theorems codec_simps

type_synonym u8 = "8 word"
type_synonym u32 = "32 word"
type_synonym u64 = "64 word"
type_synonym size_t = "64 word"

section \<open>Machine words read as natural numbers\<close>

lemma unat_add_no_overflow [word_simps]:
  fixes a b :: "'a::len word"
  assumes "unat a + unat b < 2 ^ LENGTH('a)"
  shows "unat (a + b) = unat a + unat b"
  using assms by (simp add: unat_word_ariths)

lemma unat_sub_no_underflow [word_simps]:
  fixes a b :: "'a::len word"
  assumes "b \<le> a"
  shows "unat (a - b) = unat a - unat b"
  using assms by (simp add: unat_sub)

lemma unat_plus_one: "(x :: 'a::len word) \<noteq> - 1 \<Longrightarrow> unat (x + 1) = Suc (unat x)"
proof -
  assume "x \<noteq> - 1"
  then have "1 + x \<noteq> 0" by (simp add: add_eq_0_iff)
  from unatSuc [OF this] show ?thesis by (simp add: add.commute)
qed

lemma unat_max64: "unat (- 1 :: u64) = 18446744073709551615"
  by (simp add: unsigned_minus_1_eq_mask mask_eq_exp_minus_1)

lemma unat_less_2p64 [simp]: "unat (x :: u64) < 18446744073709551616"
  using unsigned_less [of x, where 'a = nat] by simp

lemma unat_min [word_simps]: "unat (min a b) = min (unat a) (unat (b :: 'a::len word))"
  by (simp add: min_def word_le_nat_alt)

lemma unat_max [word_simps]: "unat (max a b) = max (unat a) (unat (b :: 'a::len word))"
  by (simp add: max_def word_le_nat_alt)

section \<open>Flat memory\<close>

text \<open>
  A buffer is what the program sees from its base pointer: a function from
  the offset to the byte stored there. \<open>memcpy dst d src s n\<close> is the
  content of the destination after
  \<^verbatim>\<open>memcpy(dst + d, src + s, n)\<close>.
\<close>

type_synonym mem = "nat \<Rightarrow> u8"

definition memcpy :: "mem \<Rightarrow> nat \<Rightarrow> mem \<Rightarrow> nat \<Rightarrow> nat \<Rightarrow> mem" where
  "memcpy dst d src s n = (\<lambda>i. if d \<le> i \<and> i < d + n then src (s + (i - d)) else dst i)"

lemma memcpy_in [mem_simps]:
  "d \<le> i \<Longrightarrow> i < d + n \<Longrightarrow> memcpy dst d src s n i = src (s + (i - d))"
  by (simp add: memcpy_def)

lemma memcpy_below [mem_simps]: "i < d \<Longrightarrow> memcpy dst d src s n i = dst i"
  by (simp add: memcpy_def)

lemma memcpy_above [mem_simps]: "d + n \<le> i \<Longrightarrow> memcpy dst d src s n i = dst i"
  by (simp add: memcpy_def)

lemma memcpy_zero [simp]: "memcpy dst d src s 0 = dst"
  by (auto simp: memcpy_def fun_eq_iff)

text \<open>Two copies into the same memory commute when their ranges are disjoint.\<close>

lemma memcpy_commute:
  assumes "d1 + n1 \<le> d2 \<or> d2 + n2 \<le> d1"
  shows "memcpy (memcpy m d1 a s1 n1) d2 b s2 n2 = memcpy (memcpy m d2 b s2 n2) d1 a s1 n1"
  using assms by (auto simp: memcpy_def fun_eq_iff)

section \<open>Object representations\<close>

text \<open>
  Integers in memory on a little-endian machine: \<open>le_bytes k n\<close> is the
  representation of \<open>n\<close> in \<open>k\<close> bytes.
\<close>

primrec le_bytes :: "nat \<Rightarrow> nat \<Rightarrow> u8 list" where
  "le_bytes 0 n = []"
| "le_bytes (Suc k) n = of_nat (n mod 256) # le_bytes k (n div 256)"

primrec le_val :: "u8 list \<Rightarrow> nat" where
  "le_val [] = 0"
| "le_val (b # bs) = unat b + 256 * le_val bs"

lemma length_le_bytes [simp, codec_simps]: "length (le_bytes k n) = k"
  by (induction k arbitrary: n) simp_all

lemma le_val_le_bytes: "le_val (le_bytes k n) = n mod 256 ^ k"
proof (induction k arbitrary: n)
  case (Suc k)
  have "unat (of_nat (n mod 256) :: u8) = n mod 256" by (simp add: unat_of_nat take_bit_eq_mod)
  with Suc show ?case by (simp add: mod_mult2_eq [of n 256 "256 ^ k"])
qed simp

lemma le_val_u32 [codec_simps]: "(of_nat (le_val (le_bytes 4 (unat w))) :: u32) = w"
proof -
  have "unat w < 2 ^ LENGTH(32)" by (rule unsigned_less)
  then show ?thesis by (simp add: le_val_le_bytes)
qed

lemma le_val_u64 [codec_simps]: "(of_nat (le_val (le_bytes 8 (unat w))) :: u64) = w"
  by (simp add: le_val_le_bytes)

text \<open>Characters as bytes.\<close>

definition byte_of :: "char \<Rightarrow> u8" where
  "byte_of c = of_nat (of_char c)"

definition char_of_byte :: "u8 \<Rightarrow> char" where
  "char_of_byte b = char_of (unat b)"

lemma char_of_byte_of [simp, codec_simps]: "char_of_byte (byte_of c) = c"
proof -
  have "(of_char c :: nat) < 256" by (rule nat_of_char_less_256)
  then show ?thesis by (simp add: char_of_byte_def byte_of_def unat_of_nat take_bit_eq_mod)
qed

lemma map_char_of_byte_of [simp, codec_simps]: "map char_of_byte (map byte_of s) = s"
  by (simp add: comp_def)

section \<open>Decimal printing\<close>

text \<open>\<^verbatim>\<open>std::to_string\<close> on an unsigned integer: decimal, no leading zero.\<close>

definition digit_char :: "nat \<Rightarrow> char" where
  "digit_char d = char_of (48 + d)"

fun to_string :: "nat \<Rightarrow> string" where
  "to_string n = (if n < 10 then [digit_char n] else to_string (n div 10) @ [digit_char (n mod 10)])"

declare to_string.simps [simp del]

lemma of_char_digit_char: "d < 10 \<Longrightarrow> (of_char (digit_char d) :: nat) = 48 + d"
  by (simp add: digit_char_def)

lemma digit_char_inj: "a < 10 \<Longrightarrow> b < 10 \<Longrightarrow> digit_char a = digit_char b \<longleftrightarrow> a = b"
  by (metis add_left_cancel of_char_digit_char)

lemma digit_char_not_dot: "d < 10 \<Longrightarrow> digit_char d \<noteq> CHR ''.''"
proof
  assume "d < 10" and "digit_char d = CHR ''.''"
  then have "48 + d = (of_char CHR ''.'' :: nat)"
    using of_char_digit_char by metis
  then show False by simp
qed

lemma to_string_no_dot: "CHR ''.'' \<notin> set (to_string n)"
proof (induction n rule: to_string.induct)
  case (1 n)
  show ?case
  proof (cases "n < 10")
    case True
    then show ?thesis by (subst to_string.simps) (simp add: digit_char_not_dot [symmetric])
  next
    case False
    with "1.IH" show ?thesis
      by (subst to_string.simps) (simp add: digit_char_not_dot [symmetric])
  qed
qed

lemma to_string_nonempty: "to_string n \<noteq> []"
  by (subst to_string.simps) simp

lemma to_string_inj: "to_string m = to_string n \<longleftrightarrow> m = n"
proof
  show "to_string m = to_string n \<Longrightarrow> m = n"
  proof (induction m arbitrary: n rule: to_string.induct)
    case (1 m)
    show ?case
    proof (cases "m < 10 \<longleftrightarrow> n < 10")
      case True
      show ?thesis
      proof (cases "m < 10")
        case True
        with \<open>m < 10 \<longleftrightarrow> n < 10\<close> "1.prems" show ?thesis
          by (simp add: to_string.simps [of m] to_string.simps [of n] digit_char_inj)
      next
        case False
        with \<open>m < 10 \<longleftrightarrow> n < 10\<close> "1.prems"
        have "to_string (m div 10) = to_string (n div 10)"
          and "m mod 10 = n mod 10"
          by (simp_all add: to_string.simps [of m] to_string.simps [of n] digit_char_inj)
        with False "1.IH" have "m div 10 = n div 10" by simp
        with \<open>m mod 10 = n mod 10\<close> show ?thesis by (metis div_mult_mod_eq)
      qed
    next
      case False
      with "1.prems" show ?thesis
        by (auto simp: to_string.simps [of m] to_string.simps [of n] to_string_nonempty
            to_string_nonempty [symmetric]
            split: if_splits)
    qed
  qed
qed simp

section \<open>Compound keys\<close>

text \<open>Two dot-separated keys agree only when their first components do.\<close>

lemma append_dot_inj:
  assumes "CHR ''.'' \<notin> set a" and "CHR ''.'' \<notin> set b"
  shows "a @ CHR ''.'' # r = b @ CHR ''.'' # s \<longleftrightarrow> a = b \<and> r = s"
  using assms
proof (induction a arbitrary: b)
  case Nil
  then show ?case by (cases b) auto
next
  case (Cons x a)
  then show ?case by (cases b) auto
qed

end
