(* ===== verification/Map_LL.thy ===== *)
theory Map_LL
  imports Prelude "HOL-Library.Multiset"
begin

text \<open>
  \<^verbatim>\<open>hshm::priv::unordered_map_ll\<close>
  (context-transport-primitives, data\_structures/priv/unordered\_map\_ll.h):
  a vector of buckets, each a list of key-value pairs, indexed by
  \<^verbatim>\<open>hash(key) % buckets.size()\<close>. Every metadata table of the transfer
  engine is one of these maps.

  The model keeps the vector of lists; iterators are positions in a bucket,
  with the bucket's length for \<^verbatim>\<open>end()\<close>, and a pointer that \<^verbatim>\<open>find\<close> returns is
  the value found, written through with \<open>ml_modify\<close>. The hash function is the
  template parameter, an argument \<open>h\<close>. Locking is external in the source and
  is not part of this component.

  The locale \<open>dict\<close> is the interface the transfer engine relies on; its
  interpretation \<open>ll\<close> shows that the bucket structure provides it, for every
  hash function and every positive number of buckets.
\<close>

section \<open>Data and operations\<close>

record ('k, 'v) unordered_map_ll =
  buckets :: "('k \<times> 'v) list list"

datatype map_error = out_of_range

definition ml_create :: "nat \<Rightarrow> ('k, 'v) unordered_map_ll" where
  "ml_create max_concurrency = \<lparr>buckets = replicate max_concurrency []\<rparr>"

definition get_bucket_index :: "('k \<Rightarrow> size_t) \<Rightarrow> ('k, 'v) unordered_map_ll \<Rightarrow> 'k \<Rightarrow> nat" where
  "get_bucket_index h m k = unat (h k) mod length (buckets m)"

fun find_entry_in_bucket :: "('k \<times> 'v) list \<Rightarrow> 'k \<Rightarrow> nat" where
  "find_entry_in_bucket [] k = 0"
| "find_entry_in_bucket (e # es) k = (if fst e = k then 0 else Suc (find_entry_in_bucket es k))"

definition ml_insert_or_assign ::
  "('k \<Rightarrow> size_t) \<Rightarrow> 'k \<Rightarrow> 'v \<Rightarrow> ('k, 'v) unordered_map_ll \<Rightarrow> bool \<times> ('k, 'v) unordered_map_ll" where
  "ml_insert_or_assign h k v m =
     (let bucket_idx = get_bucket_index h m k;
          bucket = buckets m ! bucket_idx;
          it = find_entry_in_bucket bucket k
      in if it \<noteq> length bucket
         then (False, m\<lparr>buckets := (buckets m)[bucket_idx := bucket[it := (fst (bucket ! it), v)]]\<rparr>)
         else (True, m\<lparr>buckets := (buckets m)[bucket_idx := bucket @ [(k, v)]]\<rparr>))"

definition ml_insert ::
  "('k \<Rightarrow> size_t) \<Rightarrow> 'k \<Rightarrow> 'v \<Rightarrow> ('k, 'v) unordered_map_ll \<Rightarrow> (bool \<times> 'v) \<times> ('k, 'v) unordered_map_ll" where
  "ml_insert h k v m =
     (let bucket_idx = get_bucket_index h m k;
          bucket = buckets m ! bucket_idx;
          it = find_entry_in_bucket bucket k
      in if it \<noteq> length bucket then ((False, snd (bucket ! it)), m)
         else ((True, v), m\<lparr>buckets := (buckets m)[bucket_idx := bucket @ [(k, v)]]\<rparr>))"

text \<open>\<^verbatim>\<open>operator[]\<close>: the value at the key, inserting the default-constructed \<open>d\<close> when absent.\<close>

definition ml_subscript ::
  "('k \<Rightarrow> size_t) \<Rightarrow> 'v \<Rightarrow> 'k \<Rightarrow> ('k, 'v) unordered_map_ll \<Rightarrow> 'v \<times> ('k, 'v) unordered_map_ll" where
  "ml_subscript h d k m =
     (let bucket_idx = get_bucket_index h m k;
          bucket = buckets m ! bucket_idx;
          it = find_entry_in_bucket bucket k
      in if it \<noteq> length bucket then (snd (bucket ! it), m)
         else (d, m\<lparr>buckets := (buckets m)[bucket_idx := bucket @ [(k, d)]]\<rparr>))"

definition ml_find :: "('k \<Rightarrow> size_t) \<Rightarrow> ('k, 'v) unordered_map_ll \<Rightarrow> 'k \<Rightarrow> 'v option" where
  "ml_find h m k =
     (let bucket = buckets m ! get_bucket_index h m k;
          it = find_entry_in_bucket bucket k
      in if it \<noteq> length bucket then Some (snd (bucket ! it)) else None)"

definition ml_at :: "('k \<Rightarrow> size_t) \<Rightarrow> ('k, 'v) unordered_map_ll \<Rightarrow> 'k \<Rightarrow> map_error + 'v" where
  "ml_at h m k =
     (let bucket = buckets m ! get_bucket_index h m k;
          it = find_entry_in_bucket bucket k
      in if it \<noteq> length bucket then Inr (snd (bucket ! it)) else Inl out_of_range)"

definition ml_contains :: "('k \<Rightarrow> size_t) \<Rightarrow> ('k, 'v) unordered_map_ll \<Rightarrow> 'k \<Rightarrow> bool" where
  "ml_contains h m k \<longleftrightarrow> ml_find h m k \<noteq> None"

definition ml_count :: "('k \<Rightarrow> size_t) \<Rightarrow> ('k, 'v) unordered_map_ll \<Rightarrow> 'k \<Rightarrow> nat" where
  "ml_count h m k = (if ml_contains h m k then 1 else 0)"

definition ml_erase ::
  "('k \<Rightarrow> size_t) \<Rightarrow> 'k \<Rightarrow> ('k, 'v) unordered_map_ll \<Rightarrow> nat \<times> ('k, 'v) unordered_map_ll" where
  "ml_erase h k m =
     (let bucket_idx = get_bucket_index h m k;
          bucket = buckets m ! bucket_idx;
          it = find_entry_in_bucket bucket k
      in if it \<noteq> length bucket
         then (1, m\<lparr>buckets := (buckets m)[bucket_idx := take it bucket @ drop (Suc it) bucket]\<rparr>)
         else (0, m))"

definition ml_clear :: "('k, 'v) unordered_map_ll \<Rightarrow> ('k, 'v) unordered_map_ll" where
  "ml_clear m = m\<lparr>buckets := map (\<lambda>_. []) (buckets m)\<rparr>"

definition ml_size :: "('k, 'v) unordered_map_ll \<Rightarrow> nat" where
  "ml_size m = foldl (\<lambda>total bucket. total + length bucket) 0 (buckets m)"

definition ml_empty :: "('k, 'v) unordered_map_ll \<Rightarrow> bool" where
  "ml_empty m \<longleftrightarrow> ml_size m = 0"

text \<open>The entries in the order in which \<^verbatim>\<open>for_each\<close> visits them.\<close>

definition ml_entries :: "('k, 'v) unordered_map_ll \<Rightarrow> ('k \<times> 'v) list" where
  "ml_entries m = concat (buckets m)"

definition ml_for_each :: "('k \<Rightarrow> 'v \<Rightarrow> 's \<Rightarrow> 's) \<Rightarrow> ('k, 'v) unordered_map_ll \<Rightarrow> 's \<Rightarrow> 's" where
  "ml_for_each fn m s = foldl (foldl (\<lambda>s e. fn (fst e) (snd e) s)) s (buckets m)"

text \<open>\<^verbatim>\<open>for_each\<close> with a callback that changes the visited value through its reference.\<close>

definition ml_for_each_mut :: "('k \<Rightarrow> 'v \<Rightarrow> 'v) \<Rightarrow> ('k, 'v) unordered_map_ll \<Rightarrow> ('k, 'v) unordered_map_ll" where
  "ml_for_each_mut fn m = m\<lparr>buckets := map (map (\<lambda>e. (fst e, fn (fst e) (snd e)))) (buckets m)\<rparr>"

text \<open>A write through the pointer \<^verbatim>\<open>find(k)\<close> returned.\<close>

definition ml_modify ::
  "('k \<Rightarrow> size_t) \<Rightarrow> 'k \<Rightarrow> ('v \<Rightarrow> 'v) \<Rightarrow> ('k, 'v) unordered_map_ll \<Rightarrow> ('k, 'v) unordered_map_ll" where
  "ml_modify h k f m =
     (let bucket_idx = get_bucket_index h m k;
          bucket = buckets m ! bucket_idx;
          it = find_entry_in_bucket bucket k
      in if it \<noteq> length bucket
         then m\<lparr>buckets := (buckets m)[bucket_idx := bucket[it := (fst (bucket ! it), f (snd (bucket ! it)))]]\<rparr>
         else m)"

section \<open>Well-formed maps\<close>

text \<open>
  Every entry sits in the bucket its key hashes to and no bucket holds a key
  twice: together, a key occurs at most once in the whole map.
\<close>

definition ml_inv :: "('k \<Rightarrow> size_t) \<Rightarrow> ('k, 'v) unordered_map_ll \<Rightarrow> bool" where
  "ml_inv h m \<longleftrightarrow>
     buckets m \<noteq> [] \<and>
     (\<forall>i < length (buckets m). distinct (map fst (buckets m ! i)) \<and>
        (\<forall>e \<in> set (buckets m ! i). get_bucket_index h m (fst e) = i))"

section \<open>Buckets\<close>

lemma find_entry_le [simp]: "find_entry_in_bucket b k \<le> length b"
  by (induction b) auto

lemma find_entry_absent: "find_entry_in_bucket b k = length b \<longleftrightarrow> k \<notin> fst ` set b"
  by (induction b) auto

lemma find_entry_key: "find_entry_in_bucket b k < length b \<Longrightarrow> fst (b ! find_entry_in_bucket b k) = k"
  by (induction b) auto

lemma find_entry_map_of:
  "map_of b k = (if find_entry_in_bucket b k \<noteq> length b
                 then Some (snd (b ! find_entry_in_bucket b k)) else None)"
  by (induction b) auto

lemma map_of_bucket_assign:
  "find_entry_in_bucket b k < length b \<Longrightarrow>
   map_of (b[find_entry_in_bucket b k := (k, v)]) k' = (if k' = k then Some v else map_of b k')"
  by (induction b) auto

lemma map_of_bucket_append:
  "k \<notin> fst ` set b \<Longrightarrow> map_of (b @ [(k, v)]) k' = (if k' = k then Some v else map_of b k')"
  by (induction b) auto

lemma keys_bucket_assign:
  "find_entry_in_bucket b k < length b \<Longrightarrow>
   map fst (b[find_entry_in_bucket b k := (k, v)]) = map fst b"
  by (induction b) auto

lemma map_of_bucket_erase:
  "distinct (map fst b) \<Longrightarrow> find_entry_in_bucket b k < length b \<Longrightarrow>
   map_of (take (find_entry_in_bucket b k) b @ drop (Suc (find_entry_in_bucket b k)) b) k' =
     (if k' = k then None else map_of b k')"
proof (induction b)
  case (Cons e b)
  then show ?case
    by (cases "fst e = k") (auto simp: map_of_eq_None_iff [THEN iffD2] image_iff)
qed simp

lemma set_erase: "set (take i b @ drop (Suc i) b) \<subseteq> set b"
  by (auto dest: in_set_takeD in_set_dropD)

lemma distinct_erase: "distinct (map fst b) \<Longrightarrow> distinct (map fst (take i b @ drop (Suc i) b))"
proof (induction b arbitrary: i)
  case (Cons e b)
  then show ?case
    by (cases i) (auto dest: in_set_takeD in_set_dropD)
qed simp

lemmas bucket_simps = map_of_bucket_assign map_of_bucket_append keys_bucket_assign
  map_of_bucket_erase find_entry_key

lemma find_entry_lt_iff: "find_entry_in_bucket b k \<noteq> length b \<longleftrightarrow> find_entry_in_bucket b k < length b"
  using find_entry_le [of b k] by linarith

section \<open>The map as a whole\<close>

lemma ml_inv_index: "ml_inv h m \<Longrightarrow> get_bucket_index h m k < length (buckets m)"
  by (simp add: ml_inv_def get_bucket_index_def)

lemma ml_inv_distinct: "ml_inv h m \<Longrightarrow> i < length (buckets m) \<Longrightarrow> distinct (map fst (buckets m ! i))"
  by (simp add: ml_inv_def)

lemma ml_inv_entry:
  "ml_inv h m \<Longrightarrow> i < length (buckets m) \<Longrightarrow> e \<in> set (buckets m ! i) \<Longrightarrow> get_bucket_index h m (fst e) = i"
  unfolding ml_inv_def by blast

lemma get_bucket_index_upd [simp]:
  "get_bucket_index h (m\<lparr>buckets := (buckets m)[i := b]\<rparr>) k = get_bucket_index h m k"
  by (simp add: get_bucket_index_def)

lemma ml_find_map_of: "ml_find h m k = map_of (buckets m ! get_bucket_index h m k) k"
  by (simp add: ml_find_def Let_def find_entry_map_of)

text \<open>Replacing one bucket: what lookups see, and when the map stays well-formed.\<close>

lemma ml_find_replace:
  assumes "ml_inv h m" and "i < length (buckets m)"
    and "\<And>k'. map_of b k' = (if k' = k then r else map_of (buckets m ! i) k')"
    and "get_bucket_index h m k = i"
  shows "ml_find h (m\<lparr>buckets := (buckets m)[i := b]\<rparr>) k' = (if k' = k then r else ml_find h m k')"
  using assms by (auto simp: ml_find_map_of nth_list_update)

lemma ml_inv_replace:
  assumes "ml_inv h m" and "i < length (buckets m)" and "distinct (map fst b)"
    and "\<And>e. e \<in> set b \<Longrightarrow> get_bucket_index h m (fst e) = i"
  shows "ml_inv h (m\<lparr>buckets := (buckets m)[i := b]\<rparr>)"
  using assms by (auto simp: ml_inv_def nth_list_update)

lemma ml_inv_create: "0 < n \<Longrightarrow> ml_inv h (ml_create n)"
  by (simp add: ml_inv_def ml_create_def)

lemma ml_find_create [simp]: "0 < n \<Longrightarrow> ml_find h (ml_create n) k = None"
  by (simp add: ml_find_map_of ml_create_def get_bucket_index_def)

lemma ml_insert_or_assign_laws:
  assumes "ml_inv h m"
  shows ml_find_insert_or_assign:
      "ml_find h (snd (ml_insert_or_assign h k v m)) k' = (if k' = k then Some v else ml_find h m k')"
    and ml_inv_insert_or_assign: "ml_inv h (snd (ml_insert_or_assign h k v m))"
    and ml_fst_insert_or_assign: "fst (ml_insert_or_assign h k v m) \<longleftrightarrow> ml_find h m k = None"
proof -
  let ?i = "get_bucket_index h m k"
  let ?b = "buckets m ! ?i"
  have i: "?i < length (buckets m)" using assms by (rule ml_inv_index)
  have d: "distinct (map fst ?b)" using assms i by (rule ml_inv_distinct)
  have e: "\<And>e. e \<in> set ?b \<Longrightarrow> get_bucket_index h m (fst e) = ?i"
    by (rule ml_inv_entry [OF assms i])
  have "ml_find h (snd (ml_insert_or_assign h k v m)) k' = (if k' = k then Some v else ml_find h m k')
      \<and> ml_inv h (snd (ml_insert_or_assign h k v m))"
  proof (cases "find_entry_in_bucket ?b k = length ?b")
    case True
    then have k: "k \<notin> fst ` set ?b" by (simp add: find_entry_absent)
    have u: "snd (ml_insert_or_assign h k v m) = m\<lparr>buckets := (buckets m)[?i := ?b @ [(k, v)]]\<rparr>"
      using True by (simp add: ml_insert_or_assign_def Let_def)
    have f: "\<And>k'. map_of (?b @ [(k, v)]) k' = (if k' = k then Some v else map_of ?b k')"
      using k by (rule map_of_bucket_append)
    have "ml_inv h (m\<lparr>buckets := (buckets m)[?i := ?b @ [(k, v)]]\<rparr>)"
      by (rule ml_inv_replace [OF assms i]) (use d e k in auto)
    then show ?thesis unfolding u by (simp only: ml_find_replace [OF assms i f refl] simp_thms)
  next
    case False
    then have l: "find_entry_in_bucket ?b k < length ?b" by (simp only: find_entry_lt_iff)
    let ?b' = "?b[find_entry_in_bucket ?b k := (k, v)]"
    have u: "snd (ml_insert_or_assign h k v m) = m\<lparr>buckets := (buckets m)[?i := ?b']\<rparr>"
      using False find_entry_key [OF l] by (simp add: ml_insert_or_assign_def Let_def)
    have f: "\<And>k'. map_of ?b' k' = (if k' = k then Some v else map_of ?b k')"
      using l by (rule map_of_bucket_assign)
    have "ml_inv h (m\<lparr>buckets := (buckets m)[?i := ?b']\<rparr>)"
    proof (rule ml_inv_replace [OF assms i])
      show "distinct (map fst ?b')" using d by (simp only: keys_bucket_assign [OF l])
      fix e'
      assume "e' \<in> set ?b'"
      then have "e' = (k, v) \<or> e' \<in> set ?b"
        using set_update_subset_insert [of ?b "find_entry_in_bucket ?b k" "(k, v)"] by blast
      then show "get_bucket_index h m (fst e') = ?i" using e by fastforce
    qed
    then show ?thesis unfolding u by (simp only: ml_find_replace [OF assms i f refl] simp_thms)
  qed
  then show "ml_find h (snd (ml_insert_or_assign h k v m)) k' = (if k' = k then Some v else ml_find h m k')"
    and "ml_inv h (snd (ml_insert_or_assign h k v m))" by blast+
  show "fst (ml_insert_or_assign h k v m) \<longleftrightarrow> ml_find h m k = None"
    by (simp add: ml_insert_or_assign_def ml_find_def Let_def)
qed

lemma ml_modify_laws:
  assumes "ml_inv h m"
  shows ml_find_modify:
      "ml_find h (ml_modify h k f m) k' = (if k' = k then map_option f (ml_find h m k) else ml_find h m k')"
    and ml_inv_modify: "ml_inv h (ml_modify h k f m)"
proof -
  have "ml_modify h k f m =
    (case ml_find h m k of None \<Rightarrow> m | Some v \<Rightarrow> snd (ml_insert_or_assign h k (f v) m))"
    by (simp add: ml_modify_def ml_find_def ml_insert_or_assign_def Let_def)
  then show "ml_find h (ml_modify h k f m) k' = (if k' = k then map_option f (ml_find h m k) else ml_find h m k')"
    and "ml_inv h (ml_modify h k f m)"
    using assms by (auto simp: ml_find_insert_or_assign ml_inv_insert_or_assign split: option.split)
qed

lemma ml_erase_laws:
  assumes "ml_inv h m"
  shows ml_find_erase: "ml_find h (snd (ml_erase h k m)) k' = (if k' = k then None else ml_find h m k')"
    and ml_inv_erase: "ml_inv h (snd (ml_erase h k m))"
    and ml_fst_erase: "fst (ml_erase h k m) = ml_count h m k"
proof -
  let ?i = "get_bucket_index h m k"
  let ?b = "buckets m ! ?i"
  have i: "?i < length (buckets m)" using assms by (rule ml_inv_index)
  have d: "distinct (map fst ?b)" using assms i by (rule ml_inv_distinct)
  have e: "\<And>e. e \<in> set ?b \<Longrightarrow> get_bucket_index h m (fst e) = ?i"
    by (rule ml_inv_entry [OF assms i])
  have "ml_find h (snd (ml_erase h k m)) k' = (if k' = k then None else ml_find h m k')
      \<and> ml_inv h (snd (ml_erase h k m))"
  proof (cases "find_entry_in_bucket ?b k = length ?b")
    case True
    then have "snd (ml_erase h k m) = m" and "ml_find h m k = None"
      by (simp_all add: ml_erase_def ml_find_def Let_def)
    then show ?thesis using assms by simp
  next
    case False
    then have l: "find_entry_in_bucket ?b k < length ?b" by (simp only: find_entry_lt_iff)
    let ?j = "find_entry_in_bucket ?b k"
    let ?b' = "take ?j ?b @ drop (Suc ?j) ?b"
    have u: "snd (ml_erase h k m) = m\<lparr>buckets := (buckets m)[?i := ?b']\<rparr>"
      using False by (simp add: ml_erase_def Let_def)
    have f: "\<And>k'. map_of ?b' k' = (if k' = k then None else map_of ?b k')"
      using d l by (rule map_of_bucket_erase)
    have "ml_inv h (m\<lparr>buckets := (buckets m)[?i := ?b']\<rparr>)"
      by (rule ml_inv_replace [OF assms i distinct_erase [OF d]]) (meson e set_erase subsetD)
    then show ?thesis unfolding u by (simp only: ml_find_replace [OF assms i f refl] simp_thms)
  qed
  then show "ml_find h (snd (ml_erase h k m)) k' = (if k' = k then None else ml_find h m k')"
    and "ml_inv h (snd (ml_erase h k m))" by blast+
  show "fst (ml_erase h k m) = ml_count h m k"
    by (simp add: ml_erase_def ml_count_def ml_contains_def ml_find_def Let_def)
qed

section \<open>Iteration\<close>

lemma concat_keys_distinct:
  assumes "\<And>i. i < length bs \<Longrightarrow> distinct (map fst (bs ! i)) \<and> (\<forall>e \<in> set (bs ! i). g (fst e) = i + n)"
  shows "distinct (map fst (concat bs)) \<and>
    (\<forall>k. map_of (concat bs) k =
       (if n \<le> g k \<and> g k < n + length bs then map_of (bs ! (g k - n)) k else None))"
  using assms
proof (induction bs arbitrary: n)
  case (Cons b bs)
  have b: "distinct (map fst b)" "\<forall>e \<in> set b. g (fst e) = n" using Cons.prems [of 0] by auto
  have "\<And>i. i < length bs \<Longrightarrow> distinct (map fst (bs ! i)) \<and> (\<forall>e \<in> set (bs ! i). g (fst e) = i + Suc n)"
    using Cons.prems [of "Suc _"] by auto
  note IH = Cons.IH [OF this]
  have disj: "fst ` set b \<inter> fst ` set (concat bs) = {}"
  proof (rule ccontr)
    assume "\<not> ?thesis"
    then obtain k where k: "k \<in> fst ` set b" "k \<in> fst ` set (concat bs)" by blast
    from k(1) b(2) have "g k = n" by auto
    moreover from k(2) have "map_of (concat bs) k \<noteq> None" by (simp add: map_of_eq_None_iff)
    ultimately show False using IH by simp
  qed
  have "map_of (concat (b # bs)) k =
      (if n \<le> g k \<and> g k < n + length (b # bs) then map_of ((b # bs) ! (g k - n)) k else None)" for k
  proof (cases "g k = n")
    case True
    with IH have "map_of (concat bs) k = None" by simp
    with True show ?thesis by (simp add: map_add_def split: option.split)
  next
    case False
    with b(2) have "map_of b k = None" by (auto simp: map_of_eq_None_iff)
    with False IH show ?thesis by (auto simp: map_add_def nth_Cons' split: option.split)
  qed
  moreover have "distinct (map fst (concat (b # bs)))"
    using b(1) IH disj by (simp add: image_Un)
  ultimately show ?case by blast
qed auto

lemma ml_entries_laws:
  assumes "ml_inv h m"
  shows ml_entries_map_of: "map_of (ml_entries m) = ml_find h m"
    and ml_entries_distinct: "distinct (map fst (ml_entries m))"
proof -
  have "\<And>i. i < length (buckets m) \<Longrightarrow> distinct (map fst (buckets m ! i)) \<and>
      (\<forall>e \<in> set (buckets m ! i). get_bucket_index h m (fst e) = i + 0)"
    using assms by (auto simp: ml_inv_def)
  note c = concat_keys_distinct [OF this]
  show "distinct (map fst (ml_entries m))" using c by (simp add: ml_entries_def)
  show "map_of (ml_entries m) = ml_find h m"
    using c ml_inv_index [OF assms] by (auto simp: ml_entries_def ml_find_map_of)
qed

lemma foldl_foldl_concat: "foldl (foldl g) s bs = foldl g s (concat bs)"
  by (induction bs arbitrary: s) auto

lemma ml_for_each_entries: "ml_for_each fn m s = foldl (\<lambda>s e. fn (fst e) (snd e) s) s (ml_entries m)"
  by (simp add: ml_for_each_def ml_entries_def foldl_foldl_concat)

lemma ml_size_entries: "ml_size m = length (ml_entries m)"
proof -
  have "foldl (\<lambda>t b. t + length b) n bs = n + length (concat bs)" for n and bs :: "('a \<times> 'b) list list"
    by (induction bs arbitrary: n) auto
  then show ?thesis by (simp add: ml_size_def ml_entries_def)
qed

lemma ml_size_card:
  assumes "ml_inv h m"
  shows "ml_size m = card (dom (ml_find h m))"
proof -
  have "dom (ml_find h m) = set (map fst (ml_entries m))"
    using ml_entries_map_of [OF assms] by (metis dom_map_of_conv_image_fst list.set_map)
  then show ?thesis
    using distinct_card [OF ml_entries_distinct [OF assms]] by (simp add: ml_size_entries)
qed

lemma ml_clear_laws:
  assumes "ml_inv h m"
  shows ml_find_clear: "ml_find h (ml_clear m) k = None" and ml_inv_clear: "ml_inv h (ml_clear m)"
  using assms ml_inv_index [OF assms, of k]
  by (auto simp: ml_find_map_of ml_clear_def get_bucket_index_def ml_inv_def)

lemma ml_insert_laws:
  assumes "ml_inv h m"
  shows ml_find_insert:
      "ml_find h (snd (ml_insert h k v m)) k' =
         (if k' = k \<and> ml_find h m k = None then Some v else ml_find h m k')"
    and ml_inv_insert: "ml_inv h (snd (ml_insert h k v m))"
    and ml_fst_insert: "fst (ml_insert h k v m) =
         (case ml_find h m k of None \<Rightarrow> (True, v) | Some v' \<Rightarrow> (False, v'))"
proof -
  have "ml_insert h k v m =
    (case ml_find h m k of None \<Rightarrow> ((True, v), snd (ml_insert_or_assign h k v m))
     | Some v' \<Rightarrow> ((False, v'), m))"
    by (simp add: ml_insert_def ml_find_def ml_insert_or_assign_def Let_def)
  then show "ml_find h (snd (ml_insert h k v m)) k' =
         (if k' = k \<and> ml_find h m k = None then Some v else ml_find h m k')"
    and "ml_inv h (snd (ml_insert h k v m))"
    and "fst (ml_insert h k v m) = (case ml_find h m k of None \<Rightarrow> (True, v) | Some v' \<Rightarrow> (False, v'))"
    using assms by (auto simp: ml_find_insert_or_assign ml_inv_insert_or_assign split: option.split)
qed

lemma ml_subscript_laws:
  assumes "ml_inv h m"
  shows ml_find_subscript:
      "ml_find h (snd (ml_subscript h d k m)) k' =
         (if k' = k \<and> ml_find h m k = None then Some d else ml_find h m k')"
    and ml_inv_subscript: "ml_inv h (snd (ml_subscript h d k m))"
    and ml_fst_subscript: "fst (ml_subscript h d k m) = (case ml_find h m k of None \<Rightarrow> d | Some v \<Rightarrow> v)"
proof -
  have "ml_subscript h d k m = (snd (fst (ml_insert h k d m)), snd (ml_insert h k d m))"
    by (simp add: ml_subscript_def ml_insert_def Let_def)
  then show "ml_find h (snd (ml_subscript h d k m)) k' =
         (if k' = k \<and> ml_find h m k = None then Some d else ml_find h m k')"
    and "ml_inv h (snd (ml_subscript h d k m))"
    and "fst (ml_subscript h d k m) = (case ml_find h m k of None \<Rightarrow> d | Some v \<Rightarrow> v)"
    using assms by (auto simp: ml_find_insert ml_inv_insert ml_fst_insert split: option.split)
qed

section \<open>The interface the metadata tables rely on\<close>

locale dict =
  fixes lookup :: "'m \<Rightarrow> 'k \<Rightarrow> 'v option"
    and upd :: "'k \<Rightarrow> 'v \<Rightarrow> 'm \<Rightarrow> 'm"
    and modify :: "'k \<Rightarrow> ('v \<Rightarrow> 'v) \<Rightarrow> 'm \<Rightarrow> 'm"
    and del :: "'k \<Rightarrow> 'm \<Rightarrow> 'm"
    and entries :: "'m \<Rightarrow> ('k \<times> 'v) list"
    and invar :: "'m \<Rightarrow> bool"
  assumes lookup_upd: "invar m \<Longrightarrow> lookup (upd k v m) k' = (if k' = k then Some v else lookup m k')"
    and lookup_modify:
      "invar m \<Longrightarrow> lookup (modify k f m) k' = (if k' = k then map_option f (lookup m k) else lookup m k')"
    and lookup_del: "invar m \<Longrightarrow> lookup (del k m) k' = (if k' = k then None else lookup m k')"
    and entries_lookup: "invar m \<Longrightarrow> map_of (entries m) = lookup m"
    and entries_distinct: "invar m \<Longrightarrow> distinct (map fst (entries m))"
    and invar_upd: "invar m \<Longrightarrow> invar (upd k v m)"
    and invar_modify: "invar m \<Longrightarrow> invar (modify k f m)"
    and invar_del: "invar m \<Longrightarrow> invar (del k m)"
begin

lemma in_entries_iff: "invar m \<Longrightarrow> (k, v) \<in> set (entries m) \<longleftrightarrow> lookup m k = Some v"
  using entries_lookup entries_distinct by (metis map_of_eq_Some_iff)

lemma del_all:
  assumes "invar m"
  shows "invar (foldl (\<lambda>m k. del k m) m ks) \<and>
    lookup (foldl (\<lambda>m k. del k m) m ks) k' = (if k' \<in> set ks then None else lookup m k')"
  using assms
proof (induction ks arbitrary: m)
  case (Cons k ks)
  then show ?case using invar_del [OF Cons.prems, of k] by (simp add: lookup_del)
qed simp

text \<open>The entries as a multiset, and how changing one key changes them.\<close>

definition graph_of :: "'m \<Rightarrow> ('k \<times> 'v) set" where
  "graph_of m = {(k, v). lookup m k = Some v}"

lemma entries_graph:
  assumes "invar m"
  shows "mset (entries m) = mset_set (graph_of m)" and "finite (graph_of m)"
proof -
  have s: "set (entries m) = graph_of m" using in_entries_iff [OF assms] by (auto simp: graph_of_def)
  have "distinct (entries m)" using entries_distinct [OF assms] distinct_map by blast
  with s show "mset (entries m) = mset_set (graph_of m)" using mset_set_set by metis
  from s show "finite (graph_of m)" by (metis finite_set)
qed

lemma entries_change:
  assumes "invar m" and "invar m'" and "\<And>k'. lookup m' k' = (if k' = k then b else lookup m k')"
  shows "mset (entries m') + (case lookup m k of None \<Rightarrow> {#} | Some v \<Rightarrow> {#(k, v)#}) =
    mset (entries m) + (case b of None \<Rightarrow> {#} | Some v \<Rightarrow> {#(k, v)#})"
proof -
  define R where "R = {(k', v). k' \<noteq> k \<and> lookup m k' = Some v}"
  have "R \<subseteq> graph_of m" by (auto simp: R_def graph_of_def)
  then have fin: "finite R" using entries_graph(2) [OF assms(1)] by (rule finite_subset)
  have g: "graph_of m = (case lookup m k of None \<Rightarrow> R | Some v \<Rightarrow> insert (k, v) R)"
    "graph_of m' = (case b of None \<Rightarrow> R | Some v \<Rightarrow> insert (k, v) R)"
    using assms(3) by (auto simp: graph_of_def R_def split: option.splits if_splits)
  have "(k, v) \<notin> R" for v by (simp add: R_def)
  then have i: "mset_set (insert (k, v) R) = add_mset (k, v) (mset_set R)" for v using fin by simp
  show ?thesis
    unfolding entries_graph(1) [OF assms(1)] entries_graph(1) [OF assms(2)] g
    by (simp add: i split: option.splits)
qed

text \<open>Erasing every key that satisfies \<open>P\<close>, collected by an iteration beforehand.\<close>

lemma del_matching:
  assumes "invar m"
  shows "lookup (foldl (\<lambda>m k. del k m) m (filter P (map fst (entries m)))) k =
    (if P k then None else lookup m k)"
proof -
  have "lookup m k = None" if "P k" and "k \<notin> set (filter P (map fst (entries m)))"
    using that assms by (auto simp: entries_lookup [symmetric] map_of_eq_None_iff)
  then show ?thesis using del_all [OF assms, of "filter P (map fst (entries m))" k] by auto
qed

end

interpretation ll: dict "ml_find h" "\<lambda>k v m. snd (ml_insert_or_assign h k v m)" "ml_modify h"
  "\<lambda>k m. snd (ml_erase h k m)" ml_entries "ml_inv h" for h
  by unfold_locales
    (simp_all add: ml_find_insert_or_assign ml_find_modify ml_find_erase ml_entries_map_of
      ml_entries_distinct ml_inv_insert_or_assign ml_inv_modify ml_inv_erase)

section \<open>Refinement of finite maps\<close>

text \<open>
  The operations as a sequence of calls, with what each returns, on the bucket
  structure and on a finite map.
\<close>

datatype ('k, 'v) map_call =
    Insert_or_assign 'k 'v
  | Insert 'k 'v
  | Subscript 'k
  | Erase 'k
  | Find 'k
  | Clear

datatype 'v map_result = RBool bool | RNat nat | RVal "'v option" | RUnit

fun ml_step :: "('k \<Rightarrow> size_t) \<Rightarrow> 'v \<Rightarrow> ('k, 'v) map_call \<Rightarrow> ('k, 'v) unordered_map_ll
    \<Rightarrow> 'v map_result \<times> ('k, 'v) unordered_map_ll" where
  "ml_step h d (Insert_or_assign k v) m = (let (b, m') = ml_insert_or_assign h k v m in (RBool b, m'))"
| "ml_step h d (Insert k v) m = (let ((b, _), m') = ml_insert h k v m in (RBool b, m'))"
| "ml_step h d (Subscript k) m = (let (v, m') = ml_subscript h d k m in (RVal (Some v), m'))"
| "ml_step h d (Erase k) m = (let (n, m') = ml_erase h k m in (RNat n, m'))"
| "ml_step h d (Find k) m = (RVal (ml_find h m k), m)"
| "ml_step h d Clear m = (RUnit, ml_clear m)"

fun map_step :: "'v \<Rightarrow> ('k, 'v) map_call \<Rightarrow> ('k \<rightharpoonup> 'v) \<Rightarrow> 'v map_result \<times> ('k \<rightharpoonup> 'v)" where
  "map_step d (Insert_or_assign k v) m = (RBool (m k = None), m(k \<mapsto> v))"
| "map_step d (Insert k v) m = (RBool (m k = None), if m k = None then m(k \<mapsto> v) else m)"
| "map_step d (Subscript k) m =
     (case m k of None \<Rightarrow> (RVal (Some d), m(k \<mapsto> d)) | Some v \<Rightarrow> (RVal (Some v), m))"
| "map_step d (Erase k) m = (RNat (if m k = None then 0 else 1), m(k := None))"
| "map_step d (Find k) m = (RVal (m k), m)"
| "map_step d Clear m = (RUnit, Map.empty)"

fun run_calls :: "('c \<Rightarrow> 's \<Rightarrow> 'r \<times> 's) \<Rightarrow> 'c list \<Rightarrow> 's \<Rightarrow> 'r list \<times> 's" where
  "run_calls f [] s = ([], s)"
| "run_calls f (c # cs) s = (let (r, s') = f c s; (rs, s'') = run_calls f cs s' in (r # rs, s''))"

lemma ml_step_refines:
  assumes "ml_inv h m"
  shows "fst (ml_step h d c m) = fst (map_step d c (ml_find h m))
    \<and> ml_find h (snd (ml_step h d c m)) = snd (map_step d c (ml_find h m))
    \<and> ml_inv h (snd (ml_step h d c m))"
proof (cases c)
  case (Insert_or_assign k v)
  then show ?thesis using assms ml_insert_or_assign_laws [OF assms]
    by (auto simp: split_beta fun_eq_iff)
next
  case (Insert k v)
  then show ?thesis using assms ml_insert_laws [OF assms]
    by (auto simp: split_beta fun_eq_iff split: option.split)
next
  case (Subscript k)
  then show ?thesis using assms ml_subscript_laws [OF assms]
    by (auto simp: split_beta fun_eq_iff split: option.split)
next
  case (Erase k)
  then show ?thesis using assms ml_erase_laws [OF assms]
    by (auto simp: split_beta fun_eq_iff ml_count_def ml_contains_def)
next
  case (Find k)
  then show ?thesis using assms by simp
next
  case Clear
  then show ?thesis using assms ml_clear_laws [OF assms] by auto
qed

lemma ml_run_refines:
  assumes "ml_inv h m"
  shows "fst (run_calls (ml_step h d) cs m) = fst (run_calls (map_step d) cs (ml_find h m))
    \<and> ml_find h (snd (run_calls (ml_step h d) cs m)) = snd (run_calls (map_step d) cs (ml_find h m))
    \<and> ml_inv h (snd (run_calls (ml_step h d) cs m))"
  using assms
proof (induction cs arbitrary: m)
  case (Cons c cs)
  note step = ml_step_refines [OF Cons.prems, of d c]
  then have "ml_inv h (snd (ml_step h d c m))" by blast
  from Cons.IH [OF this] step show ?case by (simp add: split_beta)
qed simp

text \<open>
  C11. The bucket map behaves as a finite map: started with any positive number
  of buckets and whatever the hash function, every sequence of
  \<^verbatim>\<open>insert_or_assign\<close>, \<^verbatim>\<open>insert\<close>, \<^verbatim>\<open>operator[]\<close>, \<^verbatim>\<open>erase\<close>, \<^verbatim>\<open>find\<close> and
  \<^verbatim>\<open>clear\<close> calls returns what a finite map returns, the final lookups and
  \<^verbatim>\<open>size()\<close> agree with it, and iteration visits every key once.
\<close>

theorem unordered_map_ll_refines_map:
  fixes h :: "'k \<Rightarrow> size_t" and d :: 'v
  assumes "0 < n"
  shows "fst (run_calls (ml_step h d) cs (ml_create n)) = fst (run_calls (map_step d) cs Map.empty)
    \<and> (let m = snd (run_calls (ml_step h d) cs (ml_create n));
           f = snd (run_calls (map_step d) cs Map.empty)
       in ml_find h m = f \<and> ml_size m = card (dom f)
          \<and> distinct (map fst (ml_entries m)) \<and> map_of (ml_entries m) = f)"
proof -
  have i: "ml_inv h (ml_create n :: ('k, 'v) unordered_map_ll)" using assms by (rule ml_inv_create)
  have e: "ml_find h (ml_create n :: ('k, 'v) unordered_map_ll) = Map.empty"
    using assms by (simp add: fun_eq_iff)
  let ?m = "snd (run_calls (ml_step h d) cs (ml_create n))"
  note r = ml_run_refines [OF i, of d cs, unfolded e]
  then have inv: "ml_inv h ?m" by blast
  show ?thesis
    using r ml_size_card [OF inv] ml_entries_laws [OF inv] by (simp add: Let_def)
qed

theorem unordered_map_ll_refines_map_witness:
  "fst (run_calls (ml_step (\<lambda>k. of_nat k) (0::nat)) [Insert_or_assign 1 5, Insert 4 (6::nat), Insert 1 7, Erase 4, Find 1]
        (ml_create 3)) = [RBool True, RBool True, RBool False, RNat 1, RVal (Some 5)]
   \<and> ml_size (snd (run_calls (ml_step (\<lambda>k. of_nat k) (0::nat)) [Insert_or_assign (1::nat) 5] (ml_create 3))) = card (dom [1::nat \<mapsto> 5::nat])"
proof -
  have h: "(0::nat) < 3" by simp
  note t = unordered_map_ll_refines_map [OF h, of "\<lambda>k::nat. of_nat k" "0::nat"]
  show ?thesis
    using t [of "[Insert_or_assign 1 5, Insert 4 6, Insert 1 7, Erase 4, Find 1]"]
      t [of "[Insert_or_assign 1 5]"] by (simp add: Let_def)
qed

end
