(* ===== verification/Bdev_Alloc.thy ===== *)
theory Bdev_Alloc
  imports Prelude "HOL-Library.Multiset"
begin

text \<open>
  The space allocator of the block device module
  (context-runtime/modules/bdev, bdev\_runtime.cc): per-worker caches of freed
  blocks in six size categories, a bump-pointer heap behind them, and the
  handlers \<^verbatim>\<open>AllocateBlocks\<close> and \<^verbatim>\<open>FreeBlocks\<close>.

  Offsets and sizes are 64-bit words, as in the source, so that the heap
  pointer's additions wrap where the code's do. A \<^verbatim>\<open>bool\<close> result with an out
  parameter is an \<open>option\<close>. The worker locks serialise the calls that the model
  makes one after another; \<^verbatim>\<open>std::atomic\<close> fetch-and-add is the addition.
\<close>

section \<open>Data\<close>

record Block =
  offset :: u64
  bsize :: u64
  block_type :: u32

datatype BdevType = kFile | kRam

record PerfMetrics =
  read_bandwidth_mbps :: real
  write_bandwidth_mbps :: real
  read_latency_us :: real
  write_latency_us :: real
  iops :: real

record WorkerBlockMap =
  blocks :: "Block list list"

record GlobalBlockMap =
  worker_maps :: "WorkerBlockMap list"

record Heap =
  heap_ptr :: u64
  total_size :: u64
  heap_alignment :: u32

record Bdev =
  bdev_type :: BdevType
  file_path :: string
  worker_io_contexts :: "bool list"
  file_size :: u64
  alignment :: u32
  io_depth :: u32
  max_blocks_per_operation :: u32
  ram_buffer :: mem
  ram_size :: u64
  global_block_map :: GlobalBlockMap
  heap :: Heap
  total_reads :: u64
  total_writes :: u64
  total_bytes_read :: u64
  total_bytes_written :: u64
  perf_metrics :: PerfMetrics

definition kMaxCategories :: nat where
  "kMaxCategories = 6"

definition kBlockSizes :: "u64 list" where
  "kBlockSizes = [4096, 16384, 32768, 65536, 131072, 1048576]"

definition kMaxBlock :: u64 where
  "kMaxBlock = kBlockSizes ! (kMaxCategories - 1)"

section \<open>Size categories\<close>

text \<open>The loop over the categories: the first size that is large enough.\<close>

fun find_block_type_loop :: "int \<Rightarrow> u64 list \<Rightarrow> u64 \<Rightarrow> int \<times> u64" where
  "find_block_type_loop i [] io_size = (-1, io_size)"
| "find_block_type_loop i (s # ss) io_size =
     (if io_size \<le> s then (i, s) else find_block_type_loop (i + 1) ss io_size)"

definition FindBlockTypeForSize :: "u64 \<Rightarrow> int \<times> u64" where
  "FindBlockTypeForSize io_size = find_block_type_loop 0 kBlockSizes io_size"

definition FindBlockType :: "u64 \<Rightarrow> int" where
  "FindBlockType io_size = fst (FindBlockTypeForSize io_size)"

definition GetBlockSize :: "int \<Rightarrow> u64" where
  "GetBlockSize t = (if 0 \<le> t \<and> t < int kMaxCategories then kBlockSizes ! nat t else 0)"

section \<open>Block caches\<close>

definition WorkerBlockMap_new :: WorkerBlockMap where
  "WorkerBlockMap_new = \<lparr>blocks = replicate kMaxCategories []\<rparr>"

definition WorkerBlockMap_AllocateBlock :: "WorkerBlockMap \<Rightarrow> int \<Rightarrow> Block option \<times> WorkerBlockMap" where
  "WorkerBlockMap_AllocateBlock m t =
     (if t < 0 \<or> int kMaxCategories \<le> t then (None, m)
      else case blocks m ! nat t of
             [] \<Rightarrow> (None, m)
           | b # bs \<Rightarrow> (Some b, m\<lparr>blocks := (blocks m)[nat t := bs]\<rparr>))"

definition WorkerBlockMap_FreeBlock :: "WorkerBlockMap \<Rightarrow> Block \<Rightarrow> WorkerBlockMap" where
  "WorkerBlockMap_FreeBlock m b =
     (let t = sint (block_type b)
      in if 0 \<le> t \<and> t < int kMaxCategories
         then m\<lparr>blocks := (blocks m)[nat t := (blocks m ! nat t) @ [b]]\<rparr>
         else m)"

definition GlobalBlockMap_Init :: "nat \<Rightarrow> GlobalBlockMap" where
  "GlobalBlockMap_Init num_workers = \<lparr>worker_maps = replicate num_workers WorkerBlockMap_new\<rparr>"

definition alloc_from_worker :: "GlobalBlockMap \<Rightarrow> nat \<Rightarrow> int \<Rightarrow> Block option \<times> GlobalBlockMap" where
  "alloc_from_worker g w t =
     (let (r, m) = WorkerBlockMap_AllocateBlock (worker_maps g ! w) t
      in (r, g\<lparr>worker_maps := (worker_maps g)[w := m]\<rparr>))"

text \<open>The loop over up to four neighbours, \<^verbatim>\<open>(worker_idx + i) % num_workers\<close>.\<close>

fun alloc_from_others :: "GlobalBlockMap \<Rightarrow> nat \<Rightarrow> int \<Rightarrow> nat list \<Rightarrow> Block option \<times> GlobalBlockMap" where
  "alloc_from_others g w t [] = (None, g)"
| "alloc_from_others g w t (i # is) =
     (case alloc_from_worker g ((w + i) mod length (worker_maps g)) t of
        (Some b, g') \<Rightarrow> (Some b, g')
      | (None, g') \<Rightarrow> alloc_from_others g' w t is)"

definition GlobalBlockMap_AllocateBlock :: "GlobalBlockMap \<Rightarrow> int \<Rightarrow> u64 \<Rightarrow> Block option \<times> GlobalBlockMap" where
  "GlobalBlockMap_AllocateBlock g worker io_size =
     (if worker < 0 \<or> length (worker_maps g) \<le> nat worker then (None, g)
      else
        let t = FindBlockType io_size; w = nat worker; n = length (worker_maps g)
        in if t = -1 then (None, g)
           else case alloc_from_worker g w t of
                  (Some b, g') \<Rightarrow> (Some b, g')
                | (None, g') \<Rightarrow> alloc_from_others g' w t [i \<leftarrow> [1, 2, 3, 4]. i < n])"

definition GlobalBlockMap_FreeBlock :: "GlobalBlockMap \<Rightarrow> int \<Rightarrow> Block \<Rightarrow> bool \<times> GlobalBlockMap" where
  "GlobalBlockMap_FreeBlock g worker b =
     (if worker < 0 \<or> length (worker_maps g) \<le> nat worker then (False, g)
      else let w = nat worker
           in (True, g\<lparr>worker_maps := (worker_maps g)[w := WorkerBlockMap_FreeBlock (worker_maps g ! w) b]\<rparr>))"

section \<open>Heap\<close>

definition Heap_Init :: "u64 \<Rightarrow> u32 \<Rightarrow> Heap" where
  "Heap_Init sz al = \<lparr>heap_ptr = 0, total_size = sz, heap_alignment = (if al = 0 then 4096 else al)\<rparr>"

definition aligned_size :: "Heap \<Rightarrow> u64 \<Rightarrow> u64" where
  "aligned_size h block_size =
     (let al = (if heap_alignment h = 0 then 4096 else heap_alignment h)
      in ((block_size + ucast al - 1) div ucast al) * ucast al)"

definition Heap_Allocate :: "Heap \<Rightarrow> u64 \<Rightarrow> int \<Rightarrow> Block option \<times> Heap" where
  "Heap_Allocate h block_size t =
     (let asz = aligned_size h block_size;
          old_heap = heap_ptr h;
          h' = h\<lparr>heap_ptr := old_heap + asz\<rparr>
      in if old_heap + asz > total_size h then (None, h')
         else (Some \<lparr>offset = old_heap, bsize = asz, block_type = word_of_int t\<rparr>, h'))"

definition Heap_GetRemainingSize :: "Heap \<Rightarrow> u64" where
  "Heap_GetRemainingSize h = (if heap_ptr h \<ge> total_size h then 0 else total_size h - heap_ptr h)"

section \<open>AllocateBlocks and FreeBlocks\<close>

text \<open>Splitting a request into units of the largest category.\<close>

function divide_into_max :: "u64 \<Rightarrow> u64 list" where
  "divide_into_max remaining =
     (if remaining \<ge> kMaxBlock then kMaxBlock # divide_into_max (remaining - kMaxBlock)
      else if remaining > 0 then [remaining] else [])"
  by pat_completeness auto
termination
proof (relation "measure unat")
  fix r :: u64
  assume "kMaxBlock \<le> r"
  then have "unat (r - kMaxBlock) = unat r - 1048576" and "1048576 \<le> unat r"
    by (simp_all add: unat_sub word_le_nat_alt kMaxBlock_def kBlockSizes_def kMaxCategories_def)
  then show "(r - kMaxBlock, r) \<in> measure unat" by simp
qed simp

declare divide_into_max.simps [simp del]

definition io_divisions :: "u64 \<Rightarrow> u64 list" where
  "io_divisions sz = (if sz \<ge> kMaxBlock then divide_into_max sz else [sz])"

definition free_blocks_on :: "int \<Rightarrow> Block list \<Rightarrow> GlobalBlockMap \<Rightarrow> GlobalBlockMap" where
  "free_blocks_on worker bs g = foldl (\<lambda>g b. snd (GlobalBlockMap_FreeBlock g worker b)) g bs"

text \<open>One division: from the caches, else from the heap with the category's size.\<close>

definition allocate_one :: "Bdev \<Rightarrow> int \<Rightarrow> u64 \<Rightarrow> Block option \<times> Bdev" where
  "allocate_one s worker io_size =
     (case GlobalBlockMap_AllocateBlock (global_block_map s) worker io_size of
        (Some b, g) \<Rightarrow> (Some b, s\<lparr>global_block_map := g\<rparr>)
      | (None, g) \<Rightarrow>
          (let (t0, alloc_size) = FindBlockTypeForSize io_size;
               t = (if t0 = -1 then int kMaxCategories - 1 else t0);
               (r, h) = Heap_Allocate (heap s) alloc_size t
           in (r, s\<lparr>global_block_map := g, heap := h\<rparr>)))"

fun allocate_loop :: "Bdev \<Rightarrow> int \<Rightarrow> u64 list \<Rightarrow> Block list \<Rightarrow> u32 \<times> Block list \<times> Bdev" where
  "allocate_loop s worker [] local_blocks = (0, local_blocks, s)"
| "allocate_loop s worker (io_size # ds) local_blocks =
     (case allocate_one s worker io_size of
        (None, s') \<Rightarrow>
          (1, [], s'\<lparr>global_block_map := free_blocks_on worker local_blocks (global_block_map s')\<rparr>)
      | (Some b, s') \<Rightarrow>
          if length local_blocks \<ge> unat (max_blocks_per_operation s')
          then (2, [], s'\<lparr>global_block_map := free_blocks_on worker local_blocks (global_block_map s')\<rparr>)
          else allocate_loop s' worker ds (local_blocks @ [b]))"

text \<open>The handler: its return code, the blocks it puts into the task, the new state.\<close>

definition AllocateBlocks :: "Bdev \<Rightarrow> int \<Rightarrow> u64 \<Rightarrow> u32 \<times> Block list \<times> Bdev" where
  "AllocateBlocks s worker sz =
     (if sz = 0 then (0, [], s) else allocate_loop s worker (io_divisions sz) [])"

definition FreeBlocks :: "Bdev \<Rightarrow> int \<Rightarrow> Block list \<Rightarrow> u32 \<times> Bdev" where
  "FreeBlocks s worker bs = (0, s\<lparr>global_block_map := free_blocks_on worker bs (global_block_map s)\<rparr>)"

section \<open>Size categories: the first one that is large enough\<close>

lemma kBlockSizes_length [simp]: "length kBlockSizes = kMaxCategories"
  by (simp add: kBlockSizes_def kMaxCategories_def)

lemma unat_kMaxBlock [simp]: "unat kMaxBlock = 1048576"
  by (simp add: kMaxBlock_def kBlockSizes_def kMaxCategories_def)

lemma find_block_type_loop_spec:
  "case find_block_type_loop i ss n of (t, sz) \<Rightarrow>
     (t = -1 \<and> sz = n \<and> (\<forall>s \<in> set ss. s < n)) \<or>
     (\<exists>j < length ss. t = i + int j \<and> sz = ss ! j \<and> n \<le> ss ! j \<and> (\<forall>l < j. ss ! l < n))"
proof (induction i ss n rule: find_block_type_loop.induct)
  case (2 i s ss n)
  show ?case
  proof (cases "n \<le> s")
    case True
    then show ?thesis by auto
  next
    case False
    then have sn: "s < n" by simp
    obtain t sz where r: "find_block_type_loop (i + 1) ss n = (t, sz)" by fastforce
    from "2.IH" [OF False] r consider
      (none) "t = -1" "sz = n" "\<forall>s \<in> set ss. s < n" |
      (found) j where "j < length ss" "t = i + 1 + int j" "sz = ss ! j" "n \<le> ss ! j" "\<forall>l < j. ss ! l < n"
      by auto
    then show ?thesis
    proof cases
      case none
      with sn False r show ?thesis by simp
    next
      case found
      then have "Suc j < length (s # ss) \<and> t = i + int (Suc j) \<and> sz = (s # ss) ! Suc j \<and>
          n \<le> (s # ss) ! Suc j \<and> (\<forall>l < Suc j. (s # ss) ! l < n)"
        using sn by (auto simp: less_Suc_eq_0_disj)
      with False r show ?thesis by (simp only: find_block_type_loop.simps if_False prod.case) blast
    qed
  qed
qed simp

lemma FindBlockTypeForSize_small:
  assumes "unat n \<le> 1048576"
  obtains j where "j < kMaxCategories" and "FindBlockTypeForSize n = (int j, kBlockSizes ! j)"
    and "n \<le> kBlockSizes ! j" and "\<forall>l < j. kBlockSizes ! l < n"
proof -
  have "n \<le> 1048576" using assms by (simp add: word_le_nat_alt)
  moreover have "1048576 \<in> set kBlockSizes" by (simp add: kBlockSizes_def)
  ultimately have "\<not> (\<forall>s \<in> set kBlockSizes. s < n)" using leD by blast
  then show thesis
    using find_block_type_loop_spec [where i = 0 and ss = kBlockSizes and n = n] that
    by (auto simp: FindBlockTypeForSize_def split_beta prod_eq_iff)
qed

lemma unat_kBlockSizes: "j < kMaxCategories \<Longrightarrow> unat (kBlockSizes ! j) \<le> 1048576"
proof -
  assume "j < kMaxCategories"
  then have "j \<in> {0, 1, 2, 3, 4, 5}" by (auto simp: kMaxCategories_def)
  then show ?thesis by (auto simp: kBlockSizes_def)
qed

lemma io_divisions_spec:
  "sum_list (map unat (io_divisions sz)) = unat sz \<and> (\<forall>d \<in> set (io_divisions sz). unat d \<le> 1048576)"
proof -
  have *: "sum_list (map unat (divide_into_max sz)) = unat sz \<and>
      (\<forall>d \<in> set (divide_into_max sz). unat d \<le> 1048576)" for sz
  proof (induction sz rule: divide_into_max.induct)
    case (1 r)
    show ?case
    proof (cases "kMaxBlock \<le> r")
      case True
      then have "unat (r - kMaxBlock) = unat r - 1048576" and "1048576 \<le> unat r"
        by (simp_all add: unat_sub word_le_nat_alt)
      with True "1.IH" show ?thesis by (simp add: divide_into_max.simps [of r])
    next
      case False
      then have "unat r \<le> 1048576" by (simp add: word_le_nat_alt)
      moreover have "r > 0 \<or> r = 0" by (simp add: word_neq_0_conv [symmetric])
      ultimately show ?thesis using False by (auto simp: divide_into_max.simps [of r])
    qed
  qed
  show ?thesis
  proof (cases "kMaxBlock \<le> sz")
    case True
    then show ?thesis using * by (simp add: io_divisions_def)
  next
    case False
    then have "unat sz \<le> 1048576" by (simp add: word_le_nat_alt)
    with False show ?thesis by (simp add: io_divisions_def)
  qed
qed

section \<open>The blocks held by the caches\<close>

lemma sum_list_update_add:
  fixes f :: "'a \<Rightarrow> 'b::comm_monoid_add"
  assumes "i < length xs"
  shows "sum_list (map f (xs[i := v])) + f (xs ! i) = sum_list (map f xs) + f v"
  using assms
proof (induction xs arbitrary: i)
  case (Cons x xs)
  show ?case
  proof (cases i)
    case (Suc j)
    with Cons.IH [of j] Cons.prems show ?thesis by (simp add: add.assoc)
  qed (simp add: ac_simps)
qed simp

definition wmap_cached :: "WorkerBlockMap \<Rightarrow> Block multiset" where
  "wmap_cached m = sum_list (map mset (blocks m))"

definition cached :: "GlobalBlockMap \<Rightarrow> Block multiset" where
  "cached g = sum_list (map wmap_cached (worker_maps g))"

text \<open>A block of category \<open>i\<close> spans at least that category's size.\<close>

definition block_ok :: "Block \<Rightarrow> bool" where
  "block_ok b \<longleftrightarrow> unat (block_type b) < kMaxCategories \<and> kBlockSizes ! unat (block_type b) \<le> bsize b"

definition wmap_wf :: "WorkerBlockMap \<Rightarrow> bool" where
  "wmap_wf m \<longleftrightarrow> length (blocks m) = kMaxCategories \<and>
     (\<forall>i < kMaxCategories. \<forall>b \<in> set (blocks m ! i). block_ok b \<and> unat (block_type b) = i)"

definition gbm_wf :: "GlobalBlockMap \<Rightarrow> bool" where
  "gbm_wf g \<longleftrightarrow> (\<forall>m \<in> set (worker_maps g). wmap_wf m)"

text \<open>What taking a block of category \<open>t\<close> out of the caches does.\<close>

definition took :: "GlobalBlockMap \<Rightarrow> int \<Rightarrow> Block option \<times> GlobalBlockMap \<Rightarrow> bool" where
  "took g t r \<longleftrightarrow> gbm_wf (snd r) \<and> length (worker_maps (snd r)) = length (worker_maps g) \<and>
     (case fst r of
        None \<Rightarrow> cached (snd r) = cached g
      | Some b \<Rightarrow> cached g = add_mset b (cached (snd r)) \<and> block_ok b \<and> int (unat (block_type b)) = t)"

lemma wmap_alloc_spec:
  assumes "wmap_wf m"
  shows "wmap_wf (snd (WorkerBlockMap_AllocateBlock m t)) \<and>
    (case fst (WorkerBlockMap_AllocateBlock m t) of
        None \<Rightarrow> snd (WorkerBlockMap_AllocateBlock m t) = m
      | Some b \<Rightarrow> wmap_cached m = add_mset b (wmap_cached (snd (WorkerBlockMap_AllocateBlock m t))) \<and>
                  block_ok b \<and> int (unat (block_type b)) = t)"
proof (cases "t < 0 \<or> int kMaxCategories \<le> t \<or> blocks m ! nat t = []")
  case True
  then show ?thesis using assms by (auto simp: WorkerBlockMap_AllocateBlock_def)
next
  case False
  then obtain b bs where b: "blocks m ! nat t = b # bs" by (cases "blocks m ! nat t") auto
  have t: "nat t < kMaxCategories" "nat t < length (blocks m)" "0 \<le> t"
    using False assms by (auto simp: wmap_wf_def)
  have r: "WorkerBlockMap_AllocateBlock m t = (Some b, m\<lparr>blocks := (blocks m)[nat t := bs]\<rparr>)"
    using False b by (simp add: WorkerBlockMap_AllocateBlock_def)
  have "b \<in> set (blocks m ! nat t)" using b by simp
  with t assms have ok: "block_ok b \<and> unat (block_type b) = nat t" unfolding wmap_wf_def by blast
  have "sum_list (map mset ((blocks m)[nat t := bs])) + mset (b # bs) = sum_list (map mset (blocks m)) + mset bs"
    using sum_list_update_add [OF t(2), of mset bs] b by simp
  then have c: "sum_list (map mset (blocks m)) = add_mset b (sum_list (map mset ((blocks m)[nat t := bs])))"
    by simp
  have "wmap_wf (m\<lparr>blocks := (blocks m)[nat t := bs]\<rparr>)"
    using assms b t by (auto simp: wmap_wf_def nth_list_update)
  with r c ok t(3) show ?thesis by (simp add: wmap_cached_def)
qed

lemma alloc_from_worker_took:
  assumes "gbm_wf g" and "w < length (worker_maps g)"
  shows "took g t (alloc_from_worker g w t)"
proof -
  let ?m = "worker_maps g ! w"
  obtain r m' where rm: "WorkerBlockMap_AllocateBlock ?m t = (r, m')" by fastforce
  have "wmap_wf ?m" using assms by (simp add: gbm_wf_def)
  note w = wmap_alloc_spec [OF this, of t, unfolded rm]
  have c: "cached (g\<lparr>worker_maps := (worker_maps g)[w := m']\<rparr>) + wmap_cached ?m = cached g + wmap_cached m'"
    using sum_list_update_add [OF assms(2), of wmap_cached m'] by (simp add: cached_def)
  have wf: "gbm_wf (g\<lparr>worker_maps := (worker_maps g)[w := m']\<rparr>)"
    using assms w by (auto simp: gbm_wf_def dest!: set_update_subset_insert [THEN subsetD])
  show ?thesis
  proof (cases r)
    case None
    with w c wf show ?thesis by (simp add: took_def alloc_from_worker_def rm)
  next
    case (Some b)
    with w c have "cached g = add_mset b (cached (g\<lparr>worker_maps := (worker_maps g)[w := m']\<rparr>))" by simp
    with Some w wf show ?thesis by (simp add: took_def alloc_from_worker_def rm)
  qed
qed

lemma took_trans: "took g t (None, g') \<Longrightarrow> took g' t r \<Longrightarrow> took g t r"
  by (auto simp: took_def split: option.splits)

lemma alloc_from_others_took:
  assumes "gbm_wf g" and "0 < length (worker_maps g)"
  shows "took g t (alloc_from_others g w t is)"
  using assms
proof (induction "is" arbitrary: g)
  case Nil
  then show ?case by (simp add: took_def)
next
  case (Cons i "is")
  obtain r g' where rg: "alloc_from_worker g ((w + i) mod length (worker_maps g)) t = (r, g')" by fastforce
  have "(w + i) mod length (worker_maps g) < length (worker_maps g)" using Cons.prems by simp
  from alloc_from_worker_took [OF Cons.prems(1) this, of t] have tk: "took g t (r, g')" by (simp add: rg)
  show ?case
  proof (cases r)
    case None
    with tk have "gbm_wf g'" "0 < length (worker_maps g')" using Cons.prems by (auto simp: took_def)
    from took_trans [OF tk [unfolded None] Cons.IH [OF this]] None rg show ?thesis by simp
  next
    case (Some b)
    with tk rg show ?thesis by simp
  qed
qed

lemma GlobalBlockMap_AllocateBlock_took:
  assumes "gbm_wf g"
  shows "took g (FindBlockType n) (GlobalBlockMap_AllocateBlock g worker n)"
proof (cases "worker < 0 \<or> length (worker_maps g) \<le> nat worker \<or> FindBlockType n = -1")
  case True
  then show ?thesis using assms by (auto simp: GlobalBlockMap_AllocateBlock_def took_def Let_def)
next
  case False
  obtain r g' where rg: "alloc_from_worker g (nat worker) (FindBlockType n) = (r, g')" by fastforce
  from alloc_from_worker_took [OF assms, of "nat worker" "FindBlockType n"] False rg
  have tk: "took g (FindBlockType n) (r, g')" by simp
  show ?thesis
  proof (cases r)
    case None
    have g': "gbm_wf g'" "0 < length (worker_maps g')" using tk False by (auto simp: took_def)
    show ?thesis
      using took_trans [OF tk [unfolded None] alloc_from_others_took [OF g']] False None rg
      by (simp add: GlobalBlockMap_AllocateBlock_def Let_def)
  next
    case (Some b)
    with tk rg False show ?thesis by (simp add: GlobalBlockMap_AllocateBlock_def Let_def)
  qed
qed

lemma unat_of_uint: "uint x = int j \<Longrightarrow> unat x = j"
proof -
  assume "uint x = int j"
  then have "int (unat x) = int j" by (simp only: uint_nat)
  then show "unat x = j" by (simp only: of_nat_eq_iff)
qed

lemma sint_small_u32:
  fixes x :: u32
  assumes "unat x < kMaxCategories"
  shows "sint x = int (unat x)"
proof -
  have "x < 6" using assms by (simp add: word_less_nat_alt kMaxCategories_def)
  then have lt: "uint x < 6" by (simp add: word_less_def)
  have "- (2 ^ 31) \<le> uint x" by (rule order_trans [of _ 0]) simp_all
  moreover have "uint x < 2 ^ 31" using lt by simp
  ultimately have "signed_take_bit 31 (uint x) = uint x"
    by (rule signed_take_bit_int_eq_self)
  then show ?thesis by (simp add: sint_uint)
qed

lemma wmap_free_spec:
  assumes "wmap_wf m" and "block_ok b"
  shows "wmap_wf (WorkerBlockMap_FreeBlock m b) \<and>
    wmap_cached (WorkerBlockMap_FreeBlock m b) = add_mset b (wmap_cached m)"
proof -
  let ?t = "unat (block_type b)"
  let ?l = "(blocks m ! ?t) @ [b]"
  have t: "?t < kMaxCategories" "?t < length (blocks m)" using assms by (auto simp: block_ok_def wmap_wf_def)
  have r: "WorkerBlockMap_FreeBlock m b = m\<lparr>blocks := (blocks m)[?t := ?l]\<rparr>"
    using t(1) by (simp only: WorkerBlockMap_FreeBlock_def Let_def sint_small_u32 nat_int
        of_nat_less_iff of_nat_0_le_iff simp_thms if_True)
  have "sum_list (map mset ((blocks m)[?t := ?l])) + mset (blocks m ! ?t) = sum_list (map mset (blocks m)) + mset ?l"
    by (rule sum_list_update_add [OF t(2)])
  then have c: "sum_list (map mset ((blocks m)[?t := ?l])) = add_mset b (sum_list (map mset (blocks m)))" by simp
  have "wmap_wf (m\<lparr>blocks := (blocks m)[?t := ?l]\<rparr>)"
    using assms t by (auto simp: wmap_wf_def nth_list_update)
  with r c show ?thesis by (simp add: wmap_cached_def)
qed

lemma gbm_free_spec:
  assumes "gbm_wf g" and "block_ok b"
  shows "gbm_wf (snd (GlobalBlockMap_FreeBlock g worker b)) \<and>
    cached (snd (GlobalBlockMap_FreeBlock g worker b)) =
      (if 0 \<le> worker \<and> nat worker < length (worker_maps g) then add_mset b (cached g) else cached g) \<and>
    length (worker_maps (snd (GlobalBlockMap_FreeBlock g worker b))) = length (worker_maps g)"
proof (cases "0 \<le> worker \<and> nat worker < length (worker_maps g)")
  case True
  let ?w = "nat worker"
  let ?m = "WorkerBlockMap_FreeBlock (worker_maps g ! ?w) b"
  have "wmap_wf (worker_maps g ! ?w)" using assms True by (simp add: gbm_wf_def)
  note f = wmap_free_spec [OF this assms(2)]
  have "cached (g\<lparr>worker_maps := (worker_maps g)[?w := ?m]\<rparr>) + wmap_cached (worker_maps g ! ?w)
      = cached g + wmap_cached ?m"
    using sum_list_update_add [of ?w "worker_maps g" wmap_cached ?m] True by (simp add: cached_def)
  with f have c: "cached (g\<lparr>worker_maps := (worker_maps g)[?w := ?m]\<rparr>) = add_mset b (cached g)" by simp
  have "gbm_wf (g\<lparr>worker_maps := (worker_maps g)[?w := ?m]\<rparr>)"
    using assms f by (auto simp: gbm_wf_def dest!: set_update_subset_insert [THEN subsetD])
  with True c show ?thesis by (simp add: GlobalBlockMap_FreeBlock_def Let_def)
next
  case False
  then show ?thesis using assms by (auto simp: GlobalBlockMap_FreeBlock_def)
qed

lemma free_blocks_on_spec:
  assumes "gbm_wf g" and "\<forall>b \<in> set bs. block_ok b"
  shows "gbm_wf (free_blocks_on worker bs g) \<and>
    cached (free_blocks_on worker bs g) =
      (if 0 \<le> worker \<and> nat worker < length (worker_maps g) then cached g + mset bs else cached g) \<and>
    length (worker_maps (free_blocks_on worker bs g)) = length (worker_maps g)"
  using assms
proof (induction bs arbitrary: g)
  case (Cons b bs)
  note f = gbm_free_spec [OF Cons.prems(1), of b worker]
  from Cons.IH [of "snd (GlobalBlockMap_FreeBlock g worker b)"] f Cons.prems(2)
  show ?case by (simp add: free_blocks_on_def)
qed (simp add: free_blocks_on_def)

section \<open>The heap\<close>

text \<open>The alignment in force: 4096 where the field is zero.\<close>

definition eff_align :: "Heap \<Rightarrow> nat" where
  "eff_align h = unat (if heap_alignment h = 0 then 4096 else heap_alignment h)"

lemma eff_align_pos: "0 < eff_align h"
  by (auto simp: eff_align_def unat_gt_0)

lemma eff_align_bound: "eff_align h < 2 ^ 32"
  using unsigned_less [of "if heap_alignment h = 0 then 4096 else heap_alignment h", where 'a = nat]
  by (simp add: eff_align_def)

lemma round_up_bounds:
  fixes n a :: nat
  assumes "0 < a"
  shows "n \<le> (n + a - 1) div a * a" and "(n + a - 1) div a * a \<le> n + a - 1"
    and "(n + a - 1) div a * a < n + a"
proof -
  have d: "(n + a - 1) div a * a + (n + a - 1) mod a = n + a - 1" by simp
  have m: "(n + a - 1) mod a < a" using assms by simp
  show "(n + a - 1) div a * a \<le> n + a - 1" using d by linarith
  show "n \<le> (n + a - 1) div a * a" using d m assms by linarith
  show "(n + a - 1) div a * a < n + a" using d assms by linarith
qed

lemma unat_aligned_size:
  assumes "unat n + eff_align h \<le> 2 ^ 64"
  shows "unat (aligned_size h n) = (unat n + eff_align h - 1) div eff_align h * eff_align h"
proof -
  define a :: u64 where "a = ucast (if heap_alignment h = 0 then 4096 else heap_alignment h)"
  have a: "unat a = eff_align h"
    using eff_align_bound [of h] by (simp add: a_def eff_align_def unsigned_ucast_eq take_bit_nat_eq_self)
  have p: "0 < eff_align h" by (rule eff_align_pos)
  have "unat (a - 1) = eff_align h - 1"
    using p a by (subst unat_sub) (auto simp: word_le_nat_alt)
  with assms p have "unat (n + (a - 1)) = unat n + eff_align h - 1"
    using unat_add_no_overflow [of n "a - 1"] by simp
  moreover have "n + a - 1 = n + (a - 1)" by simp
  ultimately have s: "unat (n + a - 1) = unat n + eff_align h - 1" by (simp only:)
  have q: "unat ((n + a - 1) div a) = (unat n + eff_align h - 1) div eff_align h"
    by (simp only: unat_div a s)
  have "unat ((n + a - 1) div a) * unat a < 2 ^ LENGTH(64)"
    unfolding q a by (rule le_less_trans [OF round_up_bounds(2) [OF p]]) (use assms p in simp)
  then have "unat ((n + a - 1) div a * a) = unat ((n + a - 1) div a) * unat a"
    by (simp only: unat_mult_lem)
  then show ?thesis by (simp only: aligned_size_def Let_def a_def [symmetric] q a)
qed

text \<open>A failing heap allocation leaves the pointer past the end: nothing is left to hand out.\<close>

lemma Heap_Allocate_fail:
  assumes "Heap_Allocate h n t = (None, h')" and "unat (heap_ptr h) + unat (aligned_size h n) < 2 ^ 64"
  shows "heap_ptr h' = heap_ptr h + aligned_size h n \<and> Heap_GetRemainingSize h' = 0"
  using assms by (auto simp: Heap_Allocate_def Let_def Heap_GetRemainingSize_def split: if_splits)

section \<open>Ownership of the device's bytes\<close>

text \<open>
  The allocator's invariant, over the blocks in the caches and the blocks
  clients hold: no byte of the device belongs to two of them, all of them lie
  below the heap pointer and inside the device, and each is as large as its
  category says. It is a statement about a multiset, so that moving a block
  between a cache and a client leaves it as it is.
\<close>

definition covers :: "Block \<Rightarrow> nat \<Rightarrow> bool" where
  "covers b a \<longleftrightarrow> unat (offset b) \<le> a \<and> a < unat (offset b) + unat (bsize b)"

definition owners :: "Block multiset \<Rightarrow> nat \<Rightarrow> nat" where
  "owners M a = size (filter_mset (\<lambda>b. covers b a) M)"

definition block_end :: "Block \<Rightarrow> nat" where
  "block_end b = unat (offset b) + unat (bsize b)"

definition alloc_inv :: "Bdev \<Rightarrow> Block multiset \<Rightarrow> bool" where
  "alloc_inv s L \<longleftrightarrow>
     gbm_wf (global_block_map s) \<and>
     (\<forall>b \<in># L. block_ok b) \<and>
     (\<forall>b \<in># cached (global_block_map s) + L.
        block_end b \<le> unat (heap_ptr (heap s)) \<and> block_end b \<le> unat (total_size (heap s))) \<and>
     (\<forall>a. owners (cached (global_block_map s) + L) a \<le> 1)"

lemma owners_add_mset: "owners (add_mset b M) a = (if covers b a then 1 else 0) + owners M a"
  by (simp add: owners_def)

lemma owners_mono: "M \<subseteq># N \<Longrightarrow> owners M a \<le> owners N a"
  unfolding owners_def by (intro size_mset_mono multiset_filter_mono)

lemma owners_above: "\<forall>b \<in># M. block_end b \<le> n \<Longrightarrow> n \<le> a \<Longrightarrow> owners M a = 0"
  by (fastforce simp: owners_def covers_def block_end_def filter_mset_eq_mempty_iff)

text \<open>Dropping blocks, from the client's side or from the caches, keeps the invariant.\<close>

lemma alloc_inv_shrink:
  assumes "alloc_inv s L" and "gbm_wf g" and "cached g + L' \<subseteq># cached (global_block_map s) + L"
    and "\<forall>b \<in># L'. block_ok b"
  shows "alloc_inv (s\<lparr>global_block_map := g\<rparr>) L'"
proof -
  have o: "owners (cached g + L') a \<le> 1" for a
  proof -
    have "owners (cached g + L') a \<le> owners (cached (global_block_map s) + L) a"
      by (rule owners_mono [OF assms(3)])
    also have "\<dots> \<le> 1" using assms(1) by (simp add: alloc_inv_def)
    finally show ?thesis .
  qed
  have "b \<in># cached (global_block_map s) + L" if "b \<in># cached g + L'" for b
    using mset_subset_eqD [OF assms(3) that] .
  with assms(1) have "\<forall>b \<in># cached g + L'. block_end b \<le> unat (heap_ptr (heap s)) \<and>
      block_end b \<le> unat (total_size (heap s))"
    unfolding alloc_inv_def by meson
  with o assms(2,4) show ?thesis by (simp add: alloc_inv_def)
qed

lemma alloc_inv_disjoint:
  assumes "alloc_inv s L" and "{#b, c#} \<subseteq># L"
  shows "\<not> (covers b a \<and> covers c a)"
proof
  assume c: "covers b a \<and> covers c a"
  have "L \<subseteq># cached (global_block_map s) + L" by simp
  with assms(2) have "{#b, c#} \<subseteq># cached (global_block_map s) + L" by (rule subset_mset.order_trans)
  from owners_mono [OF this, of a] have "owners {#b, c#} a \<le> 1"
    using assms(1) order_trans unfolding alloc_inv_def by blast
  with c show False by (simp add: owners_def)
qed

section \<open>One allocation\<close>

lemma Heap_Allocate_spec:
  assumes inv: "alloc_inv s L" and n: "unat n \<le> 1048576"
    and room: "unat (heap_ptr (heap s)) + 1048576 + eff_align (heap s) \<le> 2 ^ 64"
    and ok: "j < kMaxCategories" "kBlockSizes ! j \<le> n"
    and r: "Heap_Allocate (heap s) n (int j) = (r, h)"
  shows "alloc_inv (s\<lparr>heap := h\<rparr>) (case r of None \<Rightarrow> L | Some b \<Rightarrow> add_mset b L)"
    and "\<And>b. r = Some b \<Longrightarrow> n \<le> bsize b \<and> block_ok b"
    and "unat (heap_ptr h) \<le> unat (heap_ptr (heap s)) + 1048576 + eff_align (heap s)"
    and "total_size h = total_size (heap s)" and "eff_align h = eff_align (heap s)"
proof -
  let ?h = "heap s" and ?sz = "aligned_size (heap s) n"
  note rb = round_up_bounds [OF eff_align_pos [of ?h], of "unat n"]
  have sz: "unat n \<le> unat ?sz" "unat ?sz < unat n + eff_align ?h"
    using unat_aligned_size [of n ?h] rb n room by auto
  have hp: "unat (heap_ptr ?h + ?sz) = unat (heap_ptr ?h) + unat ?sz"
    using sz n room by (intro unat_add_no_overflow) simp
  have h: "heap_ptr h = heap_ptr ?h + ?sz" "total_size h = total_size ?h" "heap_alignment h = heap_alignment ?h"
    using r by (auto simp: Heap_Allocate_def Let_def split: if_splits)
  show "unat (heap_ptr h) \<le> unat (heap_ptr ?h) + 1048576 + eff_align ?h" using h(1) hp sz n by simp
  show "total_size h = total_size ?h" by (fact h(2))
  show "eff_align h = eff_align ?h" using h(3) by (simp add: eff_align_def)
  have mono: "unat (heap_ptr ?h) \<le> unat (heap_ptr h)" using h(1) hp by simp
  have t: "unat (word_of_int (int j) :: u32) = j"
    using ok(1) by (simp add: unat_of_nat kMaxCategories_def take_bit_nat_eq_self)
  show bok: "n \<le> bsize b \<and> block_ok b" if "r = Some b" for b
    using r that sz(1) ok t by (auto simp: Heap_Allocate_def Let_def block_ok_def word_le_nat_alt split: if_splits)
  show "alloc_inv (s\<lparr>heap := h\<rparr>) (case r of None \<Rightarrow> L | Some b \<Rightarrow> add_mset b L)"
  proof (cases r)
    case None
    with inv mono h(2) show ?thesis by (auto simp: alloc_inv_def intro: order_trans)
  next
    case (Some b)
    then have b: "offset b = heap_ptr ?h" "bsize b = ?sz" "heap_ptr ?h + ?sz \<le> total_size ?h"
      using r by (auto simp: Heap_Allocate_def Let_def split: if_splits)
    let ?M = "cached (global_block_map s) + L"
    have ends: "\<forall>c \<in># ?M. block_end c \<le> unat (heap_ptr ?h)" using inv by (simp add: alloc_inv_def)
    have "owners (add_mset b ?M) a \<le> 1" for a
    proof (cases "covers b a")
      case True
      then have "owners ?M a = 0"
        using b(1) by (intro owners_above [OF ends]) (simp add: covers_def)
      then show ?thesis by (simp add: owners_add_mset)
    next
      case False
      then show ?thesis using inv by (simp add: owners_add_mset alloc_inv_def)
    qed
    moreover have "block_end b \<le> unat (heap_ptr h) \<and> block_end b \<le> unat (total_size h)"
      using b h hp by (simp add: block_end_def word_le_nat_alt)
    ultimately show ?thesis
      using inv mono h(2) Some bok [OF Some] by (auto simp: alloc_inv_def intro: order_trans)
  qed
qed

text \<open>How far one call may move the heap pointer, and what it leaves alone.\<close>

definition heap_step :: "Bdev \<Rightarrow> Bdev \<Rightarrow> nat \<Rightarrow> bool" where
  "heap_step s s' k \<longleftrightarrow>
     unat (heap_ptr (heap s')) \<le> unat (heap_ptr (heap s)) + k * (1048576 + eff_align (heap s)) \<and>
     total_size (heap s') = total_size (heap s) \<and> eff_align (heap s') = eff_align (heap s) \<and>
     max_blocks_per_operation s' = max_blocks_per_operation s"

lemma heap_step_trans: "heap_step s s' k \<Longrightarrow> heap_step s' s'' l \<Longrightarrow> heap_step s s'' (k + l)"
  by (auto simp: heap_step_def algebra_simps)

lemma allocate_one_spec:
  assumes inv: "alloc_inv s L" and n: "unat n \<le> 1048576"
    and room: "unat (heap_ptr (heap s)) + (1048576 + eff_align (heap s)) \<le> 2 ^ 64"
    and r: "allocate_one s worker n = (r, s')"
  shows "alloc_inv s' (case r of None \<Rightarrow> L | Some b \<Rightarrow> add_mset b L)"
    and "\<And>b. r = Some b \<Longrightarrow> n \<le> bsize b \<and> block_ok b"
    and "heap_step s s' 1"
proof -
  obtain q g where q: "GlobalBlockMap_AllocateBlock (global_block_map s) worker n = (q, g)" by fastforce
  obtain j where j: "j < kMaxCategories" "FindBlockTypeForSize n = (int j, kBlockSizes ! j)" "n \<le> kBlockSizes ! j"
    using FindBlockTypeForSize_small [OF n] by blast
  have t: "FindBlockType n = int j" using j(2) by (simp add: FindBlockType_def)
  have "gbm_wf (global_block_map s)" using inv by (simp add: alloc_inv_def)
  note tk = GlobalBlockMap_AllocateBlock_took [OF this, of n worker, unfolded q t took_def, simplified]
  have "alloc_inv s' (case r of None \<Rightarrow> L | Some b \<Rightarrow> add_mset b L) \<and>
      (\<forall>b. r = Some b \<longrightarrow> n \<le> bsize b \<and> block_ok b) \<and> heap_step s s' 1"
  proof (cases q)
    case (Some b)
    have s': "r = Some b" "s' = s\<lparr>global_block_map := g\<rparr>" using r q Some by (auto simp: allocate_one_def)
    have b: "cached (global_block_map s) = add_mset b (cached g)" "block_ok b" "unat (block_type b) = j" "gbm_wf g"
      using tk Some by (auto dest: unat_of_uint)
    have "alloc_inv (s\<lparr>global_block_map := g\<rparr>) (add_mset b L)"
      by (rule alloc_inv_shrink [OF inv b(4)]) (use b inv in \<open>auto simp: alloc_inv_def\<close>)
    moreover have "n \<le> bsize b" using b(2,3) j(3) by (auto simp: block_ok_def)
    ultimately show ?thesis using s' b(2) by (simp add: heap_step_def)
  next
    case None
    let ?s = "s\<lparr>global_block_map := g\<rparr>"
    have "cached g = cached (global_block_map s)" "gbm_wf g" using tk None by auto
    then have inv': "alloc_inv ?s L"
      by (intro alloc_inv_shrink [OF inv]) (use inv in \<open>auto simp: alloc_inv_def\<close>)
    obtain h where h: "Heap_Allocate (heap ?s) (kBlockSizes ! j) (int j) = (r, h)" "s' = ?s\<lparr>heap := h\<rparr>"
      using r q None j(2) by (auto simp: allocate_one_def Let_def split: prod.splits)
    have room': "unat (heap_ptr (heap ?s)) + 1048576 + eff_align (heap ?s) \<le> 2 ^ 64" using room by simp
    note ha = Heap_Allocate_spec [OF inv' unat_kBlockSizes [OF j(1)] room' j(1) order_refl h(1)]
    show ?thesis using ha h(2) j(3) by (auto simp: heap_step_def intro: order_trans)
  qed
  then show "alloc_inv s' (case r of None \<Rightarrow> L | Some b \<Rightarrow> add_mset b L)"
    and "\<And>b. r = Some b \<Longrightarrow> n \<le> bsize b \<and> block_ok b" and "heap_step s s' 1" by blast+
qed

section \<open>The handlers\<close>

lemma rollback_inv:
  assumes "alloc_inv s (mset bs + L)"
  shows "alloc_inv (s\<lparr>global_block_map := free_blocks_on worker bs (global_block_map s)\<rparr>) L"
proof -
  have "gbm_wf (global_block_map s)" "\<forall>b \<in> set bs. block_ok b"
    using assms by (auto simp: alloc_inv_def)
  note f = free_blocks_on_spec [OF this, of worker]
  have "cached (free_blocks_on worker bs (global_block_map s)) + L \<subseteq># cached (global_block_map s) + (mset bs + L)"
    using f by (simp add: add.assoc)
  moreover have "\<forall>b \<in># L. block_ok b" using assms by (simp add: alloc_inv_def)
  ultimately show ?thesis using alloc_inv_shrink [OF assms] f by blast
qed

lemma allocate_loop_spec:
  assumes "alloc_inv s (mset local + L)" and "\<forall>d \<in> set ds. unat d \<le> 1048576"
    and "unat (heap_ptr (heap s)) + length ds * (1048576 + eff_align (heap s)) \<le> 2 ^ 64"
    and "list_all2 (\<lambda>d b. d \<le> bsize b) done local"
    and "length local \<le> unat (max_blocks_per_operation s)"
    and "allocate_loop s worker ds local = (rc, bs, s')"
  shows "(rc = 0 \<and> alloc_inv s' (mset bs + L) \<and> list_all2 (\<lambda>d b. d \<le> bsize b) (done @ ds) bs \<and>
            length bs \<le> unat (max_blocks_per_operation s)
          \<or> (rc = 1 \<or> rc = 2) \<and> bs = [] \<and> alloc_inv s' L)
      \<and> heap_step s s' (length ds)"
  using assms
proof (induction ds arbitrary: s local "done")
  case Nil
  then show ?case by (auto simp: heap_step_def)
next
  case (Cons d ds)
  obtain r s1 where r: "allocate_one s worker d = (r, s1)" by fastforce
  have d: "unat d \<le> 1048576" using Cons.prems by simp
  have room: "unat (heap_ptr (heap s)) + (1048576 + eff_align (heap s)) \<le> 2 ^ 64"
    using Cons.prems(3) by simp
  note one = allocate_one_spec [OF Cons.prems(1) d room r]
  have s1: "heap_step s s1 1" by (fact one(3))
  have weak: "heap_step s s1 (length (d # ds))" using s1 by (auto simp: heap_step_def)
  show ?case
  proof (cases "r = None \<or> length local \<ge> unat (max_blocks_per_operation s1)")
    case True
    let ?s = "s1\<lparr>global_block_map := free_blocks_on worker local (global_block_map s1)\<rparr>"
    have res: "(rc = 1 \<or> rc = 2) \<and> bs = [] \<and> s' = ?s"
      using Cons.prems(6) r True by (auto split: option.splits)
    have "alloc_inv s1 (mset local + L)"
    proof (cases r)
      case (Some b)
      have i: "alloc_inv s1 (add_mset b (mset local + L))" using one(1) Some by simp
      then have "alloc_inv (s1\<lparr>global_block_map := global_block_map s1\<rparr>) (mset local + L)"
        by (rule alloc_inv_shrink) (use i in \<open>auto simp: alloc_inv_def\<close>)
      then show ?thesis by simp
    qed (use one(1) in simp)
    from rollback_inv [OF this] res weak show ?thesis by (simp add: heap_step_def)
  next
    case False
    then obtain b where b: "r = Some b" "length local < unat (max_blocks_per_operation s1)" by auto
    have loop: "allocate_loop s1 worker ds (local @ [b]) = (rc, bs, s')"
      using Cons.prems(6) r b by simp
    have "(rc = 0 \<and> alloc_inv s' (mset bs + L) \<and> list_all2 (\<lambda>d b. d \<le> bsize b) ((done @ [d]) @ ds) bs \<and>
            length bs \<le> unat (max_blocks_per_operation s1)
          \<or> (rc = 1 \<or> rc = 2) \<and> bs = [] \<and> alloc_inv s' L) \<and> heap_step s1 s' (length ds)"
    proof (rule Cons.IH [OF _ _ _ _ _ loop])
      show "alloc_inv s1 (mset (local @ [b]) + L)" using one(1) b by simp
      show "\<forall>d \<in> set ds. unat d \<le> 1048576" using Cons.prems by simp
      show "unat (heap_ptr (heap s1)) + length ds * (1048576 + eff_align (heap s1)) \<le> 2 ^ 64"
        using s1 Cons.prems(3) by (simp add: heap_step_def)
      show "list_all2 (\<lambda>d b. d \<le> bsize b) (done @ [d]) (local @ [b])"
        using Cons.prems(4) one(2) b by (simp add: list_all2_appendI)
      show "length (local @ [b]) \<le> unat (max_blocks_per_operation s1)" using b by simp
    qed
    with s1 heap_step_trans [OF s1] show ?thesis by (auto simp: heap_step_def)
  qed
qed

text \<open>The number of divisions of a request: one per started MiB.\<close>

lemma io_divisions_length: "length (io_divisions sz) \<le> unat sz div 1048576 + 1"
proof -
  have *: "length (divide_into_max sz) \<le> unat sz div 1048576 + 1" for sz
  proof (induction sz rule: divide_into_max.induct)
    case (1 r)
    show ?case
    proof (cases "kMaxBlock \<le> r")
      case True
      then have "unat (r - kMaxBlock) = unat r - 1048576" and "1048576 \<le> unat r"
        by (simp_all add: unat_sub word_le_nat_alt)
      with True "1.IH" show ?thesis by (simp add: divide_into_max.simps [of r] le_div_geq)
    next
      case False
      then show ?thesis by (simp add: divide_into_max.simps [of r])
    qed
  qed
  then show ?thesis by (simp add: io_divisions_def)
qed

lemma AllocateBlocks_spec:
  assumes "alloc_inv s L"
    and "unat (heap_ptr (heap s)) + length (io_divisions sz) * (1048576 + eff_align (heap s)) \<le> 2 ^ 64"
    and "AllocateBlocks s worker sz = (rc, bs, s')"
  shows "rc = 0 \<and> alloc_inv s' (mset bs + L) \<and> unat sz \<le> sum_list (map (\<lambda>b. unat (bsize b)) bs) \<and>
           length bs \<le> unat (max_blocks_per_operation s)
         \<or> (rc = 1 \<or> rc = 2) \<and> bs = [] \<and> alloc_inv s' L"
proof (cases "sz = 0")
  case True
  with assms show ?thesis by (auto simp: AllocateBlocks_def)
next
  case False
  have a: "alloc_inv s (mset [] + L)" using assms(1) by simp
  have d: "\<forall>d \<in> set (io_divisions sz). unat d \<le> 1048576" using io_divisions_spec by blast
  have l: "allocate_loop s worker (io_divisions sz) [] = (rc, bs, s')"
    using assms(3) False by (simp add: AllocateBlocks_def)
  have sum: "list_all2 (\<lambda>d b. d \<le> bsize b) ds bs \<Longrightarrow> sum_list (map unat ds) \<le> sum_list (map (\<lambda>b. unat (bsize b)) bs)"
    for ds :: "u64 list" and bs
    by (induction rule: list_all2_induct) (simp_all add: add_mono word_le_nat_alt)
  from allocate_loop_spec [OF a d assms(2) list_all2_Nil [THEN iffD2, OF refl] _ l] show ?thesis
    using sum [of "io_divisions sz" bs] io_divisions_spec [of sz] by auto
qed

text \<open>
  What a call leaves of the space it took: \<open>accounts s s' M q\<close> says that every
  block cached in \<open>s\<close> and every byte the heap handed out between its pointer in
  \<open>s\<close> and \<open>q\<close> is in the caches of \<open>s'\<close> or in \<open>M\<close>.
\<close>

definition accounts :: "Bdev \<Rightarrow> Bdev \<Rightarrow> Block multiset \<Rightarrow> nat \<Rightarrow> bool" where
  "accounts s s' M q \<longleftrightarrow> cached (global_block_map s) \<subseteq># cached (global_block_map s') + M \<and>
     (\<forall>a. unat (heap_ptr (heap s)) \<le> a \<and> a < q \<longrightarrow> (\<exists>b \<in># cached (global_block_map s') + M. covers b a))"

lemma accounts_refl: "accounts s s {#} (unat (heap_ptr (heap s)))"
  by (auto simp: accounts_def)

lemma accounts_more:
  assumes "accounts s s1 M q" and "cached (global_block_map s1) + M \<subseteq># cached (global_block_map s2) + M'"
    and "\<And>a. q \<le> a \<Longrightarrow> a < q' \<Longrightarrow> \<exists>b \<in># cached (global_block_map s2) + M'. covers b a"
  shows "accounts s s2 M' q'"
proof -
  have "\<exists>b \<in># cached (global_block_map s2) + M'. covers b a" if a: "unat (heap_ptr (heap s)) \<le> a" "a < q'" for a
  proof (cases "a < q")
    case True
    then obtain b where "b \<in># cached (global_block_map s1) + M" "covers b a"
      using assms(1) a unfolding accounts_def by blast
    then show ?thesis using mset_subset_eqD [OF assms(2)] by blast
  qed (use assms(3) a in simp)
  then show ?thesis using assms(1) subset_mset.order_trans [OF _ assms(2)] by (simp add: accounts_def)
qed

text \<open>What one allocation does to the caches and the heap.\<close>

lemma allocate_one_accounts:
  assumes inv: "alloc_inv s L" and n: "unat n \<le> 1048576"
    and room: "unat (heap_ptr (heap s)) + (1048576 + eff_align (heap s)) \<le> 2 ^ 64"
    and r: "allocate_one s worker n = (r, s')"
  shows "length (worker_maps (global_block_map s')) = length (worker_maps (global_block_map s)) \<and>
    heap_alignment (heap s') = heap_alignment (heap s) \<and>
    (case r of
      Some b \<Rightarrow> accounts s s' {#b#} (unat (heap_ptr (heap s')))
    | None \<Rightarrow> cached (global_block_map s') = cached (global_block_map s) \<and> total_size (heap s) < heap_ptr (heap s') \<and>
        (\<exists>t k. FindBlockTypeForSize n = (t, k) \<and>
          unat (heap_ptr (heap s')) = unat (heap_ptr (heap s)) + unat (aligned_size (heap s) k)))"
proof -
  obtain q g where q: "GlobalBlockMap_AllocateBlock (global_block_map s) worker n = (q, g)" by fastforce
  obtain j where j: "j < kMaxCategories" "FindBlockTypeForSize n = (int j, kBlockSizes ! j)" "n \<le> kBlockSizes ! j"
    using FindBlockTypeForSize_small [OF n] by blast
  have t: "FindBlockType n = int j" using j(2) by (simp add: FindBlockType_def)
  have "gbm_wf (global_block_map s)" using inv by (simp add: alloc_inv_def)
  note tk = GlobalBlockMap_AllocateBlock_took [OF this, of n worker, unfolded q t took_def, simplified]
  show ?thesis
  proof (cases q)
    case (Some b)
    then have "r = Some b" "s' = s\<lparr>global_block_map := g\<rparr>" using r q by (auto simp: allocate_one_def)
    then show ?thesis using tk Some by (auto simp: accounts_def)
  next
    case None
    let ?k = "kBlockSizes ! j"
    have g: "cached g = cached (global_block_map s)" "length (worker_maps g) = length (worker_maps (global_block_map s))"
      using tk None by auto
    obtain h where h: "Heap_Allocate (heap s) ?k (int j) = (r, h)" "s' = s\<lparr>global_block_map := g, heap := h\<rparr>"
      using r q None j(2) by (auto simp: allocate_one_def Let_def split: prod.splits)
    have k: "unat ?k \<le> 1048576" by (rule unat_kBlockSizes [OF j(1)])
    have "unat (aligned_size (heap s) ?k) < unat ?k + eff_align (heap s)"
      using round_up_bounds(3) [OF eff_align_pos, of "unat ?k" "heap s"] k room by (subst unat_aligned_size) simp_all
    then have p: "unat (heap_ptr (heap s) + aligned_size (heap s) ?k) = unat (heap_ptr (heap s)) + unat (aligned_size (heap s) ?k)"
      using k room by (intro unat_add_no_overflow) simp
    show ?thesis
    proof (cases "total_size (heap s) < heap_ptr (heap s) + aligned_size (heap s) ?k")
      case True
      then have "r = None" "h = (heap s)\<lparr>heap_ptr := heap_ptr (heap s) + aligned_size (heap s) ?k\<rparr>"
        using h(1) by (simp_all add: Heap_Allocate_def Let_def)
      then show ?thesis using h(2) g p True j(2) by simp
    next
      case False
      then have "r = Some \<lparr>offset = heap_ptr (heap s), bsize = aligned_size (heap s) ?k, block_type = word_of_int (int j)\<rparr>"
          "h = (heap s)\<lparr>heap_ptr := heap_ptr (heap s) + aligned_size (heap s) ?k\<rparr>"
        using h(1) by (simp_all add: Heap_Allocate_def Let_def)
      then show ?thesis using h(2) g p by (simp add: accounts_def covers_def)
    qed
  qed
qed

definition refused :: "Bdev \<Rightarrow> u64 list \<Rightarrow> u32 \<Rightarrow> Bdev \<Rightarrow> bool" where
  "refused s ds rc s' \<longleftrightarrow>
     rc = 1 \<and> total_size (heap s) < heap_ptr (heap s') \<and>
       (\<exists>d \<in> set ds. \<exists>t k. FindBlockTypeForSize d = (t, k) \<and>
         accounts s s' {#} (unat (heap_ptr (heap s')) - unat (aligned_size (heap s) k))) \<or>
     rc = 2 \<and> unat (max_blocks_per_operation s) < length ds \<and> (\<exists>b. accounts s s' {#b#} (unat (heap_ptr (heap s'))))"

lemma aligned_size_cong: "heap_alignment h = heap_alignment h' \<Longrightarrow> aligned_size h k = aligned_size h' k"
  by (simp add: aligned_size_def)

lemma allocate_loop_accounts:
  assumes "alloc_inv s (mset local + L)" and "\<forall>d \<in> set ds. unat d \<le> 1048576"
    and "unat (heap_ptr (heap s)) + length ds * (1048576 + eff_align (heap s)) \<le> 2 ^ 64"
    and "0 \<le> worker" and "nat worker < length (worker_maps (global_block_map s))"
    and "accounts s0 s (mset local) (unat (heap_ptr (heap s)))"
    and "total_size (heap s) = total_size (heap s0)" and "heap_alignment (heap s) = heap_alignment (heap s0)"
    and "max_blocks_per_operation s = max_blocks_per_operation s0"
    and "allocate_loop s worker ds local = (rc, bs, s')" and "ds0 = dn @ ds" and "length dn = length local"
  shows "rc = 0 \<and> accounts s0 s' (mset bs) (unat (heap_ptr (heap s'))) \<and> length bs = length ds0 \<or> refused s0 ds0 rc s'"
  using assms
proof (induction ds arbitrary: s local dn)
  case Nil
  then show ?case by simp
next
  case (Cons d ds)
  obtain r s1 where r: "allocate_one s worker d = (r, s1)" by fastforce
  have d: "unat d \<le> 1048576" using Cons.prems by simp
  have room: "unat (heap_ptr (heap s)) + (1048576 + eff_align (heap s)) \<le> 2 ^ 64" using Cons.prems(3) by simp
  note one = allocate_one_spec [OF Cons.prems(1) d room r]
  note ac = allocate_one_accounts [OF Cons.prems(1) d room r]
  have fields: "total_size (heap s1) = total_size (heap s0)" "heap_alignment (heap s1) = heap_alignment (heap s0)"
    "max_blocks_per_operation s1 = max_blocks_per_operation s0"
    "nat worker < length (worker_maps (global_block_map s1))"
    using one(3) ac Cons.prems(5,7,8,9) by (simp_all add: heap_step_def)
  let ?bk = "s1\<lparr>global_block_map := free_blocks_on worker local (global_block_map s1)\<rparr>"
  have bk: "cached (global_block_map ?bk) = cached (global_block_map s1) + mset local"
  proof -
    have "gbm_wf (global_block_map s1)" using one(1) by (simp add: alloc_inv_def)
    moreover have "\<forall>b \<in> set local. block_ok b" using Cons.prems(1) by (simp add: alloc_inv_def)
    ultimately show ?thesis using free_blocks_on_spec [of "global_block_map s1" local worker] fields(4) Cons.prems(4) by simp
  qed
  show ?case
  proof (cases r)
    case None
    obtain t k where k: "FindBlockTypeForSize d = (t, k)"
        "unat (heap_ptr (heap s1)) = unat (heap_ptr (heap s)) + unat (aligned_size (heap s) k)"
      and ca: "cached (global_block_map s1) = cached (global_block_map s)" "total_size (heap s) < heap_ptr (heap s1)"
      using ac None by auto
    have res: "rc = 1" "s' = ?bk" using Cons.prems(10) r None by simp_all
    have "aligned_size (heap s) k = aligned_size (heap s0) k" by (rule aligned_size_cong) (fact Cons.prems(8))
    then have "accounts s0 s' {#} (unat (heap_ptr (heap s')) - unat (aligned_size (heap s0) k))"
      using Cons.prems(6) k(2) bk ca(1) by (simp add: res(2) accounts_def)
    moreover have "d \<in> set ds0" using Cons.prems(11) by simp
    ultimately show ?thesis using res k(1) ca(2) Cons.prems(7) by (auto simp: refused_def)
  next
    case (Some b)
    have a1: "accounts s0 s1 (mset (local @ [b])) (unat (heap_ptr (heap s1)))"
    proof (rule accounts_more [OF Cons.prems(6)])
      have "cached (global_block_map s) \<subseteq># cached (global_block_map s1) + {#b#}" using ac Some by (simp add: accounts_def)
      from subset_mset.add_right_mono [OF this, of "mset local"]
      show "cached (global_block_map s) + mset local \<subseteq># cached (global_block_map s1) + mset (local @ [b])" by (simp add: ac_simps)
    qed (use ac Some in \<open>auto simp: accounts_def\<close>)
    show ?thesis
    proof (cases "length local \<ge> unat (max_blocks_per_operation s1)")
      case True
      have res: "rc = 2" "s' = ?bk" using Cons.prems(10) r Some True by simp_all
      have "accounts s0 s' {#b#} (unat (heap_ptr (heap s')))"
        using a1 bk by (simp add: res(2) accounts_def)
      moreover have "unat (max_blocks_per_operation s0) < length ds0" using True fields(3) Cons.prems(11,12) by simp
      ultimately show ?thesis using res(1) by (auto simp: refused_def)
    next
      case False
      have loop: "allocate_loop s1 worker ds (local @ [b]) = (rc, bs, s')" using Cons.prems(10) r Some False by simp
      show ?thesis
      proof (rule Cons.IH [OF _ _ _ Cons.prems(4) fields(4) a1 fields(1-3) loop, of "dn @ [d]"])
        show "alloc_inv s1 (mset (local @ [b]) + L)" using one(1) Some by simp
        show "\<forall>d \<in> set ds. unat d \<le> 1048576" using Cons.prems by simp
        show "unat (heap_ptr (heap s1)) + length ds * (1048576 + eff_align (heap s1)) \<le> 2 ^ 64"
          using one(3) Cons.prems(3) by (simp add: heap_step_def)
        show "ds0 = (dn @ [d]) @ ds" "length (dn @ [d]) = length (local @ [b])" using Cons.prems(11,12) by simp_all
      qed
    qed
  qed
qed

lemma FreeBlocks_spec:
  "alloc_inv s (mset bs + L) \<Longrightarrow> FreeBlocks s worker bs = (rc, s') \<Longrightarrow> rc = 0 \<and> alloc_inv s' L"
  using rollback_inv [of s bs L worker] by (auto simp: FreeBlocks_def)

lemma FreeBlocks_heap [simp]: "heap (snd (FreeBlocks s worker bs)) = heap s"
  by (simp add: FreeBlocks_def)

section \<open>Runs of the allocator\<close>

text \<open>
  The device after \<^verbatim>\<open>Create\<close>: empty caches for every worker and a heap over
  the whole device.
\<close>

definition InitializeAllocator :: "nat \<Rightarrow> Bdev \<Rightarrow> Bdev" where
  "InitializeAllocator num_workers s =
     s\<lparr>global_block_map := GlobalBlockMap_Init num_workers, heap := Heap_Init (file_size s) (alignment s)\<rparr>"

text \<open>
  Clients allocate on any worker and free blocks they hold on any worker. A
  step carries the device, the blocks held, and requires that the heap pointer
  does not wrap during the call.
\<close>

inductive alloc_run :: "Bdev \<Rightarrow> Bdev \<Rightarrow> Block multiset \<Rightarrow> bool" for s0 where
  init: "alloc_run s0 (InitializeAllocator n s0) {#}"
| alloc: "alloc_run s0 s L \<Longrightarrow>
    unat (heap_ptr (heap s)) + length (io_divisions sz) * (1048576 + eff_align (heap s)) \<le> 2 ^ 64 \<Longrightarrow>
    AllocateBlocks s worker sz = (rc, bs, s') \<Longrightarrow> alloc_run s0 s' (mset bs + L)"
| free: "alloc_run s0 s (mset bs + L) \<Longrightarrow> FreeBlocks s worker bs = (rc, s') \<Longrightarrow> alloc_run s0 s' L"

lemma InitializeAllocator_inv: "alloc_inv (InitializeAllocator n s) {#}"
proof -
  have "cached (GlobalBlockMap_Init n) = {#}"
    by (induction n) (simp_all add: cached_def GlobalBlockMap_Init_def wmap_cached_def
        WorkerBlockMap_new_def kMaxCategories_def numeral_eq_Suc)
  moreover have "gbm_wf (GlobalBlockMap_Init n)"
    by (auto simp: gbm_wf_def GlobalBlockMap_Init_def wmap_wf_def WorkerBlockMap_new_def)
  ultimately show ?thesis by (simp add: alloc_inv_def InitializeAllocator_def owners_def)
qed

lemma alloc_run_inv: "alloc_run s0 s L \<Longrightarrow> alloc_inv s L"
proof (induction rule: alloc_run.induct)
  case (init n)
  show ?case by (rule InitializeAllocator_inv)
next
  case (alloc s L sz worker rc bs s')
  from AllocateBlocks_spec [OF alloc.IH alloc.hyps(2,3)] show ?case by auto
next
  case (free s bs L worker rc s')
  from FreeBlocks_spec [OF free.IH free.hyps(2)] show ?case by blast
qed

lemma alloc_run_total: "alloc_run s0 s L \<Longrightarrow> total_size (heap s) = file_size s0"
proof (induction rule: alloc_run.induct)
  case (init n)
  show ?case by (simp add: InitializeAllocator_def Heap_Init_def)
next
  case (alloc s L sz worker rc bs s')
  have inv: "alloc_inv s (mset [] + L)" using alloc_run_inv [OF alloc.hyps(1)] by simp
  show ?case
  proof (cases "sz = 0")
    case False
    then have l: "allocate_loop s worker (io_divisions sz) [] = (rc, bs, s')"
      using alloc.hyps(3) by (simp add: AllocateBlocks_def)
    have "\<forall>d \<in> set (io_divisions sz). unat d \<le> 1048576" using io_divisions_spec by blast
    from allocate_loop_spec [OF inv this alloc.hyps(2) list_all2_Nil [THEN iffD2, OF refl] _ l] alloc.IH
    show ?thesis by (auto simp: heap_step_def)
  qed (use alloc in \<open>simp add: AllocateBlocks_def\<close>)
next
  case (free s bs L worker rc s')
  then show ?case using FreeBlocks_heap [of s worker bs] by simp
qed

text \<open>A 2 MiB device in memory, before \<^verbatim>\<open>Create\<close> has set its allocator up.\<close>

definition demo_bdev :: Bdev where
  "demo_bdev = \<lparr>bdev_type = kRam, file_path = ''ram'', worker_io_contexts = [], file_size = 2097152, alignment = 4096,
     io_depth = 32, max_blocks_per_operation = 64, ram_buffer = (\<lambda>_. 0), ram_size = 2097152,
     global_block_map = GlobalBlockMap_Init 0, heap = Heap_Init 0 0,
     total_reads = 0, total_writes = 0, total_bytes_read = 0, total_bytes_written = 0,
     perf_metrics = \<lparr>read_bandwidth_mbps = 0, write_bandwidth_mbps = 0, read_latency_us = 0,
       write_latency_us = 0, iops = 0\<rparr>\<rparr>"

lemma WorkerBlockMap_new_eval: "WorkerBlockMap_new = \<lparr>blocks = [[], [], [], [], [], []]\<rparr>"
  by (simp add: WorkerBlockMap_new_def kMaxCategories_def numeral_eq_Suc)

text \<open>Equations that evaluate the allocator on concrete states.\<close>

lemmas alloc_eval = AllocateBlocks_def FreeBlocks_def free_blocks_on_def allocate_one_def
  GlobalBlockMap_AllocateBlock_def GlobalBlockMap_FreeBlock_def WorkerBlockMap_FreeBlock_def
  FindBlockType_def FindBlockTypeForSize_def kBlockSizes_def kMaxCategories_def kMaxBlock_def
  alloc_from_worker_def WorkerBlockMap_AllocateBlock_def WorkerBlockMap_new_eval GlobalBlockMap_Init_def
  InitializeAllocator_def Heap_Init_def Heap_Allocate_def aligned_size_def Let_def io_divisions_def
  divide_into_max.simps eff_align_def

text \<open>What the invariant says of the blocks clients hold.\<close>

lemma live_size:
  assumes "alloc_run s0 s L" and "b \<in># L"
  shows "4096 \<le> unat (bsize b)"
proof -
  have "block_ok b" using alloc_run_inv [OF assms(1)] assms(2) by (simp add: alloc_inv_def)
  then have b: "unat (block_type b) \<in> {0, 1, 2, 3, 4, 5}" "kBlockSizes ! unat (block_type b) \<le> bsize b"
    by (auto simp: block_ok_def kMaxCategories_def)
  from b(1) have "4096 \<le> unat (kBlockSizes ! unat (block_type b))" by (auto simp: kBlockSizes_def)
  with b(2) show ?thesis by (simp add: word_le_nat_alt)
qed

lemma live_disjoint:
  assumes "alloc_run s0 s L" and bc: "{#b, c#} \<subseteq># L"
  shows "block_end b \<le> unat (offset c) \<or> block_end c \<le> unat (offset b)"
proof (rule ccontr)
  assume "\<not> ?thesis"
  moreover have "b \<in># L" "c \<in># L" using bc by (auto dest: mset_subset_eqD)
  then have "4096 \<le> unat (bsize b)" "4096 \<le> unat (bsize c)" using live_size [OF assms(1)] by auto
  ultimately have "covers b (max (unat (offset b)) (unat (offset c)))"
    and "covers c (max (unat (offset b)) (unat (offset c)))"
    by (auto simp: covers_def block_end_def max_def)
  with alloc_inv_disjoint [OF alloc_run_inv [OF assms(1)] bc] show False by blast
qed

lemma live_inside:
  assumes "alloc_run s0 s L" and "b \<in># L"
  shows "block_end b \<le> unat (file_size s0)"
  using alloc_run_inv [OF assms(1)] assms(2) alloc_run_total [OF assms(1)] by (auto simp: alloc_inv_def)

section \<open>Properties\<close>

text \<open>
  C6. No two blocks that clients hold at the same time share a byte, and every
  one lies inside the device, in every run of \<^verbatim>\<open>AllocateBlocks\<close> and
  \<^verbatim>\<open>FreeBlocks\<close> calls on any workers from a fresh device, as long as the heap
  pointer does not wrap around 64 bits and clients free blocks as they got them.
\<close>

theorem live_blocks_disjoint:
  assumes "alloc_run s0 s L"
  shows "(\<forall>b c. {#b, c#} \<subseteq># L \<longrightarrow> block_end b \<le> unat (offset c) \<or> block_end c \<le> unat (offset b))
    \<and> (\<forall>b \<in># L. block_end b \<le> unat (file_size s0) \<and> 4096 \<le> unat (bsize b))"
  using live_disjoint [OF assms] live_inside [OF assms] live_size [OF assms] by blast

theorem live_blocks_disjoint_witness:
  "\<exists>s L b c. alloc_run demo_bdev s L \<and> L = {#b, c#} \<and> bsize b = 16384 \<and> bsize c = 1048576 \<and>
     (block_end b \<le> unat (offset c) \<or> block_end c \<le> unat (offset b)) \<and> block_end c \<le> 2097152"
proof -
  let ?s0 = "InitializeAllocator 1 demo_bdev"
  let ?r1 = "AllocateBlocks ?s0 0 5000"
  let ?s1 = "snd (snd ?r1)"
  let ?r2 = "AllocateBlocks ?s1 0 1048576"
  let ?b = "\<lparr>offset = 0, bsize = 16384, block_type = 1\<rparr>"
  let ?c = "\<lparr>offset = 16384, bsize = 1048576, block_type = 5\<rparr>"
  have r1: "fst (snd ?r1) = [?b]" by (simp add: alloc_eval demo_bdev_def Heap_GetRemainingSize_def)
  have r2: "fst (snd ?r2) = [?c]" by (simp add: alloc_eval demo_bdev_def Heap_GetRemainingSize_def)
  have h1: "unat (heap_ptr (heap ?s0)) + length (io_divisions 5000) * (1048576 + eff_align (heap ?s0)) \<le> 2 ^ 64"
    by (simp add: alloc_eval demo_bdev_def Heap_GetRemainingSize_def)
  have h2: "unat (heap_ptr (heap ?s1)) + length (io_divisions 1048576) * (1048576 + eff_align (heap ?s1)) \<le> 2 ^ 64"
    by (simp add: alloc_eval demo_bdev_def Heap_GetRemainingSize_def)
  have "alloc_run demo_bdev ?s1 (mset (fst (snd ?r1)) + {#})"
    by (rule alloc_run.alloc [OF alloc_run.init h1, of 0 "fst ?r1"]) simp
  from alloc_run.alloc [OF this h2, of 0 "fst ?r2"] have "alloc_run demo_bdev (snd (snd ?r2)) (mset (fst (snd ?r2)) + (mset (fst (snd ?r1)) + {#}))"
    by simp
  then have run: "alloc_run demo_bdev (snd (snd ?r2)) {#?b, ?c#}"
    unfolding r1 r2 by (simp add: add_mset_commute)
  have "block_end ?b \<le> unat (offset ?c) \<or> block_end ?c \<le> unat (offset ?b)"
    using live_blocks_disjoint [OF run, THEN conjunct1] subset_mset.order_refl by blast
  moreover have "block_end ?c \<le> unat (file_size demo_bdev)"
    using live_blocks_disjoint [OF run, THEN conjunct2] by simp
  ultimately have "(block_end ?b \<le> unat (offset ?c) \<or> block_end ?c \<le> unat (offset ?b)) \<and>
    block_end ?c \<le> unat (file_size demo_bdev)" by (rule conjI)
  with run show ?thesis
    by (intro exI [of _ "snd (snd ?r2)"] exI [of _ "{#?b, ?c#}"] exI [of _ ?b] exI [of _ ?c]) (simp add: demo_bdev_def)
qed

text \<open>
  CX. What \<^verbatim>\<open>AllocateBlocks\<close> promises on every branch, in any reachable state,
  called on an existing worker while the heap pointer does not wrap around 64
  bits. On success there is one block for each division of the request, at most
  \<^verbatim>\<open>max_blocks_per_operation_\<close>, together at least as long as the request. Code 1
  means the heap is exhausted: no block is returned, and all that was gathered
  is back in the caches: every block cached before, and every byte the heap
  handed out before the division that failed. Code 2 means the request has more
  divisions than \<^verbatim>\<open>max_blocks_per_operation_\<close>: the same holds but for one block,
  the one allocated when the limit was met, which the code drops.
\<close>

theorem AllocateBlocks_correct:
  assumes "alloc_run s0 s L"
    and "unat (heap_ptr (heap s)) + length (io_divisions sz) * (1048576 + eff_align (heap s)) \<le> 2 ^ 64"
    and "0 \<le> worker" and "nat worker < length (worker_maps (global_block_map s))"
    and "AllocateBlocks s worker sz = (rc, bs, s')"
  shows "rc = 0 \<and> unat sz \<le> sum_list (map (\<lambda>b. unat (bsize b)) bs) \<and> length bs \<le> unat (max_blocks_per_operation s)
           \<and> length bs = (if sz = 0 then 0 else length (io_divisions sz)) \<and> alloc_inv s' (mset bs + L)
           \<and> accounts s s' (mset bs) (unat (heap_ptr (heap s')))
       \<or> bs = [] \<and> alloc_inv s' L \<and>
          (rc = 1 \<and> total_size (heap s) < heap_ptr (heap s') \<and>
            (\<exists>d \<in> set (io_divisions sz). \<exists>t k. FindBlockTypeForSize d = (t, k) \<and>
              accounts s s' {#} (unat (heap_ptr (heap s')) - unat (aligned_size (heap s) k))) \<or>
           rc = 2 \<and> unat (max_blocks_per_operation s) < length (io_divisions sz) \<and>
            (\<exists>b. accounts s s' {#b#} (unat (heap_ptr (heap s')))))"
proof (cases "sz = 0")
  case True
  then show ?thesis using assms(5) alloc_run_inv [OF assms(1)] by (auto simp: AllocateBlocks_def accounts_refl)
next
  case False
  have l: "allocate_loop s worker (io_divisions sz) [] = (rc, bs, s')"
    using False assms(5) by (simp add: AllocateBlocks_def)
  have a: "alloc_inv s (mset [] + L)" using alloc_run_inv [OF assms(1)] by simp
  have d: "\<forall>d \<in> set (io_divisions sz). unat d \<le> 1048576" using io_divisions_spec by blast
  have ac: "accounts s s (mset []) (unat (heap_ptr (heap s)))" using accounts_refl by simp
  have "rc = 0 \<and> accounts s s' (mset bs) (unat (heap_ptr (heap s'))) \<and> length bs = length (io_divisions sz) \<or>
      refused s (io_divisions sz) rc s'"
    by (rule allocate_loop_accounts [OF a d assms(2,3,4) ac refl refl refl l, of _ "[]"]) simp_all
  with AllocateBlocks_spec [OF alloc_run_inv [OF assms(1)] assms(2,5)] False show ?thesis
    unfolding refused_def by (elim disjE conjE) simp_all
qed

text \<open>5000 bytes are served; 3 MiB on a device of 2 MiB are refused, and the two blocks gathered are cached.\<close>

theorem AllocateBlocks_correct_witness:
  "(\<exists>bs s'. AllocateBlocks (InitializeAllocator 1 demo_bdev) 0 5000 = (0, bs, s') \<and>
     5000 \<le> sum_list (map (\<lambda>b. unat (bsize b)) bs) \<and> length bs = 1) \<and>
   (\<exists>s'. AllocateBlocks (InitializeAllocator 1 demo_bdev) 0 3145728 = (1, [], s') \<and>
     (\<exists>b \<in># cached (global_block_map s'). covers b 2000000))"
proof
  let ?s0 = "InitializeAllocator 1 demo_bdev"
  have w: "nat 0 < length (worker_maps (global_block_map ?s0))" by (simp add: alloc_eval demo_bdev_def)
  have p: "heap_ptr (heap ?s0) = 0" by (simp add: alloc_eval demo_bdev_def)
  let ?r = "AllocateBlocks ?s0 0 5000" and ?f = "AllocateBlocks ?s0 0 3145728"
  have h: "unat (heap_ptr (heap ?s0)) + length (io_divisions 5000) * (1048576 + eff_align (heap ?s0)) \<le> 2 ^ 64"
    "unat (heap_ptr (heap ?s0)) + length (io_divisions 3145728) * (1048576 + eff_align (heap ?s0)) \<le> 2 ^ 64"
    by (simp_all add: alloc_eval demo_bdev_def)
  have rc: "fst ?r = 0" "length (io_divisions 5000) = 1" by (simp_all add: alloc_eval demo_bdev_def)
  have r: "?r = (0, fst (snd ?r), snd (snd ?r))" using rc by (metis prod.collapse)
  show "\<exists>bs s'. ?r = (0, bs, s') \<and> 5000 \<le> sum_list (map (\<lambda>b. unat (bsize b)) bs) \<and> length bs = 1"
  proof (intro exI conjI)
    show "?r = (0, fst (snd ?r), snd (snd ?r))" by (fact r)
    show "5000 \<le> sum_list (map (\<lambda>b. unat (bsize b)) (fst (snd ?r)))" "length (fst (snd ?r)) = 1"
      using AllocateBlocks_correct [OF alloc_run.init h(1) order_refl w r] rc(2) by auto
  qed
  have fc: "fst ?f = 1" "fst (snd ?f) = []" "heap_ptr (heap (snd (snd ?f))) = 3145728"
    "set (io_divisions 3145728) = {1048576}" "FindBlockTypeForSize 1048576 = (5, 1048576)" "aligned_size (heap ?s0) 1048576 = 1048576"
    by (simp_all add: alloc_eval demo_bdev_def)
  have f: "?f = (1, [], snd (snd ?f))" using fc by (metis prod.collapse)
  have "accounts ?s0 (snd (snd ?f)) {#} 2097152"
    using AllocateBlocks_correct [OF alloc_run.init h(2) order_refl w f] fc by simp
  then have "\<exists>b \<in># cached (global_block_map (snd (snd ?f))). covers b 2000000"
    unfolding accounts_def by (elim conjE allE [where x = 2000000]) (simp add: p del: One_nat_def)
  then show "\<exists>s'. ?f = (1, [], s') \<and> (\<exists>b \<in># cached (global_block_map s'). covers b 2000000)" using f by blast
qed

text \<open>
  A heap allocation that fails is not rolled back: the pointer has moved by
  the whole aligned size and the device reports no remaining space, although
  nothing was allocated.
\<close>

theorem failed_heap_allocation_consumes_device:
  assumes "Heap_Allocate h n t = (None, h')"
    and "unat (heap_ptr h) + unat (aligned_size h n) < 2 ^ 64"
  shows "heap_ptr h' = heap_ptr h + aligned_size h n \<and> Heap_GetRemainingSize h' = 0"
  by (rule Heap_Allocate_fail [OF assms])

theorem failed_heap_allocation_consumes_device_witness:
  "let h = Heap_Init 65536 4096; h' = snd (Heap_Allocate h 1048576 5)
   in fst (Heap_Allocate h 1048576 5) = None \<and> Heap_GetRemainingSize h = 65536 \<and>
      Heap_GetRemainingSize h' = 0 \<and> fst (Heap_Allocate h' 4096 0) = None"
proof -
  let ?h = "Heap_Init 65536 4096" and ?h' = "snd (Heap_Allocate (Heap_Init 65536 4096) 1048576 5)"
  have f: "fst (Heap_Allocate ?h 1048576 5) = None" by (simp add: alloc_eval demo_bdev_def Heap_GetRemainingSize_def)
  then have r: "Heap_Allocate ?h 1048576 5 = (None, ?h')" by (metis prod.collapse)
  have n: "unat (heap_ptr ?h) + unat (aligned_size ?h 1048576) < 2 ^ 64" by (simp add: alloc_eval demo_bdev_def Heap_GetRemainingSize_def)
  have "Heap_GetRemainingSize ?h' = 0" using failed_heap_allocation_consumes_device [OF r n] by blast
  moreover have "Heap_GetRemainingSize ?h = 65536" by (simp add: alloc_eval demo_bdev_def Heap_GetRemainingSize_def)
  moreover have "fst (Heap_Allocate ?h' 4096 0) = None" by (simp add: alloc_eval demo_bdev_def Heap_GetRemainingSize_def)
  ultimately show ?thesis using f by (simp add: Let_def)
qed

end
