(* ===== verification/Bdev_IO.thy ===== *)
theory Bdev_IO
  imports Bdev_Alloc
begin

text \<open>
  Creation and data transfer of the block device module (bdev\_runtime.cc):
  \<^verbatim>\<open>Create\<close>, \<^verbatim>\<open>Write\<close> and \<^verbatim>\<open>Read\<close> on memory and on files, \<^verbatim>\<open>GetStats\<close>.

  A data pointer is the memory seen from it. The asynchronous I/O backend and
  the operating system behind it are parameters: \<open>aio_write\<close> and \<open>aio_read\<close> give
  the outcome of one submitted request, \<open>None\<close> for an invalid token, otherwise
  the error code and the number of bytes transferred. The loops of the file
  path that need not end carry fuel; running out of it is \<open>None\<close>.
\<close>

section \<open>Worker contexts and creation\<close>

record CreateParams =
  cp_bdev_type :: BdevType
  cp_total_size :: u64
  cp_io_depth :: u32
  cp_alignment :: u32
  cp_perf_metrics :: PerfMetrics

text \<open>What the environment answers while a device is created.\<close>

record CreateEnv =
  backend_ok :: bool
  open_ok :: bool
  current_size :: int
  truncate_ok :: bool
  new_ok :: bool
  worker_count :: nat

definition WorkerIOContext_Init :: "bool \<Rightarrow> bool \<Rightarrow> bool \<Rightarrow> bool \<times> bool" where
  "WorkerIOContext_Init is_initialized backend opened =
     (if is_initialized then (True, True)
      else if \<not> backend then (False, False)
      else if \<not> opened then (False, False)
      else (True, True))"

definition GetWorkerIOContext :: "Bdev \<Rightarrow> nat \<Rightarrow> bool \<Rightarrow> bool \<Rightarrow> bool \<times> Bdev" where
  "GetWorkerIOContext s worker_id backend opened =
     (if length (worker_io_contexts s) \<le> worker_id then (False, s)
      else let (ok, inited) = WorkerIOContext_Init (worker_io_contexts s ! worker_id) backend opened
           in (ok, s\<lparr>worker_io_contexts := (worker_io_contexts s)[worker_id := inited]\<rparr>))"

definition InitializeWorkerIOContexts :: "nat \<Rightarrow> Bdev \<Rightarrow> Bdev" where
  "InitializeWorkerIOContexts num_workers s =
     s\<lparr>worker_io_contexts := take num_workers (worker_io_contexts s) @
         replicate (num_workers - length (worker_io_contexts s)) False\<rparr>"

text \<open>The common tail: parameters, allocator, counters.\<close>

definition create_finish :: "CreateEnv \<Rightarrow> CreateParams \<Rightarrow> Bdev \<Rightarrow> Bdev" where
  "create_finish e p s =
     (InitializeAllocator (worker_count e)
        (s\<lparr>alignment := cp_alignment p, io_depth := cp_io_depth p\<rparr>))
       \<lparr>total_reads := 0, total_writes := 0, total_bytes_read := 0, total_bytes_written := 0,
        perf_metrics := cp_perf_metrics p\<rparr>"

definition Create :: "CreateEnv \<Rightarrow> string \<Rightarrow> CreateParams \<Rightarrow> Bdev \<Rightarrow> u32 \<times> Bdev" where
  "Create e pool_name p s =
     (let s = s\<lparr>bdev_type := cp_bdev_type p\<rparr>
      in case cp_bdev_type p of
           kFile \<Rightarrow>
             (let s = s\<lparr>file_path := pool_name\<rparr>
              in if \<not> backend_ok e then (1, s)
                 else if \<not> open_ok e then (1, s)
                 else if current_size e < 0 then (2, s)
                 else
                   let fs0 = word_of_int (current_size e);
                       fs1 = (if cp_total_size p > 0 \<and> cp_total_size p < fs0 then cp_total_size p else fs0);
                       fs2 = (if fs1 = 0 then (if cp_total_size p > 0 then cp_total_size p else 1073741824) else fs1);
                       s = s\<lparr>file_size := fs2\<rparr>
                   in if fs1 = 0 \<and> \<not> truncate_ok e then (3, s)
                      else (0, create_finish e p (InitializeWorkerIOContexts (worker_count e) s)))
         | kRam \<Rightarrow>
             (if cp_total_size p = 0 then (4, s)
              else let s = s\<lparr>ram_size := cp_total_size p\<rparr>
                   in if \<not> new_ok e then (5, s)
                      else (0, create_finish e p
                                 (s\<lparr>ram_buffer := (\<lambda>_. 0), file_size := cp_total_size p\<rparr>))))"

section \<open>Transfers on memory\<close>

text \<open>
  One result for both directions: the return code, the byte count the task
  reports, and the memory written.
\<close>

fun write_ram_loop :: "u64 \<Rightarrow> mem \<Rightarrow> u64 \<Rightarrow> Block list \<Rightarrow> mem \<Rightarrow> u64 \<Rightarrow> u64 \<Rightarrow> u32 \<times> u64 \<times> mem" where
  "write_ram_loop rsz dat len [] ram done doff = (0, done, ram)"
| "write_ram_loop rsz dat len (b # bs) ram done doff =
     (let remaining = len - done
      in if remaining = 0 then (0, done, ram)
         else let n = min remaining (bsize b)
              in if offset b + n > rsz then (1, done, ram)
                 else write_ram_loop rsz dat len bs
                        (memcpy ram (unat (offset b)) dat (unat doff) (unat n)) (done + n) (doff + n))"

definition WriteToRam :: "Bdev \<Rightarrow> Block list \<Rightarrow> mem \<Rightarrow> u64 \<Rightarrow> u32 \<times> u64 \<times> Bdev" where
  "WriteToRam s bs dat len =
     (let (rc, done, ram) = write_ram_loop (ram_size s) dat len bs (ram_buffer s) 0 0;
          s' = s\<lparr>ram_buffer := ram\<rparr>
      in (rc, done,
          if rc = 0 then s'\<lparr>total_writes := total_writes s + 1,
                             total_bytes_written := total_bytes_written s + done\<rparr>
          else s'))"

fun read_ram_loop :: "u64 \<Rightarrow> mem \<Rightarrow> u64 \<Rightarrow> Block list \<Rightarrow> mem \<Rightarrow> u64 \<Rightarrow> u64 \<Rightarrow> u32 \<times> u64 \<times> mem" where
  "read_ram_loop rsz ram len [] dat done doff = (0, done, dat)"
| "read_ram_loop rsz ram len (b # bs) dat done doff =
     (let remaining = len - done
      in if remaining = 0 then (0, done, dat)
         else let n = min remaining (bsize b)
              in if offset b + n > rsz then (1, done, dat)
                 else read_ram_loop rsz ram len bs
                        (memcpy dat (unat doff) ram (unat (offset b)) (unat n)) (done + n) (doff + n))"

definition ReadFromRam :: "Bdev \<Rightarrow> Block list \<Rightarrow> mem \<Rightarrow> u64 \<Rightarrow> u32 \<times> u64 \<times> mem \<times> Bdev" where
  "ReadFromRam s bs dat len =
     (let (rc, done, dat') = read_ram_loop (ram_size s) (ram_buffer s) len bs dat 0 0
      in (rc, done, dat',
          if rc = 0 then s\<lparr>total_reads := total_reads s + 1,
                           total_bytes_read := total_bytes_read s + done\<rparr>
          else s))"

section \<open>Transfers on files\<close>

type_synonym io_result = "int \<times> u64"

text \<open>
  Phase 1 of the batch: requests are submitted until the queue is full, all
  of them with the data offset and the byte count from before the batch. A
  failed submission ends the task with code 2, an unusable context with code 1.
\<close>

fun submit_writes :: "(mem \<Rightarrow> mem \<Rightarrow> nat \<Rightarrow> u64 \<Rightarrow> u64 \<Rightarrow> io_result option \<times> mem) \<Rightarrow> bool \<Rightarrow> mem \<Rightarrow> u64 \<Rightarrow>
    u64 \<Rightarrow> u64 \<Rightarrow> nat \<Rightarrow> Block list \<Rightarrow> (io_result \<times> Block) list \<Rightarrow> mem \<Rightarrow>
    u32 \<times> (io_result \<times> Block) list \<times> Block list \<times> mem" where
  "submit_writes aio ctx_ok dat len done doff room [] pending f = (0, pending, [], f)"
| "submit_writes aio ctx_ok dat len done doff 0 (b # bs) pending f = (0, pending, b # bs, f)"
| "submit_writes aio ctx_ok dat len done doff (Suc room) (b # bs) pending f =
     (let remaining = len - done
      in if remaining = 0 then (0, pending, b # bs, f)
         else let n = min remaining (bsize b)
              in if \<not> ctx_ok then (1, pending, b # bs, f)
                 else case aio f dat (unat doff) n (offset b) of
                        (None, f') \<Rightarrow> (2, pending, b # bs, f')
                      | (Some r, f') \<Rightarrow>
                          submit_writes aio ctx_ok dat len done doff room bs (pending @ [(r, b)]) f')"

text \<open>Phase 2: the requests complete in turn; an error code ends the task with code 4.\<close>

fun await_io :: "u64 \<Rightarrow> (io_result \<times> Block) list \<Rightarrow> u64 \<Rightarrow> u64 \<Rightarrow> u32 \<times> u64 \<times> u64" where
  "await_io len [] done doff = (0, done, doff)"
| "await_io len (((err, transferred), b) # ps) done doff =
     (let remaining = len - done
      in if remaining = 0 then (0, done, doff)
         else let n = min remaining (bsize b)
              in if err \<noteq> 0 then (4, done, doff)
                 else let actual = min transferred n
                      in await_io len ps (done + actual) (doff + actual))"

fun write_file_loop :: "nat \<Rightarrow> (mem \<Rightarrow> mem \<Rightarrow> nat \<Rightarrow> u64 \<Rightarrow> u64 \<Rightarrow> io_result option \<times> mem) \<Rightarrow> bool \<Rightarrow> nat \<Rightarrow> mem \<Rightarrow> u64 \<Rightarrow>
    Block list \<Rightarrow> mem \<Rightarrow> u64 \<Rightarrow> u64 \<Rightarrow> (u32 \<times> u64 \<times> mem) option" where
  "write_file_loop fuel aio ctx_ok depth dat len [] f done doff = Some (0, done, f)"
| "write_file_loop 0 aio ctx_ok depth dat len (b # bs) f done doff = None"
| "write_file_loop (Suc fuel) aio ctx_ok depth dat len (b # bs) f done doff =
     (let (rc1, pending, rest, f') = submit_writes aio ctx_ok dat len done doff depth (b # bs) [] f
      in if rc1 \<noteq> 0 then Some (rc1, done, f')
         else let (rc2, done', doff') = await_io len pending done doff
              in if rc2 \<noteq> 0 then Some (rc2, done', f')
                 else write_file_loop fuel aio ctx_ok depth dat len rest f' done' doff')"

text \<open>The file's content is the argument \<open>f\<close>; the counters of the device are updated on success.\<close>

definition WriteToFile :: "nat \<Rightarrow> (mem \<Rightarrow> mem \<Rightarrow> nat \<Rightarrow> u64 \<Rightarrow> u64 \<Rightarrow> io_result option \<times> mem) \<Rightarrow> bool \<Rightarrow> Bdev \<Rightarrow>
    mem \<Rightarrow> Block list \<Rightarrow> mem \<Rightarrow> u64 \<Rightarrow> (u32 \<times> u64 \<times> mem \<times> Bdev) option" where
  "WriteToFile fuel aio ctx_ok s f bs dat len =
     (case write_file_loop fuel aio ctx_ok (unat (io_depth s)) dat len bs f 0 0 of
        None \<Rightarrow> None
      | Some (rc, done, f') \<Rightarrow>
          Some (rc, done, f',
            if rc = 0 then s\<lparr>total_writes := total_writes s + 1,
                             total_bytes_written := total_bytes_written s + done\<rparr>
            else s))"

fun submit_reads :: "(mem \<Rightarrow> mem \<Rightarrow> nat \<Rightarrow> u64 \<Rightarrow> u64 \<Rightarrow> io_result option \<times> mem) \<Rightarrow> bool \<Rightarrow> mem \<Rightarrow> u64 \<Rightarrow>
    u64 \<Rightarrow> u64 \<Rightarrow> nat \<Rightarrow> Block list \<Rightarrow> (io_result \<times> Block) list \<Rightarrow> mem \<Rightarrow>
    u32 \<times> (io_result \<times> Block) list \<times> Block list \<times> mem" where
  "submit_reads aio ctx_ok f len done doff room [] pending dat = (0, pending, [], dat)"
| "submit_reads aio ctx_ok f len done doff 0 (b # bs) pending dat = (0, pending, b # bs, dat)"
| "submit_reads aio ctx_ok f len done doff (Suc room) (b # bs) pending dat =
     (let remaining = len - done
      in if remaining = 0 then (0, pending, b # bs, dat)
         else let n = min remaining (bsize b)
              in if \<not> ctx_ok then (1, pending, b # bs, dat)
                 else case aio f dat (unat doff) n (offset b) of
                        (None, dat') \<Rightarrow> (2, pending, b # bs, dat')
                      | (Some r, dat') \<Rightarrow>
                          submit_reads aio ctx_ok f len done doff room bs (pending @ [(r, b)]) dat')"

fun read_file_loop :: "nat \<Rightarrow> (mem \<Rightarrow> mem \<Rightarrow> nat \<Rightarrow> u64 \<Rightarrow> u64 \<Rightarrow> io_result option \<times> mem) \<Rightarrow> bool \<Rightarrow> nat \<Rightarrow> mem \<Rightarrow> u64 \<Rightarrow>
    Block list \<Rightarrow> mem \<Rightarrow> u64 \<Rightarrow> u64 \<Rightarrow> (u32 \<times> u64 \<times> mem) option" where
  "read_file_loop fuel aio ctx_ok depth f len [] dat done doff = Some (0, done, dat)"
| "read_file_loop 0 aio ctx_ok depth f len (b # bs) dat done doff = None"
| "read_file_loop (Suc fuel) aio ctx_ok depth f len (b # bs) dat done doff =
     (let (rc1, pending, rest, dat') = submit_reads aio ctx_ok f len done doff depth (b # bs) [] dat
      in if rc1 \<noteq> 0 then Some (rc1, done, dat')
         else let (rc2, done', doff') = await_io len pending done doff
              in if rc2 \<noteq> 0 then Some (rc2, done', dat')
                 else read_file_loop fuel aio ctx_ok depth f len rest dat' done' doff')"

definition ReadFromFile :: "nat \<Rightarrow> (mem \<Rightarrow> mem \<Rightarrow> nat \<Rightarrow> u64 \<Rightarrow> u64 \<Rightarrow> io_result option \<times> mem) \<Rightarrow> bool \<Rightarrow> Bdev \<Rightarrow>
    mem \<Rightarrow> Block list \<Rightarrow> mem \<Rightarrow> u64 \<Rightarrow> (u32 \<times> u64 \<times> mem \<times> Bdev) option" where
  "ReadFromFile fuel aio ctx_ok s f bs dat len =
     (case read_file_loop fuel aio ctx_ok (unat (io_depth s)) f len bs dat 0 0 of
        None \<Rightarrow> None
      | Some (rc, done, dat') \<Rightarrow>
          Some (rc, done, dat',
            if rc = 0 then s\<lparr>total_reads := total_reads s + 1,
                             total_bytes_read := total_bytes_read s + done\<rparr>
            else s))"

section \<open>Statistics\<close>

text \<open>
  \<^verbatim>\<open>GetStats\<close>: \<open>read_wall\<close> and \<open>write_wall\<close> are the times in microseconds that the
  container's learned model predicts for one MiB.
\<close>

definition GetStats :: "Bdev \<Rightarrow> real \<Rightarrow> real \<Rightarrow> PerfMetrics \<times> u64" where
  "GetStats s read_wall write_wall =
     (\<lparr>read_bandwidth_mbps = (if read_wall > 0 then 1 / (read_wall / 1000000)
                              else read_bandwidth_mbps (perf_metrics s)),
       write_bandwidth_mbps = (if write_wall > 0 then 1 / (write_wall / 1000000)
                               else write_bandwidth_mbps (perf_metrics s)),
       read_latency_us = read_wall, write_latency_us = write_wall,
       iops = iops (perf_metrics s)\<rparr>,
      Heap_GetRemainingSize (heap s))"

definition AlignSize :: "Bdev \<Rightarrow> u64 \<Rightarrow> u64 \<times> Bdev" where
  "AlignSize s sz =
     (let s = (if alignment s = 0 then s\<lparr>alignment := 4096\<rparr> else s)
      in (((sz + ucast (alignment s) - 1) div ucast (alignment s)) * ucast (alignment s), s))"

section \<open>Memory transfers: what is stored where\<close>

text \<open>
  \<open>stored ram bs dat t len\<close>: reading the blocks in order from byte \<open>t\<close> on
  yields \<open>dat\<close> up to \<open>len\<close> bytes, or up to the end of the last block.
\<close>

fun stored :: "mem \<Rightarrow> Block list \<Rightarrow> mem \<Rightarrow> nat \<Rightarrow> nat \<Rightarrow> bool" where
  "stored ram [] dat t len = True"
| "stored ram (b # bs) dat t len =
     (let n = min (len - t) (unat (bsize b))
      in (\<forall>i < n. ram (unat (offset b) + i) = dat (t + i)) \<and> stored ram bs dat (t + n) len)"

fun disjoint_blocks :: "Block list \<Rightarrow> bool" where
  "disjoint_blocks [] = True"
| "disjoint_blocks (b # bs) =
     ((\<forall>c \<in> set bs. block_end b \<le> unat (offset c) \<or> block_end c \<le> unat (offset b)) \<and> disjoint_blocks bs)"

abbreviation total_bsize :: "Block list \<Rightarrow> nat" where
  "total_bsize bs \<equiv> sum_list (map (\<lambda>b. unat (bsize b)) bs)"

lemma chunk_arith:
  fixes t len n :: u64
  assumes "t \<le> len" and "n = min (len - t) sz"
  shows "unat n = min (unat len - unat t) (unat sz)" and "unat (t + n) = unat t + unat n" and "t + n \<le> len"
proof -
  show n: "unat n = min (unat len - unat t) (unat sz)"
    using assms by (simp add: unat_min unat_sub word_le_nat_alt)
  have "unat t \<le> unat len" using assms(1) by (simp add: word_le_nat_alt)
  then have "unat t + unat n \<le> unat len" using n by simp
  then have lt: "unat t + unat n < 2 ^ LENGTH(64)" by (rule le_less_trans) (rule unsigned_less)
  then show tn: "unat (t + n) = unat t + unat n" by (rule unat_add_no_overflow)
  show "t + n \<le> len" using tn n assms(1) by (simp add: word_le_nat_alt)
qed

lemma chunk_total:
  assumes "t' = min l (tn + rest)" and "n = min (l - t) sz" and "tn = t + n" and "t \<le> l" and "whole = sz + rest"
  shows "t' = min l (t + (whole :: nat))"
  using assms by (auto simp: min_def)

lemma bounds_check_exact:
  assumes "block_end b \<le> unat rsz" and "n \<le> bsize b"
  shows "\<not> offset b + n > rsz"
proof -
  have "unat (offset b) + unat n \<le> unat rsz"
    using assms by (simp add: block_end_def word_le_nat_alt)
  moreover from this have "unat (offset b + n) = unat (offset b) + unat n"
    by (intro unat_add_no_overflow) (erule le_less_trans, rule unsigned_less)
  ultimately show ?thesis by (simp add: word_less_nat_alt)
qed

lemma write_ram_frame:
  assumes "write_ram_loop rsz dat len bs ram t d = (rc, t', ram')"
    and "\<forall>b \<in> set bs. \<not> covers b a"
  shows "ram' a = ram a"
  using assms
proof (induction rsz dat len bs ram t d rule: write_ram_loop.induct)
  case (2 rsz dat len b bs ram t d)
  let ?n = "min (len - t) (bsize b)"
  have le: "unat ?n \<le> unat (bsize b)" by (simp add: unat_min)
  have "\<not> covers b a" using "2.prems"(2) by simp
  then have "memcpy ram (unat (offset b)) dat (unat d) (unat ?n) a = ram a"
    using le by (auto simp: memcpy_def covers_def)
  then show ?case using "2" by (auto simp: Let_def split: if_splits)
qed simp

lemma write_ram_ok:
  assumes "\<forall>b \<in> set bs. block_end b \<le> unat rsz" and "t \<le> len" and "disjoint_blocks bs"
  shows "\<exists>t' ram'. write_ram_loop rsz dat len bs ram t t = (0, t', ram') \<and>
    unat t' = min (unat len) (unat t + total_bsize bs) \<and> stored ram' bs dat (unat t) (unat len)"
  using assms
proof (induction bs arbitrary: ram t)
  case Nil
  then show ?case by (simp add: word_le_nat_alt)
next
  case (Cons b bs)
  show ?case
  proof (cases "len - t = 0")
    case True
    then have "len = t" by simp
    have z: "stored ram cs dat (unat len) (unat len)" for cs by (induction cs) simp_all
    show ?thesis using z [of "b # bs"] \<open>len = t\<close> by simp
  next
    case False
    define n where "n = min (len - t) (bsize b)"
    note n = chunk_arith [OF Cons.prems(2) n_def]
    let ?ram = "memcpy ram (unat (offset b)) dat (unat t) (unat n)"
    have "n \<le> bsize b" by (simp add: n_def)
    with Cons.prems(1) have ok: "\<not> offset b + n > rsz" by (intro bounds_check_exact) simp_all
    obtain t' ram' where loop: "write_ram_loop rsz dat len bs ?ram (t + n) (t + n) = (0, t', ram')"
      and t': "unat t' = min (unat len) (unat (t + n) + total_bsize bs)"
      and st: "stored ram' bs dat (unat (t + n)) (unat len)"
      using Cons.IH [OF _ n(3), of ?ram] Cons.prems by auto
    have "ram' (unat (offset b) + i) = dat (unat t + i)" if "i < unat n" for i
    proof -
      have i: "unat (offset b) + i < block_end b" using that n(1) by (simp add: block_end_def)
      have "\<forall>c \<in> set bs. \<not> covers c (unat (offset b) + i)"
        using Cons.prems(3) i by (fastforce simp: covers_def block_end_def)
      from write_ram_frame [OF loop this] that show ?thesis by (simp add: memcpy_def)
    qed
    moreover have "write_ram_loop rsz dat len (b # bs) ram t t = (0, t', ram')"
      using False ok loop by (simp add: Let_def n_def)
    moreover have "unat t' = min (unat len) (unat t + total_bsize (b # bs))"
      by (rule chunk_total [OF t' n(1,2)]) (simp_all add: Cons.prems(2) word_le_nat_alt [symmetric])
    ultimately show ?thesis using st n by (auto simp: Let_def)
  qed
qed

lemma read_ram_ok:
  assumes "\<forall>b \<in> set bs. block_end b \<le> unat rsz" and "t \<le> len" and "stored ram bs dat (unat t) (unat len)"
  shows "\<exists>t' out'. read_ram_loop rsz ram len bs out t t = (0, t', out') \<and>
    unat t' = min (unat len) (unat t + total_bsize bs) \<and>
    (\<forall>i. out' i = (if unat t \<le> i \<and> i < unat t' then dat i else out i))"
  using assms
proof (induction bs arbitrary: out t)
  case Nil
  then show ?case by (auto simp: word_le_nat_alt)
next
  case (Cons b bs)
  show ?case
  proof (cases "len - t = 0")
    case True
    then have "len = t" by simp
    then show ?thesis by auto
  next
    case False
    define n where "n = min (len - t) (bsize b)"
    note n = chunk_arith [OF Cons.prems(2) n_def]
    let ?out = "memcpy out (unat t) ram (unat (offset b)) (unat n)"
    have "n \<le> bsize b" by (simp add: n_def)
    with Cons.prems(1) have ok: "\<not> offset b + n > rsz" by (intro bounds_check_exact) simp_all
    have st: "\<forall>i < unat n. ram (unat (offset b) + i) = dat (unat t + i)"
        "stored ram bs dat (unat (t + n)) (unat len)"
      using Cons.prems(3) n by (auto simp: Let_def)
    obtain t' out' where loop: "read_ram_loop rsz ram len bs ?out (t + n) (t + n) = (0, t', out')"
      and t': "unat t' = min (unat len) (unat (t + n) + total_bsize bs)"
      and o': "\<forall>i. out' i = (if unat (t + n) \<le> i \<and> i < unat t' then dat i else ?out i)"
      using Cons.IH [OF _ n(3) st(2), of ?out] Cons.prems by auto
    have "?out i = (if unat t \<le> i \<and> i < unat (t + n) then dat i else out i)" for i
    proof (cases "unat t \<le> i \<and> i < unat t + unat n")
      case True
      then have "i - unat t < unat n" by linarith
      with st(1) True have "ram (unat (offset b) + (i - unat t)) = dat i" by fastforce
      with True n(2) show ?thesis by (simp add: memcpy_def)
    next
      case False
      then show ?thesis using n(2) by (auto simp: memcpy_def)
    qed
    moreover have "unat (t + n) \<le> unat t'" "unat t \<le> unat (t + n)"
      using t' n by (simp_all add: word_le_nat_alt)
    ultimately have "\<forall>i. out' i = (if unat t \<le> i \<and> i < unat t' then dat i else out i)" using o' by auto
    moreover have "read_ram_loop rsz ram len (b # bs) out t t = (0, t', out')"
      using False ok loop by (simp add: Let_def n_def)
    moreover have "unat t' = min (unat len) (unat t + total_bsize (b # bs))"
      by (rule chunk_total [OF t' n(1,2)]) (simp_all add: Cons.prems(2) word_le_nat_alt [symmetric])
    ultimately show ?thesis by blast
  qed
qed


section \<open>Live blocks and transfers\<close>

lemma disjoint_blocks_live:
  assumes "alloc_run s0 s L" and "mset bs \<subseteq># L"
  shows "disjoint_blocks bs"
  using assms(2)
proof (induction bs)
  case (Cons b bs)
  then have sub: "mset bs \<subseteq># L" by (auto intro: subset_mset.order_trans [rotated])
  have "block_end b \<le> unat (offset c) \<or> block_end c \<le> unat (offset b)" if "c \<in> set bs" for c
  proof -
    have "{#b, c#} \<subseteq># mset (b # bs)" using that by simp
    then have "{#b, c#} \<subseteq># L" using Cons.prems by (rule subset_mset.order_trans)
    then show ?thesis using live_disjoint [OF assms(1)] by blast
  qed
  with Cons.IH [OF sub] show ?case by simp
qed simp

lemma live_in_ram:
  assumes "alloc_run s0 s L" and "mset bs \<subseteq># L" and "ram_size s = file_size s0"
  shows "\<forall>b \<in> set bs. block_end b \<le> unat (ram_size s)"
  using live_inside [OF assms(1)] assms(2,3) by (auto dest: mset_subset_eqD)

lemma covers_disjoint:
  assumes "alloc_run s0 s L" and "mset bs + mset cs \<subseteq># L" and "b \<in> set bs" and "c \<in> set cs"
  shows "\<not> (covers b a \<and> covers c a)"
proof -
  have "{#b#} + {#c#} \<subseteq># mset bs + mset cs" using assms(3,4) by (intro subset_mset.add_mono) simp_all
  then have "{#b, c#} \<subseteq># mset bs + mset cs" by (simp add: add_mset_commute)
  then have "{#b, c#} \<subseteq># L" using assms(2) by (rule subset_mset.order_trans)
  with alloc_run_inv [OF assms(1)] show ?thesis by (rule alloc_inv_disjoint)
qed

lemma stored_cong:
  assumes "\<And>b i. b \<in> set bs \<Longrightarrow> covers b i \<Longrightarrow> ram' i = ram i"
  shows "stored ram' bs dat t len = stored ram bs dat t len"
  using assms
proof (induction bs arbitrary: t)
  case (Cons b bs)
  have "covers b (unat (offset b) + i)" if "i < min (len - t) (unat (bsize b))" for i
    using that by (simp add: covers_def)
  then have "ram' (unat (offset b) + i) = ram (unat (offset b) + i)" if "i < min (len - t) (unat (bsize b))" for i
    using that Cons.prems [of b "unat (offset b) + i"] by simp
  with Cons show ?case by (auto simp: Let_def)
qed simp

lemma WriteToRam_ok:
  assumes "\<forall>b \<in> set bs. block_end b \<le> unat (ram_size s)" and "disjoint_blocks bs"
    and "WriteToRam s bs dat len = (rc, n, s')"
  shows "rc = 0 \<and> unat n = min (unat len) (total_bsize bs) \<and> stored (ram_buffer s') bs dat 0 (unat len) \<and>
    ram_size s' = ram_size s"
proof -
  obtain t' ram' where "write_ram_loop (ram_size s) dat len bs (ram_buffer s) 0 0 = (0, t', ram')"
    and "unat t' = min (unat len) (unat (0 :: u64) + total_bsize bs)" and "stored ram' bs dat (unat (0 :: u64)) (unat len)"
    using write_ram_ok [OF assms(1) _ assms(2), of 0 len dat "ram_buffer s"] by auto
  then show ?thesis using assms(3) by (auto simp: WriteToRam_def)
qed

lemma WriteToRam_frame:
  assumes "WriteToRam s bs dat len = (rc, n, s')" and "\<forall>b \<in> set bs. \<not> covers b a"
  shows "ram_buffer s' a = ram_buffer s a"
  using assms by (auto simp: WriteToRam_def Let_def split: prod.splits if_splits dest: write_ram_frame)

lemma ReadFromRam_ok:
  assumes "\<forall>b \<in> set bs. block_end b \<le> unat (ram_size s)" and "stored (ram_buffer s) bs dat 0 (unat len)"
    and "ReadFromRam s bs buf len = (rc, n, out, s')"
  shows "rc = 0 \<and> unat n = min (unat len) (total_bsize bs) \<and> (\<forall>i. out i = (if i < unat n then dat i else buf i))"
proof -
  obtain t' out' where "read_ram_loop (ram_size s) (ram_buffer s) len bs buf 0 0 = (0, t', out')"
    and "unat t' = min (unat len) (unat (0 :: u64) + total_bsize bs)"
    and "\<forall>i. out' i = (if unat (0 :: u64) \<le> i \<and> i < unat t' then dat i else buf i)"
    using read_ram_ok [OF assms(1) _ , of 0 len "ram_buffer s" dat buf] assms(2) by auto
  then show ?thesis using assms(3) by (auto simp: ReadFromRam_def)
qed

lemma write_ram_in_bounds:
  assumes "write_ram_loop rsz dat len bs ram t d = (rc, t', ram')"
    and "\<forall>b \<in> set bs. block_end b < 2 ^ 64" and "unat rsz \<le> a"
  shows "ram' a = ram a"
  using assms
proof (induction rsz dat len bs ram t d rule: write_ram_loop.induct)
  case (2 rsz dat len b bs ram t d)
  define n where "n = min (len - t) (bsize b)"
  have "unat (offset b) + unat n \<le> block_end b" by (simp add: block_end_def n_def unat_min)
  then have "unat (offset b + n) = unat (offset b) + unat n"
    using "2.prems"(2) by (intro unat_add_no_overflow) (auto intro: le_less_trans)
  then have "unat (offset b) + unat n \<le> a" if "\<not> offset b + n > rsz"
    using that "2.prems"(3) by (simp add: word_less_nat_alt)
  then have "memcpy ram (unat (offset b)) dat (unat d) (unat n) a = ram a" if "\<not> offset b + n > rsz"
    using that by (simp add: memcpy_above)
  with 2 show ?case by (auto simp: Let_def n_def split: if_splits)
qed simp

section \<open>File transfers under a faithful backend\<close>

definition aio_write_ok :: "(mem \<Rightarrow> mem \<Rightarrow> nat \<Rightarrow> u64 \<Rightarrow> u64 \<Rightarrow> io_result option \<times> mem) \<Rightarrow> bool" where
  "aio_write_ok aio \<longleftrightarrow> (\<forall>f dat d n off. aio f dat d n off = (Some (0, n), memcpy f (unat off) dat d (unat n)))"

definition aio_read_ok :: "(mem \<Rightarrow> mem \<Rightarrow> nat \<Rightarrow> u64 \<Rightarrow> u64 \<Rightarrow> io_result option \<times> mem) \<Rightarrow> bool" where
  "aio_read_ok aio \<longleftrightarrow> (\<forall>f dat d n off. aio f dat d n off = (Some (0, n), memcpy dat d f (unat off) (unat n)))"

text \<open>Once the whole length is written, or with a queue depth of 0, a block that is left is never consumed.\<close>

lemma write_file_stuck:
  assumes "len = done \<or> depth = 0" and "bs \<noteq> []"
  shows "write_file_loop fuel aio ctx_ok depth dat len bs f done doff = None"
proof (induction fuel)
  case 0
  from assms(2) show ?case by (cases bs) simp_all
next
  case (Suc fuel)
  obtain b cs where bs: "bs = b # cs" using assms(2) by (cases bs) auto
  have "submit_writes aio ctx_ok dat len done doff depth bs [] f = (0, [], bs, f)"
    using assms bs by (cases depth) auto
  with Suc bs show ?case by simp
qed

lemma submit_writes_honest:
  assumes "aio_write_ok aio" and "len \<noteq> done"
  shows "\<exists>f'. submit_writes aio True dat len done doff room bs ps f =
    (0, ps @ map (\<lambda>b. ((0, min (len - done) (bsize b)), b)) (take room bs), drop room bs, f')"
  using assms(1) assms(2)
proof (induction aio "True" dat len "done" doff room bs ps f rule: submit_writes.induct)
  case (3 aio dat len "done" doff room b bs ps f)
  then show ?case by (auto simp: Let_def aio_write_ok_def)
qed simp_all

lemma await_io_honest:
  assumes "t \<le> len" and "t0 \<le> t"
  shows "\<exists>t' d'. await_io len (map (\<lambda>b. ((0, min (len - t0) (bsize b)), b)) bs) t d = (0, t', d') \<and>
    unat t' = min (unat len) (unat t + total_bsize bs)"
  using assms
proof (induction bs arbitrary: t d)
  case Nil
  then show ?case by (simp add: word_le_nat_alt)
next
  case (Cons b bs)
  show ?case
  proof (cases "len - t = 0")
    case True
    then show ?thesis by auto
  next
    case False
    define n where "n = min (len - t) (bsize b)"
    note n = chunk_arith [OF Cons.prems(1) n_def]
    have "t0 \<le> t + n" using Cons.prems n(2) by (simp add: word_le_nat_alt)
    from Cons.IH [OF n(3) this, of "d + n"] obtain t' d' where
      l: "await_io len (map (\<lambda>b. ((0, min (len - t0) (bsize b)), b)) bs) (t + n) (d + n) = (0, t', d')"
      and t': "unat t' = min (unat len) (unat (t + n) + total_bsize bs)" by blast
    have "len - t \<le> len - t0" using Cons.prems
      by (simp add: word_le_nat_alt unat_sub)
    then have "min (min (len - t0) (bsize b)) n = n" unfolding n_def by (auto simp: min_def)
    with False l have "await_io len (map (\<lambda>b. ((0, min (len - t0) (bsize b)), b)) (b # bs)) t d = (0, t', d')"
      by (simp add: Let_def n_def [symmetric])
    moreover have "unat t' = min (unat len) (unat t + total_bsize (b # bs))"
      by (rule chunk_total [OF t' n(1,2)]) (simp_all add: Cons.prems word_le_nat_alt [symmetric])
    ultimately show ?thesis by blast
  qed
qed


text \<open>With a queue depth of 1 a round submits one block and completes it.\<close>

lemma write_serial_step:
  assumes "aio_write_ok aio" and "len \<noteq> t" and "n = min (len - t) (bsize b)"
  shows "write_file_loop (Suc fuel) aio True 1 dat len (b # bs) f t d =
    write_file_loop fuel aio True 1 dat len bs (memcpy f (unat (offset b)) dat (unat d) (unat n)) (t + n) (d + n)"
proof -
  have "submit_writes aio True dat len t d 1 (b # bs) [] f =
      (0, [((0, n), b)], bs, memcpy f (unat (offset b)) dat (unat d) (unat n))"
    using assms by (cases bs) (simp_all add: aio_write_ok_def Let_def)
  with assms(2,3) show ?thesis by (simp add: Let_def del: submit_writes.simps)
qed

lemma read_serial_step:
  assumes "aio_read_ok aio" and "len \<noteq> t" and "n = min (len - t) (bsize b)"
  shows "read_file_loop (Suc fuel) aio True 1 f len (b # bs) dat t d =
    read_file_loop fuel aio True 1 f len bs (memcpy dat (unat d) f (unat (offset b)) (unat n)) (t + n) (d + n)"
proof -
  have "submit_reads aio True f len t d 1 (b # bs) [] dat =
      (0, [((0, n), b)], bs, memcpy dat (unat d) f (unat (offset b)) (unat n))"
    using assms by (cases bs) (simp_all add: aio_read_ok_def Let_def)
  with assms(2,3) show ?thesis by (simp add: Let_def del: submit_reads.simps)
qed

text \<open>
  So, while every block is needed, the serial file loop does what the memory loop does
  (on a memory without bounds).
\<close>

lemma serial_needed:
  assumes "t \<le> len" and "unat t + total_bsize (butlast (b # bs)) < unat len" and "n = min (len - t) (bsize b)"
    and "bs \<noteq> []"
  shows "len \<noteq> t + n" and "unat (t + n) + total_bsize (butlast bs) < unat len"
proof -
  note n = chunk_arith [OF assms(1,3)]
  have "unat n \<le> unat (bsize b)" using n(1) by simp
  then show l: "unat (t + n) + total_bsize (butlast bs) < unat len" using assms(2,4) n(2) by simp
  then show "len \<noteq> t + n" by auto
qed

lemma write_file_serial:
  assumes "aio_write_ok aio" and "t \<le> len" and "bs \<noteq> []" and "len \<noteq> t"
    and "unat t + total_bsize (butlast bs) < unat len" and "length bs \<le> fuel" 
    and "write_ram_loop rsz dat len bs f t t = (0, t', f')"
  shows "write_file_loop fuel aio True 1 dat len bs f t t = Some (0, t', f')"
  using assms(2-)
proof (induction bs arbitrary: f t fuel)
  case (Cons b bs)
  obtain fuel' where fuel: "fuel = Suc fuel'" "length bs \<le> fuel'" using Cons.prems(5) by (cases fuel) auto
  define n where "n = min (len - t) (bsize b)"
  note step = write_serial_step [OF assms(1) Cons.prems(3) n_def, of fuel' dat bs f t]
  have l: "write_ram_loop rsz dat len bs (memcpy f (unat (offset b)) dat (unat t) (unat n)) (t + n) (t + n) = (0, t', f')"
    using Cons.prems(6,3) by (auto simp: Let_def n_def split: if_splits)
  show ?case
  proof (cases "bs = []")
    case True
    with step l fuel(1) show ?thesis by simp
  next
    case False
    note nd = serial_needed [OF Cons.prems(1,4) n_def False]
    from Cons.IH [OF chunk_arith(3) [OF Cons.prems(1) n_def] False nd fuel(2) l] step fuel(1) show ?thesis by simp
  qed
qed simp

lemma read_file_serial:
  assumes "aio_read_ok aio" and "t \<le> len" and "bs \<noteq> []" and "len \<noteq> t"
    and "unat t + total_bsize (butlast bs) < unat len" and "length bs \<le> fuel" 
    and "read_ram_loop rsz f len bs out t t = (0, t', out')"
  shows "read_file_loop fuel aio True 1 f len bs out t t = Some (0, t', out')"
  using assms(2-)
proof (induction bs arbitrary: out t fuel)
  case (Cons b bs)
  obtain fuel' where fuel: "fuel = Suc fuel'" "length bs \<le> fuel'" using Cons.prems(5) by (cases fuel) auto
  define n where "n = min (len - t) (bsize b)"
  note step = read_serial_step [OF assms(1) Cons.prems(3) n_def, of fuel' f bs out t]
  have l: "read_ram_loop rsz f len bs (memcpy out (unat t) f (unat (offset b)) (unat n)) (t + n) (t + n) = (0, t', out')"
    using Cons.prems(6,3) by (auto simp: Let_def n_def split: if_splits)
  show ?case
  proof (cases "bs = []")
    case True
    with step l fuel(1) show ?thesis by simp
  next
    case False
    note nd = serial_needed [OF Cons.prems(1,4) n_def False]
    from Cons.IH [OF chunk_arith(3) [OF Cons.prems(1) n_def] False nd fuel(2) l] step fuel(1) show ?thesis by simp
  qed
qed simp


section \<open>A concrete run\<close>

definition demo_b :: Block where
  "demo_b = \<lparr>offset = 0, bsize = 16384, block_type = 1\<rparr>"

definition demo_c :: Block where
  "demo_c = \<lparr>offset = 16384, bsize = 1048576, block_type = 5\<rparr>"

lemma demo_run: "\<exists>s. alloc_run demo_bdev s {#demo_b, demo_c#} \<and> ram_size s = 2097152"
proof -
  let ?s0 = "InitializeAllocator 1 demo_bdev"
  let ?r1 = "AllocateBlocks ?s0 0 5000"
  let ?s1 = "snd (snd ?r1)"
  let ?r2 = "AllocateBlocks ?s1 0 1048576"
  have r: "?r1 = (0, [demo_b], ?s1)" "?r2 = (0, [demo_c], snd (snd ?r2))" "ram_size (snd (snd ?r2)) = 2097152"
    by (simp_all add: alloc_eval demo_bdev_def demo_b_def demo_c_def Heap_GetRemainingSize_def)
  have h: "unat (heap_ptr (heap ?s0)) + length (io_divisions 5000) * (1048576 + eff_align (heap ?s0)) \<le> 2 ^ 64"
      "unat (heap_ptr (heap ?s1)) + length (io_divisions 1048576) * (1048576 + eff_align (heap ?s1)) \<le> 2 ^ 64"
    by (simp_all add: alloc_eval demo_bdev_def Heap_GetRemainingSize_def)
  from alloc_run.alloc [OF alloc_run.alloc [OF alloc_run.init h(1) r(1)] h(2) r(2)] r(3) show ?thesis
    by (auto simp: add_mset_commute)
qed

text \<open>A backend that performs every request at once and completely.\<close>

definition sync_write :: "mem \<Rightarrow> mem \<Rightarrow> nat \<Rightarrow> u64 \<Rightarrow> u64 \<Rightarrow> io_result option \<times> mem" where
  "sync_write f dat d n off = (Some (0, n), memcpy f (unat off) dat d (unat n))"

definition sync_read :: "mem \<Rightarrow> mem \<Rightarrow> nat \<Rightarrow> u64 \<Rightarrow> u64 \<Rightarrow> io_result option \<times> mem" where
  "sync_read f dat d n off = (Some (0, n), memcpy dat d f (unat off) (unat n))"

lemma sync_write_ok: "aio_write_ok sync_write"
  by (simp add: aio_write_ok_def sync_write_def)

lemma sync_read_ok: "aio_read_ok sync_read"
  by (simp add: aio_read_ok_def sync_read_def)

section \<open>Properties\<close>

text \<open>
  C5. What a client writes to the blocks it holds on a memory device is what it
  reads back, also after another client wrote to its own blocks: in every
  state the allocator can reach, both writes and the read succeed, the read
  returns the written bytes and leaves the rest of the buffer alone.
\<close>

theorem held_blocks_keep_their_data:
  assumes "alloc_run s0 s L" and "ram_size s = file_size s0" and "mset bs + mset cs \<subseteq># L"
    and "unat len \<le> total_bsize bs"
    and "WriteToRam s bs dat len = (rc1, n1, s1)" and "WriteToRam s1 cs dat2 len2 = (rc2, n2, s2)"
    and "ReadFromRam s2 bs buf len = (rc3, n3, out, s3)"
  shows "rc1 = 0 \<and> n1 = len \<and> rc2 = 0 \<and> rc3 = 0 \<and> n3 = len \<and>
    (\<forall>i. out i = (if i < unat len then dat i else buf i))"
proof -
  have b: "mset bs \<subseteq># L" and c: "mset cs \<subseteq># L"
    using assms(3) subset_mset.order_trans [of "mset bs" "mset bs + mset cs" L]
      subset_mset.order_trans [of "mset cs" "mset bs + mset cs" L] by simp_all
  note inb = live_in_ram [OF assms(1) b assms(2)] and inc = live_in_ram [OF assms(1) c assms(2)]
  note w1 = WriteToRam_ok [OF inb disjoint_blocks_live [OF assms(1) b] assms(5)]
  then have s1: "ram_size s1 = ram_size s" by blast
  note w2 = WriteToRam_ok [OF inc [folded s1] disjoint_blocks_live [OF assms(1) c] assms(6)]
  have "ram_buffer s2 i = ram_buffer s1 i" if "b \<in> set bs" "covers b i" for b i
    by (rule WriteToRam_frame [OF assms(6)]) (use covers_disjoint [OF assms(1,3)] that in blast)
  then have "stored (ram_buffer s2) bs dat 0 (unat len)" using stored_cong w1 by blast
  moreover have "ram_size s2 = ram_size s" using w2 s1 by simp
  ultimately have r: "rc3 = 0 \<and> unat n3 = min (unat len) (total_bsize bs) \<and>
      (\<forall>i. out i = (if i < unat n3 then dat i else buf i))"
    using ReadFromRam_ok [OF _ _ assms(7)] inb by simp
  then have "n3 = len" "n1 = len" using assms(4) w1 by (simp_all add: min_absorb1 word_unat_eq_iff)
  with r w1 w2 show ?thesis by simp
qed

theorem held_blocks_keep_their_data_witness:
  "\<exists>s b c s1 s2 s3 out. alloc_run demo_bdev s {#b, c#} \<and>
     WriteToRam s [b] (\<lambda>i. of_nat i) 5000 = (0, 5000, s1) \<and> WriteToRam s1 [c] (\<lambda>_. 255) 1048576 = (0, 1048576, s2) \<and>
     ReadFromRam s2 [b] (\<lambda>_. 0) 5000 = (0, 5000, out, s3) \<and> (\<forall>i. out i = (if i < 5000 then of_nat i else 0))"
proof -
  from demo_run obtain s where run: "alloc_run demo_bdev s {#demo_b, demo_c#}" and rs: "ram_size s = 2097152" by blast
  have rs': "ram_size s = file_size demo_bdev" using rs by (simp add: demo_bdev_def)
  obtain rc1 n1 s1 where w1: "WriteToRam s [demo_b] (\<lambda>i. of_nat i) 5000 = (rc1, n1, s1)" by (metis prod.collapse)
  obtain rc2 n2 s2 where w2: "WriteToRam s1 [demo_c] (\<lambda>_. 255) 1048576 = (rc2, n2, s2)" by (metis prod.collapse)
  obtain rc3 n3 out s3 where r: "ReadFromRam s2 [demo_b] (\<lambda>_. 0) 5000 = (rc3, n3, out, s3)" by (metis prod.collapse)
  have ok: "rc1 = 0 \<and> n1 = 5000 \<and> rc2 = 0 \<and> rc3 = 0 \<and> n3 = 5000 \<and>
      (\<forall>i. out i = (if i < unat (5000 :: u64) then of_nat i else 0))"
    by (rule held_blocks_keep_their_data [OF run rs' _ _ w1 w2 r]) (simp_all add: demo_b_def)
  have rs1: "ram_size s1 = 2097152" using w1 rs by (auto simp: WriteToRam_def Let_def split: prod.splits if_splits)
  have "n2 = 1048576" using w2 rs1 by (auto simp: WriteToRam_def Let_def demo_c_def)
  with ok w1 w2 r run show ?thesis
    by (intro exI [of _ s] exI [of _ demo_b] exI [of _ demo_c] exI [of _ s1] exI [of _ s2] exI [of _ s3] exI [of _ out]) simp
qed

text \<open>
  C34. The memory device never writes outside its buffer, whatever blocks a task
  names and whatever the return code, provided no block wraps around the
  64-bit address space.
\<close>

theorem WriteToRam_memory_safe:
  assumes "WriteToRam s bs dat len = (rc, n, s')" and "\<forall>b \<in> set bs. block_end b < 2 ^ 64"
    and "unat (ram_size s) \<le> a"
  shows "ram_buffer s' a = ram_buffer s a"
  using assms by (auto simp: WriteToRam_def Let_def split: prod.splits if_splits dest: write_ram_in_bounds)

theorem WriteToRam_memory_safe_witness:
  "let b = \<lparr>offset = 2097152, bsize = 4096, block_type = 0\<rparr>; (rc, n, s') = WriteToRam demo_bdev [b] (\<lambda>_. 7) 4096
   in rc = 1 \<and> ram_buffer s' 2097152 = 0"
proof -
  let ?b = "\<lparr>offset = 2097152, bsize = 4096, block_type = 0\<rparr> :: Block"
  obtain rc n s' where w: "WriteToRam demo_bdev [?b] (\<lambda>_. 7) 4096 = (rc, n, s')" by (metis prod.collapse)
  have "ram_buffer s' 2097152 = ram_buffer demo_bdev 2097152"
    by (rule WriteToRam_memory_safe [OF w]) (simp_all add: block_end_def demo_bdev_def)
  moreover have "rc = 1" using w by (auto simp: WriteToRam_def demo_bdev_def Let_def)
  ultimately show ?thesis unfolding Let_def w by (simp add: demo_bdev_def)
qed

text \<open>
  The bounds check adds offset and length at 64 bits: a block that ends past
  the address space passes it, and the task writes far outside the buffer
  while it reports success.
\<close>

theorem ram_bounds_check_wraps:
  "let b = \<lparr>offset = 18446744073709551615, bsize = 2, block_type = 0\<rparr>;
       (rc, n, s') = WriteToRam demo_bdev [b] (\<lambda>_. 7) 2
   in rc = 0 \<and> n = 2 \<and> ram_buffer s' 18446744073709551615 = 7 \<and> ram_size demo_bdev = 2097152"
  by (simp add: WriteToRam_def demo_bdev_def memcpy_def)



text \<open>
  A file write never returns when the blocks outlast the data: if the first
  \<^verbatim>\<open>io_depth_\<close> blocks hold the whole length and more blocks follow, the outer
  loop spins without submitting anything, whatever the fuel.
\<close>

theorem WriteToFile_hangs:
  assumes "aio_write_ok aw" and "unat (io_depth s) < length bs"
    and "unat len \<le> total_bsize (take (unat (io_depth s)) bs)"
  shows "WriteToFile fuel aw True s f bs dat len = None"
proof (cases "len = 0 \<or> fuel = 0")
  case True
  have ne: "bs \<noteq> []" using assms(2) by auto
  then have "write_file_loop 0 aw True (unat (io_depth s)) dat len bs f 0 0 = None" by (cases bs) simp_all
  with True ne show ?thesis by (auto simp: WriteToFile_def write_file_stuck simp del: write_file_loop.simps)
next
  case False
  let ?d = "unat (io_depth s)"
  obtain fuel' b cs where f: "fuel = Suc fuel'" "bs = b # cs"
    using False assms(2) by (cases fuel; cases bs) auto
  obtain f' where sub: "submit_writes aw True dat len 0 0 ?d bs [] f =
      (0, [] @ map (\<lambda>b. ((0, min (len - 0) (bsize b)), b)) (take ?d bs), drop ?d bs, f')"
    using submit_writes_honest [OF assms(1)] False by blast
  obtain t' d' where aw: "await_io len (map (\<lambda>b. ((0, min (len - 0) (bsize b)), b)) (take ?d bs)) 0 0 = (0, t', d')"
    and t': "unat t' = min (unat len) (unat (0 :: u64) + total_bsize (take ?d bs))"
    using await_io_honest [of 0 len 0 "take ?d bs" 0] by auto
  have "t' = len" using t' assms(3) by (simp add: min_absorb1 word_unat_eq_iff)
  moreover have "drop ?d bs \<noteq> []" using assms(2) by simp
  ultimately have "write_file_loop fuel' aw True ?d dat len (drop ?d bs) f' t' d' = None"
    by (intro write_file_stuck) simp_all
  with sub aw show ?thesis by (simp add: WriteToFile_def f)
qed

theorem WriteToFile_hangs_witness:
  "\<forall>fuel. WriteToFile fuel sync_write True (demo_bdev\<lparr>io_depth := 1\<rparr>) (\<lambda>_. 0) [demo_b, demo_c] (\<lambda>_. 1) 5000 = None"
  by (rule allI, rule WriteToFile_hangs [OF sync_write_ok]) (simp_all add: demo_bdev_def demo_b_def)

text \<open>
  Within one batch every request is submitted from the same place of the
  client's buffer: a write over two blocks with a queue depth of at least 2
  reports success but stores the beginning of the data in both blocks.
\<close>

theorem WriteToFile_batch_repeats_data:
  assumes "aio_write_ok aw" and "2 \<le> unat (io_depth s)" and "disjoint_blocks [b, c]"
    and "unat len = unat (bsize b) + unat (bsize c)" and "bsize b \<noteq> 0" and "bsize c \<noteq> 0"
  shows "\<exists>f' s'. WriteToFile (Suc fuel) aw True s f [b, c] dat len = Some (0, len, f', s') \<and>
    (\<forall>i < unat (bsize c). f' (unat (offset c) + i) = dat i)"
proof -
  obtain d where d: "unat (io_depth s) = Suc (Suc d)" using assms(2) by (metis le_Suc_ex add_2_eq_Suc)
  have l: "bsize b \<le> len" "bsize c \<le> len" "len - bsize b = bsize c" "len \<noteq> 0" "bsize b + bsize c = len"
  proof -
    show e: "bsize b + bsize c = len"
      using assms(4) unat_add_no_overflow [of "bsize b" "bsize c"] unat_less_2p64 [of len]
      by (simp add: word_unat_eq_iff)
    show "bsize b \<le> len" "bsize c \<le> len" using assms(4) by (simp_all add: word_le_nat_alt)
    show "len - bsize b = bsize c" using e by (metis add_diff_cancel_left')
    show "len \<noteq> 0" using assms(4,5) by (auto simp: word_unat_eq_iff)
  qed
  show ?thesis
    using assms l by (auto simp: WriteToFile_def d aio_write_ok_def Let_def min_absorb2 memcpy_def)
qed

theorem WriteToFile_batch_repeats_data_witness:
  "\<exists>f' s'. WriteToFile (Suc 0) sync_write True demo_bdev (\<lambda>_. 0) [demo_b, demo_c] (\<lambda>i. of_nat (i div 16384)) 1064960
      = Some (0, 1064960, f', s') \<and>
    (\<forall>i < unat (bsize demo_c). f' (unat (offset demo_c) + i) = of_nat (i div 16384))"
  by (rule WriteToFile_batch_repeats_data [OF sync_write_ok])
    (simp_all add: demo_bdev_def demo_b_def demo_c_def block_end_def)

text \<open>
  Creation: on success the allocator is empty and covers exactly the device,
  a memory device has a zeroed buffer of the requested size, and a file
  device is never larger than a requested size.
\<close>

theorem Create_correct:
  assumes "Create e pool_name p s = (0, s')"
  shows "alloc_inv s' {#} \<and> total_size (heap s') = file_size s' \<and> heap_ptr (heap s') = 0 \<and>
    (case cp_bdev_type p of
       kRam \<Rightarrow> ram_size s' = cp_total_size p \<and> file_size s' = cp_total_size p \<and> (\<forall>a. ram_buffer s' a = 0)
     | kFile \<Rightarrow> file_size s' > 0 \<and> (cp_total_size p > 0 \<longrightarrow> file_size s' \<le> cp_total_size p))"
proof -
  have fin: "alloc_inv (create_finish e p t) {#} \<and> total_size (heap (create_finish e p t)) = file_size (create_finish e p t) \<and>
      heap_ptr (heap (create_finish e p t)) = 0 \<and> file_size (create_finish e p t) = file_size t \<and>
      ram_size (create_finish e p t) = ram_size t \<and> ram_buffer (create_finish e p t) = ram_buffer t" for t
    using InitializeAllocator_inv [of "worker_count e" "t\<lparr>alignment := cp_alignment p, io_depth := cp_io_depth p\<rparr>"]
    by (simp add: create_finish_def alloc_inv_def InitializeAllocator_def Heap_Init_def)
  show ?thesis
    using assms fin by (auto simp: Create_def Let_def InitializeWorkerIOContexts_def word_gt_0 split: BdevType.splits if_splits)
qed

theorem Create_correct_witness:
  "let p = \<lparr>cp_bdev_type = kRam, cp_total_size = 65536, cp_io_depth = 32, cp_alignment = 4096,
        cp_perf_metrics = perf_metrics demo_bdev\<rparr>;
      e = \<lparr>backend_ok = True, open_ok = True, current_size = 0, truncate_ok = True, new_ok = True, worker_count = 2\<rparr>;
      (rc, s') = Create e ''ram::0'' p demo_bdev
   in rc = 0 \<and> alloc_inv s' {#} \<and> ram_size s' = 65536 \<and> file_size s' = 65536"
proof -
  let ?p = "\<lparr>cp_bdev_type = kRam, cp_total_size = 65536, cp_io_depth = 32, cp_alignment = 4096,
      cp_perf_metrics = perf_metrics demo_bdev\<rparr>"
  let ?e = "\<lparr>backend_ok = True, open_ok = True, current_size = 0, truncate_ok = True, new_ok = True, worker_count = 2\<rparr>"
  obtain rc s' where c: "Create ?e ''ram::0'' ?p demo_bdev = (rc, s')" by (metis prod.collapse)
  then have rc: "rc = 0" by (auto simp: Create_def Let_def)
  from Create_correct [OF c [unfolded rc]] have
    "alloc_inv s' {#} \<and> ram_size s' = 65536 \<and> file_size s' = 65536" by simp
  with rc show ?thesis unfolding Let_def c by simp
qed

end
