(* ===== verification/Chi_Types.thy ===== *)
theory Chi_Types
  imports Prelude
begin

unbundle bit_operations_syntax

text \<open>
  Identifiers and routing descriptors of the runtime: \<^verbatim>\<open>UniqueId\<close>, \<^verbatim>\<open>TaskId\<close>,
  \<^verbatim>\<open>LockOwnerId\<close>, \<^verbatim>\<open>Address\<close> (types.h, types.cc) and \<^verbatim>\<open>PoolQuery\<close> (pool\_query.h,
  pool\_query.cc) with their textual and 64-bit encodings.

  A single-precision float is its bit pattern. An exception is the left
  summand of a result.
\<close>

section \<open>Parsing numbers\<close>

datatype parse_error = InvalidArgument | OutOfRange

definition isdigit :: "char \<Rightarrow> bool" where
  "isdigit c \<longleftrightarrow> 48 \<le> (of_char c :: nat) \<and> (of_char c :: nat) \<le> 57"

definition isspace :: "char \<Rightarrow> bool" where
  "isspace c \<longleftrightarrow> (of_char c :: nat) = 32 \<or> 9 \<le> (of_char c :: nat) \<and> (of_char c :: nat) \<le> 13"

fun digits_val :: "nat \<Rightarrow> string \<Rightarrow> nat" where
  "digits_val acc [] = acc"
| "digits_val acc (c # cs) = (if isdigit c then digits_val (10 * acc + (of_char c - 48)) cs else acc)"

text \<open>
  \<^verbatim>\<open>std::stoul\<close>: blanks, an optional sign, then the longest run of digits. A
  value that does not fit 64 bits is out of range; a minus sign negates at 64 bits.
\<close>

definition stoul :: "string \<Rightarrow> parse_error + u64" where
  "stoul str =
     (let s = dropWhile isspace str;
          neg = (s \<noteq> [] \<and> hd s = CHR ''-'');
          s = (if s \<noteq> [] \<and> (hd s = CHR ''-'' \<or> hd s = CHR ''+'') then tl s else s)
      in if s = [] \<or> \<not> isdigit (hd s) then Inl InvalidArgument
         else let v = digits_val 0 s
              in if 2 ^ 64 \<le> v then Inl OutOfRange
                 else Inr (if neg then - of_nat v else of_nat v))"

definition tolower :: "char \<Rightarrow> char" where
  "tolower c = (let n = of_char c :: nat in if 65 \<le> n \<and> n \<le> 90 then char_of (n + 32) else c)"

section \<open>Identifiers\<close>

record UniqueId =
  id_major :: u32
  id_minor :: u32

definition UniqueId_less :: "UniqueId \<Rightarrow> UniqueId \<Rightarrow> bool" where
  "UniqueId_less a b = (if id_major a \<noteq> id_major b then id_major a < id_major b else id_minor a < id_minor b)"

definition ToU64 :: "UniqueId \<Rightarrow> u64" where
  "ToU64 i = push_bit 32 (ucast (id_major i)) OR ucast (id_minor i)"

definition FromU64 :: "u64 \<Rightarrow> UniqueId" where
  "FromU64 v = \<lparr>id_major = ucast (drop_bit 32 v), id_minor = ucast (v AND 0xFFFFFFFF)\<rparr>"

definition UniqueId_GetNull :: UniqueId where
  "UniqueId_GetNull = \<lparr>id_major = 0, id_minor = 0\<rparr>"

definition UniqueId_IsNull :: "UniqueId \<Rightarrow> bool" where
  "UniqueId_IsNull i \<longleftrightarrow> id_major i = 0 \<and> id_minor i = 0"

definition UniqueId_ToString :: "UniqueId \<Rightarrow> string" where
  "UniqueId_ToString i = to_string (unat (id_major i)) @ ''.'' @ to_string (unat (id_minor i))"

text \<open>Every exception inside the try block is rethrown as an invalid argument.\<close>

definition UniqueId_FromString :: "string \<Rightarrow> parse_error + UniqueId" where
  "UniqueId_FromString str =
     (if CHR ''.'' \<notin> set str then Inl InvalidArgument
      else case stoul (takeWhile (\<lambda>c. c \<noteq> CHR ''.'') str) of
             Inl _ \<Rightarrow> Inl InvalidArgument
           | Inr major \<Rightarrow>
               (case stoul (tl (dropWhile (\<lambda>c. c \<noteq> CHR ''.'') str)) of
                  Inl _ \<Rightarrow> Inl InvalidArgument
                | Inr minor \<Rightarrow> Inr \<lparr>id_major = ucast major, id_minor = ucast minor\<rparr>))"

record TaskId =
  t_pid :: u32
  t_tid :: u32
  t_major :: u32
  t_replica_id :: u32
  t_unique :: u32
  t_node_id :: u64
  t_net_key :: u64

definition TaskId_ToU64 :: "TaskId \<Rightarrow> u64" where
  "TaskId_ToU64 t =
     (let hash1 = push_bit 32 (ucast (t_pid t)) OR ucast (t_tid t);
          hash2 = push_bit 32 (ucast (t_major t)) OR ucast (t_replica_id t);
          hash3 = push_bit 32 (ucast (t_unique t)) OR (t_node_id t AND 0xFFFFFFFF)
      in hash1 XOR hash2 XOR hash3)"

text \<open>
  \<^verbatim>\<open>CreateTaskId\<close>: a subtask keeps the identity of the task that creates it and
  takes a fresh \<^verbatim>\<open>unique_\<close>; a root task uses the counter for both numbers. The
  thread's counter is the state.
\<close>

definition TaskCounter_GetNext :: "u32 \<Rightarrow> u32 \<times> u32" where
  "TaskCounter_GetNext counter = (counter + 1, counter + 1)"

definition CreateTaskId :: "TaskId option \<Rightarrow> u32 \<Rightarrow> u32 \<Rightarrow> u64 \<Rightarrow> u32 \<Rightarrow> TaskId \<times> u32" where
  "CreateTaskId current p t node counter =
     (let (n, counter') = TaskCounter_GetNext counter
      in case current of
           Some task \<Rightarrow> (task\<lparr>t_unique := n\<rparr>, counter')
         | None \<Rightarrow> (\<lparr>t_pid = p, t_tid = t, t_major = n, t_replica_id = 0, t_unique = n, t_node_id = node, t_net_key = 0\<rparr>, counter'))"

record LockOwnerId =
  lo_worker :: u32
  lo_pid :: u32
  lo_tid :: u32
  lo_major :: u32
  lo_node :: u64

definition LockOwnerId_null :: LockOwnerId where
  "LockOwnerId_null = \<lparr>lo_worker = 0, lo_pid = 0, lo_tid = 0, lo_major = 0, lo_node = 0\<rparr>"

definition LockOwnerId_IsNull :: "LockOwnerId \<Rightarrow> bool" where
  "LockOwnerId_IsNull o1 \<longleftrightarrow>
     lo_worker o1 = 0 \<and> lo_pid o1 = 0 \<and> lo_tid o1 = 0 \<and> lo_major o1 = 0 \<and> lo_node o1 = 0"

text \<open>The equality of lock owners is not reflexive: a null owner equals nobody.\<close>

definition LockOwnerId_eq :: "LockOwnerId \<Rightarrow> LockOwnerId \<Rightarrow> bool" where
  "LockOwnerId_eq o1 o2 =
     (if LockOwnerId_IsNull o1 \<or> LockOwnerId_IsNull o2 then False
      else lo_worker o1 = lo_worker o2 \<and> lo_pid o1 = lo_pid o2 \<and> lo_tid o1 = lo_tid o2 \<and>
           lo_major o1 = lo_major o2 \<and> lo_node o1 = lo_node o2)"

definition GetCurrentLockOwnerId :: "u32 option \<Rightarrow> TaskId option \<Rightarrow> LockOwnerId" where
  "GetCurrentLockOwnerId worker task =
     (case worker of
        None \<Rightarrow> LockOwnerId_null
      | Some w \<Rightarrow>
          (case task of
             None \<Rightarrow> LockOwnerId_null
           | Some t \<Rightarrow> \<lparr>lo_worker = w, lo_pid = t_pid t, lo_tid = t_tid t, lo_major = t_major t, lo_node = t_node_id t\<rparr>))"

record Address =
  pool_id :: UniqueId
  group_id :: u32
  minor_id :: u32

definition AddressHash :: "(u64 \<Rightarrow> u64) \<Rightarrow> (u32 \<Rightarrow> u64) \<Rightarrow> Address \<Rightarrow> u64" where
  "AddressHash h64 h32 a =
     (h64 (ToU64 (pool_id a)) XOR push_bit 1 (h32 (group_id a))) XOR push_bit 2 (h32 (minor_id a))"

section \<open>Pool queries\<close>

datatype RoutingMode = Local | DirectId | DirectHash | Range_mode | Broadcast | Physical | Dynamic

record PoolQuery =
  routing_mode :: RoutingMode
  hash_value :: u32
  container_id :: u32
  range_offset :: u32
  range_count :: u32
  query_node_id :: u32
  ret_node :: u32
  net_timeout :: u32

definition kInvalidContainerId :: u32 where
  "kInvalidContainerId = - 1"

text \<open>\<open>-1.0f\<close> as a bit pattern.\<close>

definition neg_one_f :: u32 where
  "neg_one_f = 0xBF800000"

definition PoolQuery_default :: PoolQuery where
  "PoolQuery_default = \<lparr>routing_mode = Local, hash_value = 0, container_id = kInvalidContainerId,
     range_offset = 0, range_count = 0, query_node_id = 0, ret_node = 0, net_timeout = neg_one_f\<rparr>"

definition PoolQuery_Local :: PoolQuery where
  "PoolQuery_Local = PoolQuery_default
     \<lparr>routing_mode := Local, hash_value := 0, container_id := kInvalidContainerId, range_offset := 0\<rparr>"

definition PoolQuery_DirectId :: "u32 \<Rightarrow> u32 \<Rightarrow> PoolQuery" where
  "PoolQuery_DirectId cid timeout = PoolQuery_default
     \<lparr>routing_mode := DirectId, hash_value := 0, container_id := cid, range_offset := 0, range_count := 0,
      query_node_id := 0, net_timeout := timeout\<rparr>"

definition PoolQuery_DirectHash :: "u32 \<Rightarrow> u32 \<Rightarrow> PoolQuery" where
  "PoolQuery_DirectHash hash timeout = PoolQuery_default
     \<lparr>routing_mode := DirectHash, hash_value := hash, container_id := 0, range_offset := 0, range_count := 0,
      query_node_id := 0, net_timeout := timeout\<rparr>"

definition PoolQuery_Range :: "u32 \<Rightarrow> u32 \<Rightarrow> u32 \<Rightarrow> PoolQuery" where
  "PoolQuery_Range off cnt timeout = PoolQuery_default
     \<lparr>routing_mode := Range_mode, hash_value := 0, container_id := 0, range_offset := off, range_count := cnt,
      query_node_id := 0, net_timeout := timeout\<rparr>"

definition PoolQuery_Broadcast :: "u32 \<Rightarrow> PoolQuery" where
  "PoolQuery_Broadcast timeout = PoolQuery_default
     \<lparr>routing_mode := Broadcast, hash_value := 0, container_id := 0, range_offset := 0, range_count := 0,
      query_node_id := 0, net_timeout := timeout\<rparr>"

definition PoolQuery_Physical :: "u32 \<Rightarrow> u32 \<Rightarrow> PoolQuery" where
  "PoolQuery_Physical node timeout = PoolQuery_default
     \<lparr>routing_mode := Physical, hash_value := 0, container_id := 0, range_offset := 0, range_count := 0,
      query_node_id := node, net_timeout := timeout\<rparr>"

definition PoolQuery_Dynamic :: "u32 \<Rightarrow> PoolQuery" where
  "PoolQuery_Dynamic timeout = PoolQuery_default
     \<lparr>routing_mode := Dynamic, hash_value := 0, container_id := 0, range_offset := 0, range_count := 0,
      query_node_id := 0, net_timeout := timeout\<rparr>"

definition HasContainerId :: "PoolQuery \<Rightarrow> bool" where
  "HasContainerId q \<longleftrightarrow> container_id q \<noteq> kInvalidContainerId"

definition SetReturnNode :: "u32 \<Rightarrow> PoolQuery \<Rightarrow> PoolQuery" where
  "SetReturnNode n q = q\<lparr>ret_node := n\<rparr>"

definition SetNetTimeout :: "u32 \<Rightarrow> PoolQuery \<Rightarrow> PoolQuery" where
  "SetNetTimeout t q = q\<lparr>net_timeout := t\<rparr>"

definition starts_with :: "string \<Rightarrow> string \<Rightarrow> bool" where
  "starts_with p s \<longleftrightarrow> take (length p) s = p"

text \<open>The number of a \<open>mode:number\<close> query, narrowed to 32 bits, and the query built from it.\<close>

definition stoul_query :: "string \<Rightarrow> (u32 \<Rightarrow> parse_error + PoolQuery) \<Rightarrow> parse_error + PoolQuery" where
  "stoul_query s k = (case stoul s of Inl e \<Rightarrow> Inl e | Inr v \<Rightarrow> k (ucast v))"

definition PoolQuery_FromString :: "string \<Rightarrow> parse_error + PoolQuery" where
  "PoolQuery_FromString str =
     (let s = map tolower str
      in if s = ''local'' then Inr PoolQuery_Local
         else if s = ''broadcast'' then Inr (PoolQuery_Broadcast neg_one_f)
         else if s = ''dynamic'' then Inr (PoolQuery_Dynamic neg_one_f)
         else if starts_with ''direct_id:'' s then
           stoul_query (drop 10 s) (\<lambda>i. Inr (PoolQuery_DirectId i neg_one_f))
         else if starts_with ''direct_hash:'' s then
           stoul_query (drop 12 s) (\<lambda>h. Inr (PoolQuery_DirectHash h neg_one_f))
         else if starts_with ''range:'' s then
           (let r = drop 6 s
            in if CHR '':'' \<notin> set r then Inl InvalidArgument
               else stoul_query (takeWhile (\<lambda>c. c \<noteq> CHR '':'') r)
                      (\<lambda>off. stoul_query (tl (dropWhile (\<lambda>c. c \<noteq> CHR '':'') r))
                               (\<lambda>cnt. Inr (PoolQuery_Range off cnt neg_one_f))))
         else if starts_with ''physical:'' s then
           stoul_query (drop 9 s) (\<lambda>n. Inr (PoolQuery_Physical n neg_one_f))
         else Inl InvalidArgument)"

definition PoolQuery_ToString :: "PoolQuery \<Rightarrow> string" where
  "PoolQuery_ToString q =
     (case routing_mode q of
        Local \<Rightarrow> ''local''
      | Broadcast \<Rightarrow> ''broadcast''
      | Dynamic \<Rightarrow> ''dynamic''
      | DirectId \<Rightarrow> ''direct_id:'' @ to_string (unat (container_id q))
      | DirectHash \<Rightarrow> ''direct_hash:'' @ to_string (unat (hash_value q))
      | Range_mode \<Rightarrow> ''range:'' @ to_string (unat (range_offset q)) @ '':'' @ to_string (unat (range_count q))
      | Physical \<Rightarrow> ''physical:'' @ to_string (unat (query_node_id q)))"

section \<open>Numbers survive printing and parsing\<close>

lemma isdigit_digit_char: "d < 10 \<Longrightarrow> isdigit (digit_char d)"
  by (simp add: isdigit_def of_char_digit_char)

lemma to_string_digits: "c \<in> set (to_string n) \<Longrightarrow> isdigit c"
proof (induction n rule: to_string.induct)
  case (1 n)
  then show ?case
    using to_string.simps [of n] isdigit_digit_char [of n] isdigit_digit_char [of "n mod 10"]
    by (auto split: if_splits)
qed

lemma digits_val_to_string:
  "digits_val acc (to_string n @ rest) = digits_val (acc * 10 ^ length (to_string n) + n) rest"
proof (induction n arbitrary: acc rest rule: to_string.induct)
  case (1 n)
  show ?case
  proof (cases "n < 10")
    case True
    then show ?thesis
      using to_string.simps [of n] by (simp add: isdigit_digit_char of_char_digit_char mult.commute)
  next
    case False
    let ?q = "n div 10" and ?r = "n mod 10"
    have s: "to_string n = to_string ?q @ [digit_char ?r]" using False by (subst to_string.simps) simp
    have "digits_val acc (to_string n @ rest) =
        digits_val (acc * 10 ^ length (to_string ?q) + ?q) (digit_char ?r # rest)"
      using "1.IH" [OF False] s by simp
    also have "\<dots> = digits_val (10 * (acc * 10 ^ length (to_string ?q) + ?q) + ?r) rest"
      by (simp add: isdigit_digit_char of_char_digit_char)
    also have "10 * (acc * 10 ^ length (to_string ?q) + ?q) + ?r = acc * 10 ^ length (to_string n) + n"
      by (simp add: s algebra_simps)
    finally show ?thesis .
  qed
qed

lemma isdigit_not_special:
  "isdigit c \<Longrightarrow> \<not> isspace c \<and> c \<noteq> CHR ''-'' \<and> c \<noteq> CHR ''+'' \<and> c \<noteq> CHR ''.'' \<and> c \<noteq> CHR '':'' \<and> tolower c = c"
  by (auto simp: isdigit_def isspace_def tolower_def Let_def)

lemma stoul_to_string:
  assumes "n < 2 ^ 64"
  shows "stoul (to_string n) = Inr (of_nat n)"
proof -
  obtain c cs where s: "to_string n = c # cs" using to_string_nonempty [of n] by (cases "to_string n") auto
  have d: "isdigit c" using to_string_digits [of c n] s by simp
  note nd = isdigit_not_special [OF d]
  have "digits_val 0 (to_string n) = n" using digits_val_to_string [of 0 n "[]"] by simp
  then have v: "digits_val 0 (c # cs) = n" using s by simp
  have w: "dropWhile isspace (c # cs) = c # cs" using nd by simp
  show ?thesis
    unfolding stoul_def Let_def s w using nd d v assms by (simp del: digits_val.simps)
qed

lemma stoul_u32: "stoul (to_string (unat (w :: u32))) = Inr (ucast w)"
proof -
  have "unat w < 2 ^ LENGTH(32)" by (rule unsigned_less)
  then have "unat w < 2 ^ 64" by simp
  from stoul_to_string [OF this] show ?thesis by simp
qed

lemma ucast_ucast_u32 [simp]: "(ucast (ucast (w :: u32) :: u64) :: u32) = w"
  by (rule bit_word_eqI) (simp add: bit_ucast_iff)

lemma map_tolower_to_string: "map tolower (to_string n) = to_string n"
  by (rule map_idI) (use to_string_digits isdigit_not_special in blast)

lemma split_at_sep:
  assumes "\<not> P c" and "\<forall>x \<in> set a. P x"
  shows "takeWhile P (a @ c # b) = a" and "dropWhile P (a @ c # b) = c # b"
  using assms by (simp_all add: takeWhile_append2 dropWhile_append2)

section \<open>64-bit identifiers\<close>

lemma bit_u32_imp: "bit (w :: u32) n \<Longrightarrow> n < 32"
  using bit_imp_le_length [of w n] by simp

lemma bit_low32_word [simp]: "bit (0xFFFFFFFF :: u64) n \<longleftrightarrow> n < 32"
proof -
  have "(0xFFFFFFFF :: u64) = mask 32" by (simp add: mask_eq_exp_minus_1)
  moreover have "bit (mask 32 :: u64) n \<longleftrightarrow> n < 32" unfolding bit_mask_iff by auto
  ultimately show ?thesis by (simp only:)
qed

lemma bit_low32_int [simp]: "bit (0xFFFFFFFF :: int) n \<longleftrightarrow> n < 32"
proof -
  have "(0xFFFFFFFF :: int) = mask 32" by (simp add: mask_eq_exp_minus_1)
  moreover have "bit (mask 32 :: int) n \<longleftrightarrow> n < 32" unfolding bit_mask_iff by auto
  ultimately show ?thesis by (simp only:)
qed

lemma bit_low32_nat [simp]: "bit (0xFFFFFFFF :: nat) n \<longleftrightarrow> n < 32"
proof -
  have "(0xFFFFFFFF :: nat) = mask 32" by (simp add: mask_eq_exp_minus_1)
  moreover have "bit (mask 32 :: nat) n \<longleftrightarrow> n < 32" unfolding bit_mask_iff by auto
  ultimately show ?thesis by (simp only:)
qed

lemma ToU64_nat: "unat (ToU64 i) = unat (id_major i) * 2 ^ 32 + unat (id_minor i)"
proof -
  let ?a = "push_bit 32 (ucast (id_major i)) :: u64" and ?b = "ucast (id_minor i) :: u64"
  have "?a AND ?b = 0" by (rule bit_word_eqI) (auto simp: bit_simps dest: bit_u32_imp)
  then have s: "ToU64 i = ?a + ?b" by (simp add: ToU64_def disjunctive_add_eq_or)
  have m: "unat (id_major i) < 2 ^ LENGTH(32)" "unat (id_minor i) < 2 ^ LENGTH(32)" by (rule unsigned_less)+
  then have lt: "unat (id_major i) * 2 ^ 32 + unat (id_minor i) < 2 ^ 64" by simp
  have "unat ?a = take_bit LENGTH(64) (push_bit 32 (unat (ucast (id_major i) :: u64)))"
    by (rule unsigned_push_bit_eq)
  then have a: "unat ?a = unat (id_major i) * 2 ^ 32"
    using m by (simp add: unsigned_ucast_eq push_bit_eq_mult [where 'a = nat] take_bit_eq_mod)
  have b: "unat ?b = unat (id_minor i)" using m by (simp add: unsigned_ucast_eq take_bit_eq_mod)
  show ?thesis unfolding s using a b lt by (subst unat_add_no_overflow) simp_all
qed

lemma radix_less:
  fixes a b c d k :: nat
  assumes "b < k" and "d < k"
  shows "a * k + b < c * k + d \<longleftrightarrow> (if a \<noteq> c then a < c else b < d)"
proof (cases a c rule: linorder_cases)
  case less
  then have "(a + 1) * k \<le> c * k" by (intro mult_le_mono1) simp
  with less assms show ?thesis by simp
next
  case greater
  then have "(c + 1) * k \<le> a * k" by (intro mult_le_mono1) simp
  with greater assms show ?thesis by simp
qed simp

lemma FromU64_ToU64: "FromU64 (ToU64 i) = i"
proof -
  have "(ucast (drop_bit 32 (ToU64 i)) :: u32) = id_major i"
    by (rule bit_word_eqI) (auto simp: ToU64_def bit_simps dest: bit_u32_imp)
  moreover have "(ucast (ToU64 i AND 0xFFFFFFFF) :: u32) = id_minor i"
    by (rule bit_word_eqI) (auto simp: ToU64_def bit_simps dest: bit_u32_imp)
  ultimately show ?thesis by (simp add: FromU64_def)
qed

section \<open>Properties\<close>

text \<open>
  C31. Every pool query survives printing and parsing, up to the timeout and the
  return node, which the text does not carry: the parsed query has the same
  routing mode and the parameters that the mode uses.
\<close>

theorem PoolQuery_string_roundtrip:
  "PoolQuery_FromString (PoolQuery_ToString q) =
     Inr (case routing_mode q of
            Local \<Rightarrow> PoolQuery_Local
          | DirectId \<Rightarrow> PoolQuery_DirectId (container_id q) neg_one_f
          | DirectHash \<Rightarrow> PoolQuery_DirectHash (hash_value q) neg_one_f
          | Range_mode \<Rightarrow> PoolQuery_Range (range_offset q) (range_count q) neg_one_f
          | Broadcast \<Rightarrow> PoolQuery_Broadcast neg_one_f
          | Physical \<Rightarrow> PoolQuery_Physical (query_node_id q) neg_one_f
          | Dynamic \<Rightarrow> PoolQuery_Dynamic neg_one_f)"
proof -
  have lits: "map tolower ''local'' = ''local''" "map tolower ''broadcast'' = ''broadcast''"
      "map tolower ''dynamic'' = ''dynamic''" "map tolower ''direct_id:'' = ''direct_id:''"
      "map tolower ''direct_hash:'' = ''direct_hash:''" "map tolower ''range:'' = ''range:''"
      "map tolower '':'' = '':''" "map tolower ''physical:'' = ''physical:''"
    by code_simp+
  have sep: "takeWhile (\<lambda>c. c \<noteq> CHR '':'') (to_string m @ CHR '':'' # r) = to_string m"
      "dropWhile (\<lambda>c. c \<noteq> CHR '':'') (to_string m @ CHR '':'' # r) = CHR '':'' # r" for m r
    using split_at_sep [of "\<lambda>c. c \<noteq> CHR '':''" "CHR '':''" "to_string m" r] to_string_digits isdigit_not_special
    by blast+
  show ?thesis
    by (cases "routing_mode q")
      (simp_all add: PoolQuery_ToString_def PoolQuery_FromString_def Let_def lits [simplified] map_tolower_to_string
        starts_with_def stoul_query_def stoul_u32 sep)
qed

text \<open>
  C32. Identifiers: the textual form parses back to the identifier, the 64-bit
  form is a bijection, and the order of identifiers is the numerical order of
  their 64-bit forms.
\<close>

theorem UniqueId_encodings:
  "UniqueId_FromString (UniqueId_ToString i) = Inr i \<and> FromU64 (ToU64 i) = i \<and> ToU64 (FromU64 v) = v \<and>
   (UniqueId_less i j \<longleftrightarrow> ToU64 i < ToU64 j)"
proof (intro conjI)
  have sep: "takeWhile (\<lambda>c. c \<noteq> CHR ''.'') (to_string m @ CHR ''.'' # r) = to_string m"
      "dropWhile (\<lambda>c. c \<noteq> CHR ''.'') (to_string m @ CHR ''.'' # r) = CHR ''.'' # r" for m r
    by (rule split_at_sep; use to_string_no_dot [of m] in auto)+
  show "UniqueId_FromString (UniqueId_ToString i) = Inr i"
    by (simp add: UniqueId_FromString_def UniqueId_ToString_def sep stoul_u32)
  show "FromU64 (ToU64 i) = i" by (rule FromU64_ToU64)
  show "ToU64 (FromU64 v) = v"
    by (rule bit_word_eqI) (auto simp: ToU64_def FromU64_def bit_simps)
  have m: "unat (id_minor i) < 2 ^ 32" "unat (id_minor j) < 2 ^ 32"
    using unsigned_less [of "id_minor i", where 'a = nat] unsigned_less [of "id_minor j", where 'a = nat] by simp_all
  show "UniqueId_less i j \<longleftrightarrow> ToU64 i < ToU64 j"
    unfolding UniqueId_less_def word_less_nat_alt ToU64_nat word_unat_eq_iff radix_less [OF m] ..
qed

end
