(* ===== verification/Txn_Log.thy ===== *)
theory Txn_Log
  imports Chi_Types
begin

text \<open>
  The write-ahead transaction log of the transfer engine (transaction\_log.h).

  A payload is a list of bytes. The reading primitives copy from the payload
  without a check; a copy past its end is undefined in C++ and \<open>None\<close> here. The
  output stream is the bytes it still buffers, \<open>pending\<close>, and the bytes that
  have reached the file, \<open>disk\<close>; a crash loses \<open>pending\<close>. Scores are the bit
  pattern of a single-precision float.
\<close>

section \<open>Transactions\<close>

datatype TxnType = kCreateNewBlob | kExtendBlob | kClearBlob | kDelBlob | kCreateTag | kDelTag

fun txn_code :: "TxnType \<Rightarrow> u8" where
  "txn_code kCreateNewBlob = 0"
| "txn_code kExtendBlob = 1"
| "txn_code kClearBlob = 2"
| "txn_code kDelBlob = 3"
| "txn_code kCreateTag = 4"
| "txn_code kDelTag = 5"

record TxnExtendBlobBlock =
  bdev_major :: u32
  bdev_minor :: u32
  target_query :: PoolQuery
  target_offset :: u64
  tb_size :: u64

record TxnCreateNewBlob =
  cn_tag_major :: u32
  cn_tag_minor :: u32
  cn_blob_name :: string
  cn_score :: u32

record TxnExtendBlob =
  eb_tag_major :: u32
  eb_tag_minor :: u32
  eb_blob_name :: string
  new_blocks :: "TxnExtendBlobBlock list"

text \<open>The payloads of \<^verbatim>\<open>ClearBlob\<close> and \<^verbatim>\<open>DelBlob\<close>, and those of the two tag transactions, have the same fields.\<close>

record TxnBlobRef =
  br_tag_major :: u32
  br_tag_minor :: u32
  br_blob_name :: string

record TxnTagRef =
  tr_tag_name :: string
  tr_tag_major :: u32
  tr_tag_minor :: u32

section \<open>Writing and reading primitives\<close>

definition WriteU32 :: "u8 list \<Rightarrow> u32 \<Rightarrow> u8 list" where
  "WriteU32 buf v = buf @ le_bytes 4 (unat v)"

definition WriteU64 :: "u8 list \<Rightarrow> u64 \<Rightarrow> u8 list" where
  "WriteU64 buf v = buf @ le_bytes 8 (unat v)"

definition WriteFloat :: "u8 list \<Rightarrow> u32 \<Rightarrow> u8 list" where
  "WriteFloat buf v = buf @ le_bytes 4 (unat v)"

definition WriteString :: "u8 list \<Rightarrow> string \<Rightarrow> u8 list" where
  "WriteString buf s = WriteU32 buf (of_nat (length s)) @ map byte_of s"

definition WriteRaw :: "u8 list \<Rightarrow> u8 list \<Rightarrow> u8 list" where
  "WriteRaw buf obj = buf @ obj"

text \<open>The object representation of a pool query: eight 4-byte fields in declaration order.\<close>

fun routing_code :: "RoutingMode \<Rightarrow> u32" where
  "routing_code Local = 0"
| "routing_code DirectId = 1"
| "routing_code DirectHash = 2"
| "routing_code Range_mode = 3"
| "routing_code Broadcast = 4"
| "routing_code Physical = 5"
| "routing_code Dynamic = 6"

definition routing_of :: "u32 \<Rightarrow> RoutingMode option" where
  "routing_of c = (if c = 0 then Some Local else if c = 1 then Some DirectId else if c = 2 then Some DirectHash
     else if c = 3 then Some Range_mode else if c = 4 then Some Broadcast else if c = 5 then Some Physical
     else if c = 6 then Some Dynamic else None)"

definition PoolQuery_bytes :: "PoolQuery \<Rightarrow> u8 list" where
  "PoolQuery_bytes q = le_bytes 4 (unat (routing_code (routing_mode q))) @ le_bytes 4 (unat (hash_value q)) @
     le_bytes 4 (unat (container_id q)) @ le_bytes 4 (unat (range_offset q)) @ le_bytes 4 (unat (range_count q)) @
     le_bytes 4 (unat (query_node_id q)) @ le_bytes 4 (unat (ret_node q)) @ le_bytes 4 (unat (net_timeout q))"

definition sizeof_PoolQuery :: nat where
  "sizeof_PoolQuery = 32"

definition ReadRaw :: "u8 list \<Rightarrow> nat \<Rightarrow> nat \<Rightarrow> (u8 list \<times> nat) option" where
  "ReadRaw dat off len = (if off + len \<le> length dat then Some (take len (drop off dat), off + len) else None)"

definition ReadU32 :: "u8 list \<Rightarrow> nat \<Rightarrow> (u32 \<times> nat) option" where
  "ReadU32 dat off = (case ReadRaw dat off 4 of None \<Rightarrow> None | Some (b, off') \<Rightarrow> Some (of_nat (le_val b), off'))"

definition ReadU64 :: "u8 list \<Rightarrow> nat \<Rightarrow> (u64 \<times> nat) option" where
  "ReadU64 dat off = (case ReadRaw dat off 8 of None \<Rightarrow> None | Some (b, off') \<Rightarrow> Some (of_nat (le_val b), off'))"

definition ReadFloat :: "u8 list \<Rightarrow> nat \<Rightarrow> (u32 \<times> nat) option" where
  "ReadFloat dat off = (case ReadRaw dat off 4 of None \<Rightarrow> None | Some (b, off') \<Rightarrow> Some (of_nat (le_val b), off'))"

definition ReadString :: "u8 list \<Rightarrow> nat \<Rightarrow> (string \<times> nat) option" where
  "ReadString dat off =
     (case ReadU32 dat off of
        None \<Rightarrow> None
      | Some (len, off) \<Rightarrow>
          (case ReadRaw dat off (unat len) of
             None \<Rightarrow> None
           | Some (b, off') \<Rightarrow> Some (map char_of_byte b, off')))"

text \<open>Reading a raw pool query: field by field from its 32 bytes.\<close>

definition field32 :: "u8 list \<Rightarrow> nat \<Rightarrow> u32" where
  "field32 b i = of_nat (le_val (take 4 (drop (4 * i) b)))"

definition PoolQuery_of_bytes :: "u8 list \<Rightarrow> PoolQuery option" where
  "PoolQuery_of_bytes b =
     (case routing_of (field32 b 0) of
        None \<Rightarrow> None
      | Some m \<Rightarrow> Some \<lparr>routing_mode = m, hash_value = field32 b 1, container_id = field32 b 2,
          range_offset = field32 b 3, range_count = field32 b 4, query_node_id = field32 b 5,
          ret_node = field32 b 6, net_timeout = field32 b 7\<rparr>)"

definition ReadPoolQuery :: "u8 list \<Rightarrow> nat \<Rightarrow> (PoolQuery \<times> nat) option" where
  "ReadPoolQuery dat off =
     (case ReadRaw dat off sizeof_PoolQuery of
        None \<Rightarrow> None
      | Some (b, off') \<Rightarrow> (case PoolQuery_of_bytes b of None \<Rightarrow> None | Some q \<Rightarrow> Some (q, off')))"

section \<open>Payloads\<close>

definition put_CreateNewBlob :: "TxnCreateNewBlob \<Rightarrow> u8 list" where
  "put_CreateNewBlob t =
     WriteFloat (WriteString (WriteU32 (WriteU32 [] (cn_tag_major t)) (cn_tag_minor t)) (cn_blob_name t)) (cn_score t)"

definition put_block :: "u8 list \<Rightarrow> TxnExtendBlobBlock \<Rightarrow> u8 list" where
  "put_block buf b =
     WriteU64 (WriteU64 (WriteRaw (WriteU32 (WriteU32 buf (bdev_major b)) (bdev_minor b))
       (PoolQuery_bytes (target_query b))) (target_offset b)) (tb_size b)"

definition put_ExtendBlob :: "TxnExtendBlob \<Rightarrow> u8 list" where
  "put_ExtendBlob t =
     foldl put_block
       (WriteU32 (WriteString (WriteU32 (WriteU32 [] (eb_tag_major t)) (eb_tag_minor t)) (eb_blob_name t))
         (of_nat (length (new_blocks t))))
       (new_blocks t)"

definition put_BlobRef :: "TxnBlobRef \<Rightarrow> u8 list" where
  "put_BlobRef t = WriteString (WriteU32 (WriteU32 [] (br_tag_major t)) (br_tag_minor t)) (br_blob_name t)"

definition put_TagRef :: "TxnTagRef \<Rightarrow> u8 list" where
  "put_TagRef t = WriteU32 (WriteU32 (WriteString [] (tr_tag_name t)) (tr_tag_major t)) (tr_tag_minor t)"

definition DeserializeCreateNewBlob :: "u8 list \<Rightarrow> TxnCreateNewBlob option" where
  "DeserializeCreateNewBlob dat =
     (case ReadU32 dat 0 of None \<Rightarrow> None | Some (maj, off) \<Rightarrow>
      case ReadU32 dat off of None \<Rightarrow> None | Some (mnr, off) \<Rightarrow>
      case ReadString dat off of None \<Rightarrow> None | Some (name, off) \<Rightarrow>
      case ReadFloat dat off of None \<Rightarrow> None | Some (sc, off) \<Rightarrow>
      Some \<lparr>cn_tag_major = maj, cn_tag_minor = mnr, cn_blob_name = name, cn_score = sc\<rparr>)"

definition read_block :: "u8 list \<Rightarrow> nat \<Rightarrow> (TxnExtendBlobBlock \<times> nat) option" where
  "read_block dat off =
     (case ReadU32 dat off of None \<Rightarrow> None | Some (maj, off) \<Rightarrow>
      case ReadU32 dat off of None \<Rightarrow> None | Some (mnr, off) \<Rightarrow>
      case ReadPoolQuery dat off of None \<Rightarrow> None | Some (q, off) \<Rightarrow>
      case ReadU64 dat off of None \<Rightarrow> None | Some (toff, off) \<Rightarrow>
      case ReadU64 dat off of None \<Rightarrow> None | Some (sz, off) \<Rightarrow>
      Some (\<lparr>bdev_major = maj, bdev_minor = mnr, target_query = q, target_offset = toff, tb_size = sz\<rparr>, off))"

fun read_blocks :: "nat \<Rightarrow> u8 list \<Rightarrow> nat \<Rightarrow> (TxnExtendBlobBlock list \<times> nat) option" where
  "read_blocks 0 dat off = Some ([], off)"
| "read_blocks (Suc n) dat off =
     (case read_block dat off of None \<Rightarrow> None | Some (b, off) \<Rightarrow>
      case read_blocks n dat off of None \<Rightarrow> None | Some (bs, off) \<Rightarrow> Some (b # bs, off))"

definition DeserializeExtendBlob :: "u8 list \<Rightarrow> TxnExtendBlob option" where
  "DeserializeExtendBlob dat =
     (case ReadU32 dat 0 of None \<Rightarrow> None | Some (maj, off) \<Rightarrow>
      case ReadU32 dat off of None \<Rightarrow> None | Some (mnr, off) \<Rightarrow>
      case ReadString dat off of None \<Rightarrow> None | Some (name, off) \<Rightarrow>
      case ReadU32 dat off of None \<Rightarrow> None | Some (num, off) \<Rightarrow>
      case read_blocks (unat num) dat off of None \<Rightarrow> None | Some (bs, off) \<Rightarrow>
      Some \<lparr>eb_tag_major = maj, eb_tag_minor = mnr, eb_blob_name = name, new_blocks = bs\<rparr>)"

text \<open>\<^verbatim>\<open>DeserializeClearBlob\<close> and \<^verbatim>\<open>DeserializeDelBlob\<close>.\<close>

definition DeserializeBlobRef :: "u8 list \<Rightarrow> TxnBlobRef option" where
  "DeserializeBlobRef dat =
     (case ReadU32 dat 0 of None \<Rightarrow> None | Some (maj, off) \<Rightarrow>
      case ReadU32 dat off of None \<Rightarrow> None | Some (mnr, off) \<Rightarrow>
      case ReadString dat off of None \<Rightarrow> None | Some (name, off) \<Rightarrow>
      Some \<lparr>br_tag_major = maj, br_tag_minor = mnr, br_blob_name = name\<rparr>)"

text \<open>\<^verbatim>\<open>DeserializeCreateTag\<close> and \<^verbatim>\<open>DeserializeDelTag\<close>.\<close>

definition DeserializeTagRef :: "u8 list \<Rightarrow> TxnTagRef option" where
  "DeserializeTagRef dat =
     (case ReadString dat 0 of None \<Rightarrow> None | Some (name, off) \<Rightarrow>
      case ReadU32 dat off of None \<Rightarrow> None | Some (maj, off) \<Rightarrow>
      case ReadU32 dat off of None \<Rightarrow> None | Some (mnr, off) \<Rightarrow>
      Some \<lparr>tr_tag_name = name, tr_tag_major = maj, tr_tag_minor = mnr\<rparr>)"

section \<open>The log file\<close>

record TransactionLog =
  file_path :: string
  capacity_bytes :: u64
  is_open :: bool
  pending :: "u8 list"
  disk :: "u8 list"

text \<open>\<open>content\<close> is what the file holds when it is opened.\<close>

definition TL_Open :: "string \<Rightarrow> u64 \<Rightarrow> u8 list \<Rightarrow> TransactionLog" where
  "TL_Open path cap content =
     \<lparr>file_path = path, capacity_bytes = cap, is_open = True, pending = [], disk = content\<rparr>"

definition WriteRecord :: "TxnType \<Rightarrow> u8 list \<Rightarrow> TransactionLog \<Rightarrow> TransactionLog" where
  "WriteRecord type payload l =
     (if \<not> is_open l then l
      else let payload_size = of_nat (length payload) :: u32
           in l\<lparr>pending := pending l @ [txn_code type] @ le_bytes 4 (unat payload_size) @ take (unat payload_size) payload\<rparr>)"

definition TL_Sync :: "TransactionLog \<Rightarrow> TransactionLog" where
  "TL_Sync l = (if is_open l then l\<lparr>disk := disk l @ pending l, pending := []\<rparr> else l)"

definition TL_Size :: "TransactionLog \<Rightarrow> nat" where
  "TL_Size l = length (disk l)"

definition TL_Truncate :: "TransactionLog \<Rightarrow> TransactionLog" where
  "TL_Truncate l = l\<lparr>disk := [], pending := [], is_open := True\<rparr>"

definition TL_Close :: "TransactionLog \<Rightarrow> TransactionLog" where
  "TL_Close l = (if is_open l then l\<lparr>disk := disk l @ pending l, pending := [], is_open := False\<rparr> else l)"

text \<open>
  \<^verbatim>\<open>Load\<close>: complete records until the end of the file; a record that is cut
  off, in its header or in its payload, ends the loop.
\<close>

function load_entries :: "u8 list \<Rightarrow> (u8 \<times> u8 list) list" where
  "load_entries [] = []"
| "load_entries (t # rest) =
     (if length rest < 4 then []
      else let n = le_val (take 4 rest); r = drop 4 rest
           in if length r < n then [] else (t, take n r) # load_entries (drop n r))"
  by pat_completeness auto
termination by (relation "measure length") auto

definition TL_Load :: "TransactionLog \<Rightarrow> (u8 \<times> u8 list) list" where
  "TL_Load l = load_entries (disk l)"

section \<open>Field codecs\<close>

text \<open>
  The interface between a writer and its reader: a field that is written
  anywhere in a payload is read back, and the offset moves past it.
\<close>

locale field =
  fixes ok :: "'a \<Rightarrow> bool" and wr :: "u8 list \<Rightarrow> 'a \<Rightarrow> u8 list" and rd :: "u8 list \<Rightarrow> nat \<Rightarrow> ('a \<times> nat) option"
  assumes wr_append: "\<exists>e. wr [] x = e \<and> (\<forall>buf. wr buf x = buf @ e)"
    and rd_wr: "ok x \<Longrightarrow> rd (wr buf x @ post) (length buf) = Some (x, length (wr buf x))"
begin

lemma wr_split: "wr buf x = buf @ wr [] x"
  using wr_append by metis

lemma rd_at:
  assumes "ok x" and "dat = pre @ wr [] x @ post" and "off = length pre"
  shows "rd dat off = Some (x, off + length (wr [] x))"
proof -
  have "dat = wr pre x @ post" using assms(2) wr_split [of pre x] by simp
  with rd_wr [OF assms(1), of pre post] assms(3) wr_split [of pre x] show ?thesis by simp
qed

end

lemma ReadRaw_append: "ReadRaw (pre @ x @ post) (length pre) (length x) = Some (x, length pre + length x)"
  by (simp add: ReadRaw_def)

lemma ReadRaw_at: "length x = n \<Longrightarrow> ReadRaw (pre @ x @ post) (length pre) n = Some (x, length pre + n)"
  using ReadRaw_append by blast

interpretation fu32: field "\<lambda>_. True" WriteU32 ReadU32
  by unfold_locales (simp_all add: WriteU32_def ReadU32_def ReadRaw_at codec_simps)

interpretation fu64: field "\<lambda>_. True" WriteU64 ReadU64
  by unfold_locales (simp_all add: WriteU64_def ReadU64_def ReadRaw_at codec_simps)

interpretation ffloat: field "\<lambda>_. True" WriteFloat ReadFloat
  by unfold_locales (simp_all add: WriteFloat_def ReadFloat_def ReadRaw_at codec_simps)

interpretation fstr: field "\<lambda>s. length s < 2 ^ 32" WriteString ReadString
proof
  show "\<exists>e. WriteString [] x = e \<and> (\<forall>buf. WriteString buf x = buf @ e)" for x
    by (simp add: WriteString_def WriteU32_def)
  fix x :: string and buf post :: "u8 list"
  assume l: "length x < 2 ^ 32"
  let ?m = "map byte_of x :: u8 list"
  have u: "unat (of_nat (length x) :: u32) = length x" using l by (simp add: unat_of_nat take_bit_eq_mod)
  have r1: "ReadU32 (buf @ le_bytes 4 (length x) @ ?m @ post) (length buf) = Some (of_nat (length x), length buf + 4)"
    using fu32.rd_at [where x = "of_nat (length x)" and pre = buf and post = "?m @ post", OF TrueI refl refl] u by (simp add: WriteU32_def)
  have r2: "ReadRaw (buf @ le_bytes 4 (length x) @ ?m @ post) (length buf + 4) (length x) = Some (?m, length buf + 4 + length x)"
    using ReadRaw_at [of ?m "length x" "buf @ le_bytes 4 (length x)" post] by simp
  show "ReadString (WriteString buf x @ post) (length buf) = Some (x, length (WriteString buf x))"
    using r1 r2 u by (simp add: ReadString_def WriteString_def WriteU32_def comp_def)
qed


lemma routing_of_code [simp]: "routing_of (routing_code m) = Some m"
  by (cases m) (simp_all add: routing_of_def)

lemma field32_eval:
  assumes "length p = 4 * i"
  shows "field32 (p @ le_bytes 4 (unat w) @ r) i = w"
  using assms by (simp add: field32_def codec_simps)

lemma PoolQuery_of_bytes_bytes [simp]: "PoolQuery_of_bytes (PoolQuery_bytes q) = Some q"
proof -
  let ?b = "\<lambda>w :: u32. le_bytes 4 (unat w)"
  have f: "field32 (PoolQuery_bytes q) 0 = routing_code (routing_mode q)"
      "field32 (PoolQuery_bytes q) 1 = hash_value q" "field32 (PoolQuery_bytes q) 2 = container_id q"
      "field32 (PoolQuery_bytes q) 3 = range_offset q" "field32 (PoolQuery_bytes q) 4 = range_count q"
      "field32 (PoolQuery_bytes q) 5 = query_node_id q" "field32 (PoolQuery_bytes q) 6 = ret_node q"
      "field32 (PoolQuery_bytes q) 7 = net_timeout q"
    using field32_eval [of "[]" 0] 
      field32_eval [of "?b (routing_code (routing_mode q))" 1]
      field32_eval [of "?b (routing_code (routing_mode q)) @ ?b (hash_value q)" 2]
      field32_eval [of "?b (routing_code (routing_mode q)) @ ?b (hash_value q) @ ?b (container_id q)" 3]
      field32_eval [of "?b (routing_code (routing_mode q)) @ ?b (hash_value q) @ ?b (container_id q) @ ?b (range_offset q)" 4]
      field32_eval [of "?b (routing_code (routing_mode q)) @ ?b (hash_value q) @ ?b (container_id q) @ ?b (range_offset q) @ ?b (range_count q)" 5]
      field32_eval [of "?b (routing_code (routing_mode q)) @ ?b (hash_value q) @ ?b (container_id q) @ ?b (range_offset q) @ ?b (range_count q) @ ?b (query_node_id q)" 6]
      field32_eval [of "?b (routing_code (routing_mode q)) @ ?b (hash_value q) @ ?b (container_id q) @ ?b (range_offset q) @ ?b (range_count q) @ ?b (query_node_id q) @ ?b (ret_node q)" 7 "net_timeout q" "[]"]
    by (simp_all add: PoolQuery_bytes_def)
  show ?thesis by (simp add: PoolQuery_of_bytes_def f [unfolded One_nat_def])
qed

interpretation fpq: field "\<lambda>_. True" "\<lambda>buf q. WriteRaw buf (PoolQuery_bytes q)" ReadPoolQuery
proof
  fix q :: PoolQuery and buf post :: "u8 list"
  have "length (PoolQuery_bytes q) = sizeof_PoolQuery" by (simp add: PoolQuery_bytes_def sizeof_PoolQuery_def)
  then show "ReadPoolQuery (WriteRaw buf (PoolQuery_bytes q) @ post) (length buf) =
      Some (q, length (WriteRaw buf (PoolQuery_bytes q)))"
    by (simp add: ReadPoolQuery_def WriteRaw_def ReadRaw_at)
qed (simp add: WriteRaw_def)

text \<open>Fields that follow each other: the second is read where the first ended.\<close>

lemma put_block_append: "put_block buf b = buf @ put_block [] b"
  by (simp add: put_block_def WriteU32_def WriteU64_def WriteRaw_def)

interpretation fblock: field "\<lambda>_. True" put_block read_block
proof
  show "\<exists>e. put_block [] b = e \<and> (\<forall>buf. put_block buf b = buf @ e)" for b using put_block_append by metis
  fix b :: TxnExtendBlobBlock and buf post :: "u8 list"
  let ?e1 = "WriteU32 buf (bdev_major b)" let ?e2 = "WriteU32 ?e1 (bdev_minor b)"
  let ?e3 = "WriteRaw ?e2 (PoolQuery_bytes (target_query b))" let ?e4 = "WriteU64 ?e3 (target_offset b)"
  let ?e5 = "WriteU64 ?e4 (tb_size b)" let ?d = "?e5 @ post"
  have "ReadU32 ?d (length buf) = Some (bdev_major b, length ?e1)"
    using fu32.rd_wr [OF TrueI, of buf "bdev_major b"] by (simp add: WriteU32_def WriteU64_def WriteRaw_def)
  moreover have "ReadU32 ?d (length ?e1) = Some (bdev_minor b, length ?e2)"
    using fu32.rd_wr [OF TrueI, of ?e1 "bdev_minor b"] by (simp add: WriteU32_def WriteU64_def WriteRaw_def)
  moreover have "ReadPoolQuery ?d (length ?e2) = Some (target_query b, length ?e3)"
    using fpq.rd_wr [OF TrueI, of ?e2 "target_query b"] by (simp add: WriteU32_def WriteU64_def WriteRaw_def)
  moreover have "ReadU64 ?d (length ?e3) = Some (target_offset b, length ?e4)"
    using fu64.rd_wr [OF TrueI, of ?e3 "target_offset b"] by (simp add: WriteU32_def WriteU64_def WriteRaw_def)
  moreover have "ReadU64 ?d (length ?e4) = Some (tb_size b, length ?e5)"
    using fu64.rd_wr [OF TrueI, of ?e4 "tb_size b"] by simp
  ultimately show "read_block (put_block buf b @ post) (length buf) = Some (b, length (put_block buf b))"
    unfolding read_block_def put_block_def by simp
qed

lemma read_blocks_put:
  "read_blocks (length bs) (foldl put_block buf bs @ post) (length buf) = Some (bs, length (foldl put_block buf bs))"
proof (induction bs arbitrary: buf)
  case (Cons b bs)
  have "\<exists>r. foldl put_block (put_block buf b) bs = put_block buf b @ r"
    by (induction bs arbitrary: buf b) (simp, metis append_assoc foldl_Cons put_block_append)
  then obtain r where r: "foldl put_block (put_block buf b) bs = put_block buf b @ r" by blast
  have "read_block (put_block buf b @ r @ post) (length buf) = Some (b, length (put_block buf b))"
    by (rule fblock.rd_wr) simp
  with Cons.IH [of "put_block buf b"] r show ?case by simp
qed simp


lemmas put_defs = WriteU32_def WriteU64_def WriteFloat_def

lemma WriteString_append: "WriteString buf s = buf @ WriteString [] s"
  by (rule fstr.wr_split)

lemma CreateNewBlob_roundtrip:
  assumes "length (cn_blob_name t) < 2 ^ 32"
  shows "DeserializeCreateNewBlob (put_CreateNewBlob t) = Some t"
proof -
  let ?e1 = "WriteU32 [] (cn_tag_major t)" let ?e2 = "WriteU32 ?e1 (cn_tag_minor t)"
  let ?e3 = "WriteString ?e2 (cn_blob_name t)" let ?e4 = "WriteFloat ?e3 (cn_score t)"
  obtain x where x: "WriteString ?e2 (cn_blob_name t) = ?e2 @ x" using WriteString_append by blast
  have "ReadU32 ?e4 0 = Some (cn_tag_major t, length ?e1)"
    unfolding x using fu32.rd_wr [OF TrueI, of "[]" "cn_tag_major t"] by (simp add: put_defs)
  moreover have "ReadU32 ?e4 (length ?e1) = Some (cn_tag_minor t, length ?e2)"
    unfolding x using fu32.rd_wr [OF TrueI, of ?e1 "cn_tag_minor t"] by (simp add: put_defs)
  moreover have "ReadString ?e4 (length ?e2) = Some (cn_blob_name t, length ?e3)"
    using fstr.rd_wr [OF assms, of ?e2] by (simp add: WriteFloat_def)
  moreover have "ReadFloat ?e4 (length ?e3) = Some (cn_score t, length ?e4)"
    using ffloat.rd_wr [OF TrueI, of ?e3 "cn_score t" "[]"] by simp
  ultimately show ?thesis unfolding DeserializeCreateNewBlob_def put_CreateNewBlob_def by simp
qed

lemma ExtendBlob_roundtrip:
  assumes "length (eb_blob_name t) < 2 ^ 32" and "length (new_blocks t) < 2 ^ 32"
  shows "DeserializeExtendBlob (put_ExtendBlob t) = Some t"
proof -
  let ?e1 = "WriteU32 [] (eb_tag_major t)" let ?e2 = "WriteU32 ?e1 (eb_tag_minor t)"
  let ?e3 = "WriteString ?e2 (eb_blob_name t)" let ?n = "of_nat (length (new_blocks t)) :: u32"
  let ?e4 = "WriteU32 ?e3 ?n" let ?e5 = "foldl put_block ?e4 (new_blocks t)"
  have n: "unat ?n = length (new_blocks t)" using assms(2) by (simp add: unat_of_nat take_bit_eq_mod)
  obtain x where x: "WriteString ?e2 (eb_blob_name t) = ?e2 @ x" using WriteString_append by blast
  have "\<exists>r. foldl put_block buf bs = buf @ r" for buf bs
    by (induction bs arbitrary: buf) (simp, metis append_assoc foldl_Cons put_block_append)
  then obtain r where r: "?e5 = ?e4 @ r" by blast
  have "ReadU32 ?e5 0 = Some (eb_tag_major t, length ?e1)"
    unfolding r unfolding x using fu32.rd_wr [OF TrueI, of "[]" "eb_tag_major t"] by (simp add: put_defs)
  moreover have "ReadU32 ?e5 (length ?e1) = Some (eb_tag_minor t, length ?e2)"
    unfolding r unfolding x using fu32.rd_wr [OF TrueI, of ?e1 "eb_tag_minor t"] by (simp add: put_defs)
  moreover have "ReadString ?e5 (length ?e2) = Some (eb_blob_name t, length ?e3)"
    unfolding r using fstr.rd_wr [OF assms(1), of ?e2 "le_bytes 4 (unat ?n) @ r"] by (simp add: WriteU32_def)
  moreover have "ReadU32 ?e5 (length ?e3) = Some (?n, length ?e4)"
    unfolding r by (rule fu32.rd_wr) simp
  moreover have "read_blocks (unat ?n) ?e5 (length ?e4) = Some (new_blocks t, length ?e5)"
    using read_blocks_put [of "new_blocks t" ?e4 "[]"] n by simp
  ultimately show ?thesis unfolding DeserializeExtendBlob_def put_ExtendBlob_def by simp
qed

lemma BlobRef_roundtrip:
  assumes "length (br_blob_name t) < 2 ^ 32"
  shows "DeserializeBlobRef (put_BlobRef t) = Some t"
proof -
  let ?e1 = "WriteU32 [] (br_tag_major t)" let ?e2 = "WriteU32 ?e1 (br_tag_minor t)"
  let ?e3 = "WriteString ?e2 (br_blob_name t)"
  obtain x where x: "WriteString ?e2 (br_blob_name t) = ?e2 @ x" using WriteString_append by blast
  have "ReadU32 ?e3 0 = Some (br_tag_major t, length ?e1)"
    unfolding x using fu32.rd_wr [OF TrueI, of "[]" "br_tag_major t"] by (simp add: put_defs)
  moreover have "ReadU32 ?e3 (length ?e1) = Some (br_tag_minor t, length ?e2)"
    unfolding x using fu32.rd_wr [OF TrueI, of ?e1 "br_tag_minor t"] by (simp add: put_defs)
  moreover have "ReadString ?e3 (length ?e2) = Some (br_blob_name t, length ?e3)"
    using fstr.rd_wr [OF assms, of ?e2 "[]"] by simp
  ultimately show ?thesis unfolding DeserializeBlobRef_def put_BlobRef_def by simp
qed

lemma TagRef_roundtrip:
  assumes "length (tr_tag_name t) < 2 ^ 32"
  shows "DeserializeTagRef (put_TagRef t) = Some t"
proof -
  let ?e1 = "WriteString [] (tr_tag_name t)" let ?e2 = "WriteU32 ?e1 (tr_tag_major t)"
  let ?e3 = "WriteU32 ?e2 (tr_tag_minor t)"
  have "ReadString ?e3 0 = Some (tr_tag_name t, length ?e1)"
    using fstr.rd_wr [OF assms, of "[]"] by (simp add: put_defs)
  moreover have "ReadU32 ?e3 (length ?e1) = Some (tr_tag_major t, length ?e2)"
    using fu32.rd_wr [OF TrueI, of ?e1 "tr_tag_major t"] by (simp add: put_defs)
  moreover have "ReadU32 ?e3 (length ?e2) = Some (tr_tag_minor t, length ?e3)"
    using fu32.rd_wr [OF TrueI, of ?e2 "tr_tag_minor t" "[]"] by simp
  ultimately show ?thesis unfolding DeserializeTagRef_def put_TagRef_def by simp
qed

section \<open>Complete and torn records\<close>

definition encode :: "u8 \<times> u8 list \<Rightarrow> u8 list" where
  "encode r = fst r # le_bytes 4 (length (snd r)) @ snd r"

abbreviation encode_all :: "(u8 \<times> u8 list) list \<Rightarrow> u8 list" where
  "encode_all rs \<equiv> concat (map encode rs)"

lemma load_entries_encode:
  assumes "length (snd r) < 2 ^ 32"
  shows "load_entries (encode r @ rest) = r # load_entries rest"
proof -
  have "le_val (le_bytes 4 (length (snd r))) = length (snd r)" using assms by (simp add: le_val_le_bytes)
  then show ?thesis by (cases r) (simp add: encode_def Let_def)
qed

lemma load_entries_torn:
  assumes "length (snd r) < 2 ^ 32" and "n < length (encode r)"
  shows "load_entries (take n (encode r)) = []"
proof (cases n)
  case (Suc m)
  have v: "le_val (le_bytes 4 (length (snd r))) = length (snd r)" using assms by (simp add: le_val_le_bytes)
  show ?thesis
  proof (cases "m < 4")
    case True
    with Suc show ?thesis by (simp add: encode_def)
  next
    case False
    with Suc assms(2) v show ?thesis by (auto simp: encode_def Let_def min_def)
  qed
qed simp

text \<open>A prefix of a well-formed log loads as the records that are complete in it.\<close>

lemma load_entries_prefix:
  assumes "\<forall>r \<in> set rs. length (snd r) < 2 ^ 32" and "k \<le> length rs"
    and "length (encode_all (take k rs)) \<le> n" and "n \<le> length (encode_all rs)"
  shows "\<exists>j. k \<le> j \<and> j \<le> length rs \<and> load_entries (take n (encode_all rs)) = take j rs"
  using assms
proof (induction rs arbitrary: n k)
  case (Cons r rs)
  show ?case
  proof (cases "n < length (encode r)")
    case True
    have "k = 0" using Cons.prems(3) True by (cases k) auto
    with True Cons.prems(1) show ?thesis by (intro exI [of _ 0]) (simp add: load_entries_torn)
  next
    case False
    let ?m = "n - length (encode r)"
    have t: "take n (encode_all (r # rs)) = encode r @ take ?m (encode_all rs)" using False by simp
    have "\<exists>j. k - 1 \<le> j \<and> j \<le> length rs \<and> load_entries (take ?m (encode_all rs)) = take j rs"
      by (rule Cons.IH) (use Cons.prems False in \<open>cases k; auto\<close>)+
    then obtain j where "k - 1 \<le> j" "j \<le> length rs" "load_entries (take ?m (encode_all rs)) = take j rs" by blast
    with t Cons.prems(1) show ?thesis by (intro exI [of _ "Suc j"]) (auto simp: load_entries_encode simp del: map_append)
  qed
qed simp


section \<open>Runs of the log\<close>

text \<open>
  \<^verbatim>\<open>Open\<close> appends to whatever file it finds: a new one, one that was closed, or
  the one a crash left. \<open>tear_of f\<close> is \<open>None\<close> when the file ends with a complete
  record, otherwise the number of records in front of the torn one.
\<close>

definition tear_of :: "u8 list \<Rightarrow> nat option" where
  "tear_of f = (if f = encode_all (load_entries f) then None else Some (length (load_entries f)))"

text \<open>
  \<open>wal_run l recs k tear\<close>: the log \<open>l\<close>, opened on any file; \<open>recs\<close> are the
  transactions found in the file and logged since, back to the last truncation,
  the first \<open>k\<close> of them before the last \<^verbatim>\<open>Sync\<close> or \<^verbatim>\<open>Close\<close>, and \<open>tear\<close> is where
  the file was torn when it was opened. The stream may write any part of its
  buffer to the file at any time; the log does nothing while it is closed.
\<close>

inductive wal_run :: "TransactionLog \<Rightarrow> (u8 \<times> u8 list) list \<Rightarrow> nat \<Rightarrow> nat option \<Rightarrow> bool" where
  opened: "wal_run (TL_Open path cap f) (load_entries f) (length (load_entries f)) (tear_of f)"
| log: "wal_run l recs k tear \<Longrightarrow> length payload < 2 ^ 32 \<Longrightarrow>
    wal_run (WriteRecord type payload l) (if is_open l then recs @ [(txn_code type, payload)] else recs) k tear"
| spill: "wal_run l recs k tear \<Longrightarrow>
    wal_run (l\<lparr>disk := disk l @ take n (pending l), pending := drop n (pending l)\<rparr>) recs k tear"
| sync: "wal_run l recs k tear \<Longrightarrow> wal_run (TL_Sync l) recs (length recs) tear"
| close: "wal_run l recs k tear \<Longrightarrow> wal_run (TL_Close l) recs (length recs) tear"
| trunc: "wal_run l recs k tear \<Longrightarrow> wal_run (TL_Truncate l) [] 0 None"

lemma le_bytes_4: "le_bytes 4 n = [of_nat (n mod 256), of_nat (n div 256 mod 256), of_nat (n div 65536 mod 256), of_nat (n div 16777216 mod 256)]"
proof -
  have "4 = Suc (Suc (Suc (Suc 0)))" by simp
  then have "le_bytes 4 n = le_bytes (Suc (Suc (Suc (Suc 0)))) n" by (rule arg_cong)
  moreover have "n div 256 div 256 = n div 65536" "n div 65536 div 256 = n div 16777216" by (simp_all add: div_mult2_eq [symmetric])
  ultimately show ?thesis by simp
qed

text \<open>Equations that evaluate the log on concrete states.\<close>

lemmas wal_eval = TL_Load_def WriteRecord_def TL_Open_def TL_Sync_def Let_def le_bytes_4 take_Cons' drop_Cons'

lemma WriteRecord_encode:
  assumes "is_open l" and "length payload < 2 ^ 32"
  shows "WriteRecord type payload l = l\<lparr>pending := pending l @ encode (txn_code type, payload)\<rparr>"
proof -
  have "unat (of_nat (length payload) :: u32) = length payload" using assms(2) by (simp add: unat_of_nat take_bit_eq_mod)
  with assms(1) show ?thesis by (simp add: WriteRecord_def encode_def Let_def)
qed

lemma load_entries_bounded: "r \<in> set (load_entries f) \<Longrightarrow> length (snd r) < 2 ^ 32"
proof (induction f rule: load_entries.induct)
  case (2 t rest)
  have "le_val xs < 256 ^ length xs" for xs :: "u8 list"
  proof (induction xs)
    case (Cons x xs)
    have "unat x < 256" using unsigned_less [of x, where 'a = nat] by simp
    then show ?case using Cons by simp
  qed simp
  from this [of "take 4 rest"] have "length rest \<ge> 4 \<Longrightarrow> le_val (take 4 rest) < 2 ^ 32" by simp
  with 2 show ?case by (auto simp: Let_def split: if_splits)
qed simp

lemma le_bytes_le_val: "le_bytes (length xs) (le_val xs) = xs"
proof (induction xs)
  case (Cons x xs)
  have "unat x < 256" using unsigned_less [of x, where 'a = nat] by simp
  then show ?case using Cons by simp
qed simp

text \<open>What loads from a file is what it starts with.\<close>

lemma load_entries_front: "\<exists>x. f = encode_all (load_entries f) @ x"
proof (induction f rule: load_entries.induct)
  case (2 t rest)
  let ?n = "le_val (take 4 rest)" and ?r = "drop 4 rest"
  show ?case
  proof (cases "length rest < 4 \<or> length ?r < ?n")
    case False
    then obtain x where x: "drop ?n ?r = encode_all (load_entries (drop ?n ?r)) @ x" using 2 by (auto simp: Let_def)
    have "le_bytes 4 ?n = take 4 rest" using le_bytes_le_val [of "take 4 rest"] False by simp
    moreover have "rest = take 4 rest @ take ?n ?r @ drop ?n ?r" by (simp only: append_take_drop_id)
    moreover have "length (take ?n ?r) = ?n" using False by simp
    ultimately have "t # rest = encode (t, take ?n ?r) @ drop ?n ?r" by (simp only: encode_def fst_conv snd_conv append_Cons append_assoc)
    moreover have "load_entries (t # rest) = (t, take ?n ?r) # load_entries (drop ?n ?r)" using False by (simp add: Let_def)
    ultimately have "t # rest = encode_all (load_entries (t # rest)) @ x"
      using x by (simp only: list.map concat.simps append_assoc)
    then show ?thesis by blast
  qed (auto simp: Let_def)
qed simp

lemma wal_run_inv:
  assumes "wal_run l recs k tear"
  shows "(\<forall>r \<in> set recs. length (snd r) < 2 ^ 32) \<and> k \<le> length recs \<and> (\<not> is_open l \<longrightarrow> pending l = []) \<and>
    (case tear of
       None \<Rightarrow> disk l @ pending l = encode_all recs \<and> length (encode_all (take k recs)) \<le> length (disk l)
     | Some m \<Rightarrow> m \<le> length recs \<and> (\<exists>x. disk l = encode_all (take m recs) @ x))"
  using assms
proof (induction rule: wal_run.induct)
  case (opened path cap f)
  show ?case using load_entries_bounded load_entries_front [of f] by (auto simp: TL_Open_def tear_of_def)
next
  case (log l recs k tear payload type)
  show ?case
  proof (cases "is_open l")
    case True
    note w = WriteRecord_encode [OF True log.hyps(2), of type]
    show ?thesis unfolding w using log True
      by (auto simp: append_assoc [symmetric] simp del: append_assoc split: option.splits)
  next
    case False
    then have "WriteRecord type payload l = l" by (simp add: WriteRecord_def)
    then show ?thesis using log.IH False by (auto split: option.splits)
  qed
next
  case (spill l recs k tear n)
  then show ?case by (auto intro: le_trans split: option.splits)
next
  case (sync l recs k tear)
  then show ?case by (cases "is_open l") (auto simp: TL_Sync_def simp flip: length_append split: option.splits)
next
  case (close l recs k tear)
  then show ?case by (cases "is_open l") (auto simp: TL_Close_def simp flip: length_append split: option.splits)
next
  case (trunc l recs k tear)
  then show ?case by (simp add: TL_Truncate_def)
qed

section \<open>Properties\<close>



text \<open>
  C29. Every transaction survives its payload encoding, as long as names and block
  counts fit their 32-bit length fields.
\<close>

theorem txn_payload_roundtrip:
  assumes "length (cn_blob_name c) < 2 ^ 32" and "length (eb_blob_name e) < 2 ^ 32"
    and "length (new_blocks e) < 2 ^ 32" and "length (br_blob_name b) < 2 ^ 32" and "length (tr_tag_name t) < 2 ^ 32"
  shows "DeserializeCreateNewBlob (put_CreateNewBlob c) = Some c \<and> DeserializeExtendBlob (put_ExtendBlob e) = Some e \<and>
    DeserializeBlobRef (put_BlobRef b) = Some b \<and> DeserializeTagRef (put_TagRef t) = Some t"
  using assms by (simp add: CreateNewBlob_roundtrip ExtendBlob_roundtrip BlobRef_roundtrip TagRef_roundtrip)

theorem txn_payload_roundtrip_witness:
  "let e = \<lparr>eb_tag_major = 1, eb_tag_minor = 2, eb_blob_name = ''b'',
        new_blocks = [\<lparr>bdev_major = 3, bdev_minor = 4, target_query = PoolQuery_Local, target_offset = 4096, tb_size = 100\<rparr>]\<rparr>
   in DeserializeExtendBlob (put_ExtendBlob e) = Some e"
  unfolding Let_def
  by (rule txn_payload_roundtrip [THEN conjunct2, THEN conjunct1,
        of "\<lparr>cn_tag_major = 0, cn_tag_minor = 0, cn_blob_name = [], cn_score = 0\<rparr>" _
          "\<lparr>br_tag_major = 0, br_tag_minor = 0, br_blob_name = []\<rparr>" "\<lparr>tr_tag_name = [], tr_tag_major = 0, tr_tag_minor = 0\<rparr>"]) simp_all

text \<open>
  A log that was cut off does not recover: reopened for appending after a torn
  record, it swallows the next transaction, which is written and synced but
  not returned by \<^verbatim>\<open>Load\<close>.
\<close>

theorem wal_append_after_torn_record_is_lost:
  "let l = TL_Sync (WriteRecord kDelTag [1, 2] (TL_Open ''wal'' 0 [2, 9, 0, 0, 0]))
   in TL_Load l = [] \<and> disk l = [2, 9, 0, 0, 0, 5, 2, 0, 0, 0, 1, 2]"
  by (simp add: wal_eval)

end
