(* ===== verification/Locks.thy ===== *)
theory Locks
  imports Chi_Types
begin

text \<open>
  The locks of the shared-memory library (mutex.h, rwlock.h) at the level of
  their atomic accesses: a thread is a program counter, a step is one atomic
  access of one thread, and an execution is any interleaving. On top of them
  the reentrant locks of the runtime (comutex.h, corwlock.h) at the level of calls.

  Loads and read-modify-write accesses are sequentially consistent, the
  default order of the atomics. A weak compare-and-exchange may fail without cause.
\<close>

section \<open>The ticket mutex\<close>

record Mutex =
  mx_lock :: u64
  mx_head :: u64
  mx_try :: u32

definition Mutex_Init :: Mutex where
  "Mutex_Init = \<lparr>mx_lock = 0, mx_head = 0, mx_try = 0\<rparr>"

text \<open>
  Program points of \<^verbatim>\<open>Lock\<close>, \<^verbatim>\<open>TryLock\<close> and \<^verbatim>\<open>Unlock\<close>: waiting with a
  ticket, inside, and the accesses of the attempt in source order.
\<close>

datatype mx_pc = MIdle | MWait u64 | MIn u64 | MTryLock | MTryHead u64 | MTryFail | MTryGo

datatype mx_call = CallLock | CallTryLock | CallUnlock | MGo

definition mx_step :: "Mutex \<Rightarrow> mx_pc \<Rightarrow> mx_call \<Rightarrow> (Mutex \<times> mx_pc) option" where
  "mx_step m pc c =
     (case (pc, c) of
        (MIdle, CallLock) \<Rightarrow> Some (m\<lparr>mx_lock := mx_lock m + 1\<rparr>, MWait (mx_lock m))
      | (MIdle, CallTryLock) \<Rightarrow>
          Some (m\<lparr>mx_try := mx_try m + 1\<rparr>, if mx_try m > 0 then MTryFail else MTryLock)
      | (MTryLock, MGo) \<Rightarrow> Some (m, MTryHead (mx_lock m))
      | (MTryHead l, MGo) \<Rightarrow> Some (m, if l > mx_head m then MTryFail else MTryGo)
      | (MTryFail, MGo) \<Rightarrow> Some (m\<lparr>mx_try := mx_try m - 1\<rparr>, MIdle)
      | (MTryGo, MGo) \<Rightarrow> Some (m\<lparr>mx_lock := mx_lock m + 1\<rparr>, MWait (mx_lock m))
      | (MWait tkt, MGo) \<Rightarrow> Some (m, if tkt = mx_head m then MIn tkt else MWait tkt)
      | (MIn tkt, CallUnlock) \<Rightarrow> Some (m\<lparr>mx_head := mx_head m + 1\<rparr>, MIdle)
      | _ \<Rightarrow> None)"

text \<open>Executions of the threads \<open>0, \<dots>, n - 1\<close>.\<close>

inductive mx_reach :: "nat \<Rightarrow> Mutex \<Rightarrow> (nat \<Rightarrow> mx_pc) \<Rightarrow> bool" for n where
  start: "mx_reach n Mutex_Init (\<lambda>_. MIdle)"
| step: "mx_reach n m pcs \<Longrightarrow> t < n \<Longrightarrow> mx_step m (pcs t) c = Some (m', pc') \<Longrightarrow> mx_reach n m' (pcs(t := pc'))"

text \<open>The uncontended attempt, as one call.\<close>

definition Mutex_TryLock :: "Mutex \<Rightarrow> bool \<times> Mutex" where
  "Mutex_TryLock m =
     (if mx_try m > 0 \<or> mx_lock m > mx_head m then (False, m\<lparr>mx_try := mx_try m + 1 - 1\<rparr>)
      else (True, m\<lparr>mx_try := mx_try m + 1, mx_lock := mx_lock m + 1\<rparr>))"

definition Mutex_Unlock :: "Mutex \<Rightarrow> Mutex" where
  "Mutex_Unlock m = m\<lparr>mx_head := mx_head m + 1\<rparr>"

section \<open>The reader-writer lock\<close>

datatype RwLockMode = kNone | kWrite | kRead

record RwLock =
  rw_mode :: RwLockMode
  readers :: u32
  writers :: u32
  cur_writer :: u32
  ticket :: u64

definition RwLock_Init :: RwLock where
  "RwLock_Init = \<lparr>rw_mode = kNone, readers = 0, writers = 0, cur_writer = 0, ticket = 0\<rparr>"

datatype rw_pc = RwIdle
  | RLoad | RChk1 RwLockMode | RChk2 RwLockMode | RCas RwLockMode | RTest RwLockMode | RIn
  | WTicket | WLoad u64 | WChk1 u64 RwLockMode | WChk2 u64 RwLockMode | WCas u64 RwLockMode
  | WTest u64 RwLockMode | WReload u64 | WTest2 u64 RwLockMode | WIn u64 | WRel u64

datatype rw_call = StartRead | StartWrite | Release | Go | GoSpurious

text \<open>\<^verbatim>\<open>UpdateMode\<close> is inlined in both loops: load the mode, check readers, check writers, exchange.\<close>

definition rw_read_step :: "RwLock \<Rightarrow> rw_pc \<Rightarrow> rw_call \<Rightarrow> (RwLock \<times> rw_pc) option" where
  "rw_read_step l pc c =
     (case (pc, c) of
        (RwIdle, StartRead) \<Rightarrow> Some (l\<lparr>readers := readers l + 1\<rparr>, RLoad)
      | (RLoad, Go) \<Rightarrow> Some (l, RChk1 (rw_mode l))
      | (RChk1 m, Go) \<Rightarrow> Some (l, if readers l = 0 \<and> m = kRead then RCas m else RChk2 m)
      | (RChk2 m, Go) \<Rightarrow> Some (l, if writers l = 0 \<and> m = kWrite then RCas m else RTest m)
      | (RCas m, Go) \<Rightarrow> (if rw_mode l = m then Some (l\<lparr>rw_mode := kNone\<rparr>, RTest m) else Some (l, RTest (rw_mode l)))
      | (RCas m, GoSpurious) \<Rightarrow> Some (l, RTest (rw_mode l))
      | (RTest m, Go) \<Rightarrow>
          (if m = kRead then Some (l, RIn)
           else if m = kNone \<and> rw_mode l = kNone then Some (l\<lparr>rw_mode := kRead\<rparr>, RIn)
           else Some (l, RLoad))
      | (RTest m, GoSpurious) \<Rightarrow> (if m = kNone then Some (l, RLoad) else None)
      | (RIn, Release) \<Rightarrow> Some (l\<lparr>readers := readers l - 1\<rparr>, RwIdle)
      | _ \<Rightarrow> None)"

definition rw_write_step :: "RwLock \<Rightarrow> rw_pc \<Rightarrow> rw_call \<Rightarrow> (RwLock \<times> rw_pc) option" where
  "rw_write_step l pc c =
     (case (pc, c) of
        (RwIdle, StartWrite) \<Rightarrow> Some (l\<lparr>writers := writers l + 1\<rparr>, WTicket)
      | (WTicket, Go) \<Rightarrow> Some (l\<lparr>ticket := ticket l + 1\<rparr>, WLoad (ticket l))
      | (WLoad t, Go) \<Rightarrow> Some (l, WChk1 t (rw_mode l))
      | (WChk1 t m, Go) \<Rightarrow> Some (l, if readers l = 0 \<and> m = kRead then WCas t m else WChk2 t m)
      | (WChk2 t m, Go) \<Rightarrow> Some (l, if writers l = 0 \<and> m = kWrite then WCas t m else WTest t m)
      | (WCas t m, Go) \<Rightarrow> (if rw_mode l = m then Some (l\<lparr>rw_mode := kNone\<rparr>, WTest t m) else Some (l, WTest t (rw_mode l)))
      | (WCas t m, GoSpurious) \<Rightarrow> Some (l, WTest t (rw_mode l))
      | (WTest t m, Go) \<Rightarrow>
          (if m = kNone then Some (if rw_mode l = kNone then l\<lparr>rw_mode := kWrite\<rparr> else l, WReload t)
           else Some (l, WTest2 t m))
      | (WTest t m, GoSpurious) \<Rightarrow> (if m = kNone then Some (l, WReload t) else None)
      | (WReload t, Go) \<Rightarrow> Some (l, WTest2 t (rw_mode l))
      | (WTest2 t m, Go) \<Rightarrow> Some (l, if m = kWrite \<and> ucast (cur_writer l) = t then WIn t else WLoad t)
      | (WIn t, Release) \<Rightarrow> Some (l\<lparr>writers := writers l - 1\<rparr>, WRel t)
      | (WRel t, Go) \<Rightarrow> Some (l\<lparr>cur_writer := cur_writer l + 1\<rparr>, RwIdle)
      | _ \<Rightarrow> None)"

definition rw_step :: "RwLock \<Rightarrow> rw_pc \<Rightarrow> rw_call \<Rightarrow> (RwLock \<times> rw_pc) option" where
  "rw_step l pc c = (case rw_read_step l pc c of Some r \<Rightarrow> Some r | None \<Rightarrow> rw_write_step l pc c)"

text \<open>Executions in which the 64-bit ticket counter does not wrap.\<close>

inductive rw_reach :: "RwLock \<Rightarrow> (nat \<Rightarrow> rw_pc) \<Rightarrow> bool" where
  start: "rw_reach RwLock_Init (\<lambda>_. RwIdle)"
| step: "rw_reach l pcs \<Longrightarrow> ticket l \<noteq> - 1 \<Longrightarrow> rw_step l (pcs t) c = Some (l', pc') \<Longrightarrow> rw_reach l' (pcs(t := pc'))"

fun rw_run :: "(nat \<times> rw_call) list \<Rightarrow> RwLock \<times> (nat \<Rightarrow> rw_pc) \<Rightarrow> (RwLock \<times> (nat \<Rightarrow> rw_pc)) option" where
  "rw_run [] s = Some s"
| "rw_run ((t, c) # cs) (l, pcs) =
     (if ticket l = - 1 then None
      else case rw_step l (pcs t) c of None \<Rightarrow> None | Some (l', pc') \<Rightarrow> rw_run cs (l', pcs(t := pc')))"

section \<open>Reentrant locks\<close>

text \<open>
  The state of the lock below, at the level of calls: a call that would spin
  is not enabled (\<open>None\<close>).
\<close>

record CoMutex =
  cm_locked :: bool
  cm_holder :: LockOwnerId
  cm_depth :: u32

definition CoMutex_new :: CoMutex where
  "CoMutex_new = \<lparr>cm_locked = False, cm_holder = LockOwnerId_null, cm_depth = 0\<rparr>"

definition CoMutex_Lock :: "LockOwnerId \<Rightarrow> CoMutex \<Rightarrow> CoMutex option" where
  "CoMutex_Lock cur m =
     (if LockOwnerId_eq cur (cm_holder m) then Some (m\<lparr>cm_depth := cm_depth m + 1\<rparr>)
      else if cm_locked m then None
      else Some (m\<lparr>cm_locked := True, cm_holder := cur, cm_depth := 1\<rparr>))"

definition CoMutex_Unlock :: "CoMutex \<Rightarrow> CoMutex" where
  "CoMutex_Unlock m =
     (let m = m\<lparr>cm_depth := cm_depth m - 1\<rparr>
      in if cm_depth m = 0 then m\<lparr>cm_holder := LockOwnerId_null, cm_locked := False\<rparr> else m)"

record CoRwLock =
  cr_readers :: nat
  cr_written :: bool
  cr_holder :: LockOwnerId
  write_depth :: u32
  read_depth :: u32

definition CoRwLock_new :: CoRwLock where
  "CoRwLock_new = \<lparr>cr_readers = 0, cr_written = False, cr_holder = LockOwnerId_null, write_depth = 0, read_depth = 0\<rparr>"

definition CoRw_ReadLock :: "LockOwnerId \<Rightarrow> CoRwLock \<Rightarrow> CoRwLock option" where
  "CoRw_ReadLock cur l =
     (if LockOwnerId_eq cur (cr_holder l) then Some (l\<lparr>read_depth := read_depth l + 1\<rparr>)
      else if cr_written l then None
      else Some (l\<lparr>cr_readers := cr_readers l + 1\<rparr>))"

definition CoRw_ReadUnlock :: "LockOwnerId \<Rightarrow> CoRwLock \<Rightarrow> CoRwLock" where
  "CoRw_ReadUnlock cur l =
     (if LockOwnerId_eq cur (cr_holder l) \<and> read_depth l > 0 then l\<lparr>read_depth := read_depth l - 1\<rparr>
      else l\<lparr>cr_readers := cr_readers l - 1\<rparr>)"

definition CoRw_WriteLock :: "LockOwnerId \<Rightarrow> CoRwLock \<Rightarrow> CoRwLock option" where
  "CoRw_WriteLock cur l =
     (if LockOwnerId_eq cur (cr_holder l) then Some (l\<lparr>write_depth := write_depth l + 1\<rparr>)
      else if cr_written l \<or> cr_readers l > 0 then None
      else Some (l\<lparr>cr_written := True, cr_holder := cur, write_depth := 1\<rparr>))"

definition CoRw_WriteUnlock :: "CoRwLock \<Rightarrow> CoRwLock" where
  "CoRw_WriteUnlock l =
     (let l = l\<lparr>write_depth := write_depth l - 1\<rparr>
      in if write_depth l = 0 \<and> read_depth l = 0
         then l\<lparr>cr_holder := LockOwnerId_null, cr_written := False\<rparr> else l)"

section \<open>The ticket mutex is a queue\<close>

text \<open>
  The threads with a ticket form a queue \<open>q\<close>: the one at position \<open>i\<close> holds
  ticket \<open>head + i\<close>, only the first can be inside.
\<close>

definition mx_ticket :: "mx_pc \<Rightarrow> u64 option" where
  "mx_ticket pc = (case pc of MWait t \<Rightarrow> Some t | MIn t \<Rightarrow> Some t | _ \<Rightarrow> None)"

definition mx_inv :: "nat \<Rightarrow> Mutex \<Rightarrow> (nat \<Rightarrow> mx_pc) \<Rightarrow> nat list \<Rightarrow> bool" where
  "mx_inv n m pcs q \<longleftrightarrow>
     distinct q \<and> (\<forall>t. t \<in> set q \<longleftrightarrow> mx_ticket (pcs t) \<noteq> None) \<and> (\<forall>t \<in> set q. t < n) \<and>
     mx_lock m = mx_head m + of_nat (length q) \<and>
     (\<forall>i < length q. mx_ticket (pcs (q ! i)) = Some (mx_head m + of_nat i)) \<and>
     (\<forall>t tkt. pcs t = MIn tkt \<longrightarrow> q \<noteq> [] \<and> t = hd q)"

lemma mx_inv_len: "mx_inv n m pcs q \<Longrightarrow> length q \<le> n"
  unfolding mx_inv_def
  by (metis card_lessThan card_mono distinct_card finite_lessThan lessThan_iff subsetI)


lemma of_nat_small_zero: "i < 2 ^ 64 \<Longrightarrow> (of_nat i :: u64) = 0 \<Longrightarrow> i = 0"
  by (simp add: word_of_nat_eq_0_iff nat_dvd_not_less) (metis nat_dvd_not_less neq0_conv)

lemma mx_inv_enqueue:
  assumes "mx_inv n m pcs q" and "t < n" and "mx_ticket (pcs t) = None"
  shows "mx_inv n (m\<lparr>mx_lock := mx_lock m + 1\<rparr>) (pcs(t := MWait (mx_lock m))) (q @ [t])"
proof -
  have t: "t \<notin> set q" using assms by (simp add: mx_inv_def)
  then have "q ! i \<noteq> t" if "i < length q" for i using that by auto
  then show ?thesis using assms t
    by (auto simp: mx_inv_def mx_ticket_def nth_append less_Suc_eq hd_append)
qed

lemma mx_inv_local:
  assumes "mx_inv n m pcs q" and "mx_ticket (pcs t) = mx_ticket pc'" and "mx_lock m' = mx_lock m" and "mx_head m' = mx_head m"
    and "\<And>tkt. pc' = MIn tkt \<Longrightarrow> q \<noteq> [] \<and> t = hd q"
  shows "mx_inv n m' (pcs(t := pc')) q"
proof -
  have "mx_ticket ((pcs(t := pc')) u) = mx_ticket (pcs u)" for u using assms(2) by simp
  then show ?thesis using assms(1,3,4,5) by (auto simp: mx_inv_def)
qed

lemma mx_inv_dequeue:
  assumes "mx_inv n m pcs q" and "pcs t = MIn tkt"
  shows "mx_inv n (m\<lparr>mx_head := mx_head m + 1\<rparr>) (pcs(t := MIdle)) (tl q)"
proof -
  have "q \<noteq> []" "hd q = t" using assms by (auto simp: mx_inv_def)
  then obtain r where q: "q = t # r" by (metis list.collapse)
  have d: "distinct (t # r)" and tk: "\<forall>u. u \<in> set (t # r) \<longleftrightarrow> mx_ticket (pcs u) \<noteq> None"
    and lt: "\<forall>u \<in> set (t # r). u < n" and lk: "mx_lock m = mx_head m + of_nat (length (t # r))"
    and ps: "\<forall>i < length (t # r). mx_ticket (pcs ((t # r) ! i)) = Some (mx_head m + of_nat i)"
    and inn: "\<forall>u k. pcs u = MIn k \<longrightarrow> u = t"
    using assms(1) by (auto simp: mx_inv_def q)
  have "mx_ticket ((pcs(t := MIdle)) (r ! i)) = Some (mx_head m + 1 + of_nat i)" if "i < length r" for i
  proof -
    have "r ! i \<noteq> t" using d that by auto
    then show ?thesis using ps [rule_format, of "Suc i"] that by (simp add: add.assoc)
  qed
  moreover have "u \<in> set r \<longleftrightarrow> mx_ticket ((pcs(t := MIdle)) u) \<noteq> None" for u
    using d tk by (auto simp: mx_ticket_def)
  ultimately show ?thesis using d lt lk inn by (auto simp: mx_inv_def q)
qed

lemma mx_inv_head:
  assumes "mx_inv n m pcs q" and "pcs t = MWait (mx_head m)" and "n < 2 ^ 64"
  shows "q \<noteq> [] \<and> t = hd q"
proof -
  have "t \<in> set q" using assms(1,2) by (simp add: mx_inv_def mx_ticket_def)
  then obtain i where i: "i < length q" "t = q ! i" by (metis in_set_conv_nth)
  have "Some (mx_head m) = Some (mx_head m + of_nat i)"
    using assms(1,2) i by (auto simp: mx_inv_def mx_ticket_def)
  then have z: "(of_nat i :: u64) = 0" by simp
  have "i < 2 ^ 64" using i mx_inv_len [OF assms(1)] assms(3) by linarith
  from of_nat_small_zero [OF this z] i show ?thesis by (auto simp: hd_conv_nth)
qed

lemma mx_inv_step:
  assumes inv: "mx_inv n m pcs q" and "t < n" and n: "n < 2 ^ 64" and st: "mx_step m (pcs t) c = Some (m', pc')"
  shows "\<exists>q'. mx_inv n m' (pcs(t := pc')) q'"
proof (cases "pcs t")
  case MIdle
  then consider "c = CallLock" | "c = CallTryLock" using st by (cases c) (auto simp: mx_step_def)
  then show ?thesis
  proof cases
    case 1
    with MIdle st mx_inv_enqueue [OF inv \<open>t < n\<close>] show ?thesis by (auto simp: mx_step_def mx_ticket_def)
  next
    case 2
    then have "mx_lock m' = mx_lock m" "mx_head m' = mx_head m" "pc' = MTryFail \<or> pc' = MTryLock"
      using MIdle st by (auto simp: mx_step_def split: if_splits)
    then show ?thesis using MIdle by (intro exI [of _ q] mx_inv_local [OF inv]) (auto simp: mx_ticket_def)
  qed
next
  case (MWait tkt)
  then have "m' = m" "pc' = (if tkt = mx_head m then MIn tkt else MWait tkt)"
    using st by (cases c; auto simp: mx_step_def)+
  then show ?thesis using MWait mx_inv_head [OF inv _ n, of t]
    by (intro exI [of _ q] mx_inv_local [OF inv]) (auto simp: mx_ticket_def split: if_splits)
next
  case (MIn tkt)
  then have "m' = m\<lparr>mx_head := mx_head m + 1\<rparr>" "pc' = MIdle" using st by (cases c; auto simp: mx_step_def)+
  with mx_inv_dequeue [OF inv MIn] show ?thesis by blast
next
  case MTryGo
  then have "m' = m\<lparr>mx_lock := mx_lock m + 1\<rparr>" "pc' = MWait (mx_lock m)" using st by (cases c; auto simp: mx_step_def)+
  with mx_inv_enqueue [OF inv \<open>t < n\<close>] MTryGo show ?thesis by (auto simp: mx_ticket_def)
next
  case MTryLock
  with st show ?thesis by (cases c) (auto simp: mx_step_def mx_ticket_def intro!: exI [of _ q] mx_inv_local [OF inv])
next
  case (MTryHead l)
  then have "m' = m" "pc' = MTryFail \<or> pc' = MTryGo" using st by (cases c; auto simp: mx_step_def split: if_splits)+
  with MTryHead show ?thesis by (intro exI [of _ q] mx_inv_local [OF inv]) (auto simp: mx_ticket_def)
next
  case MTryFail
  with st show ?thesis by (cases c) (auto simp: mx_step_def mx_ticket_def intro!: exI [of _ q] mx_inv_local [OF inv])
qed

lemma mx_reach_inv:
  assumes "mx_reach n m pcs" and "n < 2 ^ 64"
  shows "\<exists>q. mx_inv n m pcs q"
  using assms(1)
proof (induction rule: mx_reach.induct)
  case start
  show ?case by (intro exI [of _ "[]"]) (simp add: mx_inv_def Mutex_Init_def mx_ticket_def)
next
  case (step m pcs t c m' pc')
  then show ?case using mx_inv_step assms(2) by blast
qed

text \<open>
  C22. The mutex is mutually exclusive and first-come first-served: in every
  interleaving of fewer than \<open>2 ^ 64\<close> threads that call \<^verbatim>\<open>Lock\<close>, \<^verbatim>\<open>TryLock\<close> and
  \<^verbatim>\<open>Unlock\<close>, the threads with a ticket form a queue in ticket order, and a thread
  inside is the one that has waited longest, so no two are inside.
\<close>

theorem mutex_exclusive_fifo:
  assumes "mx_reach n m pcs" and "n < 2 ^ 64"
  shows "(\<exists>q. distinct q \<and> (\<forall>i < length q. mx_ticket (pcs (q ! i)) = Some (mx_head m + of_nat i)) \<and>
      (\<forall>t. t \<in> set q \<longleftrightarrow> mx_ticket (pcs t) \<noteq> None) \<and> (\<forall>t tkt. pcs t = MIn tkt \<longrightarrow> t = hd q)) \<and>
    (\<forall>t u x y. pcs t = MIn x \<longrightarrow> pcs u = MIn y \<longrightarrow> t = u)"
proof -
  from mx_reach_inv [OF assms] obtain q where "mx_inv n m pcs q" ..
  then have q: "distinct q" "\<forall>i < length q. mx_ticket (pcs (q ! i)) = Some (mx_head m + of_nat i)"
      "\<forall>t. t \<in> set q \<longleftrightarrow> mx_ticket (pcs t) \<noteq> None" "\<forall>t tkt. pcs t = MIn tkt \<longrightarrow> t = hd q"
    unfolding mx_inv_def by blast+
  then have "t = u" if "pcs t = MIn x" "pcs u = MIn y" for t u x y using that by metis
  with q show ?thesis by blast
qed

theorem mutex_exclusive_fifo_witness:
  "\<exists>m pcs. mx_reach 2 m pcs \<and> pcs 0 = MIn 0 \<and> pcs 1 = MWait 1 \<and> (\<forall>t x. pcs t = MIn x \<longrightarrow> t = 0)"
proof -
  let ?m = "\<lambda>k. \<lparr>mx_lock = k, mx_head = 0, mx_try = 0\<rparr>"
  have "mx_reach 2 (?m 1) ((\<lambda>_. MIdle)(0 := MWait 0))"
    by (rule mx_reach.step [OF mx_reach.start, where c = CallLock]) (simp_all add: mx_step_def Mutex_Init_def)
  then have "mx_reach 2 (?m 2) ((\<lambda>_. MIdle)(0 := MWait 0, 1 := MWait 1))"
    by (rule mx_reach.step [where c = CallLock]) (simp_all add: mx_step_def)
  then have "mx_reach 2 (?m 2) ((\<lambda>_. MIdle)(0 := MWait 0, 1 := MWait 1, 0 := MIn 0))"
    by (rule mx_reach.step [where c = MGo]) (simp_all add: mx_step_def)
  then obtain pcs where r: "mx_reach 2 (?m 2) pcs" and pcs: "pcs 0 = MIn 0" "pcs 1 = MWait 1" by force
  have "\<forall>t x. pcs t = MIn x \<longrightarrow> t = 0"
    using mutex_exclusive_fifo [OF r, THEN conjunct2] pcs(1) by simp
  with r pcs show ?thesis by blast
qed

text \<open>
  \<^verbatim>\<open>TryLock\<close> works once: a successful attempt raises \<^verbatim>\<open>try_lock_\<close>, nothing lowers
  it again, and after the matching \<^verbatim>\<open>Unlock\<close> an attempt on the lock, now as free as
  before, fails and changes nothing, so that every later attempt fails too.
\<close>

theorem trylock_works_once:
  assumes "Mutex_TryLock m = (True, m1)"
  shows "Mutex_TryLock (Mutex_Unlock m1) = (False, Mutex_Unlock m1) \<and> mx_lock (Mutex_Unlock m1) - mx_head (Mutex_Unlock m1) = mx_lock m - mx_head m"
  using assms by (auto simp: Mutex_TryLock_def Mutex_Unlock_def word_gt_0 split: if_splits)

theorem trylock_works_once_witness:
  "let m1 = snd (Mutex_TryLock Mutex_Init)
   in fst (Mutex_TryLock Mutex_Init) = True \<and> fst (Mutex_TryLock (Mutex_Unlock m1)) = False"
proof -
  have "Mutex_TryLock Mutex_Init = (True, snd (Mutex_TryLock Mutex_Init))" by (simp add: Mutex_TryLock_def Mutex_Init_def)
  from trylock_works_once [OF this] this show ?thesis by (metis fst_conv)
qed


section \<open>Reader-writer lock: executions\<close>

text \<open>Thread 0 reads and leaves; thread 1 starts to write; thread 0 reads again; thread 1 goes on.\<close>

definition rw_race :: "(nat \<times> rw_call) list" where
  "rw_race =
     (0, StartRead) # replicate 4 (0, Go) @ [(0, Release)] @
     [(1, StartWrite), (1, Go), (1, Go), (1, Go)] @
     (0, StartRead) # replicate 4 (0, Go) @ replicate 9 (1, Go)"

lemma rw_run_reach: "rw_reach l pcs \<Longrightarrow> rw_run cs (l, pcs) = Some (l', pcs') \<Longrightarrow> rw_reach l' pcs'"
proof (induction cs arbitrary: l pcs)
  case (Cons a cs)
  obtain t c where a: "a = (t, c)" by (cases a)
  from Cons.prems(2) a obtain l1 pc1 where "ticket l \<noteq> - 1" "rw_step l (pcs t) c = Some (l1, pc1)"
    and "rw_run cs (l1, pcs(t := pc1)) = Some (l', pcs')" by (auto split: option.splits if_splits)
  with Cons.IH rw_reach.step [OF Cons.prems(1)] show ?case by blast
qed simp

text \<open>
  Writers: the tickets of active writers are distinct and below the ticket
  counter, and a writer inside, or on its way out, holds the current one.
\<close>

definition rw_ticket :: "rw_pc \<Rightarrow> u64 option" where
  "rw_ticket pc =
     (case pc of
        WLoad t \<Rightarrow> Some t | WChk1 t _ \<Rightarrow> Some t | WChk2 t _ \<Rightarrow> Some t | WCas t _ \<Rightarrow> Some t | WTest t _ \<Rightarrow> Some t
      | WReload t \<Rightarrow> Some t | WTest2 t _ \<Rightarrow> Some t | WIn t \<Rightarrow> Some t | WRel t \<Rightarrow> Some t | _ \<Rightarrow> None)"

definition rw_writing :: "rw_pc \<Rightarrow> bool" where
  "rw_writing pc = (case pc of WIn _ \<Rightarrow> True | WRel _ \<Rightarrow> True | _ \<Rightarrow> False)"

definition rw_inv :: "RwLock \<Rightarrow> (nat \<Rightarrow> rw_pc) \<Rightarrow> bool" where
  "rw_inv l pcs \<longleftrightarrow>
     (\<forall>i k. rw_ticket (pcs i) = Some k \<longrightarrow> k < ticket l) \<and>
     (\<forall>i j k. rw_ticket (pcs i) = Some k \<longrightarrow> rw_ticket (pcs j) = Some k \<longrightarrow> i = j) \<and>
     (\<forall>i. rw_writing (pcs i) \<longrightarrow> rw_ticket (pcs i) = Some (ucast (cur_writer l)))"

text \<open>
  What a step does to a thread's ticket: nothing, or it draws a fresh one, or
  it gives the current one back.
\<close>

lemma rw_step_ticket:
  assumes "rw_step l pc c = Some (l', pc')"
  shows "rw_ticket pc' = rw_ticket pc \<and> ticket l' = ticket l \<and> cur_writer l' = cur_writer l \<and>
           (rw_writing pc' \<longrightarrow> rw_writing pc \<or> rw_ticket pc = Some (ucast (cur_writer l)))
       \<or> rw_ticket pc = None \<and> rw_ticket pc' = Some (ticket l) \<and> ticket l' = ticket l + 1 \<and>
           cur_writer l' = cur_writer l \<and> \<not> rw_writing pc'
       \<or> rw_writing pc \<and> pc' = RwIdle \<and> ticket l' = ticket l"
  using assms
  by (cases pc; cases c)
    (auto simp: rw_step_def rw_read_step_def rw_write_step_def rw_ticket_def rw_writing_def split: if_splits)

lemma rw_invI:
  assumes "\<And>i k. rw_ticket (pcs i) = Some k \<Longrightarrow> k < ticket l"
    and "\<And>i j k. rw_ticket (pcs i) = Some k \<Longrightarrow> rw_ticket (pcs j) = Some k \<Longrightarrow> i = j"
    and "\<And>i. rw_writing (pcs i) \<Longrightarrow> rw_ticket (pcs i) = Some (ucast (cur_writer l))"
  shows "rw_inv l pcs"
  using assms by (simp add: rw_inv_def)

lemma rw_invD:
  assumes "rw_inv l pcs"
  shows "rw_ticket (pcs i) = Some k \<Longrightarrow> k < ticket l"
    and "rw_ticket (pcs i) = Some k \<Longrightarrow> rw_ticket (pcs j) = Some k \<Longrightarrow> i = j"
    and "rw_writing (pcs i) \<Longrightarrow> rw_ticket (pcs i) = Some (ucast (cur_writer l))"
  using assms unfolding rw_inv_def by blast+

lemma rw_inv_keep:
  assumes inv: "rw_inv l pcs"
    and a: "rw_ticket pc' = rw_ticket (pcs t)" "ticket l' = ticket l" "cur_writer l' = cur_writer l"
      "rw_writing pc' \<longrightarrow> rw_writing (pcs t) \<or> rw_ticket (pcs t) = Some (ucast (cur_writer l))"
  shows "rw_inv l' (pcs(t := pc'))"
proof (rule rw_invI)
  have e: "rw_ticket ((pcs(t := pc')) i) = rw_ticket (pcs i)" for i using a(1) by simp
  show "k < ticket l'" if "rw_ticket ((pcs(t := pc')) i) = Some k" for i k
    using that rw_invD(1) [OF inv] unfolding e a(2) by blast
  show "i = j" if "rw_ticket ((pcs(t := pc')) i) = Some k" "rw_ticket ((pcs(t := pc')) j) = Some k" for i j k
    using that rw_invD(2) [OF inv] unfolding e by blast
  show "rw_ticket ((pcs(t := pc')) i) = Some (ucast (cur_writer l'))" if "rw_writing ((pcs(t := pc')) i)" for i
    using that a(4) rw_invD(3) [OF inv, of i] unfolding e a(3) by (cases "i = t") auto
qed

lemma rw_inv_draw:
  assumes inv: "rw_inv l pcs" and nw: "ticket l \<noteq> - 1"
    and a: "rw_ticket pc' = Some (ticket l)" "ticket l' = ticket l + 1"
      "cur_writer l' = cur_writer l" "\<not> rw_writing pc'"
  shows "rw_inv l' (pcs(t := pc'))"
proof (rule rw_invI)
  have "unat (ticket l') = Suc (unat (ticket l))" unfolding a(2) by (rule unat_plus_one [OF nw])
  then have lt: "k < ticket l'" if "k \<le> ticket l" for k
    using that by (simp add: word_le_nat_alt word_less_nat_alt)
  show "k < ticket l'" if "rw_ticket ((pcs(t := pc')) i) = Some k" for i k
    using that a(1) rw_invD(1) [OF inv, of i k] lt [of k] by (cases "i = t") auto
  show "i = j" if "rw_ticket ((pcs(t := pc')) i) = Some k" "rw_ticket ((pcs(t := pc')) j) = Some k" for i j k
    using that a(1) rw_invD(1) [OF inv, of i k] rw_invD(1) [OF inv, of j k] rw_invD(2) [OF inv, of i k j]
    by (cases "i = t"; cases "j = t") auto
  show "rw_ticket ((pcs(t := pc')) i) = Some (ucast (cur_writer l'))" if "rw_writing ((pcs(t := pc')) i)" for i
    using that a(3,4) rw_invD(3) [OF inv, of i] by (cases "i = t") auto
qed

lemma rw_inv_leave:
  assumes inv: "rw_inv l pcs" and a: "rw_writing (pcs t)" "ticket l' = ticket l"
  shows "rw_inv l' (pcs(t := RwIdle))"
proof (rule rw_invI)
  have n: "rw_ticket RwIdle = None" "\<not> rw_writing RwIdle" by (simp_all add: rw_ticket_def rw_writing_def)
  show "k < ticket l'" if "rw_ticket ((pcs(t := RwIdle)) i) = Some k" for i k
    using that n a(2) rw_invD(1) [OF inv, of i k] by (cases "i = t") auto
  show "i = j" if "rw_ticket ((pcs(t := RwIdle)) i) = Some k" "rw_ticket ((pcs(t := RwIdle)) j) = Some k" for i j k
    using that n rw_invD(2) [OF inv, of i k j] by (cases "i = t"; cases "j = t") auto
  show "rw_ticket ((pcs(t := RwIdle)) i) = Some (ucast (cur_writer l'))" if "rw_writing ((pcs(t := RwIdle)) i)" for i
    using that n rw_invD(3) [OF inv, of i] rw_invD(3) [OF inv a(1)] rw_invD(2) [OF inv, of i _ t]
    by (cases "i = t") auto
qed

lemma rw_inv_step:
  assumes inv: "rw_inv l pcs" and st: "rw_step l (pcs t) c = Some (l', pc')" and nw: "ticket l \<noteq> - 1"
  shows "rw_inv l' (pcs(t := pc'))"
  using rw_step_ticket [OF st] rw_inv_keep [OF inv] rw_inv_draw [OF inv nw] rw_inv_leave [OF inv]
  by (elim disjE conjE) simp_all

lemma rw_reach_inv: "rw_reach l pcs \<Longrightarrow> rw_inv l pcs"
proof (induction rule: rw_reach.induct)
  case start
  show ?case by (simp add: rw_inv_def rw_ticket_def rw_writing_def)
next
  case (step l pcs t c l' pc')
  then show ?case using rw_inv_step by blast
qed

section \<open>Reentrant locks: exclusion\<close>

text \<open>
  Calls on a reentrant mutex by actors; \<open>own a\<close> is the identity actor \<open>a\<close> runs
  under. Tasks of one parent chain share an identity, threads outside a worker
  have the null identity. \<open>hs\<close> lists the acquisitions that are not yet released.
\<close>

inductive cm_reach :: "(nat \<Rightarrow> LockOwnerId) \<Rightarrow> CoMutex \<Rightarrow> nat list \<Rightarrow> bool" for own where
  start: "cm_reach own CoMutex_new []"
| lock: "cm_reach own m hs \<Longrightarrow> cm_depth m \<noteq> - 1 \<Longrightarrow> CoMutex_Lock (own a) m = Some m' \<Longrightarrow> cm_reach own m' (a # hs)"
| unlock: "cm_reach own m hs \<Longrightarrow> a \<in> set hs \<Longrightarrow> cm_reach own (CoMutex_Unlock m) (remove1 a hs)"

definition cm_inv :: "(nat \<Rightarrow> LockOwnerId) \<Rightarrow> CoMutex \<Rightarrow> nat list \<Rightarrow> bool" where
  "cm_inv own m hs \<longleftrightarrow>
     length hs = unat (cm_depth m) \<and> (cm_locked m \<longleftrightarrow> hs \<noteq> []) \<and>
     (hs = [] \<longrightarrow> cm_holder m = LockOwnerId_null) \<and> (\<forall>a \<in> set hs. own a = cm_holder m) \<and>
     (LockOwnerId_IsNull (cm_holder m) \<longrightarrow> length hs \<le> 1)"

lemma LockOwnerId_null_IsNull [simp]: "LockOwnerId_IsNull LockOwnerId_null"
  by (simp add: LockOwnerId_IsNull_def LockOwnerId_null_def)

lemma LockOwnerId_eq_iff: "LockOwnerId_eq a b \<longleftrightarrow> a = b \<and> \<not> LockOwnerId_IsNull a"
  by (auto simp: LockOwnerId_eq_def LockOwnerId_IsNull_def)

lemma cm_inv_lock:
  assumes "cm_inv own m hs" and "cm_depth m \<noteq> - 1" and "CoMutex_Lock (own a) m = Some m'"
  shows "cm_inv own m' (a # hs)"
proof -
  have "unat (cm_depth m + 1) = Suc (unat (cm_depth m))" by (rule unat_plus_one [OF assms(2)])
  with assms(1,3) show ?thesis
    by (auto simp: cm_inv_def CoMutex_Lock_def LockOwnerId_eq_iff split: if_splits)
qed

lemma cm_inv_unlock:
  assumes "cm_inv own m hs" and "a \<in> set hs"
  shows "cm_inv own (CoMutex_Unlock m) (remove1 a hs)"
proof -
  have n: "unat (cm_depth m) = length hs" "0 < length hs"
    using assms length_pos_if_in_set [of a hs] by (simp_all add: cm_inv_def)
  then have "1 \<le> cm_depth m" by (simp add: word_le_nat_alt Suc_le_eq)
  then have d: "unat (cm_depth m - 1) = length hs - 1" using n(1) unat_sub by fastforce
  then have z: "cm_depth m - 1 = 0 \<longleftrightarrow> length hs = 1" using n(2) unfolding word_unat_eq_iff unsigned_0 by linarith
  have r: "length (remove1 a hs) = length hs - 1" using assms(2) by (simp add: length_remove1)
  show ?thesis
  proof (cases "length hs = 1")
    case True
    then have "remove1 a hs = []" using r by simp
    with True z show ?thesis by (simp add: cm_inv_def CoMutex_Unlock_def Let_def LockOwnerId_null_def)
  next
    case False
    then have l: "1 < length hs" using n(2) by linarith
    then have ne: "remove1 a hs \<noteq> []" using r by auto
    have "\<not> LockOwnerId_IsNull (cm_holder m)" using assms(1) l by (auto simp: cm_inv_def)
    with False z ne r d assms(1) show ?thesis
      by (auto simp: cm_inv_def CoMutex_Unlock_def Let_def dest: notin_set_remove1)
  qed
qed

lemma cm_reach_inv: "cm_reach own m hs \<Longrightarrow> cm_inv own m hs"
proof (induction rule: cm_reach.induct)
  case start
  show ?case by (simp add: cm_inv_def CoMutex_new_def)
qed (auto intro: cm_inv_lock cm_inv_unlock)


section \<open>More properties\<close>

text \<open>
  The reader-writer lock does not exclude readers from a writer: from a
  state where the last reader has left, a writer checks the reader count, a
  reader then enters, and the writer, acting on its stale check, resets the
  mode and enters as well.
\<close>

theorem rwlock_race:
  "\<exists>l pcs. rw_reach l pcs \<and> pcs 0 = RIn \<and> pcs 1 = WIn 0"
proof -
  have "\<exists>l pcs. rw_run rw_race (RwLock_Init, \<lambda>_. RwIdle) = Some (l, pcs) \<and> pcs 0 = RIn \<and> pcs 1 = WIn 0"
    by (simp add: rw_race_def numeral_eq_Suc RwLock_Init_def rw_step_def rw_read_step_def rw_write_step_def)
  then show ?thesis using rw_run_reach [OF rw_reach.start] by blast
qed

text \<open>
  C26. Writers do exclude each other, in every interleaving with readers and
  other writers: at most one thread is between \<^verbatim>\<open>WriteLock\<close> and the end of \<^verbatim>\<open>WriteUnlock\<close>.
\<close>

theorem rwlock_writers_exclusive:
  assumes "rw_reach l pcs" and "rw_writing (pcs i)" and "rw_writing (pcs j)"
  shows "i = j"
  using rw_invD [OF rw_reach_inv [OF assms(1)]] assms(2,3) by blast

theorem rwlock_writers_exclusive_witness:
  "\<exists>l pcs. rw_reach l pcs \<and> rw_writing (pcs 1) \<and> (\<forall>j. rw_writing (pcs j) \<longrightarrow> j = 1)"
proof -
  have "\<exists>l pcs. rw_run rw_race (RwLock_Init, \<lambda>_. RwIdle) = Some (l, pcs) \<and> rw_writing (pcs 1)"
    by (simp add: rw_race_def numeral_eq_Suc RwLock_Init_def rw_step_def rw_read_step_def rw_write_step_def rw_writing_def)
  then obtain l pcs where r: "rw_reach l pcs" and w: "rw_writing (pcs 1)" using rw_run_reach [OF rw_reach.start] by blast
  with rwlock_writers_exclusive [OF r _ w] show ?thesis by blast
qed

text \<open>
  C33. The reentrant mutex: two acquisitions that are held at the same time belong
  to the same actor or to actors with the same non-null owner identity, and the
  mutex is free exactly when every acquisition has been released.
\<close>

theorem comutex_exclusive:
  assumes "cm_reach own m hs"
  shows "(\<forall>i < length hs. \<forall>j < length hs. i \<noteq> j \<longrightarrow> LockOwnerId_eq (own (hs ! i)) (own (hs ! j))) \<and>
    (cm_locked m \<longleftrightarrow> hs \<noteq> [])"
proof -
  have inv: "cm_inv own m hs" using assms by (rule cm_reach_inv)
  have "LockOwnerId_eq (own (hs ! i)) (own (hs ! j))" if "i < length hs" "j < length hs" "i \<noteq> j" for i j
  proof -
    have "1 < length hs" using that by linarith
    then have "\<not> LockOwnerId_IsNull (cm_holder m)" using inv by (auto simp: cm_inv_def)
    moreover have "own (hs ! i) = cm_holder m" "own (hs ! j) = cm_holder m" using inv that by (auto simp: cm_inv_def)
    ultimately show ?thesis by (simp add: LockOwnerId_eq_iff)
  qed
  with inv show ?thesis by (simp add: cm_inv_def)
qed

theorem comutex_exclusive_witness:
  "let o1 = LockOwnerId_null\<lparr>lo_pid := 7\<rparr>
   in \<exists>m. cm_reach (\<lambda>_. o1) m [1, 0] \<and> cm_locked m \<and> LockOwnerId_eq o1 o1"
proof -
  let ?o = "LockOwnerId_null\<lparr>lo_pid := 7\<rparr>"
  obtain m1 where m1: "CoMutex_Lock ?o CoMutex_new = Some m1" "cm_depth m1 = 1" "cm_holder m1 = ?o"
    by (simp add: CoMutex_Lock_def CoMutex_new_def LockOwnerId_eq_def LockOwnerId_IsNull_def LockOwnerId_null_def)
  have r1: "cm_reach (\<lambda>_. ?o) m1 [0]"
    by (rule cm_reach.lock [OF cm_reach.start]) (use m1 in \<open>simp_all add: CoMutex_new_def\<close>)
  obtain m2 where m2: "CoMutex_Lock ?o m1 = Some m2"
    using m1 by (simp add: CoMutex_Lock_def LockOwnerId_eq_def LockOwnerId_IsNull_def LockOwnerId_null_def)
  have r2: "cm_reach (\<lambda>_. ?o) m2 [1, 0]"
    by (rule cm_reach.lock [OF r1]) (use m1 m2 in simp_all)
  from comutex_exclusive [OF r2] have "LockOwnerId_eq ?o ?o" "cm_locked m2" by force+
  with r2 show ?thesis unfolding Let_def by blast
qed

text \<open>
  The reentrant reader-writer lock is lost when a nested read outlives the
  write: after \<^verbatim>\<open>WriteLock\<close>, \<^verbatim>\<open>ReadLock\<close>, \<^verbatim>\<open>WriteUnlock\<close>, \<^verbatim>\<open>ReadUnlock\<close> by one
  owner everything is released, yet the lock stays written and every other
  owner blocks, for reading and for writing.
\<close>

theorem corwlock_lost:
  assumes "\<not> LockOwnerId_IsNull me" and "\<not> LockOwnerId_eq other me"
  shows "\<exists>l1 l2. CoRw_WriteLock me CoRwLock_new = Some l1 \<and> CoRw_ReadLock me l1 = Some l2 \<and>
    (let l3 = CoRw_ReadUnlock me (CoRw_WriteUnlock l2)
     in write_depth l3 = 0 \<and> read_depth l3 = 0 \<and> CoRw_WriteLock other l3 = None \<and> CoRw_ReadLock other l3 = None)"
proof -
  have "\<not> LockOwnerId_eq me LockOwnerId_null" "LockOwnerId_eq me me"
    using assms(1) by (auto simp: LockOwnerId_eq_iff LockOwnerId_null_def LockOwnerId_IsNull_def)
  with assms(2) show ?thesis
    by (simp add: CoRw_WriteLock_def CoRw_ReadLock_def CoRw_ReadUnlock_def CoRw_WriteUnlock_def CoRwLock_new_def)
qed

theorem corwlock_lost_witness:
  "let me = LockOwnerId_null\<lparr>lo_pid := 1\<rparr>; other = LockOwnerId_null\<lparr>lo_pid := 2\<rparr>
   in \<exists>l1 l2. CoRw_WriteLock me CoRwLock_new = Some l1 \<and> CoRw_ReadLock me l1 = Some l2 \<and>
        CoRw_WriteLock other (CoRw_ReadUnlock me (CoRw_WriteUnlock l2)) = None"
proof -
  let ?me = "LockOwnerId_null\<lparr>lo_pid := 1\<rparr>" and ?other = "LockOwnerId_null\<lparr>lo_pid := 2\<rparr>"
  have "\<not> LockOwnerId_IsNull ?me" "\<not> LockOwnerId_eq ?other ?me"
    by (simp_all add: LockOwnerId_IsNull_def LockOwnerId_eq_def LockOwnerId_null_def)
  from corwlock_lost [OF this] show ?thesis unfolding Let_def by blast
qed

end
