(* ===== verification/Ring_Buffer.thy ===== *)
theory Ring_Buffer
  imports Prelude
begin

text \<open>
  The shared-memory ring buffer (ring\_buffer.h) with its four behaviours on a
  full buffer, first as sequential calls, then, for the blocking
  multi-producer variant, as an interleaving of atomic accesses.

  Entries carry the ready flag and the data. Positions are 64-bit counters; a
  call that would spin forever is \<open>None\<close>.
\<close>

section \<open>Sequential calls\<close>

datatype full_mode = WaitForSpace | ErrorOnNoSpace | DynamicSize | Overwrite

record 'a RingBufferEntry =
  ready :: bool
  entry_data :: 'a

record 'a ring_buffer =
  queue :: "'a RingBufferEntry list"
  head :: u64
  tail :: u64

definition rb_new :: "'a \<Rightarrow> nat \<Rightarrow> 'a ring_buffer" where
  "rb_new d depth = \<lparr>queue = replicate (depth + 1) \<lparr>ready = False, entry_data = d\<rparr>, head = 0, tail = 0\<rparr>"

definition rb_Size :: "'a ring_buffer \<Rightarrow> u64" where
  "rb_Size r = (if tail r \<ge> head r then tail r - head r else 0)"

definition rb_Capacity :: "'a ring_buffer \<Rightarrow> nat" where
  "rb_Capacity r = (if length (queue r) > 0 then length (queue r) - 1 else 0)"

definition rb_Empty :: "'a ring_buffer \<Rightarrow> bool" where
  "rb_Empty r \<longleftrightarrow> head r = tail r"

definition rb_Full :: "'a ring_buffer \<Rightarrow> bool" where
  "rb_Full r \<longleftrightarrow> tail r - head r = of_nat (length (queue r)) - 1"

definition rb_slot :: "'a ring_buffer \<Rightarrow> u64 \<Rightarrow> nat" where
  "rb_slot r i = unat i mod length (queue r)"

text \<open>Writing an entry: the data, then the ready flag.\<close>

definition rb_put :: "'a ring_buffer \<Rightarrow> u64 \<Rightarrow> 'a \<Rightarrow> 'a ring_buffer" where
  "rb_put r i v = r\<lparr>queue := (queue r)[rb_slot r i := \<lparr>ready = True, entry_data = v\<rparr>]\<rparr>"

definition rb_Emplace :: "full_mode \<Rightarrow> 'a \<Rightarrow> 'a ring_buffer \<Rightarrow> (bool \<times> 'a ring_buffer) option" where
  "rb_Emplace mode v r =
     (let h = head r; t = tail r; r' = r\<lparr>tail := t + 1\<rparr>;
          no_space = (t - h + 1 \<ge> of_nat (length (queue r)))
      in case mode of
           WaitForSpace \<Rightarrow> (if no_space then None else Some (True, rb_put r' t v))
         | ErrorOnNoSpace \<Rightarrow> (if no_space then Some (False, r) else Some (True, rb_put r' t v))
         | DynamicSize \<Rightarrow> (if no_space then Some (False, r') else Some (True, rb_put r' t v))
         | Overwrite \<Rightarrow> Some (True, rb_put r' t v))"

definition rb_Pop :: "'a ring_buffer \<Rightarrow> 'a option \<times> 'a ring_buffer" where
  "rb_Pop r =
     (if head r \<ge> tail r then (None, r)
      else let i = rb_slot r (head r); e = queue r ! i
           in if ready e
              then (Some (entry_data e), r\<lparr>queue := (queue r)[i := e\<lparr>ready := False\<rparr>], head := head r + 1\<rparr>)
              else (None, r))"

definition rb_Peek :: "u64 \<Rightarrow> 'a ring_buffer \<Rightarrow> 'a option" where
  "rb_Peek idx r =
     (if idx < head r \<or> idx \<ge> tail r then None
      else let e = queue r ! rb_slot r idx in if ready e then Some (entry_data e) else None)"

definition rb_Clear :: "'a ring_buffer \<Rightarrow> 'a ring_buffer" where
  "rb_Clear r = r\<lparr>head := 0, tail := 0, queue := map (\<lambda>e. e\<lparr>ready := False\<rparr>) (queue r)\<rparr>"

text \<open>
  \<^verbatim>\<open>Resize\<close>: every element moves to a fresh buffer, then only the storage of
  that buffer replaces the old one; the positions stay as they are.
\<close>

fun rb_drain :: "nat \<Rightarrow> full_mode \<Rightarrow> 'a ring_buffer \<Rightarrow> 'a ring_buffer \<Rightarrow> ('a ring_buffer \<times> 'a ring_buffer) option" where
  "rb_drain 0 mode r n = None"
| "rb_drain (Suc fuel) mode r n =
     (case rb_Pop r of
        (None, r') \<Rightarrow> Some (r', n)
      | (Some v, r') \<Rightarrow>
          (case rb_Emplace mode v n of None \<Rightarrow> None | Some (_, n') \<Rightarrow> rb_drain fuel mode r' n'))"

definition rb_Resize :: "nat \<Rightarrow> full_mode \<Rightarrow> 'a \<Rightarrow> nat \<Rightarrow> 'a ring_buffer \<Rightarrow> 'a ring_buffer option" where
  "rb_Resize fuel mode d new_depth r =
     (case rb_drain fuel mode r (rb_new d new_depth) of
        None \<Rightarrow> None
      | Some (r', n) \<Rightarrow> Some (r'\<lparr>queue := queue n\<rparr>))"

section \<open>The bounded queue\<close>

text \<open>The elements in the buffer, oldest first.\<close>

definition rb_list :: "'a ring_buffer \<Rightarrow> 'a list" where
  "rb_list r = map (\<lambda>i. entry_data (queue r ! (i mod length (queue r)))) [unat (head r)..<unat (tail r)]"

definition rb_inv :: "'a ring_buffer \<Rightarrow> bool" where
  "rb_inv r \<longleftrightarrow>
     0 < length (queue r) \<and> unat (head r) \<le> unat (tail r) \<and>
     unat (tail r) - unat (head r) < length (queue r) \<and> length (queue r) < 2 ^ 64 \<and>
     (\<forall>s < length (queue r). ready (queue r ! s) \<longleftrightarrow>
        (\<exists>i. unat (head r) \<le> i \<and> i < unat (tail r) \<and> i mod length (queue r) = s))"

text \<open>Two positions less than a round apart have different slots.\<close>

lemma slots_differ:
  fixes i j n :: nat
  assumes "i < j" and "j < i + n"
  shows "i mod n \<noteq> j mod n"
proof
  assume "i mod n = j mod n"
  then have "n dvd j - i" using mod_eq_dvd_iff_nat [of i j n] assms(1) by simp
  with assms show False using nat_dvd_not_less [of "j - i" n] by simp
qed

lemma rb_new_inv: "depth + 1 < 2 ^ 64 \<Longrightarrow> rb_inv (rb_new d depth) \<and> rb_list (rb_new d depth) = []"
  by (auto simp: rb_inv_def rb_new_def rb_list_def simp del: replicate.simps)

lemma rb_no_space:
  assumes "rb_inv r" and "tail r \<noteq> - 1"
  shows "tail r - head r + 1 \<ge> of_nat (length (queue r)) \<longleftrightarrow> length (rb_list r) = rb_Capacity r"
proof -
  have h: "unat (head r) \<le> unat (tail r)" "unat (tail r) - unat (head r) < length (queue r)" "length (queue r) < 2 ^ 64"
    using assms(1) by (auto simp: rb_inv_def)
  have d: "unat (tail r - head r) = unat (tail r) - unat (head r)" using h(1) by (simp add: unat_sub word_le_nat_alt)
  then have "unat (tail r - head r) + unat (1 :: u64) < 2 ^ LENGTH(64)" using h by simp
  then have s: "unat (tail r - head r + 1) = unat (tail r) - unat (head r) + 1"
    using d unat_add_no_overflow [of "tail r - head r" 1] by simp
  have n: "unat (of_nat (length (queue r)) :: u64) = length (queue r)" using h(3) by (simp add: unat_of_nat take_bit_eq_mod)
  show ?thesis using h s n by (auto simp: word_le_nat_alt rb_list_def rb_Capacity_def)
qed

lemma rb_put_spec:
  assumes inv: "rb_inv r" and nw: "tail r \<noteq> - 1" and room: "length (rb_list r) < rb_Capacity r"
  shows "rb_inv (rb_put (r\<lparr>tail := tail r + 1\<rparr>) (tail r) v) \<and>
    rb_list (rb_put (r\<lparr>tail := tail r + 1\<rparr>) (tail r) v) = rb_list r @ [v]"
proof -
  let ?n = "length (queue r)" and ?h = "unat (head r)" and ?t = "unat (tail r)"
  let ?q = "(queue r)[?t mod ?n := \<lparr>ready = True, entry_data = v\<rparr>]"
  have t1: "unat (tail r + 1) = Suc ?t" using nw by (rule unat_plus_one)
  have i: "0 < ?n" "?h \<le> ?t" "?t - ?h < ?n" "?n < 2 ^ 64" using inv by (auto simp: rb_inv_def)
  have c: "Suc ?t < ?h + ?n" using room i by (simp add: rb_list_def rb_Capacity_def split: if_splits)
  have ne: "j mod ?n \<noteq> ?t mod ?n" if "?h \<le> j" "j < ?t" for j
    using slots_differ [of j ?t ?n] that c by simp
  have old: "?q ! (j mod ?n) = queue r ! (j mod ?n)" if "?h \<le> j" "j < ?t" for j
    using ne [OF that] by simp
  have "ready (?q ! s) \<longleftrightarrow> (\<exists>j. ?h \<le> j \<and> j < Suc ?t \<and> j mod ?n = s)" if "s < ?n" for s
  proof (cases "s = ?t mod ?n")
    case True
    with that i show ?thesis by auto
  next
    case False
    then have "ready (?q ! s) \<longleftrightarrow> (\<exists>j. ?h \<le> j \<and> j < ?t \<and> j mod ?n = s)" using inv that by (simp add: rb_inv_def)
    with False show ?thesis by (auto simp: less_Suc_eq)
  qed
  moreover have "map (\<lambda>j. entry_data (?q ! (j mod ?n))) [?h..<Suc ?t] = rb_list r @ [v]"
    using i old by (simp add: rb_list_def)
  ultimately show ?thesis using i c t1
    by (simp add: rb_put_def rb_slot_def rb_inv_def rb_list_def)
qed

lemma rb_pop_spec:
  assumes inv: "rb_inv r"
  shows "rb_Pop r = (None, r) \<and> rb_list r = [] \<or>
    (\<exists>v r'. rb_Pop r = (Some v, r') \<and> rb_inv r' \<and> rb_list r = v # rb_list r' \<and> tail r' = tail r)"
proof (cases "head r \<ge> tail r")
  case True
  then show ?thesis by (simp add: rb_Pop_def rb_list_def word_le_nat_alt)
next
  case False
  let ?n = "length (queue r)" and ?h = "unat (head r)" and ?t = "unat (tail r)"
  let ?e = "queue r ! (?h mod ?n)"
  let ?q = "(queue r)[?h mod ?n := ?e\<lparr>ready := False\<rparr>]"
  have i: "0 < ?n" "?h < ?t" "?t - ?h < ?n" "?n < 2 ^ 64" using inv False by (auto simp: rb_inv_def word_le_nat_alt)
  have rd: "ready ?e" using inv i by (auto simp: rb_inv_def)
  have nw: "head r \<noteq> - 1"
  proof
    assume "head r = - 1"
    then have "tail r \<le> head r" by simp
    with False show False by simp
  qed
  have h1: "unat (head r + 1) = Suc ?h" using nw by (rule unat_plus_one)
  have ne: "j mod ?n \<noteq> ?h mod ?n" if "?h < j" "j < ?t" for j
    using slots_differ [of ?h j ?n] that i(3) by force
  have "ready (?q ! s) \<longleftrightarrow> (\<exists>j. Suc ?h \<le> j \<and> j < ?t \<and> j mod ?n = s)" if "s < ?n" for s
  proof (cases "s = ?h mod ?n")
    case True
    with that i ne show ?thesis by (auto simp: Suc_le_eq)
  next
    case False
    then have "ready (?q ! s) \<longleftrightarrow> (\<exists>j. ?h \<le> j \<and> j < ?t \<and> j mod ?n = s)" using inv that by (simp add: rb_inv_def)
    moreover have "(\<exists>j. ?h \<le> j \<and> j < ?t \<and> j mod ?n = s) \<longleftrightarrow> (\<exists>j. Suc ?h \<le> j \<and> j < ?t \<and> j mod ?n = s)"
      using False by (metis Suc_le_eq le_neq_implies_less less_imp_le)
    ultimately show ?thesis by blast
  qed
  moreover have "rb_list r = entry_data ?e # map (\<lambda>j. entry_data (?q ! (j mod ?n))) [Suc ?h..<?t]"
  proof -
    have "?q ! (j mod ?n) = queue r ! (j mod ?n)" if "Suc ?h \<le> j" "j < ?t" for j using ne [of j] that by simp
    then show ?thesis using i(2) by (simp add: rb_list_def upt_conv_Cons)
  qed
  ultimately show ?thesis using i rd False h1
    by (auto simp: rb_Pop_def rb_slot_def Let_def rb_inv_def rb_list_def)
qed


section \<open>Many producers, one consumer\<close>

text \<open>
  One step is one atomic access. A producer pushing \<open>v\<close> loads the head, draws a
  position, spins on the head until there is room, writes the data, and sets
  the ready flag. The consumer loads head and tail, tests the ready flag at the
  head, copies the data, clears the flag, and advances the head. Ghost state:
  \<open>hist\<close> lists the pushed values in the order of their positions, \<open>out\<close> the popped ones.
\<close>

datatype 'a ppc = PIdle | PHead 'a u64 | PClaim 'a u64 u64 | PWrite 'a u64 | PReady 'a u64

datatype 'a cpc = CIdle | CTail u64 | CTest u64 | CData u64 | CClear 'a u64 | CInc 'a

definition mp_room :: "'a ring_buffer \<Rightarrow> u64 \<Rightarrow> u64 \<Rightarrow> bool" where
  "mp_room r h t \<longleftrightarrow> \<not> t - h + 1 \<ge> of_nat (length (queue r))"

record 'a mpsc =
  ring :: "'a ring_buffer"
  prod :: "nat \<Rightarrow> 'a ppc"
  cons :: "'a cpc"
  hist :: "'a list"
  out :: "'a list"

inductive mp_step :: "'a mpsc \<Rightarrow> 'a mpsc \<Rightarrow> bool" where
  load_head: "prod s p = PIdle \<Longrightarrow> mp_step s (s\<lparr>prod := (prod s)(p := PHead v (head (ring s)))\<rparr>)"
| claim: "prod s p = PHead v h \<Longrightarrow> tail (ring s) \<noteq> - 1 \<Longrightarrow>
    mp_step s (s\<lparr>prod := (prod s)(p := PClaim v h (tail (ring s))),
      ring := (ring s)\<lparr>tail := tail (ring s) + 1\<rparr>, hist := hist s @ [v]\<rparr>)"
| room: "prod s p = PClaim v h t \<Longrightarrow> mp_room (ring s) h t \<Longrightarrow> mp_step s (s\<lparr>prod := (prod s)(p := PWrite v t)\<rparr>)"
| spin: "prod s p = PClaim v h t \<Longrightarrow> \<not> mp_room (ring s) h t \<Longrightarrow>
    mp_step s (s\<lparr>prod := (prod s)(p := PClaim v (head (ring s)) t)\<rparr>)"
| put_data: "prod s p = PWrite v t \<Longrightarrow> i = rb_slot (ring s) t \<Longrightarrow>
    mp_step s (s\<lparr>prod := (prod s)(p := PReady v t),
      ring := (ring s)\<lparr>queue := (queue (ring s))[i := (queue (ring s) ! i)\<lparr>entry_data := v\<rparr>]\<rparr>\<rparr>)"
| set_ready: "prod s p = PReady v t \<Longrightarrow> i = rb_slot (ring s) t \<Longrightarrow>
    mp_step s (s\<lparr>prod := (prod s)(p := PIdle),
      ring := (ring s)\<lparr>queue := (queue (ring s))[i := (queue (ring s) ! i)\<lparr>ready := True\<rparr>]\<rparr>\<rparr>)"
| pop_head: "cons s = CIdle \<Longrightarrow> mp_step s (s\<lparr>cons := CTail (head (ring s))\<rparr>)"
| pop_tail: "cons s = CTail h \<Longrightarrow> mp_step s (s\<lparr>cons := (if h \<ge> tail (ring s) then CIdle else CTest h)\<rparr>)"
| pop_test: "cons s = CTest h \<Longrightarrow>
    mp_step s (s\<lparr>cons := (if ready (queue (ring s) ! rb_slot (ring s) h) then CData h else CIdle)\<rparr>)"
| pop_data: "cons s = CData h \<Longrightarrow>
    mp_step s (s\<lparr>cons := CClear (entry_data (queue (ring s) ! rb_slot (ring s) h)) h\<rparr>)"
| pop_clear: "cons s = CClear v h \<Longrightarrow> i = rb_slot (ring s) h \<Longrightarrow>
    mp_step s (s\<lparr>cons := CInc v,
      ring := (ring s)\<lparr>queue := (queue (ring s))[i := (queue (ring s) ! i)\<lparr>ready := False\<rparr>]\<rparr>\<rparr>)"
| pop_inc: "cons s = CInc v \<Longrightarrow>
    mp_step s (s\<lparr>cons := CIdle, ring := (ring s)\<lparr>head := head (ring s) + 1\<rparr>, out := out s @ [v]\<rparr>)"

definition mp_init :: "'a \<Rightarrow> nat \<Rightarrow> 'a mpsc" where
  "mp_init d depth = \<lparr>ring = rb_new d depth, prod = (\<lambda>_. PIdle), cons = CIdle, hist = [], out = []\<rparr>"

inductive mp_reach :: "'a \<Rightarrow> nat \<Rightarrow> 'a mpsc \<Rightarrow> bool" for d depth where
  start: "mp_reach d depth (mp_init d depth)"
| step: "mp_reach d depth s \<Longrightarrow> mp_step s s' \<Longrightarrow> mp_reach d depth s'"

text \<open>The position a producer holds, and whether it may write there.\<close>

fun claimed :: "'a ppc \<Rightarrow> nat option" where
  "claimed (PClaim v h t) = Some (unat t)"
| "claimed (PWrite v t) = Some (unat t)"
| "claimed (PReady v t) = Some (unat t)"
| "claimed _ = None"

fun pushing :: "'a ppc \<Rightarrow> 'a option" where
  "pushing (PClaim v h t) = Some v"
| "pushing (PWrite v t) = Some v"
| "pushing (PReady v t) = Some v"
| "pushing _ = None"

text \<open>\<open>finished s i\<close>: position \<open>i\<close> is taken and no producer works on it any more.\<close>

definition finished :: "'a mpsc \<Rightarrow> nat \<Rightarrow> bool" where
  "finished s i \<longleftrightarrow> i < length (hist s) \<and> (\<forall>p. claimed (prod s p) \<noteq> Some i)"

text \<open>\<open>cleared s\<close>: the consumer has taken the entry at the head but not yet advanced.\<close>

definition cleared :: "'a mpsc \<Rightarrow> bool" where
  "cleared s = (case cons s of CInc v \<Rightarrow> True | _ \<Rightarrow> False)"

definition mp_counts :: "nat \<Rightarrow> 'a mpsc \<Rightarrow> bool" where
  "mp_counts n s \<longleftrightarrow>
     length (queue (ring s)) = n \<and> 0 < n \<and> n < 2 ^ 64 \<and>
     unat (tail (ring s)) = length (hist s) \<and> unat (head (ring s)) = length (out s) \<and>
     length (out s) \<le> length (hist s) \<and> out s = take (length (out s)) (hist s)"

definition mp_prods :: "nat \<Rightarrow> 'a mpsc \<Rightarrow> bool" where
  "mp_prods n s \<longleftrightarrow>
     (\<forall>p i. claimed (prod s p) = Some i \<longrightarrow>
        length (out s) \<le> i \<and> i < length (hist s) \<and> pushing (prod s p) = Some (hist s ! i)) \<and>
     (\<forall>p q i. claimed (prod s p) = Some i \<longrightarrow> claimed (prod s q) = Some i \<longrightarrow> p = q) \<and>
     (\<forall>p v h. prod s p = PHead v h \<longrightarrow> unat h \<le> length (out s)) \<and>
     (\<forall>p v h t. prod s p = PClaim v h t \<longrightarrow> unat h \<le> length (out s)) \<and>
     (\<forall>p v t. prod s p = PWrite v t \<or> prod s p = PReady v t \<longrightarrow> unat t + 1 < length (out s) + n)"

definition mp_slots :: "nat \<Rightarrow> 'a mpsc \<Rightarrow> bool" where
  "mp_slots n s \<longleftrightarrow>
     (\<forall>i. length (out s) \<le> i \<longrightarrow> finished s i \<longrightarrow> i + 1 < length (out s) + n \<and>
        (entry_data (queue (ring s) ! (i mod n)) = hist s ! i \<and> ready (queue (ring s) ! (i mod n))
         \<or> i = length (out s) \<and> cleared s)) \<and>
     (\<forall>k < n. ready (queue (ring s) ! k) \<longrightarrow> (\<exists>i. length (out s) \<le> i \<and> finished s i \<and> i mod n = k \<and> \<not> (i = length (out s) \<and> cleared s))) \<and>
     (\<forall>p v t. prod s p = PReady v t \<longrightarrow> entry_data (queue (ring s) ! (unat t mod n)) = v)"

definition mp_cons :: "nat \<Rightarrow> 'a mpsc \<Rightarrow> bool" where
  "mp_cons n s \<longleftrightarrow>
     (case cons s of
        CIdle \<Rightarrow> True
      | CTail h \<Rightarrow> unat h = length (out s)
      | CTest h \<Rightarrow> unat h = length (out s) \<and> length (out s) < length (hist s)
      | CData h \<Rightarrow> unat h = length (out s) \<and> finished s (length (out s))
      | CClear v h \<Rightarrow> unat h = length (out s) \<and> finished s (length (out s)) \<and> v = hist s ! length (out s)
      | CInc v \<Rightarrow> finished s (length (out s)) \<and> v = hist s ! length (out s))"

definition mp_inv :: "nat \<Rightarrow> 'a mpsc \<Rightarrow> bool" where
  "mp_inv n s \<longleftrightarrow> mp_counts n s \<and> mp_prods n s \<and> mp_slots n s \<and> mp_cons n s"


lemma mp_prodsD:
  assumes "mp_inv n s"
  shows "claimed (prod s p) = Some i \<Longrightarrow> length (out s) \<le> i \<and> i < length (hist s) \<and> pushing (prod s p) = Some (hist s ! i)"
    and "claimed (prod s p) = Some i \<Longrightarrow> claimed (prod s q) = Some i \<Longrightarrow> p = q"
    and "prod s p = PHead v h \<Longrightarrow> unat h \<le> length (out s)"
    and "prod s p = PClaim v h t \<Longrightarrow> unat h \<le> length (out s)"
    and "prod s p = PWrite v t \<or> prod s p = PReady v t \<Longrightarrow> unat t + 1 < length (out s) + n"
  using assms unfolding mp_inv_def mp_prods_def by blast+

lemma mp_prodsI:
  assumes "\<And>p i. claimed (prod s p) = Some i \<Longrightarrow>
      length (out s) \<le> i \<and> i < length (hist s) \<and> pushing (prod s p) = Some (hist s ! i)"
    and "\<And>p q i. claimed (prod s p) = Some i \<Longrightarrow> claimed (prod s q) = Some i \<Longrightarrow> p = q"
    and "\<And>p v h. prod s p = PHead v h \<Longrightarrow> unat h \<le> length (out s)"
    and "\<And>p v h t. prod s p = PClaim v h t \<Longrightarrow> unat h \<le> length (out s)"
    and "\<And>p v t. prod s p = PWrite v t \<or> prod s p = PReady v t \<Longrightarrow> unat t + 1 < length (out s) + n"
  shows "mp_prods n s"
  using assms unfolding mp_prods_def by blast

lemma mp_slotsD:
  assumes "mp_inv n s"
  shows "length (out s) \<le> i \<Longrightarrow> finished s i \<Longrightarrow> i + 1 < length (out s) + n \<and>
        (entry_data (queue (ring s) ! (i mod n)) = hist s ! i \<and> ready (queue (ring s) ! (i mod n))
         \<or> i = length (out s) \<and> cleared s)"
    and "k < n \<Longrightarrow> ready (queue (ring s) ! k) \<Longrightarrow>
        \<exists>i. length (out s) \<le> i \<and> finished s i \<and> i mod n = k \<and> \<not> (i = length (out s) \<and> cleared s)"
    and "prod s p = PReady v t \<Longrightarrow> entry_data (queue (ring s) ! (unat t mod n)) = v"
  using assms unfolding mp_inv_def mp_slots_def by blast+

lemma mp_slotsI:
  assumes "\<And>i. length (out s) \<le> i \<Longrightarrow> finished s i \<Longrightarrow> i + 1 < length (out s) + n \<and>
        (entry_data (queue (ring s) ! (i mod n)) = hist s ! i \<and> ready (queue (ring s) ! (i mod n))
         \<or> i = length (out s) \<and> cleared s)"
    and "\<And>k. k < n \<Longrightarrow> ready (queue (ring s) ! k) \<Longrightarrow>
        \<exists>i. length (out s) \<le> i \<and> finished s i \<and> i mod n = k \<and> \<not> (i = length (out s) \<and> cleared s)"
    and "\<And>p v t. prod s p = PReady v t \<Longrightarrow> entry_data (queue (ring s) ! (unat t mod n)) = v"
  shows "mp_slots n s"
  unfolding mp_slots_def by (intro conjI allI impI) (use assms in \<open>simp_all only:\<close>)

lemma finished_cong:
  assumes "length (hist s') = length (hist s)" and "\<And>p. claimed (prod s' p) = claimed (prod s p)"
  shows "finished s' i = finished s i"
  using assms by (simp add: finished_def)

lemma claimed_upd: "claimed pc = claimed (f p) \<Longrightarrow> claimed ((f(p := pc)) q) = claimed (f q)"
  by simp

text \<open>Steps that touch neither the entries nor the history.\<close>

lemma mp_inv_local_prod:
  assumes inv: "mp_inv n s" and s': "s' = s\<lparr>prod := (prod s)(p := pc)\<rparr>"
    and pc: "claimed pc = claimed (prod s p)" "pushing pc = pushing (prod s p)"
    and h: "\<And>v h. pc = PHead v h \<Longrightarrow> unat h \<le> length (out s)" "\<And>v h t. pc = PClaim v h t \<Longrightarrow> unat h \<le> length (out s)"
    and w: "\<And>v t. pc = PWrite v t \<Longrightarrow> unat t + 1 < length (out s) + n" and r: "\<And>v t. pc \<noteq> PReady v t"
  shows "mp_inv n s'"
proof -
  have cl: "claimed (prod s' q) = claimed (prod s q)" for q using pc(1) by (simp add: s')
  have f: "finished s' i = finished s i" for i by (rule finished_cong) (simp add: s', rule cl)
  have pu: "pushing (prod s' q) = pushing (prod s q)" for q using pc(2) by (simp add: s')
  have e: "hist s' = hist s" "out s' = out s" "ring s' = ring s" "cons s' = cons s" "cleared s' = cleared s"
    by (simp_all add: s' cleared_def)
  have "mp_counts n s'" using inv unfolding mp_inv_def mp_counts_def e by blast
  moreover have "mp_prods n s'"
  proof -
    have "\<forall>q v h. prod s' q = PHead v h \<longrightarrow> unat h \<le> length (out s)"
        "\<forall>q v h t. prod s' q = PClaim v h t \<longrightarrow> unat h \<le> length (out s)"
        "\<forall>q v t. prod s' q = PWrite v t \<or> prod s' q = PReady v t \<longrightarrow> unat t + 1 < length (out s) + n"
      using inv h w r by (auto simp: mp_inv_def mp_prods_def s')
    then show ?thesis using inv unfolding mp_inv_def mp_prods_def cl pu e by blast
  qed
  moreover have "mp_slots n s'"
  proof -
    have "\<forall>q v t. prod s' q = PReady v t \<longrightarrow> entry_data (queue (ring s) ! (unat t mod n)) = v"
      using inv r by (auto simp: mp_inv_def mp_slots_def s')
    then show ?thesis using inv unfolding mp_inv_def mp_slots_def f e by blast
  qed
  moreover have "mp_cons n s'" using inv unfolding mp_inv_def mp_cons_def f e by blast
  ultimately show ?thesis by (simp add: mp_inv_def)
qed

lemma mp_inv_local_cons:
  assumes inv: "mp_inv n s" and s': "s' = s\<lparr>cons := c\<rparr>" and "\<not> cleared s" and "\<not> cleared s'" and "mp_cons n s'"
  shows "mp_inv n s'"
proof -
  have f: "finished s' i = finished s i" for i by (simp add: finished_def s')
  have e: "hist s' = hist s" "out s' = out s" "ring s' = ring s" "prod s' = prod s" "cleared s' = cleared s"
    using assms(3,4) by (simp_all add: s')
  show ?thesis using inv assms(5) unfolding mp_inv_def mp_counts_def mp_prods_def mp_slots_def f e by blast
qed

lemma window_inj:
  fixes i j :: nat
  assumes "o0 \<le> i" "i < o0 + n" "o0 \<le> j" "j < o0 + n" "i mod n = j mod n"
  shows "i = j"
proof (rule ccontr)
  assume "i \<noteq> j"
  then show False using slots_differ [of i j n] slots_differ [of j i n] assms by (cases "i < j") auto
qed

lemma mp_inv_claim:
  assumes inv: "mp_inv n s" and p: "prod s p = PHead v h" and nw: "tail (ring s) \<noteq> - 1"
    and s': "s' = s\<lparr>prod := (prod s)(p := PClaim v h (tail (ring s))),
      ring := (ring s)\<lparr>tail := tail (ring s) + 1\<rparr>, hist := hist s @ [v]\<rparr>"
  shows "mp_inv n s'"
proof -
  have t: "unat (tail (ring s)) = length (hist s)" "length (out s) \<le> length (hist s)"
    using inv by (simp_all add: mp_inv_def mp_counts_def)
  have t1: "unat (tail (ring s) + 1) = Suc (length (hist s))" using unat_plus_one [OF nw] t by simp
  have lt: "\<And>q i. claimed (prod s q) = Some i \<Longrightarrow> i < length (hist s)" using inv by (simp add: mp_inv_def mp_prods_def)
  have cp: "claimed (prod s p) = None" using p by simp
  have f: "finished s' i = finished s i" for i
  proof (cases "i = length (hist s)")
    case True
    then have "claimed (prod s' p) = Some i" using t by (simp add: s')
    with True show ?thesis by (auto simp: finished_def)
  next
    case False
    then have "claimed (prod s' q) = Some i \<longleftrightarrow> claimed (prod s q) = Some i" for q using cp t by (cases "q = p") (auto simp: s')
    with False show ?thesis by (auto simp: finished_def s' less_Suc_eq)
  qed
  have e: "out s' = out s" "cons s' = cons s" "queue (ring s') = queue (ring s)" "cleared s' = cleared s" "hist s' = hist s @ [v]"
    by (simp_all add: s' cleared_def)
  have fh: "(hist s @ [v]) ! i = hist s ! i" if "finished s i" for i using that by (simp add: finished_def nth_append)
  have "mp_counts n s'" using inv t1 by (simp add: mp_inv_def mp_counts_def s')
  moreover have "mp_prods n s'"
  proof (rule mp_prodsI)
    have old: "claimed (prod s q) = Some i" if "q \<noteq> p" "claimed (prod s' q) = Some i" for q i using that by (simp add: s')
    have new: "i = length (hist s)" if "claimed (prod s' p) = Some i" for i using that t by (simp add: s')
    show "length (out s') \<le> i \<and> i < length (hist s') \<and> pushing (prod s' q) = Some (hist s' ! i)"
      if "claimed (prod s' q) = Some i" for q i
    proof (cases "q = p")
      case True
      with new that t show ?thesis by (auto simp: s')
    next
      case False
      from mp_prodsD(1) [OF inv old [OF False that]] False show ?thesis by (simp add: s' nth_append)
    qed
    show "q = r" if "claimed (prod s' q) = Some i" "claimed (prod s' r) = Some i" for q r i
      using that old new lt [of q i] lt [of r i] mp_prodsD(2) [OF inv, of q i r]
      by (cases "q = p"; cases "r = p") auto
    show "unat g \<le> length (out s')" if "prod s' q = PHead w g" for q w g
      using that mp_prodsD(3) [OF inv, of q w g] by (cases "q = p") (simp_all add: s')
    show "unat g \<le> length (out s')" if "prod s' q = PClaim w g u" for q w g u
      using that mp_prodsD(3) [OF inv p] mp_prodsD(4) [OF inv, of q w g u] by (cases "q = p") (simp_all add: s')
    show "unat u + 1 < length (out s') + n" if "prod s' q = PWrite w u \<or> prod s' q = PReady w u" for q w u
      using that mp_prodsD(5) [OF inv, of q w u] by (cases "q = p") (simp_all add: s')
  qed
  moreover have "mp_slots n s'"
  proof (rule mp_slotsI, unfold f e)
    show "i + 1 < length (out s) + n \<and> (entry_data (queue (ring s) ! (i mod n)) = (hist s @ [v]) ! i \<and>
        ready (queue (ring s) ! (i mod n)) \<or> i = length (out s) \<and> cleared s)" if "length (out s) \<le> i" "finished s i" for i
      using mp_slotsD(1) [OF inv that] fh [OF that(2)] by simp
    show "\<exists>i\<ge>length (out s). finished s i \<and> i mod n = k \<and> \<not> (i = length (out s) \<and> cleared s)"
      if "k < n" "ready (queue (ring s) ! k)" for k by (rule mp_slotsD(2) [OF inv that])
    show "entry_data (queue (ring s) ! (unat u mod n)) = w" if "prod s' q = PReady w u" for q w u
      using that mp_slotsD(3) [OF inv, of q w u] by (cases "q = p") (simp_all add: s')
  qed
  moreover have "mp_cons n s'"
  proof -
    have "mp_cons n s" using inv by (simp add: mp_inv_def)
    then show ?thesis using fh unfolding mp_cons_def f e by (cases "cons s") auto
  qed
  ultimately show ?thesis by (simp add: mp_inv_def)
qed


text \<open>A pending position lies in the window, so no finished position shares its slot.\<close>

lemma mp_pending_slot:
  assumes inv: "mp_inv n s" and p: "prod s p = PWrite v t \<or> prod s p = PReady v t"
  shows "unat t mod n < n" and "\<not> ready (queue (ring s) ! (unat t mod n))"
    and "\<And>i. length (out s) \<le> i \<Longrightarrow> finished s i \<Longrightarrow> i mod n \<noteq> unat t mod n"
    and "\<And>q w u. prod s q = PReady w u \<Longrightarrow> q \<noteq> p \<Longrightarrow> unat u mod n \<noteq> unat t mod n"
proof -
  have n: "0 < n" using inv by (simp add: mp_inv_def mp_counts_def)
  then show lt: "unat t mod n < n" by simp
  have cl: "claimed (prod s p) = Some (unat t)" using p by auto
  have b: "length (out s) \<le> unat t" "unat t + 1 < length (out s) + n"
    using inv p cl unfolding mp_inv_def mp_prods_def by blast+
  show ns: "i mod n \<noteq> unat t mod n" if i: "length (out s) \<le> i" "finished s i" for i
  proof
    assume e: "i mod n = unat t mod n"
    have "i + 1 < length (out s) + n" using inv i unfolding mp_inv_def mp_slots_def by blast
    with e i b have "i = unat t" by (intro window_inj [of "length (out s)" i n "unat t"]) auto
    with i(2) cl show False by (auto simp: finished_def)
  qed
  show "\<not> ready (queue (ring s) ! (unat t mod n))"
  proof
    assume "ready (queue (ring s) ! (unat t mod n))"
    then obtain i where "length (out s) \<le> i" "finished s i" "i mod n = unat t mod n"
      using inv lt unfolding mp_inv_def mp_slots_def by blast
    with ns show False by blast
  qed
  show "unat u mod n \<noteq> unat t mod n" if q: "prod s q = PReady w u" "q \<noteq> p" for q w u
  proof
    assume e: "unat u mod n = unat t mod n"
    have cq: "claimed (prod s q) = Some (unat u)" using q by simp
    have "length (out s) \<le> unat u" "unat u + 1 < length (out s) + n"
      using inv q cq unfolding mp_inv_def mp_prods_def by blast+
    with e b have "unat u = unat t" by (intro window_inj [of "length (out s)" "unat u" n "unat t"]) auto
    then show False using inv cl cq q(2) unfolding mp_inv_def mp_prods_def by metis
  qed
qed

lemma mp_inv_write:
  assumes inv: "mp_inv n s" and p: "prod s p = PWrite v t" and i: "i = rb_slot (ring s) t"
    and s': "s' = s\<lparr>prod := (prod s)(p := PReady v t),
      ring := (ring s)\<lparr>queue := (queue (ring s))[i := (queue (ring s) ! i)\<lparr>entry_data := v\<rparr>]\<rparr>\<rparr>"
  shows "mp_inv n s'"
proof -
  have n: "length (queue (ring s)) = n" using inv by (simp add: mp_inv_def mp_counts_def)
  have ii: "i = unat t mod n" using i n by (simp add: rb_slot_def)
  note ps = mp_pending_slot [OF inv disjI1 [OF p]]
  have cl: "claimed (prod s' q) = claimed (prod s q)" for q using p by (simp add: s')
  have pu: "pushing (prod s' q) = pushing (prod s q)" for q using p by (simp add: s')
  have f: "finished s' j = finished s j" for j by (rule finished_cong) (simp add: s', rule cl)
  have e: "hist s' = hist s" "out s' = out s" "cons s' = cons s" "cleared s' = cleared s"
    by (simp_all add: s' cleared_def)
  have rd: "ready (queue (ring s') ! k) = ready (queue (ring s) ! k)" for k
    using ps(1) n ii by (cases "k = i") (simp_all add: s')
  have dt: "k \<noteq> i \<Longrightarrow> queue (ring s') ! k = queue (ring s) ! k" for k by (simp add: s')
  have di: "entry_data (queue (ring s') ! i) = v" using ps(1) n ii by (simp add: s')
  have "mp_counts n s'" using inv by (simp add: mp_inv_def mp_counts_def s')
  moreover have "mp_prods n s'"
  proof -
    have "\<forall>q w h. prod s' q = PHead w h \<longrightarrow> unat h \<le> length (out s)"
        "\<forall>q w h u. prod s' q = PClaim w h u \<longrightarrow> unat h \<le> length (out s)"
        "\<forall>q w u. prod s' q = PWrite w u \<or> prod s' q = PReady w u \<longrightarrow> unat u + 1 < length (out s) + n"
      using inv p by (auto simp: mp_inv_def mp_prods_def s')
    then show ?thesis using inv unfolding mp_inv_def mp_prods_def cl pu e by blast
  qed
  moreover have "mp_slots n s'"
  proof -
    have "entry_data (queue (ring s') ! (j mod n)) = entry_data (queue (ring s) ! (j mod n))"
      if "length (out s) \<le> j" "finished s j" for j using ps(3) [OF that] dt ii by simp
    moreover have "entry_data (queue (ring s') ! (unat u mod n)) = w" if "prod s' q = PReady w u" for q w u
      using that di ps(4) [of q w u] dt [of "unat u mod n"] inv ii
      by (cases "q = p") (auto simp: s' mp_inv_def mp_slots_def)
    ultimately show ?thesis using inv unfolding mp_inv_def mp_slots_def f e rd by auto
  qed
  moreover have "mp_cons n s'" using inv unfolding mp_inv_def mp_cons_def f e by blast
  ultimately show ?thesis by (simp add: mp_inv_def)
qed

lemma mp_inv_set_ready:
  assumes inv: "mp_inv n s" and p: "prod s p = PReady v t" and i: "i = rb_slot (ring s) t"
    and s': "s' = s\<lparr>prod := (prod s)(p := PIdle),
      ring := (ring s)\<lparr>queue := (queue (ring s))[i := (queue (ring s) ! i)\<lparr>ready := True\<rparr>]\<rparr>\<rparr>"
  shows "mp_inv n s'"
proof -
  have n: "length (queue (ring s)) = n" using inv by (simp add: mp_inv_def mp_counts_def)
  have ii: "i = unat t mod n" using i n by (simp add: rb_slot_def)
  note ps = mp_pending_slot [OF inv disjI2 [OF p]]
  have cp: "claimed (prod s p) = Some (unat t)" using p by simp
  have b: "length (out s) \<le> unat t" "unat t < length (hist s)" "v = hist s ! unat t" "unat t + 1 < length (out s) + n"
    using mp_prodsD(1) [OF inv cp] mp_prodsD(5) [OF inv, of p v t] p by simp_all
  have u: "claimed (prod s q) = Some (unat t) \<Longrightarrow> q = p" for q using mp_prodsD(2) [OF inv _ cp] by blast
  have f: "finished s' j \<longleftrightarrow> finished s j \<or> j = unat t" for j
  proof (cases "j = unat t")
    case True
    have "claimed (prod s' q) \<noteq> Some j" for q using u [of q] True by (cases "q = p") (auto simp: s')
    then show ?thesis using True b(2) by (simp add: finished_def s')
  next
    case False
    then have "claimed (prod s' q) = Some j \<longleftrightarrow> claimed (prod s q) = Some j" for q using cp by (cases "q = p") (auto simp: s')
    with False show ?thesis by (simp add: finished_def s')
  qed
  have e: "hist s' = hist s" "out s' = out s" "cons s' = cons s" "cleared s' = cleared s"
    by (simp_all add: s' cleared_def)
  have dt: "entry_data (queue (ring s') ! k) = entry_data (queue (ring s) ! k)" for k
    using ps(1) n ii by (cases "k = i") (simp_all add: s')
  have rd: "k < n \<Longrightarrow> ready (queue (ring s') ! k) \<longleftrightarrow> k = i \<or> ready (queue (ring s) ! k)" for k
    using n by (cases "k = i") (auto simp: s')
  have di: "entry_data (queue (ring s) ! i) = v" using inv p ii unfolding mp_inv_def mp_slots_def by blast
  have cl: "claimed (prod s' q) = Some j \<Longrightarrow> claimed (prod s q) = Some j \<and> pushing (prod s' q) = pushing (prod s q)" for q j
    by (auto simp: s' split: if_splits)
  have "mp_counts n s'" using inv by (simp add: mp_inv_def mp_counts_def s')
  moreover have "mp_prods n s'"
  proof (rule mp_prodsI, unfold e)
    show "length (out s) \<le> j \<and> j < length (hist s) \<and> pushing (prod s' q) = Some (hist s ! j)"
      if "claimed (prod s' q) = Some j" for q j
      using cl [OF that] mp_prodsD(1) [OF inv, of q j] by simp
    show "q = r" if "claimed (prod s' q) = Some j" "claimed (prod s' r) = Some j" for q r j
      using cl [OF that(1)] cl [OF that(2)] mp_prodsD(2) [OF inv] by blast
    show "unat g \<le> length (out s)" if "prod s' q = PHead w g" for q w g
      using that mp_prodsD(3) [OF inv, of q w g] by (cases "q = p") (simp_all add: s')
    show "unat g \<le> length (out s)" if "prod s' q = PClaim w g u" for q w g u
      using that mp_prodsD(4) [OF inv, of q w g u] by (cases "q = p") (simp_all add: s')
    show "unat u + 1 < length (out s) + n" if "prod s' q = PWrite w u \<or> prod s' q = PReady w u" for q w u
      using that mp_prodsD(5) [OF inv, of q w u] by (cases "q = p") (simp_all add: s')
  qed
  moreover have "mp_slots n s'"
  proof -
    have "0 < n" using inv by (simp add: mp_inv_def mp_counts_def)
    then have lt: "j mod n < n" for j by simp
    have a: "\<not> (unat t = length (out s) \<and> cleared s)"
      using inv cp by (auto simp: mp_inv_def mp_cons_def cleared_def finished_def split: cpc.splits)
    have c1: "j + 1 < length (out s) + n \<and> (entry_data (queue (ring s') ! (j mod n)) = hist s ! j \<and> ready (queue (ring s') ! (j mod n))
        \<or> j = length (out s) \<and> cleared s)" if "length (out s) \<le> j" "finished s' j" for j
    proof (cases "j = unat t")
      case True
      then show ?thesis using b di ii rd [OF lt] dt by simp
    next
      case False
      then have "finished s j" using that f by blast
      from mp_slotsD(1) [OF inv that(1) this] rd [OF lt] dt show ?thesis by auto
    qed
    have c2: "\<exists>j. length (out s) \<le> j \<and> finished s' j \<and> j mod n = k \<and> \<not> (j = length (out s) \<and> cleared s)"
      if "k < n" "ready (queue (ring s') ! k)" for k
    proof (cases "k = i")
      case True
      then show ?thesis using f b(1) ii a by blast
    next
      case False
      with that rd have "ready (queue (ring s) ! k)" by blast
      from mp_slotsD(2) [OF inv that(1) this] f show ?thesis by blast
    qed
    have c3: "entry_data (queue (ring s') ! (unat u mod n)) = w" if "prod s' q = PReady w u" for q w u
      using that mp_slotsD(3) [OF inv, of q w u] unfolding dt by (cases "q = p") (simp_all add: s')
    show ?thesis by (rule mp_slotsI, unfold e) (fact c1 c2 c3)+
  qed
  moreover have "mp_cons n s'"
  proof -
    have "mp_cons n s" using inv by (simp add: mp_inv_def)
    then show ?thesis using f unfolding mp_cons_def e by (cases "cons s") auto
  qed
  ultimately show ?thesis by (simp add: mp_inv_def)
qed


lemma mp_inv_pop_clear:
  assumes inv: "mp_inv n s" and c: "cons s = CClear v h" and i: "i = rb_slot (ring s) h"
    and s': "s' = s\<lparr>cons := CInc v,
      ring := (ring s)\<lparr>queue := (queue (ring s))[i := (queue (ring s) ! i)\<lparr>ready := False\<rparr>]\<rparr>\<rparr>"
  shows "mp_inv n s'"
proof -
  have n: "length (queue (ring s)) = n" "0 < n" using inv by (simp_all add: mp_inv_def mp_counts_def)
  have h: "unat h = length (out s)" "finished s (length (out s))" "v = hist s ! length (out s)"
    using inv c by (simp_all add: mp_inv_def mp_cons_def)
  have ii: "i = length (out s) mod n" "i < n" using i n h by (simp_all add: rb_slot_def)
  have f: "finished s' j = finished s j" for j by (simp add: finished_def s')
  have e: "hist s' = hist s" "out s' = out s" "prod s' = prod s" "cleared s'" "\<not> cleared s"
    by (simp_all add: s' cleared_def c)
  have dt: "entry_data (queue (ring s') ! k) = entry_data (queue (ring s) ! k)" for k
    using ii n by (cases "k = i") (simp_all add: s')
  have rd: "ready (queue (ring s') ! k) \<longleftrightarrow> k \<noteq> i \<and> ready (queue (ring s) ! k)" if "k < n" for k
    using ii n that by (cases "k = i") (simp_all add: s')
  have "mp_counts n s'" using inv by (simp add: mp_inv_def mp_counts_def s')
  moreover have "mp_prods n s'" using inv by (simp add: mp_inv_def mp_prods_def e)
  moreover have "mp_slots n s'"
  proof (rule mp_slotsI, unfold f e(1-3) dt)
    show "j + 1 < length (out s) + n \<and> (entry_data (queue (ring s) ! (j mod n)) = hist s ! j \<and>
        ready (queue (ring s') ! (j mod n)) \<or> j = length (out s) \<and> cleared s')" if j: "length (out s) \<le> j" "finished s j" for j
    proof (cases "j = length (out s)")
      case True
      with mp_slotsD(1) [OF inv j] e(4) show ?thesis by simp
    next
      case False
      note sd = mp_slotsD(1) [OF inv j]
      have "j mod n \<noteq> i" using slots_differ [of "length (out s)" j n] j(1) False sd ii(1) by force
      with sd rd [of "j mod n"] n False e(5) show ?thesis by simp
    qed
    show "\<exists>j\<ge>length (out s). finished s j \<and> j mod n = k \<and> \<not> (j = length (out s) \<and> cleared s')"
      if k: "k < n" "ready (queue (ring s') ! k)" for k
    proof -
      have "k \<noteq> i" "ready (queue (ring s) ! k)" using rd k by auto
      with mp_slotsD(2) [OF inv k(1)] ii(1) show ?thesis by metis
    qed
    show "entry_data (queue (ring s) ! (unat u mod n)) = w" if "prod s q = PReady w u" for q w u
      by (rule mp_slotsD(3) [OF inv that])
  qed
  moreover have "mp_cons n s'" using h by (simp add: mp_cons_def s' finished_def)
  ultimately show ?thesis by (simp add: mp_inv_def)
qed

lemma mp_inv_pop_inc:
  assumes inv: "mp_inv n s" and c: "cons s = CInc v"
    and s': "s' = s\<lparr>cons := CIdle, ring := (ring s)\<lparr>head := head (ring s) + 1\<rparr>, out := out s @ [v]\<rparr>"
  shows "mp_inv n s'"
proof -
  let ?o = "length (out s)"
  have h: "finished s ?o" "v = hist s ! ?o" using inv c by (simp_all add: mp_inv_def mp_cons_def)
  have lt: "?o < length (hist s)" using h by (simp add: finished_def)
  have cnt: "unat (head (ring s)) = ?o" "unat (tail (ring s)) = length (hist s)" "out s = take ?o (hist s)"
    using inv by (simp_all add: mp_inv_def mp_counts_def)
  have nw: "head (ring s) \<noteq> - 1"
  proof
    assume "head (ring s) = - 1"
    then have "tail (ring s) \<le> head (ring s)" by simp
    then show False using cnt lt by (simp add: word_le_nat_alt)
  qed
  have f: "finished s' j = finished s j" for j by (simp add: finished_def s')
  have e: "hist s' = hist s" "prod s' = prod s" "queue (ring s') = queue (ring s)" "\<not> cleared s'" "cleared s" "length (out s') = Suc ?o"
    by (simp_all add: s' cleared_def c)
  have cl: "claimed (prod s q) \<noteq> Some ?o" for q using h(1) by (simp add: finished_def)
  have "mp_counts n s'"
  proof -
    have "out s @ [v] = take (Suc ?o) (hist s)" using cnt(3) h(2) lt by (simp add: take_Suc_conv_app_nth)
    then show ?thesis using inv unat_plus_one [OF nw] lt by (simp add: mp_inv_def mp_counts_def s')
  qed
  moreover have "mp_prods n s'"
  proof (rule mp_prodsI, unfold e(1,2,3,6))
    show "Suc ?o \<le> j \<and> j < length (hist s) \<and> pushing (prod s q) = Some (hist s ! j)" if "claimed (prod s q) = Some j" for q j
      using mp_prodsD(1) [OF inv that] cl [of q] that by (auto simp: Suc_le_eq le_less)
    show "q = r" if "claimed (prod s q) = Some j" "claimed (prod s r) = Some j" for q r j
      by (rule mp_prodsD(2) [OF inv that])
    show "unat g \<le> Suc ?o" if "prod s q = PHead w g" for q w g using mp_prodsD(3) [OF inv that] by simp
    show "unat g \<le> Suc ?o" if "prod s q = PClaim w g u" for q w g u using mp_prodsD(4) [OF inv that] by simp
    show "unat u + 1 < Suc ?o + n" if "prod s q = PWrite w u \<or> prod s q = PReady w u" for q w u
      using mp_prodsD(5) [OF inv that] by simp
  qed
  moreover have "mp_slots n s'"
  proof (rule mp_slotsI, unfold f e(1,2,3,6))
    show "j + 1 < Suc ?o + n \<and> (entry_data (queue (ring s) ! (j mod n)) = hist s ! j \<and> ready (queue (ring s) ! (j mod n)) \<or>
        j = Suc ?o \<and> cleared s')" if "Suc ?o \<le> j" "finished s j" for j
      using mp_slotsD(1) [OF inv, of j] that by auto
    show "\<exists>j\<ge>Suc ?o. finished s j \<and> j mod n = k \<and> \<not> (j = Suc ?o \<and> cleared s')" if "k < n" "ready (queue (ring s) ! k)" for k
    proof -
      from mp_slotsD(2) [OF inv that] e(5) obtain j where "?o \<le> j" "finished s j" "j mod n = k" "j \<noteq> ?o" by blast
      then show ?thesis using e(4) by (intro exI [of _ j]) (auto simp: Suc_le_eq)
    qed
    show "entry_data (queue (ring s) ! (unat u mod n)) = w" if "prod s q = PReady w u" for q w u
      by (rule mp_slotsD(3) [OF inv that])
  qed
  moreover have "mp_cons n s'" by (simp add: mp_cons_def s')
  ultimately show ?thesis by (simp add: mp_inv_def)
qed

lemma mp_room_bound:
  assumes inv: "mp_inv n s" and p: "prod s p = PClaim v h t" and room: "mp_room (ring s) h t"
  shows "unat t + 1 < length (out s) + n"
proof -
  have b: "length (out s) \<le> unat t" "unat h \<le> length (out s)"
    using mp_prodsD(1) [OF inv, of p "unat t"] mp_prodsD(4) [OF inv p] p by simp_all
  have n: "length (queue (ring s)) = n" "n < 2 ^ 64" using inv by (simp_all add: mp_inv_def mp_counts_def)
  have u: "unat (of_nat n :: u64) = n" using n(2) by (simp add: unat_of_nat take_bit_eq_mod)
  have d: "unat (t - h) = unat t - unat h" using b by (simp add: unat_sub word_le_nat_alt)
  have lt: "t - h + 1 < of_nat n" using room n(1) by (simp add: mp_room_def)
  have "unat t < unat (tail (ring s))"
    using mp_prodsD(1) [OF inv, of p "unat t"] p inv by (simp add: mp_inv_def mp_counts_def)
  then have m: "unat t < 18446744073709551615" using unat_less_2p64 [of "tail (ring s)"] by linarith
  have "t - h \<noteq> - 1"
  proof
    assume "t - h = - 1"
    then have "unat t - unat h = 18446744073709551615" using d by (simp add: unat_max64)
    with m show False by linarith
  qed
  from unat_plus_one [OF this] lt u have "unat (t - h) + 1 < n" by (simp add: word_less_nat_alt)
  with d b show ?thesis by linarith
qed


lemma mp_inv_step:
  assumes inv: "mp_inv n s" and "mp_step s s'"
  shows "mp_inv n s'"
  using assms(2)
proof (cases rule: mp_step.cases)
  case (load_head p v)
  have "unat (head (ring s)) = length (out s)" using inv by (simp add: mp_inv_def mp_counts_def)
  with load_head show ?thesis by (intro mp_inv_local_prod [OF inv load_head(1)]) auto
next
  case (claim p v h)
  then show ?thesis by (intro mp_inv_claim [OF inv])
next
  case (room p v h t)
  with mp_room_bound [OF inv room(2,3)] show ?thesis by (intro mp_inv_local_prod [OF inv room(1)]) auto
next
  case (spin p v h t)
  have "unat (head (ring s)) = length (out s)" using inv by (simp add: mp_inv_def mp_counts_def)
  with spin show ?thesis by (intro mp_inv_local_prod [OF inv spin(1)]) auto
next
  case (put_data p v t i)
  then show ?thesis by (intro mp_inv_write [OF inv])
next
  case (set_ready p v t i)
  then show ?thesis by (intro mp_inv_set_ready [OF inv])
next
  case pop_head
  then show ?thesis using inv
    by (intro mp_inv_local_cons [OF inv pop_head(1)]) (simp_all add: cleared_def mp_cons_def mp_inv_def mp_counts_def)
next
  case (pop_tail h)
  have "mp_cons n s'"
    using inv pop_tail by (simp add: mp_cons_def mp_inv_def mp_counts_def word_le_nat_alt)
  with pop_tail show ?thesis by (intro mp_inv_local_cons [OF inv pop_tail(1)]) (simp_all add: cleared_def)
next
  case (pop_test h)
  have n: "length (queue (ring s)) = n" "0 < n" using inv by (simp_all add: mp_inv_def mp_counts_def)
  have h: "unat h = length (out s)" using inv pop_test by (simp add: mp_inv_def mp_cons_def)
  have "finished s (length (out s))" if "ready (queue (ring s) ! (length (out s) mod n))"
  proof -
    from mp_slotsD(2) [OF inv _ that] n obtain j where j: "length (out s) \<le> j" "finished s j" "j mod n = length (out s) mod n"
      by auto
    from mp_slotsD(1) [OF inv j(1,2)] have "j + 1 < length (out s) + n" by blast
    with j n have "j = length (out s)" by (intro window_inj [of "length (out s)" j n]) auto
    with j show ?thesis by simp
  qed
  then have "mp_cons n s'" using h n pop_test by (simp add: mp_cons_def rb_slot_def finished_def)
  with pop_test show ?thesis by (intro mp_inv_local_cons [OF inv pop_test(1)]) (simp_all add: cleared_def)
next
  case (pop_data h)
  have n: "length (queue (ring s)) = n" using inv by (simp add: mp_inv_def mp_counts_def)
  have h: "unat h = length (out s)" "finished s (length (out s))" using inv pop_data by (simp_all add: mp_inv_def mp_cons_def)
  have "entry_data (queue (ring s) ! (length (out s) mod n)) = hist s ! length (out s)"
    using mp_slotsD(1) [OF inv _ h(2)] pop_data(2) by (simp add: cleared_def)
  then have "mp_cons n s'" using h n pop_data by (simp add: mp_cons_def rb_slot_def finished_def)
  with pop_data show ?thesis by (intro mp_inv_local_cons [OF inv pop_data(1)]) (simp_all add: cleared_def)
next
  case (pop_clear v h i)
  then show ?thesis by (intro mp_inv_pop_clear [OF inv])
next
  case (pop_inc v)
  then show ?thesis by (intro mp_inv_pop_inc [OF inv])
qed

lemma mp_reach_inv:
  assumes "mp_reach d depth s" and "depth + 1 < 2 ^ 64"
  shows "mp_inv (depth + 1) s"
  using assms(1)
proof (induction rule: mp_reach.induct)
  case start
  show ?case using assms(2)
    by (auto simp: mp_init_def rb_new_def mp_inv_def mp_counts_def mp_prods_def mp_slots_def mp_cons_def finished_def
        simp del: replicate.simps)
next
  case (step s s')
  then show ?case using mp_inv_step by blast
qed


section \<open>The interface of a bounded queue\<close>

datatype 'a qop = Enq 'a | Deq

datatype 'a qres = Pushed bool | Popped "'a option"

text \<open>A sequence of calls on an implementation, and on a list with a capacity.\<close>

fun qrun :: "('a \<Rightarrow> 's \<Rightarrow> bool \<times> 's) \<Rightarrow> ('s \<Rightarrow> 'a option \<times> 's) \<Rightarrow> 'a qop list \<Rightarrow> 's \<Rightarrow> 'a qres list" where
  "qrun enq deq [] s = []"
| "qrun enq deq (Enq v # ops) s = (let (b, s') = enq v s in Pushed b # qrun enq deq ops s')"
| "qrun enq deq (Deq # ops) s = (let (r, s') = deq s in Popped r # qrun enq deq ops s')"

fun qspec :: "nat \<Rightarrow> 'a qop list \<Rightarrow> 'a list \<Rightarrow> 'a qres list" where
  "qspec c [] q = []"
| "qspec c (Enq v # ops) q = (if length q < c then Pushed True # qspec c ops (q @ [v]) else Pushed False # qspec c ops q)"
| "qspec c (Deq # ops) [] = Popped None # qspec c ops []"
| "qspec c (Deq # ops) (v # q) = Popped (Some v) # qspec c ops q"

locale bounded_queue =
  fixes inv :: "nat \<Rightarrow> 's \<Rightarrow> bool" and abs :: "'s \<Rightarrow> 'a list" and cap :: nat
    and enq :: "'a \<Rightarrow> 's \<Rightarrow> bool \<times> 's" and deq :: "'s \<Rightarrow> 'a option \<times> 's"
  assumes enq_room: "inv (Suc k) s \<Longrightarrow> length (abs s) < cap \<Longrightarrow>
      \<exists>s'. enq v s = (True, s') \<and> inv k s' \<and> abs s' = abs s @ [v]"
    and enq_full: "inv (Suc k) s \<Longrightarrow> \<not> length (abs s) < cap \<Longrightarrow> \<exists>s'. enq v s = (False, s') \<and> inv k s' \<and> abs s' = abs s"
    and deq_empty: "inv k s \<Longrightarrow> abs s = [] \<Longrightarrow> \<exists>s'. deq s = (None, s') \<and> inv k s' \<and> abs s' = []"
    and deq_cons: "inv k s \<Longrightarrow> abs s = v # q \<Longrightarrow> \<exists>s'. deq s = (Some v, s') \<and> inv k s' \<and> abs s' = q"
begin

text \<open>\<open>inv k\<close> leaves room for \<open>k\<close> more enqueue calls; every run of at most that many behaves like the list.\<close>

lemma run_refines:
  assumes "inv k s" and "length (filter (\<lambda>op. op \<noteq> Deq) ops) \<le> k"
  shows "qrun enq deq ops s = qspec cap ops (abs s)"
  using assms
proof (induction ops arbitrary: s k)
  case (Cons op ops)
  show ?case
  proof (cases op)
    case (Enq v)
    then obtain j where k: "k = Suc j" "length (filter (\<lambda>op. op \<noteq> Deq) ops) \<le> j" using Cons.prems(2) by (cases k) auto
    note inv = Cons.prems(1) [unfolded k(1)]
    show ?thesis
    proof (cases "length (abs s) < cap")
      case True
      from enq_room [OF inv True] obtain s' where "enq v s = (True, s')" "inv j s'" "abs s' = abs s @ [v]" by blast
      with Cons.IH [OF _ k(2)] True Enq show ?thesis by simp
    next
      case False
      from enq_full [OF inv False] obtain s' where "enq v s = (False, s')" "inv j s'" "abs s' = abs s" by blast
      with Cons.IH [OF _ k(2)] False Enq show ?thesis by simp
    qed
  next
    case Deq
    then have l: "length (filter (\<lambda>op. op \<noteq> Deq) ops) \<le> k" using Cons.prems(2) by simp
    show ?thesis
    proof (cases "abs s")
      case Nil
      from deq_empty [OF Cons.prems(1) Nil] obtain s' where "deq s = (None, s')" "inv k s'" "abs s' = []" by blast
      with Cons.IH [OF _ l] Nil Deq show ?thesis by simp
    next
      case (Cons v q)
      from deq_cons [OF Cons.prems(1) this] obtain s' where "deq s = (Some v, s')" "inv k s'" "abs s' = q" by blast
      with Cons.IH [OF _ l] Cons Deq show ?thesis by simp
    qed
  qed
qed simp

end

text \<open>The buffer with the error policy implements it while the tail counter does not wrap.\<close>

definition rb_enq :: "'a \<Rightarrow> 'a ring_buffer \<Rightarrow> bool \<times> 'a ring_buffer" where
  "rb_enq v r = the (rb_Emplace ErrorOnNoSpace v r)"

definition rb_ok :: "nat \<Rightarrow> nat \<Rightarrow> 'a ring_buffer \<Rightarrow> bool" where
  "rb_ok c k r \<longleftrightarrow> rb_inv r \<and> rb_Capacity r = c \<and> unat (tail r) + k < 2 ^ 64"

lemma rb_put_tail [simp]: "tail (rb_put r i v) = tail r" "rb_Capacity (rb_put r i v) = rb_Capacity r"
  by (simp_all add: rb_put_def rb_Capacity_def)

lemma rb_Capacity_tail [simp]: "rb_Capacity (r\<lparr>tail := t\<rparr>) = rb_Capacity r"
  by (simp add: rb_Capacity_def)

lemma rb_ok_tail: "rb_ok c (Suc k) r \<Longrightarrow> tail r \<noteq> - 1"
  by (auto simp: rb_ok_def unat_max64)

lemma rb_enq_spec:
  assumes ok: "rb_ok c (Suc k) r"
  shows "length (rb_list r) < c \<Longrightarrow> \<exists>r'. rb_enq v r = (True, r') \<and> rb_ok c k r' \<and> rb_list r' = rb_list r @ [v]"
    and "\<not> length (rb_list r) < c \<Longrightarrow> \<exists>r'. rb_enq v r = (False, r') \<and> rb_ok c k r' \<and> rb_list r' = rb_list r"
proof -
  have inv: "rb_inv r" and c: "rb_Capacity r = c" using ok by (simp_all add: rb_ok_def)
  note nw = rb_ok_tail [OF ok]
  note sp = rb_no_space [OF inv nw]
  have le: "length (rb_list r) \<le> c" using inv c by (auto simp: rb_inv_def rb_list_def rb_Capacity_def)
  show "\<exists>r'. rb_enq v r = (True, r') \<and> rb_ok c k r' \<and> rb_list r' = rb_list r @ [v]" if l: "length (rb_list r) < c"
  proof -
    have "rb_enq v r = (True, rb_put (r\<lparr>tail := tail r + 1\<rparr>) (tail r) v)"
      using sp l c by (simp add: rb_enq_def rb_Emplace_def Let_def)
    then show ?thesis using rb_put_spec [OF inv nw, of v] l c ok unat_plus_one [OF nw]
      by (simp add: rb_ok_def)
  qed
  show "\<exists>r'. rb_enq v r = (False, r') \<and> rb_ok c k r' \<and> rb_list r' = rb_list r" if l: "\<not> length (rb_list r) < c"
    using sp l le c ok by (simp add: rb_enq_def rb_Emplace_def rb_ok_def)
qed

lemma rb_deq_spec:
  assumes ok: "rb_ok c k r"
  shows "rb_list r = [] \<Longrightarrow> \<exists>r'. rb_Pop r = (None, r') \<and> rb_ok c k r' \<and> rb_list r' = []"
    and "rb_list r = v # q \<Longrightarrow> \<exists>r'. rb_Pop r = (Some v, r') \<and> rb_ok c k r' \<and> rb_list r' = q"
proof -
  have inv: "rb_inv r" using ok by (simp add: rb_ok_def)
  have cap: "rb_Capacity (snd (rb_Pop r)) = rb_Capacity r" by (simp add: rb_Pop_def rb_Capacity_def Let_def)
  show "\<exists>r'. rb_Pop r = (None, r') \<and> rb_ok c k r' \<and> rb_list r' = []" if "rb_list r = []"
    using rb_pop_spec [OF inv] that ok by auto
  show "\<exists>r'. rb_Pop r = (Some v, r') \<and> rb_ok c k r' \<and> rb_list r' = q" if "rb_list r = v # q"
    using rb_pop_spec [OF inv] that ok cap by (auto simp: rb_ok_def)
qed

interpretation rbq: bounded_queue "rb_ok c" rb_list c rb_enq rb_Pop for c
  by unfold_locales (fact rb_enq_spec rb_deq_spec)+

lemma list_update_numeral: "(x # xs)[numeral k := v] = x # xs[pred_numeral k := v]"
  by (simp add: numeral_eq_Suc)

lemma rb_new_1: "rb_new d (Suc 0) = \<lparr>queue = [\<lparr>ready = False, entry_data = d\<rparr>, \<lparr>ready = False, entry_data = d\<rparr>], head = 0, tail = 0\<rparr>"
  by (simp add: rb_new_def numeral_2_eq_2)

lemma rb_new_2: "rb_new d 2 = \<lparr>queue = [\<lparr>ready = False, entry_data = d\<rparr>, \<lparr>ready = False, entry_data = d\<rparr>,
    \<lparr>ready = False, entry_data = d\<rparr>], head = 0, tail = 0\<rparr>"
  by (simp add: rb_new_def numeral_2_eq_2)

lemmas rb_eval = rb_new_1 rb_new_2 rb_Emplace_def rb_put_def rb_slot_def rb_Pop_def rb_Size_def rb_Capacity_def
  list_update_numeral Let_def word_le_nat_alt word_less_nat_alt

section \<open>Properties\<close>

text \<open>
  C9. The blocking multi-producer buffer is a first-in first-out queue in every
  interleaving of its atomic accesses: the values the consumer has popped are
  exactly the first ones in the order in which producers drew positions, none
  lost, duplicated or overwritten; and every finished push that is not yet
  popped is in its slot, ready.
\<close>

theorem mpsc_ring_buffer_fifo:
  assumes "mp_reach d depth s" and "depth + 1 < 2 ^ 64"
  shows "out s = take (length (out s)) (hist s) \<and>
    (\<forall>i. length (out s) < i \<longrightarrow> finished s i \<longrightarrow>
       queue (ring s) ! (i mod (depth + 1)) = \<lparr>ready = True, entry_data = hist s ! i\<rparr>)"
proof -
  have inv: "mp_inv (depth + 1) s" by (rule mp_reach_inv [OF assms])
  have "queue (ring s) ! (i mod (depth + 1)) = \<lparr>ready = True, entry_data = hist s ! i\<rparr>"
    if "length (out s) < i" "finished s i" for i
    using mp_slotsD(1) [OF inv, of i] that by (auto simp: RingBufferEntry.equality)
  moreover have "out s = take (length (out s)) (hist s)" using inv by (simp add: mp_inv_def mp_counts_def)
  ultimately show ?thesis by blast
qed

theorem mpsc_ring_buffer_fifo_witness:
  "\<exists>s. mp_reach (0 :: nat) 1 s \<and> hist s = [5] \<and> length (out s) = 1 \<and> out s = take (length (out s)) [5]"
proof -
  let ?e = "\<lparr>ready = False, entry_data = 0 :: nat\<rparr>" and ?f = "\<lparr>ready = True, entry_data = 5 :: nat\<rparr>"
  let ?R = "mp_reach (0 :: nat) 1"
  note ev = rb_slot_def mp_room_def word_le_nat_alt
  have "?R \<lparr>ring = \<lparr>queue = [?e, ?e], head = 0, tail = 0\<rparr>, prod = \<lambda>_. PIdle, cons = CIdle, hist = [], out = []\<rparr>"
    using mp_reach.start [of "0 :: nat" 1] by (simp add: mp_init_def rb_new_1)
  from mp_reach.step [OF this mp_step.load_head [where p = 0 and v = 5]] have "?R \<lparr>ring = \<lparr>queue = [?e, ?e], head = 0, tail = 0\<rparr>, prod = (\<lambda>_. PIdle)(0 := PHead 5 0), cons = CIdle, hist = [], out = []\<rparr>"
    by (simp add: ev)
  from mp_reach.step [OF this mp_step.claim [where p = 0]] have "?R \<lparr>ring = \<lparr>queue = [?e, ?e], head = 0, tail = 1\<rparr>, prod = (\<lambda>_. PIdle)(0 := PClaim 5 0 0), cons = CIdle, hist = [5], out = []\<rparr>"
    by (simp add: ev)
  from mp_reach.step [OF this mp_step.room [where p = 0]] have "?R \<lparr>ring = \<lparr>queue = [?e, ?e], head = 0, tail = 1\<rparr>, prod = (\<lambda>_. PIdle)(0 := PWrite 5 0), cons = CIdle, hist = [5], out = []\<rparr>"
    by (simp add: ev)
  from mp_reach.step [OF this mp_step.put_data [where p = 0]] have "?R \<lparr>ring = \<lparr>queue = [?e\<lparr>entry_data := 5\<rparr>, ?e], head = 0, tail = 1\<rparr>, prod = (\<lambda>_. PIdle)(0 := PReady 5 0), cons = CIdle, hist = [5], out = []\<rparr>"
    by (simp add: ev)
  from mp_reach.step [OF this mp_step.set_ready [where p = 0]] have "?R \<lparr>ring = \<lparr>queue = [?f, ?e], head = 0, tail = 1\<rparr>, prod = (\<lambda>_. PIdle)(0 := PIdle), cons = CIdle, hist = [5], out = []\<rparr>"
    by (simp add: ev)
  from mp_reach.step [OF this mp_step.pop_head] have "?R \<lparr>ring = \<lparr>queue = [?f, ?e], head = 0, tail = 1\<rparr>, prod = (\<lambda>_. PIdle)(0 := PIdle), cons = CTail 0, hist = [5], out = []\<rparr>"
    by (simp add: ev)
  from mp_reach.step [OF this mp_step.pop_tail] have "?R \<lparr>ring = \<lparr>queue = [?f, ?e], head = 0, tail = 1\<rparr>, prod = (\<lambda>_. PIdle)(0 := PIdle), cons = CTest 0, hist = [5], out = []\<rparr>"
    by (simp add: ev)
  from mp_reach.step [OF this mp_step.pop_test] have "?R \<lparr>ring = \<lparr>queue = [?f, ?e], head = 0, tail = 1\<rparr>, prod = (\<lambda>_. PIdle)(0 := PIdle), cons = CData 0, hist = [5], out = []\<rparr>"
    by (simp add: ev)
  from mp_reach.step [OF this mp_step.pop_data] have "?R \<lparr>ring = \<lparr>queue = [?f, ?e], head = 0, tail = 1\<rparr>, prod = (\<lambda>_. PIdle)(0 := PIdle), cons = CClear 5 0, hist = [5], out = []\<rparr>"
    by (simp add: ev)
  from mp_reach.step [OF this mp_step.pop_clear] have "?R \<lparr>ring = \<lparr>queue = [?e\<lparr>entry_data := 5\<rparr>, ?e], head = 0, tail = 1\<rparr>, prod = (\<lambda>_. PIdle)(0 := PIdle), cons = CInc 5, hist = [5], out = []\<rparr>"
    by (simp add: ev)
  from mp_reach.step [OF this mp_step.pop_inc] have "?R \<lparr>ring = \<lparr>queue = [?e\<lparr>entry_data := 5\<rparr>, ?e], head = 1, tail = 1\<rparr>, prod = (\<lambda>_. PIdle)(0 := PIdle), cons = CIdle, hist = [5], out = [5]\<rparr>"
    by (simp add: ev)
  note r = this
  from mpsc_ring_buffer_fifo [OF r] r show ?thesis
    by (intro exI [of _ "\<lparr>ring = \<lparr>queue = [?e\<lparr>entry_data := 5\<rparr>, ?e], head = 1, tail = 1\<rparr>, prod = (\<lambda>_. PIdle)(0 := PIdle), cons = CIdle, hist = [5], out = [5]\<rparr>"]) simp
qed

text \<open>
  C30. Called in sequence, the buffer with the error policy returns exactly what a
  list with a capacity returns, for any mix of pushes and pops of fewer than
  \<open>2 ^ 64\<close> pushes.
\<close>

theorem ring_buffer_refines_bounded_queue:
  assumes "depth + 1 < 2 ^ 64" and "length (filter (\<lambda>op. op \<noteq> Deq) ops) < 2 ^ 64"
  shows "qrun rb_enq rb_Pop ops (rb_new d depth) = qspec depth ops []"
proof -
  have "rb_ok depth (2 ^ 64 - 1) (rb_new d depth)"
    using rb_new_inv [OF assms(1), of d] by (simp add: rb_ok_def rb_Capacity_def rb_new_def)
  from rbq.run_refines [OF this] assms(2) rb_new_inv [OF assms(1), of d] show ?thesis by simp
qed

theorem ring_buffer_refines_bounded_queue_witness:
  "qrun rb_enq rb_Pop [Enq 1, Enq 2, Enq 3, Deq, Enq 4, Deq, Deq, Deq] (rb_new (0 :: nat) 2) =
     [Pushed True, Pushed True, Pushed False, Popped (Some 1), Pushed True, Popped (Some 2), Popped (Some 4), Popped None]"
  by (subst ring_buffer_refines_bounded_queue) simp_all

text \<open>
  The circular variant does not keep the newest elements in order: pushed past
  its capacity of 2, it reports 4 elements, pops the newest first, and after
  the last ready slot it pops nothing although it still reports an element.
\<close>

theorem circular_ring_buffer_overrun:
  "let push = (\<lambda>v r. snd (the (rb_Emplace Overwrite v r)));
       r = push 4 (push 3 (push 2 (push 1 (rb_new (0 :: nat) 2))));
       (a, r1) = rb_Pop r; (b, r2) = rb_Pop r1; (c, r3) = rb_Pop r2; (e, r4) = rb_Pop r3
   in rb_Capacity r = 2 \<and> rb_Size r = 4 \<and> a = Some 4 \<and> b = Some 2 \<and> c = Some 3 \<and> e = None \<and> rb_Size r4 = 1"
  by (simp add: rb_eval)

text \<open>Resizing empties the buffer, and a rejected push on the growing variant blocks the consumer for good.\<close>

lemma resize_loses_content:
  "let r = snd (the (rb_Emplace ErrorOnNoSpace 7 (rb_new (0 :: nat) 2)))
   in rb_Size r = 1 \<and> (case rb_Resize (Suc (Suc 0)) ErrorOnNoSpace 0 2 r of Some r' \<Rightarrow> rb_Size r' = 0 | None \<Rightarrow> False)"
  by (simp add: rb_eval rb_Resize_def)

lemma rejected_push_blocks_growing_buffer:
  "let (ok1, r1) = the (rb_Emplace DynamicSize 1 (rb_new (0 :: nat) 1));
       (ok2, r2) = the (rb_Emplace DynamicSize 2 r1);
       (a, r3) = rb_Pop r2; (ok3, r4) = the (rb_Emplace DynamicSize 3 r3); (b, r5) = rb_Pop r4
   in ok1 \<and> \<not> ok2 \<and> a = Some 1 \<and> \<not> ok3 \<and> b = None"
  by (simp add: rb_eval)

end
