(* ===== verification/Cte_Types.thy ===== *)
theory Cte_Types
  imports Bdev_IO Chi_Types Map_LL
begin

unbundle bit_operations_syntax

text \<open>
  The data of the context transfer engine: \<^verbatim>\<open>TargetInfo\<close>, \<^verbatim>\<open>TagInfo\<close>,
  \<^verbatim>\<open>BlobBlock\<close>, \<^verbatim>\<open>BlobInfo\<close>, \<^verbatim>\<open>Context\<close> and the telemetry record of
  core\_tasks.h, the storage configuration of core\_config.h, and the key of
  the blob table.

  A \<^verbatim>\<open>float\<close> is its 32-bit pattern: IEEE 754 comparison of numbers is the
  comparison of the patterns read as sign and magnitude, and every comparison
  with a NaN is false. A \<^verbatim>\<open>double\<close> performance figure is a real. A device
  client is the pool identifier it addresses. A time stamp is a 64-bit count.
\<close>

section \<open>Single-precision scores\<close>

type_synonym f32 = u32

definition f32_magnitude :: "f32 \<Rightarrow> u32" where
  "f32_magnitude x = x AND 0x7FFFFFFF"

definition f32_isnan :: "f32 \<Rightarrow> bool" where
  "f32_isnan x \<longleftrightarrow> f32_magnitude x > 0x7F800000"

definition f32_key :: "f32 \<Rightarrow> int" where
  "f32_key x = (if bit x 31 then - uint (f32_magnitude x) else uint (f32_magnitude x))"

definition f32_less :: "f32 \<Rightarrow> f32 \<Rightarrow> bool" where
  "f32_less x y \<longleftrightarrow> \<not> f32_isnan x \<and> \<not> f32_isnan y \<and> f32_key x < f32_key y"

definition f32_le :: "f32 \<Rightarrow> f32 \<Rightarrow> bool" where
  "f32_le x y \<longleftrightarrow> \<not> f32_isnan x \<and> \<not> f32_isnan y \<and> f32_key x \<le> f32_key y"

definition f32_zero :: f32 where
  "f32_zero = 0"

definition f32_one :: f32 where
  "f32_one = 0x3F800000"

text \<open>\<^verbatim>\<open>-1.0f\<close>.\<close>

definition f32_neg_one :: f32 where
  "f32_neg_one = 0xBF800000"

section \<open>Configuration\<close>

datatype PersistenceLevel = kVolatile | kTemporaryNonVolatile | kLongTerm

fun persistence_code :: "PersistenceLevel \<Rightarrow> int" where
  "persistence_code kVolatile = 0"
| "persistence_code kTemporaryNonVolatile = 1"
| "persistence_code kLongTerm = 2"

record StorageDeviceConfig =
  sd_path :: string
  sd_bdev_type :: string
  sd_capacity_limit :: u64
  sd_score :: f32
  sd_persistence_level :: string

section \<open>Targets, tags and blobs\<close>

type_synonym TagId = UniqueId
type_synonym PoolId = UniqueId
type_synonym Timestamp = u64

record TargetInfo =
  ti_target_name :: string
  ti_bdev_pool_name :: string
  ti_bdev_client :: PoolId
  ti_target_query :: PoolQuery
  ti_bytes_read :: u64
  ti_bytes_written :: u64
  ti_ops_read :: u64
  ti_ops_written :: u64
  ti_target_score :: f32
  ti_remaining_space :: u64
  ti_perf_metrics :: PerfMetrics
  ti_persistence_level :: PersistenceLevel

record TagInfo =
  tg_tag_name :: string
  tg_tag_id :: TagId
  tg_total_size :: u64
  tg_last_modified :: Timestamp
  tg_last_read :: Timestamp

record BlobBlock =
  bb_client :: PoolId
  bb_target_query :: PoolQuery
  bb_target_offset :: u64
  bb_size :: u64

record BlobInfo =
  bi_blob_name :: string
  bi_blocks :: "BlobBlock list"
  bi_score :: f32
  bi_last_modified :: Timestamp
  bi_last_read :: Timestamp
  bi_compress_lib :: int
  bi_compress_preset :: int
  bi_trace_key :: u64

definition TagInfo_new :: "Timestamp \<Rightarrow> TagInfo" where
  "TagInfo_new now = \<lparr>tg_tag_name = [], tg_tag_id = UniqueId_GetNull, tg_total_size = 0,
     tg_last_modified = now, tg_last_read = now\<rparr>"

definition BlobInfo_new :: "Timestamp \<Rightarrow> BlobInfo" where
  "BlobInfo_new now = \<lparr>bi_blob_name = [], bi_blocks = [], bi_score = f32_zero, bi_last_modified = now,
     bi_last_read = now, bi_compress_lib = 0, bi_compress_preset = 2, bi_trace_key = 0\<rparr>"

primrec total_size_loop :: "u64 \<Rightarrow> BlobBlock list \<Rightarrow> u64" where
  "total_size_loop acc [] = acc"
| "total_size_loop acc (b # bs) = total_size_loop (acc + bb_size b) bs"

definition GetTotalSize :: "BlobInfo \<Rightarrow> u64" where
  "GetTotalSize bi = total_size_loop 0 (bi_blocks bi)"

text \<open>The fields of \<^verbatim>\<open>Context\<close> that the engine reads.\<close>

record Context =
  cx_compress_lib :: int
  cx_compress_preset :: int
  cx_trace_key :: u64
  cx_min_persistence_level :: int

definition Context_default :: Context where
  "Context_default = \<lparr>cx_compress_lib = 0, cx_compress_preset = 2, cx_trace_key = 0, cx_min_persistence_level = 0\<rparr>"

datatype CteOp = kPutBlobOp | kGetBlobOp | kDelBlobOp | kGetOrCreateTagOp | kDelTagOp | kGetTagSizeOp | kReorganizeBlobOp

record CteTelemetry =
  te_op :: CteOp
  te_off :: u64
  te_size :: u64
  te_tag_id :: TagId
  te_blob_hash :: u64
  te_mod_time :: Timestamp
  te_read_time :: Timestamp
  te_logical_time :: u64

section \<open>Keys and hashes\<close>

text \<open>\<^verbatim>\<open>std::to_string(major) + "." + std::to_string(minor) + "."\<close> and the blob name after it.\<close>

definition tag_prefix :: "TagId \<Rightarrow> string" where
  "tag_prefix t = to_string (unat (id_major t)) @ ''.'' @ to_string (unat (id_minor t)) @ ''.''"

definition composite_key :: "TagId \<Rightarrow> string \<Rightarrow> string" where
  "composite_key t name = tag_prefix t @ name"

definition hash_UniqueId :: "(u32 \<Rightarrow> u64) \<Rightarrow> UniqueId \<Rightarrow> u64" where
  "hash_UniqueId hu i = hu (id_major i) XOR push_bit 1 (hu (id_minor i))"

definition FNV_OFFSET_BASIS :: u64 where
  "FNV_OFFSET_BASIS = 0xcbf29ce484222325"

definition FNV_PRIME :: u64 where
  "FNV_PRIME = 0x100000001b3"

definition fnv_step :: "u64 \<Rightarrow> u64 \<Rightarrow> u64" where
  "fnv_step hash x = (hash XOR x) * FNV_PRIME"

definition fnv_u32 :: "u32 \<Rightarrow> u64 \<Rightarrow> u64" where
  "fnv_u32 v hash = foldl (\<lambda>h i. fnv_step h (ucast (drop_bit (i * 8) v AND 0xFF))) hash [0, 1, 2, 3]"

definition ComputeBlobHash :: "TagId \<Rightarrow> string \<Rightarrow> u64" where
  "ComputeBlobHash t name =
     foldl (\<lambda>h c. fnv_step h (ucast (byte_of c))) (fnv_u32 (id_minor t) (fnv_u32 (id_major t) FNV_OFFSET_BASIS)) name"

section \<open>Lemmas\<close>

lemma f32_one_not_less_zero [simp]: "\<not> f32_less f32_one f32_zero"
  by (simp add: f32_less_def f32_one_def f32_zero_def f32_key_def f32_magnitude_def bit_numeral_rec bit_0_eq)

lemma f32_less_irrefl [simp]: "\<not> f32_less x x"
  by (simp add: f32_less_def)

lemma f32_less_trans: "f32_less x y \<Longrightarrow> f32_less y z \<Longrightarrow> f32_less x z"
  by (auto simp: f32_less_def)

lemma f32_neg_one_negative: "f32_less f32_neg_one f32_zero"
  by (simp add: f32_less_def f32_neg_one_def f32_zero_def f32_key_def f32_magnitude_def f32_isnan_def)

lemma f32_not_le: "\<not> f32_isnan x \<Longrightarrow> \<not> f32_isnan y \<Longrightarrow> \<not> f32_le x y \<longleftrightarrow> f32_less y x"
  by (auto simp: f32_less_def f32_le_def)

text \<open>Keys determine the tag and the name, and a tag's prefix selects exactly its keys.\<close>

lemma composite_key_inj: "composite_key t n = composite_key t' n' \<longleftrightarrow> t = t' \<and> n = n'"
  by (auto simp: composite_key_def tag_prefix_def append_dot_inj to_string_no_dot to_string_inj
      word_unat_eq_iff intro: UniqueId.equality)

lemma tag_prefix_iff: "starts_with (tag_prefix t) (composite_key t' n) \<longleftrightarrow> t = t'"
proof
  assume "starts_with (tag_prefix t) (composite_key t' n)"
  then obtain r where "composite_key t' n = tag_prefix t @ r"
    unfolding starts_with_def by (metis append_take_drop_id)
  then have "composite_key t' n = composite_key t r" by (simp add: composite_key_def)
  then show "t = t'" by (simp add: composite_key_inj)
qed (simp add: composite_key_def starts_with_def)

end
