(* ===== verification/Cte_Blocks.thy ===== *)
theory Cte_Blocks
  imports Cte_Types
begin

text \<open>
  Reading and writing a blob that is spread over blocks of several devices:
  \<^verbatim>\<open>Runtime::ModifyExistingData\<close> and \<^verbatim>\<open>Runtime::ReadData\<close> of core\_runtime.cc,
  over the operations the device client offers (\<open>bdev_api\<close>), and the laws of
  those operations as the locale \<open>block_device\<close>.

  The futures of one call are submitted one after the other and complete in
  that order; the ranges they touch are disjoint.
\<close>

section \<open>The device client\<close>

text \<open>
  \<open>'w\<close> is the state of everything behind the clients. The operations of a
  client take the pool it addresses and the query that routes the task, and
  return the output fields of the task the engine looks at: the blocks, the
  return code, the byte counts, the filled buffer, the statistics.
\<close>

record 'w bdev_api =
  api_create :: "PoolQuery \<Rightarrow> string \<Rightarrow> PoolId \<Rightarrow> BdevType \<Rightarrow> u64 \<Rightarrow> 'w \<Rightarrow> u32 \<times> PoolId \<times> 'w"
  api_alloc :: "PoolId \<Rightarrow> PoolQuery \<Rightarrow> u64 \<Rightarrow> 'w \<Rightarrow> Block list \<times> 'w"
  api_free :: "PoolId \<Rightarrow> PoolQuery \<Rightarrow> Block list \<Rightarrow> 'w \<Rightarrow> u32 \<times> 'w"
  api_write :: "PoolId \<Rightarrow> PoolQuery \<Rightarrow> Block list \<Rightarrow> mem \<Rightarrow> u64 \<Rightarrow> 'w \<Rightarrow> u64 \<times> 'w"
  api_read :: "PoolId \<Rightarrow> PoolQuery \<Rightarrow> Block list \<Rightarrow> mem \<Rightarrow> u64 \<Rightarrow> 'w \<Rightarrow> u64 \<times> mem \<times> 'w"
  api_stats :: "PoolId \<Rightarrow> 'w \<Rightarrow> PerfMetrics \<times> u64 \<times> 'w"

section \<open>Transfers\<close>

text \<open>\<open>advance d k\<close> is the pointer \<open>d + k\<close>; \<open>store_back d k m\<close> is the memory at \<open>d\<close> after a callee left \<open>m\<close> at \<open>d + k\<close>.\<close>

definition advance :: "mem \<Rightarrow> nat \<Rightarrow> mem" where
  "advance d k = (\<lambda>i. d (k + i))"

definition store_back :: "mem \<Rightarrow> nat \<Rightarrow> mem \<Rightarrow> mem" where
  "store_back d k m = (\<lambda>i. if i < k then d i else m (i - k))"

text \<open>The completion loop over the futures: reported and expected byte counts.\<close>

fun await_transfers :: "(u64 \<times> u64) list \<Rightarrow> u32" where
  "await_transfers [] = 0"
| "await_transfers ((n, expected) # rs) = (if n \<noteq> expected then 1 else await_transfers rs)"

fun modify_loop :: "'w bdev_api \<Rightarrow> mem \<Rightarrow> u64 \<Rightarrow> u64 \<Rightarrow> BlobBlock list \<Rightarrow> u64 \<Rightarrow> u64 \<Rightarrow> 'w
    \<Rightarrow> (u64 \<times> u64) list \<times> 'w" where
  "modify_loop api dat data_size data_offset_in_blob [] block_offset_in_blob remaining_size w = ([], w)"
| "modify_loop api dat data_size data_offset_in_blob (b # bs) block_offset_in_blob remaining_size w =
     (if remaining_size = 0 then ([], w)
      else
        let block_end_in_blob = block_offset_in_blob + bb_size b;
            data_end_in_blob = data_offset_in_blob + data_size
        in if data_offset_in_blob < block_end_in_blob \<and> data_end_in_blob > block_offset_in_blob
           then
             let write_start_in_blob = max data_offset_in_blob block_offset_in_blob;
                 write_end_in_blob = min data_end_in_blob block_end_in_blob;
                 write_size = write_end_in_blob - write_start_in_blob;
                 write_start_in_block = write_start_in_blob - block_offset_in_blob;
                 data_buffer_offset = write_start_in_blob - data_offset_in_blob;
                 bdev_block = \<lparr>offset = bb_target_offset b + write_start_in_block, bsize = write_size, block_type = 0\<rparr>;
                 (n, w') = api_write api (bb_client b) (bb_target_query b) [bdev_block]
                             (advance dat (unat data_buffer_offset)) write_size w;
                 (rs, w'') = modify_loop api dat data_size data_offset_in_blob bs
                               (block_offset_in_blob + bb_size b) (remaining_size - write_size) w'
             in ((n, write_size) # rs, w'')
           else modify_loop api dat data_size data_offset_in_blob bs
                  (block_offset_in_blob + bb_size b) remaining_size w)"

definition ModifyExistingData :: "'w bdev_api \<Rightarrow> BlobBlock list \<Rightarrow> mem \<Rightarrow> u64 \<Rightarrow> u64 \<Rightarrow> 'w \<Rightarrow> u32 \<times> 'w" where
  "ModifyExistingData api bs dat data_size data_offset_in_blob w =
     (let (rs, w') = modify_loop api dat data_size data_offset_in_blob bs 0 data_size w
      in (await_transfers rs, w'))"

fun read_loop :: "'w bdev_api \<Rightarrow> u64 \<Rightarrow> u64 \<Rightarrow> BlobBlock list \<Rightarrow> u64 \<Rightarrow> u64 \<Rightarrow> mem \<Rightarrow> 'w
    \<Rightarrow> (u64 \<times> u64) list \<times> mem \<times> 'w" where
  "read_loop api data_size data_offset_in_blob [] block_offset_in_blob remaining_size dat w = ([], dat, w)"
| "read_loop api data_size data_offset_in_blob (b # bs) block_offset_in_blob remaining_size dat w =
     (if remaining_size = 0 then ([], dat, w)
      else
        let block_end_in_blob = block_offset_in_blob + bb_size b;
            data_end_in_blob = data_offset_in_blob + data_size
        in if data_offset_in_blob < block_end_in_blob \<and> data_end_in_blob > block_offset_in_blob
           then
             let read_start_in_blob = max data_offset_in_blob block_offset_in_blob;
                 read_end_in_blob = min data_end_in_blob block_end_in_blob;
                 read_size = read_end_in_blob - read_start_in_blob;
                 read_start_in_block = read_start_in_blob - block_offset_in_blob;
                 data_buffer_offset = read_start_in_blob - data_offset_in_blob;
                 bdev_block = \<lparr>offset = bb_target_offset b + read_start_in_block, bsize = read_size, block_type = 0\<rparr>;
                 (n, m, w') = api_read api (bb_client b) (bb_target_query b) [bdev_block]
                                (advance dat (unat data_buffer_offset)) read_size w;
                 (rs, dat', w'') = read_loop api data_size data_offset_in_blob bs
                                     (block_offset_in_blob + bb_size b) (remaining_size - read_size)
                                     (store_back dat (unat data_buffer_offset) m) w'
             in ((n, read_size) # rs, dat', w'')
           else read_loop api data_size data_offset_in_blob bs
                  (block_offset_in_blob + bb_size b) remaining_size dat w)"

definition ReadData :: "'w bdev_api \<Rightarrow> BlobBlock list \<Rightarrow> mem \<Rightarrow> u64 \<Rightarrow> u64 \<Rightarrow> 'w \<Rightarrow> u32 \<times> mem \<times> 'w" where
  "ReadData api bs dat data_size data_offset_in_blob w =
     (let (rs, dat', w') = read_loop api data_size data_offset_in_blob bs 0 data_size dat w
      in (await_transfers rs, dat', w'))"

section \<open>The contract of a device\<close>

text \<open>A region: a pool, the first byte, the number of bytes.\<close>

type_synonym region = "PoolId \<times> nat \<times> nat"

fun in_region :: "region \<Rightarrow> PoolId \<Rightarrow> nat \<Rightarrow> bool" where
  "in_region (p, a, n) q i \<longleftrightarrow> q = p \<and> a \<le> i \<and> i < a + n"

definition region_of :: "BlobBlock \<Rightarrow> region" where
  "region_of b = (bb_client b, unat (bb_target_offset b), unat (bb_size b))"

definition block_region :: "PoolId \<Rightarrow> Block \<Rightarrow> region" where
  "block_region p b = (p, unat (offset b), unat (bsize b))"

text \<open>
  \<open>dinv w L\<close>: in state \<open>w\<close> the clients own the regions \<open>L\<close>. \<open>byte_at\<close> is the
  stored byte. \<open>room w k\<close>: \<open>k\<close> more allocations cannot make an allocator's
  counter wrap around. Allocation promises the region that starts at the first
  block it returns, for requests of at most \<open>unit\<close> bytes.
\<close>

locale block_device =
  fixes api :: "'w bdev_api"
    and dinv :: "'w \<Rightarrow> region multiset \<Rightarrow> bool"
    and byte_at :: "'w \<Rightarrow> PoolId \<Rightarrow> nat \<Rightarrow> u8"
    and room :: "'w \<Rightarrow> nat \<Rightarrow> bool"
    and unit :: nat
  assumes region_end: "dinv w L \<Longrightarrow> (p, a, n) \<in># L \<Longrightarrow> a + n < 2 ^ 64"
    and regions_disjoint: "dinv w L \<Longrightarrow> {#r, r'#} \<subseteq># L \<Longrightarrow> in_region r p i \<Longrightarrow> \<not> in_region r' p i"
    and write_ok: "dinv w L \<Longrightarrow> (p, a, n) \<in># L \<Longrightarrow> a \<le> unat (offset b) \<Longrightarrow>
      unat (offset b) + unat (bsize b) \<le> a + n \<Longrightarrow> 0 < bsize b \<Longrightarrow>
      api_write api p q [b] dat (bsize b) w = (k, w') \<Longrightarrow>
      k = bsize b \<and> dinv w' L \<and> (\<forall>j. room w j \<longrightarrow> room w' j) \<and>
      (\<forall>p' i. byte_at w' p' i =
         (if in_region (block_region p b) p' i then dat (i - unat (offset b)) else byte_at w p' i))"
    and read_ok: "dinv w L \<Longrightarrow> (p, a, n) \<in># L \<Longrightarrow> a \<le> unat (offset b) \<Longrightarrow>
      unat (offset b) + unat (bsize b) \<le> a + n \<Longrightarrow> 0 < bsize b \<Longrightarrow>
      api_read api p q [b] dat (bsize b) w = (k, dat', w') \<Longrightarrow>
      k = bsize b \<and> dinv w' L \<and> (\<forall>j. room w j \<longrightarrow> room w' j) \<and> byte_at w' = byte_at w \<and>
      (\<forall>i. dat' i = (if i < unat (bsize b) then byte_at w p (unat (offset b) + i) else dat i))"
    and alloc_ok: "dinv w L \<Longrightarrow> room w (Suc j) \<Longrightarrow> 0 < sz \<Longrightarrow> unat sz \<le> unit \<Longrightarrow>
      api_alloc api p q sz w = (bs, w') \<Longrightarrow>
      room w' j \<and> byte_at w' = byte_at w \<and>
      dinv w' (if bs = [] then L else add_mset (p, unat (offset (hd bs)), unat sz) L)"
    and free_ok: "dinv w (mset (map (block_region p) bs) + L) \<Longrightarrow> \<forall>b \<in> set bs. block_type b = 0 \<Longrightarrow>
      api_free api p q bs w = (rc, w') \<Longrightarrow>
      dinv w' L \<and> byte_at w' = byte_at w \<and> (\<forall>j. room w j \<longrightarrow> room w' j)"
    and create_ok: "dinv w L \<Longrightarrow> api_create api q name p ty sz w = (rc, p', w') \<Longrightarrow>
      dinv w' L \<and> (\<forall>r \<in># L. \<forall>p' i. in_region r p' i \<longrightarrow> byte_at w' p' i = byte_at w p' i) \<and>
      (\<forall>j. room w j \<longrightarrow> room w' j)"
    and stats_ok: "dinv w L \<Longrightarrow> api_stats api p w = (pm, sz, w') \<Longrightarrow>
      dinv w' L \<and> byte_at w' = byte_at w \<and> (\<forall>j. room w j \<longrightarrow> room w' j)"
    and room_less: "room w (Suc j) \<Longrightarrow> room w j"


section \<open>The content of a blob\<close>

definition bytes_of :: "(PoolId \<Rightarrow> nat \<Rightarrow> u8) \<Rightarrow> BlobBlock \<Rightarrow> u8 list" where
  "bytes_of m b = map (\<lambda>i. m (bb_client b) (unat (bb_target_offset b) + i)) [0..<unat (bb_size b)]"

definition blob_bytes :: "(PoolId \<Rightarrow> nat \<Rightarrow> u8) \<Rightarrow> BlobBlock list \<Rightarrow> u8 list" where
  "blob_bytes m bs = concat (map (bytes_of m) bs)"

definition blob_len :: "BlobBlock list \<Rightarrow> nat" where
  "blob_len bs = sum_list (map (\<lambda>b. unat (bb_size b)) bs)"

text \<open>\<open>overlay dat off n k xs\<close>: the bytes \<open>xs\<close> at positions \<open>k, k + 1, ...\<close> with \<open>[off, off + n)\<close> taken from \<open>dat\<close>.\<close>

definition overlay :: "mem \<Rightarrow> nat \<Rightarrow> nat \<Rightarrow> nat \<Rightarrow> u8 list \<Rightarrow> u8 list" where
  "overlay dat off n k xs = map (\<lambda>(i, x). if off \<le> i \<and> i < off + n then dat (i - off) else x) (enumerate k xs)"

lemma blob_bytes_simps [simp]:
  "blob_bytes m [] = []" "blob_bytes m (b # bs) = bytes_of m b @ blob_bytes m bs"
  by (simp_all add: blob_bytes_def)

lemma blob_len_simps [simp]:
  "blob_len [] = 0" "blob_len (b # bs) = unat (bb_size b) + blob_len bs"
  by (simp_all add: blob_len_def)

lemma blob_len_append [simp]: "blob_len (bs @ cs) = blob_len bs + blob_len cs"
  by (simp add: blob_len_def)

lemma blob_bytes_append: "blob_bytes m (bs @ cs) = blob_bytes m bs @ blob_bytes m cs"
  by (simp add: blob_bytes_def)

lemma length_bytes_of [simp]: "length (bytes_of m b) = unat (bb_size b)"
  by (simp add: bytes_of_def)

lemma length_blob_bytes [simp]: "length (blob_bytes m bs) = blob_len bs"
  by (induction bs) simp_all

lemma length_overlay [simp]: "length (overlay dat off n k xs) = length xs"
  by (simp add: overlay_def)

lemma overlay_append: "overlay dat off n k (xs @ ys) = overlay dat off n k xs @ overlay dat off n (k + length xs) ys"
  by (simp add: overlay_def enumerate_append_eq)

lemma nth_overlay:
  "i < length xs \<Longrightarrow> overlay dat off n k xs ! i =
     (if off \<le> k + i \<and> k + i < off + n then dat (k + i - off) else xs ! i)"
  by (simp add: overlay_def nth_enumerate_eq)

lemma overlay_outside: "k + length xs \<le> off \<or> off + n \<le> k \<Longrightarrow> overlay dat off n k xs = xs"
  by (auto intro!: nth_equalityI simp: nth_overlay)

lemma total_size_loop_add: "total_size_loop acc bs = acc + total_size_loop 0 bs"
proof (induction bs arbitrary: acc)
  case (Cons b bs)
  show ?case using Cons.IH [of "acc + bb_size b"] Cons.IH [of "bb_size b"] by (simp add: add.assoc)
qed simp

lemma unat_total_size:
  assumes "blob_len bs < 2 ^ 64"
  shows "unat (total_size_loop 0 bs) = blob_len bs"
  using assms
proof (induction bs)
  case (Cons b bs)
  then have "unat (total_size_loop 0 bs) = blob_len bs" by simp
  then show ?case
    using Cons.prems unat_add_no_overflow [of "bb_size b" "total_size_loop 0 bs"]
    by (simp add: total_size_loop_add [of "bb_size b"])
qed simp

lemma bytes_of_cong:
  assumes "\<And>i. in_region (region_of b) (bb_client b) i \<Longrightarrow> m (bb_client b) i = m' (bb_client b) i"
  shows "bytes_of m b = bytes_of m' b"
  unfolding bytes_of_def by (rule map_cong) (auto intro!: assms simp: region_of_def)

lemma blob_bytes_cong:
  assumes "\<And>b i. b \<in> set bs \<Longrightarrow> in_region (region_of b) (bb_client b) i \<Longrightarrow> m (bb_client b) i = m' (bb_client b) i"
  shows "blob_bytes m bs = blob_bytes m' bs"
  using assms by (induction bs) (auto intro: bytes_of_cong)

text \<open>The word arithmetic of one iteration, when nothing wraps around.\<close>

lemma clamp_arith:
  fixes doff dsz boff bsz rem :: u64
  assumes "unat doff + unat dsz < 2 ^ 64" and "unat boff + unat bsz < 2 ^ 64"
  defines "s \<equiv> max doff boff" and "e \<equiv> min (doff + dsz) (boff + bsz)"
  shows "unat (boff + bsz) = unat boff + unat bsz" and "unat (doff + dsz) = unat doff + unat dsz"
    and "doff < boff + bsz \<and> doff + dsz > boff \<longleftrightarrow>
      unat doff < unat boff + unat bsz \<and> unat boff < unat doff + unat dsz"
    and "unat doff < unat boff + unat bsz \<and> unat boff < unat doff + unat dsz \<Longrightarrow> 0 < dsz \<Longrightarrow> 0 < bsz \<Longrightarrow>
      unat (e - s) = min (unat doff + unat dsz) (unat boff + unat bsz) - max (unat doff) (unat boff) \<and>
      unat (s - boff) = max (unat doff) (unat boff) - unat boff \<and>
      unat (s - doff) = max (unat doff) (unat boff) - unat doff \<and> 0 < e - s"
proof -
  show b: "unat (boff + bsz) = unat boff + unat bsz" and d: "unat (doff + dsz) = unat doff + unat dsz"
    using assms(1,2) by (simp_all add: unat_add_no_overflow)
  show "doff < boff + bsz \<and> doff + dsz > boff \<longleftrightarrow>
      unat doff < unat boff + unat bsz \<and> unat boff < unat doff + unat dsz"
    by (simp add: word_less_nat_alt b d)
  assume c: "unat doff < unat boff + unat bsz \<and> unat boff < unat doff + unat dsz" and "0 < dsz" "0 < bsz"
  then have p: "0 < unat dsz" "0 < unat bsz" by (simp_all add: word_less_nat_alt)
  have us: "unat s = max (unat doff) (unat boff)" unfolding s_def by (simp add: max_def word_le_nat_alt)
  have ue: "unat e = min (unat doff + unat dsz) (unat boff + unat bsz)"
    unfolding e_def by (simp add: min_def word_le_nat_alt b d)
  have "s < e" using c p by (simp add: word_less_nat_alt us ue)
  moreover have "boff \<le> s" "doff \<le> s" by (simp_all add: s_def)
  ultimately show "unat (e - s) = min (unat doff + unat dsz) (unat boff + unat bsz) - max (unat doff) (unat boff) \<and>
      unat (s - boff) = max (unat doff) (unat boff) - unat boff \<and>
      unat (s - doff) = max (unat doff) (unat boff) - unat doff \<and> 0 < e - s"
    by (simp add: unat_sub us ue word_less_nat_alt order_less_imp_le)
qed


text \<open>How much of the transfer is left when the loop reaches position \<open>k\<close>.\<close>

definition left_at :: "nat \<Rightarrow> nat \<Rightarrow> nat \<Rightarrow> nat" where
  "left_at off n k = off + n - max off (min k (off + n))"

definition blocks_ok :: "BlobBlock list \<Rightarrow> bool" where
  "blocks_ok bs \<longleftrightarrow> (\<forall>b \<in> set bs. 0 < bb_size b)"

lemma blocks_ok_simps [simp]:
  "blocks_ok []" "blocks_ok (b # bs) \<longleftrightarrow> 0 < bb_size b \<and> blocks_ok bs"
  "blocks_ok (bs @ cs) \<longleftrightarrow> blocks_ok bs \<and> blocks_ok cs"
  by (auto simp: blocks_ok_def)

lemma left_at_0 [simp]: "left_at off n 0 = n"
  by (simp add: left_at_def)

lemma left_at_zero: "left_at off n k = 0 \<Longrightarrow> 0 < n \<Longrightarrow> off + n \<le> k"
  by (auto simp: left_at_def max_def min_def split: if_splits)

lemma left_at_step:
  "off < k + m \<Longrightarrow> k < off + n \<Longrightarrow>
     left_at off n (k + m) = left_at off n k - (min (off + n) (k + m) - max off k)"
  "\<not> (off < k + m \<and> k < off + n) \<Longrightarrow> left_at off n (k + m) = left_at off n k"
  by (auto simp: left_at_def max_def min_def)

text \<open>
  One iteration's block: when the ranges meet, its unsigned fields are the
  intersection, inside the region of the blob's block.
\<close>

definition chunk :: "u64 \<Rightarrow> u64 \<Rightarrow> u64 \<Rightarrow> BlobBlock \<Rightarrow> Block" where
  "chunk dsz doff boff b =
     \<lparr>offset = bb_target_offset b + (max doff boff - boff),
      bsize = min (doff + dsz) (boff + bb_size b) - max doff boff, block_type = 0\<rparr>"

lemma chunk_fields:
  assumes "unat doff + unat dsz < 2 ^ 64" and "unat boff + unat (bb_size b) < 2 ^ 64"
    and "unat (bb_target_offset b) + unat (bb_size b) < 2 ^ 64"
    and "unat doff < unat boff + unat (bb_size b)" and "unat boff < unat doff + unat dsz"
    and "0 < dsz" and "0 < bb_size b"
  shows "unat (offset (chunk dsz doff boff b)) = unat (bb_target_offset b) + (max (unat doff) (unat boff) - unat boff)"
    and "unat (bsize (chunk dsz doff boff b)) =
      min (unat doff + unat dsz) (unat boff + unat (bb_size b)) - max (unat doff) (unat boff)"
    and "0 < bsize (chunk dsz doff boff b)"
    and "unat (max doff boff - doff) = max (unat doff) (unat boff) - unat doff"
proof -
  note c = clamp_arith(4) [OF assms(1,2) conjI [OF assms(4,5)] assms(6,7)]
  then show "unat (bsize (chunk dsz doff boff b)) =
      min (unat doff + unat dsz) (unat boff + unat (bb_size b)) - max (unat doff) (unat boff)"
    and "0 < bsize (chunk dsz doff boff b)"
    and "unat (max doff boff - doff) = max (unat doff) (unat boff) - unat doff"
    by (simp_all add: chunk_def)
  have "unat (bb_target_offset b) + (max (unat doff) (unat boff) - unat boff) < 2 ^ 64"
    using assms(3,4) by linarith
  then show "unat (offset (chunk dsz doff boff b)) = unat (bb_target_offset b) + (max (unat doff) (unat boff) - unat boff)"
    using c unat_add_no_overflow [of "bb_target_offset b" "max doff boff - boff"] by (simp add: chunk_def)
qed

text \<open>What a read of blob positions starting at \<open>k\<close> leaves in the buffer.\<close>

definition filled :: "u8 list \<Rightarrow> nat \<Rightarrow> nat \<Rightarrow> nat \<Rightarrow> mem \<Rightarrow> mem" where
  "filled xs k off n dat =
     (\<lambda>i. if i < n \<and> k \<le> off + i \<and> off + i < k + length xs then xs ! (off + i - k) else dat i)"

lemma filled_Nil [simp]: "filled [] k off n dat = dat"
  by (auto simp: filled_def fun_eq_iff)

lemma filled_outside: "k + length xs \<le> off \<or> off + n \<le> k \<Longrightarrow> filled xs k off n dat = dat"
  by (auto simp: filled_def fun_eq_iff)

lemma filled_append: "filled ys (k + length xs) off n (filled xs k off n dat) = filled (xs @ ys) k off n dat"
  by (auto simp: filled_def fun_eq_iff nth_append)

context block_device
begin

lemma region_of_end:
  assumes "dinv w L" and "region_of b \<in># L"
  shows "unat (bb_target_offset b) + unat (bb_size b) < 2 ^ 64"
  using region_end [OF assms(1)] assms(2) unfolding region_of_def by blast

text \<open>One write of the loop overlays its block and nothing else.\<close>

lemma write_chunk:
  assumes "dinv w L" and "region_of b \<in># L"
    and "unat doff + unat dsz < 2 ^ 64" and "unat boff + unat (bb_size b) < 2 ^ 64"
    and "unat doff < unat boff + unat (bb_size b)" and "unat boff < unat doff + unat dsz"
    and "0 < dsz" and "0 < bb_size b"
    and "api_write api (bb_client b) q [chunk dsz doff boff b]
      (advance dat (unat (max doff boff - doff))) (bsize (chunk dsz doff boff b)) w = (n, w')"
  shows "n = bsize (chunk dsz doff boff b)" and "dinv w' L" and "\<forall>j. room w j \<longrightarrow> room w' j"
    and "\<not> in_region (region_of b) p i \<Longrightarrow> byte_at w' p i = byte_at w p i"
    and "bytes_of (byte_at w') b = overlay dat (unat doff) (unat dsz) (unat boff) (bytes_of (byte_at w) b)"
proof -
  let ?c = "chunk dsz doff boff b"
  note f = chunk_fields [OF assms(3,4) region_of_end [OF assms(1,2)] assms(5-8)]
  have lo: "unat (bb_target_offset b) \<le> unat (offset ?c)"
    and hi: "unat (offset ?c) + unat (bsize ?c) \<le> unat (bb_target_offset b) + unat (bb_size b)"
    using assms(5,6) by (simp_all add: f)
  have in_c: "in_region (block_region (bb_client b) ?c) p i \<Longrightarrow> in_region (region_of b) p i" for p i
    using lo hi by (auto simp: block_region_def region_of_def)
  note w = write_ok [OF assms(1) assms(2) [unfolded region_of_def] lo hi f(3) assms(9)]
  then show "n = bsize ?c" "dinv w' L" "\<forall>j. room w j \<longrightarrow> room w' j" by blast+
  from w have b: "byte_at w' p i = (if in_region (block_region (bb_client b) ?c) p i
      then advance dat (unat (max doff boff - doff)) (i - unat (offset ?c)) else byte_at w p i)" for p i by blast
  show "\<not> in_region (region_of b) p i \<Longrightarrow> byte_at w' p i = byte_at w p i"
    using b in_c by metis
  show "bytes_of (byte_at w') b = overlay dat (unat doff) (unat dsz) (unat boff) (bytes_of (byte_at w) b)"
  proof (rule nth_equalityI)
    fix i assume "i < length (bytes_of (byte_at w') b)"
    then have i: "i < unat (bb_size b)" by simp
    let ?a = "unat (bb_target_offset b) + i"
    have iff: "in_region (block_region (bb_client b) ?c) (bb_client b) ?a \<longleftrightarrow>
        unat doff \<le> unat boff + i \<and> unat boff + i < unat doff + unat dsz"
      using i assms(5,6) by (auto simp: block_region_def f)
    have pos: "unat (max doff boff - doff) + (?a - unat (offset ?c)) = unat boff + i - unat doff"
      if "unat doff \<le> unat boff + i"
      using that unfolding f(1) f(4) by (auto simp: max_def)
    show "bytes_of (byte_at w') b ! i = overlay dat (unat doff) (unat dsz) (unat boff) (bytes_of (byte_at w) b) ! i"
      using i iff pos by (simp add: bytes_of_def nth_overlay b advance_def)
  qed simp
qed

lemma sub_split: "mset (map region_of (b # bs)) \<subseteq># L \<Longrightarrow> region_of b \<in># L \<and> mset (map region_of bs) \<subseteq># L"
  using subset_mset.order_trans [of "mset (map region_of bs)" "mset (map region_of (b # bs))" L]
  by (auto dest: mset_subset_eqD)

lemma block_disjoint:
  assumes "dinv w L" and "mset (map region_of (b # bs)) \<subseteq># L" and "c \<in> set bs"
    and "in_region (region_of c) p i"
  shows "\<not> in_region (region_of b) p i"
proof -
  have "{#region_of b, region_of c#} \<subseteq># mset (map region_of (b # bs))"
    using assms(3) by (simp add: single_subset_iff)
  then have "{#region_of b, region_of c#} \<subseteq># L" using assms(2) by (rule subset_mset.order_trans)
  then have "{#region_of c, region_of b#} \<subseteq># L" by (simp add: add_mset_commute)
  then show ?thesis using regions_disjoint [OF assms(1)] assms(4) by blast
qed

lemma modify_loop_spec:
  assumes "dinv w L" and "mset (map region_of bs) \<subseteq># L" and "blocks_ok bs"
    and "unat boff + blob_len bs < 2 ^ 64" and "unat doff + unat dsz < 2 ^ 64" and "0 < dsz"
    and "unat rem = left_at (unat doff) (unat dsz) (unat boff)"
    and "modify_loop api dat dsz doff bs boff rem w = (rs, w')"
  shows "await_transfers rs = 0 \<and> dinv w' L \<and> (\<forall>j. room w j \<longrightarrow> room w' j) \<and>
    (\<forall>p i. (\<forall>b \<in> set bs. \<not> in_region (region_of b) p i) \<longrightarrow> byte_at w' p i = byte_at w p i) \<and>
    blob_bytes (byte_at w') bs = overlay dat (unat doff) (unat dsz) (unat boff) (blob_bytes (byte_at w) bs)"
  using assms
proof (induction bs arbitrary: boff rem w rs)
  case Nil
  then show ?case by (simp add: overlay_def)
next
  case (Cons b bs)
  have r: "region_of b \<in># L" "mset (map region_of bs) \<subseteq># L" using sub_split [OF Cons.prems(2)] by auto
  have ok: "0 < bb_size b" "blocks_ok bs" using Cons.prems(3) by auto
  have bnd: "unat boff + unat (bb_size b) < 2 ^ 64" using Cons.prems(4) by simp
  have pos: "0 < unat dsz" using Cons.prems(6) by (simp add: word_less_nat_alt)
  note ca = clamp_arith [OF Cons.prems(5) bnd]
  have ub: "unat (boff + bb_size b) + blob_len bs < 2 ^ 64" using Cons.prems(4) by (simp add: ca(1))
  show ?case
  proof (cases "rem = 0")
    case True
    then have "unat doff + unat dsz \<le> unat boff" using Cons.prems(7) pos left_at_zero by simp
    then show ?thesis using True Cons.prems by (auto simp: overlay_outside)
  next
    case False
    show ?thesis
    proof (cases "doff < boff + bb_size b \<and> doff + dsz > boff")
      case True
      then have in_range: "unat doff < unat boff + unat (bb_size b)" "unat boff < unat doff + unat dsz"
        using ca(3) by auto
      let ?c = "chunk dsz doff boff b"
      obtain n w1 where w1: "api_write api (bb_client b) (bb_target_query b) [?c]
          (advance dat (unat (max doff boff - doff))) (bsize ?c) w = (n, w1)" by fastforce
      obtain rs1 where rs1: "modify_loop api dat dsz doff bs (boff + bb_size b) (rem - bsize ?c) w1 = (rs1, w')"
        and rs: "rs = (n, bsize ?c) # rs1"
        using Cons.prems(8) False True w1 by (auto simp: Let_def chunk_def split: prod.splits)
      note wc = write_chunk [OF Cons.prems(1) r(1) Cons.prems(5) bnd in_range Cons.prems(6) ok(1) w1]
      have sz: "unat (bsize ?c) = min (unat doff + unat dsz) (unat boff + unat (bb_size b)) - max (unat doff) (unat boff)"
        by (rule chunk_fields(2) [OF Cons.prems(5) bnd region_of_end [OF Cons.prems(1) r(1)] in_range Cons.prems(6) ok(1)])
      have "unat (bsize ?c) \<le> unat rem" using in_range unfolding Cons.prems(7) sz left_at_def by (auto simp: max_def min_def)
      then have rem': "unat (rem - bsize ?c) = left_at (unat doff) (unat dsz) (unat (boff + bb_size b))"
        using left_at_step(1) [OF in_range] by (simp add: unat_sub word_le_nat_alt Cons.prems(7) sz ca(1))
      note ih = Cons.IH [OF wc(2) r(2) ok(2) ub Cons.prems(5,6) rem' rs1]
      have same_b: "bytes_of (byte_at w') b = bytes_of (byte_at w1) b"
        by (rule bytes_of_cong) (use ih block_disjoint [OF Cons.prems(1,2)] in blast)
      have same_bs: "blob_bytes (byte_at w1) bs = blob_bytes (byte_at w) bs"
        by (rule blob_bytes_cong) (use wc(4) block_disjoint [OF Cons.prems(1,2)] in blast)
      have frame: "byte_at w' p i = byte_at w p i" if "\<forall>c \<in> set (b # bs). \<not> in_region (region_of c) p i" for p i
        using that ih wc(4) by simp
      show ?thesis
        using ih wc(1,3,5) frame by (simp add: rs same_b same_bs overlay_append ca(1))
    next
      case out: False
      have nr: "\<not> (unat doff < unat boff + unat (bb_size b) \<and> unat boff < unat doff + unat dsz)"
        using out ca(3) by simp
      have m: "modify_loop api dat dsz doff bs (boff + bb_size b) rem w = (rs, w')"
        using Cons.prems(8) False out by (simp add: Let_def split: if_splits)
      have rem': "unat rem = left_at (unat doff) (unat dsz) (unat (boff + bb_size b))"
        using left_at_step(2) [OF nr] Cons.prems(7) by (simp add: ca(1))
      note ih = Cons.IH [OF Cons.prems(1) r(2) ok(2) ub Cons.prems(5,6) rem' m]
      have same_b: "bytes_of (byte_at w') b = bytes_of (byte_at w) b"
        by (rule bytes_of_cong) (use ih block_disjoint [OF Cons.prems(1,2)] in blast)
      have "overlay dat (unat doff) (unat dsz) (unat boff) (bytes_of (byte_at w) b) = bytes_of (byte_at w) b"
        using nr by (intro overlay_outside) auto
      then show ?thesis using ih by (simp add: same_b overlay_append ca(1))
    qed
  qed
qed

lemma read_chunk:
  assumes "dinv w L" and "region_of b \<in># L"
    and "unat doff + unat dsz < 2 ^ 64" and "unat boff + unat (bb_size b) < 2 ^ 64"
    and "unat doff < unat boff + unat (bb_size b)" and "unat boff < unat doff + unat dsz"
    and "0 < dsz" and "0 < bb_size b"
    and "api_read api (bb_client b) q [chunk dsz doff boff b]
      (advance dat (unat (max doff boff - doff))) (bsize (chunk dsz doff boff b)) w = (n, m, w')"
  shows "n = bsize (chunk dsz doff boff b)" and "dinv w' L" and "\<forall>j. room w j \<longrightarrow> room w' j"
    and "byte_at w' = byte_at w"
    and "store_back dat (unat (max doff boff - doff)) m =
      filled (bytes_of (byte_at w) b) (unat boff) (unat doff) (unat dsz) dat"
proof -
  let ?c = "chunk dsz doff boff b"
  note f = chunk_fields [OF assms(3,4) region_of_end [OF assms(1,2)] assms(5-8)]
  have lo: "unat (bb_target_offset b) \<le> unat (offset ?c)"
    and hi: "unat (offset ?c) + unat (bsize ?c) \<le> unat (bb_target_offset b) + unat (bb_size b)"
    using assms(5,6) by (simp_all add: f)
  note r = read_ok [OF assms(1) assms(2) [unfolded region_of_def] lo hi f(3) assms(9)]
  then show "n = bsize ?c" "dinv w' L" "\<forall>j. room w j \<longrightarrow> room w' j" "byte_at w' = byte_at w" by blast+
  from r have m: "m i = (if i < unat (bsize ?c) then byte_at w (bb_client b) (unat (offset ?c) + i)
      else advance dat (unat (max doff boff - doff)) i)" for i by blast
  show "store_back dat (unat (max doff boff - doff)) m =
      filled (bytes_of (byte_at w) b) (unat boff) (unat doff) (unat dsz) dat"
  proof
    fix i
    let ?s = "max (unat doff) (unat boff) - unat doff"
    show "store_back dat (unat (max doff boff - doff)) m i =
        filled (bytes_of (byte_at w) b) (unat boff) (unat doff) (unat dsz) dat i"
    proof (cases "i < ?s")
      case True
      then show ?thesis unfolding store_back_def f(4) filled_def by (auto simp: max_def split: if_splits)
    next
      case False
      then have ge: "unat boff \<le> unat doff + i" by (auto simp: max_def split: if_splits)
      have iff: "i - ?s < unat (bsize ?c) \<longleftrightarrow> i < unat dsz \<and> unat doff + i < unat boff + unat (bb_size b)"
        unfolding f using False assms(5,6) by (auto simp: max_def min_def split: if_splits)
      have pos: "unat (offset ?c) + (i - ?s) = unat (bb_target_offset b) + (unat doff + i - unat boff)"
        unfolding f using False by (auto simp: max_def split: if_splits)
      show ?thesis
      proof (cases "i - ?s < unat (bsize ?c)")
        case True
        obtain j where j: "unat doff + i = unat boff + j" using ge le_Suc_ex by blast
        have "j < unat (bb_size b)" using True iff j by simp
        then have "bytes_of (byte_at w) b ! (unat doff + i - unat boff) = byte_at w (bb_client b) (unat (offset ?c) + (i - ?s))"
          unfolding pos j by (simp add: bytes_of_def)
        moreover have "store_back dat (unat (max doff boff - doff)) m i = byte_at w (bb_client b) (unat (offset ?c) + (i - ?s))"
          unfolding store_back_def f(4) using False True by (simp only: if_False m if_True)
        ultimately show ?thesis using ge True iff by (simp add: filled_def)
      next
        case out: False
        then show ?thesis using False ge iff
          by (auto simp: store_back_def f(4) m filled_def advance_def)
      qed
    qed
  qed
qed

lemma read_loop_spec:
  assumes "dinv w L" and "mset (map region_of bs) \<subseteq># L" and "blocks_ok bs"
    and "unat boff + blob_len bs < 2 ^ 64" and "unat doff + unat dsz < 2 ^ 64" and "0 < dsz"
    and "unat rem = left_at (unat doff) (unat dsz) (unat boff)"
    and "read_loop api dsz doff bs boff rem dat w = (rs, dat', w')"
  shows "await_transfers rs = 0 \<and> dinv w' L \<and> (\<forall>j. room w j \<longrightarrow> room w' j) \<and> byte_at w' = byte_at w \<and>
    dat' = filled (blob_bytes (byte_at w) bs) (unat boff) (unat doff) (unat dsz) dat"
  using assms
proof (induction bs arbitrary: boff rem w rs dat)
  case Nil
  then show ?case by simp
next
  case (Cons b bs)
  have r: "region_of b \<in># L" "mset (map region_of bs) \<subseteq># L" using sub_split [OF Cons.prems(2)] by auto
  have ok: "0 < bb_size b" "blocks_ok bs" using Cons.prems(3) by auto
  have bnd: "unat boff + unat (bb_size b) < 2 ^ 64" using Cons.prems(4) by simp
  have pos: "0 < unat dsz" using Cons.prems(6) by (simp add: word_less_nat_alt)
  note ca = clamp_arith [OF Cons.prems(5) bnd]
  have ub: "unat (boff + bb_size b) + blob_len bs < 2 ^ 64" using Cons.prems(4) by (simp add: ca(1))
  show ?case
  proof (cases "rem = 0")
    case True
    then have "unat doff + unat dsz \<le> unat boff" using Cons.prems(7) pos left_at_zero by simp
    then show ?thesis using True Cons.prems by (auto simp: filled_outside)
  next
    case False
    show ?thesis
    proof (cases "doff < boff + bb_size b \<and> doff + dsz > boff")
      case True
      then have in_range: "unat doff < unat boff + unat (bb_size b)" "unat boff < unat doff + unat dsz"
        using ca(3) by auto
      let ?c = "chunk dsz doff boff b"
      let ?k = "unat (max doff boff - doff)"
      obtain n m w1 where w1: "api_read api (bb_client b) (bb_target_query b) [?c]
          (advance dat ?k) (bsize ?c) w = (n, m, w1)" by (metis prod.exhaust)
      obtain rs1 where rs1: "read_loop api dsz doff bs (boff + bb_size b) (rem - bsize ?c) (store_back dat ?k m) w1 = (rs1, dat', w')"
        and rs: "rs = (n, bsize ?c) # rs1"
        using Cons.prems(8) False True w1 by (auto simp: Let_def chunk_def split: prod.splits)
      note wc = read_chunk [OF Cons.prems(1) r(1) Cons.prems(5) bnd in_range Cons.prems(6) ok(1) w1]
      have sz: "unat (bsize ?c) = min (unat doff + unat dsz) (unat boff + unat (bb_size b)) - max (unat doff) (unat boff)"
        by (rule chunk_fields(2) [OF Cons.prems(5) bnd region_of_end [OF Cons.prems(1) r(1)] in_range Cons.prems(6) ok(1)])
      have "unat (bsize ?c) \<le> unat rem" using in_range unfolding Cons.prems(7) sz left_at_def by (auto simp: max_def min_def)
      then have rem': "unat (rem - bsize ?c) = left_at (unat doff) (unat dsz) (unat (boff + bb_size b))"
        using left_at_step(1) [OF in_range] by (simp add: unat_sub word_le_nat_alt Cons.prems(7) sz ca(1))
      note ih = Cons.IH [OF wc(2) r(2) ok(2) ub Cons.prems(5,6) rem' rs1]
      show ?thesis
        using ih wc(1,3,4) filled_append [of "blob_bytes (byte_at w) bs" "unat boff" "bytes_of (byte_at w) b"]
        by (simp add: rs wc(5) ca(1))
    next
      case out: False
      have nr: "\<not> (unat doff < unat boff + unat (bb_size b) \<and> unat boff < unat doff + unat dsz)"
        using out ca(3) by simp
      have m: "read_loop api dsz doff bs (boff + bb_size b) rem dat w = (rs, dat', w')"
        using Cons.prems(8) False out by (simp add: Let_def split: if_splits)
      have rem': "unat rem = left_at (unat doff) (unat dsz) (unat (boff + bb_size b))"
        using left_at_step(2) [OF nr] Cons.prems(7) by (simp add: ca(1))
      note ih = Cons.IH [OF Cons.prems(1) r(2) ok(2) ub Cons.prems(5,6) rem' m]
      have "filled (bytes_of (byte_at w) b) (unat boff) (unat doff) (unat dsz) dat = dat"
        using nr by (intro filled_outside) auto
      then show ?thesis
        using ih filled_append [of "blob_bytes (byte_at w) bs" "unat boff" "bytes_of (byte_at w) b" "unat doff" "unat dsz" dat]
        by (simp add: ca(1))
    qed
  qed
qed

text \<open>The two operations from the start of the blob.\<close>

lemma ModifyExistingData_spec:
  assumes "dinv w L" and "mset (map region_of bs) \<subseteq># L" and "blocks_ok bs" and "blob_len bs < 2 ^ 64"
    and "unat doff + unat dsz < 2 ^ 64" and "0 < dsz"
    and "ModifyExistingData api bs dat dsz doff w = (rc, w')"
  shows "rc = 0 \<and> dinv w' L \<and> (\<forall>j. room w j \<longrightarrow> room w' j) \<and>
    (\<forall>p i. (\<forall>b \<in> set bs. \<not> in_region (region_of b) p i) \<longrightarrow> byte_at w' p i = byte_at w p i) \<and>
    blob_bytes (byte_at w') bs = overlay dat (unat doff) (unat dsz) 0 (blob_bytes (byte_at w) bs)"
proof -
  obtain rs where m: "modify_loop api dat dsz doff bs 0 dsz w = (rs, w')" and rc: "rc = await_transfers rs"
    using assms(7) by (auto simp: ModifyExistingData_def split: prod.splits)
  have "unat (0 :: u64) + blob_len bs < 2 ^ 64" using assms(4) by simp
  from modify_loop_spec [OF assms(1-3) this assms(5,6) _ m] show ?thesis by (simp add: rc)
qed

lemma ReadData_spec:
  assumes "dinv w L" and "mset (map region_of bs) \<subseteq># L" and "blocks_ok bs" and "blob_len bs < 2 ^ 64"
    and "unat doff + unat dsz < 2 ^ 64" and "0 < dsz"
    and "ReadData api bs dat dsz doff w = (rc, dat', w')"
  shows "rc = 0 \<and> dinv w' L \<and> (\<forall>j. room w j \<longrightarrow> room w' j) \<and> byte_at w' = byte_at w \<and>
    dat' = filled (blob_bytes (byte_at w) bs) 0 (unat doff) (unat dsz) dat"
proof -
  obtain rs where m: "read_loop api dsz doff bs 0 dsz dat w = (rs, dat', w')" and rc: "rc = await_transfers rs"
    using assms(7) by (auto simp: ReadData_def split: prod.splits)
  have "unat (0 :: u64) + blob_len bs < 2 ^ 64" using assms(4) by simp
  from read_loop_spec [OF assms(1-3) this assms(5,6) _ m] show ?thesis by (simp add: rc)
qed

end

end
