(* ===== verification/Dpe.thy ===== *)
theory Dpe
  imports Cte_Types
begin

text \<open>
  The data placement engines (core\_dpe.cc): which targets a blob is placed on,
  and in which order they are tried. \<^verbatim>\<open>std::shuffle\<close> and \<^verbatim>\<open>std::sort\<close> are
  parameters, since the standard leaves their results open: \<open>shuffle k\<close> is the
  \<open>k\<close>-th shuffle with the engine's generator, \<open>srt lt\<close> sorts by the comparator
  \<open>lt\<close>. The hypotheses \<open>shuffle_ok\<close> and \<open>sort_ok\<close> are what the standard promises.
\<close>

section \<open>Engines\<close>

datatype DpeType = kRandom | kRoundRobin | kMaxBW

definition StringToDpeType :: "string \<Rightarrow> DpeType" where
  "StringToDpeType s =
     (if s = ''random'' then kRandom
      else if s = ''round_robin'' \<or> s = ''roundrobin'' then kRoundRobin
      else if s = ''max_bw'' \<or> s = ''maxbw'' then kMaxBW
      else kRandom)"

fun DpeTypeToString :: "DpeType \<Rightarrow> string" where
  "DpeTypeToString kRandom = ''random''"
| "DpeTypeToString kRoundRobin = ''round_robin''"
| "DpeTypeToString kMaxBW = ''max_bw''"

type_synonym shuffle = "nat \<Rightarrow> TargetInfo list \<Rightarrow> TargetInfo list"
type_synonym std_sort = "(TargetInfo \<Rightarrow> TargetInfo \<Rightarrow> bool) \<Rightarrow> TargetInfo list \<Rightarrow> TargetInfo list"

text \<open>The loop that splits the targets with enough space by score.\<close>

fun partition_loop :: "f32 \<Rightarrow> u64 \<Rightarrow> TargetInfo list \<Rightarrow> TargetInfo list \<Rightarrow> TargetInfo list
    \<Rightarrow> TargetInfo list \<times> TargetInfo list" where
  "partition_loop blob_score data_size [] low high = (low, high)"
| "partition_loop blob_score data_size (t # ts) low high =
     (if ti_remaining_space t \<ge> data_size
      then if f32_le (ti_target_score t) blob_score
           then partition_loop blob_score data_size ts (low @ [t]) high
           else partition_loop blob_score data_size ts low (high @ [t])
      else partition_loop blob_score data_size ts low high)"

definition RandomDpe_SelectTargets :: "shuffle \<Rightarrow> TargetInfo list \<Rightarrow> f32 \<Rightarrow> u64 \<Rightarrow> TargetInfo list" where
  "RandomDpe_SelectTargets shuffle targets blob_score data_size =
     (if targets = [] then []
      else let (low, high) = partition_loop blob_score data_size targets [] []
           in shuffle 0 low @ shuffle 1 high)"

definition rotate_by :: "u32 \<Rightarrow> TargetInfo list \<Rightarrow> TargetInfo list" where
  "rotate_by counter ts =
     (if ts \<noteq> []
      then let shift_amount = unat counter mod length ts
           in if shift_amount > 0 then drop shift_amount ts @ take shift_amount ts else ts
      else ts)"

definition RoundRobinDpe_SelectTargets :: "u32 \<Rightarrow> TargetInfo list \<Rightarrow> f32 \<Rightarrow> u64 \<Rightarrow> TargetInfo list \<times> u32" where
  "RoundRobinDpe_SelectTargets counter targets blob_score data_size =
     (if targets = [] then ([], counter)
      else let (low, high) = partition_loop blob_score data_size targets [] []
           in (rotate_by counter low @ rotate_by counter high, counter + 1))"

definition kLatencyThreshold :: u64 where
  "kLatencyThreshold = 32 * 1024"

definition perf_comparator :: "u64 \<Rightarrow> TargetInfo \<Rightarrow> TargetInfo \<Rightarrow> bool" where
  "perf_comparator data_size a b =
     (if data_size \<ge> kLatencyThreshold
      then write_bandwidth_mbps (ti_perf_metrics a) > write_bandwidth_mbps (ti_perf_metrics b)
      else (read_latency_us (ti_perf_metrics a) + write_latency_us (ti_perf_metrics a)) / 2
         < (read_latency_us (ti_perf_metrics b) + write_latency_us (ti_perf_metrics b)) / 2)"

definition MaxBwDpe_SelectTargets :: "std_sort \<Rightarrow> TargetInfo list \<Rightarrow> f32 \<Rightarrow> u64 \<Rightarrow> TargetInfo list" where
  "MaxBwDpe_SelectTargets srt targets blob_score data_size =
     (if targets = [] then []
      else let available = filter (\<lambda>t. ti_remaining_space t \<ge> data_size) targets
           in if available = [] then []
              else let low = filter (\<lambda>t. f32_le (ti_target_score t) blob_score) available;
                       high = filter (\<lambda>t. \<not> f32_le (ti_target_score t) blob_score) available
                   in srt (perf_comparator data_size) low @ srt (\<lambda>a b. perf_comparator data_size b a) high)"

text \<open>\<^verbatim>\<open>DpeFactory::CreateDpe\<close> and the call through the interface; the round-robin counter is shared by all engines.\<close>

definition SelectTargets :: "shuffle \<Rightarrow> std_sort \<Rightarrow> DpeType \<Rightarrow> u32 \<Rightarrow> TargetInfo list \<Rightarrow> f32 \<Rightarrow> u64
    \<Rightarrow> TargetInfo list \<times> u32" where
  "SelectTargets shuffle srt type counter targets blob_score data_size =
     (case type of
        kRandom \<Rightarrow> (RandomDpe_SelectTargets shuffle targets blob_score data_size, counter)
      | kRoundRobin \<Rightarrow> RoundRobinDpe_SelectTargets counter targets blob_score data_size
      | kMaxBW \<Rightarrow> (MaxBwDpe_SelectTargets srt targets blob_score data_size, counter))"

section \<open>What the standard promises\<close>

definition shuffle_ok :: "shuffle \<Rightarrow> bool" where
  "shuffle_ok sh \<longleftrightarrow> (\<forall>k ts. mset (sh k ts) = mset ts)"

text \<open>\<^verbatim>\<open>std::sort\<close> with a strict weak order: a permutation in which no element precedes a smaller one.\<close>

definition strict_weak :: "('a \<Rightarrow> 'a \<Rightarrow> bool) \<Rightarrow> bool" where
  "strict_weak lt \<longleftrightarrow> (\<forall>a b. lt a b \<longrightarrow> \<not> lt b a) \<and> (\<forall>a b c. lt a b \<longrightarrow> lt a c \<or> lt c b)"

definition sort_ok :: "std_sort \<Rightarrow> bool" where
  "sort_ok srt \<longleftrightarrow> (\<forall>lt ts. strict_weak lt \<longrightarrow>
     mset (srt lt ts) = mset ts \<and> sorted_wrt (\<lambda>a b. \<not> lt b a) (srt lt ts))"

text \<open>An instance of each.\<close>

fun insert_before :: "(TargetInfo \<Rightarrow> TargetInfo \<Rightarrow> bool) \<Rightarrow> TargetInfo \<Rightarrow> TargetInfo list \<Rightarrow> TargetInfo list" where
  "insert_before lt x [] = [x]"
| "insert_before lt x (y # ys) = (if lt y x then y # insert_before lt x ys else x # y # ys)"

definition insertion_sort :: std_sort where
  "insertion_sort lt ts = foldr (insert_before lt) ts []"

definition reverse_shuffle :: shuffle where
  "reverse_shuffle k ts = rev ts"

section \<open>Lemmas\<close>

lemma DpeType_roundtrip [simp]: "StringToDpeType (DpeTypeToString d) = d"
  by (cases d) (simp_all add: StringToDpeType_def)

lemma partition_loop_filter:
  "partition_loop bs n ts low high =
     (low @ filter (\<lambda>t. ti_remaining_space t \<ge> n \<and> f32_le (ti_target_score t) bs) ts,
      high @ filter (\<lambda>t. ti_remaining_space t \<ge> n \<and> \<not> f32_le (ti_target_score t) bs) ts)"
  by (induction bs n ts low high rule: partition_loop.induct) simp_all

lemma mset_rotate_by [simp]: "mset (rotate_by c ts) = mset ts"
proof -
  have "mset (drop k ts @ take k ts) = mset ts" for k
    using append_take_drop_id [of k ts] by (metis mset_append union_commute)
  then show ?thesis by (simp add: rotate_by_def Let_def del: mset_append)
qed

lemma strict_weak_perf: "strict_weak (perf_comparator n)"
  by (auto simp: strict_weak_def perf_comparator_def)

lemma strict_weak_flip: "strict_weak lt \<Longrightarrow> strict_weak (\<lambda>a b. lt b a)"
  unfolding strict_weak_def by blast

lemma mset_insert_before: "mset (insert_before lt x ys) = add_mset x (mset ys)"
  by (induction ys) simp_all

lemma sorted_insert_before:
  assumes "strict_weak lt" and "sorted_wrt (\<lambda>a b. \<not> lt b a) ys"
  shows "sorted_wrt (\<lambda>a b. \<not> lt b a) (insert_before lt x ys)"
  using assms(2)
proof (induction ys)
  case (Cons y ys)
  have set: "set (insert_before lt x ys) = insert x (set ys)"
    using mset_insert_before [of lt x ys] by (metis set_mset_add_mset_insert set_mset_mset)
  have trans: "\<not> lt b a \<Longrightarrow> \<not> lt c b \<Longrightarrow> \<not> lt c a" and asym: "lt a b \<Longrightarrow> \<not> lt b a" for a b c
    using assms(1) unfolding strict_weak_def by blast+
  show ?case
  proof (cases "lt y x")
    case True
    then show ?thesis using Cons asym [OF True] by (simp add: set)
  next
    case False
    then show ?thesis using Cons.prems trans [OF False] by simp
  qed
qed simp

lemma insertion_sort_ok: "sort_ok insertion_sort"
proof -
  have "mset (insertion_sort lt ts) = mset ts" for lt ts
    unfolding insertion_sort_def by (induction ts) (simp_all add: mset_insert_before)
  moreover have "sorted_wrt (\<lambda>a b. \<not> lt b a) (insertion_sort lt ts)" if "strict_weak lt" for lt ts
    unfolding insertion_sort_def by (induction ts) (simp_all add: sorted_insert_before [OF that])
  ultimately show ?thesis by (simp add: sort_ok_def)
qed

lemma reverse_shuffle_ok: "shuffle_ok reverse_shuffle"
  by (simp add: shuffle_ok_def reverse_shuffle_def)

lemma filter_mset_split: "{# t \<in># A. P t \<and> Q t #} + {# t \<in># A. P t \<and> \<not> Q t #} = {# t \<in># A. P t #}"
  by (induction A) auto

text \<open>The contract every engine meets: preferred targets, then fallback ones.\<close>

definition placement :: "TargetInfo list \<Rightarrow> f32 \<Rightarrow> u64 \<Rightarrow> TargetInfo list \<Rightarrow> TargetInfo list \<Rightarrow> bool" where
  "placement targets bs n low high \<longleftrightarrow>
     mset low = {# t \<in># mset targets. n \<le> ti_remaining_space t \<and> f32_le (ti_target_score t) bs #} \<and>
     mset high = {# t \<in># mset targets. n \<le> ti_remaining_space t \<and> \<not> f32_le (ti_target_score t) bs #}"

lemma SelectTargets_placement:
  assumes "shuffle_ok shuffle" and "sort_ok srt"
  shows "\<exists>low high. fst (SelectTargets shuffle srt type counter targets bs n) = low @ high \<and>
    placement targets bs n low high \<and>
    (type = kMaxBW \<longrightarrow> sorted_wrt (\<lambda>a b. \<not> perf_comparator n b a) low \<and>
       sorted_wrt (\<lambda>a b. \<not> perf_comparator n a b) high)"
proof -
  let ?P = "\<lambda>t. n \<le> ti_remaining_space t \<and> f32_le (ti_target_score t) bs"
  let ?Q = "\<lambda>t. n \<le> ti_remaining_space t \<and> \<not> f32_le (ti_target_score t) bs"
  have sh: "mset (shuffle k ts) = mset ts" for k ts using assms(1) by (simp add: shuffle_ok_def)
  have so: "mset (srt (perf_comparator n) ts) = mset ts"
      "sorted_wrt (\<lambda>a b. \<not> perf_comparator n b a) (srt (perf_comparator n) ts)"
      "mset (srt (\<lambda>a b. perf_comparator n b a) ts) = mset ts"
      "sorted_wrt (\<lambda>a b. \<not> perf_comparator n a b) (srt (\<lambda>a b. perf_comparator n b a) ts)" for ts
    using assms(2) strict_weak_perf strict_weak_flip [OF strict_weak_perf] by (auto simp: sort_ok_def)
  consider (rnd) "type = kRandom" | (rr) "type = kRoundRobin" | (bw) "type = kMaxBW" by (cases type) auto
  then show ?thesis
  proof cases
    case rnd
    show ?thesis
      by (rule exI [of _ "if targets = [] then [] else shuffle 0 (filter ?P targets)"],
          rule exI [of _ "if targets = [] then [] else shuffle 1 (filter ?Q targets)"])
        (simp add: rnd SelectTargets_def RandomDpe_SelectTargets_def partition_loop_filter placement_def sh)
  next
    case rr
    show ?thesis
      by (rule exI [of _ "rotate_by counter (filter ?P targets)"],
          rule exI [of _ "rotate_by counter (filter ?Q targets)"])
        (simp add: rr SelectTargets_def RoundRobinDpe_SelectTargets_def partition_loop_filter placement_def rotate_by_def [of _ "[]"])
  next
    case bw
    let ?A = "filter (\<lambda>t. n \<le> ti_remaining_space t) targets"
    have f: "filter ?P targets = filter (\<lambda>t. f32_le (ti_target_score t) bs) ?A"
      "filter ?Q targets = filter (\<lambda>t. \<not> f32_le (ti_target_score t) bs) ?A" by (simp_all add: conj_commute)
    show ?thesis
      by (rule exI [of _ "if ?A = [] then [] else srt (perf_comparator n) (filter ?P targets)"],
          rule exI [of _ "if ?A = [] then [] else srt (\<lambda>a b. perf_comparator n b a) (filter ?Q targets)"])
        (use so f in \<open>auto simp: bw SelectTargets_def MaxBwDpe_SelectTargets_def placement_def Let_def
           filter_empty_conv simp flip: mset_filter\<close>)
  qed
qed

lemma rotate_by_rotate: "rotate_by c ts = rotate (unat c) ts"
  by (simp add: rotate_by_def Let_def rotate_drop_take)

lemma RoundRobin_low:
  "fst (RoundRobinDpe_SelectTargets c targets bs n) =
     rotate (unat c) (filter (\<lambda>t. ti_remaining_space t \<ge> n \<and> f32_le (ti_target_score t) bs) targets) @
     rotate (unat c) (filter (\<lambda>t. ti_remaining_space t \<ge> n \<and> \<not> f32_le (ti_target_score t) bs) targets)"
  by (simp add: RoundRobinDpe_SelectTargets_def partition_loop_filter rotate_by_rotate)

text \<open>The counter is threaded through the calls.\<close>

primrec round_robin_calls :: "nat \<Rightarrow> u32 \<Rightarrow> TargetInfo list \<Rightarrow> f32 \<Rightarrow> u64 \<Rightarrow> TargetInfo list list \<times> u32" where
  "round_robin_calls 0 c targets bs n = ([], c)"
| "round_robin_calls (Suc k) c targets bs n =
     (case RoundRobinDpe_SelectTargets c targets bs n of
        (ts, c1) \<Rightarrow> (case round_robin_calls k c1 targets bs n of (rest, c2) \<Rightarrow> (ts # rest, c2)))"

lemma RoundRobin_counter: "targets \<noteq> [] \<Longrightarrow> snd (RoundRobinDpe_SelectTargets c targets bs n) = c + 1"
  by (simp add: RoundRobinDpe_SelectTargets_def split: prod.splits)

lemma round_robin_calls_nth:
  assumes "targets \<noteq> []"
  shows "length (fst (round_robin_calls k c targets bs n)) = k \<and> snd (round_robin_calls k c targets bs n) = c + of_nat k \<and>
    (\<forall>i < k. fst (round_robin_calls k c targets bs n) ! i = fst (RoundRobinDpe_SelectTargets (c + of_nat i) targets bs n))"
proof (induction k arbitrary: c)
  case (Suc k)
  have "RoundRobinDpe_SelectTargets c targets bs n = (fst (RoundRobinDpe_SelectTargets c targets bs n), c + 1)"
    using RoundRobin_counter [OF assms] by (metis prod.collapse)
  with Suc [of "c + 1"] show ?case by (auto simp: nth_Cons split: prod.splits nat.splits) (simp_all add: ac_simps)
qed simp

lemma hd_rotate_nth: "xs \<noteq> [] \<Longrightarrow> hd (rotate k xs) = xs ! (k mod length xs)"
  by (simp add: hd_conv_nth nth_rotate)

section \<open>Properties\<close>

definition demo_target :: "u64 \<Rightarrow> f32 \<Rightarrow> real \<Rightarrow> TargetInfo" where
  "demo_target space score bw = \<lparr>ti_target_name = ''t'', ti_bdev_pool_name = ''t'', ti_bdev_client = UniqueId_GetNull,
     ti_target_query = PoolQuery_Local, ti_bytes_read = 0, ti_bytes_written = 0, ti_ops_read = 0, ti_ops_written = 0,
     ti_target_score = score, ti_remaining_space = space,
     ti_perf_metrics = \<lparr>read_bandwidth_mbps = bw, write_bandwidth_mbps = bw, read_latency_us = 0,
       write_latency_us = 0, iops = 0\<rparr>, ti_persistence_level = kVolatile\<rparr>"

text \<open>
  C36. Every placement engine returns each target with enough space exactly
  once and no other; the targets whose score does not exceed the blob's come
  first. The maximum-bandwidth engine orders the first group by decreasing
  performance and the second by increasing performance.
\<close>

theorem SelectTargets_correct:
  assumes "shuffle_ok shuffle" and "sort_ok srt"
  shows "\<exists>low high. fst (SelectTargets shuffle srt type counter targets bs n) = low @ high \<and>
    mset (low @ high) = {# t \<in># mset targets. n \<le> ti_remaining_space t #} \<and>
    (\<forall>t \<in> set low. f32_le (ti_target_score t) bs) \<and> (\<forall>t \<in> set high. \<not> f32_le (ti_target_score t) bs) \<and>
    (type = kMaxBW \<longrightarrow> sorted_wrt (\<lambda>a b. \<not> perf_comparator n b a) low \<and>
       sorted_wrt (\<lambda>a b. \<not> perf_comparator n a b) high)"
proof -
  obtain low high where r: "fst (SelectTargets shuffle srt type counter targets bs n) = low @ high"
      "placement targets bs n low high"
      "type = kMaxBW \<longrightarrow> sorted_wrt (\<lambda>a b. \<not> perf_comparator n b a) low \<and>
         sorted_wrt (\<lambda>a b. \<not> perf_comparator n a b) high"
    using SelectTargets_placement [OF assms, of type counter targets bs n] by (elim exE conjE) (rule that)
  have l: "mset low = {# t \<in># mset targets. n \<le> ti_remaining_space t \<and> f32_le (ti_target_score t) bs #}"
    and h: "mset high = {# t \<in># mset targets. n \<le> ti_remaining_space t \<and> \<not> f32_le (ti_target_score t) bs #}"
    using r(2) unfolding placement_def by blast+
  show ?thesis
  proof (rule exI [of _ low], rule exI [of _ high], intro conjI)
    show "mset (low @ high) = {# t \<in># mset targets. n \<le> ti_remaining_space t #}"
      unfolding mset_append l h by (rule filter_mset_split)
    have "\<forall>t \<in># mset low. f32_le (ti_target_score t) bs" unfolding l by simp
    then show "\<forall>t \<in> set low. f32_le (ti_target_score t) bs" by simp
    have "\<forall>t \<in># mset high. \<not> f32_le (ti_target_score t) bs" unfolding h by simp
    then show "\<forall>t \<in> set high. \<not> f32_le (ti_target_score t) bs" by simp
  qed (fact r)+
qed

theorem SelectTargets_correct_witness:
  "\<exists>low high. fst (SelectTargets reverse_shuffle insertion_sort kMaxBW 0
      [demo_target 10 0 1, demo_target 10 0 2, demo_target 1 0 3] f32_one 5) = low @ high \<and>
    mset (low @ high) = {# t \<in># mset [demo_target 10 0 1, demo_target 10 0 2, demo_target 1 0 3].
      5 \<le> ti_remaining_space t #}"
  using SelectTargets_correct [OF reverse_shuffle_ok insertion_sort_ok, of kMaxBW 0
      "[demo_target 10 0 1, demo_target 10 0 2, demo_target 1 0 3]" f32_one 5] by blast

text \<open>
  CX. Round-robin placement is fair: as many consecutive calls as there are
  preferred targets put each of them first exactly once, in their order from
  the position of the counter on, while the counter does not wrap around.
\<close>

theorem round_robin_fair:
  assumes "low = filter (\<lambda>t. n \<le> ti_remaining_space t \<and> f32_le (ti_target_score t) bs) targets"
    and "low \<noteq> []" and "unat c + length low \<le> 2 ^ 32"
  shows "map hd (fst (round_robin_calls (length low) c targets bs n)) = rotate (unat c) low \<and>
    mset (map hd (fst (round_robin_calls (length low) c targets bs n))) = mset low \<and>
    snd (round_robin_calls (length low) c targets bs n) = c + of_nat (length low)"
proof -
  have ne: "targets \<noteq> []" using assms(1,2) by auto
  note calls = round_robin_calls_nth [OF ne, of "length low" c bs n]
  have "map hd (fst (round_robin_calls (length low) c targets bs n)) = rotate (unat c) low"
  proof (rule nth_equalityI)
    fix i assume "i < length (map hd (fst (round_robin_calls (length low) c targets bs n)))"
    then have i: "i < length low" using calls by simp
    have u: "unat (c + of_nat i) = unat c + i" using i assms(3) by (simp add: unat_word_ariths unat_of_nat)
    have "map hd (fst (round_robin_calls (length low) c targets bs n)) ! i = hd (rotate (unat c + i) low)"
      using calls i u assms(1,2) by (simp add: RoundRobin_low hd_append)
    also have "\<dots> = rotate (unat c) low ! i" using i assms(2) by (simp add: hd_rotate_nth nth_rotate)
    finally show "map hd (fst (round_robin_calls (length low) c targets bs n)) ! i = rotate (unat c) low ! i" .
  qed (use calls in simp)
  moreover have "mset (rotate (unat c) low) = mset low"
    by (metis add.commute append_take_drop_id mset_append rotate_drop_take)
  ultimately show ?thesis using calls by simp
qed

theorem round_robin_fair_witness:
  "map hd (fst (round_robin_calls 2 7 [demo_target 10 0 1, demo_target 10 0 2] f32_one 5)) =
     [demo_target 10 0 2, demo_target 10 0 1]"
proof -
  have f: "f32_le 0 f32_one" by (simp add: f32_le_def f32_isnan_def f32_magnitude_def f32_one_def f32_key_def)
  then have "[demo_target 10 0 1, demo_target 10 0 2] = filter (\<lambda>t. 5 \<le> ti_remaining_space t \<and>
      f32_le (ti_target_score t) f32_one) [demo_target 10 0 1, demo_target 10 0 2]"
    by (simp add: demo_target_def word_le_nat_alt)
  note fair = round_robin_fair [OF this, of 7]
  have l: "length [demo_target 10 0 1, demo_target 10 0 2] = 2" by simp
  have "rotate (unat (7 :: u32)) [demo_target 10 0 1, demo_target 10 0 2] = [demo_target 10 0 2, demo_target 10 0 1]"
    by (simp add: rotate_drop_take flip: numeral_2_eq_2)
  then show ?thesis using fair [unfolded l, THEN conjunct1] by simp
qed

end
