(* ===== verification/Cte_Core.thy ===== *)
theory Cte_Core
  imports Cte_Blocks Dpe Txn_Log Ring_Buffer
begin

text \<open>
  The runtime of the context transfer engine (core\_runtime.cc): targets, tags
  and blobs. The state is a record of the tables the class \<^verbatim>\<open>Runtime\<close> keeps;
  \<open>world\<close> is the state of the devices behind the clients. Every handler takes
  the environment (the device client, hash functions, configuration, the clock
  reading and the worker it runs on), its task's fields, and the state, and
  returns the task's outputs and the new state.

  A handler runs to completion: interleaving at its suspension points is not
  modelled. Calls the engine makes to itself through its client
  (\<^verbatim>\<open>AsyncGetBlob\<close>, \<^verbatim>\<open>AsyncPutBlob\<close>, \<^verbatim>\<open>AsyncDelBlob\<close>) are calls of the
  handlers on the same container. All readings of the clock in one handler are
  \<open>e_now\<close>. The catch-all clauses around the handlers turn exceptions of the
  standard library into a return code; allocation failure is not modelled.
\<close>

section \<open>Environment and state\<close>

record 'w cte_env =
  e_api :: "'w bdev_api"
  e_hash_str :: "string \<Rightarrow> u64"
  e_hash_u32 :: "u32 \<Rightarrow> u64"
  e_shuffle :: shuffle
  e_sort :: std_sort
  e_node_id :: u32
  e_now :: Timestamp
  e_worker_id :: u32
  e_dpe_type :: string
  e_score_difference_threshold :: f32
  e_abs_diff :: "f32 \<Rightarrow> f32 \<Rightarrow> f32"
  e_log_bandwidth :: "real \<Rightarrow> f32"
  e_AllocateBuffer :: "u64 \<Rightarrow> mem option"

record 'w Cte =
  registered_targets :: "(PoolId, TargetInfo) unordered_map_ll"
  target_name_to_id :: "(string, PoolId) unordered_map_ll"
  tag_name_to_id :: "(string, TagId) unordered_map_ll"
  tag_id_to_info :: "(TagId, TagInfo) unordered_map_ll"
  tag_blob_name_to_info :: "(string, BlobInfo) unordered_map_ll"
  next_tag_id_minor :: u32
  telemetry_log :: "CteTelemetry ring_buffer"
  telemetry_counter :: u64
  blob_txn_logs :: "TransactionLog list"
  tag_txn_logs :: "TransactionLog list"
  storage_devices :: "StorageDeviceConfig list"
  round_robin_counter :: u32
  world :: 'w

text \<open>The table operations at the hash functions the tables use.\<close>

abbreviation e_hash_id :: "'w cte_env \<Rightarrow> UniqueId \<Rightarrow> u64" where
  "e_hash_id e \<equiv> hash_UniqueId (e_hash_u32 e)"

abbreviation find_target :: "'w cte_env \<Rightarrow> 'w Cte \<Rightarrow> PoolId \<Rightarrow> TargetInfo option" where
  "find_target e s \<equiv> ml_find (e_hash_id e) (registered_targets s)"

abbreviation find_tag :: "'w cte_env \<Rightarrow> 'w Cte \<Rightarrow> TagId \<Rightarrow> TagInfo option" where
  "find_tag e s \<equiv> ml_find (e_hash_id e) (tag_id_to_info s)"

abbreviation find_blob :: "'w cte_env \<Rightarrow> 'w Cte \<Rightarrow> string \<Rightarrow> BlobInfo option" where
  "find_blob e s \<equiv> ml_find (e_hash_str e) (tag_blob_name_to_info s)"

text \<open>Writes through a pointer into a table.\<close>

definition with_target :: "'w cte_env \<Rightarrow> PoolId \<Rightarrow> (TargetInfo \<Rightarrow> TargetInfo) \<Rightarrow> 'w Cte \<Rightarrow> 'w Cte" where
  "with_target e p f s = s\<lparr>registered_targets := ml_modify (e_hash_id e) p f (registered_targets s)\<rparr>"

definition with_tag :: "'w cte_env \<Rightarrow> TagId \<Rightarrow> (TagInfo \<Rightarrow> TagInfo) \<Rightarrow> 'w Cte \<Rightarrow> 'w Cte" where
  "with_tag e t f s = s\<lparr>tag_id_to_info := ml_modify (e_hash_id e) t f (tag_id_to_info s)\<rparr>"

definition with_blob :: "'w cte_env \<Rightarrow> string \<Rightarrow> (BlobInfo \<Rightarrow> BlobInfo) \<Rightarrow> 'w Cte \<Rightarrow> 'w Cte" where
  "with_blob e k f s = s\<lparr>tag_blob_name_to_info := ml_modify (e_hash_str e) k f (tag_blob_name_to_info s)\<rparr>"

section \<open>Telemetry and transaction logs\<close>

definition LogTelemetry :: "CteOp \<Rightarrow> u64 \<Rightarrow> u64 \<Rightarrow> TagId \<Rightarrow> u64 \<Rightarrow> Timestamp \<Rightarrow> Timestamp \<Rightarrow> 'w Cte \<Rightarrow> 'w Cte" where
  "LogTelemetry op off len tag_id blob_hash mod_time read_time s =
     (let logical_time = telemetry_counter s + 1;
          entry = \<lparr>te_op = op, te_off = off, te_size = len, te_tag_id = tag_id, te_blob_hash = blob_hash,
            te_mod_time = mod_time, te_read_time = read_time, te_logical_time = logical_time\<rparr>
      in s\<lparr>telemetry_counter := logical_time,
           telemetry_log := (case rb_Emplace Overwrite entry (telemetry_log s) of
             Some (_, r) \<Rightarrow> r | None \<Rightarrow> telemetry_log s)\<rparr>)"

definition log_on_worker :: "u32 \<Rightarrow> TxnType \<Rightarrow> u8 list \<Rightarrow> TransactionLog list \<Rightarrow> TransactionLog list" where
  "log_on_worker wid type payload logs =
     (if logs \<noteq> [] then let i = unat wid mod length logs in logs[i := WriteRecord type payload (logs ! i)] else logs)"

definition log_blob :: "'w cte_env \<Rightarrow> TxnType \<Rightarrow> u8 list \<Rightarrow> 'w Cte \<Rightarrow> 'w Cte" where
  "log_blob e type payload s = s\<lparr>blob_txn_logs := log_on_worker (e_worker_id e) type payload (blob_txn_logs s)\<rparr>"

definition log_tag :: "'w cte_env \<Rightarrow> TxnType \<Rightarrow> u8 list \<Rightarrow> 'w Cte \<Rightarrow> 'w Cte" where
  "log_tag e type payload s = s\<lparr>tag_txn_logs := log_on_worker (e_worker_id e) type payload (tag_txn_logs s)\<rparr>"

definition blob_ref :: "TagId \<Rightarrow> string \<Rightarrow> u8 list" where
  "blob_ref t name = put_BlobRef \<lparr>br_tag_major = id_major t, br_tag_minor = id_minor t, br_blob_name = name\<rparr>"

definition tag_ref :: "string \<Rightarrow> TagId \<Rightarrow> u8 list" where
  "tag_ref name t = put_TagRef \<lparr>tr_tag_name = name, tr_tag_major = id_major t, tr_tag_minor = id_minor t\<rparr>"

definition txn_block :: "BlobBlock \<Rightarrow> TxnExtendBlobBlock" where
  "txn_block b = \<lparr>bdev_major = id_major (bb_client b), bdev_minor = id_minor (bb_client b),
     target_query = bb_target_query b, target_offset = bb_target_offset b, tb_size = bb_size b\<rparr>"

section \<open>Blob helpers\<close>

definition CheckBlobExists :: "'w cte_env \<Rightarrow> string \<Rightarrow> TagId \<Rightarrow> 'w Cte \<Rightarrow> BlobInfo option" where
  "CheckBlobExists e blob_name tag_id s =
     (if blob_name = [] then None else find_blob e s (composite_key tag_id blob_name))"

text \<open>The result tells whether a pointer to the new entry was returned.\<close>

definition CreateNewBlob :: "'w cte_env \<Rightarrow> string \<Rightarrow> TagId \<Rightarrow> f32 \<Rightarrow> 'w Cte \<Rightarrow> bool \<times> 'w Cte" where
  "CreateNewBlob e blob_name tag_id blob_score s =
     (if blob_name = [] then (False, s)
      else
        let new_blob_info = (BlobInfo_new (e_now e))\<lparr>bi_blob_name := blob_name, bi_score := blob_score\<rparr>;
            s1 = s\<lparr>tag_blob_name_to_info := snd (ml_insert_or_assign (e_hash_str e)
                     (composite_key tag_id blob_name) new_blob_info (tag_blob_name_to_info s))\<rparr>
        in (True, log_blob e kCreateNewBlob
              (put_CreateNewBlob \<lparr>cn_tag_major = id_major tag_id, cn_tag_minor = id_minor tag_id,
                 cn_blob_name = blob_name, cn_score = blob_score\<rparr>) s1))"

definition AllocateFromTarget :: "'w bdev_api \<Rightarrow> TargetInfo \<Rightarrow> u64 \<Rightarrow> 'w \<Rightarrow> u64 option \<times> TargetInfo \<times> 'w" where
  "AllocateFromTarget api target_info len w =
     (if ti_remaining_space target_info < len then (None, target_info, w)
      else let (allocated_blocks, w') = api_alloc api (ti_bdev_client target_info) (ti_target_query target_info) len w
           in if allocated_blocks = [] then (None, target_info, w')
              else (Some (offset (hd allocated_blocks)),
                    target_info\<lparr>ti_remaining_space := ti_remaining_space target_info - len\<rparr>, w'))"

text \<open>
  The allocation loop of \<^verbatim>\<open>ExtendBlob\<close> on the blob with key \<open>k\<close>. The target
  is copied out of the table, so that the space \<^verbatim>\<open>AllocateFromTarget\<close>
  subtracts is lost with the copy.
\<close>

fun extend_loop :: "'w cte_env \<Rightarrow> string \<Rightarrow> TargetInfo list \<Rightarrow> u64 \<Rightarrow> 'w Cte \<Rightarrow> u64 \<times> 'w Cte" where
  "extend_loop e k [] remaining_to_allocate s = (remaining_to_allocate, s)"
| "extend_loop e k (t # ts) remaining_to_allocate s =
     (if remaining_to_allocate = 0 then (remaining_to_allocate, s)
      else case find_target e s (ti_bdev_client t) of
             None \<Rightarrow> extend_loop e k ts remaining_to_allocate s
           | Some target_info_copy \<Rightarrow>
               let allocate_size = min remaining_to_allocate (ti_remaining_space target_info_copy)
               in if allocate_size = 0 then extend_loop e k ts remaining_to_allocate s
                  else case AllocateFromTarget (e_api e) target_info_copy allocate_size (world s) of
                         (None, _, w') \<Rightarrow> extend_loop e k ts remaining_to_allocate (s\<lparr>world := w'\<rparr>)
                       | (Some allocated_offset, _, w') \<Rightarrow>
                           let new_block = \<lparr>bb_client = ti_bdev_client target_info_copy,
                                 bb_target_query = ti_target_query target_info_copy,
                                 bb_target_offset = allocated_offset, bb_size = allocate_size\<rparr>
                           in extend_loop e k ts (remaining_to_allocate - allocate_size)
                                (with_blob e k (\<lambda>bi. bi\<lparr>bi_blocks := bi_blocks bi @ [new_block]\<rparr>) (s\<lparr>world := w'\<rparr>)))"

definition ExtendBlob :: "'w cte_env \<Rightarrow> string \<Rightarrow> BlobInfo \<Rightarrow> u64 \<Rightarrow> u64 \<Rightarrow> f32 \<Rightarrow> int \<Rightarrow> 'w Cte \<Rightarrow> u32 \<times> 'w Cte" where
  "ExtendBlob e k blob_info off len blob_score min_persistence_level s =
     (let current_blob_size = GetTotalSize blob_info; required_size = off + len
      in if required_size \<le> current_blob_size then (0, s)
         else
           let additional_size = required_size - current_blob_size;
               available_targets = map snd (ml_entries (registered_targets s))
           in if available_targets = [] then (1, s)
              else
                let (ordered, counter) = SelectTargets (e_shuffle e) (e_sort e) (StringToDpeType (e_dpe_type e))
                      (round_robin_counter s) available_targets blob_score additional_size;
                    s1 = s\<lparr>round_robin_counter := counter\<rparr>;
                    ordered_targets = (if min_persistence_level > 0
                      then filter (\<lambda>t. \<not> persistence_code (ti_persistence_level t) < min_persistence_level) ordered
                      else ordered)
                in if ordered_targets = [] then (2, s1)
                   else let (remaining, s2) = extend_loop e k ordered_targets additional_size s1
                        in (if remaining > 0 then 3 else 0, s2))"

text \<open>
  The blocks of a blob grouped by pool, the pools in the order of their first
  block (an \<^verbatim>\<open>unordered_map\<close> in the code, whose order is not specified).
\<close>

fun add_to_pool :: "PoolId \<Rightarrow> PoolQuery \<Rightarrow> Block \<Rightarrow> (PoolId \<times> PoolQuery \<times> Block list) list
    \<Rightarrow> (PoolId \<times> PoolQuery \<times> Block list) list" where
  "add_to_pool p q b [] = [(p, q, [b])]"
| "add_to_pool p q b ((p', q', bs) # ps) =
     (if p' = p then (p', q', bs @ [b]) # ps else (p', q', bs) # add_to_pool p q b ps)"

definition freed_block :: "BlobBlock \<Rightarrow> Block" where
  "freed_block b = \<lparr>offset = bb_target_offset b, bsize = bb_size b, block_type = 0\<rparr>"

definition blocks_by_pool :: "BlobBlock list \<Rightarrow> (PoolId \<times> PoolQuery \<times> Block list) list" where
  "blocks_by_pool bs = foldl (\<lambda>ps b. add_to_pool (bb_client b) (bb_target_query b) (freed_block b) ps) [] bs"

definition free_pool :: "'w cte_env \<Rightarrow> 'w Cte \<Rightarrow> PoolId \<times> PoolQuery \<times> Block list \<Rightarrow> 'w Cte" where
  "free_pool e s entry =
     (case entry of (p, q, bs) \<Rightarrow>
        let bytes_freed = foldl (\<lambda>n b. n + bsize b) 0 bs;
            (free_result, w') = api_free (e_api e) p q bs (world s);
            s1 = s\<lparr>world := w'\<rparr>
        in if free_result \<noteq> 0 then s1
           else with_target e p (\<lambda>t. t\<lparr>ti_remaining_space := ti_remaining_space t + bytes_freed\<rparr>) s1)"

definition FreeAllBlobBlocks :: "'w cte_env \<Rightarrow> string \<Rightarrow> BlobInfo \<Rightarrow> 'w Cte \<Rightarrow> u32 \<times> 'w Cte" where
  "FreeAllBlobBlocks e k blob_info s =
     (0, with_blob e k (\<lambda>bi. bi\<lparr>bi_blocks := []\<rparr>) (foldl (free_pool e) s (blocks_by_pool (bi_blocks blob_info))))"

definition ClearBlob :: "'w cte_env \<Rightarrow> string \<Rightarrow> BlobInfo \<Rightarrow> f32 \<Rightarrow> u64 \<Rightarrow> u64 \<Rightarrow> 'w Cte \<Rightarrow> bool \<times> 'w Cte" where
  "ClearBlob e k blob_info blob_score off len s =
     (if f32_less blob_score f32_zero \<or> f32_less f32_one blob_score then (False, s)
      else if off \<noteq> 0 \<or> GetTotalSize blob_info = 0 then (False, s)
      else let (free_result, s1) = FreeAllBlobBlocks e k blob_info s in (free_result = 0, s1))"

section \<open>Blob handlers\<close>

text \<open>
  \<open>put_finish\<close> is the tail of \<^verbatim>\<open>PutBlob\<close> after the data is written;
  \<open>put_store\<close> extends the blob, logs its blocks, and writes.
\<close>

definition put_finish :: "'w cte_env \<Rightarrow> TagId \<Rightarrow> string \<Rightarrow> u64 \<Rightarrow> u64 \<Rightarrow> f32 \<Rightarrow> Context \<Rightarrow> u64 \<Rightarrow> 'w Cte \<Rightarrow> 'w Cte" where
  "put_finish e tag_id blob_name off len blob_score cx old_blob_size s =
     (let k = composite_key tag_id blob_name; now = e_now e;
          new_blob_size = (case find_blob e s k of Some bi \<Rightarrow> GetTotalSize bi | None \<Rightarrow> 0);
          last_read = (case find_blob e s k of Some bi \<Rightarrow> bi_last_read bi | None \<Rightarrow> 0);
          size_change = new_blob_size - old_blob_size;
          s1 = with_blob e k (\<lambda>bi. bi\<lparr>bi_compress_lib := cx_compress_lib cx,
                 bi_compress_preset := cx_compress_preset cx, bi_trace_key := cx_trace_key cx,
                 bi_last_modified := now, bi_score := blob_score\<rparr>) s;
          s2 = with_tag e tag_id (\<lambda>t. t\<lparr>tg_last_modified := now,
                 tg_total_size := (if sint size_change \<ge> 0 then tg_total_size t + size_change
                                   else tg_total_size t - (- size_change))\<rparr>) s1
      in LogTelemetry kPutBlobOp off len tag_id (ComputeBlobHash tag_id blob_name) now last_read s2)"

definition put_store :: "'w cte_env \<Rightarrow> TagId \<Rightarrow> string \<Rightarrow> u64 \<Rightarrow> u64 \<Rightarrow> mem \<Rightarrow> f32 \<Rightarrow> Context \<Rightarrow> u64 \<Rightarrow> 'w Cte
    \<Rightarrow> u32 \<times> 'w Cte" where
  "put_store e tag_id blob_name off len blob_data blob_score cx old_blob_size s =
     (let k = composite_key tag_id blob_name
      in case find_blob e s k of
           None \<Rightarrow> (5, s)
         | Some bi \<Rightarrow>
             (case ExtendBlob e k bi off len blob_score (cx_min_persistence_level cx) s of
                (alloc_result, s1) \<Rightarrow>
                  if alloc_result \<noteq> 0 then (10 + alloc_result, s1)
                  else
                    let bs = (case find_blob e s1 k of Some bi1 \<Rightarrow> bi_blocks bi1 | None \<Rightarrow> []);
                        s2 = (if bs \<noteq> [] then log_blob e kExtendBlob
                                (put_ExtendBlob \<lparr>eb_tag_major = id_major tag_id, eb_tag_minor = id_minor tag_id,
                                   eb_blob_name = blob_name, new_blocks = map txn_block bs\<rparr>) s1 else s1)
                    in case ModifyExistingData (e_api e) bs blob_data len off (world s2) of
                         (write_result, w') \<Rightarrow>
                           let s3 = s2\<lparr>world := w'\<rparr>
                           in if write_result \<noteq> 0 then (20 + write_result, s3)
                              else (0, put_finish e tag_id blob_name off len blob_score cx old_blob_size s3)))"

definition PutBlob :: "'w cte_env \<Rightarrow> TagId \<Rightarrow> string \<Rightarrow> u64 \<Rightarrow> u64 \<Rightarrow> mem option \<Rightarrow> f32 \<Rightarrow> Context \<Rightarrow> 'w Cte
    \<Rightarrow> u32 \<times> 'w Cte" where
  "PutBlob e tag_id blob_name off len blob_data score cx s =
     (if len = 0 then (2, s)
      else case blob_data of None \<Rightarrow> (3, s) | Some dat \<Rightarrow>
        if blob_name = [] then (4, s)
        else
          let k = composite_key tag_id blob_name;
              found = CheckBlobExists e blob_name tag_id s;
              blob_score = (if f32_less score f32_zero
                            then (case found of Some bi \<Rightarrow> bi_score bi | None \<Rightarrow> f32_one) else score)
          in if f32_less f32_one blob_score then (5, s)
             else (case found of
                    Some bi \<Rightarrow>
                      (case ClearBlob e k bi blob_score off len s of
                         (was_cleared, s1) \<Rightarrow>
                           if was_cleared
                           then put_store e tag_id blob_name off len dat blob_score cx 0
                                  (log_blob e kClearBlob (blob_ref tag_id blob_name) s1)
                           else put_store e tag_id blob_name off len dat blob_score cx (GetTotalSize bi) s1)
                  | None \<Rightarrow>
                      (case CreateNewBlob e blob_name tag_id blob_score s of
                         (created, s1) \<Rightarrow>
                           if \<not> created then (5, s1)
                           else put_store e tag_id blob_name off len dat blob_score cx 0 s1)))"

definition GetBlob :: "'w cte_env \<Rightarrow> TagId \<Rightarrow> string \<Rightarrow> u64 \<Rightarrow> u64 \<Rightarrow> mem \<Rightarrow> 'w Cte \<Rightarrow> u32 \<times> mem \<times> 'w Cte" where
  "GetBlob e tag_id blob_name off len buf s =
     (if len = 0 then (1, buf, s)
      else if blob_name = [] then (1, buf, s)
      else case CheckBlobExists e blob_name tag_id s of
             None \<Rightarrow> (1, buf, s)
           | Some bi \<Rightarrow>
               (case ReadData (e_api e) (bi_blocks bi) buf len off (world s) of
                  (read_result, buf', w') \<Rightarrow>
                    let s1 = s\<lparr>world := w'\<rparr>
                    in if read_result \<noteq> 0 then (read_result, buf', s1)
                       else (0, buf',
                             LogTelemetry kGetBlobOp off len tag_id (ComputeBlobHash tag_id blob_name)
                               (bi_last_modified bi) (e_now e)
                               (with_blob e (composite_key tag_id blob_name) (\<lambda>bi. bi\<lparr>bi_last_read := e_now e\<rparr>) s1))))"

definition DelBlob :: "'w cte_env \<Rightarrow> TagId \<Rightarrow> string \<Rightarrow> 'w Cte \<Rightarrow> u32 \<times> 'w Cte" where
  "DelBlob e tag_id blob_name s =
     (if blob_name = [] then (1, s)
      else case CheckBlobExists e blob_name tag_id s of
             None \<Rightarrow> (1, s)
           | Some bi \<Rightarrow>
               let k = composite_key tag_id blob_name;
                   blob_size = GetTotalSize bi;
                   (free_result, s1) = FreeAllBlobBlocks e k bi s;
                   s2 = with_tag e tag_id (\<lambda>t. t\<lparr>tg_total_size :=
                          (if blob_size \<le> tg_total_size t then tg_total_size t - blob_size else 0)\<rparr>) s1;
                   s3 = s2\<lparr>tag_blob_name_to_info := snd (ml_erase (e_hash_str e) k (tag_blob_name_to_info s2))\<rparr>;
                   s4 = LogTelemetry kDelBlobOp 0 blob_size tag_id (ComputeBlobHash tag_id blob_name) (e_now e) (e_now e) s3
               in (0, log_blob e kDelBlob (blob_ref tag_id blob_name) s4))"

definition ReorganizeBlob :: "'w cte_env \<Rightarrow> TagId \<Rightarrow> string \<Rightarrow> f32 \<Rightarrow> 'w Cte \<Rightarrow> u32 \<times> 'w Cte" where
  "ReorganizeBlob e tag_id blob_name new_score s =
     (if blob_name = [] then (1, s)
      else if f32_less new_score f32_zero \<or> f32_less f32_one new_score then (1, s)
      else case CheckBlobExists e blob_name tag_id s of
             None \<Rightarrow> (3, s)
           | Some bi \<Rightarrow>
               if f32_less (e_abs_diff e new_score (bi_score bi)) (e_score_difference_threshold e) then (0, s)
               else let blob_size = GetTotalSize bi
                    in if blob_size = 0 then (0, s)
                       else case e_AllocateBuffer e blob_size of
                              None \<Rightarrow> (5, s)
                            | Some buf \<Rightarrow>
                                (case GetBlob e tag_id blob_name 0 blob_size buf s of
                                   (get_rc, buf', s1) \<Rightarrow>
                                     if get_rc \<noteq> 0 then (6, s1)
                                     else (case PutBlob e tag_id blob_name 0 blob_size (Some buf') new_score
                                                  Context_default s1 of
                                             (put_rc, s2) \<Rightarrow> if put_rc \<noteq> 0 then (7, s2) else (0, s2))))"

definition GetBlobScore :: "'w cte_env \<Rightarrow> TagId \<Rightarrow> string \<Rightarrow> 'w Cte \<Rightarrow> u32 \<times> f32 option \<times> 'w Cte" where
  "GetBlobScore e tag_id blob_name s =
     (if blob_name = [] then (1, None, s)
      else case CheckBlobExists e blob_name tag_id s of
             None \<Rightarrow> (1, None, s)
           | Some bi \<Rightarrow> (0, Some (bi_score bi),
               LogTelemetry kGetBlobOp 0 0 tag_id (ComputeBlobHash tag_id blob_name) (bi_last_modified bi) (e_now e)
                 (with_blob e (composite_key tag_id blob_name) (\<lambda>bi. bi\<lparr>bi_last_read := e_now e\<rparr>) s)))"

definition GetBlobSize :: "'w cte_env \<Rightarrow> TagId \<Rightarrow> string \<Rightarrow> 'w Cte \<Rightarrow> u32 \<times> u64 option \<times> 'w Cte" where
  "GetBlobSize e tag_id blob_name s =
     (if blob_name = [] then (1, None, s)
      else case CheckBlobExists e blob_name tag_id s of
             None \<Rightarrow> (1, None, s)
           | Some bi \<Rightarrow> (0, Some (GetTotalSize bi),
               LogTelemetry kGetBlobOp 0 0 tag_id (ComputeBlobHash tag_id blob_name) (bi_last_modified bi) (e_now e)
                 (with_blob e (composite_key tag_id blob_name) (\<lambda>bi. bi\<lparr>bi_last_read := e_now e\<rparr>) s)))"

text \<open>The block list of the result is always empty: filling it is disabled in the code.\<close>

definition GetBlobInfo :: "'w cte_env \<Rightarrow> TagId \<Rightarrow> string \<Rightarrow> 'w Cte \<Rightarrow> u32 \<times> (f32 \<times> u64 \<times> BlobBlock list) option \<times> 'w Cte" where
  "GetBlobInfo e tag_id blob_name s =
     (if blob_name = [] then (1, None, s)
      else case CheckBlobExists e blob_name tag_id s of
             None \<Rightarrow> (2, None, s)
           | Some bi \<Rightarrow> (0, Some (bi_score bi, GetTotalSize bi, []),
               with_blob e (composite_key tag_id blob_name) (\<lambda>bi. bi\<lparr>bi_last_read := e_now e\<rparr>) s))"

end
