(* ===== verification/Cte_Manage.thy ===== *)
theory Cte_Manage
  imports Cte_Core
begin

text \<open>
  Targets, tags, queries, telemetry polling and task routing of the context
  transfer engine (core\_runtime.cc).
\<close>

section \<open>Targets\<close>

definition device_matches :: "string \<Rightarrow> nat \<Rightarrow> StorageDeviceConfig \<Rightarrow> bool" where
  "device_matches target_name i device \<longleftrightarrow>
     target_name = ''storage_device_'' @ to_string i \<or> target_name = sd_path device \<or>
     starts_with (sd_path device) target_name \<and>
       (length target_name = length (sd_path device) \<or> target_name ! length (sd_path device) = CHR ''_'')"

fun manual_score_loop :: "string \<Rightarrow> nat \<Rightarrow> StorageDeviceConfig list \<Rightarrow> f32" where
  "manual_score_loop target_name i [] = f32_neg_one"
| "manual_score_loop target_name i (d # ds) =
     (if device_matches target_name i d then sd_score d else manual_score_loop target_name (Suc i) ds)"

definition GetManualScoreForTarget :: "string \<Rightarrow> 'w Cte \<Rightarrow> f32" where
  "GetManualScoreForTarget target_name s = manual_score_loop target_name 0 (storage_devices s)"

fun persistence_loop :: "string \<Rightarrow> nat \<Rightarrow> StorageDeviceConfig list \<Rightarrow> PersistenceLevel" where
  "persistence_loop target_name i [] = kVolatile"
| "persistence_loop target_name i (d # ds) =
     (if device_matches target_name i d
      then if sd_persistence_level d = ''temporary'' then kTemporaryNonVolatile
           else if sd_persistence_level d = ''long_term'' then kLongTerm else kVolatile
      else persistence_loop target_name (Suc i) ds)"

definition GetPersistenceLevelForTarget :: "string \<Rightarrow> 'w Cte \<Rightarrow> PersistenceLevel" where
  "GetPersistenceLevelForTarget target_name s = persistence_loop target_name 0 (storage_devices s)"

text \<open>The return code is the task's initial 0 when the target is already registered.\<close>

definition RegisterTarget :: "'w cte_env \<Rightarrow> string \<Rightarrow> BdevType \<Rightarrow> u64 \<Rightarrow> PoolQuery \<Rightarrow> PoolId \<Rightarrow> 'w Cte \<Rightarrow> u32 \<times> 'w Cte" where
  "RegisterTarget e target_name type total_sz query bdev_id s =
     (case api_create (e_api e) (PoolQuery_Dynamic neg_one_f) target_name bdev_id type total_sz (world s) of
        (rc, target_id, w1) \<Rightarrow>
          let s1 = s\<lparr>world := w1\<rparr>
          in if rc \<noteq> 0 then (1, s1)
             else case find_target e s1 target_id of
                    Some _ \<Rightarrow> (0, s1)
                  | None \<Rightarrow>
                      (case api_stats (e_api e) target_id w1 of
                         (metrics, remaining_size, w2) \<Rightarrow>
                           let s2 = s1\<lparr>world := w2\<rparr>;
                               manual_score = GetManualScoreForTarget target_name s2;
                               target_info = \<lparr>ti_target_name = target_name, ti_bdev_pool_name = target_name,
                                 ti_bdev_client = target_id, ti_target_query = query, ti_bytes_read = 0,
                                 ti_bytes_written = 0, ti_ops_read = 0, ti_ops_written = 0,
                                 ti_target_score = (if f32_le f32_zero manual_score then manual_score else f32_zero),
                                 ti_remaining_space = total_sz, ti_perf_metrics = metrics,
                                 ti_persistence_level = GetPersistenceLevelForTarget target_name s2\<rparr>
                           in (0, s2\<lparr>registered_targets := snd (ml_insert_or_assign (e_hash_id e) target_id target_info
                                       (registered_targets s2)),
                                     target_name_to_id := snd (ml_insert_or_assign (e_hash_str e) target_name target_id
                                       (target_name_to_id s2))\<rparr>)))"

definition UnregisterTarget :: "'w cte_env \<Rightarrow> string \<Rightarrow> 'w Cte \<Rightarrow> u32 \<times> 'w Cte" where
  "UnregisterTarget e target_name s =
     (case ml_find (e_hash_str e) (target_name_to_id s) target_name of
        None \<Rightarrow> (1, s)
      | Some target_id \<Rightarrow>
          if \<not> ml_contains (e_hash_id e) (registered_targets s) target_id then (1, s)
          else (0, s\<lparr>registered_targets := snd (ml_erase (e_hash_id e) target_id (registered_targets s)),
                     target_name_to_id := snd (ml_erase (e_hash_str e) target_name (target_name_to_id s))\<rparr>))"

definition ListTargets :: "'w Cte \<Rightarrow> u32 \<times> string list" where
  "ListTargets s = (0, ml_for_each (\<lambda>_ t names. names @ [ti_target_name t]) (registered_targets s) [])"

definition GetTargetInfo :: "'w cte_env \<Rightarrow> string \<Rightarrow> 'w Cte \<Rightarrow> u32 \<times> (f32 \<times> u64 \<times> u64 \<times> u64 \<times> u64 \<times> u64) option" where
  "GetTargetInfo e target_name s =
     (case ml_find (e_hash_str e) (target_name_to_id s) target_name of
        None \<Rightarrow> (1, None)
      | Some target_id \<Rightarrow>
          (case find_target e s target_id of
             None \<Rightarrow> (2, None)
           | Some t \<Rightarrow> (0, Some (ti_target_score t, ti_remaining_space t, ti_bytes_read t, ti_bytes_written t,
                                  ti_ops_read t, ti_ops_written t))))"

definition f32_max :: "f32 \<Rightarrow> f32 \<Rightarrow> f32" where
  "f32_max a b = (if f32_less a b then b else a)"

definition f32_min :: "f32 \<Rightarrow> f32 \<Rightarrow> f32" where
  "f32_min a b = (if f32_less b a then b else a)"

definition updated_stats :: "'w cte_env \<Rightarrow> 'w Cte \<Rightarrow> PerfMetrics \<Rightarrow> u64 \<Rightarrow> TargetInfo \<Rightarrow> TargetInfo" where
  "updated_stats e s metrics remaining_size t =
     (let t1 = t\<lparr>ti_perf_metrics := metrics, ti_remaining_space := remaining_size\<rparr>;
          manual_score = GetManualScoreForTarget (ti_target_name t) s;
          max_bandwidth = max (read_bandwidth_mbps metrics) (write_bandwidth_mbps metrics)
      in if f32_le f32_zero manual_score then t1\<lparr>ti_target_score := manual_score\<rparr>
         else if max_bandwidth > 0
              then t1\<lparr>ti_target_score := f32_max f32_zero (f32_min f32_one (e_log_bandwidth e max_bandwidth))\<rparr>
              else t1)"

definition stat_target :: "'w cte_env \<Rightarrow> 'w Cte \<Rightarrow> PoolId \<Rightarrow> 'w Cte" where
  "stat_target e s target_id =
     (case find_target e s target_id of
        None \<Rightarrow> s
      | Some t \<Rightarrow>
          (case api_stats (e_api e) (ti_bdev_client t) (world s) of
             (metrics, remaining_size, w1) \<Rightarrow>
               with_target e target_id (updated_stats e s metrics remaining_size) (s\<lparr>world := w1\<rparr>)))"

definition StatTargets :: "'w cte_env \<Rightarrow> 'w Cte \<Rightarrow> u32 \<times> 'w Cte" where
  "StatTargets e s = (0, foldl (stat_target e) s (map fst (ml_entries (registered_targets s))))"

section \<open>Tags\<close>

definition GenerateNewTagId :: "'w cte_env \<Rightarrow> 'w Cte \<Rightarrow> TagId \<times> 'w Cte" where
  "GenerateNewTagId e s =
     (\<lparr>id_major = e_node_id e, id_minor = next_tag_id_minor s\<rparr>, s\<lparr>next_tag_id_minor := next_tag_id_minor s + 1\<rparr>)"

definition GetOrAssignTagId :: "'w cte_env \<Rightarrow> string \<Rightarrow> TagId \<Rightarrow> 'w Cte \<Rightarrow> TagId \<times> 'w Cte" where
  "GetOrAssignTagId e tag_name preferred_id s =
     (case ml_find (e_hash_str e) (tag_name_to_id s) tag_name of
        Some existing \<Rightarrow> (existing, s)
      | None \<Rightarrow>
          let (tag_id, s1) = (if (id_major preferred_id \<noteq> 0 \<or> id_minor preferred_id \<noteq> 0) \<and>
                                 \<not> ml_contains (e_hash_id e) (tag_id_to_info s) preferred_id
                              then (preferred_id, s) else GenerateNewTagId e s);
              tag_info = (TagInfo_new (e_now e))\<lparr>tg_tag_name := tag_name, tg_tag_id := tag_id\<rparr>;
              s2 = s1\<lparr>tag_name_to_id := snd (ml_insert_or_assign (e_hash_str e) tag_name tag_id (tag_name_to_id s1)),
                      tag_id_to_info := snd (ml_insert_or_assign (e_hash_id e) tag_id tag_info (tag_id_to_info s1))\<rparr>
          in (tag_id, log_tag e kCreateTag (tag_ref tag_name tag_id) s2))"

definition GetOrCreateTag :: "'w cte_env \<Rightarrow> string \<Rightarrow> TagId \<Rightarrow> 'w Cte \<Rightarrow> u32 \<times> TagId \<times> 'w Cte" where
  "GetOrCreateTag e tag_name preferred_id s =
     (if id_major preferred_id \<noteq> 0 \<and> id_major preferred_id \<noteq> e_node_id e
      then (0, preferred_id,
            case ml_find (e_hash_str e) (tag_name_to_id s) tag_name of
              None \<Rightarrow> s\<lparr>tag_name_to_id := snd (ml_insert_or_assign (e_hash_str e) tag_name preferred_id (tag_name_to_id s))\<rparr>
            | Some _ \<Rightarrow> s)
      else case GetOrAssignTagId e tag_name preferred_id s of
             (tag_id, s1) \<Rightarrow>
               (0, tag_id,
                case find_tag e s1 tag_id of
                  None \<Rightarrow> s1
                | Some t \<Rightarrow> LogTelemetry kGetOrCreateTagOp 0 0 tag_id 0 (tg_last_modified t) (e_now e)
                              (with_tag e tag_id (\<lambda>t. t\<lparr>tg_last_read := e_now e\<rparr>) s1)))"

definition GetTagSize :: "'w cte_env \<Rightarrow> TagId \<Rightarrow> 'w Cte \<Rightarrow> u32 \<times> u64 \<times> 'w Cte" where
  "GetTagSize e tag_id s =
     (case find_tag e s tag_id of
        None \<Rightarrow> (1, 0, s)
      | Some t \<Rightarrow> (0, tg_total_size t,
          LogTelemetry kGetTagSizeOp 0 (tg_total_size t) tag_id 0 (tg_last_modified t) (e_now e)
            (with_tag e tag_id (\<lambda>t. t\<lparr>tg_last_read := e_now e\<rparr>) s)))"

text \<open>\<^verbatim>\<open>DelTag\<close> after the tag is resolved: delete its blobs, erase what is left under its prefix, then the tag.\<close>

definition erase_prefix :: "'w cte_env \<Rightarrow> string \<Rightarrow> 'w Cte \<Rightarrow> 'w Cte" where
  "erase_prefix e prefix s =
     s\<lparr>tag_blob_name_to_info := foldl (\<lambda>m k. snd (ml_erase (e_hash_str e) k m)) (tag_blob_name_to_info s)
         (filter (starts_with prefix) (map fst (ml_entries (tag_blob_name_to_info s))))\<rparr>"

definition del_tag_resolved :: "'w cte_env \<Rightarrow> TagId \<Rightarrow> TagInfo \<Rightarrow> 'w Cte \<Rightarrow> 'w Cte" where
  "del_tag_resolved e tag_id info s =
     (let prefix = tag_prefix tag_id;
          blob_names_to_delete = map (bi_blob_name \<circ> snd)
            (filter (\<lambda>(k, _). starts_with prefix k) (ml_entries (tag_blob_name_to_info s)));
          s1 = foldl (\<lambda>s name. snd (DelBlob e tag_id name s)) s blob_names_to_delete;
          s2 = erase_prefix e prefix s1;
          tag_sz = (case find_tag e s2 tag_id of None \<Rightarrow> 0 | Some t \<Rightarrow> tg_total_size t);
          s3 = (case find_tag e s2 tag_id of
                  None \<Rightarrow> s2
                | Some t \<Rightarrow> if tg_tag_name t \<noteq> []
                    then s2\<lparr>tag_name_to_id := snd (ml_erase (e_hash_str e) (tg_tag_name t) (tag_name_to_id s2))\<rparr>
                    else s2);
          s4 = LogTelemetry kDelTagOp 0 tag_sz tag_id 0 (e_now e) (e_now e) s3;
          s5 = log_tag e kDelTag (tag_ref (tg_tag_name info) tag_id) s4
      in s5\<lparr>tag_id_to_info := snd (ml_erase (e_hash_id e) tag_id (tag_id_to_info s5))\<rparr>)"

definition DelTag :: "'w cte_env \<Rightarrow> TagId \<Rightarrow> string \<Rightarrow> 'w Cte \<Rightarrow> u32 \<times> 'w Cte" where
  "DelTag e tag_id0 tag_name s =
     (case (if UniqueId_IsNull tag_id0
            then if tag_name \<noteq> [] then ml_find (e_hash_str e) (tag_name_to_id s) tag_name else None
            else Some tag_id0) of
        None \<Rightarrow> (1, s)
      | Some tag_id \<Rightarrow>
          (case find_tag e s tag_id of
             None \<Rightarrow> (1, s)
           | Some info \<Rightarrow> (0, del_tag_resolved e tag_id info s)))"

section \<open>Queries\<close>

definition GetContainedBlobs :: "'w cte_env \<Rightarrow> TagId \<Rightarrow> 'w Cte \<Rightarrow> u32 \<times> string list \<times> 'w Cte" where
  "GetContainedBlobs e tag_id s =
     (case find_tag e s tag_id of
        None \<Rightarrow> (1, [], s)
      | Some _ \<Rightarrow>
          let prefix = tag_prefix tag_id;
              blob_names = ml_for_each (\<lambda>k _ names. if starts_with prefix k then names @ [drop (length prefix) k] else names)
                (tag_blob_name_to_info s) []
          in (0, blob_names,
              LogTelemetry kGetOrCreateTagOp (of_nat (length blob_names)) 0 tag_id 0 (e_now e) (e_now e) s))"

text \<open>\<open>regex\<close> compiles a pattern: \<open>None\<close> when the constructor of \<^verbatim>\<open>std::regex\<close> throws, otherwise what it matches.\<close>

definition matching_tags :: "(string \<Rightarrow> bool) \<Rightarrow> 'w Cte \<Rightarrow> (string \<times> TagId) list" where
  "matching_tags pattern s =
     ml_for_each (\<lambda>name i acc. if pattern name then acc @ [(name, i)] else acc) (tag_name_to_id s) []"

fun tag_results :: "u32 \<Rightarrow> (string \<times> TagId) list \<Rightarrow> string list \<Rightarrow> string list" where
  "tag_results max_tags [] results = results"
| "tag_results max_tags (tn # tns) results =
     (if max_tags \<noteq> 0 \<and> length results \<ge> unat max_tags then results
      else tag_results max_tags tns (results @ [fst tn]))"

definition TagQuery :: "(string \<Rightarrow> (string \<Rightarrow> bool) option) \<Rightarrow> string \<Rightarrow> u32 \<Rightarrow> 'w Cte
    \<Rightarrow> u32 \<times> nat \<times> string list" where
  "TagQuery regex tag_regex max_tags s =
     (case regex tag_regex of
        None \<Rightarrow> (1, 0, [])
      | Some pattern \<Rightarrow>
          let tags = matching_tags pattern s in (0, length tags, tag_results max_tags tags []))"

definition blob_query_tag :: "(string \<Rightarrow> bool) \<Rightarrow> u32 \<Rightarrow> 'w Cte \<Rightarrow> nat \<times> (string \<times> string) list \<Rightarrow> string \<times> TagId
    \<Rightarrow> nat \<times> (string \<times> string) list" where
  "blob_query_tag pattern max_blobs s acc tn =
     (let prefix = tag_prefix (snd tn)
      in ml_for_each (\<lambda>k _ (n, res).
           if starts_with prefix k \<and> pattern (drop (length prefix) k)
           then (Suc n, if max_blobs = 0 \<or> length res < unat max_blobs then res @ [(fst tn, drop (length prefix) k)] else res)
           else (n, res)) (tag_blob_name_to_info s) acc)"

definition BlobQuery :: "(string \<Rightarrow> (string \<Rightarrow> bool) option) \<Rightarrow> string \<Rightarrow> string \<Rightarrow> u32 \<Rightarrow> 'w Cte
    \<Rightarrow> u32 \<times> nat \<times> (string \<times> string) list" where
  "BlobQuery regex tag_regex blob_regex max_blobs s =
     (case regex tag_regex of None \<Rightarrow> (1, 0, []) | Some tag_pattern \<Rightarrow>
      case regex blob_regex of None \<Rightarrow> (1, 0, []) | Some blob_pattern \<Rightarrow>
        let (n, res) = foldl (blob_query_tag blob_pattern max_blobs s) (0, []) (matching_tags tag_pattern s)
        in (0, n, res))"

section \<open>Telemetry\<close>

definition GetTelemetryQueueSize :: "'w Cte \<Rightarrow> u64" where
  "GetTelemetryQueueSize s = rb_Size (telemetry_log s)"

fun pop_entries :: "nat \<Rightarrow> CteTelemetry ring_buffer \<Rightarrow> CteTelemetry list \<times> CteTelemetry ring_buffer" where
  "pop_entries 0 r = ([], r)"
| "pop_entries (Suc n) r =
     (case rb_Pop r of
        (None, r') \<Rightarrow> ([], r')
      | (Some x, r') \<Rightarrow> (case pop_entries n r' of (xs, r'') \<Rightarrow> (x # xs, r'')))"

definition push_entry :: "CteTelemetry ring_buffer \<Rightarrow> CteTelemetry \<Rightarrow> CteTelemetry ring_buffer" where
  "push_entry r x = (case rb_Emplace Overwrite x r of Some (_, r') \<Rightarrow> r' | None \<Rightarrow> r)"

definition GetTelemetryEntries :: "nat \<Rightarrow> 'w Cte \<Rightarrow> CteTelemetry list \<times> 'w Cte" where
  "GetTelemetryEntries max_entries s =
     (let entries_to_read = min max_entries (unat (rb_Size (telemetry_log s)));
          (temp_entries, r) = pop_entries entries_to_read (telemetry_log s)
      in (temp_entries, s\<lparr>telemetry_log := foldl push_entry r (rev temp_entries)\<rparr>))"

definition PollTelemetryLog :: "u64 \<Rightarrow> 'w Cte \<Rightarrow> u32 \<times> CteTelemetry list \<times> u64 \<times> 'w Cte" where
  "PollTelemetryLog minimum_logical_time s =
     (case GetTelemetryEntries 1000 s of
        (all_entries, s1) \<Rightarrow>
          let entries = filter (\<lambda>x. te_logical_time x \<ge> minimum_logical_time) all_entries
          in (0, entries, foldl (\<lambda>m x. max m (te_logical_time x)) minimum_logical_time entries, s1))"

section \<open>Routing\<close>

definition HashBlobToContainer :: "'w cte_env \<Rightarrow> TagId \<Rightarrow> string \<Rightarrow> PoolQuery" where
  "HashBlobToContainer e tag_id blob_name =
     (let h0 = ucast (e_hash_u32 e (id_major tag_id)) :: u32;
          h1 = h0 XOR ucast (e_hash_u32 e (id_minor tag_id) + 0x9e3779b9 + ucast (push_bit 6 h0) + ucast (drop_bit 2 h0));
          h2 = h1 XOR (ucast (e_hash_str e blob_name) + 0x9e3779b9 + push_bit 6 h1 + drop_bit 2 h1)
      in PoolQuery_DirectHash h2 neg_one_f)"

text \<open>The tasks of the module with the inputs that routing looks at.\<close>

datatype cte_task =
    kRegisterTarget | kUnregisterTarget | kListTargets | kStatTargets | kGetTargetInfo
  | kGetOrCreateTag string
  | kPutBlob TagId string | kGetBlob TagId string | kReorganizeBlob TagId string | kDelBlobTask TagId string
  | kGetBlobScore TagId string | kGetBlobSize TagId string | kGetBlobInfo TagId string
  | kGetTagSize | kGetContainedBlobs | kTagQuery | kBlobQuery
  | kOther

definition ScheduleTask :: "'w cte_env \<Rightarrow> cte_task \<Rightarrow> PoolQuery \<Rightarrow> 'w Cte \<Rightarrow> PoolQuery" where
  "ScheduleTask e task pool_query s =
     (case task of
        kRegisterTarget \<Rightarrow> PoolQuery_Local | kUnregisterTarget \<Rightarrow> PoolQuery_Local | kListTargets \<Rightarrow> PoolQuery_Local
      | kStatTargets \<Rightarrow> PoolQuery_Local | kGetTargetInfo \<Rightarrow> PoolQuery_Local
      | kGetOrCreateTag tag_name \<Rightarrow>
          (if ml_find (e_hash_str e) (tag_name_to_id s) tag_name \<noteq> None then PoolQuery_Local
           else PoolQuery_DirectHash (ucast (e_hash_str e tag_name)) neg_one_f)
      | kPutBlob t n \<Rightarrow> HashBlobToContainer e t n
      | kGetBlob t n \<Rightarrow> HashBlobToContainer e t n
      | kReorganizeBlob t n \<Rightarrow> HashBlobToContainer e t n
      | kDelBlobTask t n \<Rightarrow> HashBlobToContainer e t n
      | kGetBlobScore t n \<Rightarrow> HashBlobToContainer e t n
      | kGetBlobSize t n \<Rightarrow> HashBlobToContainer e t n
      | kGetBlobInfo t n \<Rightarrow> HashBlobToContainer e t n
      | kGetTagSize \<Rightarrow> PoolQuery_Broadcast neg_one_f | kGetContainedBlobs \<Rightarrow> PoolQuery_Broadcast neg_one_f
      | kTagQuery \<Rightarrow> PoolQuery_Broadcast neg_one_f | kBlobQuery \<Rightarrow> PoolQuery_Broadcast neg_one_f
      | kOther \<Rightarrow> pool_query)"

end
