(* ===== verification/Cte_Inv.thy ===== *)
theory Cte_Inv
  imports Cte_Manage
begin

text \<open>
  The invariant of the context transfer engine over any device that satisfies
  \<open>block_device\<close>, and what each blob handler does to the contents of blobs.
\<close>

section \<open>Tables\<close>

lemmas table_simps = with_target_def with_tag_def with_blob_def LogTelemetry_def log_blob_def log_tag_def Let_def

lemma with_blob_simps [simp]:
  "registered_targets (with_blob e k f s) = registered_targets s" "world (with_blob e k f s) = world s"
  "tag_id_to_info (with_blob e k f s) = tag_id_to_info s" "tag_name_to_id (with_blob e k f s) = tag_name_to_id s"
  "target_name_to_id (with_blob e k f s) = target_name_to_id s"
  "tag_blob_name_to_info (with_blob e k f s) = ml_modify (e_hash_str e) k f (tag_blob_name_to_info s)"
  by (simp_all add: with_blob_def)

lemma with_target_simps [simp]:
  "tag_blob_name_to_info (with_target e p f s) = tag_blob_name_to_info s" "world (with_target e p f s) = world s"
  "tag_id_to_info (with_target e p f s) = tag_id_to_info s" "tag_name_to_id (with_target e p f s) = tag_name_to_id s"
  "target_name_to_id (with_target e p f s) = target_name_to_id s"
  "registered_targets (with_target e p f s) = ml_modify (e_hash_id e) p f (registered_targets s)"
  by (simp_all add: with_target_def)

lemma with_tag_simps [simp]:
  "tag_blob_name_to_info (with_tag e t f s) = tag_blob_name_to_info s" "world (with_tag e t f s) = world s"
  "registered_targets (with_tag e t f s) = registered_targets s" "tag_name_to_id (with_tag e t f s) = tag_name_to_id s"
  "target_name_to_id (with_tag e t f s) = target_name_to_id s"
  "tag_id_to_info (with_tag e t f s) = ml_modify (e_hash_id e) t f (tag_id_to_info s)"
  by (simp_all add: with_tag_def)

lemma log_simps [simp]:
  "tag_blob_name_to_info (log_blob e y p s) = tag_blob_name_to_info s" "world (log_blob e y p s) = world s"
  "registered_targets (log_blob e y p s) = registered_targets s" "tag_name_to_id (log_blob e y p s) = tag_name_to_id s"
  "target_name_to_id (log_blob e y p s) = target_name_to_id s" "tag_id_to_info (log_blob e y p s) = tag_id_to_info s"
  "tag_blob_name_to_info (log_tag e y p s) = tag_blob_name_to_info s" "world (log_tag e y p s) = world s"
  "registered_targets (log_tag e y p s) = registered_targets s" "tag_name_to_id (log_tag e y p s) = tag_name_to_id s"
  "target_name_to_id (log_tag e y p s) = target_name_to_id s" "tag_id_to_info (log_tag e y p s) = tag_id_to_info s"
  by (simp_all add: log_blob_def log_tag_def)

lemma LogTelemetry_simps [simp]:
  "tag_blob_name_to_info (LogTelemetry a b c d f g h s) = tag_blob_name_to_info s"
  "world (LogTelemetry a b c d f g h s) = world s"
  "registered_targets (LogTelemetry a b c d f g h s) = registered_targets s"
  "tag_name_to_id (LogTelemetry a b c d f g h s) = tag_name_to_id s"
  "target_name_to_id (LogTelemetry a b c d f g h s) = target_name_to_id s"
  "tag_id_to_info (LogTelemetry a b c d f g h s) = tag_id_to_info s"
  by (simp_all add: LogTelemetry_def Let_def)

text \<open>All tables are well formed.\<close>

definition tables_ok :: "'w cte_env \<Rightarrow> 'w Cte \<Rightarrow> bool" where
  "tables_ok e s \<longleftrightarrow>
     ml_inv (e_hash_id e) (registered_targets s) \<and> ml_inv (e_hash_str e) (target_name_to_id s) \<and>
     ml_inv (e_hash_str e) (tag_name_to_id s) \<and> ml_inv (e_hash_id e) (tag_id_to_info s) \<and>
     ml_inv (e_hash_str e) (tag_blob_name_to_info s)"

text \<open>The regions that the blobs of a state occupy.\<close>

definition blob_regions :: "BlobInfo \<Rightarrow> region multiset" where
  "blob_regions bi = mset (map region_of (bi_blocks bi))"

definition table_regions :: "(string, BlobInfo) unordered_map_ll \<Rightarrow> region multiset" where
  "table_regions m = \<Sum>\<^sub># (image_mset (\<lambda>x. blob_regions (snd x)) (mset (ml_entries m)))"

lemma table_regions_change:
  assumes "ml_inv h m" and "ml_inv h m'" and "\<And>k'. ml_find h m' k' = (if k' = k then b else ml_find h m k')"
  shows "table_regions m' + (case ml_find h m k of None \<Rightarrow> {#} | Some bi \<Rightarrow> blob_regions bi) =
    table_regions m + (case b of None \<Rightarrow> {#} | Some bi \<Rightarrow> blob_regions bi)"
proof -
  let ?R = "\<lambda>M :: (string \<times> BlobInfo) multiset. \<Sum>\<^sub># (image_mset (\<lambda>x. blob_regions (snd x)) M)"
  let ?o = "\<lambda>a :: BlobInfo option. case a of None \<Rightarrow> {#} | Some v \<Rightarrow> {#(k, v)#}"
  have "?R (?o a) = (case a of None \<Rightarrow> {#} | Some bi \<Rightarrow> blob_regions bi)" for a by (cases a) simp_all
  moreover have "?R (M + N) = ?R M + ?R N" for M N by simp
  moreover note arg_cong [OF ll.entries_change [OF assms(1,2), of k b, OF assms(3)], of ?R]
  ultimately show ?thesis unfolding table_regions_def by metis
qed

lemma table_regions_modify:
  assumes "ml_inv h m" and "ml_find h m k = Some bi"
  shows "table_regions (ml_modify h k f m) + blob_regions bi = table_regions m + blob_regions (f bi)"
  using table_regions_change [OF assms(1) ll.invar_modify [OF assms(1)], where k = k and b = "Some (f bi)"]
    ll.lookup_modify [OF assms(1)] assms(2) by simp

lemma table_regions_insert:
  assumes "ml_inv h m" and "ml_find h m k = None"
  shows "table_regions (snd (ml_insert_or_assign h k bi m)) = table_regions m + blob_regions bi"
  using table_regions_change [OF assms(1) ll.invar_upd [OF assms(1)], where k = k and b = "Some bi"]
    ll.lookup_upd [OF assms(1)] assms(2) by simp

lemma table_regions_erase:
  assumes "ml_inv h m" and "ml_find h m k = Some bi"
  shows "table_regions (snd (ml_erase h k m)) + blob_regions bi = table_regions m"
  using table_regions_change [OF assms(1) ll.invar_del [OF assms(1)], where k = k and b = None]
    ll.lookup_del [OF assms(1)] assms(2) by simp

text \<open>What the blob table says of one entry.\<close>

definition blob_ok :: "string \<Rightarrow> BlobInfo \<Rightarrow> bool" where
  "blob_ok k bi \<longleftrightarrow> blocks_ok (bi_blocks bi) \<and> blob_len (bi_blocks bi) < 2 ^ 64 \<and>
     \<not> f32_less (bi_score bi) f32_zero \<and> bi_blob_name bi \<noteq> [] \<and> (\<exists>t. k = composite_key t (bi_blob_name bi))"

lemma unat_GetTotalSize: "blob_ok k bi \<Longrightarrow> unat (GetTotalSize bi) = blob_len (bi_blocks bi)"
  by (simp add: blob_ok_def GetTotalSize_def unat_total_size)

text \<open>The blobs of a tag, in the order \<^verbatim>\<open>DelTag\<close> deletes them.\<close>

definition tag_blob_names :: "TagId \<Rightarrow> 'w Cte \<Rightarrow> string list" where
  "tag_blob_names t s = map (bi_blob_name \<circ> snd)
     (filter (\<lambda>(k, _). starts_with (tag_prefix t) k) (ml_entries (tag_blob_name_to_info s)))"

section \<open>The invariant\<close>

locale cte_device = block_device "e_api e" dinv byte_at room unit
  for e :: "'w cte_env" and dinv :: "'w \<Rightarrow> region multiset \<Rightarrow> bool"
    and byte_at :: "'w \<Rightarrow> PoolId \<Rightarrow> nat \<Rightarrow> u8" and room :: "'w \<Rightarrow> nat \<Rightarrow> bool" and unit :: nat
begin

definition cte_inv :: "'w Cte \<Rightarrow> bool" where
  "cte_inv s \<longleftrightarrow> tables_ok e s \<and> (\<forall>k bi. find_blob e s k = Some bi \<longrightarrow> blob_ok k bi) \<and>
     dinv (world s) (table_regions (tag_blob_name_to_info s))"

definition content :: "'w Cte \<Rightarrow> string \<Rightarrow> u8 list option" where
  "content s k = map_option (\<lambda>bi. blob_bytes (byte_at (world s)) (bi_blocks bi)) (find_blob e s k)"

text \<open>States that agree on what the invariant and the contents depend on.\<close>

lemma cte_inv_cong:
  assumes "tables_ok e s'" and "tag_blob_name_to_info s' = tag_blob_name_to_info s" and "world s' = world s"
    and "cte_inv s"
  shows "cte_inv s' \<and> content s' = content s"
  using assms by (simp add: cte_inv_def content_def fun_eq_iff)

lemma cte_invD:
  assumes "cte_inv s"
  shows "tables_ok e s" and "ml_inv (e_hash_str e) (tag_blob_name_to_info s)"
    and "find_blob e s k = Some bi \<Longrightarrow> blob_ok k bi"
    and "dinv (world s) (table_regions (tag_blob_name_to_info s))"
  using assms by (auto simp: cte_inv_def tables_ok_def)

text \<open>The regions of a blob are among the owned ones, and disjoint from those of the other blobs.\<close>

lemma blob_regions_sub:
  assumes "cte_inv s" and "find_blob e s k = Some bi"
  shows "blob_regions bi \<subseteq># table_regions (tag_blob_name_to_info s)"
  using table_regions_erase [OF cte_invD(2) [OF assms(1)] assms(2)] by (metis mset_subset_eq_add_right)

lemma other_blob_regions:
  assumes "cte_inv s" and "find_blob e s k = Some bi" and "find_blob e s k' = Some bi'" and "k' \<noteq> k"
    and "b \<in> set (bi_blocks bi)" and "b' \<in> set (bi_blocks bi')" and "in_region (region_of b') p i"
  shows "\<not> in_region (region_of b) p i"
proof -
  let ?m = "tag_blob_name_to_info s"
  note m = cte_invD(2) [OF assms(1)]
  let ?m1 = "snd (ml_erase (e_hash_str e) k ?m)"
  have m1: "ml_inv (e_hash_str e) ?m1" by (rule ll.invar_del [OF m])
  have f1: "ml_find (e_hash_str e) ?m1 k' = Some bi'" using ll.lookup_del [OF m] assms(3,4) by simp
  have "table_regions ?m = table_regions (snd (ml_erase (e_hash_str e) k' ?m1)) + blob_regions bi' + blob_regions bi"
    using table_regions_erase [OF m assms(2)] table_regions_erase [OF m1 f1] by simp
  moreover have "{#region_of b'#} \<subseteq># blob_regions bi'" "{#region_of b#} \<subseteq># blob_regions bi"
    using assms(5,6) by (simp_all add: blob_regions_def)
  then have "{#region_of b'#} + {#region_of b#} \<subseteq># blob_regions bi' + blob_regions bi"
    by (rule subset_mset.add_mono)
  ultimately have "{#region_of b', region_of b#} \<subseteq># table_regions ?m"
    by (metis add_mset_add_single mset_subset_eq_add_right subset_mset.order_trans union_assoc union_commute)
  then show ?thesis using regions_disjoint [OF cte_invD(4) [OF assms(1)]] assms(7) by blast
qed

end

section \<open>Grouping blocks by pool\<close>

definition pool_regions :: "(PoolId \<times> PoolQuery \<times> Block list) list \<Rightarrow> region multiset" where
  "pool_regions ps = mset (concat (map (\<lambda>(p, q, bs). map (block_region p) bs) ps))"

definition pools_typed :: "(PoolId \<times> PoolQuery \<times> Block list) list \<Rightarrow> bool" where
  "pools_typed ps \<longleftrightarrow> (\<forall>x \<in> set ps. \<forall>b \<in> set (snd (snd x)). block_type b = 0)"

lemma add_to_pool_regions: "pool_regions (add_to_pool p q b ps) = add_mset (block_region p b) (pool_regions ps)"
  by (induction p q b ps rule: add_to_pool.induct) (simp_all add: pool_regions_def)

lemma add_to_pool_typed: "pools_typed ps \<Longrightarrow> block_type b = 0 \<Longrightarrow> pools_typed (add_to_pool p q b ps)"
  by (induction p q b ps rule: add_to_pool.induct) (auto simp: pools_typed_def)

lemma freed_block_simps [simp]:
  "block_type (freed_block b) = 0" "block_region (bb_client b) (freed_block b) = region_of b"
  by (simp_all add: freed_block_def block_region_def region_of_def)

lemma blocks_by_pool_spec:
  "pool_regions (blocks_by_pool bs) = mset (map region_of bs) \<and> pools_typed (blocks_by_pool bs)"
proof -
  have "pools_typed ps \<Longrightarrow>
      pool_regions (foldl (\<lambda>ps b. add_to_pool (bb_client b) (bb_target_query b) (freed_block b) ps) ps bs) =
        pool_regions ps + mset (map region_of bs) \<and>
      pools_typed (foldl (\<lambda>ps b. add_to_pool (bb_client b) (bb_target_query b) (freed_block b) ps) ps bs)" for ps
    by (induction bs arbitrary: ps) (simp_all add: add_to_pool_regions add_to_pool_typed)
  from this [of "[]"] show ?thesis by (simp add: blocks_by_pool_def pools_typed_def pool_regions_def)
qed

lemma length_entries_modify:
  assumes "ml_inv h m"
  shows "length (ml_entries (ml_modify h k f m)) = length (ml_entries m)"
proof -
  have l: "ml_find h (ml_modify h k f m) k' = (if k' = k then map_option f (ml_find h m k) else ml_find h m k')" for k'
    by (rule ll.lookup_modify [OF assms])
  have "size (mset (ml_entries (ml_modify h k f m)) + (case ml_find h m k of None \<Rightarrow> {#} | Some v \<Rightarrow> {#(k, v)#})) =
      size (mset (ml_entries m) + (case map_option f (ml_find h m k) of None \<Rightarrow> {#} | Some v \<Rightarrow> {#(k, v)#}))"
    using ll.entries_change [OF assms ll.invar_modify [OF assms], where k = k and b = "map_option f (ml_find h m k)", OF l] by simp
  then show ?thesis by (simp split: option.splits)
qed

lemma tables_ok_modify [simp]:
  "tables_ok e s \<Longrightarrow> tables_ok e (with_blob e k f s)"
  "tables_ok e s \<Longrightarrow> tables_ok e (with_target e p g s)"
  "tables_ok e s \<Longrightarrow> tables_ok e (with_tag e t h s)"
  "tables_ok e (log_blob e y pl s) = tables_ok e s" "tables_ok e (log_tag e y pl s) = tables_ok e s"
  "tables_ok e (LogTelemetry a b c d aa bb cc s) = tables_ok e s" "tables_ok e (s\<lparr>world := w\<rparr>) = tables_ok e s"
  "tables_ok e (s\<lparr>round_robin_counter := rr\<rparr>) = tables_ok e s"
  by (simp_all add: tables_ok_def ll.invar_modify)

definition target_count :: "'w Cte \<Rightarrow> nat" where
  "target_count s = length (ml_entries (registered_targets s))"

text \<open>What is assumed of the environment beyond the device.\<close>

definition env_ok :: "'w cte_env \<Rightarrow> bool" where
  "env_ok e \<longleftrightarrow> shuffle_ok (e_shuffle e) \<and> sort_ok (e_sort e)"

lemma SelectTargets_length:
  assumes "shuffle_ok shuffle" and "sort_ok srt"
  shows "length (fst (SelectTargets shuffle srt type counter targets bs n)) \<le> length targets"
proof -
  obtain low high where r: "fst (SelectTargets shuffle srt type counter targets bs n) = low @ high"
      "placement targets bs n low high"
    using SelectTargets_placement [OF assms, of type counter targets bs n] by (elim exE conjE)
  have "mset (low @ high) = {# t \<in># mset targets. n \<le> ti_remaining_space t #}"
    using r(2) by (simp add: placement_def filter_mset_split)
  then have "size (mset (low @ high)) \<le> size (mset targets)" by (simp only: size_mset_mono multiset_filter_subset)
  then show ?thesis using r(1) by simp
qed

context cte_device
begin

text \<open>
  \<open>same_but k s s'\<close>: the step keeps the tables well formed, the number of
  targets, and every blob other than \<open>k\<close>.
\<close>

definition same_but :: "string \<Rightarrow> 'w Cte \<Rightarrow> 'w Cte \<Rightarrow> bool" where
  "same_but k s s' \<longleftrightarrow> tables_ok e s' \<and> target_count s' = target_count s \<and>
     (\<forall>k'. k' \<noteq> k \<longrightarrow> find_blob e s' k' = find_blob e s k')"

lemma same_but_trans: "same_but k s s' \<Longrightarrow> same_but k s' s'' \<Longrightarrow> same_but k s s''"
  by (simp add: same_but_def)

lemma free_pools_spec:
  assumes "dinv (world s) (pool_regions ps + L)" and "pools_typed ps" and "tables_ok e s"
    and "s' = foldl (free_pool e) s ps"
  shows "dinv (world s') L \<and> byte_at (world s') = byte_at (world s) \<and>
    (\<forall>j. room (world s) j \<longrightarrow> room (world s') j) \<and>
    tag_blob_name_to_info s' = tag_blob_name_to_info s \<and> tables_ok e s' \<and> target_count s' = target_count s"
  using assms
proof (induction ps arbitrary: s)
  case Nil
  then show ?case by (simp add: pool_regions_def)
next
  case (Cons x ps)
  obtain p q bs where x: "x = (p, q, bs)" by (cases x)
  obtain rc w1 where w1: "api_free (e_api e) p q bs (world s) = (rc, w1)" by fastforce
  have d: "dinv (world s) (mset (map (block_region p) bs) + (pool_regions ps + L))"
    using Cons.prems(1) by (simp add: x pool_regions_def union_assoc)
  have ty: "\<forall>b \<in> set bs. block_type b = 0" using Cons.prems(2) by (simp add: x pools_typed_def)
  note f = free_ok [OF d ty w1]
  let ?s1 = "free_pool e s x"
  have s1: "world ?s1 = w1" "tag_blob_name_to_info ?s1 = tag_blob_name_to_info s" "tables_ok e ?s1"
    "target_count ?s1 = target_count s"
    using Cons.prems(3)
    by (simp_all add: x free_pool_def w1 Let_def target_count_def length_entries_modify tables_ok_def ll.invar_modify)
  have "dinv (world ?s1) (pool_regions ps + L)" using f s1(1) by simp
  moreover have "pools_typed ps" using Cons.prems(2) by (simp add: pools_typed_def)
  ultimately have "dinv (world s') L \<and> byte_at (world s') = byte_at (world ?s1) \<and>
      (\<forall>j. room (world ?s1) j \<longrightarrow> room (world s') j) \<and>
      tag_blob_name_to_info s' = tag_blob_name_to_info ?s1 \<and> tables_ok e s' \<and> target_count s' = target_count ?s1"
    using Cons.IH [of ?s1] s1(3) Cons.prems(4) by simp
  then show ?case using f s1 by simp
qed

text \<open>Freeing the blocks that satisfy \<open>P\<close> and keeping the others in the blob.\<close>

lemma free_some_spec:
  assumes "cte_inv s" and "find_blob e s k = Some bi"
    and "s' = with_blob e k (\<lambda>bi'. bi'\<lparr>bi_blocks := filter (\<lambda>b. \<not> P b) (bi_blocks bi)\<rparr>)
      (foldl (free_pool e) s (blocks_by_pool (filter P (bi_blocks bi))))"
  shows "cte_inv s'" and "find_blob e s' k = Some (bi\<lparr>bi_blocks := filter (\<lambda>b. \<not> P b) (bi_blocks bi)\<rparr>)"
    and "byte_at (world s') = byte_at (world s)" and "\<forall>j. room (world s) j \<longrightarrow> room (world s') j" and "same_but k s s'"
proof -
  let ?kept = "filter (\<lambda>b. \<not> P b) (bi_blocks bi)" and ?gone = "blocks_by_pool (filter P (bi_blocks bi))"
  let ?m = "tag_blob_name_to_info s" and ?f = "\<lambda>bi'. bi'\<lparr>bi_blocks := filter (\<lambda>b. \<not> P b) (bi_blocks bi)\<rparr>"
  note m = cte_invD(2) [OF assms(1)]
  define R where "R = table_regions (snd (ml_erase (e_hash_str e) k ?m)) + mset (map region_of ?kept)"
  have split: "mset (map region_of (filter P bs)) + mset (map region_of (filter (\<lambda>b. \<not> P b) bs)) = mset (map region_of bs)" for bs
    by (induction bs) auto
  have b: "blob_regions bi = pool_regions ?gone + mset (map region_of ?kept)"
    unfolding blob_regions_def split [of "bi_blocks bi", symmetric] using blocks_by_pool_spec [of "filter P (bi_blocks bi)"] by simp
  have R: "table_regions ?m = pool_regions ?gone + R"
    unfolding table_regions_erase [OF m assms(2), symmetric] b R_def by (simp only: ac_simps)
  have d: "dinv (world s) (pool_regions ?gone + R)" using cte_invD(4) [OF assms(1)] R by simp
  note f = free_pools_spec [OF d conjunct2 [OF blocks_by_pool_spec] cte_invD(1) [OF assms(1)] refl]
  have t: "table_regions (ml_modify (e_hash_str e) k ?f ?m) = R"
  proof -
    have "table_regions (ml_modify (e_hash_str e) k ?f ?m) + blob_regions bi = R + blob_regions bi"
      unfolding table_regions_modify [OF m assms(2), of ?f] table_regions_erase [OF m assms(2), symmetric] R_def
      by (simp add: blob_regions_def ac_simps)
    then show ?thesis by (simp only: add_right_cancel)
  qed
  have l: "find_blob e s' k' = (if k' = k then Some (?f bi) else find_blob e s k')" for k'
    using ll.lookup_modify [OF m] assms(2) f by (simp add: assms(3))
  have "blob_len ?kept \<le> blob_len (bi_blocks bi)" by (simp add: blob_len_def sum_list_filter_le_nat)
  with cte_invD(3) [OF assms(1,2)] have "blob_ok k (?f bi)" by (auto simp: blob_ok_def blocks_ok_def)
  then have bok: "find_blob e s' k' = Some bi' \<Longrightarrow> blob_ok k' bi'" for k' bi'
    using cte_invD(3) [OF assms(1)] l by (auto split: if_splits)
  show "byte_at (world s') = byte_at (world s)" "\<forall>j. room (world s) j \<longrightarrow> room (world s') j"
    "find_blob e s' k = Some (bi\<lparr>bi_blocks := ?kept\<rparr>)" using f assms(3) l by simp_all
  show "same_but k s s'" using f l by (simp add: same_but_def assms(3) target_count_def)
  show "cte_inv s'" using bok f t by (simp add: cte_inv_def assms(3))
qed

lemma FreeAllBlobBlocks_spec:
  assumes "cte_inv s" and "find_blob e s k = Some bi" and "FreeAllBlobBlocks e k bi s = (rc, s')"
  shows "rc = 0" and "cte_inv s'" and "find_blob e s' k = Some (bi\<lparr>bi_blocks := []\<rparr>)"
    and "byte_at (world s') = byte_at (world s)" and "\<forall>j. room (world s) j \<longrightarrow> room (world s') j" and "same_but k s s'"
proof -
  have "s' = with_blob e k (\<lambda>bi'. bi'\<lparr>bi_blocks := filter (\<lambda>b. \<not> True) (bi_blocks bi)\<rparr>)
      (foldl (free_pool e) s (blocks_by_pool (filter (\<lambda>b. True) (bi_blocks bi))))"
    using assms(3) by (auto simp: FreeAllBlobBlocks_def)
  from free_some_spec [OF assms(1,2) this] show "cte_inv s'" "find_blob e s' k = Some (bi\<lparr>bi_blocks := []\<rparr>)"
    "byte_at (world s') = byte_at (world s)" "\<forall>j. room (world s) j \<longrightarrow> room (world s') j" "same_but k s s'" by simp_all
qed (use assms(3) in \<open>simp add: FreeAllBlobBlocks_def\<close>)

section \<open>Extending a blob\<close>

lemma cte_inv_world:
  assumes "cte_inv s" and "dinv w (table_regions (tag_blob_name_to_info s))"
  shows "cte_inv (s\<lparr>world := w\<rparr>)"
  using assms by (simp add: cte_inv_def)

lemma append_block_spec:
  assumes "cte_inv s" and "find_blob e s k = Some bi"
    and "dinv w (add_mset (region_of b) (table_regions (tag_blob_name_to_info s)))"
    and "0 < bb_size b" and "blob_len (bi_blocks bi) + unat (bb_size b) < 2 ^ 64"
  defines "s' \<equiv> with_blob e k (\<lambda>bi. bi\<lparr>bi_blocks := bi_blocks bi @ [b]\<rparr>) (s\<lparr>world := w\<rparr>)"
  shows "cte_inv s'" and "find_blob e s' k = Some (bi\<lparr>bi_blocks := bi_blocks bi @ [b]\<rparr>)" and "same_but k s s'"
proof -
  let ?f = "\<lambda>bi. bi\<lparr>bi_blocks := bi_blocks bi @ [b]\<rparr>"
  note m = cte_invD(2) [OF assms(1)]
  have l: "find_blob e s' k' = (if k' = k then Some (?f bi) else find_blob e s k')" for k'
    using ll.lookup_modify [OF m] assms(2) by (simp add: s'_def)
  then show "find_blob e s' k = Some (?f bi)" by simp
  show "same_but k s s'"
    using l cte_invD(1) [OF assms(1)] by (simp add: same_but_def s'_def target_count_def)
  have t: "table_regions (tag_blob_name_to_info s') = add_mset (region_of b) (table_regions (tag_blob_name_to_info s))"
    using table_regions_modify [OF m assms(2), of ?f] by (simp add: s'_def blob_regions_def)
  have "blob_ok k (?f bi)" using cte_invD(3) [OF assms(1,2)] assms(4,5) by (simp add: blob_ok_def)
  then have "find_blob e s' k' = Some bi' \<Longrightarrow> blob_ok k' bi'" for k' bi'
    using cte_invD(3) [OF assms(1)] l by (auto split: if_splits)
  then show "cte_inv s'" using t assms(3) cte_invD(1) [OF assms(1)] by (simp add: cte_inv_def s'_def)
qed

lemma room_mono: "room w m \<Longrightarrow> n \<le> m \<Longrightarrow> room w n"
  by (induction m arbitrary: n) (auto simp: le_Suc_eq dest: room_less)

lemma extend_loop_spec:
  assumes "cte_inv s" and "find_blob e s k = Some bi" and "blob_len (bi_blocks bi) + unat rem < 2 ^ 64"
    and "unat rem \<le> unit" and "room (world s) (length ts + j)" and "extend_loop e k ts rem s = (rem', s')"
  shows "\<exists>new. cte_inv s' \<and> find_blob e s' k = Some (bi\<lparr>bi_blocks := bi_blocks bi @ new\<rparr>) \<and>
    blob_len new + unat rem' = unat rem \<and> byte_at (world s') = byte_at (world s) \<and> same_but k s s' \<and> room (world s') j"
  using assms
proof (induction ts arbitrary: s bi rem)
  case Nil
  then show ?case
    by (intro exI [of _ "[]"]) (auto simp: same_but_def dest: cte_invD(1))
next
  case (Cons t ts)
  have less: "room (world s) (length ts + j)" "room (world s) j" using Cons.prems(5) room_mono by simp_all
  note skip = Cons.IH [OF Cons.prems(1-4) less(1)]
  show ?case
  proof (cases "rem = 0")
    case True
    then show ?thesis using Cons.prems less
      by (intro exI [of _ "[]"]) (auto simp: same_but_def dest: cte_invD(1))
  next
    case False
    show ?thesis
    proof (cases "find_target e s (ti_bdev_client t)")
      case None
      then show ?thesis using skip Cons.prems(6) False by simp
    next
      case (Some ti)
      let ?n = "min rem (ti_remaining_space ti)"
      show ?thesis
      proof (cases "?n = 0")
        case True
        then show ?thesis using skip Cons.prems(6) False Some by (simp add: Let_def)
      next
        case pos: False
        have n: "0 < ?n" "unat ?n \<le> unat rem" using pos
          by (simp_all add: word_neq_0_conv word_le_nat_alt [symmetric])
        have ns: "\<not> ti_remaining_space ti < ?n" by (simp add: not_less)
        obtain bs w1 where w1: "api_alloc (e_api e) (ti_bdev_client ti) (ti_target_query ti) ?n (world s) = (bs, w1)"
          by fastforce
        have fits: "unat ?n \<le> unit" using n(2) Cons.prems(4) by simp
        note al = alloc_ok [OF cte_invD(4) [OF Cons.prems(1)] Cons.prems(5) [simplified] n(1) fits w1]
        show ?thesis
        proof (cases "bs = []")
          case True
          let ?s1 = "s\<lparr>world := w1\<rparr>"
          have i: "cte_inv ?s1" using al True cte_inv_world [OF Cons.prems(1)] by simp
          have "extend_loop e k ts rem ?s1 = (rem', s')"
            using Cons.prems(6) False Some pos ns w1 True by (simp add: Let_def AllocateFromTarget_def)
          from Cons.IH [OF i _ Cons.prems(3,4) _ this] show ?thesis
            using Cons.prems(2) al by (simp add: same_but_def target_count_def)
        next
          case got: False
          let ?b = "\<lparr>bb_client = ti_bdev_client ti, bb_target_query = ti_target_query ti,
            bb_target_offset = offset (hd bs), bb_size = ?n\<rparr>"
          let ?s1 = "with_blob e k (\<lambda>bi. bi\<lparr>bi_blocks := bi_blocks bi @ [?b]\<rparr>) (s\<lparr>world := w1\<rparr>)"
          have d: "dinv w1 (add_mset (region_of ?b) (table_regions (tag_blob_name_to_info s)))"
            using al got by (simp add: region_of_def)
          have len: "blob_len (bi_blocks bi) + unat (bb_size ?b) < 2 ^ 64" using n(2) Cons.prems(3) by simp
          note ap = append_block_spec [OF Cons.prems(1,2) d _ len]
          have sub: "unat (rem - ?n) = unat rem - unat ?n" by (simp add: unat_sub)
          have l: "extend_loop e k ts (rem - ?n) ?s1 = (rem', s')"
            using Cons.prems(6) False Some pos ns w1 got by (simp add: Let_def AllocateFromTarget_def)
          have b1: "blob_len (bi_blocks (bi\<lparr>bi_blocks := bi_blocks bi @ [?b]\<rparr>)) + unat (rem - ?n) < 2 ^ 64"
            using Cons.prems(3) n(2) by (simp add: sub)
          have "unat (rem - ?n) \<le> unit" using Cons.prems(4) by (simp add: sub)
          from Cons.IH [OF ap(1) ap(2) b1 this _ l] n al
          obtain new where new: "cte_inv s'" "find_blob e s' k = Some (bi\<lparr>bi_blocks := bi_blocks bi @ ?b # new\<rparr>)"
              "blob_len new + unat rem' = unat (rem - ?n)" "byte_at (world s') = byte_at (world s)" "same_but k ?s1 s'"
              "room (world s') j" by auto
          have "blob_len (?b # new) + unat rem' = unat rem" using new(3) n(2) by (simp add: sub)
          moreover have "same_but k s s'" using same_but_trans [OF ap(3) new(5)] n(1) by simp
          ultimately show ?thesis using new by blast
        qed
      qed
    qed
  qed
qed

lemma cte_inv_counter:
  "cte_inv s \<Longrightarrow> cte_inv (s\<lparr>round_robin_counter := c\<rparr>)"
  by (simp add: cte_inv_def)

lemma ExtendBlob_spec:
  assumes "env_ok e" and "cte_inv s" and "find_blob e s k = Some bi" and "unat off + unat len < 2 ^ 64"
    and "unat off + unat len \<le> blob_len (bi_blocks bi) + unit" and "room (world s) (target_count s + j)"
    and "ExtendBlob e k bi off len score minp s = (rc, s')"
  shows "\<exists>new. cte_inv s' \<and> find_blob e s' k = Some (bi\<lparr>bi_blocks := bi_blocks bi @ new\<rparr>) \<and>
    byte_at (world s') = byte_at (world s) \<and> same_but k s s' \<and> room (world s') j \<and>
    (rc = 0 \<longrightarrow> blob_len new = unat off + unat len - blob_len (bi_blocks bi))"
proof -
  have bok: "blob_ok k bi" by (rule cte_invD(3) [OF assms(2,3)])
  note sz = unat_GetTotalSize [OF bok]
  have req: "unat (off + len) = unat off + unat len" using assms(4) by (simp add: unat_add_no_overflow)
  have rj: "room (world s) j" using assms(6) room_mono by simp
  have unchanged: ?thesis if "s' = s\<lparr>round_robin_counter := c\<rparr>" and
    "rc = 0 \<longrightarrow> unat off + unat len \<le> blob_len (bi_blocks bi)" for c
    using that assms(2,3) rj cte_inv_counter cte_invD(1) [OF assms(2)]
    by (intro exI [of _ "[]"]) (simp add: same_but_def target_count_def)
  show ?thesis
  proof (cases "off + len \<le> GetTotalSize bi")
    case True
    then have "s' = s\<lparr>round_robin_counter := round_robin_counter s\<rparr>" using assms(7) by (simp add: ExtendBlob_def Let_def)
    moreover have "rc = 0 \<longrightarrow> unat off + unat len \<le> blob_len (bi_blocks bi)" using True by (simp add: word_le_nat_alt req sz)
    ultimately show ?thesis by (rule unchanged)
  next
    case False
    let ?add = "off + len - GetTotalSize bi"
    let ?av = "map snd (ml_entries (registered_targets s))"
    obtain ord c where sel: "SelectTargets (e_shuffle e) (e_sort e) (StringToDpeType (e_dpe_type e))
        (round_robin_counter s) ?av score ?add = (ord, c)" by fastforce
    let ?ord = "if minp > 0 then filter (\<lambda>t. \<not> persistence_code (ti_persistence_level t) < minp) ord else ord"
    let ?s1 = "s\<lparr>round_robin_counter := c\<rparr>"
    have ua: "unat ?add = unat off + unat len - blob_len (bi_blocks bi)"
      using False by (simp add: unat_sub not_le order_less_imp_le req sz)
    have gt: "blob_len (bi_blocks bi) < unat off + unat len" using False by (simp add: word_le_nat_alt req sz)
    consider (none) "?av = []" "rc = 1" "s' = s\<lparr>round_robin_counter := round_robin_counter s\<rparr>"
      | (no_target) "?av \<noteq> []" "?ord = []" "rc = 2" "s' = ?s1"
      | (loop) r where "extend_loop e k ?ord ?add ?s1 = (r, s')" "rc = (if r > 0 then 3 else 0)"
      using assms(7) False sel by (auto simp: ExtendBlob_def Let_def split: if_splits prod.splits)
    then show ?thesis
    proof cases
      case none
      then show ?thesis by (intro unchanged [of "round_robin_counter s"]) simp_all
    next
      case no_target
      then show ?thesis by (intro unchanged [of c]) simp_all
    next
      case loop
      have "length ?ord \<le> length ord" by simp
      also have "length ord \<le> length ?av"
        using SelectTargets_length [of "e_shuffle e" "e_sort e"] assms(1) sel by (metis env_ok_def fst_conv)
      finally have rm: "room (world ?s1) (length ?ord + j)"
        using room_mono [OF assms(6)] by (simp add: target_count_def)
      have b: "blob_len (bi_blocks bi) + unat ?add < 2 ^ 64" "unat ?add \<le> unit"
        using ua gt assms(4,5) by simp_all
      have f: "find_blob e ?s1 k = Some bi" using assms(3) by simp
      from extend_loop_spec [OF cte_inv_counter [OF assms(2)] f b rm loop(1)]
      obtain new where new: "cte_inv s'" "find_blob e s' k = Some (bi\<lparr>bi_blocks := bi_blocks bi @ new\<rparr>)"
          "blob_len new + unat r = unat ?add" "byte_at (world s') = byte_at (world s)" "same_but k ?s1 s'"
          "room (world s') j" by auto
      have "same_but k s s'" using new(5) by (simp add: same_but_def target_count_def)
      moreover have "rc = 0 \<Longrightarrow> unat r = 0" using loop(2) by (auto split: if_splits simp: word_gt_0)
      ultimately show ?thesis using new ua by auto
    qed
  qed
qed

section \<open>Writing and reading blobs\<close>

lemma content_same_but:
  assumes "same_but k s s'" and "byte_at (world s') = byte_at (world s)" and "k' \<noteq> k"
  shows "content s' k' = content s k'"
  using assms by (simp add: content_def same_but_def)

text \<open>Changes of a blob's metadata leave the contents as they are.\<close>

lemma meta_update:
  assumes "cte_inv s"
    and "\<And>bi. find_blob e s k = Some bi \<Longrightarrow> bi_blocks (f bi) = bi_blocks bi \<and> bi_blob_name (f bi) = bi_blob_name bi \<and>
      \<not> f32_less (bi_score (f bi)) f32_zero"
  shows "cte_inv (with_blob e k f s)" and "content (with_blob e k f s) = content s"
proof -
  let ?m = "tag_blob_name_to_info s"
  note m = cte_invD(2) [OF assms(1)]
  have l: "find_blob e (with_blob e k f s) k' = (if k' = k then map_option f (find_blob e s k) else find_blob e s k')" for k'
    using ll.lookup_modify [OF m] by simp
  have "table_regions (ml_modify (e_hash_str e) k f ?m) = table_regions ?m"
  proof (cases "find_blob e s k")
    case None
    then show ?thesis
      using table_regions_change [OF m ll.invar_modify [OF m, of k f], where k = k and b = None] ll.lookup_modify [OF m] by simp
  next
    case (Some bi)
    then show ?thesis using table_regions_modify [OF m Some, of f] assms(2) by (simp add: blob_regions_def)
  qed
  moreover have "blob_ok k' bi'" if fb: "find_blob e (with_blob e k f s) k' = Some bi'" for k' bi'
  proof (cases "k' = k")
    case True
    then obtain bi where bi: "find_blob e s k = Some bi" "bi' = f bi" using fb l [of k] True by (auto simp del: with_blob_simps)
    then show ?thesis using cte_invD(3) [OF assms(1) bi(1)] assms(2) [OF bi(1)] True by (simp add: blob_ok_def)
  next
    case False
    then show ?thesis using fb l cte_invD(3) [OF assms(1)] by simp
  qed
  ultimately show "cte_inv (with_blob e k f s)"
    using assms(1) unfolding cte_inv_def by simp
  show "content (with_blob e k f s) = content s"
    unfolding content_def l using assms(2) by (auto simp: fun_eq_iff option.map_comp cong: option.map_cong split: if_splits)
      (cases "find_blob e s k"; simp)+
qed

lemma put_finish_spec:
  assumes "cte_inv s" and "\<not> f32_less score f32_zero"
  shows "cte_inv (put_finish e t n off len score cx old s)"
    and "content (put_finish e t n off len score cx old s) = content s"
proof -
  let ?k = "composite_key t n"
  let ?f = "\<lambda>bi. bi\<lparr>bi_compress_lib := cx_compress_lib cx, bi_compress_preset := cx_compress_preset cx,
    bi_trace_key := cx_trace_key cx, bi_last_modified := e_now e, bi_score := score\<rparr>"
  let ?s1 = "with_blob e ?k ?f s" and ?s' = "put_finish e t n off len score cx old s"
  note mu = meta_update [OF assms(1), of ?k ?f]
  have i: "cte_inv ?s1" "content ?s1 = content s" using mu assms(2) by simp_all
  have "tables_ok e ?s'" "tag_blob_name_to_info ?s' = tag_blob_name_to_info ?s1" "world ?s' = world ?s1"
    using cte_invD(1) [OF i(1)] by (simp_all add: put_finish_def Let_def)
  from cte_inv_cong [OF this i(1)] show "cte_inv ?s'" "content ?s' = content s" using i(2) by simp_all
qed

lemma write_data_spec:
  assumes "cte_inv s" and "find_blob e s k = Some bi" and "unat off + unat len < 2 ^ 64" and "0 < len"
    and "ModifyExistingData (e_api e) (bi_blocks bi) dat len off (world s) = (rc, w')"
  shows "rc = 0" and "cte_inv (s\<lparr>world := w'\<rparr>)"
    and "content (s\<lparr>world := w'\<rparr>) k = Some (overlay dat (unat off) (unat len) 0 (blob_bytes (byte_at (world s)) (bi_blocks bi)))"
    and "k' \<noteq> k \<Longrightarrow> content (s\<lparr>world := w'\<rparr>) k' = content s k'"
    and "room (world s) j \<Longrightarrow> room w' j"
proof -
  have bok: "blob_ok k bi" by (rule cte_invD(3) [OF assms(1,2)])
  have sub: "mset (map region_of (bi_blocks bi)) \<subseteq># table_regions (tag_blob_name_to_info s)"
    using blob_regions_sub [OF assms(1,2)] by (simp add: blob_regions_def)
  have b: "blocks_ok (bi_blocks bi)" "blob_len (bi_blocks bi) < 2 ^ 64" using bok by (simp_all add: blob_ok_def)
  note md = ModifyExistingData_spec [OF cte_invD(4) [OF assms(1)] sub b assms(3,4,5)]
  then show "rc = 0" "cte_inv (s\<lparr>world := w'\<rparr>)" "room (world s) j \<Longrightarrow> room w' j"
    using cte_inv_world [OF assms(1)] by blast+
  show "content (s\<lparr>world := w'\<rparr>) k = Some (overlay dat (unat off) (unat len) 0 (blob_bytes (byte_at (world s)) (bi_blocks bi)))"
    using md assms(2) by (simp add: content_def)
  show "content (s\<lparr>world := w'\<rparr>) k' = content s k'" if "k' \<noteq> k"
  proof (cases "find_blob e s k'")
    case (Some bi')
    have "blob_bytes (byte_at w') (bi_blocks bi') = blob_bytes (byte_at (world s)) (bi_blocks bi')"
    proof (rule blob_bytes_cong)
      fix b i assume "b \<in> set (bi_blocks bi')" "in_region (region_of b) (bb_client b) i"
      then have "\<forall>c \<in> set (bi_blocks bi). \<not> in_region (region_of c) (bb_client b) i"
        using other_blob_regions [OF assms(1,2) Some that] by blast
      then show "byte_at w' (bb_client b) i = byte_at (world s) (bb_client b) i" using md by blast
    qed
    then show ?thesis using Some by (simp add: content_def)
  qed (simp add: content_def)
qed

lemma put_store_spec:
  assumes "env_ok e" and "cte_inv s" and "find_blob e s (composite_key t n) = Some bi"
    and "unat off + unat len < 2 ^ 64" and "0 < len" and "unat off + unat len \<le> blob_len (bi_blocks bi) + unit"
    and "room (world s) (target_count s + j)" and "\<not> f32_less score f32_zero"
    and "put_store e t n off len dat score cx old s = (rc, s')"
  shows "cte_inv s'" and "k' \<noteq> composite_key t n \<Longrightarrow> content s' k' = content s k'"
    and "rc = 0 \<Longrightarrow> \<exists>gap. length gap = unat off + unat len - blob_len (bi_blocks bi) \<and>
      content s' (composite_key t n) =
        Some (overlay dat (unat off) (unat len) 0 (blob_bytes (byte_at (world s)) (bi_blocks bi) @ gap))"
    and "room (world s') j"
proof -
  let ?k = "composite_key t n"
  obtain ar s1 where ext: "ExtendBlob e ?k bi off len score (cx_min_persistence_level cx) s = (ar, s1)" by fastforce
  from ExtendBlob_spec [OF assms(1-4,6,7) ext] obtain new where
    new: "cte_inv s1" "find_blob e s1 ?k = Some (bi\<lparr>bi_blocks := bi_blocks bi @ new\<rparr>)"
      "byte_at (world s1) = byte_at (world s)" "same_but ?k s s1" "room (world s1) j"
      "ar = 0 \<longrightarrow> blob_len new = unat off + unat len - blob_len (bi_blocks bi)" by blast
  let ?bi = "bi\<lparr>bi_blocks := bi_blocks bi @ new\<rparr>"
  have c1: "k' \<noteq> ?k \<Longrightarrow> content s1 k' = content s k'" for k' by (rule content_same_but [OF new(4,3)])
  have all: "cte_inv s' \<and> room (world s') j \<and> (\<forall>k'. k' \<noteq> ?k \<longrightarrow> content s' k' = content s k') \<and>
    (rc = 0 \<longrightarrow> ar = 0 \<and> content s' ?k =
      Some (overlay dat (unat off) (unat len) 0 (blob_bytes (byte_at (world s)) (bi_blocks bi @ new))))"
  proof (cases "ar = 0")
    case False
    have "ar \<in> {0, 1, 2, 3}" using ext by (auto simp: ExtendBlob_def Let_def split: if_splits prod.splits)
    with False have "10 + ar \<noteq> 0" by auto
    moreover have "rc = 10 + ar" "s' = s1" using assms(9) False by (simp_all add: put_store_def assms(3) ext Let_def)
    ultimately show ?thesis using new(1,5) c1 by simp
  next
    case True
    let ?s2 = "if bi_blocks ?bi \<noteq> [] then log_blob e kExtendBlob
      (put_ExtendBlob \<lparr>eb_tag_major = id_major t, eb_tag_minor = id_minor t, eb_blob_name = n,
        new_blocks = map txn_block (bi_blocks ?bi)\<rparr>) s1 else s1"
    have t2: "tables_ok e ?s2" "tag_blob_name_to_info ?s2 = tag_blob_name_to_info s1" "world ?s2 = world s1"
      using cte_invD(1) [OF new(1)] by simp_all
    have i2: "cte_inv ?s2" "content ?s2 = content s1" using cte_inv_cong [OF t2 new(1)] by simp_all
    have f2: "find_blob e ?s2 ?k = Some ?bi" using new(2) t2(2) by simp
    obtain wr w' where md: "ModifyExistingData (e_api e) (bi_blocks ?bi) dat len off (world s1) = (wr, w')" by fastforce
    note wd = write_data_spec [OF i2(1) f2 assms(4,5) md [folded t2(3)]]
    let ?s3 = "?s2\<lparr>world := w'\<rparr>"
    have s': "rc = 0" "s' = put_finish e t n off len score cx old ?s3"
      using assms(9) True new(2) md wd(1)
      by (simp_all add: put_store_def assms(3) ext Let_def if_distrib [of world] cong: if_cong)
    note pf = put_finish_spec [OF wd(2) assms(8), of t n off len cx old]
    have "content s' ?k = Some (overlay dat (unat off) (unat len) 0 (blob_bytes (byte_at (world s)) (bi_blocks bi @ new)))"
      using wd(3) pf(2) new(3) t2(3) by (simp add: s')
    moreover have "room (world s') j" using wd(5) new(5) t2(3) by (simp add: s' put_finish_def Let_def)
    ultimately show ?thesis using True pf wd(4) i2(2) c1 by (simp add: s')
  qed
  show "cte_inv s'" "room (world s') j" using all by blast+
  show "k' \<noteq> ?k \<Longrightarrow> content s' k' = content s k'" using all by blast
  show "rc = 0 \<Longrightarrow> \<exists>gap. length gap = unat off + unat len - blob_len (bi_blocks bi) \<and>
      content s' ?k = Some (overlay dat (unat off) (unat len) 0 (blob_bytes (byte_at (world s)) (bi_blocks bi) @ gap))"
    using all new(6) by (intro exI [of _ "blob_bytes (byte_at (world s)) new"]) (simp add: blob_bytes_append)
qed

text \<open>The part of the old content a put at \<open>off\<close> builds on: a put at the start replaces the blob.\<close>

definition kept :: "'w Cte \<Rightarrow> string \<Rightarrow> u64 \<Rightarrow> u8 list" where
  "kept s k off = (case content s k of None \<Rightarrow> [] | Some c \<Rightarrow> if off = 0 then [] else c)"

lemma CreateNewBlob_spec:
  assumes "cte_inv s" and "n \<noteq> []" and "find_blob e s (composite_key t n) = None" and "\<not> f32_less score f32_zero"
    and "CreateNewBlob e n t score s = (ok, s')"
  shows "ok" and "cte_inv s'" and "world s' = world s" and "target_count s' = target_count s"
    and "\<exists>bi. find_blob e s' (composite_key t n) = Some bi \<and> bi_blocks bi = []"
    and "k' \<noteq> composite_key t n \<Longrightarrow> content s' k' = content s k'"
proof -
  let ?k = "composite_key t n" and ?m = "tag_blob_name_to_info s"
  let ?bi = "(BlobInfo_new (e_now e))\<lparr>bi_blob_name := n, bi_score := score\<rparr>"
  note m = cte_invD(2) [OF assms(1)]
  let ?m' = "snd (ml_insert_or_assign (e_hash_str e) ?k ?bi ?m)"
  have s': "ok" "tag_blob_name_to_info s' = ?m'" "world s' = world s" "target_count s' = target_count s" "tables_ok e s'"
    using assms(2,5) cte_invD(1) [OF assms(1)] ll.invar_upd [OF m, of ?k ?bi]
    by (auto simp: CreateNewBlob_def Let_def target_count_def tables_ok_def)
  then show "ok" "world s' = world s" "target_count s' = target_count s" by simp_all
  have l: "find_blob e s' k' = (if k' = ?k then Some ?bi else find_blob e s k')" for k'
    using ll.lookup_upd [OF m] s'(2) by simp
  show "\<exists>bi. find_blob e s' ?k = Some bi \<and> bi_blocks bi = []" using l by (simp add: BlobInfo_new_def)
  show "k' \<noteq> ?k \<Longrightarrow> content s' k' = content s k'" using l s'(3) by (simp add: content_def)
  have "blob_ok ?k ?bi" using assms(2,4) by (auto simp: blob_ok_def BlobInfo_new_def)
  then have "find_blob e s' k' = Some bi' \<Longrightarrow> blob_ok k' bi'" for k' bi'
    using l cte_invD(3) [OF assms(1)] by (auto split: if_splits)
  moreover have "table_regions ?m' = table_regions ?m"
    using table_regions_insert [OF m assms(3)] by (simp add: blob_regions_def BlobInfo_new_def)
  ultimately show "cte_inv s'" using s' cte_invD(4) [OF assms(1)] by (simp add: cte_inv_def)
qed

lemma PutBlob_room:
  assumes "env_ok e" and "cte_inv s" and "unat off + unat len < 2 ^ 64"
    and "unat off + unat len \<le> length (kept s (composite_key t n) off) + unit"
    and "room (world s) (target_count s + j)" and "PutBlob e t n off len data score cx s = (rc, s')"
  shows "cte_inv s' \<and> room (world s') j \<and> (\<forall>k'. k' \<noteq> composite_key t n \<longrightarrow> content s' k' = content s k') \<and>
    (rc = 0 \<longrightarrow> (\<exists>dat gap. data = Some dat \<and>
      length gap = unat off + unat len - length (kept s (composite_key t n) off) \<and>
      content s' (composite_key t n) = Some (overlay dat (unat off) (unat len) 0 (kept s (composite_key t n) off @ gap))))"
proof -
  let ?k = "composite_key t n"
  let ?found = "CheckBlobExists e n t s"
  define sc where "sc = (if f32_less score f32_zero then (case ?found of Some bi \<Rightarrow> bi_score bi | None \<Rightarrow> f32_one) else score)"
  consider (reject) "rc \<noteq> 0" "s' = s"
    | (go) dat where "0 < len" "data = Some dat" "n \<noteq> []" "\<not> f32_less f32_one sc"
    using assms(6) unfolding PutBlob_def Let_def sc_def [symmetric]
    by (cases data) (auto simp: word_gt_0 split: if_splits)
  then show ?thesis
  proof cases
    case reject
    then show ?thesis using assms(2) room_mono [OF assms(5)] by simp
  next
    case go
    have found: "?found = find_blob e s ?k" using go(3) by (simp add: CheckBlobExists_def)
    have sc: "\<not> f32_less sc f32_zero"
      unfolding sc_def using cte_invD(3) [OF assms(2)] by (auto simp: found blob_ok_def split: option.splits)
    note put = assms(6) [unfolded PutBlob_def Let_def, folded sc_def, unfolded found go(2)]
    show ?thesis
    proof (cases "find_blob e s ?k")
      case None
      obtain ok s1 where cn: "CreateNewBlob e n t sc s = (ok, s1)" by fastforce
      note c = CreateNewBlob_spec [OF assms(2) go(3) None sc cn]
      from c(5) obtain bi where bi: "find_blob e s1 ?k = Some bi" "bi_blocks bi = []" by blast
      have ps: "put_store e t n off len dat sc cx 0 s1 = (rc, s')"
        using put go None cn c(1) by (simp add: word_gt_0)
      have kept: "kept s ?k off = []" using None by (simp add: kept_def content_def)
      have fits: "unat off + unat len \<le> blob_len (bi_blocks bi) + unit" using assms(4) kept bi(2) by simp
      have rm: "room (world s1) (target_count s1 + j)" using assms(5) c(3,4) by simp
      note p = put_store_spec [OF assms(1) c(2) bi(1) assms(3) go(1) fits rm sc ps]
      show ?thesis using p c(6) go(2) bi(2) kept by simp
    next
      case (Some bi)
      have bok: "blob_ok ?k bi" by (rule cte_invD(3) [OF assms(2) Some])
      show ?thesis
      proof (cases "off \<noteq> 0 \<or> GetTotalSize bi = 0")
        case True
        have ps: "put_store e t n off len dat sc cx (GetTotalSize bi) s = (rc, s')"
          using put go Some True sc by (auto simp: ClearBlob_def word_gt_0)
        have kept: "kept s ?k off = blob_bytes (byte_at (world s)) (bi_blocks bi)"
        proof (cases "off = 0")
          case z: True
          then have "blob_len (bi_blocks bi) = 0" using True unat_GetTotalSize [OF bok] by simp
          then have "blob_bytes (byte_at (world s)) (bi_blocks bi) = []" using length_blob_bytes length_0_conv by metis
          then show ?thesis using z Some by (simp add: kept_def content_def)
        next
          case False
          then show ?thesis using Some by (simp add: kept_def content_def)
        qed
        have fits: "unat off + unat len \<le> blob_len (bi_blocks bi) + unit" using assms(4) kept by simp
        note p = put_store_spec [OF assms(1,2) Some assms(3) go(1) fits assms(5) sc ps]
        show ?thesis using p go(2) by (simp add: kept)
      next
        case False
        obtain fr s1 where fr: "FreeAllBlobBlocks e ?k bi s = (fr, s1)" by fastforce
        note f = FreeAllBlobBlocks_spec [OF assms(2) Some fr]
        let ?s2 = "log_blob e kClearBlob (blob_ref t n) s1"
        have ps: "put_store e t n off len dat sc cx 0 ?s2 = (rc, s')"
          using put go Some False sc fr f(1) by (auto simp: ClearBlob_def word_gt_0)
        have t2: "tables_ok e ?s2" "tag_blob_name_to_info ?s2 = tag_blob_name_to_info s1" "world ?s2 = world s1"
          using cte_invD(1) [OF f(2)] by simp_all
        note i2 = cte_inv_cong [OF t2 f(2)]
        have f2: "find_blob e ?s2 ?k = Some (bi\<lparr>bi_blocks := []\<rparr>)" using f(3) by simp
        have rm: "room (world ?s2) (target_count ?s2 + j)" using assms(5) f(5,6) by (simp add: same_but_def target_count_def)
        have kept: "kept s ?k off = []" using False Some by (simp add: kept_def content_def)
        have fits: "unat off + unat len \<le> blob_len (bi_blocks (bi\<lparr>bi_blocks := []\<rparr>)) + unit" using assms(4) kept by simp
        note p = put_store_spec [OF assms(1) conjunct1 [OF i2] f2 assms(3) go(1) fits rm sc ps]
        show ?thesis using p i2 content_same_but [OF f(6,4)] go(2) by (simp add: kept)
      qed
    qed
  qed
qed

lemmas PutBlob_spec = PutBlob_room [where j = 0, unfolded add_0_right]

lemma GetBlob_spec:
  assumes "cte_inv s" and "unat off + unat len < 2 ^ 64" and "GetBlob e t n off len buf s = (rc, buf', s')"
  shows "cte_inv s' \<and> content s' = content s \<and> target_count s' = target_count s \<and>
    (\<forall>j. room (world s) j \<longrightarrow> room (world s') j) \<and>
    (rc = 0 \<longleftrightarrow> 0 < len \<and> n \<noteq> [] \<and> content s (composite_key t n) \<noteq> None) \<and>
    (\<forall>c. rc = 0 \<longrightarrow> content s (composite_key t n) = Some c \<longrightarrow> buf' = filled c 0 (unat off) (unat len) buf)"
proof -
  let ?k = "composite_key t n"
  consider (reject) "rc = 1" "s' = s" "buf' = buf" "\<not> (0 < len \<and> n \<noteq> [] \<and> content s ?k \<noteq> None)"
    | (go) bi where "0 < len" "n \<noteq> []" "find_blob e s ?k = Some bi"
    using assms(3)
    by (cases "find_blob e s ?k") (auto simp: GetBlob_def CheckBlobExists_def content_def word_gt_0 split: if_splits)
  then show ?thesis
  proof cases
    case reject
    then show ?thesis using assms(1) by simp
  next
    case go
    have bok: "blob_ok ?k bi" by (rule cte_invD(3) [OF assms(1) go(3)])
    obtain rr b1 w1 where rd: "ReadData (e_api e) (bi_blocks bi) buf len off (world s) = (rr, b1, w1)"
      by (metis prod.exhaust)
    have sub: "mset (map region_of (bi_blocks bi)) \<subseteq># table_regions (tag_blob_name_to_info s)"
      using blob_regions_sub [OF assms(1) go(3)] by (simp add: blob_regions_def)
    have b: "blocks_ok (bi_blocks bi)" "blob_len (bi_blocks bi) < 2 ^ 64" using bok by (simp_all add: blob_ok_def)
    note r = ReadData_spec [OF cte_invD(4) [OF assms(1)] sub b assms(2) go(1) rd]
    let ?s1 = "s\<lparr>world := w1\<rparr>" and ?f = "\<lambda>bi. bi\<lparr>bi_last_read := e_now e\<rparr>"
    have i1: "cte_inv ?s1" using r cte_inv_world [OF assms(1)] by simp
    have c1: "content ?s1 = content s" by (rule ext) (use r in \<open>simp add: content_def\<close>)
    have fb: "find_blob e ?s1 ?k = Some bi" using go(3) by simp
    have "find_blob e ?s1 ?k = Some bi' \<Longrightarrow> bi_blocks (?f bi') = bi_blocks bi' \<and> bi_blob_name (?f bi') = bi_blob_name bi' \<and>
        \<not> f32_less (bi_score (?f bi')) f32_zero" for bi'
      using fb bok by (simp add: blob_ok_def)
    note mu = meta_update [OF i1, of ?k ?f, OF this]
    have s': "rc = 0" "buf' = b1" "tables_ok e s'"
      "tag_blob_name_to_info s' = tag_blob_name_to_info (with_blob e ?k ?f ?s1)" "world s' = world (with_blob e ?k ?f ?s1)"
      "target_count s' = target_count s"
      using assms(3) go rd r cte_invD(1) [OF mu(1)]
      by (auto simp: GetBlob_def CheckBlobExists_def word_gt_0 target_count_def)
    note c = cte_inv_cong [OF s'(3-5) mu(1)]
    show ?thesis using c mu(2) c1 s'(1,2,5,6) r go by (simp add: content_def)
  qed
qed

lemma DelBlob_spec:
  assumes "cte_inv s" and "DelBlob e t n s = (rc, s')"
  shows "cte_inv s' \<and> (rc = 0 \<longleftrightarrow> n \<noteq> [] \<and> content s (composite_key t n) \<noteq> None) \<and>
    content s' = (if rc = 0 then (content s)(composite_key t n := None) else content s)"
proof -
  let ?k = "composite_key t n"
  consider (reject) "rc = 1" "s' = s" "\<not> (n \<noteq> [] \<and> content s ?k \<noteq> None)"
    | (go) bi where "n \<noteq> []" "find_blob e s ?k = Some bi"
    using assms(2)
    by (cases "find_blob e s ?k") (auto simp: DelBlob_def CheckBlobExists_def content_def split: if_splits)
  then show ?thesis
  proof cases
    case reject
    then show ?thesis using assms(1) by simp
  next
    case go
    obtain fr s1 where fr: "FreeAllBlobBlocks e ?k bi s = (fr, s1)" by fastforce
    note f = FreeAllBlobBlocks_spec [OF assms(1) go(2) fr]
    note m = cte_invD(2) [OF f(2)]
    let ?m' = "snd (ml_erase (e_hash_str e) ?k (tag_blob_name_to_info s1))"
    have s': "rc = 0" "tag_blob_name_to_info s' = ?m'" "world s' = world s1" "tables_ok e s'"
      using assms(2) go fr cte_invD(1) [OF f(2)] ll.invar_del [OF m, of ?k]
      by (auto simp: DelBlob_def CheckBlobExists_def Let_def tables_ok_def ll.invar_modify)
    have l: "find_blob e s' k' = (if k' = ?k then None else find_blob e s1 k')" for k'
      using ll.lookup_del [OF m] s'(2) by simp
    have "table_regions ?m' = table_regions (tag_blob_name_to_info s1)"
      using table_regions_erase [OF m f(3)] by (simp add: blob_regions_def)
    then have "cte_inv s'"
      using s' l cte_invD(3) [OF f(2)] cte_invD(4) [OF f(2)] by (auto simp: cte_inv_def split: if_splits)
    moreover have "content s' k' = (if k' = ?k then None else content s k')" for k'
      using l s'(3) content_same_but [OF f(6,4)] by (simp add: content_def)
    ultimately show ?thesis using s'(1) go by (auto simp: fun_eq_iff content_def)
  qed
qed

section \<open>The other handlers\<close>

lemma ReorganizeBlob_spec:
  assumes "env_ok e" and "cte_inv s" and "room (world s) (target_count s)"
    and "\<And>c. content s (composite_key t n) = Some c \<Longrightarrow> length c \<le> unit"
    and "ReorganizeBlob e t n score s = (rc, s')"
  shows "cte_inv s' \<and> (\<forall>k'. k' \<noteq> composite_key t n \<longrightarrow> content s' k' = content s k') \<and>
    (rc = 0 \<longrightarrow> content s' = content s)"
proof -
  let ?k = "composite_key t n"
  consider (same) "s' = s"
    | (go) bi buf where "n \<noteq> []" "find_blob e s ?k = Some bi" "GetTotalSize bi \<noteq> 0"
      "(case GetBlob e t n 0 (GetTotalSize bi) buf s of (get_rc, buf', s1) \<Rightarrow>
         if get_rc \<noteq> 0 then (6, s1)
         else (case PutBlob e t n 0 (GetTotalSize bi) (Some buf') score Context_default s1 of
                 (put_rc, s2) \<Rightarrow> if put_rc \<noteq> 0 then (7, s2) else (0, s2))) = (rc, s')"
    using assms(5) unfolding ReorganizeBlob_def CheckBlobExists_def Let_def
    by (auto split: if_splits option.splits)
  then show ?thesis
  proof cases
    case same
    then show ?thesis using assms(2) by simp
  next
    case go
    let ?n = "GetTotalSize bi"
    let ?c = "blob_bytes (byte_at (world s)) (bi_blocks bi)"
    have bok: "blob_ok ?k bi" by (rule cte_invD(3) [OF assms(2) go(2)])
    have un: "unat ?n = length ?c" using unat_GetTotalSize [OF bok] by simp
    have c: "content s ?k = Some ?c" using go(2) by (simp add: content_def)
    have b0: "unat (0 :: u64) + unat ?n < 2 ^ 64" using unat_less_2p64 [of ?n] by simp
    obtain gr b1 s1 where g: "GetBlob e t n 0 ?n buf s = (gr, b1, s1)" by (metis prod.exhaust)
    note gb = GetBlob_spec [OF assms(2) b0 g]
    have gr: "gr = 0" using gb go(1,3) c by (simp add: word_gt_0)
    have b1: "b1 = filled ?c 0 0 (length ?c) buf" using gb gr c un by simp
    obtain pr s2 where p: "PutBlob e t n 0 ?n (Some b1) score Context_default s1 = (pr, s2)" by fastforce
    have s': "s' = s2" "rc = 0 \<Longrightarrow> pr = 0" using go(4) g gr p by (auto split: if_splits)
    have k1: "kept s1 ?k 0 = []" using gb c by (simp add: kept_def)
    have fits: "unat (0 :: u64) + unat ?n \<le> length (kept s1 ?k 0) + unit"
      using assms(4) [OF c] un by simp
    have "room (world s1) (target_count s1)" using assms(3) gb by simp
    note pb = PutBlob_spec [OF assms(1) conjunct1 [OF gb] b0 fits this p]
    have ov: "overlay (filled ?c 0 0 (length ?c) buf) 0 (length ?c) 0 gap = ?c" if "length gap = length ?c" for gap
      using that by (intro nth_equalityI) (simp_all add: nth_overlay filled_def)
    have k: "content s' ?k = content s ?k" if "rc = 0" using pb s'(1) s'(2) [OF that] k1 un b1 ov c by auto
    have o: "cte_inv s'" "\<forall>k'. k' \<noteq> ?k \<longrightarrow> content s' k' = content s k'"
      using pb s'(1) conjunct1 [OF conjunct2 [OF gb]] by simp_all
    have "content s' k' = content s k'" if "rc = 0" for k' using o(2) k [OF that] by (cases "k' = ?k") simp_all
    then show ?thesis using o by blast
  qed
qed

lemma del_blobs_spec:
  assumes "cte_inv s" and "\<forall>n \<in> set names. n \<noteq> []"
  shows "cte_inv (foldl (\<lambda>s n. snd (DelBlob e t n s)) s names) \<and>
    content (foldl (\<lambda>s n. snd (DelBlob e t n s)) s names) =
      (\<lambda>k. if k \<in> composite_key t ` set names then None else content s k)"
  using assms
proof (induction names arbitrary: s)
  case (Cons n names)
  obtain rc s1 where d: "DelBlob e t n s = (rc, s1)" by fastforce
  note ds = DelBlob_spec [OF Cons.prems(1) d]
  have c1: "content s1 = (content s)(composite_key t n := None)" using ds Cons.prems(2) by (auto simp: fun_eq_iff)
  from Cons.IH [of s1] ds Cons.prems(2) show ?case by (auto simp: d c1 fun_eq_iff)
qed simp

lemma content_None: "content s k = None \<longleftrightarrow> find_blob e s k = None"
  by (simp add: content_def)

text \<open>The blobs \<^verbatim>\<open>DelTag\<close> deletes one by one are all those of the tag: nothing is left under its prefix.\<close>

lemma del_tag_blobs:
  fixes t :: TagId
  assumes "cte_inv s"
  defines "s1 \<equiv> foldl (\<lambda>s name. snd (DelBlob e t name s)) s (tag_blob_names t s)"
  shows "cte_inv s1" and "content s1 = (\<lambda>k. if starts_with (tag_prefix t) k then None else content s k)"
    and "filter (starts_with (tag_prefix t)) (map fst (ml_entries (tag_blob_name_to_info s1))) = []"
proof -
  let ?m = "tag_blob_name_to_info s"
  let ?names = "tag_blob_names t s"
  note m = cte_invD(2) [OF assms(1)]
  have entry: "(k, bi) \<in> set (ml_entries ?m) \<longleftrightarrow> find_blob e s k = Some bi" for k bi by (rule ll.in_entries_iff [OF m])
  have key: "k = composite_key t (bi_blob_name bi)" "bi_blob_name bi \<noteq> []"
    if "find_blob e s k = Some bi" "starts_with (tag_prefix t) k" for k bi
    using cte_invD(3) [OF assms(1) that(1)] that(2) by (auto simp: blob_ok_def tag_prefix_iff)
  have name: "n \<in> set ?names \<longleftrightarrow> (\<exists>k bi. find_blob e s k = Some bi \<and> starts_with (tag_prefix t) k \<and> n = bi_blob_name bi)" for n
    unfolding entry [symmetric] tag_blob_names_def by (force simp: image_iff)
  have ne: "\<forall>n \<in> set ?names. n \<noteq> []"
  proof
    fix n assume "n \<in> set ?names"
    then obtain k bi where "find_blob e s k = Some bi" "starts_with (tag_prefix t) k" "n = bi_blob_name bi"
      unfolding name by (elim exE conjE)
    then show "n \<noteq> []" using key(2) by simp
  qed
  have ks: "k \<in> composite_key t ` set ?names \<longleftrightarrow> starts_with (tag_prefix t) k \<and> find_blob e s k \<noteq> None" for k
  proof
    assume "k \<in> composite_key t ` set ?names"
    then obtain n where n: "k = composite_key t n" "n \<in> set ?names" by (rule imageE)
    from n(2) obtain k' bi where e: "find_blob e s k' = Some bi" "starts_with (tag_prefix t) k'" "n = bi_blob_name bi"
      unfolding name by (elim exE conjE)
    then show "starts_with (tag_prefix t) k \<and> find_blob e s k \<noteq> None" using key(1) [OF e(1,2)] n(1) by simp
  next
    assume r: "starts_with (tag_prefix t) k \<and> find_blob e s k \<noteq> None"
    then obtain bi where bi: "find_blob e s k = Some bi" by blast
    then have "bi_blob_name bi \<in> set ?names" unfolding name using r by blast
    then show "k \<in> composite_key t ` set ?names" using key(1) [OF bi] r by blast
  qed
  note d = del_blobs_spec [OF assms(1) ne, of t, folded s1_def]
  have c1: "content s1 k = (if starts_with (tag_prefix t) k then None else content s k)" for k
    using d ks [of k] by (auto simp: content_None)
  show "cte_inv s1" using d by blast
  show "content s1 = (\<lambda>k. if starts_with (tag_prefix t) k then None else content s k)" using c1 by blast
  show "filter (starts_with (tag_prefix t)) (map fst (ml_entries (tag_blob_name_to_info s1))) = []"
  proof -
    have no: "\<not> starts_with (tag_prefix t) k" if "(k, bi) \<in> set (ml_entries (tag_blob_name_to_info s1))" for k bi
    proof -
      have "content s1 k \<noteq> None"
        using that ll.in_entries_iff [OF cte_invD(2) [OF conjunct1 [OF d]]] content_None by simp
      then show ?thesis using c1 [of k] by meson
    qed
    show ?thesis unfolding filter_empty_conv
    proof
      fix k assume "k \<in> set (map fst (ml_entries (tag_blob_name_to_info s1)))"
      then obtain bi where "(k, bi) \<in> set (ml_entries (tag_blob_name_to_info s1))" by auto
      then show "\<not> starts_with (tag_prefix t) k" by (rule no)
    qed
  qed
qed

lemma del_tag_table:
  assumes "cte_inv s"
  shows "tag_blob_name_to_info (del_tag_resolved e t info s) =
      tag_blob_name_to_info (foldl (\<lambda>s name. snd (DelBlob e t name s)) s (tag_blob_names t s))"
    and "tables_ok e (del_tag_resolved e t info s)"
    and "world (del_tag_resolved e t info s) = world (foldl (\<lambda>s name. snd (DelBlob e t name s)) s (tag_blob_names t s))"
proof -
  let ?s1 = "foldl (\<lambda>s name. snd (DelBlob e t name s)) s (tag_blob_names t s)"
  note d = del_tag_blobs [OF assms, of t]
  have same: "tag_blob_name_to_info (erase_prefix e (tag_prefix t) ?s1) = tag_blob_name_to_info ?s1"
    "tables_ok e (erase_prefix e (tag_prefix t) ?s1)" "world (erase_prefix e (tag_prefix t) ?s1) = world ?s1"
    using cte_invD(1) [OF d(1)] d(3) by (simp_all add: erase_prefix_def tables_ok_def)
  show "tag_blob_name_to_info (del_tag_resolved e t info s) = tag_blob_name_to_info ?s1"
    "world (del_tag_resolved e t info s) = world ?s1"
    by (simp_all add: del_tag_resolved_def tag_blob_names_def [symmetric] Let_def same split: option.split)
  show "tables_ok e (del_tag_resolved e t info s)"
    using same(2) by (auto simp: del_tag_resolved_def tag_blob_names_def [symmetric] Let_def tables_ok_def ll.invar_del split: option.split)
qed

lemma del_tag_spec:
  assumes "cte_inv s"
  shows "cte_inv (del_tag_resolved e t info s) \<and>
    content (del_tag_resolved e t info s) = (\<lambda>k. if starts_with (tag_prefix t) k then None else content s k)"
  using cte_inv_cong [OF del_tag_table(2,1,3) [OF assms] del_tag_blobs(1) [OF assms]] del_tag_blobs(2) [OF assms]
  by simp

end

end
