(* ===== verification/Cte_Ram.thy ===== *)
theory Cte_Ram
  imports Cte_Inv
begin

text \<open>
  The context transfer engine on memory devices: the device client wired to
  the handlers of the block device module, and the proof that this device
  satisfies the laws the engine relies on.

  The engine returns every block as category 0 with the size it asked for
  (\<^verbatim>\<open>FreeAllBlobBlocks\<close>), so the caches of the allocator hold blocks whose size
  field is not the size of the space behind them. The proof relates the device
  to one with the same cached offsets and correct sizes.
\<close>

section \<open>The device client on memory devices\<close>

type_synonym ram_world = "PoolId \<rightharpoonup> Bdev"

definition blank_bdev :: Bdev where
  "blank_bdev = \<lparr>bdev_type = kRam, file_path = [], worker_io_contexts = [], file_size = 0, alignment = 0,
     io_depth = 0, max_blocks_per_operation = 64, ram_buffer = (\<lambda>_. 0), ram_size = 0,
     global_block_map = GlobalBlockMap_Init 0, heap = Heap_Init 0 0,
     total_reads = 0, total_writes = 0, total_bytes_read = 0, total_bytes_written = 0,
     perf_metrics = \<lparr>read_bandwidth_mbps = 100, write_bandwidth_mbps = 80, read_latency_us = 1000,
       write_latency_us = 1200, iops = 1000\<rparr>\<rparr>"

definition ram_params :: "u64 \<Rightarrow> CreateParams" where
  "ram_params sz = \<lparr>cp_bdev_type = kRam, cp_total_size = sz, cp_io_depth = 32, cp_alignment = 4096,
     cp_perf_metrics = perf_metrics blank_bdev\<rparr>"

definition ram_create_env :: "nat \<Rightarrow> CreateEnv" where
  "ram_create_env n = \<lparr>backend_ok = True, open_ok = True, current_size = 0, truncate_ok = True, new_ok = True, worker_count = n\<rparr>"

text \<open>
  All tasks run on worker \<open>wk\<close> of \<open>n\<close>. A pool that exists is reused; file
  devices are refused. The predicted times of \<^verbatim>\<open>GetStats\<close> are 0.
\<close>

definition ram_create :: "nat \<Rightarrow> PoolQuery \<Rightarrow> string \<Rightarrow> PoolId \<Rightarrow> BdevType \<Rightarrow> u64 \<Rightarrow> ram_world \<Rightarrow> u32 \<times> PoolId \<times> ram_world" where
  "ram_create n q name p ty sz w =
     (case w p of
        Some _ \<Rightarrow> (0, p, w)
      | None \<Rightarrow> if ty \<noteq> kRam then (1, p, w)
                else case Create (ram_create_env n) name (ram_params sz) blank_bdev of
                       (rc, b) \<Rightarrow> if rc = 0 then (0, p, w(p \<mapsto> b)) else (rc, p, w))"

definition ram_alloc :: "int \<Rightarrow> PoolId \<Rightarrow> PoolQuery \<Rightarrow> u64 \<Rightarrow> ram_world \<Rightarrow> Block list \<times> ram_world" where
  "ram_alloc wk p q sz w =
     (case w p of
        None \<Rightarrow> ([], w)
      | Some b \<Rightarrow> (case AllocateBlocks b wk sz of (rc, bs, b') \<Rightarrow> (bs, w(p \<mapsto> b'))))"

definition ram_free :: "int \<Rightarrow> PoolId \<Rightarrow> PoolQuery \<Rightarrow> Block list \<Rightarrow> ram_world \<Rightarrow> u32 \<times> ram_world" where
  "ram_free wk p q bs w =
     (case w p of None \<Rightarrow> (1, w) | Some b \<Rightarrow> (case FreeBlocks b wk bs of (rc, b') \<Rightarrow> (rc, w(p \<mapsto> b'))))"

definition ram_write :: "PoolId \<Rightarrow> PoolQuery \<Rightarrow> Block list \<Rightarrow> mem \<Rightarrow> u64 \<Rightarrow> ram_world \<Rightarrow> u64 \<times> ram_world" where
  "ram_write p q bs dat len w =
     (case w p of None \<Rightarrow> (0, w) | Some b \<Rightarrow> (case WriteToRam b bs dat len of (rc, n, b') \<Rightarrow> (n, w(p \<mapsto> b'))))"

definition ram_read :: "PoolId \<Rightarrow> PoolQuery \<Rightarrow> Block list \<Rightarrow> mem \<Rightarrow> u64 \<Rightarrow> ram_world \<Rightarrow> u64 \<times> mem \<times> ram_world" where
  "ram_read p q bs buf len w =
     (case w p of None \<Rightarrow> (0, buf, w)
      | Some b \<Rightarrow> (case ReadFromRam b bs buf len of (rc, n, buf', b') \<Rightarrow> (n, buf', w(p \<mapsto> b'))))"

definition ram_stats :: "PoolId \<Rightarrow> ram_world \<Rightarrow> PerfMetrics \<times> u64 \<times> ram_world" where
  "ram_stats p w = (case w p of None \<Rightarrow> (perf_metrics blank_bdev, 0, w)
                    | Some b \<Rightarrow> (case GetStats b 0 0 of (pm, left) \<Rightarrow> (pm, left, w)))"

definition ram_api :: "nat \<Rightarrow> int \<Rightarrow> ram_world bdev_api" where
  "ram_api n wk = \<lparr>api_create = ram_create n, api_alloc = ram_alloc wk, api_free = ram_free wk,
     api_write = ram_write, api_read = ram_read, api_stats = ram_stats\<rparr>"

section \<open>Devices that agree up to cached sizes\<close>

definition same_place :: "Block \<Rightarrow> Block \<Rightarrow> bool" where
  "same_place a b \<longleftrightarrow> offset a = offset b \<and> block_type a = block_type b"

definition map_rel :: "WorkerBlockMap \<Rightarrow> WorkerBlockMap \<Rightarrow> bool" where
  "map_rel m m' \<longleftrightarrow> length (blocks m) = kMaxCategories \<and> list_all2 (list_all2 same_place) (blocks m) (blocks m')"

definition gbm_rel :: "GlobalBlockMap \<Rightarrow> GlobalBlockMap \<Rightarrow> bool" where
  "gbm_rel g g' \<longleftrightarrow> list_all2 map_rel (worker_maps g) (worker_maps g')"

definition dev_rel :: "Bdev \<Rightarrow> Bdev \<Rightarrow> bool" where
  "dev_rel b b' \<longleftrightarrow> gbm_rel (global_block_map b) (global_block_map b') \<and> heap b = heap b' \<and>
     max_blocks_per_operation b = max_blocks_per_operation b'"

text \<open>Results of one allocation attempt that agree.\<close>

definition res_rel :: "Block option \<times> GlobalBlockMap \<Rightarrow> Block option \<times> GlobalBlockMap \<Rightarrow> bool" where
  "res_rel x y \<longleftrightarrow> rel_option same_place (fst x) (fst y) \<and> gbm_rel (snd x) (snd y)"

lemma map_rel_alloc:
  assumes "map_rel m m'"
  shows "rel_option same_place (fst (WorkerBlockMap_AllocateBlock m t)) (fst (WorkerBlockMap_AllocateBlock m' t)) \<and>
    map_rel (snd (WorkerBlockMap_AllocateBlock m t)) (snd (WorkerBlockMap_AllocateBlock m' t))"
proof (cases "t < 0 \<or> int kMaxCategories \<le> t")
  case False
  then have "nat t < length (blocks m)" using assms by (simp add: map_rel_def nat_less_iff)
  then have "list_all2 same_place (blocks m ! nat t) (blocks m' ! nat t)"
    using assms by (simp add: map_rel_def list_all2_nthD)
  then show ?thesis
    using False assms
    by (cases "blocks m ! nat t"; cases "blocks m' ! nat t")
      (auto simp: WorkerBlockMap_AllocateBlock_def map_rel_def intro!: list_all2_update_cong)
qed (use assms in \<open>simp add: WorkerBlockMap_AllocateBlock_def\<close>)

lemma gbm_rel_length: "gbm_rel g g' \<Longrightarrow> length (worker_maps g') = length (worker_maps g)"
  by (simp add: gbm_rel_def list_all2_lengthD)

lemma alloc_from_worker_rel:
  assumes "gbm_rel g g'" and "w < length (worker_maps g)"
  shows "res_rel (alloc_from_worker g w t) (alloc_from_worker g' w t)"
proof -
  have "map_rel (worker_maps g ! w) (worker_maps g' ! w)"
    using assms by (simp add: gbm_rel_def list_all2_nthD)
  note m = map_rel_alloc [OF this, of t]
  then show ?thesis using assms(1)
    by (auto simp: alloc_from_worker_def res_rel_def gbm_rel_def split: prod.split intro!: list_all2_update_cong)
qed

lemma alloc_from_others_rel:
  assumes "gbm_rel g g'" and "worker_maps g \<noteq> []"
  shows "res_rel (alloc_from_others g w t is) (alloc_from_others g' w t is)"
  using assms
proof (induction "is" arbitrary: g g')
  case Nil
  then show ?case by (simp add: res_rel_def)
next
  case (Cons i "is")
  let ?w = "(w + i) mod length (worker_maps g)"
  have lt: "?w < length (worker_maps g)" using Cons.prems(2) by simp
  obtain r g1 r' g1' where a: "alloc_from_worker g ?w t = (r, g1)" "alloc_from_worker g' ?w t = (r', g1')"
    by (metis prod.exhaust)
  have rel: "rel_option same_place r r'" "gbm_rel g1 g1'"
    using alloc_from_worker_rel [OF Cons.prems(1) lt, of t] a by (simp_all add: res_rel_def)
  have "length (worker_maps g1) = length (worker_maps g)" using a(1) by (auto simp: alloc_from_worker_def split: prod.splits)
  then have ne: "worker_maps g1 \<noteq> []" using Cons.prems(2) by auto
  show ?case
    using rel Cons.IH [OF rel(2) ne] a gbm_rel_length [OF Cons.prems(1)]
    by (cases r; cases r') (auto simp: res_rel_def)
qed

lemma gbm_alloc_rel:
  assumes "gbm_rel g g'"
  shows "res_rel (GlobalBlockMap_AllocateBlock g wk sz) (GlobalBlockMap_AllocateBlock g' wk sz)"
proof (cases "wk < 0 \<or> length (worker_maps g) \<le> nat wk \<or> FindBlockType sz = -1")
  case True
  then show ?thesis
    using assms gbm_rel_length [OF assms] by (auto simp: GlobalBlockMap_AllocateBlock_def res_rel_def Let_def)
next
  case False
  let ?t = "FindBlockType sz"
  have lt: "nat wk < length (worker_maps g)" using False by simp
  obtain r g1 r' g1' where a: "alloc_from_worker g (nat wk) ?t = (r, g1)" "alloc_from_worker g' (nat wk) ?t = (r', g1')"
    by (metis prod.exhaust)
  have rel: "rel_option same_place r r'" "gbm_rel g1 g1'"
    using alloc_from_worker_rel [OF assms lt, of ?t] a by (simp_all add: res_rel_def)
  have "length (worker_maps g1) = length (worker_maps g)" using a(1) by (auto simp: alloc_from_worker_def split: prod.splits)
  then have ne: "worker_maps g1 \<noteq> []" using lt by auto
  show ?thesis
    using rel alloc_from_others_rel [OF rel(2) ne, of "nat wk" ?t] a False gbm_rel_length [OF assms]
    by (cases r; cases r') (auto simp: res_rel_def GlobalBlockMap_AllocateBlock_def Let_def)
qed

lemma gbm_free_rel:
  assumes "gbm_rel g g'" and "same_place b b'"
  shows "gbm_rel (snd (GlobalBlockMap_FreeBlock g wk b)) (snd (GlobalBlockMap_FreeBlock g' wk b'))"
proof -
  have m: "map_rel (WorkerBlockMap_FreeBlock m b) (WorkerBlockMap_FreeBlock m' b')" if "map_rel m m'" for m m'
  proof -
    have "list_all2 same_place (blocks m ! nat t) (blocks m' ! nat t)" if "0 \<le> t" "t < int kMaxCategories" for t
      using that \<open>map_rel m m'\<close> by (simp add: map_rel_def list_all2_nthD)
    then show ?thesis using that assms(2)
      by (auto simp: WorkerBlockMap_FreeBlock_def map_rel_def same_place_def Let_def intro!: list_all2_update_cong list_all2_appendI)
  qed
  show ?thesis
    using assms(1) gbm_rel_length [OF assms(1)]
    by (auto simp: GlobalBlockMap_FreeBlock_def gbm_rel_def Let_def list_all2_nthD intro!: list_all2_update_cong m)
qed

lemma allocate_one_rel:
  assumes "dev_rel b b'" and "allocate_one b wk sz = (r, b1)" and "allocate_one b' wk sz = (r', b1')"
  shows "rel_option same_place r r' \<and> dev_rel b1 b1'"
proof -
  have g: "gbm_rel (global_block_map b) (global_block_map b')" and h: "heap b' = heap b"
    "max_blocks_per_operation b' = max_blocks_per_operation b" using assms(1) by (simp_all add: dev_rel_def)
  obtain x g1 x' g1' where a: "GlobalBlockMap_AllocateBlock (global_block_map b) wk sz = (x, g1)"
      "GlobalBlockMap_AllocateBlock (global_block_map b') wk sz = (x', g1')" by (metis prod.exhaust)
  have rel: "rel_option same_place x x'" "gbm_rel g1 g1'" using gbm_alloc_rel [OF g, of wk sz] a by (simp_all add: res_rel_def)
  have refl: "rel_option same_place y y" for y by (cases y) (simp_all add: same_place_def)
  show ?thesis using assms(2,3) rel h a refl
    by (cases x; cases x') (auto simp: allocate_one_def dev_rel_def Let_def split: prod.splits)
qed

text \<open>A request of at most one unit is not divided.\<close>

lemma io_divisions_unit:
  assumes "0 < sz" and "unat sz \<le> 1048576"
  shows "io_divisions sz = [sz]"
proof (cases "sz \<ge> kMaxBlock")
  case True
  then have "unat sz = unat kMaxBlock" using assms(2) by (simp add: word_le_nat_alt)
  then have "sz = kMaxBlock" by (simp add: word_unat_eq_iff)
  moreover have "divide_into_max 0 = []" by (simp add: divide_into_max.simps word_le_nat_alt)
  ultimately show ?thesis by (simp add: io_divisions_def divide_into_max.simps)
qed (simp add: io_divisions_def)

lemma AllocateBlocks_unit:
  assumes "0 < sz" and "unat sz \<le> 1048576"
  shows "AllocateBlocks b wk sz =
    (case allocate_one b wk sz of
       (None, b1) \<Rightarrow> (1, [], b1)
     | (Some x, b1) \<Rightarrow> if max_blocks_per_operation b1 = 0 then (2, [], b1) else (0, [x], b1))"
  using assms io_divisions_unit [OF assms]
  by (auto simp: AllocateBlocks_def word_gt_0 free_blocks_on_def unat_eq_0 split: prod.split option.split)

section \<open>Regions owned on one device\<close>

type_synonym owner = "Block \<times> nat \<times> nat"

text \<open>The regions \<open>R\<close> are backed by the blocks of a related device, one block each.\<close>

definition backs :: "owner multiset \<Rightarrow> (nat \<times> nat) multiset \<Rightarrow> bool" where
  "backs M R \<longleftrightarrow> image_mset snd M = R \<and>
     (\<forall>x \<in># M. fst (snd x) = unat (offset (fst x)) \<and> snd (snd x) \<le> unat (bsize (fst x)))"

definition dev_inv :: "Bdev \<Rightarrow> (nat \<times> nat) multiset \<Rightarrow> bool" where
  "dev_inv b R \<longleftrightarrow> ram_size b = total_size (heap b) \<and>
     (\<exists>b' M. dev_rel b b' \<and> alloc_inv b' (image_mset fst M) \<and> backs M R)"

lemma dev_invI:
  "ram_size b = total_size (heap b) \<Longrightarrow> dev_rel b b' \<Longrightarrow> alloc_inv b' (image_mset fst M) \<Longrightarrow> backs M R \<Longrightarrow> dev_inv b R"
  unfolding dev_inv_def by blast

lemma backs_addD:
  assumes "backs M (add_mset r R)"
  obtains x M' where "M = add_mset x M'" and "snd x = r" and "backs M' R"
    and "fst r = unat (offset (fst x))" and "snd r \<le> unat (bsize (fst x))"
proof -
  have i: "image_mset snd M = add_mset r R" using assms by (simp add: backs_def)
  then obtain x where x: "x \<in># M" "snd x = r" by (metis image_iff set_image_mset union_single_eq_member)
  then obtain M' where M': "M = add_mset x M'" using multi_member_split by metis
  moreover have "backs M' R" using assms i x(2) unfolding M' backs_def by simp
  moreover have "fst r = unat (offset (fst x))" "snd r \<le> unat (bsize (fst x))" using assms x by (auto simp: backs_def)
  ultimately show ?thesis using x(2) that by blast
qed

lemma dev_inv_end:
  assumes "dev_inv b R" and "(a, n) \<in># R"
  shows "a + n \<le> unat (ram_size b)"
proof -
  obtain b' M where d: "dev_rel b b'" "alloc_inv b' (image_mset fst M)" "backs M R" "ram_size b = total_size (heap b)"
    using assms(1) by (auto simp: dev_inv_def)
  obtain R' where R: "R = add_mset (a, n) R'" using assms(2) multi_member_split by metis
  from d(3) obtain x M' where x: "M = add_mset x M'" "a = unat (offset (fst x))" "n \<le> unat (bsize (fst x))"
    unfolding R by (rule backs_addD) auto
  have "fst x \<in># cached (global_block_map b') + image_mset fst M" by (simp add: x(1))
  then have "block_end (fst x) \<le> unat (total_size (heap b'))" using d(2) unfolding alloc_inv_def by meson
  moreover have "heap b' = heap b" using d(1) by (simp add: dev_rel_def)
  ultimately show ?thesis using x(2,3) d(4) by (simp add: block_end_def)
qed

lemma dev_inv_disjoint:
  assumes "dev_inv b R" and "{#(a, n), (a', n')#} \<subseteq># R" and "a \<le> i" "i < a + n"
  shows "\<not> (a' \<le> i \<and> i < a' + n')"
proof
  assume i': "a' \<le> i \<and> i < a' + n'"
  obtain b' M where d: "dev_rel b b'" "alloc_inv b' (image_mset fst M)" "backs M R"
    using assms(1) by (auto simp: dev_inv_def)
  obtain R' where R: "R = add_mset (a, n) (add_mset (a', n') R')" using assms(2)
    by (metis add_mset_add_single mset_subset_eq_exists_conv union_mset_add_mset_left union_commute)
  from d(3) obtain x M1 where x: "M = add_mset x M1" "a = unat (offset (fst x))" "n \<le> unat (bsize (fst x))"
      "backs M1 (add_mset (a', n') R')"
    unfolding R by (rule backs_addD) auto
  from x(4) obtain y M2 where y: "M1 = add_mset y M2" "a' = unat (offset (fst y))" "n' \<le> unat (bsize (fst y))"
    by (rule backs_addD) auto
  have "{#fst x, fst y#} \<subseteq># image_mset fst M" by (simp add: x(1) y(1))
  from alloc_inv_disjoint [OF d(2) this, of i] show False
    using assms(3,4) i' x y by (simp add: covers_def)
qed

text \<open>A block held may be replaced by a smaller one at the same place.\<close>

lemma alloc_inv_replace:
  assumes "alloc_inv s (add_mset b L)" and "offset c = offset b" and "bsize c \<le> bsize b" and "block_ok c"
  shows "alloc_inv s (add_mset c L)"
proof -
  have cov: "covers c a \<Longrightarrow> covers b a" for a using assms(2,3) by (auto simp: covers_def word_le_nat_alt)
  let ?C = "cached (global_block_map s)"
  have "owners (?C + add_mset c L) a \<le> owners (?C + add_mset b L) a" for a
    using cov by (simp add: owners_add_mset)
  then have "owners (?C + add_mset c L) a \<le> 1" for a
    using assms(1) order_trans unfolding alloc_inv_def by blast
  moreover have "block_end c \<le> block_end b" using assms(2,3) by (simp add: block_end_def word_le_nat_alt)
  ultimately show ?thesis using assms(1,4) unfolding alloc_inv_def by fastforce
qed

lemma dev_inv_alloc:
  assumes "dev_inv b R" and "0 < sz" and "unat sz \<le> 1048576"
    and "unat (heap_ptr (heap b)) + (1048576 + 2 ^ 32) \<le> 2 ^ 64" and "AllocateBlocks b wk sz = (rc, bs, b1)"
  shows "dev_inv b1 (if bs = [] then R else add_mset (unat (offset (hd bs)), unat sz) R) \<and>
    ram_buffer b1 = ram_buffer b \<and> unat (heap_ptr (heap b1)) \<le> unat (heap_ptr (heap b)) + (1048576 + 2 ^ 32)"
proof -
  obtain b' M where d: "dev_rel b b'" "alloc_inv b' (image_mset fst M)" "backs M R" "ram_size b = total_size (heap b)"
    using assms(1) by (auto simp: dev_inv_def)
  have h: "heap b' = heap b" using d(1) by (simp add: dev_rel_def)
  have room: "unat (heap_ptr (heap b')) + (1048576 + eff_align (heap b')) \<le> 2 ^ 64"
    using assms(4) eff_align_bound [of "heap b"] h by simp
  obtain x c x' c' where one: "allocate_one b wk sz = (x, c)" "allocate_one b' wk sz = (x', c')" by (metis prod.exhaust)
  note rel = allocate_one_rel [OF d(1) one]
  note sp = allocate_one_spec [OF d(2) assms(3) room one(2)]
  have keep: "ram_buffer c = ram_buffer b" "ram_size c = ram_size b"
    using one(1) by (auto simp: allocate_one_def Let_def split: prod.splits option.splits)
  have hc: "heap c = heap c'" using rel by (simp add: dev_rel_def)
  have tot: "ram_size c = total_size (heap c)" using sp(3) keep(2) d(4) h hc by (simp add: heap_step_def)
  have ptr: "unat (heap_ptr (heap c)) \<le> unat (heap_ptr (heap b)) + (1048576 + 2 ^ 32)"
    using sp(3) h hc eff_align_bound [of "heap b"] by (simp add: heap_step_def)
  have res: "bs = [] \<and> b1 = c \<or> (\<exists>y. x = Some y \<and> bs = [y] \<and> b1 = c)"
    using assms(5) unfolding AllocateBlocks_unit [OF assms(2,3)] one(1) by (auto split: option.splits if_splits)
  show ?thesis
  proof (cases "bs = []")
    case True
    have "alloc_inv c' (image_mset fst M)"
    proof (cases x')
      case (Some y)
      have "alloc_inv (c'\<lparr>global_block_map := global_block_map c'\<rparr>) (image_mset fst M)"
        by (rule alloc_inv_shrink [where L = "add_mset y (image_mset fst M)"])
          (use sp(1) Some d(2) in \<open>auto simp: alloc_inv_def\<close>)
      then show ?thesis by simp
    qed (use sp(1) in simp)
    then have "dev_inv c R" using dev_invI [OF tot] rel d(3) by blast
    then show ?thesis using True res keep ptr by auto
  next
    case False
    then obtain y where y: "x = Some y" "bs = [y]" "b1 = c" using res by blast
    then obtain y' where y': "x' = Some y'" "same_place y y'" using rel by (cases x') auto
    have "alloc_inv c' (image_mset fst (add_mset (y', unat (offset y), unat sz) M))" using sp(1) y' by simp
    moreover have "backs (add_mset (y', unat (offset y), unat sz) M) (add_mset (unat (offset y), unat sz) R)"
      using d(3) sp(2) [OF y'(1)] y'(2) by (simp add: backs_def same_place_def word_le_nat_alt)
    ultimately have "dev_inv c (add_mset (unat (offset y), unat sz) R)" using dev_invI [OF tot] rel by blast
    then show ?thesis using y keep ptr by simp
  qed
qed

lemma dev_inv_free:
  assumes "dev_inv b (mset (map (\<lambda>x. (unat (offset x), unat (bsize x))) bs) + R)" and "\<forall>x \<in> set bs. block_type x = 0"
    and "FreeBlocks b wk bs = (rc, b1)"
  shows "dev_inv b1 R \<and> ram_buffer b1 = ram_buffer b \<and> heap b1 = heap b"
proof -
  have "dev_inv (b\<lparr>global_block_map := free_blocks_on wk bs (global_block_map b)\<rparr>) R"
    using assms(1,2)
  proof (induction bs arbitrary: b)
    case Nil
    then show ?case by (simp add: free_blocks_on_def)
  next
    case (Cons x bs)
    obtain b' M where d: "dev_rel b b'" "alloc_inv b' (image_mset fst M)" "ram_size b = total_size (heap b)"
        "backs M (add_mset (unat (offset x), unat (bsize x)) (mset (map (\<lambda>x. (unat (offset x), unat (bsize x))) bs) + R))"
      using Cons.prems(1) by (auto simp: dev_inv_def)
    from d(4) obtain y M' where y: "M = add_mset y M'" "unat (offset x) = unat (offset (fst y))"
        "backs M' (mset (map (\<lambda>x. (unat (offset x), unat (bsize x))) bs) + R)"
      by (rule backs_addD) auto
    let ?c = "\<lparr>offset = offset x, bsize = 4096, block_type = 0\<rparr> :: Block"
    have "block_ok (fst y)" using d(2) by (simp add: alloc_inv_def y(1))
    then have "unat (block_type (fst y)) \<in> {0, 1, 2, 3, 4, 5}" "kBlockSizes ! unat (block_type (fst y)) \<le> bsize (fst y)"
      by (auto simp: block_ok_def kMaxCategories_def)
    then have "4096 \<le> bsize (fst y)" by (auto simp: kBlockSizes_def word_le_nat_alt)
    moreover have "block_ok ?c" by (simp add: block_ok_def kMaxCategories_def kBlockSizes_def)
    ultimately have "alloc_inv b' (add_mset ?c (image_mset fst M'))"
      using alloc_inv_replace [of b' "fst y" "image_mset fst M'" ?c] d(2) y(1,2) by (simp add: word_unat_eq_iff)
    then have i: "alloc_inv b' (mset [?c] + image_mset fst M')" by simp
    let ?b1 = "b\<lparr>global_block_map := snd (GlobalBlockMap_FreeBlock (global_block_map b) wk x)\<rparr>"
    let ?b1' = "b'\<lparr>global_block_map := free_blocks_on wk [?c] (global_block_map b')\<rparr>"
    have "same_place x ?c" using Cons.prems(2) by (simp add: same_place_def)
    then have "dev_rel ?b1 ?b1'"
      using d(1) gbm_free_rel [of "global_block_map b" "global_block_map b'" x ?c wk] by (simp add: dev_rel_def free_blocks_on_def)
    then have "dev_inv ?b1 (mset (map (\<lambda>x. (unat (offset x), unat (bsize x))) bs) + R)"
      using dev_invI [of ?b1 ?b1' M'] rollback_inv [OF i] d(3) y(3) by simp
    from Cons.IH [OF this] Cons.prems(2) show ?case by (simp add: free_blocks_on_def)
  qed
  then show ?thesis using assms(3) by (auto simp: FreeBlocks_def)
qed

section \<open>All devices\<close>

definition on_pool :: "PoolId \<Rightarrow> region multiset \<Rightarrow> (nat \<times> nat) multiset" where
  "on_pool p L = image_mset snd (filter_mset (\<lambda>r. fst r = p) L)"

definition ram_inv :: "ram_world \<Rightarrow> region multiset \<Rightarrow> bool" where
  "ram_inv w L \<longleftrightarrow> (\<forall>r \<in># L. w (fst r) \<noteq> None) \<and> (\<forall>p b. w p = Some b \<longrightarrow> dev_inv b (on_pool p L))"

definition ram_byte :: "ram_world \<Rightarrow> PoolId \<Rightarrow> nat \<Rightarrow> u8" where
  "ram_byte w p i = (case w p of None \<Rightarrow> 0 | Some b \<Rightarrow> ram_buffer b i)"

definition ram_room :: "ram_world \<Rightarrow> nat \<Rightarrow> bool" where
  "ram_room w k \<longleftrightarrow> k * (1048576 + 2 ^ 32) \<le> 2 ^ 64 \<and>
     (\<forall>p b. w p = Some b \<longrightarrow> unat (heap_ptr (heap b)) + k * (1048576 + 2 ^ 32) \<le> 2 ^ 64)"

lemma on_pool_add [simp]: "on_pool p (add_mset (p', a, n) L) = (if p' = p then add_mset (a, n) (on_pool p L) else on_pool p L)"
  by (simp add: on_pool_def)

lemma on_pool_union [simp]: "on_pool p (L + L') = on_pool p L + on_pool p L'"
  by (simp add: on_pool_def)

lemma on_pool_mono: "L \<subseteq># L' \<Longrightarrow> on_pool p L \<subseteq># on_pool p L'"
  unfolding on_pool_def by (intro image_mset_subseteq_mono multiset_filter_mono)

lemma on_pool_blocks:
  "on_pool p' (image_mset (block_region p) (mset bs)) =
     (if p' = p then image_mset (\<lambda>x. (unat (offset x), unat (bsize x))) (mset bs) else {#})"
  by (induction bs) (auto simp: block_region_def on_pool_def)

lemma ram_invD:
  assumes "ram_inv w L" and "(p, a, n) \<in># L"
  obtains b where "w p = Some b" and "dev_inv b (on_pool p L)" and "(a, n) \<in># on_pool p L" and "a + n \<le> unat (ram_size b)"
proof -
  obtain b where b: "w p = Some b" "dev_inv b (on_pool p L)" using assms unfolding ram_inv_def by force
  have "(a, n) \<in># on_pool p L" using assms(2) unfolding on_pool_def by force
  then show ?thesis using that b dev_inv_end [OF b(2)] by blast
qed

text \<open>Replacing one device.\<close>

lemma ram_inv_upd:
  assumes "ram_inv w L" and "w p = Some b" and "dev_inv b' (on_pool p L')"
    and "\<And>p'. p' \<noteq> p \<Longrightarrow> on_pool p' L' = on_pool p' L" and "set_mset L' \<subseteq> set_mset L \<union> {r. fst r = p}"
  shows "ram_inv (w(p \<mapsto> b')) L'"
  unfolding ram_inv_def
proof (intro conjI allI impI ballI)
  fix r assume "r \<in># L'"
  then have "r \<in># L \<or> fst r = p" using assms(5) by auto
  then show "(w(p \<mapsto> b')) (fst r) \<noteq> None" using assms(1) by (auto simp: ram_inv_def)
next
  fix p' c assume "(w(p \<mapsto> b')) p' = Some c"
  then show "dev_inv c (on_pool p' L')" using assms by (cases "p' = p") (auto simp: ram_inv_def)
qed

lemma ram_room_upd:
  assumes "ram_room w k" and "w p = Some b" and "heap b' = heap b"
  shows "ram_room (w(p \<mapsto> b')) k"
  using assms by (auto simp: ram_room_def)

lemma dev_inv_cong: "heap b' = heap b \<Longrightarrow> global_block_map b' = global_block_map b \<Longrightarrow>
    max_blocks_per_operation b' = max_blocks_per_operation b \<Longrightarrow> ram_size b' = ram_size b \<Longrightarrow> dev_inv b' R = dev_inv b R"
  by (simp add: dev_inv_def dev_rel_def)

lemma WriteToRam_keeps:
  assumes "WriteToRam b bs dat len = (rc, n, b')"
  shows "heap b' = heap b" "global_block_map b' = global_block_map b"
    "max_blocks_per_operation b' = max_blocks_per_operation b" "ram_size b' = ram_size b"
  using assms by (auto simp: WriteToRam_def Let_def split: prod.splits if_splits)

lemma ReadFromRam_keeps:
  assumes "ReadFromRam b bs buf len = (rc, n, buf', b')"
  shows "heap b' = heap b" "global_block_map b' = global_block_map b" "ram_buffer b' = ram_buffer b"
    "max_blocks_per_operation b' = max_blocks_per_operation b" "ram_size b' = ram_size b"
  using assms by (auto simp: ReadFromRam_def Let_def split: prod.splits if_splits)

lemma ram_write_ok:
  assumes "ram_inv w L" and "(p, a, n) \<in># L" and "a \<le> unat (offset b)"
    and "unat (offset b) + unat (bsize b) \<le> a + n" and "ram_write p q [b] dat (bsize b) w = (k, w')"
  shows "k = bsize b \<and> ram_inv w' L \<and> (\<forall>j. ram_room w j \<longrightarrow> ram_room w' j) \<and>
      (\<forall>p' i. ram_byte w' p' i =
         (if in_region (block_region p b) p' i then dat (i - unat (offset b)) else ram_byte w p' i))"
proof -
  from assms(1,2) obtain c where c: "w p = Some c" "dev_inv c (on_pool p L)" "a + n \<le> unat (ram_size c)" by (rule ram_invD)
  obtain rc m c' where wr: "WriteToRam c [b] dat (bsize b) = (rc, m, c')" by (metis prod.exhaust)
  have kw: "k = m" "w' = w(p \<mapsto> c')" using assms(5) c(1) wr by (auto simp: ram_write_def)
  have e: "\<forall>x \<in> set [b]. block_end x \<le> unat (ram_size c)" using assms(4) c(3) by (simp add: block_end_def)
  note ok = WriteToRam_ok [OF e _ wr]
  note keep = WriteToRam_keeps [OF wr]
  have st: "ram_buffer c' (unat (offset b) + i) = dat i" if "i < unat (bsize b)" for i using ok that by simp
  have fr: "\<not> covers b i \<Longrightarrow> ram_buffer c' i = ram_buffer c i" for i using WriteToRam_frame [OF wr] by simp
  have "ram_byte w' p' i = (if in_region (block_region p b) p' i then dat (i - unat (offset b)) else ram_byte w p' i)" for p' i
  proof (cases "in_region (block_region p b) p' i")
    case True
    then have i: "p' = p" "i = unat (offset b) + (i - unat (offset b))" "i - unat (offset b) < unat (bsize b)"
      by (auto simp: block_region_def)
    have "ram_buffer c' i = dat (i - unat (offset b))" using st [OF i(3)] i(2) by simp
    then show ?thesis using True i(1) by (simp add: ram_byte_def kw(2))
  next
    case False
    then have "p' = p \<Longrightarrow> \<not> covers b i" by (auto simp: block_region_def covers_def)
    then show ?thesis using False fr c(1) by (auto simp: ram_byte_def kw(2))
  qed
  moreover have "ram_inv w' L"
    unfolding kw(2) by (rule ram_inv_upd [OF assms(1) c(1)]) (use c(2) dev_inv_cong [OF keep] in auto)
  moreover have "m = bsize b" using ok by (simp add: word_unat_eq_iff)
  ultimately show ?thesis using kw ram_room_upd [of w _ p c c'] c(1) keep(1) by simp
qed

lemma ram_read_ok:
  assumes "ram_inv w L" and "(p, a, n) \<in># L" and "a \<le> unat (offset b)"
    and "unat (offset b) + unat (bsize b) \<le> a + n" and "ram_read p q [b] buf (bsize b) w = (k, buf', w')"
  shows "k = bsize b \<and> ram_inv w' L \<and> (\<forall>j. ram_room w j \<longrightarrow> ram_room w' j) \<and> ram_byte w' = ram_byte w \<and>
      (\<forall>i. buf' i = (if i < unat (bsize b) then ram_byte w p (unat (offset b) + i) else buf i))"
proof -
  from assms(1,2) obtain c where c: "w p = Some c" "dev_inv c (on_pool p L)" "a + n \<le> unat (ram_size c)" by (rule ram_invD)
  obtain rc m out c' where rd: "ReadFromRam c [b] buf (bsize b) = (rc, m, out, c')" by (metis prod.exhaust)
  have kw: "k = m" "buf' = out" "w' = w(p \<mapsto> c')" using assms(5) c(1) rd by (auto simp: ram_read_def)
  have e: "\<forall>x \<in> set [b]. block_end x \<le> unat (ram_size c)" using assms(4) c(3) by (simp add: block_end_def)
  have st: "stored (ram_buffer c) [b] (\<lambda>i. ram_buffer c (unat (offset b) + i)) 0 (unat (bsize b))" by simp
  note ok = ReadFromRam_ok [OF e st rd]
  note keep = ReadFromRam_keeps [OF rd]
  have "ram_byte w' = ram_byte w" using keep(3) c(1) by (auto simp: ram_byte_def kw(3) fun_eq_iff)
  moreover have "ram_inv w' L"
    unfolding kw(3) by (rule ram_inv_upd [OF assms(1) c(1)]) (use c(2) dev_inv_cong [OF keep(1,2,4,5)] in auto)
  moreover have "m = bsize b" using ok by (simp add: word_unat_eq_iff)
  moreover have "\<forall>i. out i = (if i < unat (bsize b) then ram_byte w p (unat (offset b) + i) else buf i)"
    using ok \<open>m = bsize b\<close> c(1) by (simp add: ram_byte_def)
  ultimately show ?thesis using kw ram_room_upd [of w _ p c c'] c(1) keep(1) by simp
qed

lemma ram_alloc_ok:
  assumes "ram_inv w L" and "ram_room w (Suc j)" and "0 < sz" and "unat sz \<le> 1048576"
    and "ram_alloc wk p q sz w = (bs, w')"
  shows "ram_room w' j \<and> ram_byte w' = ram_byte w \<and>
      ram_inv w' (if bs = [] then L else add_mset (p, unat (offset (hd bs)), unat sz) L)"
proof (cases "w p")
  case None
  then show ?thesis using assms by (simp add: ram_alloc_def ram_room_def) fastforce
next
  case (Some b)
  obtain rc bs1 b1 where al: "AllocateBlocks b wk sz = (rc, bs1, b1)" by (metis prod.exhaust)
  have r: "bs1 = bs" "w' = w(p \<mapsto> b1)" using assms(5) Some al by (auto simp: ram_alloc_def)
  have room: "unat (heap_ptr (heap b)) + Suc j * (1048576 + 2 ^ 32) \<le> 2 ^ 64" using assms(2) Some by (simp add: ram_room_def)
  then have room1: "unat (heap_ptr (heap b)) + (1048576 + 2 ^ 32) \<le> 2 ^ 64" by simp
  have d: "dev_inv b (on_pool p L)" using assms(1) Some by (simp add: ram_inv_def)
  note a = dev_inv_alloc [OF d assms(3,4) room1 al, unfolded r(1)]
  have "ram_room w' j"
    unfolding ram_room_def
  proof (intro conjI allI impI)
    show "j * (1048576 + 2 ^ 32) \<le> 2 ^ 64" using assms(2) by (simp add: ram_room_def)
    fix p' c assume c: "w' p' = Some c"
    show "unat (heap_ptr (heap c)) + j * (1048576 + 2 ^ 32) \<le> 2 ^ 64"
    proof (cases "p' = p")
      case True
      then have "c = b1" using c by (simp add: r(2))
      then show ?thesis using a room by simp
    next
      case False
      then have "w p' = Some c" using c by (simp add: r(2))
      then have "unat (heap_ptr (heap c)) + Suc j * (1048576 + 2 ^ 32) \<le> 2 ^ 64" using assms(2) unfolding ram_room_def by blast
      then show ?thesis by simp
    qed
  qed
  moreover have "ram_byte w' = ram_byte w" using a Some by (auto simp: ram_byte_def r(2) fun_eq_iff)
  moreover have "ram_inv w' (if bs = [] then L else add_mset (p, unat (offset (hd bs)), unat sz) L)"
    unfolding r(2) by (rule ram_inv_upd [OF assms(1) Some]) (use a in auto)
  ultimately show ?thesis by blast
qed

lemma ram_free_ok:
  assumes "ram_inv w (mset (map (block_region p) bs) + L)" and "\<forall>b \<in> set bs. block_type b = 0"
    and "ram_free wk p q bs w = (rc, w')"
  shows "ram_inv w' L \<and> ram_byte w' = ram_byte w \<and> (\<forall>j. ram_room w j \<longrightarrow> ram_room w' j)"
proof (cases "w p")
  case None
  have "bs = []"
  proof (rule ccontr)
    assume "bs \<noteq> []"
    then have "block_region p (hd bs) \<in># mset (map (block_region p) bs) + L" by simp
    then have "w (fst (block_region p (hd bs))) \<noteq> None" using assms(1) unfolding ram_inv_def by blast
    then show False using None by (simp add: block_region_def)
  qed
  then show ?thesis using None assms by (auto simp: ram_free_def)
next
  case (Some b)
  obtain rc1 b1 where f: "FreeBlocks b wk bs = (rc1, b1)" by fastforce
  have w': "w' = w(p \<mapsto> b1)" using assms(3) Some f by (simp add: ram_free_def)
  have "dev_inv b (mset (map (\<lambda>x. (unat (offset x), unat (bsize x))) bs) + on_pool p L)"
  proof -
    have "dev_inv b (on_pool p (mset (map (block_region p) bs) + L))" using assms(1) Some unfolding ram_inv_def by blast
    then show ?thesis by (simp add: on_pool_blocks)
  qed
  note d = dev_inv_free [OF this assms(2) f]
  have "ram_inv w' L"
    unfolding w' by (rule ram_inv_upd [OF assms(1) Some]) (use d in \<open>auto simp: on_pool_blocks\<close>)
  moreover have "ram_byte w' = ram_byte w" using d Some by (auto simp: ram_byte_def w' fun_eq_iff)
  moreover have "\<forall>j. ram_room w j \<longrightarrow> ram_room w' j" using ram_room_upd [of w _ p b b1] d Some w' by simp
  ultimately show ?thesis by blast
qed

lemma ram_create_ok:
  assumes "ram_inv w L" and "ram_create n q name p ty sz w = (rc, p', w')"
  shows "ram_inv w' L \<and> (\<forall>r \<in># L. \<forall>p' i. in_region r p' i \<longrightarrow> ram_byte w' p' i = ram_byte w p' i) \<and>
      (\<forall>j. ram_room w j \<longrightarrow> ram_room w' j)"
proof (cases "w p = None \<and> ty = kRam \<and> sz \<noteq> 0")
  case False
  then have "w' = w"
    using assms(2) by (auto simp: ram_create_def Create_def ram_params_def Let_def split: option.splits if_splits)
  then show ?thesis using assms(1) by simp
next
  case True
  let ?b = "create_finish (ram_create_env n) (ram_params sz)
    (blank_bdev\<lparr>bdev_type := kRam, ram_size := sz, ram_buffer := (\<lambda>_. 0), file_size := sz\<rparr>)"
  have w': "w' = w(p \<mapsto> ?b)"
    using assms(2) True by (auto simp: ram_create_def Create_def ram_params_def ram_create_env_def Let_def)
  have none: "fst r \<noteq> p" if "r \<in># L" for r using assms(1) True that unfolding ram_inv_def by force
  have e: "on_pool p L = {#}" using none by (auto simp: on_pool_def filter_mset_eq_mempty_iff)
  define b0 where "b0 = InitializeAllocator n (blank_bdev\<lparr>bdev_type := kRam, ram_size := sz, ram_buffer := (\<lambda>_. 0),
    file_size := sz, alignment := 4096, io_depth := 32\<rparr>)"
  have b: "heap ?b = heap b0" "global_block_map ?b = global_block_map b0" "ram_size ?b = sz"
    "heap b0 = Heap_Init sz 4096" "max_blocks_per_operation ?b = max_blocks_per_operation b0"
    by (simp_all add: b0_def create_finish_def ram_create_env_def ram_params_def InitializeAllocator_def)
  have "gbm_rel (global_block_map b0) (global_block_map b0)"
    by (auto simp: b0_def InitializeAllocator_def GlobalBlockMap_Init_def gbm_rel_def map_rel_def
        WorkerBlockMap_new_def list_all2_same)
  then have rel: "dev_rel ?b b0" using b by (simp add: dev_rel_def)
  have "alloc_inv b0 (image_mset fst ({#} :: owner multiset))" unfolding b0_def by (simp add: InitializeAllocator_inv)
  moreover have "ram_size ?b = total_size (heap ?b)" "backs {#} {#}" using b by (simp_all add: Heap_Init_def backs_def)
  ultimately have "dev_inv ?b {#}" using dev_invI [OF _ rel, of "{#}"] by blast
  then have "ram_inv w' L" using assms(1) none e by (auto simp: ram_inv_def w')
  moreover have "ram_byte w' p' i = ram_byte w p' i" if "r \<in># L" "in_region r p' i" for r p' i
    using none [OF that(1)] that(2) by (cases r) (auto simp: ram_byte_def w')
  moreover have "ram_room w' j" if "ram_room w j" for j
    using that b by (auto simp: ram_room_def w' Heap_Init_def)
  ultimately show ?thesis by blast
qed

section \<open>The interface law by law\<close>

interpretation ram: cte_device "env\<lparr>e_api := ram_api n wk\<rparr>" ram_inv ram_byte ram_room 1048576 for env n wk
proof unfold_locales
  fix w L p a m assume "ram_inv w L" "(p, a, m) \<in># L"
  then obtain b where "w p = Some b" "dev_inv b (on_pool p L)" "(a, m) \<in># on_pool p L" "a + m \<le> unat (ram_size b)"
    by (rule ram_invD)
  then show "a + m < 2 ^ 64" by (auto elim!: le_less_trans)
next
  fix w L r r' p i assume i: "ram_inv w L" and sub: "{#r, r'#} \<subseteq># L" and r: "in_region r p i"
  obtain a m a' m' q' where rr: "r = (p, a, m)" "r' = (q', a', m')" using r by (cases r; cases r') auto
  show "\<not> in_region r' p i"
  proof
    assume r': "in_region r' p i"
    then have q: "q' = p" by (simp add: rr)
    have "r \<in># L" using mset_subset_eqD [OF sub] by simp
    then obtain b where b: "dev_inv b (on_pool p L)" using ram_invD [OF i] rr(1) by metis
    have "{#(a, m), (a', m')#} \<subseteq># on_pool p L" using on_pool_mono [OF sub, of p] by (simp add: rr q on_pool_def)
    from dev_inv_disjoint [OF b this, of i] show False using r r' by (simp add: rr)
  qed
next
  fix w L p a m b q dat k w'
  assume "ram_inv w L" "(p, a, m) \<in># L" "a \<le> unat (offset b)" "unat (offset b) + unat (bsize b) \<le> a + m" "0 < bsize b"
    "api_write (e_api (env\<lparr>e_api := ram_api n wk\<rparr>)) p q [b] dat (bsize b) w = (k, w')"
  then show "k = bsize b \<and> ram_inv w' L \<and> (\<forall>j. ram_room w j \<longrightarrow> ram_room w' j) \<and>
      (\<forall>p' i. ram_byte w' p' i = (if in_region (block_region p b) p' i then dat (i - unat (offset b)) else ram_byte w p' i))"
    by (intro ram_write_ok) (simp_all add: ram_api_def)
next
  fix w L p a m b q dat k dat' w'
  assume "ram_inv w L" "(p, a, m) \<in># L" "a \<le> unat (offset b)" "unat (offset b) + unat (bsize b) \<le> a + m" "0 < bsize b"
    "api_read (e_api (env\<lparr>e_api := ram_api n wk\<rparr>)) p q [b] dat (bsize b) w = (k, dat', w')"
  then show "k = bsize b \<and> ram_inv w' L \<and> (\<forall>j. ram_room w j \<longrightarrow> ram_room w' j) \<and> ram_byte w' = ram_byte w \<and>
      (\<forall>i. dat' i = (if i < unat (bsize b) then ram_byte w p (unat (offset b) + i) else dat i))"
    by (intro ram_read_ok) (simp_all add: ram_api_def)
next
  fix w L j sz p q bs w'
  assume "ram_inv w L" "ram_room w (Suc j)" "0 < sz" "unat sz \<le> 1048576"
    "api_alloc (e_api (env\<lparr>e_api := ram_api n wk\<rparr>)) p q sz w = (bs, w')"
  then show "ram_room w' j \<and> ram_byte w' = ram_byte w \<and>
      ram_inv w' (if bs = [] then L else add_mset (p, unat (offset (hd bs)), unat sz) L)"
    by (intro ram_alloc_ok) (simp_all add: ram_api_def)
next
  fix w p bs L q rc w'
  assume "ram_inv w (mset (map (block_region p) bs) + L)" "\<forall>b \<in> set bs. block_type b = 0"
    "api_free (e_api (env\<lparr>e_api := ram_api n wk\<rparr>)) p q bs w = (rc, w')"
  then show "ram_inv w' L \<and> ram_byte w' = ram_byte w \<and> (\<forall>j. ram_room w j \<longrightarrow> ram_room w' j)"
    by (intro ram_free_ok) (simp_all add: ram_api_def)
next
  fix w L q name p ty sz rc p' w'
  assume "ram_inv w L" "api_create (e_api (env\<lparr>e_api := ram_api n wk\<rparr>)) q name p ty sz w = (rc, p', w')"
  then show "ram_inv w' L \<and> (\<forall>r \<in># L. \<forall>p' i. in_region r p' i \<longrightarrow> ram_byte w' p' i = ram_byte w p' i) \<and>
      (\<forall>j. ram_room w j \<longrightarrow> ram_room w' j)"
    by (intro ram_create_ok) (simp_all add: ram_api_def)
next
  fix w L p pm sz w'
  assume "ram_inv w L" "api_stats (e_api (env\<lparr>e_api := ram_api n wk\<rparr>)) p w = (pm, sz, w')"
  then show "ram_inv w' L \<and> ram_byte w' = ram_byte w \<and> (\<forall>j. ram_room w j \<longrightarrow> ram_room w' j)"
    by (auto simp: ram_api_def ram_stats_def split: option.splits prod.splits)
next
  fix w j assume "ram_room w (Suc j)"
  then show "ram_room w j" unfolding ram_room_def by (fastforce intro: order_trans)
qed

end
