(* ===== verification/Cte_Store.thy ===== *)
theory Cte_Store
  imports Cte_Ram "HOL-Library.Code_Target_Numeral"
begin

text \<open>
  The blob engine as a store: a map from keys to byte strings. Every handler is
  a request; the requests served by the engine on memory devices, in any order
  and on any worker, are answered as the store answers them.
\<close>

section \<open>Management handlers leave blobs alone\<close>

context cte_device
begin

lemma content_cong_bytes:
  assumes "cte_inv s" and "tag_blob_name_to_info s' = tag_blob_name_to_info s"
    and "\<And>r p i. r \<in># table_regions (tag_blob_name_to_info s) \<Longrightarrow> in_region r p i \<Longrightarrow>
      byte_at (world s') p i = byte_at (world s) p i"
  shows "content s' = content s"
proof
  fix k
  show "content s' k = content s k"
  proof (cases "find_blob e s k")
    case (Some bi)
    have "bytes_of (byte_at (world s')) b = bytes_of (byte_at (world s)) b" if "b \<in> set (bi_blocks bi)" for b
    proof -
      have "region_of b \<in># table_regions (tag_blob_name_to_info s)"
        using mset_subset_eqD [OF blob_regions_sub [OF assms(1) Some]] that by (simp add: blob_regions_def)
      then show ?thesis using assms(3) by (simp add: bytes_of_def region_of_def)
    qed
    then show ?thesis using Some assms(2) by (simp add: content_def blob_bytes_def cong: map_cong)
  qed (simp add: content_def assms(2))
qed

lemma RegisterTarget_spec:
  assumes "cte_inv s" and "RegisterTarget e name ty sz q p s = (rc, s')"
  shows "cte_inv s' \<and> content s' = content s \<and> (\<forall>j. room (world s) j \<longrightarrow> room (world s') j)"
proof -
  obtain rc1 p1 w1 where c: "api_create (e_api e) (PoolQuery_Dynamic neg_one_f) name p ty sz (world s) = (rc1, p1, w1)"
    by (metis prod.exhaust)
  obtain m r w2 where st: "api_stats (e_api e) p1 w1 = (m, r, w2)" by (metis prod.exhaust)
  note c_ok = create_ok [OF cte_invD(4) [OF assms(1)] c]
  note s_ok = stats_ok [OF conjunct1 [OF c_ok] st]
  have t: "tables_ok e s" by (rule cte_invD(1) [OF assms(1)])
  have s': "tag_blob_name_to_info s' = tag_blob_name_to_info s" "world s' = w1 \<or> world s' = w2" "tables_ok e s'"
    using assms(2) t
    by (auto simp: RegisterTarget_def c st Let_def tables_ok_def ll.invar_upd split: if_splits option.splits)
  have b: "byte_at (world s') = byte_at w1" using s'(2) s_ok by metis
  have d: "dinv (world s') (table_regions (tag_blob_name_to_info s))" using s'(2) c_ok s_ok by metis
  have "content s' = content s" by (rule content_cong_bytes [OF assms(1) s'(1)]) (use c_ok in \<open>auto simp: b\<close>)
  moreover have "cte_inv s'" using assms(1) s'(1,3) d by (simp add: cte_inv_def)
  moreover have "\<forall>j. room (world s) j \<longrightarrow> room (world s') j" using s'(2) c_ok s_ok by metis
  ultimately show ?thesis by blast
qed

lemma UnregisterTarget_spec:
  assumes "cte_inv s" and "UnregisterTarget e name s = (rc, s')"
  shows "cte_inv s' \<and> content s' = content s"
proof (rule cte_inv_cong [OF _ _ _ assms(1)])
  show "tables_ok e s'" using assms(2) cte_invD(1) [OF assms(1)]
    by (auto simp: UnregisterTarget_def tables_ok_def ll.invar_del split: if_splits option.splits)
qed (use assms(2) in \<open>auto simp: UnregisterTarget_def split: if_splits option.splits\<close>)

lemma stat_target_spec: "cte_inv s \<Longrightarrow> cte_inv (stat_target e s p) \<and> content (stat_target e s p) = content s"
proof (cases "find_target e s p")
  case (Some t)
  assume s: "cte_inv s"
  obtain m r w1 where st: "api_stats (e_api e) (ti_bdev_client t) (world s) = (m, r, w1)" by (metis prod.exhaust)
  let ?s' = "stat_target e s p"
  have s': "tag_blob_name_to_info ?s' = tag_blob_name_to_info s" "world ?s' = w1" "tables_ok e ?s'"
    using Some st cte_invD(1) [OF s] by (simp_all add: stat_target_def)
  note ok = stats_ok [OF cte_invD(4) [OF s] st]
  have "content ?s' = content s" by (rule content_cong_bytes [OF s s'(1)]) (use ok s'(2) in simp)
  then show ?thesis using s s' ok by (simp add: cte_inv_def)
qed (simp add: stat_target_def)

lemma StatTargets_spec:
  assumes "cte_inv s" and "StatTargets e s = (rc, s')"
  shows "cte_inv s' \<and> content s' = content s"
proof -
  have "cte_inv (foldl (stat_target e) s ps) \<and> content (foldl (stat_target e) s ps) = content s" for ps
    using assms(1) by (induction ps arbitrary: s) (simp_all add: stat_target_spec)
  then show ?thesis using assms(2) by (auto simp: StatTargets_def)
qed

lemma GetOrCreateTag_spec:
  assumes "cte_inv s" and "GetOrCreateTag e name i s = (rc, t, s')"
  shows "cte_inv s' \<and> content s' = content s"
proof (rule cte_inv_cong [OF _ _ _ assms(1)])
  note d = GetOrCreateTag_def GetOrAssignTagId_def GenerateNewTagId_def
  have tl: "tables_ok e s" by (rule cte_invD(1) [OF assms(1)])
  have upd: "tables_ok e (s\<lparr>tag_name_to_id := snd (ml_insert_or_assign (e_hash_str e) name a (tag_name_to_id s)),
      tag_id_to_info := snd (ml_insert_or_assign (e_hash_id e) b c (tag_id_to_info s)), next_tag_id_minor := m\<rparr>)"
    "tables_ok e (s\<lparr>tag_name_to_id := snd (ml_insert_or_assign (e_hash_str e) name a (tag_name_to_id s))\<rparr>)" for a b c m
    using tl by (simp_all add: tables_ok_def ll.invar_upd)
  show "tables_ok e s'" using assms(2) tl
    by (auto simp: d Let_def tables_ok_def ll.invar_upd ll.invar_modify split: if_splits option.splits)
  show "tag_blob_name_to_info s' = tag_blob_name_to_info s" "world s' = world s"
    using assms(2) by (auto simp: d Let_def split: if_splits option.splits)
qed

lemma touch_spec:
  assumes "cte_inv s" and "s' = with_blob e k (\<lambda>bi. bi\<lparr>bi_last_read := t\<rparr>) s"
  shows "cte_inv s' \<and> content s' = content s"
proof -
  note m = cte_invD(2) [OF assms(1)]
  have f: "find_blob e s' k' = (if k' = k then map_option (\<lambda>bi. bi\<lparr>bi_last_read := t\<rparr>) (find_blob e s k) else find_blob e s k')" for k'
    using ll.lookup_modify [OF m] by (simp add: assms(2))
  have reg: "table_regions (tag_blob_name_to_info s') = table_regions (tag_blob_name_to_info s)"
  proof (cases "find_blob e s k")
    case None
    then have "table_regions (tag_blob_name_to_info s') + {#} = table_regions (tag_blob_name_to_info s) + {#}"
      using table_regions_change [OF m ll.invar_modify [OF m], of k "\<lambda>bi. bi\<lparr>bi_last_read := t\<rparr>" k None]
        ll.lookup_modify [OF m] by (simp add: assms(2))
    then show ?thesis by simp
  next
    case (Some bi)
    then show ?thesis using table_regions_modify [OF m Some, of "\<lambda>bi. bi\<lparr>bi_last_read := t\<rparr>"]
      by (simp add: assms(2) blob_regions_def)
  qed
  have "blob_ok k' bi" if "find_blob e s' k' = Some bi" for k' bi
    using that cte_invD(3) [OF assms(1)] by (auto simp: f blob_ok_def split: if_splits)
  moreover have "content s' = content s"
  proof
    fix k' show "content s' k' = content s k'" unfolding content_def f by (simp add: assms(2) option.map_comp comp_def)
  qed
  ultimately show ?thesis using assms(1) reg by (simp add: cte_inv_def assms(2))
qed

lemma log_keeps [simp]:
  "cte_inv (LogTelemetry a b c d x y z s) = cte_inv s" "content (LogTelemetry a b c d x y z s) = content s"
  "content (with_tag e t f s) = content s"
  by (simp_all add: cte_inv_def content_def fun_eq_iff)

lemma GetTagSize_spec:
  assumes "cte_inv s" and "GetTagSize e t s = (rc, r, s')"
  shows "cte_inv s' \<and> content s' = content s"
  using assms by (auto simp: GetTagSize_def cte_inv_def split: option.splits)

lemmas touch = touch_spec [OF _ refl]

lemma GetBlobScore_spec:
  assumes "cte_inv s" and "GetBlobScore e t n s = (rc, r, s')"
  shows "cte_inv s' \<and> content s' = content s"
  using assms by (auto simp: GetBlobScore_def touch split: if_splits option.splits)

lemma CheckBlobExists_content:
  "CheckBlobExists e n t s = Some bi \<Longrightarrow> content s (composite_key t n) = Some (blob_bytes (byte_at (world s)) (bi_blocks bi))"
  "CheckBlobExists e n t s = None \<longleftrightarrow> n = [] \<or> content s (composite_key t n) = None"
  by (auto simp: CheckBlobExists_def content_def split: if_splits)

lemma GetBlobSize_spec:
  assumes "cte_inv s" and "GetBlobSize e t n s = (rc, r, s')"
  shows "cte_inv s' \<and> content s' = content s \<and>
    map_option unat r = (if n = [] then None else map_option length (content s (composite_key t n))) \<and> (rc = 0 \<longleftrightarrow> r \<noteq> None)"
proof (cases "CheckBlobExists e n t s")
  case None
  then have "r = None" "rc = 1" "s' = s" using assms(2) by (auto simp: GetBlobSize_def split: if_splits)
  then show ?thesis using None assms(1) by (auto simp: CheckBlobExists_content(2))
next
  case (Some bi)
  then have n: "n \<noteq> []" "find_blob e s (composite_key t n) = Some bi" by (auto simp: CheckBlobExists_def split: if_splits)
  have "unat (GetTotalSize bi) = blob_len (bi_blocks bi)" by (rule unat_GetTotalSize [OF cte_invD(3) [OF assms(1) n(2)]])
  then show ?thesis using assms n(1) Some CheckBlobExists_content(1) [OF Some] by (auto simp: GetBlobSize_def touch)
qed

lemma GetBlobInfo_spec:
  assumes "cte_inv s" and "GetBlobInfo e t n s = (rc, r, s')"
  shows "cte_inv s' \<and> content s' = content s"
  using assms by (auto simp: GetBlobInfo_def touch split: if_splits option.splits)

lemma DelTag_spec:
  assumes "cte_inv s" and "DelTag e t name s = (rc, s')"
  shows "cte_inv s' \<and> (rc \<noteq> 0 \<longrightarrow> content s' = content s) \<and>
    (rc = 0 \<longrightarrow> (\<exists>t'. (\<not> UniqueId_IsNull t \<longrightarrow> t' = t) \<and>
      content s' = (\<lambda>k. if starts_with (tag_prefix t') k then None else content s k)))"
proof -
  consider "rc = 1" "s' = s"
    | t' info where "\<not> UniqueId_IsNull t \<Longrightarrow> t' = t" "rc = 0" "s' = del_tag_resolved e t' info s"
    using assms(2) by (auto simp: DelTag_def split: option.splits if_splits)
  then show ?thesis using assms(1) del_tag_spec [OF assms(1)] by cases (simp, blast)
qed

end

section \<open>Requests\<close>

datatype request =
    Put TagId string u64 u64 "mem option" f32 Context
  | Get TagId string u64 u64 mem
  | Del TagId string
  | Reorganize TagId string f32
  | Delete_Tag TagId string
  | Get_Or_Create_Tag string TagId
  | Register string BdevType u64 PoolQuery PoolId
  | Unregister string
  | Stat_Targets
  | Tag_Size TagId
  | Blob_Score TagId string
  | Blob_Size TagId string
  | Blob_Info TagId string

datatype reply = Code u32 | Data u32 mem | Length u32 "u64 option"

definition serve :: "'w cte_env \<Rightarrow> request \<Rightarrow> 'w Cte \<Rightarrow> reply \<times> 'w Cte" where
  "serve e r s =
     (case r of
        Put t n off len dat score cx \<Rightarrow> (case PutBlob e t n off len dat score cx s of (rc, s') \<Rightarrow> (Code rc, s'))
      | Get t n off len buf \<Rightarrow> (case GetBlob e t n off len buf s of (rc, buf', s') \<Rightarrow> (Data rc buf', s'))
      | Del t n \<Rightarrow> (case DelBlob e t n s of (rc, s') \<Rightarrow> (Code rc, s'))
      | Reorganize t n score \<Rightarrow> (case ReorganizeBlob e t n score s of (rc, s') \<Rightarrow> (Code rc, s'))
      | Delete_Tag t name \<Rightarrow> (case DelTag e t name s of (rc, s') \<Rightarrow> (Code rc, s'))
      | Get_Or_Create_Tag name t \<Rightarrow> (case GetOrCreateTag e name t s of (rc, _, s') \<Rightarrow> (Code rc, s'))
      | Register name ty sz q p \<Rightarrow> (case RegisterTarget e name ty sz q p s of (rc, s') \<Rightarrow> (Code rc, s'))
      | Unregister name \<Rightarrow> (case UnregisterTarget e name s of (rc, s') \<Rightarrow> (Code rc, s'))
      | Stat_Targets \<Rightarrow> (case StatTargets e s of (rc, s') \<Rightarrow> (Code rc, s'))
      | Tag_Size t \<Rightarrow> (case GetTagSize e t s of (rc, _, s') \<Rightarrow> (Code rc, s'))
      | Blob_Score t n \<Rightarrow> (case GetBlobScore e t n s of (rc, _, s') \<Rightarrow> (Code rc, s'))
      | Blob_Size t n \<Rightarrow> (case GetBlobSize e t n s of (rc, r, s') \<Rightarrow> (Length rc r, s'))
      | Blob_Info t n \<Rightarrow> (case GetBlobInfo e t n s of (rc, _, s') \<Rightarrow> (Code rc, s')))"

section \<open>The store\<close>

type_synonym store = "string \<Rightarrow> u8 list option"

text \<open>What a put at \<open>off\<close> starts from: nothing when the blob is new or the put starts at 0, otherwise the blob.\<close>

definition base_of :: "store \<Rightarrow> string \<Rightarrow> u64 \<Rightarrow> u8 list" where
  "base_of S k off = (case S k of None \<Rightarrow> [] | Some c \<Rightarrow> if off = 0 then [] else c)"

text \<open>
  \<open>answers r a S S'\<close>: the store \<open>S\<close> may answer \<open>r\<close> with \<open>a\<close> and become \<open>S'\<close>.
  A successful put overlays its data on what was there, the space between the
  old end and \<open>off\<close> being unspecified; a failed put may change its own blob and
  no other.
\<close>

fun answers :: "request \<Rightarrow> reply \<Rightarrow> store \<Rightarrow> store \<Rightarrow> bool" where
  "answers (Put t n off len dat score cx) (Code rc) S S' \<longleftrightarrow>
     (\<forall>k. k \<noteq> composite_key t n \<longrightarrow> S' k = S k) \<and>
     (rc = 0 \<longrightarrow> (\<exists>d gap. dat = Some d \<and>
        length gap = unat off + unat len - length (base_of S (composite_key t n) off) \<and>
        S' (composite_key t n) = Some (overlay d (unat off) (unat len) 0 (base_of S (composite_key t n) off @ gap))))"
| "answers (Get t n off len buf) (Data rc buf') S S' \<longleftrightarrow> S' = S \<and>
     (rc = 0 \<longleftrightarrow> 0 < len \<and> n \<noteq> [] \<and> S (composite_key t n) \<noteq> None) \<and>
     (\<forall>c. rc = 0 \<longrightarrow> S (composite_key t n) = Some c \<longrightarrow> buf' = filled c 0 (unat off) (unat len) buf)"
| "answers (Del t n) (Code rc) S S' \<longleftrightarrow>
     (rc = 0 \<longleftrightarrow> n \<noteq> [] \<and> S (composite_key t n) \<noteq> None) \<and>
     S' = (if rc = 0 then S(composite_key t n := None) else S)"
| "answers (Reorganize t n score) (Code rc) S S' \<longleftrightarrow>
     (\<forall>k. k \<noteq> composite_key t n \<longrightarrow> S' k = S k) \<and> (rc = 0 \<longrightarrow> S' = S)"
| "answers (Delete_Tag t name) (Code rc) S S' \<longleftrightarrow> (rc \<noteq> 0 \<longrightarrow> S' = S) \<and>
     (rc = 0 \<longrightarrow> (\<exists>t'. (\<not> UniqueId_IsNull t \<longrightarrow> t' = t) \<and>
       S' = (\<lambda>k. if starts_with (tag_prefix t') k then None else S k)))"
| "answers (Blob_Size t n) (Length rc r) S S' \<longleftrightarrow> S' = S \<and> (rc = 0 \<longleftrightarrow> r \<noteq> None) \<and>
     map_option unat r = (if n = [] then None else map_option length (S (composite_key t n)))"
| "answers (Get_Or_Create_Tag _ _) (Code _) S S' \<longleftrightarrow> S' = S"
| "answers (Register _ _ _ _ _) (Code _) S S' \<longleftrightarrow> S' = S"
| "answers (Unregister _) (Code _) S S' \<longleftrightarrow> S' = S"
| "answers Stat_Targets (Code _) S S' \<longleftrightarrow> S' = S"
| "answers (Tag_Size _) (Code _) S S' \<longleftrightarrow> S' = S"
| "answers (Blob_Score _ _) (Code _) S S' \<longleftrightarrow> S' = S"
| "answers (Blob_Info _ _) (Code _) S S' \<longleftrightarrow> S' = S"
| "answers _ _ _ _ \<longleftrightarrow> False"

inductive store_run :: "store \<Rightarrow> (request \<times> reply) list \<Rightarrow> store \<Rightarrow> bool" where
  store_start: "store_run S [] S"
| store_step: "store_run S tr S' \<Longrightarrow> answers r a S' S'' \<Longrightarrow> store_run S (tr @ [(r, a)]) S''"

inductive_simps store_run_snoc: "store_run S (tr @ [(r, a)]) S'"
inductive_simps store_run_Nil: "store_run S [] S'"

section \<open>One request\<close>

context cte_device
begin

text \<open>
  The requests the laws of the device cover: positions that do not wrap
  around, and no growth of more than one device unit at a time.
\<close>

definition admissible :: "request \<Rightarrow> 'w Cte \<Rightarrow> bool" where
  "admissible r s \<longleftrightarrow>
     (case r of
        Put t n off len dat score cx \<Rightarrow> unat off + unat len < 2 ^ 64 \<and>
          unat off + unat len \<le> length (base_of (content s) (composite_key t n) off) + unit \<and>
          room (world s) (target_count s)
      | Get t n off len buf \<Rightarrow> unat off + unat len < 2 ^ 64
      | Reorganize t n score \<Rightarrow> room (world s) (target_count s) \<and>
          (\<forall>c. content s (composite_key t n) = Some c \<longrightarrow> length c \<le> unit)
      | _ \<Rightarrow> True)"

lemma kept_base_of: "kept s k off = base_of (content s) k off"
  by (simp add: kept_def base_of_def)

lemma serve_answers:
  assumes "env_ok e" and "cte_inv s" and "admissible r s" and "serve e r s = (a, s')"
  shows "cte_inv s' \<and> answers r a (content s) (content s')"
proof (cases r)
  case (Put t n off len dat score cx)
  obtain rc s1 where p: "PutBlob e t n off len dat score cx s = (rc, s1)" by fastforce
  have ad: "unat off + unat len < 2 ^ 64" "unat off + unat len \<le> length (kept s (composite_key t n) off) + unit"
    "room (world s) (target_count s)" using assms(3) by (simp_all add: Put admissible_def kept_base_of)
  show ?thesis using PutBlob_spec [OF assms(1,2) ad p] assms(4) by (auto simp: Put serve_def p kept_base_of)
next
  case (Get t n off len buf)
  obtain rc buf' s1 where p: "GetBlob e t n off len buf s = (rc, buf', s1)" by (metis prod.exhaust)
  have ad: "unat off + unat len < 2 ^ 64" using assms(3) by (simp add: Get admissible_def)
  show ?thesis using GetBlob_spec [OF assms(2) ad p] assms(4) by (auto simp: Get serve_def p)
next
  case (Del t n)
  obtain rc s1 where p: "DelBlob e t n s = (rc, s1)" by fastforce
  show ?thesis using DelBlob_spec [OF assms(2) p] assms(4) by (auto simp: Del serve_def p)
next
  case (Reorganize t n score)
  obtain rc s1 where p: "ReorganizeBlob e t n score s = (rc, s1)" by fastforce
  have ad: "room (world s) (target_count s)" "\<And>c. content s (composite_key t n) = Some c \<Longrightarrow> length c \<le> unit"
    using assms(3) by (simp_all add: Reorganize admissible_def)
  show ?thesis using ReorganizeBlob_spec [OF assms(1,2) ad p] assms(4) by (auto simp: Reorganize serve_def p)
next
  case (Delete_Tag t name)
  obtain rc s1 where p: "DelTag e t name s = (rc, s1)" by fastforce
  have a: "a = Code rc" "s' = s1" using assms(4) by (auto simp: Delete_Tag serve_def p)
  show ?thesis unfolding a Delete_Tag answers.simps by (rule DelTag_spec [OF assms(2) p])
next
  case (Blob_Size t n)
  obtain rc r s1 where p: "GetBlobSize e t n s = (rc, r, s1)" by (metis prod.exhaust)
  show ?thesis using GetBlobSize_spec [OF assms(2) p] assms(4) by (auto simp: Blob_Size serve_def p)
qed (use assms(2,4) in \<open>auto simp: serve_def split: prod.splits
      dest: GetOrCreateTag_spec RegisterTarget_spec UnregisterTarget_spec StatTargets_spec GetTagSize_spec
        GetBlobScore_spec GetBlobInfo_spec\<close>)

end

section \<open>Runs of the engine on memory devices\<close>

text \<open>
  The environment of one request: the configuration with the clock and the
  worker of the moment, and the device served by \<open>wk\<close> of \<open>n\<close> workers.
\<close>

definition at_moment :: "ram_world cte_env \<Rightarrow> nat \<Rightarrow> int \<times> Timestamp \<times> u32 \<Rightarrow> ram_world cte_env" where
  "at_moment cfg n m = (case m of (wk, now, wid) \<Rightarrow> (cfg\<lparr>e_now := now, e_worker_id := wid\<rparr>)\<lparr>e_api := ram_api n wk\<rparr>)"

definition blob_content :: "ram_world cte_env \<Rightarrow> ram_world Cte \<Rightarrow> store" where
  "blob_content cfg s k = map_option (\<lambda>bi. blob_bytes (ram_byte (world s)) (bi_blocks bi)) (find_blob cfg s k)"

definition engine_inv :: "ram_world cte_env \<Rightarrow> ram_world Cte \<Rightarrow> bool" where
  "engine_inv cfg s \<longleftrightarrow> tables_ok cfg s \<and> (\<forall>k bi. find_blob cfg s k = Some bi \<longrightarrow> blob_ok k bi) \<and>
     ram_inv (world s) (table_regions (tag_blob_name_to_info s))"

text \<open>
  What the engine never checks, and needs: that the positions of a put or get do
  not wrap around, that a put grows its blob by at most 1 MiB beyond the bytes it
  keeps, that a reorganised blob has at most 1 MiB, and that the devices' address
  spaces are not used up. \<^verbatim>\<open>AllocateFromTarget\<close> takes only the first of the
  blocks the device returns for the whole size, and a block has at most 1 MiB.
\<close>

definition within_limits :: "ram_world cte_env \<Rightarrow> request \<Rightarrow> ram_world Cte \<Rightarrow> bool" where
  "within_limits cfg r s \<longleftrightarrow>
     (case r of
        Put t n off len dat score cx \<Rightarrow> unat off + unat len < 2 ^ 64 \<and>
          unat off + unat len \<le> length (base_of (blob_content cfg s) (composite_key t n) off) + 1048576 \<and>
          ram_room (world s) (target_count s)
      | Get t n off len buf \<Rightarrow> unat off + unat len < 2 ^ 64
      | Reorganize t n score \<Rightarrow> ram_room (world s) (target_count s) \<and>
          (\<forall>c. blob_content cfg s (composite_key t n) = Some c \<longrightarrow> length c \<le> 1048576)
      | _ \<Rightarrow> True)"

text \<open>
  The runs of the engine: it serves any request at any moment. The flag records
  whether every request so far was within the limits; it restricts no step.
\<close>

inductive engine_run :: "ram_world cte_env \<Rightarrow> nat \<Rightarrow> ram_world Cte \<Rightarrow> bool \<Rightarrow> (request \<times> reply) list \<Rightarrow> ram_world Cte \<Rightarrow> bool"
  for cfg n s0 where
  engine_start: "engine_run cfg n s0 True [] s0"
| engine_step: "engine_run cfg n s0 c tr s \<Longrightarrow> serve (at_moment cfg n m) r s = (a, s') \<Longrightarrow>
    engine_run cfg n s0 (c \<and> within_limits cfg r s) (tr @ [(r, a)]) s'"

lemma at_moment_simps [simp]:
  "e_hash_str (at_moment cfg n m) = e_hash_str cfg" "e_hash_u32 (at_moment cfg n m) = e_hash_u32 cfg"
  "e_shuffle (at_moment cfg n m) = e_shuffle cfg" "e_sort (at_moment cfg n m) = e_sort cfg"
  "env_ok (at_moment cfg n m) = env_ok cfg"
  by (cases m; simp add: at_moment_def env_ok_def)+

interpretation eng: cte_device "at_moment cfg n m" ram_inv ram_byte ram_room 1048576 for cfg n m
  unfolding at_moment_def by (cases m) (simp del: cte_env.simps add: ram.cte_device_axioms)

lemma eng_simps:
  "eng.cte_inv cfg n m s = engine_inv cfg s" "eng.content cfg n m s = blob_content cfg s"
  by (simp_all add: eng.cte_inv_def engine_inv_def tables_ok_def eng.content_def blob_content_def fun_eq_iff)

lemma eng_admissible: "eng.admissible cfg n m r s = within_limits cfg r s"
  by (cases r) (simp_all add: eng.admissible_def within_limits_def eng_simps)

lemma serve_request:
  assumes "env_ok cfg" and "engine_inv cfg s" and "within_limits cfg r s" and "serve (at_moment cfg n m) r s = (a, s')"
  shows "engine_inv cfg s' \<and> answers r a (blob_content cfg s) (blob_content cfg s')"
  using eng.serve_answers [of cfg n m s r a s'] assms by (simp add: eng_simps eng_admissible)

text \<open>An engine just created: empty tables, and no device yet.\<close>

definition fresh_engine :: "ram_world Cte \<Rightarrow> bool" where
  "fresh_engine s \<longleftrightarrow> (\<exists>a b c d f. 0 < a \<and> 0 < b \<and> 0 < c \<and> 0 < d \<and> 0 < f \<and>
     registered_targets s = ml_create a \<and> target_name_to_id s = ml_create b \<and> tag_name_to_id s = ml_create c \<and>
     tag_id_to_info s = ml_create d \<and> tag_blob_name_to_info s = ml_create f \<and> world s = Map.empty)"

lemma fresh_engine_inv:
  assumes "fresh_engine s"
  shows "engine_inv cfg s" and "blob_content cfg s = Map.empty"
proof -
  obtain a b c d f where s: "0 < a" "0 < b" "0 < c" "0 < d" "0 < f"
      "registered_targets s = ml_create a" "target_name_to_id s = ml_create b" "tag_name_to_id s = ml_create c"
      "tag_id_to_info s = ml_create d" "tag_blob_name_to_info s = ml_create f" "world s = Map.empty"
    using assms unfolding fresh_engine_def by (elim exE conjE)
  have "ml_entries (ml_create f :: (string, BlobInfo) unordered_map_ll) = []"
    by (simp add: ml_entries_def ml_create_def)
  then have "table_regions (tag_blob_name_to_info s) = {#}" by (simp add: table_regions_def s)
  then show "engine_inv cfg s" using s by (simp add: engine_inv_def tables_ok_def ml_inv_create ram_inv_def)
  show "blob_content cfg s = Map.empty" using s by (simp add: blob_content_def fun_eq_iff)
qed

section \<open>A run\<close>

definition demo_cfg :: "ram_world cte_env" where
  "demo_cfg = \<lparr>e_api = ram_api 2 0, e_hash_str = (\<lambda>s. of_nat (length s)), e_hash_u32 = ucast, e_shuffle = reverse_shuffle,
     e_sort = insertion_sort, e_node_id = 1, e_now = 0, e_worker_id = 0, e_dpe_type = ''round_robin'',
     e_score_difference_threshold = f32_zero, e_abs_diff = (\<lambda>_ _. f32_one), e_log_bandwidth = (\<lambda>_. f32_zero),
     e_AllocateBuffer = (\<lambda>_. Some (\<lambda>_. 0))\<rparr>"

definition demo_engine :: "ram_world Cte" where
  "demo_engine = \<lparr>registered_targets = ml_create 1, target_name_to_id = ml_create 1, tag_name_to_id = ml_create 1,
     tag_id_to_info = ml_create 1, tag_blob_name_to_info = ml_create 1, next_tag_id_minor = 1,
     telemetry_log = rb_new \<lparr>te_op = kPutBlobOp, te_off = 0, te_size = 0, te_tag_id = UniqueId_GetNull, te_blob_hash = 0,
       te_mod_time = 0, te_read_time = 0, te_logical_time = 0\<rparr> 4,
     telemetry_counter = 0, blob_txn_logs = [TL_Open ''m'' 0 []], tag_txn_logs = [], storage_devices = [],
     round_robin_counter = 0, world = Map.empty\<rparr>"

definition demo_pool :: PoolId where "demo_pool = \<lparr>id_major = 512, id_minor = 1\<rparr>"
definition demo_tag :: TagId where "demo_tag = \<lparr>id_major = 1, id_minor = 1\<rparr>"
definition demo_bytes :: mem where "demo_bytes i = of_nat i + 7"

abbreviation demo_env :: "ram_world cte_env" where "demo_env \<equiv> at_moment demo_cfg 2 (0, 0, 0)"
abbreviation demo_register :: request where "demo_register \<equiv> Register ''r'' kRam 65536 PoolQuery_Local demo_pool"
abbreviation demo_put :: request where "demo_put \<equiv> Put demo_tag ''b'' 0 3 (Some demo_bytes) f32_one Context_default"
abbreviation demo_get :: request where "demo_get \<equiv> Get demo_tag ''b'' 0 3 (\<lambda>_. 0)"

lemma demo_codes:
  "(case RegisterTarget demo_env ''r'' kRam 65536 PoolQuery_Local demo_pool demo_engine of
      (rc, s1) \<Rightarrow> (rc, target_count s1,
         case PutBlob demo_env demo_tag ''b'' 0 3 (Some demo_bytes) f32_one Context_default s1 of
           (rc2, s2) \<Rightarrow> (rc2, map (\<lambda>x. (fst x, bi_blob_name (snd x), bi_blocks (snd x))) (ml_entries (tag_blob_name_to_info s2))))) =
    (0, 1, 0, [(''1.1.b'', ''b'', [\<lparr>bb_client = demo_pool, bb_target_query = PoolQuery_Local, bb_target_offset = 0, bb_size = 3\<rparr>])])"
  by code_simp

lemma demo_fresh: "fresh_engine demo_engine"
  unfolding fresh_engine_def by (rule exI [of _ 1])+ (simp add: demo_engine_def)

lemma demo_env_ok: "env_ok demo_cfg"
  by (simp add: env_ok_def demo_cfg_def reverse_shuffle_ok insertion_sort_ok)

text \<open>The states after registering a memory device and after a put.\<close>

lemma demo_states:
  obtains s1 s2 where "RegisterTarget demo_env ''r'' kRam 65536 PoolQuery_Local demo_pool demo_engine = (0, s1)"
    and "PutBlob demo_env demo_tag ''b'' 0 3 (Some demo_bytes) f32_one Context_default s1 = (0, s2)"
    and "engine_inv demo_cfg s1" and "within_limits demo_cfg demo_put s1"
    and "map (\<lambda>x. (fst x, bi_blob_name (snd x), bi_blocks (snd x))) (ml_entries (tag_blob_name_to_info s2)) =
      [(''1.1.b'', ''b'', [\<lparr>bb_client = demo_pool, bb_target_query = PoolQuery_Local, bb_target_offset = 0, bb_size = 3\<rparr>])]"
proof -
  obtain rc1 s1 where r: "RegisterTarget demo_env ''r'' kRam 65536 PoolQuery_Local demo_pool demo_engine = (rc1, s1)"
    by fastforce
  obtain rc2 s2 where p: "PutBlob demo_env demo_tag ''b'' 0 3 (Some demo_bytes) f32_one Context_default s1 = (rc2, s2)"
    by fastforce
  have c: "rc1 = 0" "target_count s1 = 1" "rc2 = 0" using demo_codes by (simp_all add: r p)
  have "ram_room (world demo_engine) 1" by (simp add: demo_engine_def ram_room_def)
  with eng.RegisterTarget_spec [OF _ r] fresh_engine_inv [OF demo_fresh, of demo_cfg]
  have i1: "engine_inv demo_cfg s1" "ram_room (world s1) 1" by (simp_all add: eng_simps)
  then have "within_limits demo_cfg demo_put s1" using c(2) by (simp add: within_limits_def)
  with that [of s1 s2] i1(1) r p c demo_codes show ?thesis by simp
qed

text \<open>A run that registers a memory device, puts a blob and gets it back.\<close>

lemma demo_engine_run:
  "\<exists>buf s. engine_run demo_cfg 2 demo_engine True [(demo_register, Code 0), (demo_put, Code 0), (demo_get, Data 0 buf)] s"
proof -
  obtain s1 s2 where r: "RegisterTarget demo_env ''r'' kRam 65536 PoolQuery_Local demo_pool demo_engine = (0, s1)"
    and p: "PutBlob demo_env demo_tag ''b'' 0 3 (Some demo_bytes) f32_one Context_default s1 = (0, s2)"
    and i1: "engine_inv demo_cfg s1" and cp: "within_limits demo_cfg demo_put s1" by (rule demo_states)
  obtain rc3 buf s3 where g: "GetBlob demo_env demo_tag ''b'' 0 3 (\<lambda>_. 0) s2 = (rc3, buf, s3)" by (metis prod.exhaust)
  have sr: "serve demo_env demo_register demo_engine = (Code 0, s1)" by (simp add: serve_def r)
  have sp: "serve demo_env demo_put s1 = (Code 0, s2)" by (simp add: serve_def p)
  note a2 = serve_request [OF demo_env_ok i1 cp sp]
  have "rc3 = 0" using eng.GetBlob_spec [OF _ _ g] a2 by (auto simp: eng_simps)
  then have sg: "serve demo_env demo_get s2 = (Data 0 buf, s3)" by (simp add: serve_def g)
  from engine_step [OF engine_step [OF engine_step [OF engine_start sr] sp] sg] cp
  have "engine_run demo_cfg 2 demo_engine True [(demo_register, Code 0), (demo_put, Code 0), (demo_get, Data 0 buf)] s3"
    by (simp add: within_limits_def)
  then show ?thesis by blast
qed

text \<open>
  What happens beyond the limits. A blob of 4 KiB is placed and freed, so that its
  block is cached; then 1 MiB and 4 KiB are placed, for which the device gives a
  block of 1 MiB and the cached one. The engine uses the first for all of it, and
  the 4 KiB after that block are given to the next blob.
\<close>

definition overlap_target :: TargetInfo where
  "overlap_target = \<lparr>ti_target_name = ''r'', ti_bdev_pool_name = ''r'', ti_bdev_client = demo_pool, ti_target_query = PoolQuery_Local, ti_bytes_read = 0,
     ti_bytes_written = 0, ti_ops_read = 0, ti_ops_written = 0, ti_target_score = f32_one, ti_remaining_space = 8388608,
     ti_perf_metrics = perf_metrics blank_bdev, ti_persistence_level = kVolatile\<rparr>"

theorem large_blobs_overlap:
  "case ram_create 2 PoolQuery_Local ''r'' demo_pool kRam 8388608 Map.empty of (rc, p, w0) \<Rightarrow>
   case AllocateFromTarget (ram_api 2 0) overlap_target 4096 w0 of (a, t1, w1) \<Rightarrow>
   case ram_free 0 demo_pool PoolQuery_Local [\<lparr>offset = 0, bsize = 4096, block_type = 0\<rparr>] w1 of (rc', w2) \<Rightarrow>
   case AllocateFromTarget (ram_api 2 0) overlap_target 1052672 w2 of (c, t3, w3) \<Rightarrow>
   case AllocateFromTarget (ram_api 2 0) overlap_target 8192 w3 of (b, t4, w4) \<Rightarrow>
     a = Some 0 \<and> c = Some 4096 \<and> b = Some 1052672 \<and> (1052672 :: u64) < 4096 + 1052672"
  by code_simp

lemma engine_run_store:
  assumes "env_ok cfg" and "fresh_engine s0" and "engine_run cfg n s0 c tr s" and "c"
  shows "store_run Map.empty tr (blob_content cfg s) \<and> engine_inv cfg s"
  using assms(3,4)
proof induction
  case engine_start
  then show ?case using fresh_engine_inv [OF assms(2)] by (simp add: store_start)
next
  case (engine_step c tr s m r a s')
  with serve_request [OF assms(1) _ _ engine_step.hyps(2)] show ?case by (blast intro: store_step)
qed



end
