(* ===== verification/Cte_Recovery.thy ===== *)
theory Cte_Recovery
  imports Cte_Store
begin

text \<open>
  Persistence of the transfer engine's metadata (core\_runtime.cc): the snapshot
  \<^verbatim>\<open>FlushMetadata\<close> writes and \<^verbatim>\<open>RestoreMetadataFromLog\<close> reads, the replay of
  the transaction logs, and the start and end of a container's life,
  \<^verbatim>\<open>Create\<close> and \<^verbatim>\<open>Destroy\<close>.

  A file is the list of its bytes. Reading a stream consumes the list; a read
  past its end makes the stream fail, here \<open>None\<close>. A pool query whose routing
  mode is none of the enumeration also fails to be read here.
\<close>

section \<open>Streams\<close>

definition get_bytes :: "nat \<Rightarrow> u8 list \<Rightarrow> (u8 list \<times> u8 list) option" where
  "get_bytes n s = (if length s < n then None else Some (take n s, drop n s))"

definition get_u32 :: "u8 list \<Rightarrow> (u32 \<times> u8 list) option" where
  "get_u32 s = (case get_bytes 4 s of None \<Rightarrow> None | Some (b, r) \<Rightarrow> Some (of_nat (le_val b), r))"

definition get_u64 :: "u8 list \<Rightarrow> (u64 \<times> u8 list) option" where
  "get_u64 s = (case get_bytes 8 s of None \<Rightarrow> None | Some (b, r) \<Rightarrow> Some (of_nat (le_val b), r))"

definition get_i32 :: "u8 list \<Rightarrow> (int \<times> u8 list) option" where
  "get_i32 s = (case get_u32 s of None \<Rightarrow> None | Some (v, r) \<Rightarrow> Some (sint v, r))"

definition get_string :: "u8 list \<Rightarrow> (string \<times> u8 list) option" where
  "get_string s =
     (case get_u32 s of None \<Rightarrow> None | Some (n, r) \<Rightarrow>
      case get_bytes (unat n) r of None \<Rightarrow> None | Some (b, r') \<Rightarrow> Some (map char_of_byte b, r'))"

definition get_query :: "u8 list \<Rightarrow> (PoolQuery \<times> u8 list) option" where
  "get_query s =
     (case get_bytes sizeof_PoolQuery s of None \<Rightarrow> None | Some (b, r) \<Rightarrow>
      case PoolQuery_of_bytes b of None \<Rightarrow> None | Some q \<Rightarrow> Some (q, r))"

definition put_u32 :: "u32 \<Rightarrow> u8 list" where
  "put_u32 v = le_bytes 4 (unat v)"

definition put_u64 :: "u64 \<Rightarrow> u8 list" where
  "put_u64 v = le_bytes 8 (unat v)"

definition put_string :: "string \<Rightarrow> u8 list" where
  "put_string str = (let n = of_nat (length str) :: u32 in put_u32 n @ take (unat n) (map byte_of str))"

section \<open>The snapshot\<close>

definition tag_entry :: "TagId \<Rightarrow> TagInfo \<Rightarrow> u8 list" where
  "tag_entry i info =
     [0] @ put_string (tg_tag_name info) @ put_u32 (id_major i) @ put_u32 (id_minor i) @ put_u64 (tg_total_size info)"

definition block_entry :: "BlobBlock \<Rightarrow> u8 list" where
  "block_entry b = put_u32 (id_major (bb_client b)) @ put_u32 (id_minor (bb_client b)) @
     PoolQuery_bytes (bb_target_query b) @ put_u64 (bb_target_offset b) @ put_u64 (bb_size b)"

definition blob_entry :: "string \<Rightarrow> BlobInfo \<Rightarrow> u8 list" where
  "blob_entry key bi =
     [1] @ put_string key @ put_string (bi_blob_name bi) @ put_u32 (bi_score bi) @ put_u32 (of_int (bi_compress_lib bi)) @
     put_u32 (of_int (bi_compress_preset bi)) @ put_u64 (bi_trace_key bi) @ put_u32 (of_nat (length (bi_blocks bi))) @
     concat (map block_entry (bi_blocks bi))"

definition sum_sizes :: "TransactionLog list \<Rightarrow> u64 \<Rightarrow> u64" where
  "sum_sizes logs n = foldl (\<lambda>n l. n + of_nat (TL_Size l)) n logs"

text \<open>
  \<open>FlushMetadata path cap opens s file\<close>: \<open>file\<close> is the snapshot file before
  the call (\<open>None\<close> when there is none); the result has the return code, the
  number of entries, the state and the file.
\<close>

definition FlushMetadata :: "string \<Rightarrow> u64 \<Rightarrow> bool \<Rightarrow> 'w Cte \<Rightarrow> u8 list option \<Rightarrow> u32 \<times> u64 \<times> 'w Cte \<times> u8 list option" where
  "FlushMetadata log_path log_capacity opens s file =
     (if log_path = [] then (0, 0, s, file)
      else if \<not> opens then (1, 0, s, file)
      else
        let (out1, n1) = ml_for_each (\<lambda>i info (out, n). (out @ tag_entry i info, n + 1)) (tag_id_to_info s) ([], 0 :: u64);
            (out2, n2) = ml_for_each (\<lambda>k bi (out, n). (out @ blob_entry k bi, n + 1)) (tag_blob_name_to_info s) (out1, n1);
            s1 = (if blob_txn_logs s \<noteq> [] then
                    let blogs = map TL_Sync (blob_txn_logs s); tlogs = map TL_Sync (tag_txn_logs s);
                        total_wal_size = sum_sizes tlogs (sum_sizes blogs 0)
                    in if total_wal_size > log_capacity
                       then s\<lparr>blob_txn_logs := map TL_Truncate blogs, tag_txn_logs := map TL_Truncate tlogs\<rparr>
                       else s\<lparr>blob_txn_logs := blogs, tag_txn_logs := tlogs\<rparr>
                  else s)
        in (0, n2, s1, Some out2))"

text \<open>A block is dropped when its target is registered and volatile.\<close>

definition is_volatile :: "'w cte_env \<Rightarrow> 'w Cte \<Rightarrow> PoolId \<Rightarrow> bool" where
  "is_volatile e s p = (case find_target e s p of None \<Rightarrow> False | Some t \<Rightarrow> ti_persistence_level t = kVolatile)"

text \<open>
  The blocks of one blob; the stream afterwards is \<open>None\<close> when it failed, and
  the blocks read before the failure are kept.
\<close>

fun restore_blocks :: "'w cte_env \<Rightarrow> 'w Cte \<Rightarrow> nat \<Rightarrow> u8 list \<Rightarrow> BlobBlock list \<Rightarrow> BlobBlock list \<times> u8 list option" where
  "restore_blocks e s 0 r acc = (acc, Some r)"
| "restore_blocks e s (Suc n) r acc =
     (case get_u32 r of None \<Rightarrow> (acc, None) | Some (maj, r) \<Rightarrow>
      case get_u32 r of None \<Rightarrow> (acc, None) | Some (mnr, r) \<Rightarrow>
      case get_query r of None \<Rightarrow> (acc, None) | Some (q, r) \<Rightarrow>
      case get_u64 r of None \<Rightarrow> (acc, None) | Some (off, r) \<Rightarrow>
      case get_u64 r of None \<Rightarrow> (acc, None) | Some (sz, r) \<Rightarrow>
        let p = \<lparr>id_major = maj, id_minor = mnr\<rparr>
        in if is_volatile e s p then restore_blocks e s n r acc
           else restore_blocks e s n r (acc @ [\<lparr>bb_client = p, bb_target_query = q, bb_target_offset = off, bb_size = sz\<rparr>]))"

definition restore_tag :: "'w cte_env \<Rightarrow> u8 list \<Rightarrow> 'w Cte \<times> u32 \<Rightarrow> ('w Cte \<times> u32) \<times> u8 list option" where
  "restore_tag e r st =
     (case get_string r of None \<Rightarrow> (st, None) | Some (tag_name, r) \<Rightarrow>
      case get_u32 r of None \<Rightarrow> (st, None) | Some (maj, r) \<Rightarrow>
      case get_u32 r of None \<Rightarrow> (st, None) | Some (mnr, r) \<Rightarrow>
      case get_u64 r of None \<Rightarrow> (st, None) | Some (tot, r) \<Rightarrow>
        let (s, max_minor) = st; tag_id = \<lparr>id_major = maj, id_minor = mnr\<rparr>;
            tag_info = (TagInfo_new (e_now e))\<lparr>tg_tag_name := tag_name, tg_tag_id := tag_id, tg_total_size := tot\<rparr>;
            s1 = s\<lparr>tag_name_to_id := snd (ml_insert_or_assign (e_hash_str e) tag_name tag_id (tag_name_to_id s)),
                   tag_id_to_info := snd (ml_insert_or_assign (e_hash_id e) tag_id tag_info (tag_id_to_info s))\<rparr>
        in ((s1, if mnr \<ge> max_minor then mnr + 1 else max_minor), Some r))"

definition restore_blob :: "'w cte_env \<Rightarrow> u8 list \<Rightarrow> 'w Cte \<times> u32 \<Rightarrow> ('w Cte \<times> u32) \<times> u8 list option" where
  "restore_blob e r st =
     (case get_string r of None \<Rightarrow> (st, None) | Some (key, r) \<Rightarrow>
      case get_string r of None \<Rightarrow> (st, None) | Some (blob_name, r) \<Rightarrow>
      case get_u32 r of None \<Rightarrow> (st, None) | Some (score, r) \<Rightarrow>
      case get_i32 r of None \<Rightarrow> (st, None) | Some (lib, r) \<Rightarrow>
      case get_i32 r of None \<Rightarrow> (st, None) | Some (preset, r) \<Rightarrow>
      case get_u64 r of None \<Rightarrow> (st, None) | Some (trace, r) \<Rightarrow>
      case get_u32 r of None \<Rightarrow> (st, None) | Some (num_blocks, r) \<Rightarrow>
        let (s, max_minor) = st; (bs, r') = restore_blocks e s (unat num_blocks) r [];
            blob_info = (BlobInfo_new (e_now e))\<lparr>bi_blob_name := blob_name, bi_score := score, bi_compress_lib := lib,
              bi_compress_preset := preset, bi_trace_key := trace, bi_blocks := bs\<rparr>
        in ((s\<lparr>tag_blob_name_to_info := snd (ml_insert_or_assign (e_hash_str e) key blob_info (tag_blob_name_to_info s))\<rparr>,
             max_minor), r'))"

text \<open>One round of the loop: an entry of unknown type ends it.\<close>

fun restore_entry :: "'w cte_env \<Rightarrow> u8 list \<Rightarrow> 'w Cte \<times> u32 \<Rightarrow> ('w Cte \<times> u32) \<times> u8 list option" where
  "restore_entry e [] st = (st, None)"
| "restore_entry e (t # r) st =
     (if t = 0 then restore_tag e r st else if t = 1 then restore_blob e r st else (st, None))"

lemma get_shorter:
  "get_bytes n r = Some (b, r') \<Longrightarrow> length r' \<le> length r"
  "get_u32 r = Some (v, r') \<Longrightarrow> length r' \<le> length r" "get_u64 r = Some (u, r') \<Longrightarrow> length r' \<le> length r"
  "get_i32 r = Some (i, r') \<Longrightarrow> length r' \<le> length r" "get_string r = Some (str, r') \<Longrightarrow> length r' \<le> length r"
  "get_query r = Some (q, r') \<Longrightarrow> length r' \<le> length r"
  by (auto simp: get_bytes_def get_u32_def get_u64_def get_i32_def get_string_def get_query_def
      split: option.splits if_splits)

lemma restore_blocks_shorter: "restore_blocks e s n r acc = (bs, Some r') \<Longrightarrow> length r' \<le> length r"
proof (induction n arbitrary: r acc)
  case (Suc n)
  from Suc.prems obtain r1 r2 r3 r4 r5 a b c d f acc' where
      "get_u32 r = Some (a, r1)" "get_u32 r1 = Some (b, r2)" "get_query r2 = Some (c, r3)" "get_u64 r3 = Some (d, r4)"
      "get_u64 r4 = Some (f, r5)" "restore_blocks e s n r5 acc' = (bs, Some r')"
    by (auto simp: Let_def split: option.splits if_splits)
  with Suc.IH show ?case by (meson get_shorter le_trans)
qed simp

lemma restore_entry_shorter: "restore_entry e r st = (st', Some r') \<Longrightarrow> length r' < length r"
proof (cases r)
  case (Cons t r0)
  have "length r' \<le> length r0" if "restore_tag e r0 st = (st', Some r')"
    using that by (auto simp: restore_tag_def Let_def split: option.splits prod.splits dest!: get_shorter)
  moreover have "length r' \<le> length r0" if "restore_blob e r0 st = (st', Some r')"
    using that by (auto simp: restore_blob_def Let_def split: option.splits prod.splits
        dest!: get_shorter restore_blocks_shorter)
  ultimately show "restore_entry e r st = (st', Some r') \<Longrightarrow> length r' < length r"
    by (auto simp: Cons split: if_splits)
qed simp

function restore_loop :: "'w cte_env \<Rightarrow> u8 list \<Rightarrow> 'w Cte \<times> u32 \<Rightarrow> 'w Cte \<times> u32" where
  "restore_loop e r st =
     (case restore_entry e r st of (st', None) \<Rightarrow> st' | (st', Some r') \<Rightarrow> restore_loop e r' st')"
  by pat_completeness auto
termination by (relation "measure (\<lambda>(e, r, st). length r)") (auto dest: restore_entry_shorter [OF sym])

declare restore_loop.simps [simp del]

definition RestoreMetadataFromLog :: "'w cte_env \<Rightarrow> string \<Rightarrow> bool \<Rightarrow> u8 list option \<Rightarrow> 'w Cte \<Rightarrow> 'w Cte" where
  "RestoreMetadataFromLog e log_path opens file s =
     (if log_path = [] then s
      else case file of
             None \<Rightarrow> s
           | Some content \<Rightarrow>
               if \<not> opens then s
               else let (s1, max_minor) = restore_loop e content (s, 0)
                    in if max_minor > next_tag_id_minor s1 then s1\<lparr>next_tag_id_minor := max_minor\<rparr> else s1)"

section \<open>Replay of the transaction logs\<close>

text \<open>
  A payload that is shorter than its transaction is read past its end in the
  code; the replay skips it here.
\<close>

definition replay_tag_entry :: "'w cte_env \<Rightarrow> 'w Cte \<times> u32 \<Rightarrow> u8 \<times> u8 list \<Rightarrow> 'w Cte \<times> u32" where
  "replay_tag_entry e st entry =
     (case st of (s, max_minor) \<Rightarrow> case entry of (type, payload) \<Rightarrow>
        if type = txn_code kCreateTag then
          (case DeserializeTagRef payload of None \<Rightarrow> st | Some txn \<Rightarrow>
             let tag_id = \<lparr>id_major = tr_tag_major txn, id_minor = tr_tag_minor txn\<rparr>;
                 tag_info = (TagInfo_new (e_now e))\<lparr>tg_tag_name := tr_tag_name txn, tg_tag_id := tag_id\<rparr>
             in (s\<lparr>tag_name_to_id := snd (ml_insert_or_assign (e_hash_str e) (tr_tag_name txn) tag_id (tag_name_to_id s)),
                   tag_id_to_info := snd (ml_insert_or_assign (e_hash_id e) tag_id tag_info (tag_id_to_info s))\<rparr>,
                 if id_minor tag_id \<ge> max_minor then id_minor tag_id + 1 else max_minor))
        else if type = txn_code kDelTag then
          (case DeserializeTagRef payload of None \<Rightarrow> st | Some txn \<Rightarrow>
             let tag_id = \<lparr>id_major = tr_tag_major txn, id_minor = tr_tag_minor txn\<rparr>;
                 s1 = s\<lparr>tag_name_to_id := snd (ml_erase (e_hash_str e) (tr_tag_name txn) (tag_name_to_id s))\<rparr>;
                 s2 = erase_prefix e (tag_prefix tag_id) s1
             in (s2\<lparr>tag_id_to_info := snd (ml_erase (e_hash_id e) tag_id (tag_id_to_info s2))\<rparr>, max_minor))
        else st)"

definition txn_blob_block :: "TxnExtendBlobBlock \<Rightarrow> BlobBlock" where
  "txn_blob_block tb = \<lparr>bb_client = \<lparr>id_major = bdev_major tb, id_minor = bdev_minor tb\<rparr>,
     bb_target_query = target_query tb, bb_target_offset = target_offset tb, bb_size = tb_size tb\<rparr>"

definition replay_blob_entry :: "'w cte_env \<Rightarrow> 'w Cte \<Rightarrow> u8 \<times> u8 list \<Rightarrow> 'w Cte" where
  "replay_blob_entry e s entry =
     (case entry of (type, payload) \<Rightarrow>
        if type = txn_code kCreateNewBlob then
          (case DeserializeCreateNewBlob payload of None \<Rightarrow> s | Some txn \<Rightarrow>
             let key = composite_key \<lparr>id_major = cn_tag_major txn, id_minor = cn_tag_minor txn\<rparr> (cn_blob_name txn);
                 blob_info = (BlobInfo_new (e_now e))\<lparr>bi_blob_name := cn_blob_name txn, bi_score := cn_score txn\<rparr>
             in s\<lparr>tag_blob_name_to_info := snd (ml_insert_or_assign (e_hash_str e) key blob_info (tag_blob_name_to_info s))\<rparr>)
        else if type = txn_code kExtendBlob then
          (case DeserializeExtendBlob payload of None \<Rightarrow> s | Some txn \<Rightarrow>
             let key = composite_key \<lparr>id_major = eb_tag_major txn, id_minor = eb_tag_minor txn\<rparr> (eb_blob_name txn);
                 kept_blocks = filter (\<lambda>b. \<not> is_volatile e s (bb_client b)) (map txn_blob_block (new_blocks txn))
             in with_blob e key (\<lambda>bi. bi\<lparr>bi_blocks := kept_blocks\<rparr>) s)
        else if type = txn_code kClearBlob then
          (case DeserializeBlobRef payload of None \<Rightarrow> s | Some txn \<Rightarrow>
             let key = composite_key \<lparr>id_major = br_tag_major txn, id_minor = br_tag_minor txn\<rparr> (br_blob_name txn)
             in with_blob e key (\<lambda>bi. bi\<lparr>bi_blocks := []\<rparr>) s)
        else if type = txn_code kDelBlob then
          (case DeserializeBlobRef payload of None \<Rightarrow> s | Some txn \<Rightarrow>
             let key = composite_key \<lparr>id_major = br_tag_major txn, id_minor = br_tag_minor txn\<rparr> (br_blob_name txn)
             in s\<lparr>tag_blob_name_to_info := snd (ml_erase (e_hash_str e) key (tag_blob_name_to_info s))\<rparr>)
        else s)"

definition recompute_sizes :: "'w Cte \<Rightarrow> 'w Cte" where
  "recompute_sizes s =
     s\<lparr>tag_id_to_info := ml_for_each_mut (\<lambda>tag_id info.
         info\<lparr>tg_total_size := ml_for_each (\<lambda>key bi n.
           if starts_with (tag_prefix tag_id) key then n + GetTotalSize bi else n) (tag_blob_name_to_info s) 0\<rparr>)
       (tag_id_to_info s)\<rparr>"

text \<open>
  \<open>tag_files\<close> and \<open>blob_files\<close> are the contents of the files
  \<^verbatim>\<open>path.tag.i\<close> and \<^verbatim>\<open>path.blob.i\<close>, for \<^verbatim>\<open>i\<close> from 0 up to the first that does
  not exist; no later one exists.
\<close>

definition ReplayTransactionLogs :: "'w cte_env \<Rightarrow> string \<Rightarrow> u8 list list \<Rightarrow> u8 list list \<Rightarrow> 'w Cte \<Rightarrow> 'w Cte" where
  "ReplayTransactionLogs e log_path tag_files blob_files s =
     (if log_path = [] then s
      else
        let (s1, max_minor) = foldl (\<lambda>st file. foldl (replay_tag_entry e) st (TL_Load (TL_Open log_path 0 file)))
              (s, next_tag_id_minor s) tag_files;
            s2 = foldl (\<lambda>s file. foldl (replay_blob_entry e) s (TL_Load (TL_Open log_path 0 file))) s1 blob_files;
            s3 = recompute_sizes s2
        in if max_minor > next_tag_id_minor s3 then s3\<lparr>next_tag_id_minor := max_minor\<rparr> else s3)"

section \<open>Creation and destruction\<close>

definition kTagMapSize :: nat where "kTagMapSize = 100000"
definition kBlobMapSize :: nat where "kBlobMapSize = 1000000"
definition kTelemetryRingSize :: nat where "kTelemetryRingSize = 1024"

definition CteTelemetry_default :: "Timestamp \<Rightarrow> CteTelemetry" where
  "CteTelemetry_default now = \<lparr>te_op = kPutBlobOp, te_off = 0, te_size = 0, te_tag_id = UniqueId_GetNull,
     te_blob_hash = 0, te_mod_time = now, te_read_time = now, te_logical_time = 0\<rparr>"

record cte_config =
  cf_devices :: "StorageDeviceConfig list"
  cf_neighborhood :: u32
  cf_metadata_log_path :: string
  cf_transaction_log_capacity_bytes :: u64

text \<open>What a container finds when it is created.\<close>

record cte_start =
  is_restart :: bool
  num_hosts :: u32
  total_worker_count :: u32
  meta_file :: "u8 list option"
  meta_opens :: bool
  tag_log_files :: "u8 list list"
  blob_log_files :: "u8 list list"

definition empty_tables :: "'w cte_env \<Rightarrow> cte_config \<Rightarrow> 'w \<Rightarrow> 'w Cte" where
  "empty_tables e cf w =
     \<lparr>registered_targets = ml_create kTagMapSize, target_name_to_id = ml_create kTagMapSize,
      tag_name_to_id = ml_create kTagMapSize, tag_id_to_info = ml_create kTagMapSize,
      tag_blob_name_to_info = ml_create kBlobMapSize, next_tag_id_minor = 1,
      telemetry_log = rb_new (CteTelemetry_default (e_now e)) kTelemetryRingSize, telemetry_counter = 0,
      blob_txn_logs = [], tag_txn_logs = [], storage_devices = cf_devices cf, round_robin_counter = 0, world = w\<rparr>"

definition register_device :: "'w cte_env \<Rightarrow> nat \<Rightarrow> 'w Cte \<Rightarrow> nat \<times> StorageDeviceConfig \<Rightarrow> 'w Cte" where
  "register_device e neighborhood s d =
     (case d of (device_idx, device) \<Rightarrow>
        foldl (\<lambda>s container_hash.
          snd (RegisterTarget e (sd_path device @ ''_node'' @ to_string container_hash)
                 (if sd_bdev_type device = ''ram'' then kRam else kFile) (sd_capacity_limit device)
                 (PoolQuery_DirectHash (of_nat container_hash) neg_one_f)
                 \<lparr>id_major = 512 + of_nat device_idx, id_minor = 1 + of_nat container_hash\<rparr> s)) s [0..<neighborhood])"

definition open_logs :: "cte_config \<Rightarrow> cte_start \<Rightarrow> 'w Cte \<Rightarrow> 'w Cte" where
  "open_logs cf st s =
     (let path = cf_metadata_log_path cf
      in if path = [] then s
         else let num_workers = max (total_worker_count st) 1;
                  per_worker_capacity = max (cf_transaction_log_capacity_bytes cf div ucast num_workers) 4096;
                  file_of = (\<lambda>files i. if i < length files then files ! i else [])
              in s\<lparr>blob_txn_logs := map (\<lambda>i. TL_Open (path @ ''.blob.'' @ to_string i) per_worker_capacity
                       (file_of (blob_log_files st) i)) [0..<unat num_workers],
                   tag_txn_logs := map (\<lambda>i. TL_Open (path @ ''.tag.'' @ to_string i) per_worker_capacity
                       (file_of (tag_log_files st) i)) [0..<unat num_workers]\<rparr>)"

definition Cte_Create :: "'w cte_env \<Rightarrow> cte_config \<Rightarrow> cte_start \<Rightarrow> 'w \<Rightarrow> 'w Cte" where
  "Cte_Create e cf st w =
     (let actual_neighborhood = unat (min (cf_neighborhood cf) (num_hosts st));
          s1 = foldl (register_device e actual_neighborhood) (empty_tables e cf w) (enumerate 0 (cf_devices cf));
          s2 = (if is_restart st
                then ReplayTransactionLogs e (cf_metadata_log_path cf) (tag_log_files st) (blob_log_files st)
                       (RestoreMetadataFromLog e (cf_metadata_log_path cf) (meta_opens st) (meta_file st) s1)
                else s1)
      in open_logs cf st s2)"

text \<open>The logs are returned closed: their files outlive the container.\<close>

definition Cte_Destroy :: "'w Cte \<Rightarrow> TransactionLog list \<times> TransactionLog list \<times> 'w Cte" where
  "Cte_Destroy s =
     (map TL_Close (blob_txn_logs s), map TL_Close (tag_txn_logs s),
      s\<lparr>blob_txn_logs := [], tag_txn_logs := [], registered_targets := ml_clear (registered_targets s),
        target_name_to_id := ml_clear (target_name_to_id s), tag_name_to_id := ml_clear (tag_name_to_id s),
        tag_id_to_info := ml_clear (tag_id_to_info s), tag_blob_name_to_info := ml_clear (tag_blob_name_to_info s),
        next_tag_id_minor := 1, storage_devices := []\<rparr>)"

section \<open>Reading back a snapshot\<close>

lemma get_put [simp]:
  "get_u32 (put_u32 v @ r) = Some (v, r)" "get_u64 (put_u64 u @ r) = Some (u, r)"
  "get_query (PoolQuery_bytes q @ r) = Some (q, r)"
proof -
  have "length (PoolQuery_bytes q) = sizeof_PoolQuery" by (simp add: PoolQuery_bytes_def sizeof_PoolQuery_def)
  then show "get_query (PoolQuery_bytes q @ r) = Some (q, r)" by (simp add: get_query_def get_bytes_def)
qed (simp_all add: get_u32_def get_u64_def get_bytes_def put_u32_def put_u64_def codec_simps)

lemma get_string_put [simp]:
  assumes "length s < 2 ^ 32"
  shows "get_string (put_string s @ r) = Some (s, r)"
proof -
  have "unat (of_nat (length s) :: u32) = length s" using assms by (simp add: unat_of_nat take_bit_eq_mod)
  then show ?thesis by (simp add: get_string_def put_string_def get_bytes_def comp_def)
qed

lemma get_i32_put [simp]:
  assumes "- (2 ^ 31) \<le> i" and "i < 2 ^ 31"
  shows "get_i32 (put_u32 (of_int i) @ r) = Some (i, r)"
  using assms by (simp add: get_i32_def signed_of_int signed_take_bit_int_eq_self)

text \<open>What a restart keeps of a blob and of a tag.\<close>

definition kept_blocks :: "'w cte_env \<Rightarrow> 'w Cte \<Rightarrow> BlobBlock list \<Rightarrow> BlobBlock list" where
  "kept_blocks e s bs = filter (\<lambda>b. \<not> is_volatile e s (bb_client b)) bs"

definition restored_blob :: "'w cte_env \<Rightarrow> 'w Cte \<Rightarrow> BlobInfo \<Rightarrow> BlobInfo" where
  "restored_blob e s bi = \<lparr>bi_blob_name = bi_blob_name bi, bi_blocks = kept_blocks e s (bi_blocks bi),
     bi_score = bi_score bi, bi_last_modified = e_now e, bi_last_read = e_now e, bi_compress_lib = bi_compress_lib bi,
     bi_compress_preset = bi_compress_preset bi, bi_trace_key = bi_trace_key bi\<rparr>"

definition restored_tag :: "'w cte_env \<Rightarrow> TagId \<Rightarrow> TagInfo \<Rightarrow> TagInfo" where
  "restored_tag e i info = \<lparr>tg_tag_name = tg_tag_name info, tg_tag_id = i, tg_total_size = tg_total_size info,
     tg_last_modified = e_now e, tg_last_read = e_now e\<rparr>"

text \<open>Entries that the widths of the format can hold.\<close>

definition storable :: "string \<Rightarrow> BlobInfo \<Rightarrow> bool" where
  "storable k bi \<longleftrightarrow> length k < 2 ^ 32 \<and> length (bi_blob_name bi) < 2 ^ 32 \<and> length (bi_blocks bi) < 2 ^ 32 \<and>
     - (2 ^ 31) \<le> bi_compress_lib bi \<and> bi_compress_lib bi < 2 ^ 31 \<and>
     - (2 ^ 31) \<le> bi_compress_preset bi \<and> bi_compress_preset bi < 2 ^ 31"

lemma record_eta [simp]:
  "\<lparr>id_major = id_major i, id_minor = id_minor i\<rparr> = i"
  "\<lparr>bb_client = bb_client b, bb_target_query = bb_target_query b, bb_target_offset = bb_target_offset b, bb_size = bb_size b\<rparr> = b"
  by simp_all

lemma restore_blocks_put:
  "restore_blocks e s (length bs) (concat (map block_entry bs) @ r) acc = (acc @ kept_blocks e s bs, Some r)"
  by (induction bs arbitrary: acc) (simp_all add: block_entry_def kept_blocks_def Let_def)

definition add_tag :: "'w cte_env \<Rightarrow> 'w Cte \<times> u32 \<Rightarrow> TagId \<times> TagInfo \<Rightarrow> 'w Cte \<times> u32" where
  "add_tag e st x =
     ((fst st)\<lparr>tag_name_to_id := snd (ml_insert_or_assign (e_hash_str e) (tg_tag_name (snd x)) (fst x) (tag_name_to_id (fst st))),
        tag_id_to_info := snd (ml_insert_or_assign (e_hash_id e) (fst x) (restored_tag e (fst x) (snd x)) (tag_id_to_info (fst st)))\<rparr>,
      if id_minor (fst x) \<ge> snd st then id_minor (fst x) + 1 else snd st)"

definition add_blob :: "'w cte_env \<Rightarrow> 'w Cte \<times> u32 \<Rightarrow> string \<times> BlobInfo \<Rightarrow> 'w Cte \<times> u32" where
  "add_blob e st x =
     ((fst st)\<lparr>tag_blob_name_to_info := snd (ml_insert_or_assign (e_hash_str e) (fst x) (restored_blob e (fst st) (snd x))
        (tag_blob_name_to_info (fst st)))\<rparr>, snd st)"

lemma restore_loop_tag:
  assumes "length (tg_tag_name info) < 2 ^ 32"
  shows "restore_loop e (tag_entry i info @ r) st = restore_loop e r (add_tag e st (i, info))"
proof -
  have "restore_entry e (tag_entry i info @ r) st = (add_tag e st (i, info), Some r)"
    using assms by (cases st) (simp add: tag_entry_def restore_tag_def add_tag_def restored_tag_def TagInfo_new_def Let_def)
  then show ?thesis by (subst restore_loop.simps) simp
qed

lemma restore_loop_blob:
  assumes "storable k bi"
  shows "restore_loop e (blob_entry k bi @ r) st = restore_loop e r (add_blob e st (k, bi))"
proof -
  have n: "unat (of_nat (length (bi_blocks bi)) :: u32) = length (bi_blocks bi)"
    using assms by (simp add: storable_def unat_of_nat take_bit_eq_mod)
  have "restore_entry e (blob_entry k bi @ r) st = (add_blob e st (k, bi), Some r)"
    using assms
    by (cases st) (simp add: blob_entry_def restore_blob_def add_blob_def restored_blob_def BlobInfo_new_def storable_def
        n restore_blocks_put)
  then show ?thesis by (subst restore_loop.simps) simp
qed

lemma restore_loop_snapshot:
  assumes "\<forall>x \<in> set ts. length (tg_tag_name (snd x)) < 2 ^ 32" and "\<forall>x \<in> set bs. storable (fst x) (snd x)"
  shows "restore_loop e (concat (map (\<lambda>x. tag_entry (fst x) (snd x)) ts) @ concat (map (\<lambda>x. blob_entry (fst x) (snd x)) bs)) st =
    foldl (add_blob e) (foldl (add_tag e) st ts) bs"
proof -
  have b: "restore_loop e (concat (map (\<lambda>x. blob_entry (fst x) (snd x)) bs)) st = foldl (add_blob e) st bs" for st
    using assms(2)
  proof (induction bs arbitrary: st)
    case Nil
    then show ?case by (subst restore_loop.simps) simp
  next
    case (Cons x bs)
    then show ?case by (cases x) (simp add: restore_loop_blob)
  qed
  show ?thesis using assms(1)
  proof (induction ts arbitrary: st)
    case (Cons x ts)
    then show ?case by (cases x) (simp add: restore_loop_tag)
  qed (simp add: b)
qed

context dict
begin

lemma upd_all:
  assumes "invar m"
  shows "invar (foldl (\<lambda>m x. upd (kf x) (g x) m) m xs) \<and>
    lookup (foldl (\<lambda>m x. upd (kf x) (g x) m) m xs) k =
      (case map_of (map (\<lambda>x. (kf x, g x)) (rev xs)) k of None \<Rightarrow> lookup m k | Some v \<Rightarrow> Some v)"
proof (induction xs rule: rev_induct)
  case (snoc x xs)
  then show ?case by (auto simp: lookup_upd invar_upd)
qed (simp add: assms)

text \<open>Inserting items with distinct keys into an empty table.\<close>

lemma copy_entries:
  assumes "invar m" and "lookup m = Map.empty" and "distinct (map kf xs)"
  shows "lookup (foldl (\<lambda>m x. upd (kf x) (g x) m) m xs) = map_of (map (\<lambda>x. (kf x, g x)) xs)"
proof -
  have "distinct (map fst (map (\<lambda>x. (kf x, g x)) xs))" "distinct (map fst (rev (map (\<lambda>x. (kf x, g x)) xs)))"
    using assms(3) by (simp_all add: comp_def rev_map [symmetric])
  then have "map_of (rev (map (\<lambda>x. (kf x, g x)) xs)) = map_of (map (\<lambda>x. (kf x, g x)) xs)"
    by (subst map_of_inject_set) simp_all
  then show ?thesis using upd_all [OF assms(1), of kf g xs] assms(2) by (auto simp: rev_map fun_eq_iff split: option.splits)
qed

lemma map_of_entries:
  assumes "invar m"
  shows "map_of (map (\<lambda>x. (fst x, g (fst x) (snd x))) (entries m)) k = map_option (g k) (lookup m k)"
proof -
  have "map_of (map (\<lambda>x. (fst x, g (fst x) (snd x))) xs) k = map_option (g k) (map_of xs k)" for xs
    by (induction xs) auto
  then show ?thesis by (simp add: entries_lookup [OF assms])
qed

end

lemma add_tags_tables:
  "tag_id_to_info (fst (foldl (add_tag e) st ts)) =
     foldl (\<lambda>m x. snd (ml_insert_or_assign (e_hash_id e) (fst x) (restored_tag e (fst x) (snd x)) m)) (tag_id_to_info (fst st)) ts"
  "tag_name_to_id (fst (foldl (add_tag e) st ts)) =
     foldl (\<lambda>m x. snd (ml_insert_or_assign (e_hash_str e) (tg_tag_name (snd x)) (fst x) m)) (tag_name_to_id (fst st)) ts"
  "tag_blob_name_to_info (fst (foldl (add_tag e) st ts)) = tag_blob_name_to_info (fst st)"
  "registered_targets (fst (foldl (add_tag e) st ts)) = registered_targets (fst st)"
  "next_tag_id_minor (fst (foldl (add_tag e) st ts)) = next_tag_id_minor (fst st)"
  by (induction ts arbitrary: st) (simp_all add: add_tag_def)

lemma add_blobs_tables:
  "tag_id_to_info (fst (foldl (add_blob e) st bs)) = tag_id_to_info (fst st)"
  "tag_name_to_id (fst (foldl (add_blob e) st bs)) = tag_name_to_id (fst st)"
  "registered_targets (fst (foldl (add_blob e) st bs)) = registered_targets (fst st)"
  "next_tag_id_minor (fst (foldl (add_blob e) st bs)) = next_tag_id_minor (fst st)"
  "snd (foldl (add_blob e) st bs) = snd st"
  by (induction bs arbitrary: st) (simp_all add: add_blob_def)

lemma add_blobs_blobs:
  "tag_blob_name_to_info (fst (foldl (add_blob e) st bs)) =
     foldl (\<lambda>m x. snd (ml_insert_or_assign (e_hash_str e) (fst x) (restored_blob e (fst st) (snd x)) m))
       (tag_blob_name_to_info (fst st)) bs"
proof (induction bs arbitrary: st)
  case (Cons x bs)
  have r: "restored_blob e (fst (add_blob e st x)) = restored_blob e (fst st)"
    by (simp add: add_blob_def restored_blob_def kept_blocks_def is_volatile_def fun_eq_iff)
  have "tag_blob_name_to_info (fst (add_blob e st x)) =
      snd (ml_insert_or_assign (e_hash_str e) (fst x) (restored_blob e (fst st) (snd x)) (tag_blob_name_to_info (fst st)))"
    by (simp add: add_blob_def)
  with Cons [of "add_blob e st x", unfolded r] show ?case by simp
qed simp

text \<open>The counter of generated identifiers ends past every restored one.\<close>

lemma u32_less_Suc:
  assumes "(x :: u32) \<noteq> 2 ^ 32 - 1"
  shows "x < x + 1"
proof -
  have "x = 2 ^ 32 - 1" if "unat x = 2 ^ 32 - 1"
  proof -
    have "x = of_nat (unat x)" by simp
    also have "\<dots> = 2 ^ 32 - 1" unfolding that by simp
    finally show ?thesis .
  qed
  then have "unat x \<noteq> 2 ^ 32 - 1" using assms by blast
  moreover have "unat x < 2 ^ 32" using unsigned_less [of x] by simp
  ultimately show ?thesis by (simp add: word_less_nat_alt unat_word_ariths)
qed

lemma add_tags_minor:
  assumes "\<forall>x \<in> set ts. id_minor (fst x) \<noteq> 2 ^ 32 - 1"
  shows "snd st \<le> snd (foldl (add_tag e) st ts) \<and> (\<forall>x \<in> set ts. id_minor (fst x) < snd (foldl (add_tag e) st ts))"
  using assms
proof (induction ts arbitrary: st)
  case (Cons x ts)
  have nw: "id_minor (fst x) < id_minor (fst x) + 1" using Cons.prems u32_less_Suc by simp
  have "snd st \<le> snd (add_tag e st x)" "id_minor (fst x) < snd (add_tag e st x)"
    using nw by (auto simp: add_tag_def not_le)
  then show ?case using Cons.IH [of "add_tag e st x"] Cons.prems by fastforce
qed simp

lemma FlushMetadata_file:
  assumes "FlushMetadata path cap True s file = (rc, n, s', f)" and "path \<noteq> []"
  shows "rc = 0" and "f = Some (concat (map (\<lambda>x. tag_entry (fst x) (snd x)) (ml_entries (tag_id_to_info s))) @
    concat (map (\<lambda>x. blob_entry (fst x) (snd x)) (ml_entries (tag_blob_name_to_info s))))"
proof -
  have "foldl (\<lambda>(out, n) x. (out @ h (fst x) (snd x), n + 1)) (o0, n0 :: u64) xs =
      (o0 @ concat (map (\<lambda>x. h (fst x) (snd x)) xs), n0 + of_nat (length xs))" for h :: "'x \<Rightarrow> 'y \<Rightarrow> u8 list" and o0 n0 xs
    by (induction xs arbitrary: o0 n0) (simp_all add: algebra_simps)
  then have e: "ml_for_each (\<lambda>k v (out, n). (out @ h k v, n + 1)) m (o0, n0 :: u64) =
      (o0 @ concat (map (\<lambda>x. h (fst x) (snd x)) (ml_entries m)), n0 + of_nat (length (ml_entries m)))" for h :: "'x \<Rightarrow> 'y \<Rightarrow> u8 list" and o0 n0 m
    unfolding ml_for_each_entries by (simp add: case_prod_beta')
  show "rc = 0" "f = Some (concat (map (\<lambda>x. tag_entry (fst x) (snd x)) (ml_entries (tag_id_to_info s))) @
    concat (map (\<lambda>x. blob_entry (fst x) (snd x)) (ml_entries (tag_blob_name_to_info s))))"
    using assms by (auto simp: FlushMetadata_def e Let_def)
qed

text \<open>A container whose targets are registered and whose metadata is still empty.\<close>

definition no_metadata :: "'w cte_env \<Rightarrow> 'w Cte \<Rightarrow> bool" where
  "no_metadata e s \<longleftrightarrow> tables_ok e s \<and> find_blob e s = Map.empty \<and> find_tag e s = Map.empty \<and>
     ml_find (e_hash_str e) (tag_name_to_id s) = Map.empty"

definition flushable :: "'w cte_env \<Rightarrow> 'w Cte \<Rightarrow> bool" where
  "flushable e s \<longleftrightarrow> tables_ok e s \<and> (\<forall>k bi. find_blob e s k = Some bi \<longrightarrow> storable k bi) \<and>
     (\<forall>t info. find_tag e s t = Some info \<longrightarrow> length (tg_tag_name info) < 2 ^ 32 \<and> id_minor t \<noteq> 2 ^ 32 - 1) \<and>
     (\<forall>t t' info info'. find_tag e s t = Some info \<and> find_tag e s t' = Some info' \<and>
        tg_tag_name info = tg_tag_name info' \<longrightarrow> t = t')"

lemma flushableD:
  assumes "flushable e s"
  shows "tables_ok e s" and "find_blob e s k = Some bi \<Longrightarrow> storable k bi"
    and "find_tag e s t = Some info \<Longrightarrow> length (tg_tag_name info) < 2 ^ 32 \<and> id_minor t \<noteq> 2 ^ 32 - 1"
    and "find_tag e s t = Some info \<Longrightarrow> find_tag e s t' = Some info' \<Longrightarrow> tg_tag_name info = tg_tag_name info' \<Longrightarrow> t = t'"
  using assms unfolding flushable_def by blast+

lemma flushable_names:
  assumes "flushable e s"
  shows "distinct (map (\<lambda>x. tg_tag_name (snd x)) (ml_entries (tag_id_to_info s)))"
    and "(t, info) \<in> set (ml_entries (tag_id_to_info s)) \<longleftrightarrow> find_tag e s t = Some info"
proof -
  have m: "ml_inv (e_hash_id e) (tag_id_to_info s)" using flushableD(1) [OF assms] by (simp add: tables_ok_def)
  show mem: "(t, info) \<in> set (ml_entries (tag_id_to_info s)) \<longleftrightarrow> find_tag e s t = Some info" for t info
    by (rule ll.in_entries_iff [OF m])
  have "distinct (ml_entries (tag_id_to_info s))" using ll.entries_distinct [OF m] distinct_map by blast
  moreover have "inj_on (\<lambda>x. tg_tag_name (snd x)) (set (ml_entries (tag_id_to_info s)))"
  proof (rule inj_onI)
    fix x y assume xy: "x \<in> set (ml_entries (tag_id_to_info s))" "y \<in> set (ml_entries (tag_id_to_info s))"
      "tg_tag_name (snd x) = tg_tag_name (snd y)"
    have "find_tag e s (fst x) = Some (snd x)" "find_tag e s (fst y) = Some (snd y)"
      using xy by (simp_all add: mem [symmetric])
    moreover from this xy(3) have "fst x = fst y" by (rule flushableD(4) [OF assms])
    ultimately show "x = y" by (simp add: prod_eq_iff)
  qed
  ultimately show "distinct (map (\<lambda>x. tg_tag_name (snd x)) (ml_entries (tag_id_to_info s)))" by (simp add: distinct_map)
qed

lemma restore_flushed:
  fixes e :: "'w cte_env" and s0 :: "'w Cte"
  assumes "flushable e s" and "path \<noteq> []" and "FlushMetadata path cap True s old = (rc, n, s', file)"
  defines "st \<equiv> foldl (add_tag e) (s0, 0) (ml_entries (tag_id_to_info s))"
  shows "rc = 0" and "\<exists>m. RestoreMetadataFromLog e path True file s0 =
    (fst (foldl (add_blob e) st (ml_entries (tag_blob_name_to_info s))))\<lparr>next_tag_id_minor := m\<rparr> \<and> snd st \<le> m"
proof -
  note f = FlushMetadata_file [OF assms(3,2)]
  show "rc = 0" by (rule f(1))
  have "ml_inv (e_hash_str e) (tag_blob_name_to_info s)" using flushableD(1) [OF assms(1)] by (simp add: tables_ok_def)
  then have b: "\<forall>x \<in> set (ml_entries (tag_blob_name_to_info s)). storable (fst x) (snd x)"
    using flushableD(2) [OF assms(1)] ll.in_entries_iff by fastforce
  have t: "\<forall>x \<in> set (ml_entries (tag_id_to_info s)). length (tg_tag_name (snd x)) < 2 ^ 32"
    using flushableD(3) [OF assms(1)] flushable_names(2) [OF assms(1)] by fastforce
  define bt where "bt = foldl (add_blob e) st (ml_entries (tag_blob_name_to_info s))"
  have loop: "restore_loop e (the file) (s0, 0) = bt"
    by (simp add: f(2) restore_loop_snapshot [OF t b] st_def bt_def)
  have s: "snd bt = snd st" by (simp add: bt_def add_blobs_tables)
  have "RestoreMetadataFromLog e path True file s0 =
      (fst bt)\<lparr>next_tag_id_minor := max (snd st) (next_tag_id_minor (fst bt))\<rparr>"
    using assms(2) loop f(2) s by (cases bt) (auto simp: RestoreMetadataFromLog_def max_def)
  then show "\<exists>m. RestoreMetadataFromLog e path True file s0 = (fst bt)\<lparr>next_tag_id_minor := m\<rparr> \<and> snd st \<le> m"
    unfolding bt_def by (metis max.cobounded1)
qed

text \<open>A state with one tag and one blob of two blocks, and a restarted container in which the first block's target is volatile.\<close>

definition demo_block :: "PoolId \<Rightarrow> BlobBlock" where
  "demo_block p = \<lparr>bb_client = p, bb_target_query = PoolQuery_Local, bb_target_offset = 0, bb_size = 8\<rparr>"

definition demo_saved :: "ram_world Cte" where
  "demo_saved = demo_engine\<lparr>
     tag_id_to_info := \<lparr>buckets = [[(demo_tag, (TagInfo_new 0)\<lparr>tg_tag_name := ''t'', tg_total_size := 16\<rparr>)]]\<rparr>,
     tag_blob_name_to_info := \<lparr>buckets = [[(''1.1.b'', (BlobInfo_new 0)\<lparr>bi_blob_name := ''b'',
       bi_blocks := [demo_block demo_pool, demo_block demo_tag]\<rparr>)]]\<rparr>\<rparr>"

definition demo_restarted :: "ram_world Cte" where
  "demo_restarted = demo_engine\<lparr>registered_targets := \<lparr>buckets = [[(demo_pool, (demo_target 10 0 1)\<lparr>ti_persistence_level := kVolatile\<rparr>)]]\<rparr>\<rparr>"

lemmas demo_eval = ml_find_def get_bucket_index_def demo_saved_def demo_restarted_def demo_engine_def
  ml_create_def Let_def

lemma demo_flushable: "flushable demo_cfg demo_saved"
  by (auto simp: flushable_def tables_ok_def ml_inv_def demo_eval storable_def BlobInfo_new_def demo_tag_def demo_block_def
      split: if_splits)

lemma demo_no_metadata: "no_metadata demo_cfg demo_restarted"
  by (auto simp: no_metadata_def tables_ok_def ml_inv_def demo_eval fun_eq_iff)

text \<open>
  C3. A snapshot survives a restart: what \<^verbatim>\<open>FlushMetadata\<close> wrote,
  \<^verbatim>\<open>RestoreMetadataFromLog\<close> reads back into a new container: every tag with its
  name and size, every blob with its name, score and compression parameters, and
  of its blocks exactly those whose target is not volatile. Identifiers
  generated afterwards are different from all restored ones.
\<close>

theorem snapshot_restores:
  assumes "flushable e s" and "no_metadata e s0" and "path \<noteq> []"
    and "FlushMetadata path cap True s old = (rc, n, s', file)"
    and "s2 = RestoreMetadataFromLog e path True file s0"
  shows "rc = 0 \<and> (\<forall>k. find_blob e s2 k = map_option (restored_blob e s0) (find_blob e s k)) \<and>
    (\<forall>t. find_tag e s2 t = map_option (restored_tag e t) (find_tag e s t)) \<and>
    (\<forall>name t. ml_find (e_hash_str e) (tag_name_to_id s2) name = Some t \<longleftrightarrow>
       (\<exists>info. find_tag e s t = Some info \<and> tg_tag_name info = name)) \<and>
    (\<forall>t. find_tag e s t \<noteq> None \<longrightarrow> id_minor t < next_tag_id_minor s2)"
proof -
  let ?ts = "ml_entries (tag_id_to_info s)" and ?bs = "ml_entries (tag_blob_name_to_info s)"
  define st where "st = foldl (add_tag e) (s0, 0) ?ts"
  obtain m where s2: "s2 = (fst (foldl (add_blob e) st ?bs))\<lparr>next_tag_id_minor := m\<rparr>" "snd st \<le> m"
    using restore_flushed(2) [OF assms(1,3,4), of s0] unfolding assms(5) st_def by blast
  have inv: "ml_inv (e_hash_str e) (tag_blob_name_to_info s)" "ml_inv (e_hash_id e) (tag_id_to_info s)"
    using flushableD(1) [OF assms(1)] by (simp_all add: tables_ok_def)
  have inv0: "ml_inv (e_hash_str e) (tag_blob_name_to_info s0)" "ml_inv (e_hash_id e) (tag_id_to_info s0)"
    "ml_inv (e_hash_str e) (tag_name_to_id s0)" "find_blob e s0 = Map.empty" "find_tag e s0 = Map.empty"
    "ml_find (e_hash_str e) (tag_name_to_id s0) = Map.empty"
    using assms(2) by (simp_all add: no_metadata_def tables_ok_def)
  have r: "restored_blob e (fst st) = restored_blob e s0"
    by (simp add: restored_blob_def kept_blocks_def is_volatile_def st_def add_tags_tables fun_eq_iff)
  have blobs: "find_blob e s2 k = map_option (restored_blob e s0) (find_blob e s k)" for k
    using ll.copy_entries [OF inv0(1,4) ll.entries_distinct [OF inv(1)], of "\<lambda>x. restored_blob e s0 (snd x)"]
      ll.map_of_entries [OF inv(1), of "\<lambda>k. restored_blob e s0" k]
    by (simp add: s2 add_blobs_blobs r) (simp add: st_def add_tags_tables)
  have tags: "find_tag e s2 t = map_option (restored_tag e t) (find_tag e s t)" for t
    using ll.copy_entries [OF inv0(2,5) ll.entries_distinct [OF inv(2)], of "\<lambda>x. restored_tag e (fst x) (snd x)"]
      ll.map_of_entries [OF inv(2), of "restored_tag e" t]
    by (simp add: s2 add_blobs_tables) (simp add: st_def add_tags_tables)
  have "ml_find (e_hash_str e) (tag_name_to_id s2) = map_of (map (\<lambda>x. (tg_tag_name (snd x), fst x)) ?ts)"
    using ll.copy_entries [OF inv0(3,6) flushable_names(1) [OF assms(1)], of fst]
    by (simp add: s2 add_blobs_tables) (simp add: st_def add_tags_tables)
  moreover have "distinct (map fst (map (\<lambda>x. (tg_tag_name (snd x), fst x)) ?ts))"
    using flushable_names(1) [OF assms(1)] by (simp add: comp_def)
  ultimately have names: "ml_find (e_hash_str e) (tag_name_to_id s2) name = Some t \<longleftrightarrow>
      (\<exists>info. find_tag e s t = Some info \<and> tg_tag_name info = name)" for name t
    using flushable_names(2) [OF assms(1)] by (force simp: map_of_eq_Some_iff)
  have "id_minor t < next_tag_id_minor s2" if "find_tag e s t = Some info" for t info
  proof -
    have "\<forall>x \<in> set ?ts. id_minor (fst x) \<noteq> 2 ^ 32 - 1"
      using flushableD(3) [OF assms(1)] flushable_names(2) [OF assms(1)] by fastforce
    from add_tags_minor [OF this, of "(s0, 0)" e] that flushable_names(2) [OF assms(1)]
    have "id_minor t < snd st" unfolding st_def by fastforce
    then show ?thesis using s2 by simp
  qed
  then show ?thesis using restore_flushed(1) [OF assms(1,3,4)] blobs tags names by blast
qed

theorem snapshot_restores_witness:
  "\<exists>n s' file. FlushMetadata ''m'' 0 True demo_saved None = (0, n, s', file) \<and>
     map_option bi_blocks (find_blob demo_cfg (RestoreMetadataFromLog demo_cfg ''m'' True file demo_restarted) ''1.1.b'') =
       Some [demo_block demo_tag]"
proof -
  obtain rc n s' fl where f: "FlushMetadata ''m'' 0 True demo_saved None = (rc, n, s', fl)" by (metis prod.exhaust)
  have "find_blob demo_cfg demo_saved ''1.1.b'' = Some ((BlobInfo_new 0)\<lparr>bi_blob_name := ''b'',
       bi_blocks := [demo_block demo_pool, demo_block demo_tag]\<rparr>)" by (simp add: demo_eval)
  moreover have "kept_blocks demo_cfg demo_restarted [demo_block demo_pool, demo_block demo_tag] = [demo_block demo_tag]"
    by (simp add: kept_blocks_def is_volatile_def demo_eval demo_block_def demo_pool_def demo_tag_def)
  ultimately show ?thesis
    using snapshot_restores [OF demo_flushable demo_no_metadata _ f refl] f by (simp add: restored_blob_def)
qed

end
