(* ===== verification/Cte_Wal.thy ===== *)
theory Cte_Wal
  imports Cte_Recovery
begin

text \<open>
  The transaction logs against the state they describe: the handlers that
  change blobs write records whose replay rebuilds the block lists.
\<close>

section \<open>Transactions as changes of the blob table\<close>

datatype blob_txn =
    Created TagId string f32
  | Extended TagId string "BlobBlock list"
  | Cleared TagId string
  | Deleted TagId string

type_synonym shapes = "string \<Rightarrow> (string \<times> BlobBlock list) option"

text \<open>The name and blocks of every blob.\<close>

definition shape :: "'w cte_env \<Rightarrow> 'w Cte \<Rightarrow> shapes" where
  "shape e s k = map_option (\<lambda>bi. (bi_blob_name bi, bi_blocks bi)) (find_blob e s k)"

fun apply_txn :: "(BlobBlock \<Rightarrow> bool) \<Rightarrow> shapes \<Rightarrow> blob_txn \<Rightarrow> shapes" where
  "apply_txn keep m (Created t n sc) = m(composite_key t n := Some (n, []))"
| "apply_txn keep m (Extended t n bs) =
     m(composite_key t n := map_option (\<lambda>x. (fst x, filter keep bs)) (m (composite_key t n)))"
| "apply_txn keep m (Cleared t n) = m(composite_key t n := map_option (\<lambda>x. (fst x, [])) (m (composite_key t n)))"
| "apply_txn keep m (Deleted t n) = m(composite_key t n := None)"

fun txn_record :: "blob_txn \<Rightarrow> u8 \<times> u8 list" where
  "txn_record (Created t n sc) = (txn_code kCreateNewBlob, put_CreateNewBlob \<lparr>cn_tag_major = id_major t,
     cn_tag_minor = id_minor t, cn_blob_name = n, cn_score = sc\<rparr>)"
| "txn_record (Extended t n bs) = (txn_code kExtendBlob, put_ExtendBlob \<lparr>eb_tag_major = id_major t,
     eb_tag_minor = id_minor t, eb_blob_name = n, new_blocks = map txn_block bs\<rparr>)"
| "txn_record (Cleared t n) = (txn_code kClearBlob, blob_ref t n)"
| "txn_record (Deleted t n) = (txn_code kDelBlob, blob_ref t n)"

fun txn_fits :: "blob_txn \<Rightarrow> bool" where
  "txn_fits (Created t n sc) = (length n < 2 ^ 31)"
| "txn_fits (Extended t n bs) = (length n < 2 ^ 31 \<and> 56 * length bs < 2 ^ 31 - 16)"
| "txn_fits (Cleared t n) = (length n < 2 ^ 31)"
| "txn_fits (Deleted t n) = (length n < 2 ^ 31)"

lemma length_put_block: "length (put_block buf b) = length buf + 56"
  by (simp add: put_block_def WriteU32_def WriteU64_def WriteRaw_def PoolQuery_bytes_def)

lemma length_put_blocks: "length (foldl put_block buf bs) = length buf + 56 * length bs"
  by (induction bs arbitrary: buf) (simp_all add: length_put_block)

lemma txn_record_length: "txn_fits x \<Longrightarrow> length (snd (txn_record x)) < 2 ^ 32"
  by (cases x) (simp_all add: put_CreateNewBlob_def put_ExtendBlob_def blob_ref_def put_BlobRef_def WriteString_def
      WriteU32_def WriteFloat_def length_put_blocks)

lemma txn_blob_block_txn [simp]: "txn_blob_block (txn_block b) = b"
  by (simp add: txn_blob_block_def txn_block_def)

section \<open>Replay\<close>

lemma shape_upd:
  assumes "ml_inv (e_hash_str e) (tag_blob_name_to_info s)"
  shows "shape e (s\<lparr>tag_blob_name_to_info := snd (ml_insert_or_assign (e_hash_str e) k bi (tag_blob_name_to_info s))\<rparr>) =
      (shape e s)(k := Some (bi_blob_name bi, bi_blocks bi))"
    and "shape e (with_blob e k f s) = (shape e s)(k := map_option (\<lambda>bi. (bi_blob_name (f bi), bi_blocks (f bi))) (find_blob e s k))"
    and "shape e (s\<lparr>tag_blob_name_to_info := snd (ml_erase (e_hash_str e) k (tag_blob_name_to_info s))\<rparr>) = (shape e s)(k := None)"
  using assms by (simp_all add: shape_def fun_eq_iff ll.lookup_upd ll.lookup_modify ll.lookup_del option.map_comp comp_def)

lemma replay_txn:
  assumes "txn_fits x" and "ml_inv (e_hash_str e) (tag_blob_name_to_info s)"
  defines "s' \<equiv> replay_blob_entry e s (txn_record x)"
  shows "shape e s' = apply_txn (\<lambda>b. \<not> is_volatile e s (bb_client b)) (shape e s) x \<and>
    ml_inv (e_hash_str e) (tag_blob_name_to_info s') \<and> registered_targets s' = registered_targets s"
proof (cases x)
  case (Created t n sc)
  then show ?thesis using assms
    by (simp add: replay_blob_entry_def CreateNewBlob_roundtrip shape_upd ll.invar_upd BlobInfo_new_def)
next
  case (Extended t n bs)
  have r: "DeserializeExtendBlob (snd (txn_record x)) = Some \<lparr>eb_tag_major = id_major t,
     eb_tag_minor = id_minor t, eb_blob_name = n, new_blocks = map txn_block bs\<rparr>"
    using assms(1) by (simp add: Extended ExtendBlob_roundtrip)
  have m: "map txn_blob_block (map txn_block bs) = bs" by (simp add: comp_def)
  have s': "s' = with_blob e (composite_key t n) (\<lambda>bi. bi\<lparr>bi_blocks := filter (\<lambda>b. \<not> is_volatile e s (bb_client b)) bs\<rparr>) s"
    using r m unfolding s'_def Extended by (simp add: replay_blob_entry_def)
  show ?thesis unfolding s' Extended using assms(2)
    by (simp add: shape_upd ll.invar_modify) (simp add: shape_def option.map_comp comp_def)
next
  case (Cleared t n)
  then show ?thesis using assms
    by (simp add: replay_blob_entry_def BlobRef_roundtrip blob_ref_def shape_upd ll.invar_modify)
      (simp add: shape_def option.map_comp comp_def)
next
  case (Deleted t n)
  then show ?thesis using assms
    by (simp add: replay_blob_entry_def BlobRef_roundtrip blob_ref_def shape_upd ll.invar_del)
qed

lemma replay_txns:
  assumes "\<forall>x \<in> set xs. txn_fits x" and "ml_inv (e_hash_str e) (tag_blob_name_to_info s)"
  shows "shape e (foldl (replay_blob_entry e) s (map txn_record xs)) =
    foldl (apply_txn (\<lambda>b. \<not> is_volatile e s (bb_client b))) (shape e s) xs"
  using assms
proof (induction xs arbitrary: s)
  case (Cons x xs)
  have f: "txn_fits x" using Cons.prems by simp
  note r = replay_txn [OF f Cons.prems(2)]
  have v: "is_volatile e (replay_blob_entry e s (txn_record x)) = is_volatile e s"
    using r by (simp add: is_volatile_def fun_eq_iff)
  show ?case using Cons.IH [of "replay_blob_entry e s (txn_record x)"] Cons.prems r by (simp add: v)
qed simp

text \<open>Dropping blocks commutes with transactions.\<close>

lemma apply_txns_keep:
  assumes "\<And>k. m' k = map_option (\<lambda>x. (fst x, filter keep (snd x))) (m k)"
  shows "foldl (apply_txn keep) m' xs k = map_option (\<lambda>x. (fst x, filter keep (snd x))) (foldl (apply_txn (\<lambda>_. True)) m xs k)"
  using assms
proof (induction xs arbitrary: m m')
  case (Cons x xs)
  have "apply_txn keep m' x k = map_option (\<lambda>x. (fst x, filter keep (snd x))) (apply_txn (\<lambda>_. True) m x k)" for k
    using Cons.prems by (cases x) (simp_all add: option.map_comp comp_def)
  from Cons.IH [OF this] show ?case by simp
qed simp

section \<open>What the handlers log\<close>

text \<open>
  \<open>logged e xs s s'\<close>: the step from \<open>s\<close> to \<open>s'\<close> changes the blob table as the
  transactions \<open>xs\<close> say and, when there is a single log, writes them to it.
\<close>

definition logged :: "'w cte_env \<Rightarrow> blob_txn list \<Rightarrow> 'w Cte \<Rightarrow> 'w Cte \<Rightarrow> bool" where
  "logged e xs s s' \<longleftrightarrow>
     ml_inv (e_hash_str e) (tag_blob_name_to_info s') \<and>
     shape e s' = foldl (apply_txn (\<lambda>_. True)) (shape e s) xs \<and>
     (\<forall>l. blob_txn_logs s = [l] \<longrightarrow> is_open l \<longrightarrow> (\<forall>x \<in> set xs. txn_fits x) \<longrightarrow>
        blob_txn_logs s' = [l\<lparr>pending := pending l @ encode_all (map txn_record xs)\<rparr>])"

lemma loggedI:
  assumes "ml_inv (e_hash_str e) (tag_blob_name_to_info s')" and "shape e s' = foldl (apply_txn (\<lambda>_. True)) (shape e s) xs"
    and "\<And>l. blob_txn_logs s = [l] \<Longrightarrow> is_open l \<Longrightarrow> \<forall>x \<in> set xs. txn_fits x \<Longrightarrow>
      blob_txn_logs s' = [l\<lparr>pending := pending l @ encode_all (map txn_record xs)\<rparr>]"
  shows "logged e xs s s'"
  using assms unfolding logged_def by blast

lemma logged_trans:
  assumes "logged e xs s s1" and "logged e ys s1 s2"
  shows "logged e (xs @ ys) s s2"
proof (rule loggedI)
  show "ml_inv (e_hash_str e) (tag_blob_name_to_info s2)" "shape e s2 = foldl (apply_txn (\<lambda>_. True)) (shape e s) (xs @ ys)"
    using assms by (simp_all add: logged_def)
  fix l assume l: "blob_txn_logs s = [l]" "is_open l" "\<forall>x \<in> set (xs @ ys). txn_fits x"
  have "blob_txn_logs s1 = [l\<lparr>pending := pending l @ encode_all (map txn_record xs)\<rparr>]"
    using assms(1) l unfolding logged_def by simp
  then show "blob_txn_logs s2 = [l\<lparr>pending := pending l @ encode_all (map txn_record (xs @ ys))\<rparr>]"
    using assms(2) l unfolding logged_def by simp
qed

lemma logged_unchanged:
  assumes "ml_inv (e_hash_str e) (tag_blob_name_to_info s)" and "tag_blob_name_to_info s' = tag_blob_name_to_info s"
    and "blob_txn_logs s' = blob_txn_logs s"
  shows "logged e [] s s'"
  using assms by (simp add: logged_def shape_def fun_eq_iff)

lemma logged_cong:
  assumes "logged e xs s s1" and "shape e s' = shape e s1" and "blob_txn_logs s' = blob_txn_logs s1"
    and "ml_inv (e_hash_str e) (tag_blob_name_to_info s')"
  shows "logged e xs s s'"
  using assms by (simp add: logged_def)

text \<open>One record after a change that left the log alone.\<close>

lemma logged_one:
  assumes "ml_inv (e_hash_str e) (tag_blob_name_to_info s1)" and "shape e s1 = apply_txn (\<lambda>_. True) (shape e s) x"
    and "blob_txn_logs s1 = blob_txn_logs s" and "txn_record x = (txn_code ty, payload)"
  shows "logged e [x] s (log_blob e ty payload s1)"
proof (rule loggedI)
  show "ml_inv (e_hash_str e) (tag_blob_name_to_info (log_blob e ty payload s1))" using assms(1) by simp
  show "shape e (log_blob e ty payload s1) = foldl (apply_txn (\<lambda>_. True)) (shape e s) [x]"
    using assms(2) by (simp add: shape_def fun_eq_iff)
  fix l assume l: "blob_txn_logs s = [l]" "is_open l" "\<forall>x \<in> set [x]. txn_fits x"
  then have "length payload < 2 ^ 32" using txn_record_length [of x] assms(4) by simp
  then show "blob_txn_logs (log_blob e ty payload s1) = [l\<lparr>pending := pending l @ encode_all (map txn_record [x])\<rparr>]"
    using l assms(3,4) by (simp add: log_blob_def log_on_worker_def WriteRecord_encode)
qed

lemma tables_log_simps [simp]:
  "blob_txn_logs (with_blob e k f s) = blob_txn_logs s" "blob_txn_logs (with_target e p g s) = blob_txn_logs s"
  "blob_txn_logs (with_tag e t h s) = blob_txn_logs s" "blob_txn_logs (LogTelemetry a b c d x y z s) = blob_txn_logs s"
  "blob_txn_logs (log_tag e ty pl s) = blob_txn_logs s"
  by (simp_all add: with_blob_def with_target_def with_tag_def LogTelemetry_def log_tag_def Let_def)

lemma free_pools_log:
  "tag_blob_name_to_info (foldl (free_pool e) s ps) = tag_blob_name_to_info s \<and>
   blob_txn_logs (foldl (free_pool e) s ps) = blob_txn_logs s"
proof (induction ps arbitrary: s)
  case (Cons x ps)
  have "tag_blob_name_to_info (free_pool e s x) = tag_blob_name_to_info s \<and> blob_txn_logs (free_pool e s x) = blob_txn_logs s"
    by (auto simp: free_pool_def Let_def split: prod.splits)
  with Cons show ?case by simp
qed simp

lemma FreeAllBlobBlocks_log:
  assumes "ml_inv (e_hash_str e) (tag_blob_name_to_info s)" and "FreeAllBlobBlocks e k bi s = (rc, s')"
  shows "ml_inv (e_hash_str e) (tag_blob_name_to_info s') \<and> blob_txn_logs s' = blob_txn_logs s \<and>
    shape e s' = (shape e s)(k := map_option (\<lambda>x. (fst x, [])) (shape e s k))"
proof -
  let ?s1 = "foldl (free_pool e) s (blocks_by_pool (bi_blocks bi))"
  have s': "s' = with_blob e k (\<lambda>bi. bi\<lparr>bi_blocks := []\<rparr>) ?s1" using assms(2) by (simp add: FreeAllBlobBlocks_def)
  have i: "ml_inv (e_hash_str e) (tag_blob_name_to_info ?s1)" using assms(1) by (simp add: free_pools_log)
  have "shape e ?s1 = shape e s" by (simp add: shape_def free_pools_log fun_eq_iff)
  then show ?thesis unfolding s' using i assms(1)
    by (simp add: shape_upd(2) [OF i] ll.invar_modify free_pools_log) (simp add: shape_def option.map_comp comp_def free_pools_log)
qed

lemma extend_loop_log:
  assumes "ml_inv (e_hash_str e) (tag_blob_name_to_info s)" and "extend_loop e k ts n s = (r, s')"
    and "find_blob e s k = Some bi"
  shows "ml_inv (e_hash_str e) (tag_blob_name_to_info s') \<and> blob_txn_logs s' = blob_txn_logs s \<and>
    (\<exists>bs. shape e s' = (shape e s)(k := Some (bi_blob_name bi, bi_blocks bi @ bs)))"
  using assms
proof (induction ts arbitrary: n s bi)
  case Nil
  then show ?case by (auto simp: shape_def fun_eq_iff intro: exI [of _ "[]"])
next
  case (Cons t ts)
  have same: ?case if "extend_loop e k ts n' s1 = (r, s')" "tag_blob_name_to_info s1 = tag_blob_name_to_info s"
      "blob_txn_logs s1 = blob_txn_logs s" for n' s1
    using Cons.IH [OF _ that(1), of bi] Cons.prems that(2,3) by (simp add: shape_def fun_eq_iff)
  show ?case
  proof (cases "n = 0")
    case True
    then show ?thesis using Cons.prems by (auto simp: shape_def fun_eq_iff intro: exI [of _ "[]"])
  next
    case n: False
    show ?thesis
    proof (cases "find_target e s (ti_bdev_client t)")
      case None
      then show ?thesis using same [of n s] Cons.prems(2) n by simp
    next
      case (Some tc)
      let ?sz = "min n (ti_remaining_space tc)"
      obtain o1 t1 w1 where a: "AllocateFromTarget (e_api e) tc ?sz (world s) = (o1, t1, w1)" by (metis prod.exhaust)
      show ?thesis
      proof (cases "?sz = 0 \<or> o1 = None")
        case True
        then show ?thesis
          using same [of n s] same [of n "s\<lparr>world := w1\<rparr>"] Cons.prems(2) n Some a by (auto simp: Let_def split: if_splits)
      next
        case False
        then obtain off where off: "o1 = Some off" by auto
        let ?b = "\<lparr>bb_client = ti_bdev_client tc, bb_target_query = ti_target_query tc, bb_target_offset = off, bb_size = ?sz\<rparr>"
        let ?s1 = "with_blob e k (\<lambda>bi. bi\<lparr>bi_blocks := bi_blocks bi @ [?b]\<rparr>) (s\<lparr>world := w1\<rparr>)"
        have loop: "extend_loop e k ts (n - ?sz) ?s1 = (r, s')" using Cons.prems(2) n Some a False off by (simp add: Let_def)
        have i: "ml_inv (e_hash_str e) (tag_blob_name_to_info ?s1)" using Cons.prems(1) by (simp add: ll.invar_modify)
        have f: "find_blob e ?s1 k = Some (bi\<lparr>bi_blocks := bi_blocks bi @ [?b]\<rparr>)"
          using Cons.prems(1,3) by (simp add: ll.lookup_modify)
        have sh: "shape e ?s1 = (shape e s)(k := Some (bi_blob_name bi, bi_blocks bi @ [?b]))"
          using shape_upd(2) [of e "s\<lparr>world := w1\<rparr>"] Cons.prems(1,3) by (simp add: shape_def fun_eq_iff)
        have sel: "bi_blob_name (bi\<lparr>bi_blocks := x\<rparr>) = bi_blob_name bi" "bi_blocks (bi\<lparr>bi_blocks := x\<rparr>) = x" for x by simp_all
        note ih = Cons.IH [OF i loop f, unfolded sh fun_upd_upd sel append_assoc tables_log_simps]
        then show ?thesis by (elim conjE exE) (intro conjI exI, assumption+, simp)
      qed
    qed
  qed
qed

lemma ExtendBlob_log:
  assumes "ml_inv (e_hash_str e) (tag_blob_name_to_info s)" and "ExtendBlob e k bi off len sc lvl s = (r, s')"
    and "find_blob e s k = Some bi"
  shows "ml_inv (e_hash_str e) (tag_blob_name_to_info s') \<and> blob_txn_logs s' = blob_txn_logs s \<and>
    (\<exists>bs. shape e s' = (shape e s)(k := Some (bi_blob_name bi, bi_blocks bi @ bs)))"
proof -
  have keep: ?thesis if "tag_blob_name_to_info s' = tag_blob_name_to_info s" "blob_txn_logs s' = blob_txn_logs s"
    using that assms(1,3) by (auto simp: shape_def fun_eq_iff intro: exI [of _ "[]"])
  consider "tag_blob_name_to_info s' = tag_blob_name_to_info s" "blob_txn_logs s' = blob_txn_logs s"
    | ts n c r' where "extend_loop e k ts n (s\<lparr>round_robin_counter := c\<rparr>) = (r', s')"
    using assms(2) by (auto simp: ExtendBlob_def Let_def split: if_splits prod.splits)
  then show ?thesis
  proof cases
    case 1
    then show ?thesis by (rule keep)
  next
    case 2
    have sh: "shape e (s\<lparr>round_robin_counter := c\<rparr>) = shape e s" by (simp add: shape_def fun_eq_iff)
    show ?thesis using extend_loop_log [OF _ 2, of bi] assms(1,3) by (simp add: sh)
  qed
qed

text \<open>Which transactions a put of \<open>t\<close>, \<open>n\<close> may log.\<close>

fun put_txn :: "'w cte_env \<Rightarrow> TagId \<Rightarrow> string \<Rightarrow> 'w Cte \<Rightarrow> blob_txn \<Rightarrow> bool" where
  "put_txn e t n s' (Created t' n' sc) \<longleftrightarrow> n' = n"
| "put_txn e t n s' (Extended t' n' bs) \<longleftrightarrow> n' = n \<and> map_option snd (shape e s' (composite_key t n)) = Some bs"
| "put_txn e t n s' (Cleared t' n') \<longleftrightarrow> n' = n"
| "put_txn e t n s' (Deleted t' n') \<longleftrightarrow> n' = n"

lemma put_finish_log:
  assumes "ml_inv (e_hash_str e) (tag_blob_name_to_info s)" and "s' = put_finish e t n off len sc cx old s"
  shows "shape e s' = shape e s" and "blob_txn_logs s' = blob_txn_logs s" and "ml_inv (e_hash_str e) (tag_blob_name_to_info s')"
proof -
  show "blob_txn_logs s' = blob_txn_logs s" "ml_inv (e_hash_str e) (tag_blob_name_to_info s')"
    using assms by (simp_all add: put_finish_def Let_def ll.invar_modify)
  have "shape e (with_blob e k (\<lambda>bi. bi\<lparr>bi_compress_lib := a, bi_compress_preset := b, bi_trace_key := c,
      bi_last_modified := d, bi_score := f\<rparr>) s) = shape e s" for k a b c d f
    using assms(1) by (simp add: shape_upd(2)) (simp add: shape_def fun_eq_iff option.map_comp comp_def)
  then show "shape e s' = shape e s" by (simp add: assms(2) put_finish_def Let_def) (simp add: shape_def fun_eq_iff)
qed

lemma put_store_log:
  assumes "ml_inv (e_hash_str e) (tag_blob_name_to_info s)"
    and "put_store e t n off len dat sc cx old s = (rc, s')" and "rc = 0"
  shows "\<exists>xs. logged e xs s s' \<and> (\<forall>x \<in> set xs. put_txn e t n s' x)"
proof -
  let ?k = "composite_key t n"
  obtain bi where bi: "find_blob e s ?k = Some bi" using assms(2,3)
    by (cases "find_blob e s ?k") (auto simp: put_store_def Let_def)
  obtain ar s1 where ex: "ExtendBlob e ?k bi off len sc (cx_min_persistence_level cx) s = (ar, s1)" by fastforce
  note x = ExtendBlob_log [OF assms(1) ex bi]
  obtain bs where sh: "shape e s1 = (shape e s)(?k := Some (bi_blob_name bi, bi_blocks bi @ bs))" using x by blast
  let ?bs = "bi_blocks bi @ bs"
  have bs1: "(case find_blob e s1 ?k of Some bi1 \<Rightarrow> bi_blocks bi1 | None \<Rightarrow> []) = ?bs"
    using fun_cong [OF sh, of ?k] by (auto simp: shape_def split: option.splits)
  define s2 where "s2 = (if ?bs \<noteq> [] then log_blob e kExtendBlob (put_ExtendBlob \<lparr>eb_tag_major = id_major t,
    eb_tag_minor = id_minor t, eb_blob_name = n, new_blocks = map txn_block ?bs\<rparr>) s1 else s1)"
  obtain wr w where md: "ModifyExistingData (e_api e) ?bs dat len off (world s2) = (wr, w)" by fastforce
  have "await_transfers rs \<in> {0, 1}" for rs by (induction rs rule: await_transfers.induct) simp_all
  then have "wr \<in> {0, 1}" using md by (auto simp: ModifyExistingData_def split: prod.splits)
  then have wr: "wr \<noteq> 0 \<Longrightarrow> 20 + wr \<noteq> 0" by auto
  have "ar \<in> {0, 1, 2, 3}" using ex by (auto simp: ExtendBlob_def Let_def split: if_splits prod.splits)
  then have ar: "ar \<noteq> 0 \<Longrightarrow> 10 + ar \<noteq> 0" by auto
  have "put_store e t n off len dat sc cx old s =
      (if ar \<noteq> 0 then (10 + ar, s1) else if wr \<noteq> 0 then (20 + wr, s2\<lparr>world := w\<rparr>)
       else (0, put_finish e t n off len sc cx old (s2\<lparr>world := w\<rparr>)))"
    unfolding put_store_def Let_def bi option.case ex prod.case bs1 s2_def [symmetric] md by (rule refl)
  then have s': "s' = put_finish e t n off len sc cx old (s2\<lparr>world := w\<rparr>)"
    using assms(2,3) wr ar by (auto split: if_splits)
  have sh': "shape e (s2\<lparr>world := w\<rparr>) = shape e s1" "tag_blob_name_to_info (s2\<lparr>world := w\<rparr>) = tag_blob_name_to_info s1"
    by (simp_all add: shape_def s2_def fun_eq_iff)
  note fin = put_finish_log [OF _ s', unfolded sh']
  have fin': "shape e s' = shape e s1" "ml_inv (e_hash_str e) (tag_blob_name_to_info s')" "blob_txn_logs s' = blob_txn_logs s2"
    using fin x by simp_all
  let ?xs = "if ?bs \<noteq> [] then [Extended t n ?bs] else []"
  have "logged e ?xs s s2"
  proof (cases "?bs = []")
    case True
    have "shape e s1 = shape e s" unfolding sh True using True bi by (simp add: shape_def fun_eq_iff)
    then show ?thesis using True x by (auto simp: logged_def s2_def)
  next
    case False
    have a: "shape e s1 = apply_txn (\<lambda>_. True) (shape e s) (Extended t n ?bs)"
      unfolding sh using bi by (simp add: shape_def fun_eq_iff)
    show ?thesis using logged_one [OF _ a, of kExtendBlob] False x by (simp add: s2_def)
  qed
  moreover have "shape e s2 = shape e s1" by (simp add: shape_def s2_def fun_eq_iff)
  ultimately have "logged e ?xs s s'" using fin' by (metis logged_cong)
  moreover have "\<forall>x \<in> set ?xs. put_txn e t n s' x" by (simp add: fin'(1) sh)
  ultimately show ?thesis by blast
qed

lemma PutBlob_log:
  assumes "ml_inv (e_hash_str e) (tag_blob_name_to_info s)" and "PutBlob e t n off len dat sc cx s = (rc, s')" and "rc = 0"
  shows "\<exists>xs. logged e xs s s' \<and> (\<forall>x \<in> set xs. put_txn e t n s' x)"
proof -
  let ?k = "composite_key t n"
  have store: ?thesis if l: "logged e [x] s s1" and x: "put_txn e t n s' x" and p: "put_store e t n off len d sc' cx old s1 = (rc, s')"
    for x s1 d sc' old
  proof -
    have "ml_inv (e_hash_str e) (tag_blob_name_to_info s1)" using l by (simp add: logged_def)
    from put_store_log [OF this p assms(3)] obtain xs where "logged e xs s1 s'" "\<forall>x \<in> set xs. put_txn e t n s' x" by blast
    then have "logged e ([x] @ xs) s s'" "\<forall>y \<in> set ([x] @ xs). put_txn e t n s' y"
      using x by (auto intro: logged_trans [OF l, simplified])
    then show ?thesis by blast
  qed
  obtain d sc' where d: "dat = Some d" "n \<noteq> []" "PutBlob e t n off len dat sc cx s =
      (case CheckBlobExists e n t s of
         Some bi \<Rightarrow> (case ClearBlob e ?k bi sc' off len s of (was_cleared, s1) \<Rightarrow>
           if was_cleared then put_store e t n off len d sc' cx 0 (log_blob e kClearBlob (blob_ref t n) s1)
           else put_store e t n off len d sc' cx (GetTotalSize bi) s1)
       | None \<Rightarrow> (case CreateNewBlob e n t sc' s of (created, s1) \<Rightarrow>
           if \<not> created then (5, s1) else put_store e t n off len d sc' cx 0 s1))"
    using assms(2,3) by (auto simp: PutBlob_def Let_def split: if_splits option.splits)
  show ?thesis
  proof (cases "CheckBlobExists e n t s")
    case None
    let ?bi = "(BlobInfo_new (e_now e))\<lparr>bi_blob_name := n, bi_score := sc'\<rparr>"
    let ?s0 = "s\<lparr>tag_blob_name_to_info := snd (ml_insert_or_assign (e_hash_str e) ?k ?bi (tag_blob_name_to_info s))\<rparr>"
    let ?pl = "put_CreateNewBlob \<lparr>cn_tag_major = id_major t, cn_tag_minor = id_minor t, cn_blob_name = n, cn_score = sc'\<rparr>"
    have l: "logged e [Created t n sc'] s (log_blob e kCreateNewBlob ?pl ?s0)"
      by (rule logged_one) (use assms(1) in \<open>simp_all add: shape_upd ll.invar_upd BlobInfo_new_def\<close>)
    have "put_store e t n off len d sc' cx 0 (log_blob e kCreateNewBlob ?pl ?s0) = (rc, s')"
      using assms(2) d None by (simp add: CreateNewBlob_def Let_def)
    from store [OF l _ this] show ?thesis by simp
  next
    case (Some bi)
    obtain cl s1 where c: "ClearBlob e ?k bi sc' off len s = (cl, s1)" by fastforce
    show ?thesis
    proof (cases cl)
      case True
      obtain fr where f: "FreeAllBlobBlocks e ?k bi s = (fr, s1)"
        using c True by (auto simp: ClearBlob_def Let_def split: if_splits prod.splits)
      note fl = FreeAllBlobBlocks_log [OF assms(1) f]
      have l: "logged e [Cleared t n] s (log_blob e kClearBlob (blob_ref t n) s1)"
        by (rule logged_one) (use fl in simp_all)
      have "put_store e t n off len d sc' cx 0 (log_blob e kClearBlob (blob_ref t n) s1) = (rc, s')"
        using assms(2) d Some c True by simp
      from store [OF l _ this] show ?thesis by simp
    next
      case False
      then have s1: "s1 = s" using c by (auto simp: ClearBlob_def FreeAllBlobBlocks_def Let_def split: if_splits)
      have "put_store e t n off len d sc' cx (GetTotalSize bi) s = (rc, s')" using assms(2) d Some c False s1 by simp
      from put_store_log [OF assms(1) this assms(3)] show ?thesis .
    qed
  qed
qed

lemma DelBlob_log:
  assumes "ml_inv (e_hash_str e) (tag_blob_name_to_info s)" and "DelBlob e t n s = (rc, s')"
  shows "logged e (if rc = 0 then [Deleted t n] else []) s s'"
proof (cases "CheckBlobExists e n t s")
  case None
  then have "rc = 1" "s' = s" using assms(2) by (auto simp: DelBlob_def split: if_splits)
  then show ?thesis using assms(1) by (simp add: logged_unchanged)
next
  case (Some bi)
  let ?k = "composite_key t n"
  obtain fr s1 where f: "FreeAllBlobBlocks e ?k bi s = (fr, s1)" by fastforce
  note fl = FreeAllBlobBlocks_log [OF assms(1) f]
  have n: "n \<noteq> []" using Some by (auto simp: CheckBlobExists_def)
  obtain g a b c d x y z where s': "rc = 0" "s' = log_blob e kDelBlob (blob_ref t n) (LogTelemetry a b c d x y z
      ((with_tag e t g s1)\<lparr>tag_blob_name_to_info := snd (ml_erase (e_hash_str e) ?k (tag_blob_name_to_info s1))\<rparr>))"
    using assms(2) Some n f by (auto simp: DelBlob_def Let_def)
  let ?s2 = "s1\<lparr>tag_blob_name_to_info := snd (ml_erase (e_hash_str e) ?k (tag_blob_name_to_info s1))\<rparr>"
  have sh: "shape e ?s2 = (shape e s)(?k := None)" using shape_upd(3) [of e s1 ?k] fl by simp
  have "logged e [Deleted t n] s s'" unfolding s'(2)
  proof (rule logged_one)
    show "ml_inv (e_hash_str e) (tag_blob_name_to_info (LogTelemetry a b c d x y z ((with_tag e t g s1)\<lparr>tag_blob_name_to_info :=
        snd (ml_erase (e_hash_str e) ?k (tag_blob_name_to_info s1))\<rparr>)))" using fl by (simp add: ll.invar_del)
    show "shape e (LogTelemetry a b c d x y z ((with_tag e t g s1)\<lparr>tag_blob_name_to_info :=
        snd (ml_erase (e_hash_str e) ?k (tag_blob_name_to_info s1))\<rparr>)) = apply_txn (\<lambda>_. True) (shape e s) (Deleted t n)"
      using sh by (simp add: shape_def fun_eq_iff)
  qed (use fl in simp_all)
  then show ?thesis using s'(1) by simp
qed

lemma touch_log:
  assumes "ml_inv (e_hash_str e) (tag_blob_name_to_info s)"
    and "tag_blob_name_to_info s' = ml_modify (e_hash_str e) k (\<lambda>bi. bi\<lparr>bi_last_read := x\<rparr>) (tag_blob_name_to_info s)"
    and "blob_txn_logs s' = blob_txn_logs s"
  shows "logged e [] s s'"
proof -
  have "shape e s' = shape e (with_blob e k (\<lambda>bi. bi\<lparr>bi_last_read := x\<rparr>) s)" using assms(2) by (simp add: shape_def fun_eq_iff)
  also have "\<dots> = shape e s" using assms(1) by (simp add: shape_upd(2)) (simp add: shape_def fun_eq_iff)
  finally show ?thesis using assms by (simp add: logged_def ll.invar_modify)
qed

lemma GetBlob_log:
  assumes "ml_inv (e_hash_str e) (tag_blob_name_to_info s)" and "GetBlob e t n off len buf s = (rc, buf', s')"
  shows "logged e [] s s'"
proof -
  consider "tag_blob_name_to_info s' = tag_blob_name_to_info s" "blob_txn_logs s' = blob_txn_logs s"
    | "tag_blob_name_to_info s' = ml_modify (e_hash_str e) (composite_key t n) (\<lambda>bi. bi\<lparr>bi_last_read := e_now e\<rparr>)
        (tag_blob_name_to_info s)" "blob_txn_logs s' = blob_txn_logs s"
    using assms(2) by (auto simp: GetBlob_def Let_def split: if_splits option.splits prod.splits)
  then show ?thesis using logged_unchanged touch_log assms(1) by cases blast+
qed

lemma ReorganizeBlob_log:
  assumes "ml_inv (e_hash_str e) (tag_blob_name_to_info s)" and "ReorganizeBlob e t n sc s = (rc, s')" and "rc = 0"
  shows "\<exists>xs. logged e xs s s' \<and> (\<forall>x \<in> set xs. put_txn e t n s' x)"
proof -
  consider "s' = s" | off len buf g b s1 dat cx where "GetBlob e t n off len buf s = (g, b, s1)" "PutBlob e t n off len dat sc cx s1 = (0, s')"
    using assms(2,3) unfolding ReorganizeBlob_def by (auto simp: Let_def split: if_splits option.splits prod.splits)
  then show ?thesis
  proof cases
    case 1
    then have "logged e [] s s'" using logged_unchanged assms(1) by blast
    then show ?thesis by (intro exI [of _ "[]"]) simp
  next
    case 2
    note g = GetBlob_log [OF assms(1) 2(1)]
    then have "ml_inv (e_hash_str e) (tag_blob_name_to_info s1)" by (simp add: logged_def)
    from PutBlob_log [OF this 2(2) refl] obtain xs where xs: "logged e xs s1 s'" "\<forall>x \<in> set xs. put_txn e t n s' x" by blast
    from logged_trans [OF g xs(1)] xs(2) show ?thesis by auto
  qed
qed

lemma del_blobs_log:
  assumes "ml_inv (e_hash_str e) (tag_blob_name_to_info s)"
  shows "\<exists>xs. logged e xs s (foldl (\<lambda>s n. snd (DelBlob e t n s)) s names) \<and> set xs \<subseteq> Deleted t ` set names"
  using assms
proof (induction names arbitrary: s)
  case Nil
  then have "logged e [] s s" by (simp add: logged_unchanged)
  then show ?case by (intro exI [of _ "[]"]) simp
next
  case (Cons n names)
  obtain rc s1 where d: "DelBlob e t n s = (rc, s1)" by fastforce
  note l = DelBlob_log [OF Cons.prems d]
  then have "ml_inv (e_hash_str e) (tag_blob_name_to_info s1)" by (simp add: logged_def)
  from Cons.IH [OF this] obtain xs where xs: "logged e xs s1 (foldl (\<lambda>s n. snd (DelBlob e t n s)) s1 names)"
      "set xs \<subseteq> Deleted t ` set names" by blast
  have "set ((if rc = 0 then [Deleted t n] else []) @ xs) \<subseteq> Deleted t ` set (n # names)" using xs(2) by auto
  with logged_trans [OF l xs(1)] have "\<exists>xs. logged e xs s (foldl (\<lambda>s n. snd (DelBlob e t n s)) s1 names) \<and>
      set xs \<subseteq> Deleted t ` set (n # names)" by blast
  then show ?case by (simp add: d)
qed

text \<open>Records of bounded size: the names and the block lists of a state.\<close>

definition small :: "'w cte_env \<Rightarrow> 'w Cte \<Rightarrow> bool" where
  "small e s \<longleftrightarrow> (\<forall>k bi. find_blob e s k = Some bi \<longrightarrow> length (bi_blob_name bi) < 2 ^ 31 \<and> 56 * length (bi_blocks bi) < 2 ^ 31 - 16)"

fun small_request :: "request \<Rightarrow> bool" where
  "small_request (Put t n off len dat sc cx) \<longleftrightarrow> length n < 2 ^ 31"
| "small_request (Reorganize t n sc) \<longleftrightarrow> length n < 2 ^ 31"
| "small_request (Del t n) \<longleftrightarrow> length n < 2 ^ 31"
| "small_request _ \<longleftrightarrow> True"

fun put_succeeded :: "request \<Rightarrow> reply \<Rightarrow> bool" where
  "put_succeeded (Put t n off len dat sc cx) a \<longleftrightarrow> a = Code 0"
| "put_succeeded (Reorganize t n sc) a \<longleftrightarrow> a = Code 0"
| "put_succeeded _ a \<longleftrightarrow> True"

lemma put_txn_fits:
  assumes "small e s'" and "length n < 2 ^ 31" and "put_txn e t n s' x"
  shows "txn_fits x"
proof (cases x)
  case (Extended t' n' bs)
  then obtain bi where "find_blob e s' (composite_key t n) = Some bi" "bi_blocks bi = bs" "n' = n"
    using assms(3) by (auto simp: shape_def)
  then show ?thesis using assms(1,2) Extended unfolding small_def by fastforce
qed (use assms in simp_all)

lemma shape_at_moment: "shape (at_moment cfg n m) = shape cfg"
  by (simp add: shape_def fun_eq_iff)

lemma logged_at_moment: "logged (at_moment cfg n m) xs s s' = logged cfg xs s s'"
  by (simp add: logged_def shape_at_moment)

lemma small_at_moment: "small (at_moment cfg n m) s = small cfg s"
  by (simp add: small_def)

lemma DelTag_log:
  assumes "eng.cte_inv cfg n m s" and "DelTag (at_moment cfg n m) t name s = (rc, s')" and "small (at_moment cfg n m) s"
  shows "\<exists>xs. logged (at_moment cfg n m) xs s s' \<and> (\<forall>x \<in> set xs. txn_fits x)"
proof -
  let ?e = "at_moment cfg n m"
  note i = eng.cte_invD(2) [OF assms(1)]
  consider "s' = s" | t' info where "s' = del_tag_resolved ?e t' info s"
    using assms(2) by (auto simp: DelTag_def split: option.splits if_splits)
  then show ?thesis
  proof cases
    case 1
    then have "logged ?e [] s s'" using i by (simp add: logged_unchanged)
    then show ?thesis by (intro exI [of _ "[]"]) simp
  next
    case 2
    let ?s1 = "foldl (\<lambda>s n. snd (DelBlob ?e t' n s)) s (tag_blob_names t' s)"
    obtain xs where xs: "logged ?e xs s ?s1" "set xs \<subseteq> Deleted t' ` set (tag_blob_names t' s)" using del_blobs_log [OF i] by blast
    have tab: "tag_blob_name_to_info s' = tag_blob_name_to_info ?s1" unfolding 2 by (rule eng.del_tag_table(1) [OF assms(1)])
    have "blob_txn_logs s' = blob_txn_logs ?s1"
      unfolding 2 by (simp add: del_tag_resolved_def tag_blob_names_def [symmetric] Let_def erase_prefix_def split: option.split)
    then have "logged ?e xs s s'"
      using logged_cong [OF xs(1), of s'] tab xs(1) by (simp add: shape_def logged_def fun_eq_iff)
    moreover have "length b < 2 ^ 31" if "b \<in> set (tag_blob_names t' s)" for b
      using that assms(3) ll.in_entries_iff [OF i] unfolding tag_blob_names_def small_def by fastforce
    then have "\<forall>x \<in> set xs. txn_fits x" using xs(2) by fastforce
    ultimately show ?thesis by blast
  qed
qed

lemma manage_log:
  assumes "ml_inv (e_hash_str e) (tag_blob_name_to_info s)"
    and "serve e r s = (a, s')"
    and "r = Get_Or_Create_Tag name t \<or> r = Register name ty sz q p \<or> r = Unregister name \<or> r = Stat_Targets \<or>
      r = Tag_Size t \<or> r = Blob_Score t name \<or> r = Blob_Size t name \<or> r = Blob_Info t name"
  shows "logged e [] s s'"
proof -
  have stat: "tag_blob_name_to_info (foldl (stat_target e) s ps) = tag_blob_name_to_info s \<and>
      blob_txn_logs (foldl (stat_target e) s ps) = blob_txn_logs s" for ps
  proof (induction ps arbitrary: s)
    case (Cons p ps)
    have "tag_blob_name_to_info (stat_target e s p) = tag_blob_name_to_info s \<and> blob_txn_logs (stat_target e s p) = blob_txn_logs s"
      by (auto simp: stat_target_def split: option.splits prod.splits)
    with Cons show ?case by simp
  qed simp
  consider "tag_blob_name_to_info s' = tag_blob_name_to_info s" "blob_txn_logs s' = blob_txn_logs s"
    | k x where "tag_blob_name_to_info s' = ml_modify (e_hash_str e) k (\<lambda>bi. bi\<lparr>bi_last_read := x\<rparr>) (tag_blob_name_to_info s)"
        "blob_txn_logs s' = blob_txn_logs s"
    using assms(2,3) stat
    by (elim disjE) (auto simp: serve_def GetOrCreateTag_def GetOrAssignTagId_def GenerateNewTagId_def RegisterTarget_def
        UnregisterTarget_def StatTargets_def GetTagSize_def GetBlobScore_def GetBlobSize_def GetBlobInfo_def Let_def
        split: if_splits option.splits prod.splits)
  then show ?thesis using logged_unchanged touch_log assms(1) by cases blast+
qed

lemma serve_log:
  assumes "engine_inv cfg s" and "serve (at_moment cfg n m) r s = (a, s')" and "put_succeeded r a"
    and "small_request r" and "small cfg s" and "small cfg s'"
  shows "\<exists>xs. logged cfg xs s s' \<and> (\<forall>x \<in> set xs. txn_fits x)"
proof -
  let ?e = "at_moment cfg n m"
  have inv: "eng.cte_inv cfg n m s" using assms(1) by (simp add: eng_simps)
  note i = eng.cte_invD(2) [OF inv]
  have "\<exists>xs. logged ?e xs s s' \<and> (\<forall>x \<in> set xs. txn_fits x)"
  proof (cases r)
    case (Put t b off len dat sc cx)
    then have "PutBlob ?e t b off len dat sc cx s = (0, s')" using assms(2,3) by (auto simp: serve_def split: prod.splits)
    from PutBlob_log [OF i this refl] show ?thesis using put_txn_fits [of ?e s' b t] assms(4,6) Put by (auto simp: small_at_moment)
  next
    case (Get t b off len buf)
    then obtain rc buf' where "GetBlob ?e t b off len buf s = (rc, buf', s')" using assms(2) by (auto simp: serve_def split: prod.splits)
    from GetBlob_log [OF i this] show ?thesis by (intro exI [of _ "[]"]) simp
  next
    case (Del t b)
    then obtain rc where "DelBlob ?e t b s = (rc, s')" using assms(2) by (auto simp: serve_def split: prod.splits)
    note DelBlob_log [OF i this]
    moreover have "\<forall>x \<in> set (if rc = 0 then [Deleted t b] else []). txn_fits x" using assms(4) Del by simp
    ultimately show ?thesis by blast
  next
    case (Reorganize t b sc)
    then have "ReorganizeBlob ?e t b sc s = (0, s')" using assms(2,3) by (auto simp: serve_def split: prod.splits)
    from ReorganizeBlob_log [OF i this refl] show ?thesis
      using put_txn_fits [of ?e s' b t] assms(4,6) Reorganize by (auto simp: small_at_moment)
  next
    case (Delete_Tag t name)
    then obtain rc where "DelTag ?e t name s = (rc, s')" using assms(2) by (auto simp: serve_def split: prod.splits)
    from DelTag_log [OF inv this] assms(5) show ?thesis by (simp add: small_at_moment)
  qed (use manage_log [OF i assms(2)] in \<open>force intro: exI [of _ "[]"]\<close>)+
  then show ?thesis by (simp add: logged_at_moment)
qed

section \<open>Recovery from the log\<close>

text \<open>
  Runs of the engine in which every put succeeds and the records stay below
  their 32-bit length field.
\<close>

inductive logged_run :: "ram_world cte_env \<Rightarrow> nat \<Rightarrow> ram_world Cte \<Rightarrow> ram_world Cte \<Rightarrow> bool" for cfg n s0 where
  lr_start: "logged_run cfg n s0 s0"
| lr_step: "logged_run cfg n s0 s \<Longrightarrow> within_limits cfg r s \<Longrightarrow> serve (at_moment cfg n m) r s = (a, s') \<Longrightarrow>
    put_succeeded r a \<Longrightarrow> small_request r \<Longrightarrow> small cfg s' \<Longrightarrow> logged_run cfg n s0 s'"

lemma logged_run_log:
  assumes "logged_run cfg n s0 s" and "env_ok cfg" and "fresh_engine s0" and "blob_txn_logs s0 = [TL_Open path cap []]"
  shows "engine_inv cfg s \<and> small cfg s \<and> (\<exists>xs. (\<forall>x \<in> set xs. txn_fits x) \<and>
    shape cfg s = foldl (apply_txn (\<lambda>_. True)) Map.empty xs \<and>
    blob_txn_logs s = [(TL_Open path cap [])\<lparr>pending := encode_all (map txn_record xs)\<rparr>])"
  using assms(1)
proof induction
  case lr_start
  note i = fresh_engine_inv [OF assms(3), of cfg]
  have "find_blob cfg s0 k = None" for k using fun_cong [OF i(2), of k] by (simp add: blob_content_def)
  then show ?case using i(1) assms(4)
    by (auto simp: small_def shape_def fun_eq_iff TL_Open_def intro!: exI [of _ "[]"])
next
  case (lr_step s r m a s')
  from lr_step.IH obtain xs where xs: "\<forall>x \<in> set xs. txn_fits x" "shape cfg s = foldl (apply_txn (\<lambda>_. True)) Map.empty xs"
      "blob_txn_logs s = [(TL_Open path cap [])\<lparr>pending := encode_all (map txn_record xs)\<rparr>]" by blast
  have i: "engine_inv cfg s" "small cfg s" using lr_step.IH by blast+
  from serve_log [OF i(1) lr_step.hyps(3,4,5) i(2) lr_step.hyps(6)] obtain ys where
    ys: "logged cfg ys s s'" "\<forall>x \<in> set ys. txn_fits x" by blast
  have sh: "shape cfg s' = foldl (apply_txn (\<lambda>_. True)) Map.empty (xs @ ys)" using ys(1) xs(2) by (simp add: logged_def)
  have lg: "blob_txn_logs s' = [(TL_Open path cap [])\<lparr>pending := encode_all (map txn_record (xs @ ys))\<rparr>]"
    using ys xs(3) unfolding logged_def by (simp add: TL_Open_def)
  have "\<forall>x \<in> set (xs @ ys). txn_fits x" using xs(1) ys(2) by auto
  with sh lg serve_request [OF assms(2) i(1) lr_step.hyps(2,3)] lr_step.hyps(6) show ?case by blast
qed

lemma load_encode_all: "\<forall>r \<in> set rs. length (snd r) < 2 ^ 32 \<Longrightarrow> load_entries (encode_all rs) = rs"
  by (induction rs) (simp_all add: load_entries_encode)

lemma shape_minor [simp]: "shape e (s\<lparr>next_tag_id_minor := x\<rparr>) = shape e s"
  by (simp add: shape_def fun_eq_iff)

lemma recompute_shape: "shape e (recompute_sizes s) = shape e s"
  by (simp add: recompute_sizes_def shape_def fun_eq_iff)

lemma demo_logged_run:
  obtains s l where "logged_run demo_cfg 2 demo_engine s" and "blob_txn_logs s = [l]"
    and "shape demo_cfg s ''1.1.b'' = Some (''b'', [\<lparr>bb_client = demo_pool, bb_target_query = PoolQuery_Local,
      bb_target_offset = 0, bb_size = 3\<rparr>])"
proof -
  let ?b = "\<lparr>bb_client = demo_pool, bb_target_query = PoolQuery_Local, bb_target_offset = 0, bb_size = 3\<rparr>"
  obtain s1 s2 where r: "RegisterTarget demo_env ''r'' kRam 65536 PoolQuery_Local demo_pool demo_engine = (0, s1)"
    and p: "PutBlob demo_env demo_tag ''b'' 0 3 (Some demo_bytes) f32_one Context_default s1 = (0, s2)"
    and i1: "engine_inv demo_cfg s1" and cp: "within_limits demo_cfg demo_put s1"
    and en: "map (\<lambda>x. (fst x, bi_blob_name (snd x), bi_blocks (snd x))) (ml_entries (tag_blob_name_to_info s2)) = [(''1.1.b'', ''b'', [?b])]"
    by (rule demo_states)
  have f0: "find_blob demo_cfg demo_engine k = None" for k
    using fun_cong [OF fresh_engine_inv(2) [OF demo_fresh, of demo_cfg], of k] by (simp add: blob_content_def)
  have sr: "serve demo_env demo_register demo_engine = (Code 0, s1)" and sp: "serve demo_env demo_put s1 = (Code 0, s2)"
    by (simp_all add: serve_def r p)
  have i0: "ml_inv (e_hash_str demo_env) (tag_blob_name_to_info demo_engine)"
    by (simp add: demo_engine_def ml_inv_create)
  have "shape demo_cfg s1 = shape demo_cfg demo_engine"
    using manage_log [OF i0 sr, of "''r''" _ kRam 65536 PoolQuery_Local demo_pool] by (simp add: logged_def shape_at_moment)
  then have f1: "find_blob demo_cfg s1 k = None" for k using f0 by (simp add: shape_def fun_eq_iff)
  have i2: "ml_inv (e_hash_str demo_cfg) (tag_blob_name_to_info s2)"
    using serve_request [OF demo_env_ok i1 cp sp] by (simp add: engine_inv_def tables_ok_def)
  obtain bi where e2: "ml_entries (tag_blob_name_to_info s2) = [(''1.1.b'', bi)]" "bi_blob_name bi = ''b''" "bi_blocks bi = [?b]"
    using en by auto
  have f2: "find_blob demo_cfg s2 k = (if k = ''1.1.b'' then Some bi else None)" for k
    using ll.entries_lookup [OF i2] e2(1) by (metis map_of.simps fun_upd_apply fst_conv snd_conv)
  have sm: "small demo_cfg s1" "small demo_cfg s2" using f1 f2 e2 by (simp_all add: small_def)
  have c0: "within_limits demo_cfg demo_register demo_engine" by (simp add: within_limits_def)
  have run1: "logged_run demo_cfg 2 demo_engine s1" by (rule lr_step [OF lr_start c0 sr]) (simp_all add: sm)
  have run: "logged_run demo_cfg 2 demo_engine s2" by (rule lr_step [OF run1 cp sp]) (simp_all add: sm)
  have "blob_txn_logs demo_engine = [TL_Open ''m'' 0 []]" by (simp add: demo_engine_def)
  from logged_run_log [OF run demo_env_ok demo_fresh this] obtain l where "blob_txn_logs s2 = [l]" by blast
  then show thesis using that run f2 e2 by (simp add: shape_def)
qed



section \<open>Several logs\<close>

text \<open>What \<^verbatim>\<open>DelBlob\<close> does to the logs, for any number of them.\<close>

lemma DelBlob_logs:
  assumes "find_blob e s (composite_key t n) = Some bi" and "n \<noteq> []" and "DelBlob e t n s = (rc, s')"
  shows "rc = 0" and "blob_txn_logs s' = log_on_worker (e_worker_id e) kDelBlob (blob_ref t n) (blob_txn_logs s)"
  using assms by (auto simp: DelBlob_def CheckBlobExists_def FreeAllBlobBlocks_def Let_def log_blob_def free_pools_log)

text \<open>
  C27. With one log per worker the order between logs is lost: a blob that was
  created on worker 1 and deleted on worker 0 is gone before the restart and
  back after it, because the replay reads the deletion first.
\<close>

theorem deleted_blob_returns:
  assumes "blob_txn_logs s = [TL_Open p0 c0 [], TL_Open p1 c1 []]" and "ml_inv (e_hash_str e) (tag_blob_name_to_info s)"
    and "n \<noteq> []" and "length n < 2 ^ 31" and "path \<noteq> []" and "no_metadata e r0"
    and "CreateNewBlob (e\<lparr>e_worker_id := 1\<rparr>) n t sc s = (ok, s1)"
    and "DelBlob (e\<lparr>e_worker_id := 0\<rparr>) t n s1 = (rc, s2)"
  shows "rc = 0 \<and> find_blob e s2 (composite_key t n) = None \<and>
    find_blob e (ReplayTransactionLogs e path [] (map (\<lambda>l. disk (TL_Sync l)) (blob_txn_logs s2)) r0) (composite_key t n) \<noteq> None"
proof -
  let ?k = "composite_key t n" and ?bi = "(BlobInfo_new (e_now e))\<lparr>bi_blob_name := n, bi_score := sc\<rparr>"
  let ?c = "txn_record (Created t n sc)" and ?d = "txn_record (Deleted t n)"
  have fit: "txn_fits (Created t n sc)" "txn_fits (Deleted t n)" using assms(4) by simp_all
  have len: "length (snd ?c) < 2 ^ 32" "length (snd ?d) < 2 ^ 32" using txn_record_length [OF fit(1)] txn_record_length [OF fit(2)] by simp_all
  have s1: "tag_blob_name_to_info s1 = snd (ml_insert_or_assign (e_hash_str e) ?k ?bi (tag_blob_name_to_info s))"
      "blob_txn_logs s1 = [TL_Open p0 c0 [], (TL_Open p1 c1 [])\<lparr>pending := encode ?c\<rparr>]"
    using assms(1,3,7) len(1) by (auto simp: CreateNewBlob_def Let_def log_blob_def log_on_worker_def WriteRecord_encode TL_Open_def)
  have f1: "find_blob (e\<lparr>e_worker_id := 0\<rparr>) s1 ?k = Some ?bi" using ll.lookup_upd [OF assms(2)] by (simp add: s1)
  have i1: "ml_inv (e_hash_str (e\<lparr>e_worker_id := 0\<rparr>)) (tag_blob_name_to_info s1)" using assms(2) by (simp add: s1 ll.invar_upd)
  note dl = DelBlob_logs [OF f1 assms(3,8)]
  have "shape (e\<lparr>e_worker_id := 0\<rparr>) s2 ?k = None"
    using DelBlob_log [OF i1 assms(8)] dl(1) by (simp add: logged_def)
  then have gone: "find_blob e s2 ?k = None" by (simp add: shape_def)
  have "blob_txn_logs s2 = [(TL_Open p0 c0 [])\<lparr>pending := encode ?d\<rparr>, (TL_Open p1 c1 [])\<lparr>pending := encode ?c\<rparr>]"
    using dl(2) len(2) by (simp add: s1 log_on_worker_def WriteRecord_encode TL_Open_def)
  then have files: "map (\<lambda>l. disk (TL_Sync l)) (blob_txn_logs s2) = [encode ?d, encode ?c]" by (simp add: TL_Sync_def TL_Open_def)
  have load: "load_entries (encode ?d) = [?d]" "load_entries (encode ?c) = [?c]"
    using load_entries_encode [OF len(1), of "[]"] load_entries_encode [OF len(2), of "[]"] by simp_all
  have i0: "ml_inv (e_hash_str e) (tag_blob_name_to_info r0)" using assms(6) by (simp add: no_metadata_def tables_ok_def)
  let ?r = "replay_blob_entry e (replay_blob_entry e r0 ?d) ?c"
  have "shape e ?r ?k = Some (n, [])"
    using replay_txns [of "[Deleted t n, Created t n sc]" e r0] fit i0 by simp
  moreover have "shape e (ReplayTransactionLogs e path [] [encode ?d, encode ?c] r0) = shape e ?r"
    using assms(5) recompute_shape [of e ?r] by (simp add: ReplayTransactionLogs_def TL_Load_def TL_Open_def load Let_def del: txn_record.simps)
  ultimately have "shape e (ReplayTransactionLogs e path [] [encode ?d, encode ?c] r0) ?k = Some (n, [])" by simp
  then show ?thesis unfolding files using dl(1) gone by (auto simp: shape_def)
qed

theorem deleted_blob_returns_witness:
  "\<exists>s2. find_blob demo_cfg s2 (composite_key demo_tag ''b'') = None \<and>
     find_blob demo_cfg (ReplayTransactionLogs demo_cfg ''m'' [] (map (\<lambda>l. disk (TL_Sync l)) (blob_txn_logs s2)) demo_engine)
       (composite_key demo_tag ''b'') \<noteq> None"
proof -
  let ?s = "demo_engine\<lparr>blob_txn_logs := [TL_Open ''m.0'' 0 [], TL_Open ''m.1'' 0 []]\<rparr>"
  obtain ok s1 where c: "CreateNewBlob (demo_cfg\<lparr>e_worker_id := 1\<rparr>) ''b'' demo_tag f32_one ?s = (ok, s1)" by fastforce
  obtain rc s2 where d: "DelBlob (demo_cfg\<lparr>e_worker_id := 0\<rparr>) demo_tag ''b'' s1 = (rc, s2)" by fastforce
  have "blob_txn_logs ?s = [TL_Open ''m.0'' 0 [], TL_Open ''m.1'' 0 []]" by simp
  moreover have "ml_inv (e_hash_str demo_cfg) (tag_blob_name_to_info ?s)" by (simp add: demo_engine_def ml_inv_create)
  moreover have "no_metadata demo_cfg demo_engine"
    by (simp add: no_metadata_def tables_ok_def demo_engine_def ml_inv_create fun_eq_iff)
  ultimately show ?thesis using deleted_blob_returns [OF _ _ _ _ _ _ c d, of "''m.0''" 0 "''m.1''" 0 "''m''" demo_engine] by auto
qed

end
