(* ===== verification/Cte_Frame.thy ===== *)
theory Cte_Frame
  imports Cte_Store
begin

text \<open>
  What the handlers of the transfer engine leave alone. A blob request changes no
  blob but its own, no target's client, name or level and no tag's identifier;
  from this, the tables stay keyed consistently: a target is found under the
  pool its client addresses, a target's name leads to a target of that name, a
  tag is found under its own identifier and a blob under the key made of its
  tag and its name.
\<close>

section \<open>What handlers see of targets and tags\<close>

definition target_view :: "'w cte_env \<Rightarrow> 'w Cte \<Rightarrow> PoolId \<Rightarrow> (PoolId \<times> string \<times> PersistenceLevel) option" where
  "target_view e s p = map_option (\<lambda>t. (ti_bdev_client t, ti_target_name t, ti_persistence_level t)) (find_target e s p)"

lemma free_pool_view:
  assumes "tables_ok e s"
  shows "target_view e (free_pool e s x) = target_view e s \<and> tables_ok e (free_pool e s x)"
proof -
  obtain p q bs where x: "x = (p, q, bs)" by (cases x)
  obtain rc w1 where w1: "api_free (e_api e) p q bs (world s) = (rc, w1)" by fastforce
  have m: "ml_inv (e_hash_id e) (registered_targets s)" using assms by (simp add: tables_ok_def)
  show ?thesis using assms
    by (auto simp: x free_pool_def w1 Let_def target_view_def fun_eq_iff ll.lookup_modify [OF m] option.map_comp comp_def)
qed

lemma free_pools_view:
  "tables_ok e s \<Longrightarrow> target_view e (foldl (free_pool e) s ps) = target_view e s \<and> tables_ok e (foldl (free_pool e) s ps)"
  by (induction ps arbitrary: s) (simp_all add: free_pool_view)

lemma target_view_same: "registered_targets s' = registered_targets s \<Longrightarrow> target_view e s' = target_view e s"
  by (simp add: target_view_def fun_eq_iff)

section \<open>What a put leaves alone\<close>

text \<open>\<open>only k\<close>: a step that changes no blob but \<open>k\<close>, no target's client or level, and no tag's identifier.\<close>

definition tag_ids :: "'w cte_env \<Rightarrow> 'w Cte \<Rightarrow> TagId \<Rightarrow> TagId option" where
  "tag_ids e s t = map_option tg_tag_id (find_tag e s t)"

definition only :: "'w cte_env \<Rightarrow> string \<Rightarrow> 'w Cte \<Rightarrow> 'w Cte \<Rightarrow> bool" where
  "only e k s s' \<longleftrightarrow> tables_ok e s' \<and> target_name_to_id s' = target_name_to_id s \<and> target_view e s' = target_view e s \<and> target_count s' = target_count s \<and>
     tag_ids e s' = tag_ids e s \<and> (\<forall>k'. k' \<noteq> k \<longrightarrow> find_blob e s' k' = find_blob e s k')"

lemma only_trans: "only e k s s' \<Longrightarrow> only e k s' s'' \<Longrightarrow> only e k s s''"
  by (simp add: only_def)

lemma onlyI:
  assumes "tables_ok e s'" and "registered_targets s' = registered_targets s"
    and "tag_blob_name_to_info s' = tag_blob_name_to_info s" and "tag_id_to_info s' = tag_id_to_info s"
    and "target_name_to_id s' = target_name_to_id s"
  shows "only e k s s'"
  using assms target_view_same [OF assms(2), of e] by (simp add: only_def target_count_def tag_ids_def fun_eq_iff)

lemma only_refl: "tables_ok e s \<Longrightarrow> only e k s s"
  by (rule onlyI) simp_all

lemma only_with_blob: "tables_ok e s \<Longrightarrow> only e k s (with_blob e k f s)"
  using target_view_same [of "with_blob e k f s" s e]
  by (simp add: only_def target_count_def tables_ok_def ll.lookup_modify ll.invar_modify tag_ids_def fun_eq_iff)

lemma only_with_tag:
  assumes "tables_ok e s" and "\<And>info. tg_tag_id (f info) = tg_tag_id info"
  shows "only e k s (with_tag e t f s)"
proof -
  have m: "ml_inv (e_hash_id e) (tag_id_to_info s)" using assms(1) by (simp add: tables_ok_def)
  have "tag_ids e (with_tag e t f s) = tag_ids e s"
    by (rule ext) (simp add: tag_ids_def ll.lookup_modify [OF m] option.map_comp comp_def assms(2))
  then show ?thesis using assms(1) target_view_same [of "with_tag e t f s" s e] by (simp add: only_def target_count_def)
qed

lemma only_free_pools:
  assumes "tables_ok e s"
  shows "only e k s (foldl (free_pool e) s ps)"
proof -
  have "tag_blob_name_to_info (foldl (free_pool e) s ps) = tag_blob_name_to_info s \<and>
      target_count (foldl (free_pool e) s ps) = target_count s \<and>
      tag_id_to_info (foldl (free_pool e) s ps) = tag_id_to_info s \<and>
      target_name_to_id (foldl (free_pool e) s ps) = target_name_to_id s"
    using assms
  proof (induction ps arbitrary: s)
    case (Cons x ps)
    have "tag_blob_name_to_info (free_pool e s x) = tag_blob_name_to_info s \<and> target_count (free_pool e s x) = target_count s \<and>
        tag_id_to_info (free_pool e s x) = tag_id_to_info s \<and> target_name_to_id (free_pool e s x) = target_name_to_id s"
      using Cons.prems
      by (auto simp: free_pool_def Let_def target_count_def length_entries_modify tables_ok_def split: prod.splits)
    then show ?case using Cons.IH [of "free_pool e s x"] free_pool_view [OF Cons.prems, of x] by simp
  qed simp
  then show ?thesis using free_pools_view [OF assms, of ps] by (simp add: only_def tag_ids_def fun_eq_iff)
qed

lemma only_extend_loop:
  assumes "tables_ok e s" and "extend_loop e k ts rem s = (rem', s')"
  shows "only e k s s'"
  using assms
proof (induction ts arbitrary: s rem)
  case Nil
  then show ?case by (simp add: only_refl)
next
  case (Cons t ts)
  have w: "only e k s (s\<lparr>world := w\<rparr>)" for w using Cons.prems(1) by (intro onlyI) simp_all
  have b: "only e k s (with_blob e k f (s\<lparr>world := w\<rparr>))" for f w
    by (rule only_trans [OF w only_with_blob]) (use Cons.prems(1) in simp)
  have step: ?case if "only e k s s1" "extend_loop e k ts r s1 = (rem', s')" for s1 r
  proof (rule only_trans [OF that(1) Cons.IH [OF _ that(2)]])
    show "tables_ok e s1" using that(1) by (simp add: only_def)
  qed
  note r = only_refl [OF Cons.prems(1), of k]
  show ?case
  proof (cases "rem = 0 \<or> find_target e s (ti_bdev_client t) = None")
    case True
    then have "s' = s \<or> extend_loop e k ts rem s = (rem', s')" using Cons.prems(2) by (cases "rem = 0") simp_all
    then show ?thesis by (elim disjE) (simp add: r, rule step [OF r])
  next
    case False
    then obtain ti where ti: "rem \<noteq> 0" "find_target e s (ti_bdev_client t) = Some ti" by blast
    let ?n = "min rem (ti_remaining_space ti)"
    obtain a ti' w1 where al: "AllocateFromTarget (e_api e) ti ?n (world s) = (a, ti', w1)" by (metis prod.exhaust)
    show ?thesis
    proof (cases "?n = 0 \<or> a = None")
      case True
      then have "extend_loop e k ts rem s = (rem', s') \<or> extend_loop e k ts rem (s\<lparr>world := w1\<rparr>) = (rem', s')"
        using Cons.prems(2) ti al by (cases "?n = 0") (simp_all add: Let_def)
      then show ?thesis by (elim disjE) (rule step [OF r], assumption, rule step [OF w], assumption)
    next
      case got: False
      then obtain off where "a = Some off" by blast
      then have "extend_loop e k ts (rem - ?n) (with_blob e k (\<lambda>bi. bi\<lparr>bi_blocks := bi_blocks bi @
          [\<lparr>bb_client = ti_bdev_client ti, bb_target_query = ti_target_query ti, bb_target_offset = off, bb_size = ?n\<rparr>]\<rparr>)
          (s\<lparr>world := w1\<rparr>)) = (rem', s')"
        using Cons.prems(2) ti al got by (simp add: Let_def)
      then show ?thesis by (rule step [OF b])
    qed
  qed
qed

lemma only_ExtendBlob:
  assumes "tables_ok e s" and "ExtendBlob e k bi off len score l s = (rc, s')"
  shows "only e k s s'"
proof -
  have c: "only e k s (s\<lparr>round_robin_counter := c\<rparr>)" for c using assms(1) by (intro onlyI) simp_all
  have t: "tables_ok e (s\<lparr>round_robin_counter := c\<rparr>)" for c using assms(1) by simp
  from assms(2) have "s' = s \<or> (\<exists>c. s' = s\<lparr>round_robin_counter := c\<rparr>) \<or>
      (\<exists>c ts r r'. extend_loop e k ts r (s\<lparr>round_robin_counter := c\<rparr>) = (r', s'))"
    by (auto simp: ExtendBlob_def Let_def split: if_splits prod.splits)
  then show ?thesis using only_refl [OF assms(1), of k] c only_trans [OF c only_extend_loop [OF t]] by blast
qed

lemma only_put_finish:
  assumes "tables_ok e s"
  shows "only e (composite_key t n) s (put_finish e t n off len score cx old s)"
  unfolding put_finish_def Let_def
  by (rule only_trans [OF only_with_blob [OF assms] only_trans [OF only_with_tag onlyI]]) (use assms in simp_all)

lemma only_put_store:
  assumes "tables_ok e s" and "put_store e t n off len dat score cx old s = (rc, s')"
  shows "only e (composite_key t n) s s'"
proof (cases "find_blob e s (composite_key t n)")
  case None
  then show ?thesis using assms by (simp add: put_store_def only_refl)
next
  case (Some bi)
  let ?k = "composite_key t n"
  obtain ar s1 where ext: "ExtendBlob e ?k bi off len score (cx_min_persistence_level cx) s = (ar, s1)" by fastforce
  have o1: "only e ?k s s1" by (rule only_ExtendBlob [OF assms(1) ext])
  then have t1: "tables_ok e s1" by (simp add: only_def)
  let ?bs = "case find_blob e s1 ?k of Some bi1 \<Rightarrow> bi_blocks bi1 | None \<Rightarrow> []"
  define s2 where "s2 = (if ?bs \<noteq> [] then log_blob e kExtendBlob
      (put_ExtendBlob \<lparr>eb_tag_major = id_major t, eb_tag_minor = id_minor t, eb_blob_name = n,
         new_blocks = map txn_block ?bs\<rparr>) s1 else s1)"
  obtain wr w where md: "ModifyExistingData (e_api e) ?bs dat len off (world s2) = (wr, w)" by fastforce
  let ?s3 = "s2\<lparr>world := w\<rparr>"
  have o3: "only e ?k s ?s3" using t1 by (intro only_trans [OF o1] onlyI) (simp_all add: s2_def)
  have o4: "only e ?k s (put_finish e t n off len score cx old ?s3)"
    using o3 by (intro only_trans [OF o3] only_put_finish) (simp add: only_def)
  have "s' = s1 \<or> s' = ?s3 \<or> s' = put_finish e t n off len score cx old ?s3"
    using assms(2) [unfolded put_store_def Let_def Some option.case ext prod.case, folded s2_def, unfolded md prod.case]
    by (auto split: if_split_asm)
  then show ?thesis using o1 o3 o4 by blast
qed


lemma only_CreateNewBlob:
  assumes "tables_ok e s" and "CreateNewBlob e n t sc s = (ok, s')"
  shows "only e (composite_key t n) s s'"
proof (cases "n = []")
  case True
  then show ?thesis using assms by (simp add: CreateNewBlob_def only_refl)
next
  case False
  let ?s1 = "s\<lparr>tag_blob_name_to_info := snd (ml_insert_or_assign (e_hash_str e) (composite_key t n)
    ((BlobInfo_new (e_now e))\<lparr>bi_blob_name := n, bi_score := sc\<rparr>) (tag_blob_name_to_info s))\<rparr>"
  have o: "only e (composite_key t n) s ?s1" using assms(1) target_view_same [of ?s1 s e]
    by (simp add: only_def tables_ok_def ll.lookup_upd ll.invar_upd target_count_def tag_ids_def fun_eq_iff)
  then have "tables_ok e ?s1" by (simp add: only_def)
  then have "only e (composite_key t n) ?s1 s'" using assms(2) False by (intro onlyI) (auto simp: CreateNewBlob_def Let_def)
  with o show ?thesis by (rule only_trans)
qed

lemma only_FreeAllBlobBlocks:
  assumes "tables_ok e s" and "FreeAllBlobBlocks e k bi s = (rc, s')"
  shows "only e k s s'"
proof -
  have fp: "only e k s (foldl (free_pool e) s (blocks_by_pool (bi_blocks bi)))" by (rule only_free_pools [OF assms(1)])
  have s': "s' = with_blob e k (\<lambda>bi. bi\<lparr>bi_blocks := []\<rparr>) (foldl (free_pool e) s (blocks_by_pool (bi_blocks bi)))"
    using assms(2) by (simp add: FreeAllBlobBlocks_def)
  show ?thesis unfolding s' by (rule only_trans [OF fp only_with_blob]) (use fp in \<open>simp add: only_def\<close>)
qed

lemma only_log_blob: "tables_ok e s \<Longrightarrow> only e k s (log_blob e y pl s)"
  by (rule onlyI) simp_all

lemma only_LogTelemetry: "tables_ok e s \<Longrightarrow> only e k s (LogTelemetry a b c d x y z s)"
  by (rule onlyI) simp_all

lemma onlyD: "only e k s s' \<Longrightarrow> tables_ok e s'"
  by (simp add: only_def)

lemma only_PutBlob:
  assumes "tables_ok e s" and "PutBlob e t n off len data score cx s = (rc, s')"
  shows "only e (composite_key t n) s s'"
proof -
  let ?k = "composite_key t n"
  have put: "only e ?k s s'" if "only e ?k s s1" "put_store e t n off len dat sc cx old s1 = (rc, s')" for s1 dat sc old
    using only_trans [OF that(1) only_put_store [OF onlyD [OF that(1)] that(2)]] .
  have clear: "only e ?k s s1" if "ClearBlob e ?k bi sc off len s = (c, s1)" for bi sc c s1
    using that only_FreeAllBlobBlocks [OF assms(1)] only_refl [OF assms(1)]
    by (auto simp: ClearBlob_def split: if_splits prod.splits)
  have log: "only e ?k s (log_blob e y pl s1)" if "only e ?k s s1" for s1 y pl
    by (rule only_trans [OF that only_log_blob [OF onlyD [OF that]]])
  consider (same) "s' = s"
    | (new) ok s1 sc where "CreateNewBlob e n t sc s = (ok, s1)" "s' = s1 \<or> (\<exists>dat. put_store e t n off len dat sc cx 0 s1 = (rc, s'))"
    | (old) bi sc c s1 dat sz where "ClearBlob e ?k bi sc off len s = (c, s1)" "put_store e t n off len dat sc cx sz s1 = (rc, s')"
    | (cleared) bi sc c s1 dat sz y pl where "ClearBlob e ?k bi sc off len s = (c, s1)"
        "put_store e t n off len dat sc cx sz (log_blob e y pl s1) = (rc, s')"
    using assms(2) unfolding PutBlob_def Let_def by (auto split: if_splits option.splits prod.splits)
  then show ?thesis
  proof cases
    case same
    then show ?thesis using only_refl [OF assms(1)] by simp
  next
    case new
    note o = only_CreateNewBlob [OF assms(1) new(1)]
    from new(2) show ?thesis by (elim disjE exE) (simp add: o, rule put [OF o])
  next
    case old
    from put [OF clear [OF old(1)] old(2)] show ?thesis .
  next
    case cleared
    from put [OF log [OF clear [OF cleared(1)]] cleared(2)] show ?thesis .
  qed
qed

lemma only_touch:
  assumes "tables_ok e s"
  shows "only e k s (LogTelemetry a b c d x y z (with_blob e k f (s\<lparr>world := w\<rparr>)))"
    and "only e k s (LogTelemetry a b c d x y z (with_blob e k f s))"
proof -
  have w: "only e k s (s\<lparr>world := w\<rparr>)" using assms by (intro onlyI) simp_all
  note b = only_trans [OF w only_with_blob [OF onlyD [OF w], of k f]] and b' = only_with_blob [OF assms, of k f]
  show "only e k s (LogTelemetry a b c d x y z (with_blob e k f (s\<lparr>world := w\<rparr>)))"
    by (rule only_trans [OF b only_LogTelemetry [OF onlyD [OF b]]])
  show "only e k s (LogTelemetry a b c d x y z (with_blob e k f s))"
    by (rule only_trans [OF b' only_LogTelemetry [OF onlyD [OF b']]])
qed

lemma only_GetBlob:
  assumes "tables_ok e s" and "GetBlob e t n off len buf s = (rc, buf', s')"
  shows "only e (composite_key t n) s s'"
proof -
  have w: "only e (composite_key t n) s (s\<lparr>world := w\<rparr>)" for w using assms(1) by (intro onlyI) simp_all
  show ?thesis using assms only_touch [OF assms(1)] w only_refl [OF assms(1)]
    by (auto simp: GetBlob_def Let_def split: if_splits option.splits prod.splits)
qed

lemma only_erase:
  assumes "tables_ok e s"
  shows "only e k s (s\<lparr>tag_blob_name_to_info := snd (ml_erase (e_hash_str e) k (tag_blob_name_to_info s))\<rparr>)"
  using assms target_view_same [of "s\<lparr>tag_blob_name_to_info := snd (ml_erase (e_hash_str e) k (tag_blob_name_to_info s))\<rparr>" s e]
  by (simp add: only_def tables_ok_def ll.lookup_del ll.invar_del target_count_def tag_ids_def fun_eq_iff)

lemma only_DelBlob:
  assumes "tables_ok e s" and "DelBlob e t n s = (rc, s')"
  shows "only e (composite_key t n) s s'"
proof (cases "n = [] \<or> CheckBlobExists e n t s = None")
  case True
  then have "s' = s" using assms(2) by (cases "n = []") (auto simp: DelBlob_def)
  then show ?thesis using only_refl [OF assms(1)] by simp
next
  case False
  then obtain bi where bi: "n \<noteq> []" "CheckBlobExists e n t s = Some bi" by blast
  let ?k = "composite_key t n"
  obtain fr s1 where fr: "FreeAllBlobBlocks e ?k bi s = (fr, s1)" by fastforce
  have o1: "only e ?k s s1" by (rule only_FreeAllBlobBlocks [OF assms(1) fr])
  let ?f = "\<lambda>i. i\<lparr>tg_total_size := if GetTotalSize bi \<le> tg_total_size i then tg_total_size i - GetTotalSize bi else 0\<rparr>"
  let ?s2 = "with_tag e t ?f s1"
  have o2: "only e ?k s ?s2" by (rule only_trans [OF o1 only_with_tag [OF onlyD [OF o1]]]) simp
  let ?s3 = "?s2\<lparr>tag_blob_name_to_info := snd (ml_erase (e_hash_str e) ?k (tag_blob_name_to_info ?s2))\<rparr>"
  have o3: "only e ?k s ?s3" by (rule only_trans [OF o2 only_erase [OF onlyD [OF o2]]])
  have "s' = log_blob e kDelBlob (blob_ref t n)
      (LogTelemetry kDelBlobOp 0 (GetTotalSize bi) t (ComputeBlobHash t n) (e_now e) (e_now e) ?s3)"
    using assms(2) bi fr by (simp add: DelBlob_def Let_def)
  then show ?thesis using only_trans [OF o3 onlyI] onlyD [OF o3] by simp
qed

lemma only_DelBlobs:
  "tables_ok e s \<Longrightarrow> target_view e (foldl (\<lambda>s n. snd (DelBlob e t n s)) s names) = target_view e s \<and>
    tag_ids e (foldl (\<lambda>s n. snd (DelBlob e t n s)) s names) = tag_ids e s \<and>
    target_name_to_id (foldl (\<lambda>s n. snd (DelBlob e t n s)) s names) = target_name_to_id s \<and>
    tables_ok e (foldl (\<lambda>s n. snd (DelBlob e t n s)) s names)"
proof (induction names arbitrary: s)
  case (Cons n names)
  obtain rc s1 where d: "DelBlob e t n s = (rc, s1)" by fastforce
  have "only e (composite_key t n) s s1" by (rule only_DelBlob [OF Cons.prems d])
  then show ?case using Cons.IH [of s1] by (simp add: d only_def)
qed simp

lemma only_ReorganizeBlob:
  assumes "tables_ok e s" and "ReorganizeBlob e t n score s = (rc, s')"
  shows "only e (composite_key t n) s s'"
proof -
  let ?k = "composite_key t n"
  have put: "only e ?k s s'" if "only e ?k s s1" "PutBlob e t n off len data sc cx s1 = (c, s')" for s1 off len data sc cx c
    using only_trans [OF that(1) only_PutBlob [OF onlyD [OF that(1)] that(2)]] .
  consider "s' = s"
    | off len buf c buf' where "GetBlob e t n off len buf s = (c, buf', s')"
    | off len buf c buf' s1 off' len' data sc cx c' where "GetBlob e t n off len buf s = (c, buf', s1)"
        "PutBlob e t n off' len' data sc cx s1 = (c', s')"
    using assms(2) unfolding ReorganizeBlob_def Let_def by (auto split: if_splits option.splits prod.splits)
  then show ?thesis
  proof cases
    case 1
    then show ?thesis using only_refl [OF assms(1)] by simp
  next
    case 2
    then show ?thesis by (rule only_GetBlob [OF assms(1)])
  next
    case 3
    from put [OF only_GetBlob [OF assms(1) 3(1)] 3(2)] show ?thesis .
  qed
qed

section \<open>Consistent keys\<close>

definition targets_keyed :: "'w cte_env \<Rightarrow> 'w Cte \<Rightarrow> bool" where
  "targets_keyed e s \<longleftrightarrow> (\<forall>p q v. target_view e s p = Some (q, v) \<longrightarrow> q = p)"

definition names_keyed :: "'w cte_env \<Rightarrow> 'w Cte \<Rightarrow> bool" where
  "names_keyed e s \<longleftrightarrow> (\<forall>name p. ml_find (e_hash_str e) (target_name_to_id s) name = Some p \<longrightarrow>
     (\<exists>q v. target_view e s p = Some (q, name, v)))"

definition tags_keyed :: "'w cte_env \<Rightarrow> 'w Cte \<Rightarrow> bool" where
  "tags_keyed e s \<longleftrightarrow> (\<forall>t i. tag_ids e s t = Some i \<longrightarrow> i = t)"

definition keyed :: "'w cte_env \<Rightarrow> 'w Cte \<Rightarrow> bool" where
  "keyed e s \<longleftrightarrow> tables_ok e s \<and> targets_keyed e s \<and> names_keyed e s \<and> tags_keyed e s"

lemma keyed_same:
  assumes "keyed e s" and "tables_ok e s'" and "target_view e s' = target_view e s"
    and "target_name_to_id s' = target_name_to_id s" and "tag_ids e s' = tag_ids e s"
  shows "keyed e s'"
  using assms by (simp add: keyed_def targets_keyed_def names_keyed_def tags_keyed_def)

lemma keyed_only: "keyed e s \<Longrightarrow> only e k s s' \<Longrightarrow> keyed e s'"
  by (rule keyed_same) (simp_all add: only_def)

lemma keyed_RegisterTarget:
  assumes "keyed e s" and "RegisterTarget e name ty sz q p s = (rc, s')"
  shows "keyed e s'"
proof -
  have t: "tables_ok e s" using assms(1) by (simp add: keyed_def)
  have w: "keyed e (s\<lparr>world := w\<rparr>)" for w
    using assms(1) by (rule keyed_same) (use t in \<open>simp_all add: target_view_def tag_ids_def fun_eq_iff\<close>)
  consider w where "s' = s\<lparr>world := w\<rparr>"
    | i ti w where "find_target e s i = None" "ti_bdev_client ti = i" "ti_target_name ti = name"
        "s' = s\<lparr>world := w, registered_targets := snd (ml_insert_or_assign (e_hash_id e) i ti (registered_targets s)),
           target_name_to_id := snd (ml_insert_or_assign (e_hash_str e) name i (target_name_to_id s))\<rparr>"
  proof -
    obtain rc1 i w1 where c: "api_create (e_api e) (PoolQuery_Dynamic neg_one_f) name p ty sz (world s) = (rc1, i, w1)"
      by (metis prod.exhaust)
    obtain pm r w2 where st: "api_stats (e_api e) i w1 = (pm, r, w2)" by (metis prod.exhaust)
    let ?s2 = "s\<lparr>world := w2\<rparr>" and ?ms = "GetManualScoreForTarget name (s\<lparr>world := w2\<rparr>)"
    let ?ti = "\<lparr>ti_target_name = name, ti_bdev_pool_name = name, ti_bdev_client = i, ti_target_query = q, ti_bytes_read = 0,
      ti_bytes_written = 0, ti_ops_read = 0, ti_ops_written = 0,
      ti_target_score = (if f32_le f32_zero ?ms then ?ms else f32_zero), ti_remaining_space = sz, ti_perf_metrics = pm,
      ti_persistence_level = GetPersistenceLevelForTarget name ?s2\<rparr>"
    show thesis
    proof (cases "rc1 \<noteq> 0 \<or> find_target e s i \<noteq> None")
      case True
      then have "s' = s\<lparr>world := w1\<rparr>" using assms(2) by (auto simp: RegisterTarget_def c Let_def split: if_splits)
      then show thesis by (rule that(1))
    next
      case False
      then show thesis using assms(2) by (intro that(2) [of i ?ti w2]) (simp_all add: RegisterTarget_def c st Let_def)
    qed
  qed
  then show ?thesis
  proof cases
    case 1
    then show ?thesis using w by simp
  next
    case (2 i ti w)
    have m: "ml_inv (e_hash_id e) (registered_targets s)" "ml_inv (e_hash_str e) (target_name_to_id s)"
      using t by (simp_all add: tables_ok_def)
    have v: "target_view e s' = (target_view e s)(i \<mapsto> (i, name, ti_persistence_level ti))"
      by (rule ext) (simp add: 2(4) target_view_def ll.lookup_upd [OF m(1)] 2(2,3))
    have nm: "ml_find (e_hash_str e) (target_name_to_id s') = (ml_find (e_hash_str e) (target_name_to_id s))(name \<mapsto> i)"
      by (rule ext) (simp add: 2(4) ll.lookup_upd [OF m(2)])
    have fresh: "target_view e s i = None" using 2(1) by (simp add: target_view_def)
    have "tables_ok e s'" using t m by (simp add: 2(4) tables_ok_def ll.invar_upd)
    moreover have "targets_keyed e s'" using assms(1) by (simp add: keyed_def targets_keyed_def v)
    moreover have "names_keyed e s'" unfolding names_keyed_def nm v
    proof (intro allI impI)
      fix nam p assume a: "((ml_find (e_hash_str e) (target_name_to_id s))(name \<mapsto> i)) nam = Some p"
      show "\<exists>q va. ((target_view e s)(i \<mapsto> (i, name, ti_persistence_level ti))) p = Some (q, nam, va)"
      proof (cases "nam = name")
        case True
        then show ?thesis using a by simp
      next
        case False
        then have "ml_find (e_hash_str e) (target_name_to_id s) nam = Some p" using a by simp
        then obtain q va where "target_view e s p = Some (q, nam, va)"
          using assms(1) unfolding keyed_def names_keyed_def by blast
        then show ?thesis using fresh by (cases "p = i") simp_all
      qed
    qed
    moreover have "tag_ids e s' = tag_ids e s" by (simp add: 2(4) tag_ids_def fun_eq_iff)
    ultimately show ?thesis using assms(1) by (simp add: keyed_def tags_keyed_def)
  qed
qed

lemma keyed_UnregisterTarget:
  assumes "keyed e s" and "UnregisterTarget e name s = (rc, s')"
  shows "keyed e s'"
proof -
  have t: "tables_ok e s" using assms(1) by (simp add: keyed_def)
  consider "s' = s"
    | i where "ml_find (e_hash_str e) (target_name_to_id s) name = Some i"
        "s' = s\<lparr>registered_targets := snd (ml_erase (e_hash_id e) i (registered_targets s)),
           target_name_to_id := snd (ml_erase (e_hash_str e) name (target_name_to_id s))\<rparr>"
    using assms(2) by (auto simp: UnregisterTarget_def split: option.splits if_splits)
  then show ?thesis
  proof cases
    case 1
    then show ?thesis using assms(1) by simp
  next
    case (2 i)
    have m: "ml_inv (e_hash_id e) (registered_targets s)" "ml_inv (e_hash_str e) (target_name_to_id s)"
      using t by (simp_all add: tables_ok_def)
    have v: "target_view e s' = (target_view e s)(i := None)"
      by (rule ext) (simp add: 2(2) target_view_def ll.lookup_del [OF m(1)])
    have nm: "ml_find (e_hash_str e) (target_name_to_id s') = (ml_find (e_hash_str e) (target_name_to_id s))(name := None)"
      by (rule ext) (simp add: 2(2) ll.lookup_del [OF m(2)])
    have named: "\<exists>q v. target_view e s p = Some (q, nam, v)"
      if "ml_find (e_hash_str e) (target_name_to_id s) nam = Some p" for nam p
      using assms(1) that unfolding keyed_def names_keyed_def by blast
    have "names_keyed e s'" unfolding names_keyed_def nm v
    proof (intro allI impI)
      fix nam p assume a: "((ml_find (e_hash_str e) (target_name_to_id s))(name := None)) nam = Some p"
      then have n: "nam \<noteq> name" "ml_find (e_hash_str e) (target_name_to_id s) nam = Some p" by (auto split: if_splits)
      obtain q w where q: "target_view e s p = Some (q, nam, w)" using named [OF n(2)] by blast
      obtain q' w' where "target_view e s i = Some (q', name, w')" using named [OF 2(1)] by blast
      then have "p \<noteq> i" using q n(1) by auto
      then show "\<exists>q v. ((target_view e s)(i := None)) p = Some (q, nam, v)" using q by simp
    qed
    moreover have "tables_ok e s'" using t m by (simp add: 2(2) tables_ok_def ll.invar_del)
    moreover have "targets_keyed e s'" using assms(1) by (simp add: keyed_def targets_keyed_def v)
    moreover have "tag_ids e s' = tag_ids e s" by (simp add: 2(2) tag_ids_def fun_eq_iff)
    ultimately show ?thesis using assms(1) by (simp add: keyed_def tags_keyed_def)
  qed
qed

lemma keyed_stat_target:
  assumes "keyed e s"
  shows "keyed e (stat_target e s p)"
proof (cases "find_target e s p")
  case None
  then show ?thesis using assms by (simp add: stat_target_def)
next
  case (Some t)
  obtain m r w1 where st: "api_stats (e_api e) (ti_bdev_client t) (world s) = (m, r, w1)" by (metis prod.exhaust)
  let ?s' = "stat_target e s p"
  have mi: "ml_inv (e_hash_id e) (registered_targets s)" using assms by (simp add: keyed_def tables_ok_def)
  have "ti_bdev_client (updated_stats e s m r t) = ti_bdev_client t \<and> ti_target_name (updated_stats e s m r t) = ti_target_name t \<and>
      ti_persistence_level (updated_stats e s m r t) = ti_persistence_level t" for t
    by (simp add: updated_stats_def Let_def)
  then have "target_view e ?s' = target_view e s"
    by (intro ext) (simp add: stat_target_def Some st target_view_def ll.lookup_modify [OF mi] option.map_comp comp_def)
  then show ?thesis using assms
    by (elim keyed_same) (use assms in \<open>simp_all add: keyed_def stat_target_def Some st tag_ids_def fun_eq_iff\<close>)
qed

lemma keyed_StatTargets: "keyed e s \<Longrightarrow> keyed e (foldl (stat_target e) s ps)"
  by (induction ps arbitrary: s) (simp_all add: keyed_stat_target)

lemma keyed_tag_insert:
  assumes "keyed e s" and "tg_tag_id info = i"
    and "s' = s\<lparr>next_tag_id_minor := nm, tag_name_to_id := snd (ml_insert_or_assign (e_hash_str e) name i (tag_name_to_id s)),
      tag_id_to_info := snd (ml_insert_or_assign (e_hash_id e) i info (tag_id_to_info s))\<rparr>"
  shows "keyed e s'"
proof -
  have m: "ml_inv (e_hash_id e) (tag_id_to_info s)" using assms(1) by (simp add: keyed_def tables_ok_def)
  have "tag_ids e s' = (tag_ids e s)(i \<mapsto> i)"
    by (rule ext) (simp add: assms(2,3) tag_ids_def ll.lookup_upd [OF m])
  moreover have "target_view e s' = target_view e s" "target_name_to_id s' = target_name_to_id s" "tables_ok e s'"
    using assms(1) by (simp_all add: assms(3) target_view_def fun_eq_iff keyed_def tables_ok_def ll.invar_upd)
  ultimately show ?thesis using assms(1)
    by (simp add: keyed_def targets_keyed_def names_keyed_def tags_keyed_def)
qed

lemma keyed_log_tag: "keyed e (log_tag e y pl s) = keyed e s"
  by (simp add: keyed_def targets_keyed_def names_keyed_def tags_keyed_def target_view_def tag_ids_def)

lemma keyed_GetOrAssignTagId:
  assumes "keyed e s" and "GetOrAssignTagId e name i s = (t, s')"
  shows "keyed e s'"
proof (cases "ml_find (e_hash_str e) (tag_name_to_id s) name")
  case None
  define info where "info j = (TagInfo_new (e_now e))\<lparr>tg_tag_name := name, tg_tag_id := j\<rparr>" for j
  have i: "tg_tag_id (info j) = j" for j by (simp add: info_def)
  let ?upd = "\<lambda>nm j. s\<lparr>next_tag_id_minor := nm,
    tag_name_to_id := snd (ml_insert_or_assign (e_hash_str e) name j (tag_name_to_id s)),
    tag_id_to_info := snd (ml_insert_or_assign (e_hash_id e) j (info j) (tag_id_to_info s))\<rparr>"
  have "\<exists>nm j y pl. s' = log_tag e y pl (?upd nm j)"
  proof (cases "(id_major i \<noteq> 0 \<or> id_minor i \<noteq> 0) \<and> \<not> ml_contains (e_hash_id e) (tag_id_to_info s) i")
    case True
    then have "s' = log_tag e kCreateTag (tag_ref name i) (?upd (next_tag_id_minor s) i)"
      using assms(2) None by (auto simp: GetOrAssignTagId_def Let_def info_def)
    then show ?thesis by blast
  next
    case False
    let ?j = "\<lparr>id_major = e_node_id e, id_minor = next_tag_id_minor s\<rparr>"
    have "s' = log_tag e kCreateTag (tag_ref name ?j) (?upd (next_tag_id_minor s + 1) ?j)"
      using assms(2) None False unfolding GetOrAssignTagId_def GenerateNewTagId_def Let_def if_not_P [OF False]
      by (auto simp: info_def)
    then show ?thesis by blast
  qed
  then obtain nm j y pl where s': "s' = log_tag e y pl (?upd nm j)" by blast
  have "keyed e (?upd nm j)" by (rule keyed_tag_insert [OF assms(1) i refl])
  then show ?thesis unfolding s' keyed_log_tag .
qed (use assms in \<open>simp add: GetOrAssignTagId_def\<close>)

lemma keyed_GetOrCreateTag:
  assumes "keyed e s" and "GetOrCreateTag e name i s = (rc, t, s')"
  shows "keyed e s'"
proof (cases "id_major i \<noteq> 0 \<and> id_major i \<noteq> e_node_id e")
  case True
  have "keyed e (s\<lparr>tag_name_to_id := snd (ml_insert_or_assign (e_hash_str e) name i (tag_name_to_id s))\<rparr>)"
    using assms(1) by (rule keyed_same)
      (use assms(1) in \<open>simp_all add: keyed_def tables_ok_def ll.invar_upd target_view_def tag_ids_def fun_eq_iff\<close>)
  then show ?thesis using assms True by (auto simp: GetOrCreateTag_def split: option.splits)
next
  case False
  obtain j s1 where g: "GetOrAssignTagId e name i s = (j, s1)" by fastforce
  have k1: "keyed e s1" by (rule keyed_GetOrAssignTagId [OF assms(1) g])
  then have t1: "tables_ok e s1" by (simp add: keyed_def)
  let ?f = "\<lambda>t. t\<lparr>tg_last_read := e_now e\<rparr>"
  have o: "only e [] s1 (with_tag e j ?f s1)" by (rule only_with_tag [OF t1]) simp
  have "keyed e (LogTelemetry a b c d x y z (with_tag e j ?f s1))" for a b c d x y z
    using keyed_only [OF k1 only_trans [OF o only_LogTelemetry [OF onlyD [OF o]]]] .
  then show ?thesis using assms(2) False g k1 by (auto simp: GetOrCreateTag_def split: option.splits)
qed

lemma keyed_DelTag:
  assumes "keyed e s" and "DelTag e t name s = (rc, s')"
  shows "keyed e s'"
proof -
  have t0: "tables_ok e s" using assms(1) by (simp add: keyed_def)
  consider "s' = s" | i info where "s' = del_tag_resolved e i info s"
    using assms(2) by (auto simp: DelTag_def split: option.splits if_splits)
  then show ?thesis
  proof cases
    case 1
    then show ?thesis using assms(1) by simp
  next
    case (2 i info)
    let ?s1 = "foldl (\<lambda>s name. snd (DelBlob e i name s)) s (tag_blob_names i s)"
    note d = only_DelBlobs [OF t0, of i "tag_blob_names i s"]
    have er: "ml_inv h m \<Longrightarrow> ml_inv h (foldl (\<lambda>m k. snd (ml_erase h k m)) m ks)" for h m ks
      by (induction ks arbitrary: m) (simp_all add: ll.invar_del)
    have k1: "keyed e ?s1" using assms(1) by (rule keyed_same) (use d in blast)+
    have mi: "ml_inv (e_hash_id e) (tag_id_to_info ?s1)" using d by (simp add: tables_ok_def)
    have s': "tag_id_to_info s' = snd (ml_erase (e_hash_id e) i (tag_id_to_info ?s1))"
      "registered_targets s' = registered_targets ?s1" "target_name_to_id s' = target_name_to_id ?s1" "tables_ok e s'"
      using d er
      by (auto simp: 2 del_tag_resolved_def tag_blob_names_def [symmetric] Let_def erase_prefix_def tables_ok_def ll.invar_del
          split: option.split)
    have "tag_ids e s' = (tag_ids e ?s1)(i := None)"
      by (rule ext) (simp add: s' tag_ids_def ll.lookup_del [OF mi])
    then show ?thesis using k1 s'(3,4) target_view_same [OF s'(2), of e]
      by (simp add: keyed_def targets_keyed_def names_keyed_def tags_keyed_def)
  qed
qed

lemma serve_keyed:
  assumes "keyed e s" and "serve e r s = (a, s')"
  shows "keyed e s'"
proof (cases r)
  case (Put t n off len dat score cx)
  obtain rc s1 where p: "PutBlob e t n off len dat score cx s = (rc, s1)" by fastforce
  then show ?thesis using assms(2) keyed_only [OF assms(1) only_PutBlob [OF _ p]] assms(1) by (simp add: Put serve_def keyed_def)
next
  case (Get t n off len buf)
  obtain rc b s1 where p: "GetBlob e t n off len buf s = (rc, b, s1)" by (metis prod.exhaust)
  then show ?thesis using assms(2) keyed_only [OF assms(1) only_GetBlob [OF _ p]] assms(1) by (simp add: Get serve_def keyed_def)
next
  case (Del t n)
  obtain rc s1 where p: "DelBlob e t n s = (rc, s1)" by fastforce
  then show ?thesis using assms(2) keyed_only [OF assms(1) only_DelBlob [OF _ p]] assms(1) by (simp add: Del serve_def keyed_def)
next
  case (Reorganize t n sc)
  obtain rc s1 where p: "ReorganizeBlob e t n sc s = (rc, s1)" by fastforce
  then show ?thesis using assms(2) keyed_only [OF assms(1) only_ReorganizeBlob [OF _ p]] assms(1)
    by (simp add: Reorganize serve_def keyed_def)
next
  case (Delete_Tag t name)
  obtain rc s1 where p: "DelTag e t name s = (rc, s1)" by fastforce
  then show ?thesis using assms(2) keyed_DelTag [OF assms(1) p] by (simp add: Delete_Tag serve_def)
next
  case (Get_Or_Create_Tag name t)
  obtain rc i s1 where p: "GetOrCreateTag e name t s = (rc, i, s1)" by (metis prod.exhaust)
  then show ?thesis using assms(2) keyed_GetOrCreateTag [OF assms(1) p] by (simp add: Get_Or_Create_Tag serve_def)
next
  case (Register name ty sz q p)
  obtain rc s1 where p: "RegisterTarget e name ty sz q p s = (rc, s1)" by fastforce
  then show ?thesis using assms(2) keyed_RegisterTarget [OF assms(1) p] by (simp add: Register serve_def)
next
  case (Unregister name)
  obtain rc s1 where p: "UnregisterTarget e name s = (rc, s1)" by fastforce
  then show ?thesis using assms(2) keyed_UnregisterTarget [OF assms(1) p] by (simp add: Unregister serve_def)
next
  case Stat_Targets
  then show ?thesis using assms keyed_StatTargets by (auto simp: serve_def StatTargets_def)
next
  case (Tag_Size t)
  have t0: "tables_ok e s" using assms(1) by (simp add: keyed_def)
  have o: "only e [] s (with_tag e t (\<lambda>t. t\<lparr>tg_last_read := e_now e\<rparr>) s)" by (rule only_with_tag [OF t0]) simp
  note k = keyed_only [OF assms(1) only_trans [OF o only_LogTelemetry [OF onlyD [OF o]]]]
  show ?thesis using assms k by (auto simp: Tag_Size serve_def GetTagSize_def split: option.splits)
qed (use assms keyed_only [OF assms(1) only_touch(2)] keyed_only [OF assms(1) only_with_blob] in
    \<open>auto simp: serve_def GetBlobScore_def GetBlobSize_def GetBlobInfo_def keyed_def split: option.splits if_splits\<close>)

section \<open>Every reachable state\<close>

lemma keyed_at_moment: "keyed (at_moment cfg n m) s = keyed cfg s"
  by (simp add: keyed_def tables_ok_def targets_keyed_def names_keyed_def tags_keyed_def target_view_def tag_ids_def)

lemma keyed_fresh:
  assumes "fresh_engine s"
  shows "keyed cfg s"
proof -
  have "tables_ok cfg s" using fresh_engine_inv(1) [OF assms, of cfg] by (simp add: engine_inv_def)
  then show ?thesis using assms
    by (auto simp: fresh_engine_def keyed_def targets_keyed_def names_keyed_def tags_keyed_def target_view_def tag_ids_def)
qed

lemma engine_run_inv:
  assumes "env_ok cfg" and "fresh_engine s0" and "engine_run cfg n s0 True tr s"
  shows "engine_inv cfg s \<and> keyed cfg s"
proof -
  have "keyed cfg s" using assms(3)
  proof induction
    case (engine_step c tr s m r a s')
    have "keyed (at_moment cfg n m) s'"
      by (rule serve_keyed [OF _ engine_step.hyps(2)]) (use engine_step.IH in \<open>simp add: keyed_at_moment\<close>)
    then show ?case by (simp add: keyed_at_moment)
  qed (simp add: keyed_fresh [OF assms(2)])
  then show ?thesis using engine_run_store [OF assms] by simp
qed



end
