(* ===== verification/Cte_Flush.thy ===== *)
theory Cte_Flush
  imports Cte_Recovery Cte_Frame
begin

text \<open>
  Migration of volatile data (core\_runtime.cc, \<^verbatim>\<open>FlushData\<close>): every blob with a
  block on a target below the requested persistence level is read, its blocks on
  such targets are freed, and its bytes are put again with that level as the
  minimum. The handler has no catch clause: an exception of \<^verbatim>\<open>std::stoul\<close> on a
  key escapes it, here \<open>Inl\<close>.
\<close>

section \<open>Definitions\<close>

record FlushEntry =
  fe_composite_key :: string
  fe_blob_name :: string
  fe_tag_id :: TagId
  fe_total_size :: u64
  fe_score :: f32

definition below_level :: "'w cte_env \<Rightarrow> int \<Rightarrow> 'w Cte \<Rightarrow> PoolId \<Rightarrow> bool" where
  "below_level e target_level s p =
     (case find_target e s p of None \<Rightarrow> False | Some tinfo \<Rightarrow> persistence_code (ti_persistence_level tinfo) < target_level)"

definition flush_tag_id :: "string \<Rightarrow> parse_error + TagId" where
  "flush_tag_id key =
     (let not_dot = (\<lambda>c. c \<noteq> CHR ''.''); r = dropWhile not_dot key
      in if r = [] then Inr \<lparr>id_major = 0, id_minor = 0\<rparr>
         else if dropWhile not_dot (tl r) = [] then Inr \<lparr>id_major = 0, id_minor = 0\<rparr>
         else case stoul (takeWhile not_dot key) of Inl err \<Rightarrow> Inl err | Inr major \<Rightarrow>
              case stoul (takeWhile not_dot (tl r)) of Inl err \<Rightarrow> Inl err | Inr minor \<Rightarrow>
                Inr \<lparr>id_major = ucast major, id_minor = ucast minor\<rparr>)"

definition has_volatile_blocks :: "'w cte_env \<Rightarrow> int \<Rightarrow> 'w Cte \<Rightarrow> BlobInfo \<Rightarrow> bool" where
  "has_volatile_blocks e target_level s bi \<longleftrightarrow> list_ex (\<lambda>b. below_level e target_level s (bb_client b)) (bi_blocks bi)"

fun flush_candidates :: "'w cte_env \<Rightarrow> int \<Rightarrow> 'w Cte \<Rightarrow> (string \<times> BlobInfo) list \<Rightarrow> parse_error + FlushEntry list" where
  "flush_candidates e target_level s [] = Inr []"
| "flush_candidates e target_level s ((key, bi) # xs) =
     (if bi_blocks bi = [] then flush_candidates e target_level s xs
      else if \<not> has_volatile_blocks e target_level s bi then flush_candidates e target_level s xs
      else case flush_tag_id key of Inl err \<Rightarrow> Inl err | Inr t \<Rightarrow>
           case flush_candidates e target_level s xs of Inl err \<Rightarrow> Inl err | Inr es \<Rightarrow>
             Inr (\<lparr>fe_composite_key = key, fe_blob_name = bi_blob_name bi, fe_tag_id = t,
                   fe_total_size = GetTotalSize bi, fe_score = bi_score bi\<rparr> # es))"

text \<open>Freeing the volatile blocks of the blob at \<open>k\<close> and keeping the others.\<close>

definition free_volatile :: "'w cte_env \<Rightarrow> int \<Rightarrow> string \<Rightarrow> BlobBlock list \<Rightarrow> 'w Cte \<Rightarrow> 'w Cte" where
  "free_volatile e target_level k bs s =
     (let vol = (\<lambda>b. below_level e target_level s (bb_client b));
          s1 = foldl (free_pool e) s (blocks_by_pool (filter vol bs))
      in with_blob e k (\<lambda>bi. bi\<lparr>bi_blocks := filter (\<lambda>b. \<not> vol b) bs\<rparr>) s1)"

text \<open>One blob: the bytes and blobs flushed so far, and the state.\<close>

definition flush_blob :: "'w cte_env \<Rightarrow> int \<Rightarrow> u64 \<times> u64 \<times> 'w Cte \<Rightarrow> FlushEntry \<Rightarrow> u64 \<times> u64 \<times> 'w Cte" where
  "flush_blob e target_level r entry =
     (case r of (bytes_flushed, blobs_flushed, s) \<Rightarrow>
        case find_blob e s (fe_composite_key entry) of
          None \<Rightarrow> r
        | Some bi \<Rightarrow>
            if bi_blocks bi = [] then r
            else if fe_total_size entry = 0 then r
            else case e_AllocateBuffer e (fe_total_size entry) of
                   None \<Rightarrow> r
                 | Some buf \<Rightarrow>
                     (case ReadData (e_api e) (bi_blocks bi) buf (fe_total_size entry) 0 (world s) of
                        (read_error, buf', w') \<Rightarrow>
                          let s1 = s\<lparr>world := w'\<rparr>
                          in if read_error \<noteq> 0 then (bytes_flushed, blobs_flushed, s1)
                             else (case PutBlob e (fe_tag_id entry) (fe_blob_name entry) 0 (fe_total_size entry) (Some buf')
                                          (fe_score entry) (Context_default\<lparr>cx_min_persistence_level := target_level\<rparr>)
                                          (free_volatile e target_level (fe_composite_key entry) (bi_blocks bi) s1) of
                                     (put_rc, s2) \<Rightarrow>
                                       if put_rc \<noteq> 0 then (bytes_flushed, blobs_flushed, s2)
                                       else (bytes_flushed + fe_total_size entry, blobs_flushed + 1, s2))))"

definition FlushData :: "'w cte_env \<Rightarrow> int \<Rightarrow> 'w Cte \<Rightarrow> parse_error + (u32 \<times> u64 \<times> u64 \<times> 'w Cte)" where
  "FlushData e target_level s =
     (if filter (\<lambda>x. target_level \<le> persistence_code (ti_persistence_level (snd x))) (ml_entries (registered_targets s)) = []
      then Inr (0, 0, 0, s)
      else case flush_candidates e target_level s (ml_entries (tag_blob_name_to_info s)) of
             Inl err \<Rightarrow> Inl err
           | Inr es \<Rightarrow>
               (case foldl (flush_blob e target_level) (0, 0, s) es of
                  (bytes_flushed, blobs_flushed, s') \<Rightarrow> Inr (0, bytes_flushed, blobs_flushed, s')))"

section \<open>Keys and candidates\<close>

lemma takeWhile_no_dot: "CHR ''.'' \<notin> set a \<Longrightarrow> takeWhile (\<lambda>c. c \<noteq> CHR ''.'') (a @ CHR ''.'' # r) = a"
  by (induction a) auto

lemma dropWhile_no_dot: "CHR ''.'' \<notin> set a \<Longrightarrow> dropWhile (\<lambda>c. c \<noteq> CHR ''.'') (a @ CHR ''.'' # r) = CHR ''.'' # r"
  by (induction a) auto

lemma flush_tag_id_key: "flush_tag_id (composite_key t n) = Inr t"
  by (cases t) (simp add: flush_tag_id_def composite_key_def tag_prefix_def Let_def takeWhile_no_dot dropWhile_no_dot
      to_string_no_dot stoul_u32)

definition flush_entry :: "string \<times> BlobInfo \<Rightarrow> FlushEntry" where
  "flush_entry x = \<lparr>fe_composite_key = fst x, fe_blob_name = bi_blob_name (snd x),
     fe_tag_id = (case flush_tag_id (fst x) of Inr t \<Rightarrow> t | Inl _ \<Rightarrow> \<lparr>id_major = 0, id_minor = 0\<rparr>),
     fe_total_size = GetTotalSize (snd x), fe_score = bi_score (snd x)\<rparr>"

text \<open>The candidates: the entries with a volatile block, in the order of the table.\<close>

lemma flush_candidates_filter:
  assumes "\<forall>x \<in> set xs. \<exists>t. fst x = composite_key t (bi_blob_name (snd x))"
  shows "flush_candidates e l s xs = Inr (map flush_entry (filter (\<lambda>x. has_volatile_blocks e l s (snd x)) xs))"
  using assms by (induction xs) (auto simp: flush_tag_id_key flush_entry_def has_volatile_blocks_def)

lemma below_level_target: "below_level e l s p \<longleftrightarrow>
    (\<exists>q name v. target_view e s p = Some (q, name, v) \<and> persistence_code v < l)"
  by (cases "find_target e s p") (auto simp: below_level_def target_view_def)

section \<open>Where a put places its blocks\<close>

text \<open>The blocks \<open>extend_loop\<close> appends lie on the targets it is given.\<close>

definition placed_on :: "'w cte_env \<Rightarrow> 'w Cte \<Rightarrow> TargetInfo list \<Rightarrow> BlobBlock \<Rightarrow> bool" where
  "placed_on e s ts b \<longleftrightarrow>
     (\<exists>t \<in> set ts. \<exists>ti. find_target e s (ti_bdev_client t) = Some ti \<and> bb_client b = ti_bdev_client ti)"

lemma extend_loop_placed:
  assumes "ml_inv (e_hash_str e) (tag_blob_name_to_info s)" and "find_blob e s k = Some bi"
    and "extend_loop e k ts rem s = (rem', s')"
  shows "registered_targets s' = registered_targets s \<and> ml_inv (e_hash_str e) (tag_blob_name_to_info s') \<and>
    (\<exists>new. find_blob e s' k = Some (bi\<lparr>bi_blocks := bi_blocks bi @ new\<rparr>) \<and> (\<forall>b \<in> set new. placed_on e s ts b))"
  using assms
proof (induction ts arbitrary: s bi rem)
  case Nil
  then show ?case by (intro conjI exI [of _ "[]"]) auto
next
  case (Cons t ts)
  have wider: "placed_on e s ts b \<Longrightarrow> placed_on e s (t # ts) b" for b by (auto simp: placed_on_def)
  note skip = Cons.IH [OF Cons.prems(1,2)]
  have skip': ?case if "extend_loop e k ts rem s1 = (rem', s')" "registered_targets s1 = registered_targets s"
    "tag_blob_name_to_info s1 = tag_blob_name_to_info s" for s1
    using Cons.IH [of s1 bi rem] that Cons.prems(1,2) wider by (auto simp: placed_on_def)
  show ?case
  proof (cases "rem = 0")
    case True
    then show ?thesis using Cons.prems by (intro conjI exI [of _ "[]"]) auto
  next
    case False
    show ?thesis
    proof (cases "find_target e s (ti_bdev_client t)")
      case None
      then show ?thesis using skip' [of s] Cons.prems(3) False by simp
    next
      case (Some ti)
      let ?n = "min rem (ti_remaining_space ti)"
      obtain a ti' w1 where al: "AllocateFromTarget (e_api e) ti ?n (world s) = (a, ti', w1)" by (metis prod.exhaust)
      let ?s1 = "s\<lparr>world := w1\<rparr>"
      show ?thesis
      proof (cases "?n = 0 \<or> a = None")
        case True
        then have "extend_loop e k ts rem s = (rem', s') \<or> extend_loop e k ts rem ?s1 = (rem', s')"
          using Cons.prems(3) False Some al by (cases "?n = 0") (simp_all add: Let_def)
        then show ?thesis using skip' [of s] skip' [of ?s1] by (elim disjE) simp_all
      next
        case got: False
        then obtain off where off: "a = Some off" by blast
        let ?b = "\<lparr>bb_client = ti_bdev_client ti, bb_target_query = ti_target_query ti, bb_target_offset = off, bb_size = ?n\<rparr>"
        let ?s2 = "with_blob e k (\<lambda>bi. bi\<lparr>bi_blocks := bi_blocks bi @ [?b]\<rparr>) ?s1"
        have l: "extend_loop e k ts (rem - ?n) ?s2 = (rem', s')"
          using Cons.prems(3) False Some got off al by (simp add: Let_def)
        have i: "ml_inv (e_hash_str e) (tag_blob_name_to_info ?s2)"
          "find_blob e ?s2 k = Some (bi\<lparr>bi_blocks := bi_blocks bi @ [?b]\<rparr>)"
          using Cons.prems(1,2) by (simp_all add: ll.invar_modify ll.lookup_modify)
        from Cons.IH [OF i l] obtain new where new: "registered_targets s' = registered_targets s"
          "ml_inv (e_hash_str e) (tag_blob_name_to_info s')"
          "find_blob e s' k = Some (bi\<lparr>bi_blocks := bi_blocks bi @ ?b # new\<rparr>)" "\<forall>b \<in> set new. placed_on e ?s2 ts b"
          by auto
        have "placed_on e s (t # ts) b" if "b \<in> set (?b # new)" for b
          using that Some new(4) by (auto simp: placed_on_def)
        then show ?thesis using new by blast
      qed
    qed
  qed
qed

text \<open>With a minimum level, a blob is extended only by blocks on targets of at least that level.\<close>

lemma SelectTargets_subset:
  assumes "shuffle_ok shuffle" and "sort_ok srt"
  shows "set (fst (SelectTargets shuffle srt type counter targets bs n)) \<subseteq> set targets"
proof -
  obtain low high where r: "fst (SelectTargets shuffle srt type counter targets bs n) = low @ high"
      "placement targets bs n low high"
    using SelectTargets_placement [OF assms, of type counter targets bs n] by (elim exE conjE)
  have "mset (low @ high) = {# t \<in># mset targets. n \<le> ti_remaining_space t #}"
    using r(2) by (simp add: placement_def filter_mset_split)
  then have "set_mset (mset (low @ high)) \<subseteq> set_mset (mset targets)" by simp
  then show ?thesis using r(1) by simp
qed

lemma ExtendBlob_levels:
  assumes "env_ok e" and "tables_ok e s" and "targets_keyed e s" and "find_blob e s k = Some bi" and "0 < l"
    and "ExtendBlob e k bi off len score l s = (rc, s')"
  shows "registered_targets s' = registered_targets s \<and> ml_inv (e_hash_str e) (tag_blob_name_to_info s') \<and>
    (\<exists>new. find_blob e s' k = Some (bi\<lparr>bi_blocks := bi_blocks bi @ new\<rparr>) \<and>
      (\<forall>b \<in> set new. \<not> below_level e l s (bb_client b)))"
proof -
  have unchanged: ?thesis if "s' = s\<lparr>round_robin_counter := c\<rparr>" for c
    using that assms(2,4) tables_ok_def by (intro conjI exI [of _ "[]"]) auto
  have m: "ml_inv (e_hash_str e) (tag_blob_name_to_info s)" "ml_inv (e_hash_id e) (registered_targets s)"
    using assms(2) by (simp_all add: tables_ok_def)
  let ?add = "off + len - GetTotalSize bi"
  let ?av = "map snd (ml_entries (registered_targets s))"
  obtain ord c where sel: "SelectTargets (e_shuffle e) (e_sort e) (StringToDpeType (e_dpe_type e))
      (round_robin_counter s) ?av score ?add = (ord, c)" by fastforce
  let ?ord = "filter (\<lambda>t. \<not> persistence_code (ti_persistence_level t) < l) ord"
  let ?s1 = "s\<lparr>round_robin_counter := c\<rparr>"
  consider (same) c where "s' = s\<lparr>round_robin_counter := c\<rparr>"
    | (loop) r where "extend_loop e k ?ord ?add ?s1 = (r, s')"
  proof (cases "off + len \<le> GetTotalSize bi \<or> ?av = []")
    case True
    then have "s' = s\<lparr>round_robin_counter := round_robin_counter s\<rparr>" using assms(6)
      by (auto simp: ExtendBlob_def Let_def split: if_splits prod.splits)
    then show thesis by (rule that(1))
  next
    case False
    then show thesis using assms(5,6) sel that(1) [of c] that(2)
      by (auto simp: ExtendBlob_def Let_def split: if_splits prod.splits)
  qed
  then show ?thesis
  proof cases
    case same
    then show ?thesis by (rule unchanged)
  next
    case loop
    have f: "find_blob e ?s1 k = Some bi" "ml_inv (e_hash_str e) (tag_blob_name_to_info ?s1)" using assms(4) m by simp_all
    from extend_loop_placed [OF f(2,1) loop] obtain new where new: "registered_targets s' = registered_targets s" "ml_inv (e_hash_str e) (tag_blob_name_to_info s')"
      "find_blob e s' k = Some (bi\<lparr>bi_blocks := bi_blocks bi @ new\<rparr>)" "\<forall>b \<in> set new. placed_on e ?s1 ?ord b" by auto
    have "\<not> below_level e l s (bb_client b)" if b: "b \<in> set new" for b
    proof -
      obtain t ti where t: "t \<in> set ?ord" "find_target e s (ti_bdev_client t) = Some ti" "bb_client b = ti_bdev_client ti"
        using bspec [OF new(4) b] unfolding placed_on_def by (elim bexE exE conjE) simp
      have "t \<in> set ?av" using t(1) sel SelectTargets_subset [of "e_shuffle e" "e_sort e"] assms(1)
        unfolding env_ok_def by (metis (no_types, lifting) filter_is_subset fst_conv in_mono)
      then obtain p where "(p, t) \<in> set (ml_entries (registered_targets s))" by auto
      then have p: "find_target e s p = Some t" by (simp add: ll.in_entries_iff [OF m(2)])
      then have "ti_bdev_client t = p" using assms(3) by (auto simp: targets_keyed_def target_view_def)
      then show ?thesis using p t by (simp add: below_level_def)
    qed
    then show ?thesis using new by blast
  qed
qed


text \<open>A put at offset 0 with a minimum level leaves the blob on targets of at least that level.\<close>

lemma put_store_levels:
  assumes "env_ok e" and "tables_ok e s" and "targets_keyed e s" and "find_blob e s (composite_key t n) = Some bi"
    and "bi_blocks bi = []" and "0 < cx_min_persistence_level cx"
    and "put_store e t n off len dat score cx old s = (rc, s')"
  shows "registered_targets s' = registered_targets s"
    and "rc = 0 \<Longrightarrow> \<exists>bi'. find_blob e s' (composite_key t n) = Some bi' \<and>
      (\<forall>b \<in> set (bi_blocks bi'). \<not> below_level e (cx_min_persistence_level cx) s (bb_client b))"
proof -
  let ?k = "composite_key t n" and ?l = "cx_min_persistence_level cx"
  obtain ar s1 where ext: "ExtendBlob e ?k bi off len score ?l s = (ar, s1)" by fastforce
  from ExtendBlob_levels [OF assms(1-4,6) ext] assms(5) obtain new where new: "registered_targets s1 = registered_targets s"
    "ml_inv (e_hash_str e) (tag_blob_name_to_info s1)"
    "find_blob e s1 ?k = Some (bi\<lparr>bi_blocks := new\<rparr>)" "\<forall>b \<in> set new. \<not> below_level e ?l s (bb_client b)" by auto
  obtain wr w' where md: "ModifyExistingData (e_api e) new dat len off (world s1) = (wr, w')" by fastforce
  show "registered_targets s' = registered_targets s" "rc = 0 \<Longrightarrow> \<exists>bi'. find_blob e s' ?k = Some bi' \<and>
      (\<forall>b \<in> set (bi_blocks bi'). \<not> below_level e ?l s (bb_client b))"
    using assms(7) new md
    by (auto simp: put_store_def assms(4) ext Let_def put_finish_def ll.lookup_modify if_distrib [of world] cong: if_cong
        split: if_splits)
qed


context cte_device
begin

text \<open>A put at offset 0 starts from an empty blob.\<close>

lemma put_zero_cases:
  assumes "cte_inv s" and "PutBlob e t n 0 len data score cx s = (rc, s')"
  obtains (reject) "rc \<noteq> 0" "s' = s"
  | (store) s1 bi sc dat old where "only e (composite_key t n) s s1" "cte_inv s1"
      "find_blob e s1 (composite_key t n) = Some bi" "bi_blocks bi = []" "\<forall>j. room (world s) j \<longrightarrow> room (world s1) j"
      "0 < len" "data = Some dat" "put_store e t n 0 len dat sc cx old s1 = (rc, s')"
proof -
  let ?k = "composite_key t n"
  let ?found = "CheckBlobExists e n t s"
  define sc where "sc = (if f32_less score f32_zero then (case ?found of Some bi \<Rightarrow> bi_score bi | None \<Rightarrow> f32_one) else score)"
  have t0: "tables_ok e s" by (rule cte_invD(1) [OF assms(1)])
  consider (no) "rc \<noteq> 0" "s' = s"
    | (go) dat where "0 < len" "data = Some dat" "n \<noteq> []" "\<not> f32_less f32_one sc"
    using assms(2) unfolding PutBlob_def Let_def sc_def [symmetric]
    by (cases data) (auto simp: word_gt_0 split: if_splits)
  then show thesis
  proof cases
    case no
    then show thesis by (rule reject)
  next
    case go
    have found: "?found = find_blob e s ?k" using go(3) by (simp add: CheckBlobExists_def)
    have sc: "\<not> f32_less sc f32_zero"
      unfolding sc_def using cte_invD(3) [OF assms(1)] by (auto simp: found blob_ok_def split: option.splits)
    note put = assms(2) [unfolded PutBlob_def Let_def, folded sc_def, unfolded found go(2)]
    show thesis
    proof (cases "find_blob e s ?k")
      case None
      obtain ok s1 where cn: "CreateNewBlob e n t sc s = (ok, s1)" by fastforce
      note c = CreateNewBlob_spec [OF assms(1) go(3) None sc cn]
      from c(5) obtain bi where bi: "find_blob e s1 ?k = Some bi" "bi_blocks bi = []" by blast
      have o: "only e ?k s s1" by (rule only_CreateNewBlob [OF t0 cn])
      have "put_store e t n 0 len dat sc cx 0 s1 = (rc, s')" using put go None cn c(1) by (simp add: word_gt_0)
      with store [OF o c(2) bi _ go(1,2)] c(3) show thesis by simp
    next
      case (Some bi)
      have bok: "blob_ok ?k bi" by (rule cte_invD(3) [OF assms(1) Some])
      show thesis
      proof (cases "GetTotalSize bi = 0")
        case True
        have "blob_len (bi_blocks bi) = 0" using True unat_GetTotalSize [OF bok] by simp
        then have "bi_blocks bi = []" using bok by (cases "bi_blocks bi") (auto simp: blob_ok_def blocks_ok_def blob_len_def word_gt_0 unat_eq_0)
        moreover have "put_store e t n 0 len dat sc cx (GetTotalSize bi) s = (rc, s')"
          using put go Some True sc by (auto simp: ClearBlob_def word_gt_0)
        ultimately show thesis using store [OF only_refl [OF t0] assms(1) Some _ _ go(1,2)] by simp
      next
        case False
        obtain fr s1 where fr: "FreeAllBlobBlocks e ?k bi s = (fr, s1)" by fastforce
        note f = FreeAllBlobBlocks_spec [OF assms(1) Some fr]
        let ?s2 = "log_blob e kClearBlob (blob_ref t n) s1"
        have ps: "put_store e t n 0 len dat sc cx 0 ?s2 = (rc, s')"
          using put go Some False sc fr f(1) by (auto simp: ClearBlob_def word_gt_0)
        have t2: "tables_ok e ?s2" "tag_blob_name_to_info ?s2 = tag_blob_name_to_info s1" "world ?s2 = world s1"
          using cte_invD(1) [OF f(2)] by simp_all
        note i2 = cte_inv_cong [OF t2 f(2)]
        have "only e ?k s s1" by (rule only_FreeAllBlobBlocks [OF t0 fr])
        then have "only e ?k s ?s2" by (rule only_trans [OF _ onlyI]) (use t2(1) in simp_all)
        moreover have "find_blob e ?s2 ?k = Some (bi\<lparr>bi_blocks := []\<rparr>)" "\<forall>j. room (world s) j \<longrightarrow> room (world ?s2) j"
          using f(3,5) by simp_all
        ultimately show thesis using store [OF _ conjunct1 [OF i2] _ _ _ go(1,2) ps] by simp
      qed
    qed
  qed
qed

lemma PutBlob_levels:
  assumes "env_ok e" and "cte_inv s" and "targets_keyed e s" and "0 < cx_min_persistence_level cx"
    and "PutBlob e t n 0 len data score cx s = (0, s')"
  shows "\<exists>bi. find_blob e s' (composite_key t n) = Some bi \<and>
    (\<forall>b \<in> set (bi_blocks bi). \<not> below_level e (cx_min_persistence_level cx) s (bb_client b))"
proof (cases rule: put_zero_cases [OF assms(2,5)])
  case store: (2 s1 bi sc dat old)
  have lv: "target_view e s1 = target_view e s" using store(1) by (simp add: only_def)
  then have "targets_keyed e s1" using assms(3) by (simp add: targets_keyed_def)
  from put_store_levels(2) [OF assms(1) cte_invD(1) [OF store(2)] this store(3,4) assms(4) store(8)] lv
  show ?thesis by (simp add: below_level_target)
qed simp

section \<open>One blob\<close>

text \<open>
  Flushing one blob keeps the engine's invariant and every other blob; when the
  put succeeds, the blob has the same bytes, all on targets of the requested
  level. The count tells whether it was put.
\<close>

lemma flush_blob_spec:
  assumes "env_ok e" and "cte_inv s" and "targets_keyed e s" and "0 < l"
    and "room (world s) (target_count s + j)" and "\<And>c. content s k = Some c \<Longrightarrow> length c \<le> unit"
    and "find_blob e s k = Some bi" and "x = flush_entry (k, bi)"
    and "flush_blob e l (nbytes, nblobs, s) x = (nbytes', nblobs', s')"
  shows "cte_inv s'" and "only e k s s'" and "room (world s') j" and "k' \<noteq> k \<Longrightarrow> content s' k' = content s k'"
    and "nblobs' = nblobs \<or> nblobs' = nblobs + 1 \<and> content s' = content s \<and>
      (\<exists>bi'. find_blob e s' k = Some bi' \<and> \<not> has_volatile_blocks e l s bi')"
proof -
  let ?n = "GetTotalSize bi" and ?c = "blob_bytes (byte_at (world s)) (bi_blocks bi)"
  have bok: "blob_ok k bi" by (rule cte_invD(3) [OF assms(2,7)])
  obtain t where k: "k = composite_key t (bi_blob_name bi)" using bok by (auto simp: blob_ok_def)
  have x: "fe_composite_key x = k" "fe_blob_name x = bi_blob_name bi" "fe_tag_id x = t" "fe_total_size x = ?n"
    "fe_score x = bi_score bi" using assms(8) by (simp_all add: flush_entry_def k flush_tag_id_key)
  have t0: "tables_ok e s" by (rule cte_invD(1) [OF assms(2)])
  have rj: "room (world s) j" using room_mono [OF assms(5)] by simp
  consider (same) "s' = s" "nblobs' = nblobs"
    | (go) buf where "bi_blocks bi \<noteq> []" "?n \<noteq> 0" "e_AllocateBuffer e ?n = Some buf"
    using assms(7,9) by (auto simp: flush_blob_def x split: if_splits option.splits)
  then have "cte_inv s' \<and> only e k s s' \<and> room (world s') j \<and> (\<forall>k'. k' \<noteq> k \<longrightarrow> content s' k' = content s k') \<and>
    (nblobs' = nblobs \<or> nblobs' = nblobs + 1 \<and> content s' = content s \<and>
      (\<exists>bi'. find_blob e s' k = Some bi' \<and> \<not> has_volatile_blocks e l s bi'))"
  proof cases
    case same
    then show ?thesis using assms(2) only_refl [OF t0] rj by simp
  next
    case go
    have b: "blocks_ok (bi_blocks bi)" "blob_len (bi_blocks bi) < 2 ^ 64" using bok by (simp_all add: blob_ok_def)
    have sub: "mset (map region_of (bi_blocks bi)) \<subseteq># table_regions (tag_blob_name_to_info s)"
      using blob_regions_sub [OF assms(2,7)] by (simp add: blob_regions_def)
    have un: "unat ?n = length ?c" using unat_GetTotalSize [OF bok] by simp
    have b0: "unat (0 :: u64) + unat ?n < 2 ^ 64" using unat_less_2p64 [of ?n] by simp
    obtain rr buf' w1 where rd: "ReadData (e_api e) (bi_blocks bi) buf ?n 0 (world s) = (rr, buf', w1)"
      by (metis prod.exhaust)
    have pos: "0 < ?n" using go(2) by (simp add: word_gt_0)
    note r = ReadData_spec [OF cte_invD(4) [OF assms(2)] sub b b0 pos rd]
    let ?s1 = "s\<lparr>world := w1\<rparr>"
    let ?P = "\<lambda>b. below_level e l ?s1 (bb_client b)"
    define s2 where "s2 = free_volatile e l k (bi_blocks bi) ?s1"
    have i1: "cte_inv ?s1" using r cte_inv_world [OF assms(2)] by simp
    have c1: "content ?s1 = content s" by (rule ext) (use r in \<open>simp add: content_def\<close>)
    have f1: "find_blob e ?s1 k = Some bi" using assms(7) by simp
    have o1: "only e k s ?s1" using t0 by (intro onlyI) simp_all
    have fv: "s2 = with_blob e k (\<lambda>bi'. bi'\<lparr>bi_blocks := filter (\<lambda>b. \<not> ?P b) (bi_blocks bi)\<rparr>)
        (foldl (free_pool e) ?s1 (blocks_by_pool (filter ?P (bi_blocks bi))))"
      by (simp add: s2_def free_volatile_def Let_def)
    note fs = free_some_spec [OF i1 f1 fv]
    have o2: "only e k s s2"
    proof (rule only_trans [OF o1])
      have fp: "only e k ?s1 (foldl (free_pool e) ?s1 (blocks_by_pool (filter ?P (bi_blocks bi))))"
        by (rule only_free_pools [OF cte_invD(1) [OF i1]])
      show "only e k ?s1 s2" unfolding fv by (rule only_trans [OF fp only_with_blob]) (use fp in \<open>simp add: only_def\<close>)
    qed
    let ?cx = "Context_default\<lparr>cx_min_persistence_level := l\<rparr>"
    obtain pr s3 where p: "PutBlob e t (bi_blob_name bi) 0 ?n (Some buf') (bi_score bi) ?cx s2 = (pr, s3)" by fastforce
    have s': "s' = s3" "nblobs' = (if pr = 0 then nblobs + 1 else nblobs)"
      using assms(9) go r p [unfolded s2_def] by (auto simp: flush_blob_def x assms(7) rd Let_def split: if_splits)
    have kp: "kept s2 k 0 = []" by (simp add: kept_def split: option.splits)
    have "length ?c \<le> unit" using assms(6,7) by (simp add: content_def)
    then have fits: "unat (0 :: u64) + unat ?n \<le> length (kept s2 (composite_key t (bi_blob_name bi)) 0) + unit"
      using un kp k by simp
    have rm: "room (world s2) (target_count s2 + j)" using assms(5) r fs(4) o2 by (simp add: only_def)
    note pb = PutBlob_room [OF assms(1) fs(1) b0 fits rm p, folded k]
    have o3: "only e k s s3" by (rule only_trans [OF o2]) (use only_PutBlob [OF cte_invD(1) [OF fs(1)] p] k in simp)
    have c2: "content s2 k' = content s k'" if "k' \<noteq> k" for k'
      using content_same_but [OF fs(5,3) that] c1 by simp
    have ov: "overlay (filled ?c 0 0 (length ?c) buf) 0 (length ?c) 0 gap = ?c" if "length gap = length ?c" for gap
      using that by (intro nth_equalityI) (simp_all add: nth_overlay filled_def)
    have ck: "content s3 k = content s k" if "pr = 0" using pb that kp un r ov assms(7) by (auto simp: content_def)
    have lv: "\<exists>bi'. find_blob e s3 k = Some bi' \<and> \<not> has_volatile_blocks e l s bi'" if "pr = 0"
    proof -
      have "targets_keyed e s2" using assms(3) o2 by (simp add: targets_keyed_def only_def)
      from PutBlob_levels [OF assms(1) fs(1) this _ p [unfolded that]] assms(4) o2 k show ?thesis
        by (auto simp: has_volatile_blocks_def list_ex_iff below_level_target only_def)
    qed
    have all: "content s3 = content s" if "pr = 0"
    proof
      fix k' show "content s3 k' = content s k'" using ck [OF that] pb c2 by (cases "k' = k") auto
    qed
    show ?thesis using pb o3 c2 s' lv all by auto
  qed
  then show "cte_inv s'" "only e k s s'" "room (world s') j" "k' \<noteq> k \<Longrightarrow> content s' k' = content s k'"
    "nblobs' = nblobs \<or> nblobs' = nblobs + 1 \<and> content s' = content s \<and>
      (\<exists>bi'. find_blob e s' k = Some bi' \<and> \<not> has_volatile_blocks e l s bi')" by blast+
qed

section \<open>All blobs\<close>

lemma of_nat_u64_eq: "m < 2 ^ 64 \<Longrightarrow> n < 2 ^ 64 \<Longrightarrow> (of_nat m :: u64) = of_nat n \<longleftrightarrow> m = n"
  by (simp add: word_unat_eq_iff unat_of_nat take_bit_nat_eq_self)

lemma flush_fold:
  assumes "env_ok e" and "cte_inv s" and "targets_keyed e s" and "0 < l"
    and "room (world s) (target_count s * length xs)"
    and "\<forall>k \<in> fst ` set xs. \<forall>c. content s k = Some c \<longrightarrow> length c \<le> unit"
    and "distinct (map fst xs)" and "\<forall>x \<in> set xs. find_blob e s (fst x) = Some (snd x)"
    and "foldl (flush_blob e l) (nbytes, nblobs, s) (map flush_entry xs) = (nbytes', nblobs', s')"
  shows "cte_inv s' \<and> target_view e s' = target_view e s \<and>
    (\<forall>k. k \<notin> fst ` set xs \<longrightarrow> find_blob e s' k = find_blob e s k \<and> content s' k = content s k) \<and>
    (\<exists>m \<le> length xs. nblobs' = nblobs + of_nat m \<and> (m = length xs \<longrightarrow> content s' = content s \<and>
      (\<forall>k \<in> fst ` set xs. \<exists>bi. find_blob e s' k = Some bi \<and> \<not> has_volatile_blocks e l s bi)))"
  using assms(2-)
proof (induction xs arbitrary: s nbytes nblobs)
  case Nil
  then show ?case by simp
next
  case (Cons x xs)
  obtain k bi where x: "x = (k, bi)" by (cases x)
  obtain nb1 n1 s1 where st: "flush_blob e l (nbytes, nblobs, s) (flush_entry (k, bi)) = (nb1, n1, s1)" by (metis prod.exhaust)
  have fb: "find_blob e s k = Some bi" using Cons.prems(7) by (simp add: x)
  have rm: "room (world s) (target_count s + target_count s * length xs)" using Cons.prems(4) by simp
  have un: "content s k = Some c \<Longrightarrow> length c \<le> unit" for c using Cons.prems(5) by (simp add: x)
  note f = flush_blob_spec [OF assms(1) Cons.prems(1-3) rm un fb refl st]
  have nk: "k \<notin> fst ` set xs" using Cons.prems(6) by (simp add: x)
  have o: "target_view e s1 = target_view e s" "target_count s1 = target_count s"
    "k' \<noteq> k \<Longrightarrow> find_blob e s1 k' = find_blob e s k'" for k' using f(2) by (simp_all add: only_def)
  have hv: "has_volatile_blocks e l s1 = has_volatile_blocks e l s"
    by (simp add: has_volatile_blocks_def below_level_target o fun_eq_iff)
  have p: "targets_keyed e s1" "room (world s1) (target_count s1 * length xs)" "distinct (map fst xs)"
    using Cons.prems(2,6) f(3) o by (simp_all add: targets_keyed_def x)
  have p5: "\<forall>k \<in> fst ` set xs. \<forall>c. content s1 k = Some c \<longrightarrow> length c \<le> unit"
  proof
    fix k' assume k': "k' \<in> fst ` set xs"
    have "k' \<noteq> k" using nk k' by meson
    then have "content s1 k' = content s k'" using f(4) by blast
    moreover have "k' \<in> fst ` set (x # xs)" using k' by simp
    ultimately show "\<forall>c. content s1 k' = Some c \<longrightarrow> length c \<le> unit" using bspec [OF Cons.prems(5)] by metis
  qed
  have p7: "\<forall>x \<in> set xs. find_blob e s1 (fst x) = Some (snd x)"
  proof
    fix y assume y: "y \<in> set xs"
    then have "fst y \<noteq> k" using nk by force
    then show "find_blob e s1 (fst y) = Some (snd y)" using o(3) Cons.prems(7) y by simp
  qed
  have "foldl (flush_blob e l) (nb1, n1, s1) (map flush_entry xs) = (nbytes', nblobs', s')"
    using Cons.prems(8) st by (simp add: x)
  note ih = Cons.IH [OF f(1) p(1) Cons.prems(3) p(2) p5 p(3) p7 this]
  then obtain m where m: "m \<le> length xs" "nblobs' = n1 + of_nat m" "m = length xs \<Longrightarrow> content s' = content s1"
    "m = length xs \<Longrightarrow> \<forall>k \<in> fst ` set xs. \<exists>bi. find_blob e s' k = Some bi \<and> \<not> has_volatile_blocks e l s bi"
    unfolding hv by blast
  have other: "find_blob e s' k' = find_blob e s k' \<and> content s' k' = content s k'" if "k' \<notin> fst ` set (x # xs)" for k'
    using that ih o(3) f(4) by (simp add: x)
  have "\<exists>m \<le> length (x # xs). nblobs' = nblobs + of_nat m \<and> (m = length (x # xs) \<longrightarrow> content s' = content s \<and>
      (\<forall>k \<in> fst ` set (x # xs). \<exists>bi. find_blob e s' k = Some bi \<and> \<not> has_volatile_blocks e l s bi))"
    using f(5)
  proof
    assume "n1 = nblobs"
    then show ?thesis using m(1,2) by (intro exI [of _ m]) simp
  next
    assume d: "n1 = nblobs + 1 \<and> content s1 = content s \<and> (\<exists>bi'. find_blob e s1 k = Some bi' \<and> \<not> has_volatile_blocks e l s bi')"
    have "find_blob e s' k = find_blob e s1 k" using ih nk by blast
    then show ?thesis using m d by (intro exI [of _ "Suc m"]) (auto simp: x add.assoc)
  qed
  then show ?case using ih o(1) other by auto
qed

lemma FlushData_spec:
  assumes "env_ok e" and "cte_inv s" and "targets_keyed e s" and "0 < l"
    and "room (world s) (target_count s * length (ml_entries (tag_blob_name_to_info s)))"
    and "length (ml_entries (tag_blob_name_to_info s)) < 2 ^ 64"
    and "\<forall>k c. content s k = Some c \<longrightarrow> length c \<le> unit"
  shows "\<exists>nbytes nblobs s'. FlushData e l s = Inr (0, nbytes, nblobs, s') \<and> cte_inv s' \<and>
    (\<forall>k. (\<forall>bi. find_blob e s k = Some bi \<longrightarrow> \<not> has_volatile_blocks e l s bi) \<longrightarrow>
       find_blob e s' k = find_blob e s k \<and> content s' k = content s k) \<and>
    (nblobs = of_nat (length (filter (\<lambda>x. has_volatile_blocks e l s (snd x)) (ml_entries (tag_blob_name_to_info s)))) \<longrightarrow>
       content s' = content s \<and> (\<forall>k bi. find_blob e s' k = Some bi \<longrightarrow> \<not> has_volatile_blocks e l s' bi))"
proof -
  let ?all = "ml_entries (tag_blob_name_to_info s)"
  let ?xs = "filter (\<lambda>x. has_volatile_blocks e l s (snd x)) ?all"
  note m = cte_invD(2) [OF assms(2)]
  have entry: "x \<in> set ?all \<longleftrightarrow> find_blob e s (fst x) = Some (snd x)" for x
    using ll.in_entries_iff [OF m, of "fst x" "snd x"] by simp
  have le: "length ?xs \<le> length ?all" by simp
  have inx: "x \<in> set ?xs \<longleftrightarrow> find_blob e s (fst x) = Some (snd x) \<and> has_volatile_blocks e l s (snd x)" for x
    using entry [of x] by auto
  have cand: "k \<notin> fst ` set ?xs" if "\<forall>bi. find_blob e s k = Some bi \<longrightarrow> \<not> has_volatile_blocks e l s bi" for k
  proof
    assume "k \<in> fst ` set ?xs"
    then obtain x where "k = fst x" "x \<in> set ?xs" by (rule imageE)
    then show False using that unfolding inx by simp
  qed
  show ?thesis
  proof (cases "filter (\<lambda>x. l \<le> persistence_code (ti_persistence_level (snd x))) (ml_entries (registered_targets s)) = []")
    case True
    have nv: "\<not> has_volatile_blocks e l s bi" if "0 = (of_nat (length ?xs) :: u64)" "find_blob e s k = Some bi" for k bi
    proof -
      have "length ?xs = 0" using that(1) le_less_trans [OF le assms(6)] of_nat_u64_eq [of 0 "length ?xs"] by simp
      then have "(k, bi) \<notin> set ?xs" by simp
      then show ?thesis using inx [of "(k, bi)"] that(2) by auto
    qed
    have "FlushData e l s = Inr (0, 0, 0, s)" unfolding FlushData_def True by simp
    then show ?thesis
      by (intro exI [of _ 0] exI [of _ 0] exI [of _ s] conjI allI impI) (assumption, rule assms(2), rule refl, rule refl, rule refl, rule nv)
  next
    case False
    have keys: "\<forall>x \<in> set ?all. \<exists>t. fst x = composite_key t (bi_blob_name (snd x))"
    proof
      fix x assume "x \<in> set ?all"
      then show "\<exists>t. fst x = composite_key t (bi_blob_name (snd x))"
        using cte_invD(3) [OF assms(2)] unfolding entry blob_ok_def by blast
    qed
    obtain nb n s' where fo: "foldl (flush_blob e l) (0, 0, s) (map flush_entry ?xs) = (nb, n, s')" by (metis prod.exhaust)
    have fd: "FlushData e l s = Inr (0, nb, n, s')"
      using False fo by (simp add: FlushData_def flush_candidates_filter [OF keys])
    have d: "distinct (map fst ?xs)" using ll.entries_distinct [OF m] distinct_map_filter by blast
    have rm: "room (world s) (target_count s * length ?xs)" using room_mono [OF assms(5)] le by simp
    have un: "\<forall>k \<in> fst ` set ?xs. \<forall>c. content s k = Some c \<longrightarrow> length c \<le> unit" using assms(7) by blast
    have fb: "\<forall>x \<in> set ?xs. find_blob e s (fst x) = Some (snd x)" using inx by blast
    note ff = flush_fold [OF assms(1-4) rm un d fb fo]
    then obtain c where c: "c \<le> length ?xs" "n = of_nat c" "c = length ?xs \<Longrightarrow> content s' = content s \<and>
        (\<forall>k \<in> fst ` set ?xs. \<exists>bi. find_blob e s' k = Some bi \<and> \<not> has_volatile_blocks e l s bi)" by auto
    have hv: "has_volatile_blocks e l s' = has_volatile_blocks e l s"
      using ff by (simp add: has_volatile_blocks_def below_level_target fun_eq_iff)
    have full: "content s' = content s \<and> (\<forall>k bi. find_blob e s' k = Some bi \<longrightarrow> \<not> has_volatile_blocks e l s' bi)"
      if "n = of_nat (length ?xs)"
    proof -
      have "c = length ?xs" using that c(1,2) le_less_trans [OF le assms(6)] of_nat_u64_eq [of c "length ?xs"] by simp
      note c3 = c(3) [OF this]
      have "\<not> has_volatile_blocks e l s' bi" if b: "find_blob e s' k = Some bi" for k bi
      proof (cases "k \<in> fst ` set ?xs")
        case True
        then obtain bi' where "find_blob e s' k = Some bi'" "\<not> has_volatile_blocks e l s bi'" using conjunct2 [OF c3] by blast
        then show ?thesis using b hv by simp
      next
        case False
        then have "find_blob e s k = Some bi" using ff b by simp
        moreover have "(k, bi) \<notin> set ?xs" using False by force
        ultimately show ?thesis using inx [of "(k, bi)"] hv by auto
      qed
      then show ?thesis using c3 by blast
    qed
    have others: "find_blob e s' k = find_blob e s k \<and> content s' k = content s k"
      if "\<forall>bi. find_blob e s k = Some bi \<longrightarrow> \<not> has_volatile_blocks e l s bi" for k
      by (rule ff [THEN conjunct2, THEN conjunct2, THEN conjunct1, THEN spec, THEN mp, OF cand [OF that]])
    show ?thesis
      by (rule exI [of _ nb], rule exI [of _ n], rule exI [of _ s'], intro conjI fd)
        (rule conjunct1 [OF ff], intro allI impI, erule others, intro impI, erule full)
  qed
qed

end

section \<open>Flushing on memory devices\<close>

lemma has_volatile_at_moment: "has_volatile_blocks (at_moment cfg n m) l s bi = has_volatile_blocks cfg l s bi"
  by (simp add: has_volatile_blocks_def below_level_def)

lemma flushed_blocks_kept:
  assumes "0 < l" and "\<not> has_volatile_blocks e l s bi"
  shows "kept_blocks e s (bi_blocks bi) = bi_blocks bi"
proof -
  have "\<not> is_volatile e s (bb_client b)" if "b \<in> set (bi_blocks bi)" for b
    using assms that
    by (auto simp: has_volatile_blocks_def list_ex_iff below_level_def is_volatile_def split: option.splits)
  then show ?thesis by (simp add: kept_blocks_def filter_id_conv)
qed

section \<open>A migration\<close>

text \<open>
  An engine with two memory devices, one volatile and one configured as long
  term. A blob of three bytes is put on the first, the second is registered, and
  the data is flushed. The states are written out; each step is evaluated, the
  bytes of the blob, of the device and the telemetry being arbitrary.
\<close>

definition flush_cfg :: "ram_world cte_env" where "flush_cfg = demo_cfg\<lparr>e_hash_u32 := (\<lambda>_. 0), e_hash_str := (\<lambda>_. 0)\<rparr>"
definition long_term_pool :: PoolId where "long_term_pool = \<lparr>id_major = 512, id_minor = 2\<rparr>"
abbreviation flush_env :: "ram_world cte_env" where "flush_env \<equiv> at_moment flush_cfg 1 (0, 0, 0)"

definition flush_target :: "string \<Rightarrow> PoolId \<Rightarrow> f32 \<Rightarrow> PersistenceLevel \<Rightarrow> TargetInfo" where
  "flush_target name p sc lv = \<lparr>ti_target_name = name, ti_bdev_pool_name = name, ti_bdev_client = p, ti_target_query = PoolQuery_Local,
     ti_bytes_read = 0, ti_bytes_written = 0, ti_ops_read = 0, ti_ops_written = 0, ti_target_score = sc, ti_remaining_space = 65536,
     ti_perf_metrics = \<lparr>read_bandwidth_mbps = 100, write_bandwidth_mbps = 80, read_latency_us = 0, write_latency_us = 0, iops = 1000\<rparr>,
     ti_persistence_level = lv\<rparr>"

definition flush_dev :: "mem \<Rightarrow> u64 \<Rightarrow> Block list \<Rightarrow> u64 \<Rightarrow> u64 \<Rightarrow> u64 \<Rightarrow> u64 \<Rightarrow> Bdev" where
  "flush_dev f hp cache r w rb wb = \<lparr>bdev_type = kRam, file_path = [], worker_io_contexts = [], file_size = 65536, alignment = 4096,
     io_depth = 32, max_blocks_per_operation = 64, ram_buffer = f, ram_size = 65536,
     global_block_map = \<lparr>worker_maps = [\<lparr>blocks = [cache, [], [], [], [], []]\<rparr>]\<rparr>,
     heap = \<lparr>heap_ptr = hp, total_size = 65536, heap_alignment = 4096\<rparr>,
     total_reads = r, total_writes = w, total_bytes_read = rb, total_bytes_written = wb,
     perf_metrics = perf_metrics blank_bdev\<rparr>"

definition flush_blob_info :: "BlobBlock list \<Rightarrow> BlobInfo" where
  "flush_blob_info bs = \<lparr>bi_blob_name = ''b'', bi_blocks = bs, bi_score = f32_one, bi_last_modified = 0, bi_last_read = 0,
     bi_compress_lib = 0, bi_compress_preset = 2, bi_trace_key = 0\<rparr>"

definition flush_block :: "PoolId \<Rightarrow> BlobBlock" where
  "flush_block p = \<lparr>bb_client = p, bb_target_query = PoolQuery_Local, bb_target_offset = 0, bb_size = 3\<rparr>"

definition flush_state :: "TargetInfo list \<Rightarrow> BlobInfo list \<Rightarrow> CteTelemetry ring_buffer \<Rightarrow> u64 \<Rightarrow> u32 \<Rightarrow> ram_world \<Rightarrow> ram_world Cte" where
  "flush_state ts bs tlog k c w = \<lparr>registered_targets = \<lparr>buckets = [map (\<lambda>t. (ti_bdev_client t, t)) ts]\<rparr>,
     target_name_to_id = \<lparr>buckets = [map (\<lambda>t. (ti_target_name t, ti_bdev_client t)) ts]\<rparr>,
     tag_name_to_id = \<lparr>buckets = [[]]\<rparr>, tag_id_to_info = \<lparr>buckets = [[]]\<rparr>,
     tag_blob_name_to_info = \<lparr>buckets = [map (\<lambda>b. (''1.1.b'', b)) bs]\<rparr>, next_tag_id_minor = 1,
     telemetry_log = tlog, telemetry_counter = k, blob_txn_logs = [], tag_txn_logs = [],
     storage_devices = [\<lparr>sd_path = ''p'', sd_bdev_type = ''ram'', sd_capacity_limit = 65536, sd_score = f32_one,
       sd_persistence_level = ''long_term''\<rparr>],
     round_robin_counter = c, world = w\<rparr>"

abbreviation flush_r :: TargetInfo where "flush_r \<equiv> flush_target ''r'' demo_pool f32_zero kVolatile"
abbreviation flush_p :: TargetInfo where "flush_p \<equiv> flush_target ''p'' long_term_pool f32_one kLongTerm"
abbreviation flush_bi :: BlobInfo where "flush_bi \<equiv> flush_blob_info [flush_block demo_pool]"
abbreviation flush_register_r :: request where "flush_register_r \<equiv> Register ''r'' kRam 65536 PoolQuery_Local demo_pool"
abbreviation flush_register_p :: request where "flush_register_p \<equiv> Register ''p'' kRam 65536 PoolQuery_Local long_term_pool"

abbreviation flush_put :: "mem \<Rightarrow> request" where
  "flush_put d \<equiv> Put demo_tag ''b'' 0 3 (Some d) f32_one Context_default"

definition flush_s0 :: "CteTelemetry ring_buffer \<Rightarrow> ram_world Cte" where
  "flush_s0 tlog = flush_state [] [] tlog 0 0 Map.empty"

definition flush_s1 :: "CteTelemetry ring_buffer \<Rightarrow> ram_world Cte" where
  "flush_s1 tlog = flush_state [flush_r] [] tlog 0 0 [demo_pool \<mapsto> flush_dev (\<lambda>_. 0) 0 [] 0 0 0 0]"

definition flush_s2 :: "mem \<Rightarrow> CteTelemetry ring_buffer \<Rightarrow> ram_world Cte" where
  "flush_s2 f tlog = flush_state [flush_r] [flush_bi] tlog 1 1 [demo_pool \<mapsto> flush_dev f 4096 [] 0 1 0 3]"

definition flush_s3 :: "mem \<Rightarrow> CteTelemetry ring_buffer \<Rightarrow> ram_world Cte" where
  "flush_s3 f tlog = flush_state [flush_r, flush_p] [flush_bi] tlog 1 1
     [demo_pool \<mapsto> flush_dev f 4096 [] 0 1 0 3, long_term_pool \<mapsto> flush_dev (\<lambda>_. 0) 0 [] 0 0 0 0]"

definition put_tlog :: "CteTelemetry ring_buffer \<Rightarrow> CteTelemetry ring_buffer" where
  "put_tlog tlog = telemetry_log (LogTelemetry kPutBlobOp 0 3 demo_tag (ComputeBlobHash demo_tag ''b'') 0 0 (flush_s1 tlog))"

definition flush_s4 :: "mem \<Rightarrow> CteTelemetry ring_buffer \<Rightarrow> ram_world Cte" where
  "flush_s4 f tlog = flush_state [flush_r\<lparr>ti_remaining_space := 65539\<rparr>, flush_p] [flush_blob_info []] tlog 1 1
     [demo_pool \<mapsto> flush_dev f 4096 [\<lparr>offset = 0, bsize = 3, block_type = 0\<rparr>] 1 1 3 3, long_term_pool \<mapsto> flush_dev (\<lambda>_. 0) 0 [] 0 0 0 0]"

definition flush_w :: "mem \<Rightarrow> ram_world" where
  "flush_w f = [demo_pool \<mapsto> flush_dev f 4096 [] 1 1 3 3, long_term_pool \<mapsto> flush_dev (\<lambda>_. 0) 0 [] 0 0 0 0]"

lemma flush_serves_r:
  fixes P :: "reply \<times> ram_world Cte \<Rightarrow> bool"
  shows "P (serve flush_env flush_register_r (flush_s0 tlog)) = P (Code 0, flush_s1 tlog)"
  by code_simp

lemma flush_serves_put:
  fixes P :: "reply \<times> ram_world Cte \<Rightarrow> bool"
  shows "P (serve flush_env (flush_put d) (flush_s1 tlog)) = P (Code 0, flush_s2 (\<lambda>i. if i < 3 then d i else 0) (put_tlog tlog))"
  by (code_simp, rule arg_cong [where f = P]) (simp add: fun_eq_iff)

lemma flush_serves_p:
  fixes P :: "reply \<times> ram_world Cte \<Rightarrow> bool"
  shows "P (serve flush_env flush_register_p (flush_s2 f tlog)) = P (Code 0, flush_s3 f tlog)"
  by code_simp

lemma flush_reads:
  fixes P :: "u32 \<times> mem \<times> ram_world \<Rightarrow> bool"
  shows "P (ReadData (e_api flush_env) [flush_block demo_pool] b 3 0 (world (flush_s3 f tlog))) =
    P (0, (\<lambda>i. if i < 3 then f i else b i), flush_w f)"
  by (code_simp, rule arg_cong [where f = P]) (auto simp: fun_eq_iff)

lemma flush_frees:
  fixes P :: "ram_world Cte \<Rightarrow> bool"
  shows "P (free_volatile flush_env 1 ''1.1.b'' [flush_block demo_pool] ((flush_s3 f tlog)\<lparr>world := flush_w f\<rparr>)) = P (flush_s4 f tlog)"
proof -
  have "WorkerBlockMap_FreeBlock \<lparr>blocks = [[], [], [], [], [], []]\<rparr> \<lparr>offset = 0, bsize = 3, block_type = 0\<rparr> =
    \<lparr>blocks = [[\<lparr>offset = 0, bsize = 3, block_type = 0\<rparr>], [], [], [], [], []]\<rparr>" by code_simp
  note f = this
  show ?thesis by (code_simp, rule arg_cong [where f = P]) (auto simp: fun_eq_iff f)
qed

lemma flush_puts:
  "fst (PutBlob flush_env demo_tag ''b'' 0 3 (Some d) f32_one (Context_default\<lparr>cx_min_persistence_level := 1\<rparr>) (flush_s4 f tlog)) = 0"
  by code_simp

lemma flush_chosen:
  "flush_candidates flush_env 1 (flush_s3 f tlog) (ml_entries (tag_blob_name_to_info (flush_s3 f tlog))) =
    Inr [\<lparr>fe_composite_key = ''1.1.b'', fe_blob_name = ''b'', fe_tag_id = demo_tag, fe_total_size = 3, fe_score = f32_one\<rparr>]"
  by code_simp

lemma flush_tables:
  "ml_entries (tag_blob_name_to_info (flush_s3 f tlog)) = [(''1.1.b'', flush_bi)]"
  "find_blob flush_cfg (flush_s3 f tlog) k = (if k = ''1.1.b'' then Some flush_bi else None)"
  "ml_entries (registered_targets (flush_s3 f tlog)) = [(demo_pool, flush_r), (long_term_pool, flush_p)]"
  by (simp_all add: flush_s3_def flush_state_def ml_entries_def ml_find_def get_bucket_index_def Let_def
      flush_target_def flush_cfg_def)

lemma flush_volatile: "has_volatile_blocks flush_cfg 1 (flush_s3 f tlog) flush_bi"
  by code_simp

lemma flush_moves: "\<exists>s'. FlushData flush_env 1 (flush_s3 f tlog) = Inr (0, 3, 1, s')"
proof -
  let ?s = "flush_s3 f tlog" and ?d = "\<lambda>i. if i < 3 then f i else 0 :: u8"
  have read: "ReadData (e_api flush_env) [flush_block demo_pool] (\<lambda>_. 0) 3 0 (world ?s) = (0, ?d, flush_w f)"
    using flush_reads [of "\<lambda>x. x = (0, ?d, flush_w f)"] by simp
  have free: "free_volatile flush_env 1 ''1.1.b'' [flush_block demo_pool] (?s\<lparr>world := flush_w f\<rparr>) = flush_s4 f tlog"
    using flush_frees [of "\<lambda>x. x = flush_s4 f tlog"] by simp
  let ?r = "PutBlob flush_env demo_tag ''b'' 0 3 (Some ?d) f32_one (Context_default\<lparr>cx_min_persistence_level := 1\<rparr>) (flush_s4 f tlog)"
  obtain rc s' where r: "?r = (rc, s')" by (rule prod.exhaust)
  have "rc = 0" using flush_puts [of ?d f tlog] unfolding r fst_conv .
  note put = r [unfolded this]
  have b: "bi_blocks flush_bi = [flush_block demo_pool]" "e_AllocateBuffer flush_env 3 = Some (\<lambda>_. 0)"
    "find_blob flush_env ?s ''1.1.b'' = Some flush_bi" "persistence_code kLongTerm = 2" "persistence_code kVolatile = 0"
    using flush_tables(2) [of f tlog "''1.1.b''"] by (simp_all add: flush_blob_info_def flush_cfg_def demo_cfg_def at_moment_def)
  let ?e = "\<lparr>fe_composite_key = ''1.1.b'', fe_blob_name = ''b'', fe_tag_id = demo_tag, fe_total_size = 3, fe_score = f32_one\<rparr>"
  have e: "fe_composite_key ?e = ''1.1.b''" "fe_blob_name ?e = ''b''" "fe_tag_id ?e = demo_tag" "fe_total_size ?e = 3" "fe_score ?e = f32_one"
    by simp_all
  have one: "flush_blob flush_env 1 (0, 0, ?s) ?e = (3, 1, s')"
    unfolding flush_blob_def prod.case e b option.case read Let_def free put by simp
  have "filter (\<lambda>x. 1 \<le> persistence_code (ti_persistence_level (snd x))) (ml_entries (registered_targets ?s)) = [(long_term_pool, flush_p)]"
    unfolding flush_tables(3) by (simp add: flush_target_def)
  then have "FlushData flush_env 1 ?s = Inr (0, 3, 1, s')"
    unfolding FlushData_def flush_chosen sum.case foldl.simps one prod.case by simp
  then show ?thesis ..
qed

definition flush_ring :: "CteTelemetry ring_buffer" where "flush_ring = telemetry_log demo_engine"

lemma flush_fresh: "env_ok flush_cfg" "fresh_engine (flush_s0 flush_ring)"
proof -
  show "env_ok flush_cfg" using demo_env_ok by (simp add: env_ok_def flush_cfg_def)
  show "fresh_engine (flush_s0 flush_ring)" unfolding fresh_engine_def
    by (rule exI [of _ 1])+ (simp add: flush_s0_def flush_state_def ml_create_def)
qed

abbreviation flush_requests :: "(request \<times> reply) list" where
  "flush_requests \<equiv> [(flush_register_r, Code 0), (flush_put demo_bytes, Code 0), (flush_register_p, Code 0)]"

lemma flush_run: "\<exists>f tlog. engine_run flush_cfg 1 (flush_s0 flush_ring) True flush_requests (flush_s3 f tlog)"
proof -
  let ?f = "\<lambda>i. if i < 3 then demo_bytes i else 0" and ?l = "put_tlog flush_ring"
  have s: "serve flush_env flush_register_r (flush_s0 flush_ring) = (Code 0, flush_s1 flush_ring)"
    "serve flush_env (flush_put demo_bytes) (flush_s1 flush_ring) = (Code 0, flush_s2 ?f ?l)"
    "serve flush_env flush_register_p (flush_s2 ?f ?l) = (Code 0, flush_s3 ?f ?l)"
    using flush_serves_r [of "\<lambda>x. x = (Code 0, flush_s1 flush_ring)"] flush_serves_put [of "\<lambda>x. x = (Code 0, flush_s2 ?f ?l)"]
      flush_serves_p [of "\<lambda>x. x = (Code 0, flush_s3 ?f ?l)"] by simp_all
  have "within_limits flush_cfg (flush_put demo_bytes) (flush_s1 flush_ring)"
    by (simp add: within_limits_def flush_s1_def flush_state_def flush_dev_def ram_room_def ml_entries_def target_count_def)
  with engine_step [OF engine_step [OF engine_step [OF engine_start s(1)] s(2)] s(3)] show ?thesis
    by (auto simp: within_limits_def)
qed



end
