(* ===== verification/Cte_Tags.thy ===== *)
theory Cte_Tags
  imports Cte_Frame
begin

text \<open>
  Names and identifiers of tags: what \<^verbatim>\<open>GetOrCreateTag\<close> of core\_runtime.cc promises
  about the name table, and where generated identifiers clash with chosen ones.
\<close>

definition tag_of :: "'w cte_env \<Rightarrow> 'w Cte \<Rightarrow> string \<Rightarrow> TagId option" where
  "tag_of e s name = ml_find (e_hash_str e) (tag_name_to_id s) name"

definition local_id :: "'w cte_env \<Rightarrow> TagId \<Rightarrow> bool" where
  "local_id e i \<longleftrightarrow> id_major i = 0 \<or> id_major i = e_node_id e"

lemma GetOrCreateTag_local:
  assumes "local_id e i" and "GetOrAssignTagId e name i s = (t, s1)"
  shows "\<exists>s2. GetOrCreateTag e name i s = (0, t, s2) \<and> tag_name_to_id s2 = tag_name_to_id s1"
  using assms by (auto simp: GetOrCreateTag_def local_id_def split: option.split)

lemma GetOrAssignTagId_names:
  assumes "ml_inv (e_hash_str e) (tag_name_to_id s)" and "GetOrAssignTagId e name i s = (t, s1)"
  shows "tag_of e s1 n = (if n = name then Some t else tag_of e s n) \<and> (\<forall>t0. tag_of e s name = Some t0 \<longrightarrow> t = t0 \<and> s1 = s)"
proof (cases "tag_of e s name")
  case (Some t0)
  then show ?thesis using assms(2) by (auto simp: GetOrAssignTagId_def tag_of_def)
next
  case None
  have "tag_name_to_id s1 = snd (ml_insert_or_assign (e_hash_str e) name t (tag_name_to_id s))"
    using assms(2) None by (auto simp: GetOrAssignTagId_def GenerateNewTagId_def Let_def tag_of_def split: if_splits)
  then show ?thesis using None ll.lookup_upd [OF assms(1)] by (auto simp: tag_of_def)
qed

text \<open>
  C38. A tag name keeps its identifier: creating a tag with an identifier of this
  node binds the name to the identifier returned and no other name, a name bound
  before keeps its identifier, and creating the tag again returns the same
  identifier whatever identifier is asked for.
\<close>

theorem tag_create_idempotent:
  assumes "tables_ok e s" and "local_id e i" and "local_id e j"
  shows "\<exists>t s1 s2. GetOrCreateTag e name i s = (0, t, s1) \<and> GetOrCreateTag e name j s1 = (0, t, s2) \<and>
    (\<forall>n. tag_of e s1 n = (if n = name then Some t else tag_of e s n)) \<and> tag_of e s2 = tag_of e s1 \<and>
    (\<forall>t0. tag_of e s name = Some t0 \<longrightarrow> t = t0)"
proof -
  obtain t sa where a: "GetOrAssignTagId e name i s = (t, sa)" by (metis surj_pair)
  have m: "ml_inv (e_hash_str e) (tag_name_to_id s)" using assms(1) by (simp add: tables_ok_def)
  note na = GetOrAssignTagId_names [OF m a]
  obtain s1 where s1: "GetOrCreateTag e name i s = (0, t, s1)" "tag_name_to_id s1 = tag_name_to_id sa"
    using GetOrCreateTag_local [OF assms(2) a] by blast
  have n1: "tag_of e s1 n = (if n = name then Some t else tag_of e s n)" for n using na s1(2) by (simp add: tag_of_def)
  have b: "GetOrAssignTagId e name j s1 = (t, s1)" using n1 [of name] by (simp add: GetOrAssignTagId_def tag_of_def)
  obtain s2 where s2: "GetOrCreateTag e name j s1 = (0, t, s2)" "tag_name_to_id s2 = tag_name_to_id s1"
    using GetOrCreateTag_local [OF assms(3) b] by blast
  have "tag_of e s2 = tag_of e s1" using s2(2) by (simp add: tag_of_def fun_eq_iff)
  then show ?thesis using s1(1) s2(1) n1 na by blast
qed

theorem tag_create_idempotent_witness:
  "\<exists>s. tables_ok demo_cfg s \<and> local_id demo_cfg UniqueId_GetNull \<and>
    (\<exists>t s1 s2. GetOrCreateTag demo_cfg ''t'' UniqueId_GetNull s = (0, t, s1) \<and> GetOrCreateTag demo_cfg ''t'' UniqueId_GetNull s1 = (0, t, s2))"
proof -
  have t: "tables_ok demo_cfg demo_engine" using keyed_fresh [OF demo_fresh, of demo_cfg] by (simp add: keyed_def)
  have l: "local_id demo_cfg UniqueId_GetNull" by (simp add: local_id_def UniqueId_GetNull_def)
  show ?thesis using tag_create_idempotent [OF t l l, of "''t''"] t l by blast
qed

text \<open>
  An identifier chosen by a client is not reserved: when it is the one the
  counter gives out next, the next tag created without a choice gets it too.
\<close>

theorem generated_tag_id_collides:
  assumes "tables_ok e s" and "a \<noteq> b" and "tag_of e s a = None" and "tag_of e s b = None"
    and p: "p = \<lparr>id_major = e_node_id e, id_minor = next_tag_id_minor s\<rparr>" "e_node_id e \<noteq> 0" "find_tag e s p = None"
  shows "\<exists>s1 s2. GetOrCreateTag e a p s = (0, p, s1) \<and> GetOrCreateTag e b UniqueId_GetNull s1 = (0, p, s2)"
proof -
  have m: "ml_inv (e_hash_str e) (tag_name_to_id s)" using assms(1) by (simp add: tables_ok_def)
  have np: "\<not> ml_contains (e_hash_id e) (tag_id_to_info s) p" using p(3) by (simp add: ml_contains_def)
  obtain sa where a: "GetOrAssignTagId e a p s = (p, sa)" "next_tag_id_minor sa = next_tag_id_minor s"
    using assms(3) np p(1,2) by (simp add: GetOrAssignTagId_def tag_of_def Let_def log_tag_def)
  obtain s1 where s1: "GetOrCreateTag e a p s = (0, p, s1)" "tag_name_to_id s1 = tag_name_to_id sa" "next_tag_id_minor s1 = next_tag_id_minor sa"
    using a(1) p(1) by (auto simp: GetOrCreateTag_def LogTelemetry_def with_tag_def Let_def split: option.split)
  have "tag_of e s1 b = None" using GetOrAssignTagId_names [OF m a(1), of b] s1(2) assms(2,4) by (simp add: tag_of_def)
  then obtain sb where b: "GetOrAssignTagId e b UniqueId_GetNull s1 = (p, sb)"
    using s1(3) a(2) p(1) by (simp add: GetOrAssignTagId_def tag_of_def Let_def UniqueId_GetNull_def GenerateNewTagId_def)
  have "local_id e UniqueId_GetNull" by (simp add: local_id_def UniqueId_GetNull_def)
  then show ?thesis using s1(1) GetOrCreateTag_local [OF _ b] by blast
qed

end
