(* ===== verification/Slist.thy ===== *)
theory Slist
  imports Prelude
begin

text \<open>
  The intrusive singly linked list of slist\_pre.h (without atomics, as the
  allocators instantiate it). A list is a count and a head; the nodes live in
  shared memory, each starting with the 64-bit offset of the next node, and
  memory is the byte array of the backend. Offsets are 64-bit words, all ones is
  the null pointer, and a \<^verbatim>\<open>FullPtr\<close> made from an offset is null when the
  offset is not below the capacity of the backend. Dereferencing such a pointer
  is undefined behaviour of the program and is not modelled.
\<close>

section \<open>Memory words\<close>

definition load64 :: "mem \<Rightarrow> nat \<Rightarrow> u64" where
  "load64 m a = of_nat (le_val (map (\<lambda>i. m (a + i)) [0..<8]))"

definition store64 :: "mem \<Rightarrow> nat \<Rightarrow> u64 \<Rightarrow> mem" where
  "store64 m a v = (\<lambda>i. if a \<le> i \<and> i < a + 8 then le_bytes 8 (unat v) ! (i - a) else m i)"

lemma load64_store64 [mem_simps]: "load64 (store64 m a v) a = v"
proof -
  have "map (\<lambda>i. store64 m a v (a + i)) [0..<8] = le_bytes 8 (unat v)"
    by (rule nth_equalityI) (simp_all add: store64_def)
  then show ?thesis by (simp only: load64_def le_val_u64)
qed

lemma load64_cong: "(\<And>i. a \<le> i \<Longrightarrow> i < a + 8 \<Longrightarrow> m' i = m i) \<Longrightarrow> load64 m' a = load64 m a"
  unfolding load64_def by (rule arg_cong [of _ _ "\<lambda>xs. of_nat (le_val xs)"]) (simp del: upt_Suc)

lemma load64_store64_other [mem_simps]: "a + 8 \<le> b \<or> b + 8 \<le> a \<Longrightarrow> load64 (store64 m a v) b = load64 m b"
  by (rule load64_cong) (auto simp: store64_def)

lemma store64_other: "i < a \<or> a + 8 \<le> i \<Longrightarrow> store64 m a v i = m i"
  by (auto simp: store64_def)

section \<open>The list\<close>

definition null_off :: u64 where
  "null_off = - 1"

record slist =
  sl_size :: u64
  sl_head :: u64

definition slist_Init :: slist where
  "slist_Init = \<lparr>sl_size = 0, sl_head = null_off\<rparr>"

definition slist_next :: "mem \<Rightarrow> u64 \<Rightarrow> u64" where
  "slist_next m p = load64 m (unat p)"

definition SetNext :: "mem \<Rightarrow> u64 \<Rightarrow> u64 \<Rightarrow> mem" where
  "SetNext m p n = store64 m (unat p) n"

definition slist_emplace :: "u64 \<Rightarrow> slist \<times> mem \<Rightarrow> slist \<times> mem" where
  "slist_emplace node sm = (case sm of (l, m) \<Rightarrow>
     (\<lparr>sl_size = sl_size l + 1, sl_head = node\<rparr>, SetNext m node (sl_head l)))"

definition slist_pop :: "u64 \<Rightarrow> slist \<Rightarrow> mem \<Rightarrow> u64 option \<times> slist" where
  "slist_pop cap l m =
     (if sl_size l = 0 then (None, l)
      else if sl_head l = null_off then (None, l\<lparr>sl_size := 0\<rparr>)
      else if \<not> sl_head l < cap then (None, l\<lparr>sl_size := 0, sl_head := null_off\<rparr>)
      else (Some (sl_head l), \<lparr>sl_size = sl_size l - 1, sl_head = slist_next m (sl_head l)\<rparr>))"

definition slist_empty :: "slist \<Rightarrow> bool" where
  "slist_empty l \<longleftrightarrow> sl_size l = 0"

definition slist_peek :: "u64 \<Rightarrow> slist \<Rightarrow> u64 option" where
  "slist_peek cap l = (if sl_size l = 0 then None else if sl_head l < cap then Some (sl_head l) else None)"

record Iterator =
  it_current :: u64
  it_prev :: u64

definition slist_begin :: "slist \<Rightarrow> Iterator" where
  "slist_begin l = \<lparr>it_current = sl_head l, it_prev = null_off\<rparr>"

definition slist_end :: Iterator where
  "slist_end = \<lparr>it_current = null_off, it_prev = null_off\<rparr>"

definition Iterator_inc :: "mem \<Rightarrow> Iterator \<Rightarrow> Iterator" where
  "Iterator_inc m it =
     (if it_current it = null_off then slist_end
      else let next_off = slist_next m (it_current it)
           in if next_off = null_off then slist_end
              else \<lparr>it_current = next_off, it_prev = it_current it\<rparr>)"

definition PopAt :: "Iterator \<Rightarrow> slist \<times> mem \<Rightarrow> u64 option \<times> slist \<times> mem" where
  "PopAt it sm = (case sm of (l, m) \<Rightarrow>
     if it_current it = null_off then (None, l, m)
     else if sl_size l = 0 then (None, l, m)
     else let next = slist_next m (it_current it)
          in if it_prev it = null_off
             then (Some (it_current it), \<lparr>sl_size = sl_size l - 1, sl_head = next\<rparr>, m)
             else (Some (it_current it), l\<lparr>sl_size := sl_size l - 1\<rparr>, SetNext m (it_prev it) next))"

section \<open>Lists in memory\<close>

fun chain :: "mem \<Rightarrow> u64 \<Rightarrow> u64 list \<Rightarrow> bool" where
  "chain m h [] \<longleftrightarrow> h = null_off"
| "chain m h (x # xs) \<longleftrightarrow> h = x \<and> x \<noteq> null_off \<and> chain m (slist_next m x) xs"

text \<open>\<open>slist_rep cap m l xs\<close>: in memory \<open>m\<close> the list \<open>l\<close> holds the nodes \<open>xs\<close>.\<close>

definition slist_rep :: "u64 \<Rightarrow> mem \<Rightarrow> slist \<Rightarrow> u64 list \<Rightarrow> bool" where
  "slist_rep cap m l xs \<longleftrightarrow> chain m (sl_head l) xs \<and> unat (sl_size l) = length xs \<and> (\<forall>x \<in> set xs. x < cap)"

lemma chain_cong:
  "\<forall>x \<in> set xs. slist_next m' x = slist_next m x \<Longrightarrow> chain m' h xs = chain m h xs"
proof (induction xs arbitrary: h)
  case (Cons x xs)
  have n: "slist_next m' x = slist_next m x" and r: "\<forall>x \<in> set xs. slist_next m' x = slist_next m x" using Cons.prems by simp_all
  show ?case unfolding chain.simps n Cons.IH [OF r] ..
qed simp

lemma slist_rep_cong:
  "\<forall>x \<in> set xs. slist_next m' x = slist_next m x \<Longrightarrow> slist_rep cap m' l xs = slist_rep cap m l xs"
  unfolding slist_rep_def by (simp only: chain_cong)

lemma slist_rep_Init [simp]: "slist_rep cap m slist_Init []"
  by (simp add: slist_rep_def slist_Init_def)

lemma slist_next_SetNext [simp]: "slist_next (SetNext m p n) p = n"
  by (simp add: slist_next_def SetNext_def mem_simps)

lemma slist_next_SetNext_other:
  "unat p + 8 \<le> unat q \<or> unat q + 8 \<le> unat p \<Longrightarrow> slist_next (SetNext m p n) q = slist_next m q"
  by (simp add: slist_next_def SetNext_def mem_simps)

lemma slist_rep_empty: "slist_rep cap m l xs \<Longrightarrow> slist_empty l \<longleftrightarrow> xs = []"
  by (auto simp: slist_rep_def slist_empty_def unat_eq_0 [symmetric])

text \<open>Nodes do not overlap.\<close>

definition apart :: "nat \<Rightarrow> u64 \<Rightarrow> u64 \<Rightarrow> bool" where
  "apart n p q \<longleftrightarrow> unat p + n \<le> unat q \<or> unat q + n \<le> unat p"

lemma emplace_rep:
  assumes "slist_rep cap m l xs" and "node < cap" and "length xs < 2 ^ 64 - 1" and "\<forall>x \<in> set xs. apart 8 node x"
    and "slist_emplace node (l, m) = (l', m')"
  shows "slist_rep cap m' l' (node # xs)"
proof -
  have n: "node \<noteq> null_off" using assms(2) unfolding null_off_def by (metis word_order.extremum_strict)
  have c: "chain m' (sl_head l) xs = chain m (sl_head l) xs" if "m' = SetNext m node (sl_head l)"
    using assms(4) that by (intro chain_cong) (auto simp: apart_def intro!: slist_next_SetNext_other)
  have "sl_size l \<noteq> - 1" using assms(1,3) unat_max64 by (auto simp: slist_rep_def)
  then have s: "unat (sl_size l + 1) = Suc (length xs)" using assms(1) by (simp add: slist_rep_def unat_plus_one)
  show ?thesis using assms n c s by (auto simp: slist_emplace_def slist_rep_def)
qed

lemma pop_rep:
  assumes "slist_rep cap m l (x # xs)" and "slist_pop cap l m = (r, l')"
  shows "r = Some x \<and> slist_rep cap m l' xs"
proof -
  have z: "sl_size l \<noteq> 0" using assms(1) by (auto simp: slist_rep_def)
  then have s: "unat (sl_size l - 1) = length xs" using assms(1) by (simp add: slist_rep_def unat_minus_one)
  show ?thesis using assms z s by (auto simp: slist_pop_def slist_rep_def)
qed

text \<open>An iterator at position \<open>length ys\<close>: before it the nodes \<open>ys\<close>, from it on \<open>zs\<close>.\<close>

definition it_at :: "u64 list \<Rightarrow> u64 list \<Rightarrow> Iterator \<Rightarrow> bool" where
  "it_at ys zs it \<longleftrightarrow> (case zs of [] \<Rightarrow> it = slist_end
     | z # _ \<Rightarrow> it_current it = z \<and> it_prev it = (if ys = [] then null_off else last ys))"

lemma chain_append: "chain m h (ys @ zs) \<Longrightarrow> zs \<noteq> [] \<Longrightarrow> chain m (hd zs) zs"
  by (induction ys arbitrary: h) (auto simp: neq_Nil_conv)

lemma it_at_begin: "slist_rep cap m l xs \<Longrightarrow> xs \<noteq> [] \<Longrightarrow> it_at [] xs (slist_begin l)"
  by (cases xs) (auto simp: slist_rep_def it_at_def slist_begin_def)

lemma it_at_inc:
  assumes "slist_rep cap m l (ys @ z # zs)" and "it_at ys (z # zs) it"
  shows "it_at (ys @ [z]) zs (Iterator_inc m it)"
proof -
  have "chain m z (z # zs)" using chain_append [of m "sl_head l" ys "z # zs"] assms(1) by (simp add: slist_rep_def)
  then show ?thesis using assms(2) by (cases zs) (auto simp: it_at_def Iterator_inc_def)
qed

lemma chain_remove:
  assumes "chain m h (ys @ z # zs)" and "ys \<noteq> []" and "\<forall>x \<in> set (ys @ z # zs). x \<noteq> last ys \<longrightarrow> apart 8 (last ys) x"
    and "distinct (ys @ z # zs)"
  shows "chain (SetNext m (last ys) (slist_next m z)) h (ys @ zs)"
  using assms
proof (induction ys arbitrary: h)
  case (Cons y ys)
  let ?m = "SetNext m (last (y # ys)) (slist_next m z)"
  show ?case
  proof (cases "ys = []")
    case True
    have "chain ?m (slist_next m z) zs = chain m (slist_next m z) zs"
      using Cons.prems(3,4) True by (intro chain_cong) (auto simp: apart_def intro!: slist_next_SetNext_other)
    then show ?thesis using Cons.prems(1) True by simp
  next
    case False
    then have ne: "y \<noteq> last ys" using Cons.prems(4) by auto
    have "slist_next ?m y = slist_next m y"
      using Cons.prems(3) ne False by (intro slist_next_SetNext_other) (auto simp: apart_def)
    moreover have "chain (SetNext m (last ys) (slist_next m z)) (slist_next m y) (ys @ zs)"
      using Cons.IH [of "slist_next m y"] Cons.prems False by simp
    ultimately show ?thesis using Cons.prems(1) False by simp
  qed
qed simp

lemma PopAt_rep:
  assumes "slist_rep cap m l (ys @ z # zs)" and "it_at ys (z # zs) it" and "distinct (ys @ z # zs)"
    and "\<forall>x \<in> set (ys @ z # zs). \<forall>y \<in> set ys. x \<noteq> y \<longrightarrow> apart 8 y x"
    and "PopAt it (l, m) = (r, l', m')"
  shows "r = Some z \<and> slist_rep cap m' l' (ys @ zs) \<and> (\<forall>x. x \<notin> set ys \<longrightarrow> (\<forall>y \<in> set ys. apart 8 y x) \<longrightarrow> slist_next m' x = slist_next m x)"
proof -
  have z: "z \<noteq> null_off" using chain_append [of m "sl_head l" ys "z # zs"] assms(1) by (simp add: slist_rep_def)
  have n0: "sl_size l \<noteq> 0" using assms(1) by (auto simp: slist_rep_def)
  then have s: "unat (sl_size l - 1) = length (ys @ zs)" using assms(1) by (simp add: slist_rep_def unat_minus_one)
  have cap: "\<forall>x \<in> set (ys @ zs). x < cap" using assms(1) by (simp add: slist_rep_def)
  have ch: "chain m (sl_head l) (ys @ z # zs)" using assms(1) by (simp add: slist_rep_def)
  show ?thesis
  proof (cases "ys = []")
    case True
    then show ?thesis using assms(2,5) z n0 s cap ch by (auto simp: PopAt_def it_at_def slist_rep_def)
  next
    case False
    have lc: "last ys < cap" using cap False by simp
    then have ln: "last ys \<noteq> null_off" unfolding null_off_def by (metis word_order.extremum_strict)
    have ap: "\<forall>x \<in> set (ys @ z # zs). x \<noteq> last ys \<longrightarrow> apart 8 (last ys) x" using assms(4) False by auto
    have r: "r = Some z" "l' = l\<lparr>sl_size := sl_size l - 1\<rparr>" "m' = SetNext m (last ys) (slist_next m z)"
      using assms(2,5) z n0 False ln by (auto simp: PopAt_def it_at_def Let_def)
    have "chain m' (sl_head l) (ys @ zs)" unfolding r(3) by (rule chain_remove [OF ch False ap assms(3)])
    moreover have "slist_next m' x = slist_next m x" if "x \<notin> set ys" "\<forall>y \<in> set ys. apart 8 y x" for x
      unfolding r(3) using that False by (intro slist_next_SetNext_other) (auto simp: apart_def)
    ultimately show ?thesis using r s cap by (simp add: slist_rep_def)
  qed
qed

end
