(* ===== verification/Buddy.thy ===== *)
theory Buddy
  imports Slist
begin

unbundle bit_operations_syntax

text \<open>
  The buddy allocator of buddy\_allocator.h with the bump heap of heap.h: free
  lists of pages by size class, an arena for small pages and a heap for the
  rest, all inside one shared memory backend. Every page starts with a 16-byte
  header (\<^verbatim>\<open>BuddyPage\<close>): the link of the free list it is on, and its data size with
  the free flag in bit 63. Memory is the byte array of the backend, so that a
  header write really overwrites the bytes it hits.

  \<^verbatim>\<open>std::log2\<close> on the sizes at hand is exact after rounding: small sizes are at most
  16384, and for large ones only the classes below \<open>2 ^ 21\<close> are told apart. The
  loop of \<^verbatim>\<open>FindFirstFit\<close> follows pointers and need not end on a damaged list: it
  is \<open>None\<close> then.
\<close>

section \<open>Bump heap\<close>

record ShmHeap =
  hp_off :: u64
  hp_max :: u64

definition ShmHeap_Init :: "u64 \<Rightarrow> u64 \<Rightarrow> ShmHeap" where
  "ShmHeap_Init initial_offset max_offset = \<lparr>hp_off = initial_offset, hp_max = max_offset\<rparr>"

definition ShmHeap_Allocate :: "u64 \<Rightarrow> ShmHeap \<Rightarrow> u64 \<times> ShmHeap" where
  "ShmHeap_Allocate n h =
     (if hp_off h + n > hp_max h then (0, h)
      else let off = hp_off h; h1 = h\<lparr>hp_off := hp_off h + n\<rparr>; end_off = off + n
           in if end_off > hp_max h1 then (0, h1\<lparr>hp_max := end_off\<rparr>) else (off, h1))"

definition ShmHeap_GetRemainingSize :: "ShmHeap \<Rightarrow> u64" where
  "ShmHeap_GetRemainingSize h = (if hp_off h < hp_max h then hp_max h - hp_off h else 0)"

section \<open>Pages\<close>

definition sizeof_BuddyPage :: u64 where "sizeof_BuddyPage = 16"
definition kFreeMask :: u64 where "kFreeMask = push_bit 63 1"

definition size_word :: "mem \<Rightarrow> u64 \<Rightarrow> u64" where
  "size_word m p = load64 m (unat p + 8)"

definition set_size :: "u64 \<Rightarrow> u64 \<Rightarrow> mem \<Rightarrow> mem" where
  "set_size p v m = store64 m (unat p + 8) v"

definition MarkFree :: "u64 \<Rightarrow> mem \<Rightarrow> mem" where
  "MarkFree p m = set_size p (size_word m p OR kFreeMask) m"

definition MarkAllocated :: "u64 \<Rightarrow> mem \<Rightarrow> mem" where
  "MarkAllocated p m = set_size p (size_word m p AND NOT kFreeMask) m"

definition IsFree :: "mem \<Rightarrow> u64 \<Rightarrow> bool" where
  "IsFree m p \<longleftrightarrow> size_word m p AND kFreeMask \<noteq> 0"

definition GetSize :: "mem \<Rightarrow> u64 \<Rightarrow> u64" where
  "GetSize m p = size_word m p AND NOT kFreeMask"

section \<open>The allocator\<close>

definition kMinSize :: u64 where "kMinSize = 32"
definition kSmallThreshold :: u64 where "kSmallThreshold = 16384"
definition kMinLog2 :: nat where "kMinLog2 = 5"
definition kSmallLog2 :: nat where "kSmallLog2 = 14"
definition kMaxLog2 :: nat where "kMaxLog2 = 20"
definition kMaxSmallPages :: nat where "kMaxSmallPages = kSmallLog2 - kMinLog2 + 1"
definition kMaxLargePages :: nat where "kMaxLargePages = kMaxLog2 - kSmallLog2"
definition kSmallArenaSize :: u64 where "kSmallArenaSize = 65536"
definition kSmallArenaPages :: u64 where "kSmallArenaPages = 128"

record Buddy =
  bd_mem :: mem
  bd_capacity :: u64
  bd_this :: u64
  bd_data_start :: u64
  bd_region_size :: u64
  big_heap :: ShmHeap
  small_arena :: ShmHeap
  small_pages :: "slist list"
  large_pages :: "slist list"
  regions :: slist

fun ilog2 :: "nat \<Rightarrow> nat" where
  "ilog2 n = (if n < 2 then 0 else Suc (ilog2 (n div 2)))"

declare ilog2.simps [simp del]

definition ceil_log2 :: "nat \<Rightarrow> nat" where
  "ceil_log2 n = (if 2 ^ ilog2 n = n then ilog2 n else Suc (ilog2 n))"

definition GetSmallPageListIndexForAlloc :: "u64 \<Rightarrow> u64 \<times> nat" where
  "GetSmallPageListIndexForAlloc alloc_size =
     (if alloc_size \<le> kMinSize then (kMinSize, 0)
      else let lg = ceil_log2 (unat alloc_size)
           in if lg < kMinLog2 then (kMinSize, 0)
              else if kSmallLog2 < lg then (kSmallThreshold, kMaxSmallPages - 1)
              else (push_bit lg 1, lg - kMinLog2))"

definition GetSmallPageListIndexForFree :: "u64 \<Rightarrow> nat" where
  "GetSmallPageListIndexForFree n =
     (if n \<le> kMinSize then 0
      else let lg = ilog2 (unat n)
           in if lg < kMinLog2 then 0 else if kSmallLog2 < lg then kMaxSmallPages - 1 else lg - kMinLog2)"

definition GetLargePageListIndexForAlloc :: "u64 \<Rightarrow> nat" where
  "GetLargePageListIndexForAlloc n =
     (if n \<le> kSmallThreshold then 0
      else let lg = ilog2 (unat n)
           in if lg \<le> kSmallLog2 then 0 else if kMaxLog2 < lg then kMaxLargePages - 1 else lg - kSmallLog2 - 1)"

definition GetLargePageListIndexForFree :: "u64 \<Rightarrow> nat" where
  "GetLargePageListIndexForFree n = GetLargePageListIndexForAlloc n"

text \<open>Operations on one of the free lists.\<close>

definition small_emplace :: "nat \<Rightarrow> u64 \<Rightarrow> Buddy \<Rightarrow> Buddy" where
  "small_emplace i p b = (case slist_emplace p (small_pages b ! i, bd_mem b) of (l, m) \<Rightarrow>
     b\<lparr>small_pages := (small_pages b)[i := l], bd_mem := m\<rparr>)"

definition large_emplace :: "nat \<Rightarrow> u64 \<Rightarrow> Buddy \<Rightarrow> Buddy" where
  "large_emplace i p b = (case slist_emplace p (large_pages b ! i, bd_mem b) of (l, m) \<Rightarrow>
     b\<lparr>large_pages := (large_pages b)[i := l], bd_mem := m\<rparr>)"

definition small_pop :: "nat \<Rightarrow> Buddy \<Rightarrow> u64 option \<times> Buddy" where
  "small_pop i b =
     (if slist_empty (small_pages b ! i) then (None, b)
      else case slist_pop (bd_capacity b) (small_pages b ! i) (bd_mem b) of (r, l) \<Rightarrow>
        (r, b\<lparr>small_pages := (small_pages b)[i := l]\<rparr>))"

definition FinalizeAllocation :: "u64 \<Rightarrow> u64 \<Rightarrow> Buddy \<Rightarrow> u64 \<times> Buddy" where
  "FinalizeAllocation page_offset user_size b =
     (page_offset + sizeof_BuddyPage, b\<lparr>bd_mem := MarkAllocated page_offset (set_size page_offset user_size (bd_mem b))\<rparr>)"

definition new_free_page :: "u64 \<Rightarrow> u64 \<Rightarrow> Buddy \<Rightarrow> Buddy" where
  "new_free_page p data_size b =
     b\<lparr>bd_mem := MarkFree p (set_size p data_size (SetNext (bd_mem b) p null_off))\<rparr>"

definition AddRemainderToFreeList :: "u64 \<Rightarrow> u64 \<Rightarrow> Buddy \<Rightarrow> Buddy" where
  "AddRemainderToFreeList page_offset total_size b =
     (let data_size = total_size - sizeof_BuddyPage
      in if data_size \<le> kSmallThreshold
         then small_emplace (GetSmallPageListIndexForFree data_size) page_offset (new_free_page page_offset data_size b)
         else large_emplace (GetLargePageListIndexForFree data_size) page_offset (new_free_page page_offset data_size b))"

text \<open>\<^verbatim>\<open>FindFirstFit\<close>: the iterator at the first page that is large enough, or the end.\<close>

partial_function (option) find_fit_loop :: "mem \<Rightarrow> u64 \<Rightarrow> Iterator \<Rightarrow> Iterator option" where
  "find_fit_loop m required_size it =
     (if it_current it = it_current slist_end then Some slist_end
      else if required_size \<le> GetSize m (it_current it) + sizeof_BuddyPage then Some it
      else find_fit_loop m required_size (Iterator_inc m it))"

declare find_fit_loop.simps [code]

definition FindFirstFit :: "nat \<Rightarrow> u64 \<Rightarrow> Buddy \<Rightarrow> (u64 \<times> Buddy) option" where
  "FindFirstFit i required_size b =
     (if slist_empty (large_pages b ! i) then Some (0, b)
      else case find_fit_loop (bd_mem b) required_size (slist_begin (large_pages b ! i)) of
             None \<Rightarrow> None
           | Some it \<Rightarrow>
               if it_current it = it_current slist_end then Some (0, b)
               else (case PopAt it (large_pages b ! i, bd_mem b) of (_, l, m) \<Rightarrow>
                 Some (it_current it, b\<lparr>large_pages := (large_pages b)[i := l], bd_mem := m\<rparr>)))"

text \<open>
  The pages of one size class that fit into what is left of an arena. (The test
  for 0 only makes the definition total: with at most ten classes it is true.)
\<close>

function divide_class :: "nat \<Rightarrow> u64 \<times> u64 \<times> Buddy \<Rightarrow> u64 \<times> u64 \<times> Buddy" where
  "divide_class i (remaining_offset, remaining_size, b) =
     (let page_data_size = push_bit (i + kMinLog2) 1 :: u64; page_total_size = page_data_size + sizeof_BuddyPage
      in if page_total_size \<noteq> 0 \<and> page_total_size \<le> remaining_size
         then if \<not> remaining_offset < bd_capacity b then (remaining_offset, remaining_size, b)
              else divide_class i (remaining_offset + page_total_size, remaining_size - page_total_size,
                     small_emplace i remaining_offset (new_free_page remaining_offset page_data_size b))
         else (remaining_offset, remaining_size, b))"
  by pat_completeness auto

termination
proof (relation "measure (\<lambda>(_, _, r, _). unat r)", simp, goal_cases)
  case (1 i off rem b d t)
  then have "0 < unat t" "unat t \<le> unat rem" by (auto simp: unat_gt_0 word_le_nat_alt)
  then show ?case using 1 by (simp add: unat_sub word_le_nat_alt)
qed

declare divide_class.simps [simp del]

definition DivideArenaIntoPages :: "ShmHeap \<Rightarrow> Buddy \<Rightarrow> ShmHeap \<times> Buddy" where
  "DivideArenaIntoPages h b =
     (let arena_begin = hp_off h; arena_end = hp_max h; remaining_size = arena_end - arena_begin
      in if remaining_size = 0 then (h, b)
         else case foldl (\<lambda>r i. divide_class i r) (arena_begin, remaining_size, b) (rev [0..<kMaxSmallPages]) of
                (_, _, b') \<Rightarrow> (ShmHeap_Init arena_end arena_end, b'))"

text \<open>The first large page found, list by list.\<close>

fun find_arena :: "nat list \<Rightarrow> u64 \<Rightarrow> Buddy \<Rightarrow> (bool \<times> Buddy) option" where
  "find_arena [] arena_size b = Some (False, b)"
| "find_arena (i # is) arena_size b =
     (case FindFirstFit i arena_size b of
        None \<Rightarrow> None
      | Some (off, b1) \<Rightarrow>
          if off \<noteq> 0 then Some (True, b1\<lparr>small_arena := ShmHeap_Init off (off + arena_size)\<rparr>)
          else find_arena is arena_size b1)"

definition RepopulateSmallArena :: "Buddy \<Rightarrow> (bool \<times> Buddy) option" where
  "RepopulateSmallArena b =
     (let arena_size = kSmallArenaSize + kSmallArenaPages * sizeof_BuddyPage;
          (h, b1) = DivideArenaIntoPages (small_arena b) b;
          b2 = b1\<lparr>small_arena := h\<rparr>;
          (heap_offset, h') = ShmHeap_Allocate arena_size (big_heap b2);
          b3 = b2\<lparr>big_heap := h'\<rparr>
      in if heap_offset \<noteq> 0
         then Some (True, b3\<lparr>small_arena := ShmHeap_Init heap_offset (heap_offset + arena_size)\<rparr>)
         else find_arena [0..<kMaxLargePages] arena_size b3)"

definition allocate_from_heap :: "u64 \<Rightarrow> u64 \<Rightarrow> Buddy \<Rightarrow> u64 \<times> Buddy" where
  "allocate_from_heap n total_size b =
     (case ShmHeap_Allocate total_size (big_heap b) of (heap_offset, h) \<Rightarrow>
        let b1 = b\<lparr>big_heap := h\<rparr>
        in if heap_offset \<noteq> 0 then FinalizeAllocation heap_offset n b1 else (null_off, b1))"

definition AllocateSmall :: "u64 \<Rightarrow> Buddy \<Rightarrow> (u64 \<times> Buddy) option" where
  "AllocateSmall requested b =
     (let (n, list_idx) = GetSmallPageListIndexForAlloc requested
      in case small_pop list_idx b of
           (Some node, b1) \<Rightarrow> Some (FinalizeAllocation node n b1)
         | (None, b1) \<Rightarrow>
             let total_size = n + sizeof_BuddyPage;
                 (arena_offset, h) = ShmHeap_Allocate total_size (small_arena b1);
                 b2 = b1\<lparr>small_arena := h\<rparr>
             in if arena_offset \<noteq> 0 then Some (FinalizeAllocation arena_offset n b2)
                else case RepopulateSmallArena b2 of
                       None \<Rightarrow> None
                     | Some (ok, b3) \<Rightarrow>
                         (case (if ok then small_pop list_idx b3 else (None, b3)) of
                            (Some node, b4) \<Rightarrow> Some (FinalizeAllocation node n b4)
                          | (None, b4) \<Rightarrow> Some (allocate_from_heap n total_size b4)))"

text \<open>
  The loop of \<^verbatim>\<open>AllocateLarge\<close> runs its index to the last class, but searches the
  list of the first class every time.
\<close>

fun large_loop :: "nat \<Rightarrow> nat \<Rightarrow> u64 \<Rightarrow> u64 \<Rightarrow> Buddy \<Rightarrow> (u64 \<times> Buddy) option" where
  "large_loop 0 list_idx n total_size b = Some (allocate_from_heap n total_size b)"
| "large_loop (Suc k) list_idx n total_size b =
     (case FindFirstFit list_idx total_size b of
        None \<Rightarrow> None
      | Some (found_offset, b1) \<Rightarrow>
          if found_offset \<noteq> 0
          then let page_total_size = GetSize (bd_mem b1) found_offset + sizeof_BuddyPage;
                   b2 = (if page_total_size > total_size
                         then AddRemainderToFreeList (found_offset + total_size) (page_total_size - total_size) b1 else b1)
               in Some (FinalizeAllocation found_offset n b2)
          else large_loop k list_idx n total_size b1)"

definition AllocateLarge :: "u64 \<Rightarrow> Buddy \<Rightarrow> (u64 \<times> Buddy) option" where
  "AllocateLarge n b =
     (let total_size = n + sizeof_BuddyPage; list_idx = GetLargePageListIndexForAlloc n
      in large_loop (kMaxLargePages - list_idx) list_idx n total_size b)"

definition rounded_request :: "u64 \<Rightarrow> u64" where
  "rounded_request requested_size =
     (let r = (if requested_size < kMinSize then kMinSize else requested_size); kAlign = 8
      in (r + kAlign - 1) AND NOT (kAlign - 1))"

definition AllocateOffset :: "u64 \<Rightarrow> Buddy \<Rightarrow> (u64 \<times> Buddy) option" where
  "AllocateOffset requested_size b =
     (let n = rounded_request requested_size
      in if n \<le> kSmallThreshold then AllocateSmall n b else AllocateLarge n b)"

definition FreeOffsetNoNullCheck :: "u64 \<Rightarrow> Buddy \<Rightarrow> Buddy" where
  "FreeOffsetNoNullCheck off b =
     (let page_offset = off - sizeof_BuddyPage; data_size = GetSize (bd_mem b) page_offset;
          b1 = b\<lparr>bd_mem := SetNext (MarkFree page_offset (bd_mem b)) page_offset null_off\<rparr>
      in if data_size \<le> kSmallThreshold
         then small_emplace (GetSmallPageListIndexForFree data_size) page_offset b1
         else large_emplace (GetLargePageListIndexForFree data_size) page_offset b1)"

definition FreeOffset :: "u64 \<Rightarrow> Buddy \<Rightarrow> Buddy" where
  "FreeOffset off b = (if off = null_off then b else FreeOffsetNoNullCheck off b)"

definition ReallocateOffset :: "u64 \<Rightarrow> u64 \<Rightarrow> Buddy \<Rightarrow> (u64 \<times> Buddy) option" where
  "ReallocateOffset off new_size b =
     (if off = null_off then AllocateOffset new_size b
      else let old_size = GetSize (bd_mem b) (off - sizeof_BuddyPage)
           in if new_size \<le> old_size then Some (off, b)
              else case AllocateOffset new_size b of
                     None \<Rightarrow> None
                   | Some (new_off, b1) \<Rightarrow>
                       if new_off = null_off then Some (new_off, b1)
                       else Some (new_off, FreeOffset off
                              (b1\<lparr>bd_mem := memcpy (bd_mem b1) (unat new_off) (bd_mem b1) (unat off) (unat old_size)\<rparr>)))"

definition Expand :: "u64 \<Rightarrow> u64 \<Rightarrow> Buddy \<Rightarrow> Buddy" where
  "Expand region rsize b =
     (if region = null_off \<or> rsize = 0 then b
      else let (l, m) = slist_emplace region (regions b, set_size region rsize (bd_mem b));
               b1 = b\<lparr>regions := l, bd_mem := m\<rparr>;
               start = region + sizeof_BuddyPage; left = rsize - sizeof_BuddyPage;
               (_, b2) = DivideArenaIntoPages (big_heap b1) b1
           in b2\<lparr>big_heap := ShmHeap_Init start (start + left)\<rparr>)"

text \<open>
  \<open>fresh_buddy\<close> is the constructed allocator object at offset \<open>this\<close> of a backend
  of the given capacity; \<open>sz\<close> stands for \<^verbatim>\<open>sizeof(_BuddyAllocator)\<close>.
\<close>

definition fresh_buddy :: "mem \<Rightarrow> u64 \<Rightarrow> u64 \<Rightarrow> Buddy" where
  "fresh_buddy m capacity this = \<lparr>bd_mem = m, bd_capacity = capacity, bd_this = this, bd_data_start = 0, bd_region_size = 0,
     big_heap = ShmHeap_Init 0 0, small_arena = ShmHeap_Init 0 0, small_pages = replicate kMaxSmallPages slist_Init,
     large_pages = replicate kMaxLargePages slist_Init, regions = slist_Init\<rparr>"

definition shm_init :: "u64 \<Rightarrow> u64 \<Rightarrow> Buddy \<Rightarrow> bool \<times> Buddy" where
  "shm_init sz region_size0 b =
     (let region_sz = (if region_size0 = 0 then bd_capacity b - bd_this b else region_size0);
          b1 = b\<lparr>bd_region_size := region_sz, bd_data_start := sz\<rparr>
      in if region_sz < kMinSize then (False, b1)
         else let b2 = b1\<lparr>small_pages := replicate kMaxSmallPages slist_Init,
                          large_pages := replicate kMaxLargePages slist_Init\<rparr>;
                  b3 = Expand (bd_this b + sz) (region_sz - sz) b2
              in (True, b3\<lparr>small_arena := ShmHeap_Init 0 0\<rparr>))"

end
