(* ===== verification/Buddy_Inv.thy ===== *)
theory Buddy_Inv
  imports Buddy
begin

text \<open>
  Why the blocks the buddy allocator hands out never overlap: every byte of the
  managed region belongs to at most one free page, live block or heap, and
  every operation of the allocator only moves extents between these owners.
\<close>

section \<open>Who owns which byte\<close>

text \<open>
  \<open>cov a n x\<close> counts whether byte \<open>x\<close> lies in the extent of \<open>n\<close> bytes at \<open>a\<close>. Everything
  the allocator and its clients own is a sum of such counts, and owning nothing
  twice is that the sum is at most 1 at every byte. The space not cut into
  pages (the heaps, and what an operation has in its hands between two steps)
  is the count \<open>raw\<close>.
\<close>

definition cov :: "nat \<Rightarrow> nat \<Rightarrow> nat \<Rightarrow> nat" where
  "cov a n x = (if a \<le> x \<and> x < a + n then 1 else 0)"

definition page_cov :: "mem \<Rightarrow> u64 \<Rightarrow> nat \<Rightarrow> nat" where
  "page_cov m p x = cov (unat p) (16 + unat (GetSize m p)) x"

definition pages_cov :: "mem \<Rightarrow> u64 list \<Rightarrow> nat \<Rightarrow> nat" where
  "pages_cov m ps x = sum_list (map (\<lambda>p. page_cov m p x) ps)"

definition lists_cov :: "mem \<Rightarrow> u64 list list \<Rightarrow> nat \<Rightarrow> nat" where
  "lists_cov m fs x = sum_list (map (\<lambda>ps. pages_cov m ps x) fs)"

definition heap_cov :: "ShmHeap \<Rightarrow> nat \<Rightarrow> nat" where
  "heap_cov h x = cov (unat (hp_off h)) (unat (hp_max h) - unat (hp_off h)) x"

definition owned :: "mem \<Rightarrow> u64 list list \<Rightarrow> u64 list list \<Rightarrow> u64 list \<Rightarrow> nat \<Rightarrow> nat" where
  "owned m fs fl live x = lists_cov m fs x + lists_cov m fl x + pages_cov m live x"

text \<open>
  The invariant, with ghost arguments: the pages \<open>fs\<close> and \<open>fl\<close> on the free lists, the
  pages \<open>live\<close> held by clients, the space \<open>raw\<close>, and the lowest byte \<open>lo\<close>.
\<close>

definition buddy_lists :: "Buddy \<Rightarrow> u64 list list \<Rightarrow> u64 list list \<Rightarrow> bool" where
  "buddy_lists b fs fl \<longleftrightarrow> length fs = 10 \<and> length (small_pages b) = 10 \<and> length fl = 6 \<and> length (large_pages b) = 6 \<and>
     (\<forall>i < 10. slist_rep (bd_capacity b) (bd_mem b) (small_pages b ! i) (fs ! i)) \<and>
     (\<forall>i < 6. slist_rep (bd_capacity b) (bd_mem b) (large_pages b ! i) (fl ! i))"

definition buddy_sizes :: "mem \<Rightarrow> u64 list list \<Rightarrow> u64 list \<Rightarrow> bool" where
  "buddy_sizes m fs live \<longleftrightarrow> (\<forall>i < 10. \<forall>p \<in> set (fs ! i). 2 ^ (i + 5) \<le> unat (GetSize m p)) \<and>
     (\<forall>p \<in> set live. 32 \<le> unat (GetSize m p))"

definition buddy_inv :: "nat \<Rightarrow> Buddy \<Rightarrow> u64 list list \<Rightarrow> u64 list list \<Rightarrow> u64 list \<Rightarrow> (nat \<Rightarrow> nat) \<Rightarrow> bool" where
  "buddy_inv lo b fs fl live raw \<longleftrightarrow> buddy_lists b fs fl \<and> buddy_sizes (bd_mem b) fs live \<and>
     0 < lo \<and> unat (bd_capacity b) \<le> 2 ^ 62 \<and>
     (\<forall>x. owned (bd_mem b) fs fl live x + raw x \<le> 1) \<and>
     (\<forall>x. 0 < owned (bd_mem b) fs fl live x + raw x \<longrightarrow> lo \<le> x \<and> x < unat (bd_capacity b))"

lemma cov_mono: "m \<le> n \<Longrightarrow> cov a m x \<le> cov a n x"
  by (auto simp: cov_def)

lemma hdr_le_page: "cov (unat p) 16 x \<le> page_cov m p x"
  by (auto simp: cov_def page_cov_def)

lemma cov_split: "cov a (m + n) x = cov a m x + cov (a + m) n x"
  by (auto simp: cov_def)

lemma sum_list_update:
  fixes f :: "'a \<Rightarrow> nat"
  shows "i < length xs \<Longrightarrow> sum_list (map f (xs[i := y])) + f (xs ! i) = sum_list (map f xs) + f y"
proof (induction xs arbitrary: i)
  case (Cons x xs)
  then show ?case by (cases i) simp_all
qed simp

lemma lists_cov_update:
  "i < length fs \<Longrightarrow> lists_cov m (fs[i := ys]) x + pages_cov m (fs ! i) x = lists_cov m fs x + pages_cov m ys x"
  unfolding lists_cov_def by (rule sum_list_update [where f = "\<lambda>ps. pages_cov m ps x"])

lemma pages_cov_simps [simp]:
  "pages_cov m [] x = 0" "pages_cov m (p # ps) x = page_cov m p x + pages_cov m ps x"
  "pages_cov m (ps @ qs) x = pages_cov m ps x + pages_cov m qs x"
  by (simp_all add: pages_cov_def)

lemma lists_cov_replicate [simp]: "lists_cov m (replicate n []) x = 0"
  by (simp add: lists_cov_def sum_list_replicate)

lemma page_cov_le: "p \<in> set ps \<Longrightarrow> page_cov m p x \<le> pages_cov m ps x"
proof (induction ps)
  case (Cons q ps)
  then show ?case by (cases "p = q") (simp_all add: trans_le_add2)
qed simp

lemma pages_cov_le: "i < length fs \<Longrightarrow> pages_cov m (fs ! i) x \<le> lists_cov m fs x"
  using lists_cov_update [of i fs m "[]" x] by simp

lemma page_cov_two: "p \<in> set ps \<Longrightarrow> q \<in> set ps \<Longrightarrow> p \<noteq> q \<Longrightarrow> page_cov m p x + page_cov m q x \<le> pages_cov m ps x"
proof (induction ps)
  case (Cons r ps)
  consider "p = r" "q \<in> set ps" | "q = r" "p \<in> set ps" | "p \<in> set ps" "q \<in> set ps" "r \<noteq> p" "r \<noteq> q" using Cons.prems by auto
  then show ?case
  proof cases
    case 1
    then show ?thesis using page_cov_le [of q ps m x] by simp
  next
    case 2
    then show ?thesis using page_cov_le [of p ps m x] by simp
  next
    case 3
    then show ?thesis using Cons.IH Cons.prems(3) by simp
  qed
qed simp

text \<open>Two extents that never cover the same byte.\<close>

lemma cov_disjoint: "(\<And>x. cov a m x + cov b n x \<le> 1) \<Longrightarrow> 0 < m \<Longrightarrow> 0 < n \<Longrightarrow> a + m \<le> b \<or> b + n \<le> a"
proof -
  assume le: "\<And>x. cov a m x + cov b n x \<le> 1" and "0 < m" "0 < n"
  show ?thesis
  proof (rule ccontr)
    assume "\<not> ?thesis"
    then have "cov a m (max a b) = 1" "cov b n (max a b) = 1" using \<open>0 < m\<close> \<open>0 < n\<close> by (auto simp: cov_def)
    then show False using le [of "max a b"] by simp
  qed
qed

lemma page_apart:
  assumes "\<And>x. page_cov m p x + page_cov m q x \<le> 1"
  shows "apart 16 p q"
proof -
  have "unat p + (16 + unat (GetSize m p)) \<le> unat q \<or> unat q + (16 + unat (GetSize m q)) \<le> unat p"
    by (rule cov_disjoint) (simp_all only: page_cov_def [symmetric] assms add_pos_nonneg zero_less_numeral le0)
  then show ?thesis by (auto simp: apart_def)
qed

lemma pages_distinct:
  assumes "\<forall>x. pages_cov m ps x \<le> 1"
  shows "distinct ps"
  using assms
proof (induction ps)
  case (Cons p ps)
  have h: "page_cov m p x + pages_cov m ps x \<le> 1" for x using Cons.prems by simp
  have "p \<notin> set ps"
  proof
    assume "p \<in> set ps"
    then have "page_cov m p (unat p) \<le> pages_cov m ps (unat p)" by (rule page_cov_le)
    moreover have "page_cov m p (unat p) = 1" by (simp add: page_cov_def cov_def)
    ultimately show False using h [of "unat p"] by simp
  qed
  moreover have "\<forall>x. pages_cov m ps x \<le> 1" using h by (metis add_leD2)
  ultimately show ?case using Cons.IH by simp
qed simp


section \<open>Headers\<close>

lemma bit_kFreeMask: "bit kFreeMask n \<longleftrightarrow> n = 63"
  unfolding kFreeMask_def push_bit_of_1 bit_exp_iff by auto

lemma GetSize_le: "unat (GetSize m p) < 2 ^ 63"
proof -
  have "GetSize m p = take_bit 63 (size_word m p)"
    unfolding GetSize_def by (rule bit_word_eqI) (auto simp: bit_simps bit_kFreeMask)
  moreover have "unat (take_bit 63 (size_word m p)) < 2 ^ 63" unfolding unsigned_take_bit_eq by (rule take_bit_nat_less_exp)
  ultimately show ?thesis by (simp only:)
qed

lemma mask_small: "unat v < 2 ^ 63 \<Longrightarrow> v AND NOT kFreeMask = (v :: u64)"
proof -
  assume "unat v < 2 ^ 63"
  then have "take_bit 63 (unat v) = unat v" by (simp add: take_bit_nat_eq_self_iff)
  then have "take_bit 63 v = v" by (metis unsigned_take_bit_eq unsigned_word_eqI)
  then have "\<not> bit v 63" by (metis bit_take_bit_iff less_irrefl)
  then show ?thesis by (intro bit_word_eqI) (auto simp: bit_simps bit_kFreeMask)
qed

lemma or_mask_size: "(v OR kFreeMask) AND NOT kFreeMask = v AND NOT (kFreeMask :: u64)"
  by (rule bit_word_eqI) (auto simp: bit_simps)

lemma size_word_set [simp]: "size_word (set_size p v m) p = v"
  by (simp add: size_word_def set_size_def mem_simps)

lemma GetSize_cong: "(\<And>x. unat p \<le> x \<Longrightarrow> x < unat p + 16 \<Longrightarrow> m' x = m x) \<Longrightarrow> GetSize m' p = GetSize m p"
  unfolding GetSize_def size_word_def by (subst load64_cong [of "unat p + 8" m' m]) auto

lemma slist_next_cong: "(\<And>x. unat p \<le> x \<Longrightarrow> x < unat p + 16 \<Longrightarrow> m' x = m x) \<Longrightarrow> slist_next m' p = slist_next m p"
  unfolding slist_next_def by (rule load64_cong) auto

lemma GetSize_SetNext [simp]: "GetSize (SetNext m p n) p = GetSize m p"
  by (simp add: GetSize_def size_word_def SetNext_def mem_simps)

lemma GetSize_MarkFree [simp]: "GetSize (MarkFree p m) p = GetSize m p"
  by (simp add: GetSize_def MarkFree_def or_mask_size)

lemma GetSize_MarkAllocated [simp]: "GetSize (MarkAllocated p m) p = GetSize m p"
  by (simp add: GetSize_def MarkAllocated_def ac_simps)

lemma GetSize_set_size [simp]: "unat v < 2 ^ 63 \<Longrightarrow> GetSize (set_size p v m) p = v"
  by (simp add: GetSize_def mask_small)

text \<open>A header write changes nothing outside the header.\<close>

definition hdr_only :: "u64 \<Rightarrow> mem \<Rightarrow> mem \<Rightarrow> bool" where
  "hdr_only p m m' \<longleftrightarrow> (\<forall>x. x < unat p \<or> unat p + 16 \<le> x \<longrightarrow> m' x = m x)"

lemma hdr_only_writes [simp]:
  "hdr_only p m (SetNext m p n)" "hdr_only p m (set_size p v m)" "hdr_only p m (MarkFree p m)" "hdr_only p m (MarkAllocated p m)"
  by (simp_all add: hdr_only_def SetNext_def set_size_def MarkFree_def MarkAllocated_def store64_other)

lemma hdr_only_trans: "hdr_only p m m1 \<Longrightarrow> hdr_only p m1 m2 \<Longrightarrow> hdr_only p m m2"
  by (simp add: hdr_only_def)

lemma hdr_only_apart: "hdr_only p m m' \<Longrightarrow> apart 16 p q \<Longrightarrow> GetSize m' q = GetSize m q \<and> slist_next m' q = slist_next m q"
  by (auto simp: hdr_only_def apart_def intro!: GetSize_cong slist_next_cong)

lemma apart_8: "apart 16 p q \<Longrightarrow> apart 8 p q"
  by (auto simp: apart_def)

section \<open>Memory frames\<close>

lemma invD:
  assumes "buddy_inv lo b fs fl live raw"
  shows inv_lists: "buddy_lists b fs fl" and inv_sizes: "buddy_sizes (bd_mem b) fs live" and inv_lo: "0 < lo"
    and inv_cap: "unat (bd_capacity b) \<le> 2 ^ 62" and inv_once: "owned (bd_mem b) fs fl live x + raw x \<le> 1"
    and inv_inside: "0 < owned (bd_mem b) fs fl live x + raw x \<Longrightarrow> lo \<le> x \<and> x < unat (bd_capacity b)"
  using assms unfolding buddy_inv_def by (blast, blast, blast, blast, blast, metis)

definition all_pages :: "u64 list list \<Rightarrow> u64 list list \<Rightarrow> u64 list \<Rightarrow> u64 set" where
  "all_pages fs fl live = set (concat fs) \<union> set (concat fl) \<union> set live"

lemma page_owned: "p \<in> all_pages fs fl live \<Longrightarrow> page_cov m p x \<le> owned m fs fl live x"
proof -
  have *: "page_cov m p x \<le> lists_cov m gs x" if g: "p \<in> set (concat gs)" for gs
  proof -
    obtain i where i: "i < length gs" "p \<in> set (gs ! i)" using g by (metis (no_types, lifting) UN_E in_set_conv_nth set_concat)
    show ?thesis by (rule order_trans [OF page_cov_le [OF i(2)] pages_cov_le [OF i(1)]])
  qed
  assume "p \<in> all_pages fs fl live"
  then consider "p \<in> set (concat fs)" | "p \<in> set (concat fl)" | "p \<in> set live" unfolding all_pages_def by blast
  then show ?thesis
    by cases (use * [of fs] * [of fl] page_cov_le [of p live m x] in \<open>simp_all only: owned_def trans_le_add1 trans_le_add2\<close>)
qed

lemma page_inside:
  assumes "buddy_inv lo b fs fl live raw" and "p \<in> all_pages fs fl live"
  shows "lo \<le> unat p" and "unat p + 16 + unat (GetSize (bd_mem b) p) \<le> unat (bd_capacity b)" and "p < bd_capacity b"
proof -
  have i: "lo \<le> x \<and> x < unat (bd_capacity b)" if "unat p \<le> x" "x < unat p + 16 + unat (GetSize (bd_mem b) p)" for x
    using inv_inside [OF assms(1), of x] page_owned [OF assms(2), of "bd_mem b" x] that by (simp add: page_cov_def cov_def)
  show "lo \<le> unat p" using i [of "unat p"] by simp
  show e: "unat p + 16 + unat (GetSize (bd_mem b) p) \<le> unat (bd_capacity b)"
    using i [of "unat p + 15 + unat (GetSize (bd_mem b) p)"] by simp
  show "p < bd_capacity b" using e by (simp add: word_less_nat_alt)
qed

lemma pages_cov_cong: "\<forall>p \<in> set ps. GetSize m' p = GetSize m p \<Longrightarrow> pages_cov m' ps x = pages_cov m ps x"
  by (induction ps) (simp_all add: page_cov_def)

lemma lists_cov_cong: "\<forall>p \<in> set (concat gs). GetSize m' p = GetSize m p \<Longrightarrow> lists_cov m' gs x = lists_cov m gs x"
proof (induction gs)
  case (Cons ps gs)
  have h: "\<forall>p \<in> set ps. GetSize m' p = GetSize m p" and t: "\<forall>p \<in> set (concat gs). GetSize m' p = GetSize m p" using Cons.prems by auto
  show ?case using Cons.IH [OF t] pages_cov_cong [OF h, of x] by (simp add: lists_cov_def)
qed (simp add: lists_cov_def)

lemma owned_cong: "\<forall>p \<in> all_pages fs fl live. GetSize m' p = GetSize m p \<Longrightarrow> owned m' fs fl live x = owned m fs fl live x"
proof -
  assume "\<forall>p \<in> all_pages fs fl live. GetSize m' p = GetSize m p"
  then have "\<forall>p \<in> set (concat fs). GetSize m' p = GetSize m p" "\<forall>p \<in> set (concat fl). GetSize m' p = GetSize m p"
    "\<forall>p \<in> set live. GetSize m' p = GetSize m p" unfolding all_pages_def by blast+
  then show ?thesis unfolding owned_def by (simp only: pages_cov_cong lists_cov_cong)
qed

text \<open>The invariant only reads the headers of pages.\<close>

lemma inv_frame:
  assumes "buddy_inv lo b fs fl live raw"
    and "\<forall>p \<in> all_pages fs fl live. GetSize m' p = GetSize (bd_mem b) p \<and> slist_next m' p = slist_next (bd_mem b) p"
  shows "buddy_inv lo (b\<lparr>bd_mem := m'\<rparr>) fs fl live raw"
proof -
  let ?m = "bd_mem b"
  have in_list: "p \<in> all_pages fs fl live" if "p \<in> set (gs ! i)" "i < length gs" "gs = fs \<or> gs = fl" for gs i p
    using that by (auto simp: all_pages_def)
  have rep: "slist_rep c m' l (gs ! i) = slist_rep c ?m l (gs ! i)" if "i < length gs" "gs = fs \<or> gs = fl" for gs i c l
    by (rule slist_rep_cong) (use assms(2) in_list [OF _ that] in blast)
  have "buddy_lists (b\<lparr>bd_mem := m'\<rparr>) fs fl"
    using inv_lists [OF assms(1)] rep unfolding buddy_lists_def by simp
  moreover have "buddy_sizes m' fs live"
    using inv_sizes [OF assms(1)] inv_lists [OF assms(1)] assms(2) in_list [of _ fs] unfolding buddy_sizes_def buddy_lists_def all_pages_def
    by (metis UnCI)
  moreover have "owned m' fs fl live x = owned ?m fs fl live x" for x by (rule owned_cong) (use assms(2) in blast)
  ultimately show ?thesis using assms(1) unfolding buddy_inv_def by simp
qed

text \<open>Writing a header into space that is not a page.\<close>

lemma raw_apart:
  assumes "buddy_inv lo b fs fl live raw" and "\<forall>x. cov (unat p) 16 x \<le> raw x" and "q \<in> all_pages fs fl live"
  shows "apart 16 p q"
proof -
  have "unat p + 16 \<le> unat q \<or> unat q + (16 + unat (GetSize (bd_mem b) q)) \<le> unat p"
  proof (rule cov_disjoint)
    fix x
    have "page_cov (bd_mem b) q x \<le> owned (bd_mem b) fs fl live x" by (rule page_owned [OF assms(3)])
    then show "cov (unat p) 16 x + cov (unat q) (16 + unat (GetSize (bd_mem b) q)) x \<le> 1"
      using inv_once [OF assms(1), of x] assms(2) [rule_format, of x] by (simp add: page_cov_def)
  qed simp_all
  then show ?thesis by (auto simp: apart_def)
qed

lemma inv_hdr:
  assumes "buddy_inv lo b fs fl live raw" and "\<forall>x. cov (unat p) 16 x \<le> raw x" and "hdr_only p (bd_mem b) m'"
  shows "buddy_inv lo (b\<lparr>bd_mem := m'\<rparr>) fs fl live raw"
  by (rule inv_frame [OF assms(1)]) (use hdr_only_apart [OF assms(3)] raw_apart [OF assms(1,2)] in blast)


section \<open>Moving extents between owners\<close>

lemma owned_small: "i < length fs \<Longrightarrow>
    owned m (fs[i := ys]) fl live x + pages_cov m (fs ! i) x = owned m fs fl live x + pages_cov m ys x"
  using lists_cov_update [of i fs m ys x] by (simp add: owned_def)

lemma owned_large: "i < length fl \<Longrightarrow>
    owned m fs (fl[i := ys]) live x + pages_cov m (fl ! i) x = owned m fs fl live x + pages_cov m ys x"
  using lists_cov_update [of i fl m ys x] by (simp add: owned_def)

lemma owned_live: "owned m fs fl live' x + pages_cov m live x = owned m fs fl live x + pages_cov m live' x"
  by (simp add: owned_def)

lemma inv_owned_le:
  assumes "buddy_inv lo b fs fl live raw" and "buddy_lists b' fs' fl'" and "buddy_sizes (bd_mem b') fs' live'"
    and "bd_capacity b' = bd_capacity b"
    and le: "\<And>x. owned (bd_mem b') fs' fl' live' x + raw' x \<le> owned (bd_mem b) fs fl live x + raw x"
  shows "buddy_inv lo b' fs' fl' live' raw'"
  unfolding buddy_inv_def
proof (intro conjI allI impI)
  fix x
  show "owned (bd_mem b') fs' fl' live' x + raw' x \<le> 1" by (rule order_trans [OF le inv_once [OF assms(1)]])
  assume "0 < owned (bd_mem b') fs' fl' live' x + raw' x"
  then have "0 < owned (bd_mem b) fs fl live x + raw x" by (rule less_le_trans [OF _ le])
  then have i: "lo \<le> x \<and> x < unat (bd_capacity b)" by (rule inv_inside [OF assms(1)])
  show "lo \<le> x" using i by blast
  show "x < unat (bd_capacity b')" using i assms(4) by simp
next
  show "0 < lo" by (rule inv_lo [OF assms(1)])
  show "unat (bd_capacity b') \<le> 2 ^ 62" unfolding assms(4) by (rule inv_cap [OF assms(1)])
qed (rule assms(2,3))+

lemma inv_raw: "buddy_inv lo b fs fl live raw \<Longrightarrow> (\<And>x. raw' x \<le> raw x) \<Longrightarrow> buddy_inv lo b fs fl live raw'"
  by (rule inv_owned_le) (auto dest: inv_lists inv_sizes)

lemma inv_heaps: "buddy_inv lo (b\<lparr>small_arena := h\<rparr>) fs fl live raw = buddy_inv lo b fs fl live raw"
  "buddy_inv lo (b\<lparr>big_heap := h\<rparr>) fs fl live raw = buddy_inv lo b fs fl live raw"
  by (simp_all add: buddy_inv_def buddy_lists_def)

lemma inv_small:
  assumes "buddy_inv lo b fs fl live raw" and "i < 10" and "slist_rep (bd_capacity b) (bd_mem b) l ys"
    and "\<forall>p \<in> set ys. 2 ^ (i + 5) \<le> unat (GetSize (bd_mem b) p)"
    and le: "\<And>x. pages_cov (bd_mem b) ys x + raw' x \<le> pages_cov (bd_mem b) (fs ! i) x + raw x"
  shows "buddy_inv lo (b\<lparr>small_pages := (small_pages b)[i := l]\<rparr>) (fs[i := ys]) fl live raw'"
proof (rule inv_owned_le [OF assms(1)])
  have ln: "length fs = 10" using inv_lists [OF assms(1)] by (simp add: buddy_lists_def)
  show "buddy_lists (b\<lparr>small_pages := (small_pages b)[i := l]\<rparr>) (fs[i := ys]) fl"
    using inv_lists [OF assms(1)] assms(2,3) by (auto simp: buddy_lists_def nth_list_update)
  show "buddy_sizes (bd_mem (b\<lparr>small_pages := (small_pages b)[i := l]\<rparr>)) (fs[i := ys]) live"
    using inv_sizes [OF assms(1)] assms(2,4) ln by (auto simp: buddy_sizes_def nth_list_update)
  show "owned (bd_mem (b\<lparr>small_pages := (small_pages b)[i := l]\<rparr>)) (fs[i := ys]) fl live x + raw' x
      \<le> owned (bd_mem b) fs fl live x + raw x" for x
    using owned_small [of i fs "bd_mem b" ys fl live x] le [of x] ln assms(2) by simp
qed simp

lemma inv_large:
  assumes "buddy_inv lo b fs fl live raw" and "i < 6" and "slist_rep (bd_capacity b) (bd_mem b) l ys"
    and le: "\<And>x. pages_cov (bd_mem b) ys x + raw' x \<le> pages_cov (bd_mem b) (fl ! i) x + raw x"
  shows "buddy_inv lo (b\<lparr>large_pages := (large_pages b)[i := l]\<rparr>) fs (fl[i := ys]) live raw'"
proof (rule inv_owned_le [OF assms(1)])
  have ln: "length fl = 6" using inv_lists [OF assms(1)] by (simp add: buddy_lists_def)
  show "buddy_lists (b\<lparr>large_pages := (large_pages b)[i := l]\<rparr>) fs (fl[i := ys])"
    using inv_lists [OF assms(1)] assms(2,3) by (auto simp: buddy_lists_def nth_list_update)
  show "buddy_sizes (bd_mem (b\<lparr>large_pages := (large_pages b)[i := l]\<rparr>)) fs live" using inv_sizes [OF assms(1)] by simp
  show "owned (bd_mem (b\<lparr>large_pages := (large_pages b)[i := l]\<rparr>)) fs (fl[i := ys]) live x + raw' x
      \<le> owned (bd_mem b) fs fl live x + raw x" for x
    using owned_large [of i fl "bd_mem b" fs ys live x] le [of x] ln assms(2) by simp
qed simp

lemma inv_live:
  assumes "buddy_inv lo b fs fl live raw" and "\<forall>p \<in> set live'. 32 \<le> unat (GetSize (bd_mem b) p)"
    and le: "\<And>x. pages_cov (bd_mem b) live' x + raw' x \<le> pages_cov (bd_mem b) live x + raw x"
  shows "buddy_inv lo b fs fl live' raw'"
proof (rule inv_owned_le [OF assms(1) inv_lists [OF assms(1)]])
  show "buddy_sizes (bd_mem b) fs live'" using inv_sizes [OF assms(1)] assms(2) by (simp add: buddy_sizes_def)
  show "owned (bd_mem b) fs fl live' x + raw' x \<le> owned (bd_mem b) fs fl live x + raw x" for x
    using owned_live [of "bd_mem b" fs fl live' x live] le [of x] by simp
qed simp

text \<open>What the clients hold stays as it is.\<close>

definition keeps :: "u64 list \<Rightarrow> Buddy \<Rightarrow> Buddy \<Rightarrow> bool" where
  "keeps live b b' \<longleftrightarrow> bd_capacity b' = bd_capacity b \<and> (\<forall>x. 0 < pages_cov (bd_mem b) live x \<longrightarrow> bd_mem b' x = bd_mem b x)"

lemma keeps_GetSize:
  assumes "keeps live b b'" and "p \<in> set live"
  shows "GetSize (bd_mem b') p = GetSize (bd_mem b) p"
proof (rule GetSize_cong)
  fix x assume "unat p \<le> x" "x < unat p + 16"
  then have "0 < page_cov (bd_mem b) p x" by (simp add: page_cov_def cov_def)
  then have "0 < pages_cov (bd_mem b) live x" using page_cov_le [OF assms(2), of "bd_mem b" x] by simp
  then show "bd_mem b' x = bd_mem b x" using assms(1) by (simp add: keeps_def)
qed

lemma keeps_trans: "keeps live b b1 \<Longrightarrow> keeps live b1 b2 \<Longrightarrow> keeps live b b2"
proof -
  assume a: "keeps live b b1" "keeps live b1 b2"
  have "pages_cov (bd_mem b1) live x = pages_cov (bd_mem b) live x" for x
    by (rule pages_cov_cong) (use keeps_GetSize [OF a(1)] in blast)
  then show ?thesis using a by (simp add: keeps_def)
qed

lemma keeps_same: "bd_mem b' = bd_mem b \<Longrightarrow> bd_capacity b' = bd_capacity b \<Longrightarrow> keeps live b b'"
  by (simp add: keeps_def)

lemma keeps_hdr:
  assumes "buddy_inv lo b fs fl live raw" and "\<And>x. cov (unat p) 16 x + pages_cov (bd_mem b) live x \<le> 1"
    and "hdr_only p (bd_mem b) (bd_mem b')" and "bd_capacity b' = bd_capacity b"
  shows "keeps live b b'"
proof -
  have "bd_mem b' x = bd_mem b x" if l: "0 < pages_cov (bd_mem b) live x" for x
    using assms(2) [of x] assms(3) l by (auto simp: hdr_only_def cov_def split: if_splits)
  then show ?thesis using assms(4) by (simp add: keeps_def)
qed

lemma live_raw_once: "buddy_inv lo b fs fl live raw \<Longrightarrow> pages_cov (bd_mem b) live x + raw x \<le> 1"
  using inv_once [of lo b fs fl live raw x] by (simp add: owned_def)

lemma inv_hdr_keeps:
  assumes "buddy_inv lo b fs fl live raw" and "\<forall>x. cov (unat p) 16 x \<le> raw x" and "hdr_only p (bd_mem b) m'"
  shows "buddy_inv lo (b\<lparr>bd_mem := m'\<rparr>) fs fl live raw \<and> keeps live b (b\<lparr>bd_mem := m'\<rparr>)"
proof (intro conjI inv_hdr [OF assms] keeps_hdr [OF assms(1)])
  show "cov (unat p) 16 x + pages_cov (bd_mem b) live x \<le> 1" for x
    using live_raw_once [OF assms(1), of x] assms(2) [rule_format, of x] by simp
qed (simp_all add: assms(3))


text \<open>An extent in hand becomes a live block.\<close>

lemma FinalizeAllocation_inv:
  assumes "buddy_inv lo b fs fl live raw" and room: "\<And>x. cov (unat p) (16 + unat sz) x + raw' x \<le> raw x"
    and "32 \<le> unat sz" and "unat sz < 2 ^ 63" and "FinalizeAllocation p sz b = (off, b')"
  shows "buddy_inv lo b' fs fl (p # live) raw' \<and> keeps live b b' \<and> GetSize (bd_mem b') p = sz \<and> off = p + 16"
proof -
  let ?m = "MarkAllocated p (set_size p sz (bd_mem b))"
  have b': "b' = b\<lparr>bd_mem := ?m\<rparr>" "off = p + 16" using assms(5) by (auto simp: FinalizeAllocation_def sizeof_BuddyPage_def)
  have "hdr_only p (bd_mem b) ?m" by (rule hdr_only_trans [OF hdr_only_writes(2) hdr_only_writes(4)])
  moreover have "cov (unat p) 16 x \<le> raw x" for x using room [of x] by (auto simp: cov_def split: if_splits)
  ultimately have k: "buddy_inv lo b' fs fl live raw" "keeps live b b'" using inv_hdr_keeps [OF assms(1)] b'(1) by blast+
  have g: "GetSize (bd_mem b') p = sz" using assms(4) by (simp add: b')
  have "buddy_inv lo b' fs fl (p # live) raw'"
  proof (rule inv_live [OF k(1)])
    show "\<forall>q \<in> set (p # live). 32 \<le> unat (GetSize (bd_mem b') q)"
      using inv_sizes [OF k(1)] g assms(3) by (simp add: buddy_sizes_def)
    show "pages_cov (bd_mem b') (p # live) x + raw' x \<le> pages_cov (bd_mem b') live x + raw x" for x
      using room [of x] by (simp add: page_cov_def g)
  qed
  then show ?thesis using k g b'(2) by blast
qed

text \<open>A free page in hand goes to a free list.\<close>

lemma once_small: "buddy_inv lo b fs fl live raw \<Longrightarrow> i < 10 \<Longrightarrow> pages_cov (bd_mem b) (fs ! i) x \<le> 1"
  using inv_once [of lo b fs fl live raw x] pages_cov_le [of i fs "bd_mem b" x] inv_lists [of lo b fs fl live raw]
  by (simp add: owned_def buddy_lists_def)

lemma once_large: "buddy_inv lo b fs fl live raw \<Longrightarrow> i < 6 \<Longrightarrow> pages_cov (bd_mem b) (fl ! i) x \<le> 1"
  using inv_once [of lo b fs fl live raw x] pages_cov_le [of i fl "bd_mem b" x] inv_lists [of lo b fs fl live raw]
  by (simp add: owned_def buddy_lists_def)

lemma in_small: "buddy_inv lo b fs fl live raw \<Longrightarrow> i < 10 \<Longrightarrow> set (fs ! i) \<subseteq> all_pages fs fl live"
  using inv_lists [of lo b fs fl live raw] by (auto simp: all_pages_def buddy_lists_def)

lemma in_large: "buddy_inv lo b fs fl live raw \<Longrightarrow> i < 6 \<Longrightarrow> set (fl ! i) \<subseteq> all_pages fs fl live"
  using inv_lists [of lo b fs fl live raw] by (auto simp: all_pages_def buddy_lists_def)

lemma short_list:
  assumes "distinct xs" and "\<forall>p \<in> set xs. p < c"
  shows "length xs \<le> unat (c :: u64)"
proof -
  have "inj_on unat (set xs)" by (rule inj_onI) (rule unsigned_word_eqI)
  then have "length xs = card (unat ` set xs)" using assms(1) by (simp add: distinct_card card_image)
  also have "\<dots> \<le> card {..<unat c}" by (rule card_mono) (use assms(2) in \<open>auto simp: word_less_nat_alt\<close>)
  finally show ?thesis by simp
qed

lemma emplace_inv:
  assumes "buddy_inv lo b fs fl live raw" and room: "\<And>x. page_cov (bd_mem b) p x \<le> raw x"
    and rep: "slist_rep (bd_capacity b) (bd_mem b) l xs" and "set xs \<subseteq> all_pages fs fl live" and once: "\<And>x. pages_cov (bd_mem b) xs x \<le> 1"
    and e: "slist_emplace p (l, bd_mem b) = (l', m')"
  shows "slist_rep (bd_capacity b) m' l' (p # xs)" and "buddy_inv lo (b\<lparr>bd_mem := m'\<rparr>) fs fl live raw"
    and "keeps live b (b\<lparr>bd_mem := m'\<rparr>)" and "GetSize m' p = GetSize (bd_mem b) p"
    and "\<forall>q \<in> all_pages fs fl live. GetSize m' q = GetSize (bd_mem b) q"
proof -
  have c: "\<forall>x. cov (unat p) 16 x \<le> raw x"
    by (rule allI, rule order_trans [OF hdr_le_page room])
  have m': "m' = SetNext (bd_mem b) p (sl_head l)" using e by (simp add: slist_emplace_def)
  have h: "hdr_only p (bd_mem b) m'" by (simp add: m')
  show k: "buddy_inv lo (b\<lparr>bd_mem := m'\<rparr>) fs fl live raw" "keeps live b (b\<lparr>bd_mem := m'\<rparr>)" using inv_hdr_keeps [OF assms(1) c h] by blast+
  show "GetSize m' p = GetSize (bd_mem b) p" by (simp add: m')
  show "\<forall>q \<in> all_pages fs fl live. GetSize m' q = GetSize (bd_mem b) q"
    using hdr_only_apart [OF h] raw_apart [OF assms(1) c] by blast
  have "0 < raw (unat p)" using c [rule_format, of "unat p"] by (simp add: cov_def)
  then have pc: "p < bd_capacity b" using inv_inside [OF assms(1), of "unat p"] by (simp add: word_less_nat_alt)
  have "distinct xs" by (rule pages_distinct [of "bd_mem b"]) (use once in blast)
  then have "length xs \<le> unat (bd_capacity b)" using rep by (intro short_list) (auto simp: slist_rep_def)
  then have ln: "length xs < 2 ^ 64 - 1" using inv_cap [OF assms(1)] by (simp add: le_less_trans)
  have "\<forall>x \<in> set xs. apart 8 p x" using raw_apart [OF assms(1) c] assms(4) by (blast intro: apart_8)
  then show "slist_rep (bd_capacity b) m' l' (p # xs)" by (rule emplace_rep [OF rep pc ln _ e])
qed

lemma small_emplace_inv:
  assumes "buddy_inv lo b fs fl live raw" and room: "\<And>x. page_cov (bd_mem b) p x + raw' x \<le> raw x"
    and "i < 10" and "2 ^ (i + 5) \<le> unat (GetSize (bd_mem b) p)"
  shows "buddy_inv lo (small_emplace i p b) (fs[i := p # fs ! i]) fl live raw' \<and> keeps live b (small_emplace i p b)"
proof -
  obtain l' m' where e: "slist_emplace p (small_pages b ! i, bd_mem b) = (l', m')" by (metis surj_pair)
  have rep: "slist_rep (bd_capacity b) (bd_mem b) (small_pages b ! i) (fs ! i)"
    using inv_lists [OF assms(1)] assms(3) by (simp add: buddy_lists_def)
  have room': "\<And>x. page_cov (bd_mem b) p x \<le> raw x" by (rule add_leD1 [OF room])
  note k = emplace_inv [OF assms(1) room' rep in_small [OF assms(1,3)] once_small [OF assms(1,3)] e]
  have s: "small_emplace i p b = (b\<lparr>bd_mem := m'\<rparr>)\<lparr>small_pages := (small_pages (b\<lparr>bd_mem := m'\<rparr>))[i := l']\<rparr>"
    by (simp add: small_emplace_def e)
  have "buddy_inv lo (small_emplace i p b) (fs[i := p # fs ! i]) fl live raw'"
    unfolding s
  proof (rule inv_small [OF k(2) assms(3)])
    show "slist_rep (bd_capacity (b\<lparr>bd_mem := m'\<rparr>)) (bd_mem (b\<lparr>bd_mem := m'\<rparr>)) l' (p # fs ! i)" using k(1) by simp
    show "\<forall>q \<in> set (p # fs ! i). 2 ^ (i + 5) \<le> unat (GetSize (bd_mem (b\<lparr>bd_mem := m'\<rparr>)) q)"
      using inv_sizes [OF k(2)] assms(3,4) k(4) by (auto simp: buddy_sizes_def)
    show "pages_cov (bd_mem (b\<lparr>bd_mem := m'\<rparr>)) (p # fs ! i) x + raw' x \<le> pages_cov (bd_mem (b\<lparr>bd_mem := m'\<rparr>)) (fs ! i) x + raw x" for x
      using room [of x] k(4) by (simp add: page_cov_def)
  qed
  moreover have "keeps live b (small_emplace i p b)" using k(3) by (simp add: s keeps_def)
  ultimately show ?thesis by blast
qed

lemma large_emplace_inv:
  assumes "buddy_inv lo b fs fl live raw" and room: "\<And>x. page_cov (bd_mem b) p x + raw' x \<le> raw x" and "i < 6"
  shows "buddy_inv lo (large_emplace i p b) fs (fl[i := p # fl ! i]) live raw' \<and> keeps live b (large_emplace i p b)"
proof -
  obtain l' m' where e: "slist_emplace p (large_pages b ! i, bd_mem b) = (l', m')" by (metis surj_pair)
  have rep: "slist_rep (bd_capacity b) (bd_mem b) (large_pages b ! i) (fl ! i)"
    using inv_lists [OF assms(1)] assms(3) by (simp add: buddy_lists_def)
  have room': "\<And>x. page_cov (bd_mem b) p x \<le> raw x" by (rule add_leD1 [OF room])
  note k = emplace_inv [OF assms(1) room' rep in_large [OF assms(1,3)] once_large [OF assms(1,3)] e]
  have s: "large_emplace i p b = (b\<lparr>bd_mem := m'\<rparr>)\<lparr>large_pages := (large_pages (b\<lparr>bd_mem := m'\<rparr>))[i := l']\<rparr>"
    by (simp add: large_emplace_def e)
  have "buddy_inv lo (large_emplace i p b) fs (fl[i := p # fl ! i]) live raw'"
    unfolding s
  proof (rule inv_large [OF k(2) assms(3)])
    show "slist_rep (bd_capacity (b\<lparr>bd_mem := m'\<rparr>)) (bd_mem (b\<lparr>bd_mem := m'\<rparr>)) l' (p # fl ! i)" using k(1) by simp
    show "pages_cov (bd_mem (b\<lparr>bd_mem := m'\<rparr>)) (p # fl ! i) x + raw' x \<le> pages_cov (bd_mem (b\<lparr>bd_mem := m'\<rparr>)) (fl ! i) x + raw x" for x
      using room [of x] k(4) by (simp add: page_cov_def)
  qed
  moreover have "keeps live b (large_emplace i p b)" using k(3) by (simp add: s keeps_def)
  ultimately show ?thesis by blast
qed


text \<open>A page leaves its free list.\<close>

lemma small_pop_inv:
  assumes "buddy_inv lo b fs fl live raw" and "i < 10" and "small_pop i b = (r, b')"
  obtains (empty) "r = None" "b' = b" "fs ! i = []"
    | (page) p ps where "r = Some p" "fs ! i = p # ps" "2 ^ (i + 5) \<le> unat (GetSize (bd_mem b) p)"
      "buddy_inv lo b' (fs[i := ps]) fl live (\<lambda>x. page_cov (bd_mem b) p x + raw x)"
      "bd_mem b' = bd_mem b" "bd_capacity b' = bd_capacity b" "small_arena b' = small_arena b" "big_heap b' = big_heap b"
proof -
  have rep: "slist_rep (bd_capacity b) (bd_mem b) (small_pages b ! i) (fs ! i)"
    using inv_lists [OF assms(1)] assms(2) by (simp add: buddy_lists_def)
  show thesis
  proof (cases "fs ! i")
    case Nil
    then show thesis using assms(3) slist_rep_empty [OF rep] by (intro empty) (auto simp: small_pop_def)
  next
    case (Cons p ps)
    obtain r' l where q: "slist_pop (bd_capacity b) (small_pages b ! i) (bd_mem b) = (r', l)" by (metis surj_pair)
    have b': "r = r'" "b' = b\<lparr>small_pages := (small_pages b)[i := l]\<rparr>"
      using assms(3) slist_rep_empty [OF rep] Cons by (auto simp: small_pop_def q)
    have r: "r' = Some p" "slist_rep (bd_capacity b) (bd_mem b) l ps" using pop_rep [OF rep [unfolded Cons] q] by blast+
    have sz: "\<forall>q \<in> set (p # ps). 2 ^ (i + 5) \<le> unat (GetSize (bd_mem b) q)"
      using inv_sizes [OF assms(1)] assms(2) Cons by (metis buddy_sizes_def)
    have "buddy_inv lo b' (fs[i := ps]) fl live (\<lambda>x. page_cov (bd_mem b) p x + raw x)"
      unfolding b' by (rule inv_small [OF assms(1,2) r(2)]) (use sz Cons in simp_all)
    then show thesis using b' r(1) Cons sz by (intro page) simp_all
  qed
qed

lemma find_fit_loop_spec:
  assumes "slist_rep c m l (ys @ zs)" and "it_at ys zs it"
  shows "\<exists>it'. find_fit_loop m req it = Some it' \<and> (it' = slist_end \<or>
     (\<exists>ys' z zs'. ys @ zs = ys' @ z # zs' \<and> it_at ys' (z # zs') it' \<and> it_current it' = z \<and> z < c \<and> req \<le> GetSize m z + sizeof_BuddyPage))"
  using assms
proof (induction zs arbitrary: ys it)
  case Nil
  then show ?case by (simp add: it_at_def find_fit_loop.simps)
next
  case (Cons z zs)
  have cur: "it_current it = z" using Cons.prems(2) by (simp add: it_at_def)
  have zc: "z < c" using Cons.prems(1) by (simp add: slist_rep_def)
  then have "z \<noteq> it_current slist_end" unfolding slist_end_def null_off_def by (simp, metis word_order.extremum_strict)
  then have step: "find_fit_loop m req it = (if req \<le> GetSize m z + sizeof_BuddyPage then Some it else find_fit_loop m req (Iterator_inc m it))"
    by (subst find_fit_loop.simps) (simp add: cur)
  show ?case
  proof (cases "req \<le> GetSize m z + sizeof_BuddyPage")
    case True
    then show ?thesis using step Cons.prems(2) cur zc by auto
  next
    case False
    have "it_at (ys @ [z]) zs (Iterator_inc m it)" by (rule it_at_inc [OF Cons.prems])
    then show ?thesis using Cons.IH [of "ys @ [z]" "Iterator_inc m it"] Cons.prems(1) step False by simp
  qed
qed

lemma unat_total: "unat (GetSize m p + sizeof_BuddyPage) = 16 + unat (GetSize m p)"
  using GetSize_le [of m p] by (subst unat_add_no_overflow) (simp_all add: sizeof_BuddyPage_def)

lemma two_apart:
  assumes "\<And>x. pages_cov m xs x \<le> 1" and "p \<in> set xs" "q \<in> set xs" "p \<noteq> q"
  shows "apart 16 p q"
  by (rule page_apart [of m]) (rule order_trans [OF page_cov_two [OF assms(2-4)] assms(1)])

lemma PopAt_inv:
  assumes "buddy_inv lo b fs fl live raw" and "i < 6" and l: "fl ! i = ys @ z # zs" and "it_at ys (z # zs) it"
    and q: "PopAt it (large_pages b ! i, bd_mem b) = (r, l', m')"
    and b': "b' = b\<lparr>large_pages := (large_pages b)[i := l'], bd_mem := m'\<rparr>"
  shows "buddy_inv lo b' fs (fl[i := ys @ zs]) live (\<lambda>x. page_cov (bd_mem b) z x + raw x) \<and> keeps live b b' \<and>
    GetSize m' z = GetSize (bd_mem b) z"
proof -
  let ?raw1 = "\<lambda>x. pages_cov (bd_mem b) (fl ! i) x + raw x" and ?bA = "b\<lparr>large_pages := (large_pages b)[i := slist_Init]\<rparr>"
  have rep: "slist_rep (bd_capacity b) (bd_mem b) (large_pages b ! i) (ys @ z # zs)" and ln: "length fl = 6"
    using inv_lists [OF assms(1)] assms(2) l by (auto simp: buddy_lists_def)
  note once = once_large [OF assms(1,2), unfolded l]
  have d: "distinct (ys @ z # zs)" by (rule pages_distinct [of "bd_mem b"]) (use once in blast)
  have ap: "apart 16 y x" if "x \<in> set (ys @ z # zs)" "y \<in> set (ys @ z # zs)" "x \<noteq> y" for x y
    by (rule two_apart [OF once that(2,1)]) (use that(3) in simp)
  have "\<forall>x \<in> set (ys @ z # zs). \<forall>y \<in> set ys. x \<noteq> y \<longrightarrow> apart 8 y x" by (intro ballI impI apart_8 ap) auto
  then have rep': "slist_rep (bd_capacity b) m' l' (ys @ zs)" using PopAt_rep [OF rep assms(4) d _ q] by blast
  have "m' = bd_mem b \<or> ys \<noteq> [] \<and> (\<exists>v. m' = SetNext (bd_mem b) (last ys) v)"
    using q assms(4) by (auto simp: PopAt_def it_at_def Let_def split: if_splits)
  then have m': "m' = bd_mem b \<or> (\<exists>y v. y \<in> set ys \<and> m' = SetNext (bd_mem b) y v)" by (metis last_in_set)
  have sz: "GetSize m' p = GetSize (bd_mem b) p" if "p \<in> set (ys @ z # zs)" for p
    using m'
  proof (elim disjE exE conjE)
    fix y v assume y: "y \<in> set ys" "m' = SetNext (bd_mem b) y v"
    show ?thesis
    proof (cases "p = y")
      case False
      then have "apart 16 y p" by (intro ap) (use that y(1) in auto)
      then show ?thesis using hdr_only_apart [OF hdr_only_writes(1)] y(2) by blast
    qed (simp add: y(2))
  qed simp
  have A: "buddy_inv lo ?bA fs (fl[i := []]) live ?raw1"
    by (rule inv_large [OF assms(1,2)]) simp_all
  have B: "buddy_inv lo (?bA\<lparr>bd_mem := m'\<rparr>) fs (fl[i := []]) live ?raw1 \<and> keeps live ?bA (?bA\<lparr>bd_mem := m'\<rparr>)"
    using m'
  proof (elim disjE exE conjE)
    assume "m' = bd_mem b"
    then show ?thesis using A by (simp add: keeps_def)
  next
    fix y v assume y: "y \<in> set ys" "m' = SetNext (bd_mem b) y v"
    have "page_cov (bd_mem b) y x \<le> ?raw1 x" for x using page_cov_le [of y "fl ! i" "bd_mem b" x] y(1) l by simp
    then have "\<forall>x. cov (unat y) 16 x \<le> ?raw1 x" by (blast intro: order_trans [OF hdr_le_page])
    then show ?thesis by (rule inv_hdr_keeps [OF A]) (simp add: y(2))
  qed
  let ?bB = "?bA\<lparr>bd_mem := m'\<rparr>"
  have e: "b' = ?bB\<lparr>large_pages := (large_pages ?bB)[i := l']\<rparr>" by (simp add: b')
  have "buddy_inv lo b' fs ((fl[i := []])[i := ys @ zs]) live (\<lambda>x. page_cov (bd_mem b) z x + raw x)"
    unfolding e
  proof (rule inv_large [OF conjunct1 [OF B] assms(2)])
    show "slist_rep (bd_capacity ?bB) (bd_mem ?bB) l' (ys @ zs)" using rep' by simp
    show "pages_cov (bd_mem ?bB) (ys @ zs) x + (page_cov (bd_mem b) z x + raw x) \<le> pages_cov (bd_mem ?bB) (fl[i := []] ! i) x + ?raw1 x" for x
    proof -
      have "pages_cov m' (ys @ zs) x = pages_cov (bd_mem b) (ys @ zs) x" by (rule pages_cov_cong) (use sz in auto)
      then show ?thesis using l ln assms(2) by simp
    qed
  qed
  then have "buddy_inv lo b' fs (fl[i := ys @ zs]) live (\<lambda>x. page_cov (bd_mem b) z x + raw x)" by simp
  moreover have "keeps live b b'" using B by (simp add: b' keeps_def)
  ultimately show ?thesis using sz [of z] by simp
qed


lemma FindFirstFit_inv:
  assumes "buddy_inv lo b fs fl live raw" and "i < 6"
  obtains (none) "FindFirstFit i req b = Some (0, b)"
    | (page) p b' fl' where "FindFirstFit i req b = Some (p, b')" "p \<noteq> 0" "unat req \<le> 16 + unat (GetSize (bd_mem b) p)"
      "buddy_inv lo b' fs fl' live (\<lambda>x. page_cov (bd_mem b) p x + raw x)" "keeps live b b'"
      "GetSize (bd_mem b') p = GetSize (bd_mem b) p" "small_arena b' = small_arena b" "big_heap b' = big_heap b"
proof -
  let ?l = "large_pages b ! i"
  have rep: "slist_rep (bd_capacity b) (bd_mem b) ?l (fl ! i)" using inv_lists [OF assms(1)] assms(2) by (simp add: buddy_lists_def)
  show thesis
  proof (cases "fl ! i = []")
    case True
    then show thesis using slist_rep_empty [OF rep] by (intro none) (simp add: FindFirstFit_def)
  next
    case False
    have e: "\<not> slist_empty ?l" using slist_rep_empty [OF rep] False by simp
    have "slist_rep (bd_capacity b) (bd_mem b) ?l ([] @ fl ! i)" using rep by simp
    then obtain it where it: "find_fit_loop (bd_mem b) req (slist_begin ?l) = Some it"
      and c: "it = slist_end \<or> (\<exists>ys z zs. [] @ fl ! i = ys @ z # zs \<and> it_at ys (z # zs) it \<and> it_current it = z \<and>
        z < bd_capacity b \<and> req \<le> GetSize (bd_mem b) z + sizeof_BuddyPage)"
      using find_fit_loop_spec [OF _ it_at_begin [OF rep False]] by blast
    from c show thesis
    proof (elim disjE exE conjE)
      assume "it = slist_end"
      then show thesis using e it by (intro none) (simp add: FindFirstFit_def)
    next
      fix ys z zs
      assume z: "[] @ fl ! i = ys @ z # zs" "it_at ys (z # zs) it" "it_current it = z" "z < bd_capacity b"
        "req \<le> GetSize (bd_mem b) z + sizeof_BuddyPage"
      obtain r l' m' where q: "PopAt it (?l, bd_mem b) = (r, l', m')" by (metis surj_pair)
      define b' where "b' = b\<lparr>large_pages := (large_pages b)[i := l'], bd_mem := m'\<rparr>"
      have "z \<noteq> it_current slist_end" using z(4) unfolding slist_end_def null_off_def by (simp, metis word_order.extremum_strict)
      then have f: "FindFirstFit i req b = Some (z, b')" using e it q z(3) by (simp add: FindFirstFit_def b'_def)
      have l: "fl ! i = ys @ z # zs" using z(1) by simp
      note k = PopAt_inv [OF assms l z(2) q b'_def]
      have "z \<in> all_pages fs fl live" using in_large [OF assms] l by auto
      then have "lo \<le> unat z" by (rule page_inside [OF assms(1)])
      then have "z \<noteq> 0" using inv_lo [OF assms(1)] by auto
      moreover have "unat req \<le> 16 + unat (GetSize (bd_mem b) z)" using z(5) by (simp add: word_le_nat_alt unat_total)
      ultimately show thesis using k f by (intro page [of z b' "fl[i := ys @ zs]"]) (simp_all add: b'_def)
    qed
  qed
qed

section \<open>Heaps\<close>

definition heap_ok :: "ShmHeap \<Rightarrow> bool" where
  "heap_ok h \<longleftrightarrow> hp_off h \<le> hp_max h \<and> unat (hp_max h) \<le> 2 ^ 62"

definition ext_cov :: "u64 \<Rightarrow> u64 \<Rightarrow> nat \<Rightarrow> nat" where
  "ext_cov p n x = cov (unat p) (unat n) x"

lemma heap_cov_end [simp]: "heap_cov (ShmHeap_Init e e) x = 0"
  by (simp add: heap_cov_def ShmHeap_Init_def cov_def)

lemma heap_init:
  assumes "unat p + unat n \<le> 2 ^ 62"
  shows "heap_cov (ShmHeap_Init p (p + n)) = ext_cov p n" and "heap_ok (ShmHeap_Init p (p + n))"
proof -
  have "unat (p + n) = unat p + unat n" by (rule unat_add_no_overflow) (use assms in simp)
  then show "heap_cov (ShmHeap_Init p (p + n)) = ext_cov p n" "heap_ok (ShmHeap_Init p (p + n))"
    using assms by (auto simp: heap_cov_def ShmHeap_Init_def ext_cov_def heap_ok_def word_le_nat_alt)
qed

text \<open>Space taken from a heap that does not hold byte 0.\<close>

lemma ShmHeap_Allocate_spec:
  assumes "heap_ok h" and "heap_cov h 0 = 0" and "0 < unat n" and "unat n \<le> 2 ^ 63"
    and "ShmHeap_Allocate n h = (off, h')"
  shows "(off = 0 \<and> h' = h) \<or>
    (off \<noteq> 0 \<and> heap_ok h' \<and> (\<forall>x. heap_cov h x = ext_cov off n x + heap_cov h' x) \<and> unat off + unat n \<le> 2 ^ 62)"
proof -
  have lt: "unat (hp_off h) \<le> unat (hp_max h)" "unat (hp_max h) \<le> 2 ^ 62" using assms(1) by (auto simp: heap_ok_def word_le_nat_alt)
  have s: "unat (hp_off h + n) = unat (hp_off h) + unat n"
    by (rule unat_add_no_overflow) (use lt assms(4) in simp)
  show ?thesis
  proof (cases "hp_off h + n > hp_max h")
    case True
    then show ?thesis using assms(5) by (simp add: ShmHeap_Allocate_def)
  next
    case False
    then have le: "unat (hp_off h) + unat n \<le> unat (hp_max h)" by (simp add: word_less_nat_alt s)
    have o: "off = hp_off h" "h' = h\<lparr>hp_off := hp_off h + n\<rparr>" using assms(5) False by (auto simp: ShmHeap_Allocate_def Let_def)
    have "heap_ok h'" using False lt by (simp add: o heap_ok_def linorder_not_less)
    moreover have "heap_cov h x = ext_cov off n x + heap_cov h' x" for x
      using le by (simp add: o heap_cov_def ext_cov_def s cov_split [symmetric])
    moreover have "off \<noteq> 0" using assms(2,3) le by (auto simp: o heap_cov_def cov_def)
    ultimately show ?thesis using le lt(2) o(1) by simp
  qed
qed


section \<open>New free pages\<close>

definition same_heaps :: "Buddy \<Rightarrow> Buddy \<Rightarrow> bool" where
  "same_heaps b b' \<longleftrightarrow> small_arena b' = small_arena b \<and> big_heap b' = big_heap b"

lemma same_heaps_ops [simp]:
  "same_heaps b (small_emplace i p (new_free_page p d b))" "same_heaps b (large_emplace i p (new_free_page p d b))"
  by (simp_all add: same_heaps_def small_emplace_def large_emplace_def new_free_page_def split: prod.split)

lemma same_heaps_trans: "same_heaps b b1 \<Longrightarrow> same_heaps b1 b2 \<Longrightarrow> same_heaps b b2"
  by (simp add: same_heaps_def)

lemma new_free_page_inv:
  assumes "buddy_inv lo b fs fl live raw" and room: "\<And>x. cov (unat p) (16 + unat d) x + raw' x \<le> raw x" and "unat d < 2 ^ 63"
  shows "buddy_inv lo (new_free_page p d b) fs fl live raw" and "keeps live b (new_free_page p d b)"
    and "GetSize (bd_mem (new_free_page p d b)) p = d"
    and "page_cov (bd_mem (new_free_page p d b)) p x + raw' x \<le> raw x"
proof -
  let ?m = "MarkFree p (set_size p d (SetNext (bd_mem b) p null_off))"
  have h: "hdr_only p (bd_mem b) ?m"
    by (rule hdr_only_trans [OF hdr_only_writes(1) hdr_only_trans [OF hdr_only_writes(2,3)]])
  have "\<forall>x. cov (unat p) 16 x \<le> raw x" by (intro allI order_trans [OF cov_mono [OF le_add1] add_leD1 [OF room]])
  then show "buddy_inv lo (new_free_page p d b) fs fl live raw" "keeps live b (new_free_page p d b)"
    using inv_hdr_keeps [OF assms(1) _ h] by (simp_all add: new_free_page_def)
  show g: "GetSize (bd_mem (new_free_page p d b)) p = d" using assms(3) by (simp add: new_free_page_def)
  show "page_cov (bd_mem (new_free_page p d b)) p x + raw' x \<le> raw x" using room [of x] by (simp add: page_cov_def g)
qed

lemma new_small_page:
  assumes "buddy_inv lo b fs fl live raw" and room: "\<And>x. cov (unat p) (16 + unat d) x + raw' x \<le> raw x" and "unat d < 2 ^ 63"
    and "i < 10" and "2 ^ (i + 5) \<le> unat d"
  shows "buddy_inv lo (small_emplace i p (new_free_page p d b)) (fs[i := p # fs ! i]) fl live raw' \<and>
    keeps live b (small_emplace i p (new_free_page p d b))"
proof -
  note k = new_free_page_inv [OF assms(1-3)]
  have "2 ^ (i + 5) \<le> unat (GetSize (bd_mem (new_free_page p d b)) p)" using assms(5) k(3) by simp
  then show ?thesis using small_emplace_inv [OF k(1) k(4) assms(4)] keeps_trans [OF k(2)] by blast
qed

lemma new_large_page:
  assumes "buddy_inv lo b fs fl live raw" and room: "\<And>x. cov (unat p) (16 + unat d) x + raw' x \<le> raw x" and "unat d < 2 ^ 63"
    and "i < 6"
  shows "buddy_inv lo (large_emplace i p (new_free_page p d b)) fs (fl[i := p # fl ! i]) live raw' \<and>
    keeps live b (large_emplace i p (new_free_page p d b))"
proof -
  note k = new_free_page_inv [OF assms(1-3)]
  show ?thesis using large_emplace_inv [OF k(1) k(4) assms(4)] keeps_trans [OF k(2)] by blast
qed

section \<open>Dividing an arena\<close>

lemma unat_exp2: "k < 63 \<Longrightarrow> unat (push_bit k 1 :: u64) = 2 ^ k"
proof -
  assume "k < 63"
  then have "(2 :: nat) ^ k < 2 ^ 64" by (intro power_strict_increasing) simp_all
  then have "take_bit 64 (2 ^ k :: nat) = 2 ^ k" by (rule take_bit_nat_eq_self)
  then show ?thesis unfolding unsigned_push_bit_eq by (simp only: push_bit_of_1 unsigned_1 len_num1) simp
qed

lemma ext_cov_split: "unat n \<le> unat rem \<Longrightarrow> unat p + unat rem \<le> 2 ^ 62 \<Longrightarrow>
    ext_cov p rem x = cov (unat p) (unat n) x + ext_cov (p + n) (rem - n) x \<and> unat (p + n) + unat (rem - n) \<le> 2 ^ 62"
proof -
  assume a: "unat n \<le> unat rem" "unat p + unat rem \<le> 2 ^ 62"
  have "unat (p + n) = unat p + unat n" by (rule unat_add_no_overflow) (use a in simp)
  moreover have "unat (rem - n) = unat rem - unat n" by (rule unat_sub_no_underflow) (use a in \<open>simp add: word_le_nat_alt\<close>)
  ultimately show ?thesis using a by (simp add: ext_cov_def cov_split [symmetric])
qed

lemma divide_class_inv:
  assumes "divide_class i (off, rem, b) = (off', rem', b')"
    and "buddy_inv lo b fs fl live (\<lambda>x. ext_cov off rem x + raw x)" and "unat off + unat rem \<le> 2 ^ 62" and "i < 10"
  shows "\<exists>fs'. buddy_inv lo b' fs' fl live (\<lambda>x. ext_cov off' rem' x + raw x) \<and> keeps live b b' \<and> same_heaps b b' \<and>
    unat off' + unat rem' \<le> 2 ^ 62"
  using assms
proof (induction i "(off, rem, b)" arbitrary: off rem b fs rule: divide_class.induct)
  case (1 i off rem b)
  let ?d = "push_bit (i + kMinLog2) 1 :: u64" and ?t = "push_bit (i + kMinLog2) 1 + sizeof_BuddyPage :: u64"
  have d: "unat ?d = 2 ^ (i + 5)" unfolding kMinLog2_def by (rule unat_exp2) (use 1(5) in simp)
  have dl: "unat ?d \<le> 2 ^ 14" unfolding d by (rule power_increasing) (use 1(5) in simp_all)
  have t: "unat ?t = 16 + unat ?d" using dl by (subst unat_add_no_overflow) (simp_all add: sizeof_BuddyPage_def)
  show ?case
  proof (cases "?t \<noteq> 0 \<and> ?t \<le> rem \<and> off < bd_capacity b")
    case False
    then have "(off', rem', b') = (off, rem, b)" using 1(2) by (subst (asm) divide_class.simps) (auto simp: Let_def split: if_splits)
    then show ?thesis using 1(3,4) by (auto simp: keeps_def same_heaps_def)
  next
    case True
    let ?b1 = "small_emplace i off (new_free_page off ?d b)"
    have tr: "unat ?t \<le> unat rem" using True by (simp add: word_le_nat_alt)
    note sp = ext_cov_split [OF tr 1(4)]
    have n: "divide_class i (off + ?t, rem - ?t, ?b1) = (off', rem', b')"
      using 1(2) True by (subst (asm) divide_class.simps) (simp add: Let_def)
    have k: "buddy_inv lo ?b1 (fs[i := off # fs ! i]) fl live (\<lambda>x. ext_cov (off + ?t) (rem - ?t) x + raw x) \<and> keeps live b ?b1"
    proof (rule new_small_page [OF 1(3)])
      show "cov (unat off) (16 + unat ?d) x + (ext_cov (off + ?t) (rem - ?t) x + raw x) \<le> ext_cov off rem x + raw x" for x
        unfolding t [symmetric] conjunct1 [OF sp] add.assoc ..
    qed (use dl d 1(5) in simp_all)
    have "\<exists>fs'. buddy_inv lo b' fs' fl live (\<lambda>x. ext_cov off' rem' x + raw x) \<and> keeps live ?b1 b' \<and> same_heaps ?b1 b' \<and>
      unat off' + unat rem' \<le> 2 ^ 62"
      by (rule 1(1) [OF refl refl _ _ n conjunct1 [OF k]]) (use True sp 1(5) in simp_all)
    then show ?thesis using k keeps_trans same_heaps_trans [OF same_heaps_ops(1)] by blast
  qed
qed


lemma divide_classes_inv:
  assumes "foldl (\<lambda>r i. divide_class i r) (off, rem, b) is = (off', rem', b')"
    and "buddy_inv lo b fs fl live (\<lambda>x. ext_cov off rem x + raw x)" and "unat off + unat rem \<le> 2 ^ 62" and "\<forall>i \<in> set is. i < 10"
  shows "\<exists>fs'. buddy_inv lo b' fs' fl live (\<lambda>x. ext_cov off' rem' x + raw x) \<and> keeps live b b' \<and> same_heaps b b'"
  using assms
proof (induction "is" arbitrary: off rem b fs)
  case Nil
  then show ?case by (auto simp: keeps_def same_heaps_def)
next
  case (Cons i "is")
  obtain o1 r1 b1 where d: "divide_class i (off, rem, b) = (o1, r1, b1)" by (metis surj_pair)
  obtain fs1 where k: "buddy_inv lo b1 fs1 fl live (\<lambda>x. ext_cov o1 r1 x + raw x)" "keeps live b b1" "same_heaps b b1"
    "unat o1 + unat r1 \<le> 2 ^ 62"
    using divide_class_inv [OF d Cons.prems(2,3)] Cons.prems(4) by auto
  have "\<exists>fs'. buddy_inv lo b' fs' fl live (\<lambda>x. ext_cov off' rem' x + raw x) \<and> keeps live b1 b' \<and> same_heaps b1 b'"
    by (rule Cons.IH [OF _ k(1,4)]) (use Cons.prems(1,4) d in simp_all)
  then show ?case using k keeps_trans same_heaps_trans by blast
qed

lemma DivideArenaIntoPages_inv:
  assumes "DivideArenaIntoPages h b = (h', b')" and "heap_ok h" and "buddy_inv lo b fs fl live (\<lambda>x. heap_cov h x + raw x)"
  shows "\<exists>fs'. buddy_inv lo b' fs' fl live raw \<and> keeps live b b' \<and> same_heaps b b' \<and> heap_ok h' \<and> (\<forall>x. heap_cov h' x = 0)"
proof (cases "hp_max h - hp_off h = 0")
  case True
  then have "h' = h" "b' = b" "hp_max h = hp_off h" using assms(1) by (auto simp: DivideArenaIntoPages_def Let_def)
  then have "\<forall>x. heap_cov h' x = 0" by (simp add: heap_cov_def cov_def)
  then show ?thesis using assms(2,3) \<open>h' = h\<close> \<open>b' = b\<close> by (auto simp: keeps_def same_heaps_def)
next
  case False
  let ?r = "hp_max h - hp_off h"
  obtain o1 r1 b1 where d: "foldl (\<lambda>r i. divide_class i r) (hp_off h, ?r, b) (rev [0..<kMaxSmallPages]) = (o1, r1, b1)" by (metis surj_pair)
  have h': "h' = ShmHeap_Init (hp_max h) (hp_max h)" "b' = b1" using assms(1) False d by (auto simp: DivideArenaIntoPages_def Let_def)
  have u: "unat ?r = unat (hp_max h) - unat (hp_off h)" by (rule unat_sub_no_underflow) (use assms(2) in \<open>simp add: heap_ok_def\<close>)
  have c: "heap_cov h x = ext_cov (hp_off h) ?r x" for x by (simp add: heap_cov_def ext_cov_def u)
  have le: "unat (hp_off h) + unat ?r \<le> 2 ^ 62" using assms(2) by (simp add: u heap_ok_def word_le_nat_alt)
  have is10: "\<forall>i \<in> set (rev [0..<kMaxSmallPages]). i < 10" by (auto simp: kMaxSmallPages_def kSmallLog2_def kMinLog2_def)
  obtain fs' where k: "buddy_inv lo b1 fs' fl live (\<lambda>x. ext_cov o1 r1 x + raw x)" "keeps live b b1" "same_heaps b b1"
    using divide_classes_inv [OF d assms(3) [unfolded c] le is10] by blast
  have "buddy_inv lo b1 fs' fl live raw" by (rule inv_raw [OF k(1)]) simp
  then show ?thesis using k(2,3) assms(2) h' by (auto simp: heap_ok_def ShmHeap_Init_def heap_cov_def cov_def)
qed

section \<open>Allocation\<close>

text \<open>The state between two operations: \<open>live\<close> are the pages of the blocks in the hands of clients.\<close>

definition heaps_cov :: "Buddy \<Rightarrow> nat \<Rightarrow> nat" where
  "heaps_cov b x = heap_cov (small_arena b) x + heap_cov (big_heap b) x"

definition buddy_ok :: "nat \<Rightarrow> Buddy \<Rightarrow> u64 list \<Rightarrow> bool" where
  "buddy_ok lo b live \<longleftrightarrow> heap_ok (small_arena b) \<and> heap_ok (big_heap b) \<and>
     (\<exists>fs fl. buddy_inv lo b fs fl live (heaps_cov b))"

definition alloc_result :: "nat \<Rightarrow> u64 list \<Rightarrow> u64 \<Rightarrow> Buddy \<Rightarrow> u64 \<times> Buddy \<Rightarrow> bool" where
  "alloc_result lo live n b r \<longleftrightarrow> (case r of (off, b') \<Rightarrow> keeps live b b' \<and>
     (off = null_off \<and> buddy_ok lo b' live \<or> (\<exists>p. off = p + 16 \<and> n \<le> GetSize (bd_mem b') p \<and> buddy_ok lo b' (p # live))))"

lemma alloc_result_trans: "keeps live b b1 \<Longrightarrow> alloc_result lo live n b1 r \<Longrightarrow> alloc_result lo live n b r"
  unfolding alloc_result_def using keeps_trans by (cases r) auto

lemma finalize_result:
  assumes "buddy_inv lo b fs fl live (\<lambda>x. ext x + heaps_cov b x)" and "heap_ok (small_arena b)" "heap_ok (big_heap b)"
    and room: "\<And>x. cov (unat p) (16 + unat sz) x \<le> ext x" and sz: "32 \<le> unat sz" "unat sz < 2 ^ 63" and "n \<le> sz"
  shows "alloc_result lo live n b (FinalizeAllocation p sz b)"
proof -
  obtain off b' where f: "FinalizeAllocation p sz b = (off, b')" by (metis surj_pair)
  have r: "cov (unat p) (16 + unat sz) x + heaps_cov b x \<le> ext x + heaps_cov b x" for x using room [of x] by simp
  note k = FinalizeAllocation_inv [OF assms(1) r sz f]
  have h: "small_arena b' = small_arena b" "big_heap b' = big_heap b" using f by (auto simp: FinalizeAllocation_def)
  then have "heaps_cov b' = heaps_cov b" by (simp add: heaps_cov_def fun_eq_iff)
  then have "buddy_ok lo b' (p # live)" using k h assms(2,3) by (auto simp: buddy_ok_def)
  then show ?thesis using k assms(7) f by (auto simp: alloc_result_def)
qed

lemma heaps_low:
  assumes "buddy_inv lo b fs fl live (\<lambda>x. ext x + heaps_cov b x)"
  shows "heap_cov (small_arena b) 0 = 0" and "heap_cov (big_heap b) 0 = 0"
proof -
  have "\<not> 0 < owned (bd_mem b) fs fl live 0 + (ext 0 + heaps_cov b 0)"
  proof
    assume "0 < owned (bd_mem b) fs fl live 0 + (ext 0 + heaps_cov b 0)"
    then have "lo \<le> 0" by (rule conjunct1 [OF inv_inside [OF assms]])
    then show False using inv_lo [OF assms] by simp
  qed
  then show "heap_cov (small_arena b) 0 = 0" "heap_cov (big_heap b) 0 = 0" by (simp_all add: heaps_cov_def)
qed

lemma allocate_from_heap_result:
  assumes "buddy_ok lo b live" and "32 \<le> unat n" and "unat n \<le> 2 ^ 62" and "tot = n + sizeof_BuddyPage"
  shows "alloc_result lo live n b (allocate_from_heap n tot b)"
proof -
  obtain fs fl where inv: "buddy_inv lo b fs fl live (heaps_cov b)" and ok: "heap_ok (small_arena b)" "heap_ok (big_heap b)"
    using assms(1) by (auto simp: buddy_ok_def)
  have t: "unat tot = 16 + unat n" unfolding assms(4) using assms(3)
    by (subst unat_add_no_overflow) (simp_all add: sizeof_BuddyPage_def)
  obtain off h where a: "ShmHeap_Allocate tot (big_heap b) = (off, h)" by (metis surj_pair)
  have low: "heap_cov (big_heap b) 0 = 0" using heaps_low(2) [of lo b fs fl live "\<lambda>_. 0"] inv by simp
  consider "off = 0" "h = big_heap b" | "off \<noteq> 0" "heap_ok h" "\<forall>x. heap_cov (big_heap b) x = ext_cov off tot x + heap_cov h x"
    using ShmHeap_Allocate_spec [OF ok(2) low _ _ a] t assms(3) by auto
  then show ?thesis
  proof cases
    case 1
    then show ?thesis using assms(1) a by (simp add: allocate_from_heap_def alloc_result_def keeps_def)
  next
    case 2
    let ?b = "b\<lparr>big_heap := h\<rparr>"
    have "heaps_cov b = (\<lambda>x. ext_cov off tot x + heaps_cov ?b x)" using 2(3) by (auto simp: heaps_cov_def)
    then have i: "buddy_inv lo ?b fs fl live (\<lambda>x. ext_cov off tot x + heaps_cov ?b x)" using inv by (simp add: inv_heaps)
    have "alloc_result lo live n ?b (FinalizeAllocation off n ?b)"
      by (rule finalize_result [OF i]) (use 2 ok assms(2,3) t in \<open>simp_all add: ext_cov_def\<close>)
    then have "alloc_result lo live n b (FinalizeAllocation off n ?b)" by (rule alloc_result_trans [rotated]) (simp add: keeps_def)
    then show ?thesis using 2(1) a by (simp add: allocate_from_heap_def)
  qed
qed


lemma buddy_okI: "buddy_inv lo b fs fl live (heaps_cov b) \<Longrightarrow> heap_ok (small_arena b) \<Longrightarrow> heap_ok (big_heap b) \<Longrightarrow> buddy_ok lo b live"
  by (auto simp: buddy_ok_def)

text \<open>A page taken as the new small arena.\<close>

lemma arena_from_page:
  assumes "buddy_inv lo b fs fl live (\<lambda>x. page_cov m p x + heap_cov (big_heap b) x)" and "heap_ok (big_heap b)"
    and "unat n \<le> 16 + unat (GetSize m p)" and "0 < unat n"
  shows "buddy_ok lo (b\<lparr>small_arena := ShmHeap_Init p (p + n)\<rparr>) live"
proof -
  let ?b = "b\<lparr>small_arena := ShmHeap_Init p (p + n)\<rparr>" and ?e = "unat p + unat n - 1"
  have "page_cov m p ?e = 1" using assms(3,4) by (auto simp: page_cov_def cov_def)
  then have "?e < unat (bd_capacity b)" using inv_inside [OF assms(1), of ?e] by simp
  then have e: "unat p + unat n \<le> 2 ^ 62" using inv_cap [OF assms(1)] assms(4) by simp
  note h = heap_init [OF e]
  have "ext_cov p n x \<le> page_cov m p x" for x unfolding ext_cov_def page_cov_def by (rule cov_mono [OF assms(3)])
  then have "buddy_inv lo b fs fl live (heaps_cov ?b)" by (intro inv_raw [OF assms(1)]) (simp add: heaps_cov_def h(1))
  then have "buddy_inv lo ?b fs fl live (heaps_cov ?b)" by (simp add: inv_heaps)
  then show ?thesis by (rule buddy_okI) (use h assms(2) in simp_all)
qed

lemma find_arena_result:
  assumes "buddy_inv lo b fs fl live (heaps_cov b)" and "heap_ok (small_arena b)" "heap_ok (big_heap b)"
    and "\<forall>x. heap_cov (small_arena b) x = 0" and "0 < unat n" and "\<forall>i \<in> set is. i < 6"
  shows "\<exists>ok b'. find_arena is n b = Some (ok, b') \<and> buddy_ok lo b' live \<and> keeps live b b'"
  using assms(6)
proof (induction "is")
  case Nil
  then show ?case using buddy_okI [OF assms(1-3)] by (auto simp: keeps_def)
next
  case (Cons i "is")
  have i: "i < 6" using Cons.prems by simp
  show ?case
  proof (cases rule: FindFirstFit_inv [OF assms(1) i, where req = n, case_names none page])
    case none
    then show ?thesis using Cons by simp
  next
    case (page p b1 fl1)
    have "buddy_inv lo b1 fs fl1 live (\<lambda>x. page_cov (bd_mem b) p x + heap_cov (big_heap b1) x)"
      using page(4) assms(4) page(8) by (simp add: heaps_cov_def)
    then have "buddy_ok lo (b1\<lparr>small_arena := ShmHeap_Init p (p + n)\<rparr>) live"
      by (rule arena_from_page) (use page assms in simp_all)
    moreover have "keeps live b (b1\<lparr>small_arena := ShmHeap_Init p (p + n)\<rparr>)" using page(5) by (simp add: keeps_def)
    ultimately show ?thesis using page(1,2) by auto
  qed
qed

lemma RepopulateSmallArena_result:
  assumes "buddy_ok lo b live"
  shows "\<exists>ok b'. RepopulateSmallArena b = Some (ok, b') \<and> buddy_ok lo b' live \<and> keeps live b b'"
proof -
  define n where "n = kSmallArenaSize + kSmallArenaPages * sizeof_BuddyPage"
  have un: "unat n = 67584" by (simp add: n_def kSmallArenaSize_def kSmallArenaPages_def sizeof_BuddyPage_def)
  obtain fs fl where inv: "buddy_inv lo b fs fl live (heaps_cov b)" and ok: "heap_ok (small_arena b)" "heap_ok (big_heap b)"
    using assms by (auto simp: buddy_ok_def)
  obtain h b1 where d: "DivideArenaIntoPages (small_arena b) b = (h, b1)" by (metis surj_pair)
  obtain fs1 where k: "buddy_inv lo b1 fs1 fl live (heap_cov (big_heap b))" "keeps live b b1" "same_heaps b b1" "heap_ok h" "\<forall>x. heap_cov h x = 0"
    using DivideArenaIntoPages_inv [OF d ok(1) inv [unfolded heaps_cov_def [abs_def]]] by blast
  let ?b2 = "b1\<lparr>small_arena := h\<rparr>"
  have bh: "big_heap b1 = big_heap b" using k(3) by (simp add: same_heaps_def)
  have hc: "heaps_cov ?b2 = heap_cov (big_heap b)" using k(5) bh by (simp add: heaps_cov_def fun_eq_iff)
  have i2: "buddy_inv lo ?b2 fs1 fl live (heaps_cov ?b2)" using k(1) by (simp add: hc inv_heaps)
  have k2: "keeps live b ?b2" using k(2) by (simp add: keeps_def)
  have low: "heap_cov (big_heap b) 0 = 0" using heaps_low(2) [of lo ?b2 fs1 fl live "\<lambda>_. 0"] i2 bh by simp
  obtain off h' where a: "ShmHeap_Allocate n (big_heap b) = (off, h')" by (metis surj_pair)
  let ?b3 = "?b2\<lparr>big_heap := h'\<rparr>"
  have R: "RepopulateSmallArena b = (if off \<noteq> 0 then Some (True, ?b3\<lparr>small_arena := ShmHeap_Init off (off + n)\<rparr>)
      else find_arena [0..<kMaxLargePages] n ?b3)"
    unfolding RepopulateSmallArena_def Let_def n_def [symmetric] d by (simp add: bh a)
  consider "off = 0" "h' = big_heap b" | "off \<noteq> 0" "heap_ok h'"
      "\<forall>x. heap_cov (big_heap b) x = ext_cov off n x + heap_cov h' x" "unat off + unat n \<le> 2 ^ 62"
    using ShmHeap_Allocate_spec [OF ok(2) low _ _ a] un by auto
  then show ?thesis
  proof cases
    case 1
    then have e: "?b3 = ?b2" by (simp flip: bh)
    have "\<exists>ok b'. find_arena [0..<kMaxLargePages] n ?b2 = Some (ok, b') \<and> buddy_ok lo b' live \<and> keeps live ?b2 b'"
      by (rule find_arena_result [OF i2]) (use k(4,5) ok(2) bh un in \<open>simp_all add: kMaxLargePages_def kMaxLog2_def kSmallLog2_def\<close>)
    then show ?thesis using R 1(1) k2 keeps_trans unfolding e by (metis (no_types, lifting))
  next
    case 2
    let ?b4 = "?b3\<lparr>small_arena := ShmHeap_Init off (off + n)\<rparr>"
    note hi = heap_init [OF 2(4)]
    have "heaps_cov ?b4 = heap_cov (big_heap b)" using 2(3) by (simp add: heaps_cov_def hi fun_eq_iff)
    then have "buddy_inv lo ?b4 fs1 fl live (heaps_cov ?b4)" using k(1) by (simp add: inv_heaps)
    then have "buddy_ok lo ?b4 live" by (rule buddy_okI) (use 2(2) hi(2) in simp_all)
    moreover have "keeps live b ?b4" using k2 by (simp add: keeps_def)
    ultimately show ?thesis using R 2(1) by auto
  qed
qed


section \<open>Size classes\<close>

lemma ilog2_le: "0 < n \<Longrightarrow> 2 ^ ilog2 n \<le> n"
proof (induction n rule: ilog2.induct)
  case (1 n)
  show ?case
  proof (cases "n < 2")
    case False
    then have "2 ^ ilog2 (n div 2) \<le> n div 2" using 1 by simp
    then show ?thesis using False by (subst ilog2.simps) simp
  qed (use 1 in \<open>simp add: ilog2.simps\<close>)
qed

lemma ilog2_less: "n < 2 ^ Suc (ilog2 n)"
proof (induction n rule: ilog2.induct)
  case (1 n)
  show ?case
  proof (cases "n < 2")
    case False
    then have "n div 2 < 2 ^ Suc (ilog2 (n div 2))" using 1 by simp
    then show ?thesis using False by (subst ilog2.simps) simp
  qed (simp add: ilog2.simps)
qed

lemma ilog2_bounds: "a \<le> ilog2 n" if "2 ^ a \<le> n"
  using ilog2_less [of n] that by (metis less_Suc_eq_le nat_power_less_imp_less order_le_less_trans zero_less_numeral)

lemma ilog2_upper: "ilog2 n \<le> b" if "n < 2 ^ Suc b"
proof (cases "n = 0")
  case False
  then have "(2 :: nat) ^ ilog2 n < 2 ^ Suc b" using ilog2_le [of n] that by simp
  then show ?thesis by (metis less_Suc_eq_le nat_power_less_imp_less zero_less_numeral)
qed (simp add: ilog2.simps)

lemma small_class_alloc:
  assumes "unat n \<le> 16384" and "GetSmallPageListIndexForAlloc n = (sz, i)"
  shows "i < 10 \<and> unat sz = 2 ^ (i + 5) \<and> n \<le> sz"
proof (cases "n \<le> kMinSize")
  case True
  then show ?thesis using assms(2) by (auto simp: GetSmallPageListIndexForAlloc_def kMinSize_def)
next
  case False
  let ?lg = "ceil_log2 (unat n)"
  have n: "32 < unat n" using False by (simp add: kMinSize_def word_le_nat_alt)
  have lo: "5 \<le> ilog2 (unat n)" by (rule ilog2_bounds) (use n in simp)
  have up: "unat n \<le> 2 ^ ?lg" using ilog2_less [of "unat n"] by (auto simp: ceil_log2_def less_imp_le)
  have hi: "?lg \<le> 14"
  proof (cases "unat n = 16384")
    case True
    have "ilog2 (unat n) \<le> 14" by (rule ilog2_upper) (use True in simp)
    moreover have "14 \<le> ilog2 (unat n)" by (rule ilog2_bounds) (use True in simp)
    ultimately show ?thesis using True by (simp add: ceil_log2_def)
  next
    case False
    have "ilog2 (unat n) \<le> 13" by (rule ilog2_upper) (use False assms(1) in simp)
    then show ?thesis by (simp add: ceil_log2_def)
  qed
  have lg: "5 \<le> ?lg" using lo by (simp add: ceil_log2_def)
  then have r: "sz = push_bit ?lg 1" "i = ?lg - 5"
    using assms(2) False hi by (simp_all add: GetSmallPageListIndexForAlloc_def Let_def kMinLog2_def kSmallLog2_def)
  have "unat sz = 2 ^ ?lg" unfolding r(1) by (rule unat_exp2) (use hi in simp)
  then show ?thesis using r(2) lg hi up by (simp add: word_le_nat_alt)
qed

lemma small_class_free:
  assumes "32 \<le> unat n" and "unat n \<le> 16384"
  shows "GetSmallPageListIndexForFree n < 10 \<and> 2 ^ (GetSmallPageListIndexForFree n + 5) \<le> unat n"
proof (cases "n \<le> kMinSize")
  case True
  then show ?thesis using assms(1) by (simp add: GetSmallPageListIndexForFree_def)
next
  case False
  have lo: "5 \<le> ilog2 (unat n)" by (rule ilog2_bounds) (use assms in simp)
  have hi: "ilog2 (unat n) \<le> 14" by (rule ilog2_upper) (use assms in simp)
  have "2 ^ ilog2 (unat n) \<le> unat n" by (rule ilog2_le) (use assms in simp)
  then show ?thesis using lo hi False by (simp add: GetSmallPageListIndexForFree_def Let_def kMinLog2_def kSmallLog2_def)
qed

lemma large_class: "GetLargePageListIndexForAlloc n < 6"
  by (auto simp: GetLargePageListIndexForAlloc_def Let_def kSmallLog2_def kMaxLog2_def kMaxLargePages_def)


section \<open>The operations\<close>

lemma pop_result:
  assumes "buddy_ok lo b live" and "i < 10" and "unat sz = 2 ^ (i + 5)" and "n \<le> sz" and "small_pop i b = (r, b')"
  obtains (empty) "r = None" "b' = b" | (page) p where "r = Some p" "alloc_result lo live n b (FinalizeAllocation p sz b')"
proof -
  obtain fs fl where inv: "buddy_inv lo b fs fl live (heaps_cov b)" and ok: "heap_ok (small_arena b)" "heap_ok (big_heap b)"
    using assms(1) by (auto simp: buddy_ok_def)
  have sz: "32 \<le> unat sz" "unat sz < 2 ^ 63"
    using power_increasing [of 5 "i + 5" "2 :: nat"] power_increasing [of "i + 5" 14 "2 :: nat"] assms(2,3) by simp_all
  show thesis
  proof (cases rule: small_pop_inv [OF inv assms(2,5), case_names empty page])
    case (page p ps)
    have hc: "heaps_cov b' = heaps_cov b" using page(7,8) by (simp add: heaps_cov_def fun_eq_iff)
    have "cov (unat p) (16 + unat sz) x \<le> page_cov (bd_mem b) p x" for x
      unfolding page_cov_def by (rule cov_mono) (use page(3) assms(3) in simp)
    then have "alloc_result lo live n b' (FinalizeAllocation p sz b')"
      by (intro finalize_result [OF page(4) [folded hc]]) (use page(7,8) ok sz assms(4) in simp_all)
    then have "alloc_result lo live n b (FinalizeAllocation p sz b')" by (rule alloc_result_trans [rotated]) (simp add: keeps_def page)
    then show thesis using page(1) that(2) by blast
  qed (rule that(1))
qed

lemma arena_result:
  assumes "buddy_ok lo b live" and "32 \<le> unat n" and "unat n \<le> 2 ^ 62" and "tot = n + sizeof_BuddyPage" and "k \<le> n"
    and "ShmHeap_Allocate tot (small_arena b) = (off, h)"
  obtains (full) "off = 0" "b\<lparr>small_arena := h\<rparr> = b"
    | (block) "off \<noteq> 0" "alloc_result lo live k b (FinalizeAllocation off n (b\<lparr>small_arena := h\<rparr>))"
proof -
  obtain fs fl where inv: "buddy_inv lo b fs fl live (heaps_cov b)" and ok: "heap_ok (small_arena b)" "heap_ok (big_heap b)"
    using assms(1) by (auto simp: buddy_ok_def)
  have t: "unat tot = 16 + unat n" unfolding assms(4) using assms(3)
    by (subst unat_add_no_overflow) (simp_all add: sizeof_BuddyPage_def)
  have low: "heap_cov (small_arena b) 0 = 0" using heaps_low(1) [of lo b fs fl live "\<lambda>_. 0"] inv by simp
  consider "off = 0" "h = small_arena b" | "off \<noteq> 0" "heap_ok h" "\<forall>x. heap_cov (small_arena b) x = ext_cov off tot x + heap_cov h x"
    using ShmHeap_Allocate_spec [OF ok(1) low _ _ assms(6)] t assms(3) by auto
  then show thesis
  proof cases
    case 1
    then show thesis by (intro full) simp_all
  next
    case 2
    let ?b = "b\<lparr>small_arena := h\<rparr>"
    have "heaps_cov b = (\<lambda>x. ext_cov off tot x + heaps_cov ?b x)" using 2(3) by (auto simp: heaps_cov_def)
    then have i: "buddy_inv lo ?b fs fl live (\<lambda>x. ext_cov off tot x + heaps_cov ?b x)" using inv by (simp add: inv_heaps)
    have "alloc_result lo live k ?b (FinalizeAllocation off n ?b)"
      by (rule finalize_result [OF i]) (use 2 ok assms(2,3,5) t in \<open>simp_all add: ext_cov_def\<close>)
    then have "alloc_result lo live k b (FinalizeAllocation off n ?b)" by (rule alloc_result_trans [rotated]) (simp add: keeps_def)
    then show thesis by (intro block 2(1))
  qed
qed

lemma alloc_result_le: "k \<le> n \<Longrightarrow> alloc_result lo live n b r \<Longrightarrow> alloc_result lo live k b r"
  unfolding alloc_result_def by (cases r) (auto intro: order_trans)

lemma AllocateSmall_result:
  assumes "buddy_ok lo b live" and "unat k \<le> 16384"
  shows "\<exists>r. AllocateSmall k b = Some r \<and> alloc_result lo live k b r"
proof -
  obtain n i where ni: "GetSmallPageListIndexForAlloc k = (n, i)" by (metis surj_pair)
  have c: "i < 10" "unat n = 2 ^ (i + 5)" "k \<le> n" using small_class_alloc [OF assms(2) ni] by blast+
  have n: "32 \<le> unat n" "unat n \<le> 2 ^ 62"
    using power_increasing [of 5 "i + 5" "2 :: nat"] power_increasing [of "i + 5" 14 "2 :: nat"] c(1,2) by simp_all
  obtain r b1 where p: "small_pop i b = (r, b1)" by (metis surj_pair)
  show ?thesis
  proof (cases rule: pop_result [OF assms(1) c p, case_names empty page])
    case (page q)
    then show ?thesis using p by (simp add: AllocateSmall_def ni)
  next
    case empty
    let ?tot = "n + sizeof_BuddyPage"
    obtain off h where a: "ShmHeap_Allocate ?tot (small_arena b) = (off, h)" by (metis surj_pair)
    show ?thesis
    proof (cases rule: arena_result [OF assms(1) n refl c(3) a, case_names full block])
      case block
      then show ?thesis using p empty a by (simp add: AllocateSmall_def ni)
    next
      case full
      obtain ok b3 where r: "RepopulateSmallArena b = Some (ok, b3)" "buddy_ok lo b3 live" "keeps live b b3"
        using RepopulateSmallArena_result [OF assms(1)] by blast
      obtain r4 b4 where p4: "small_pop i b3 = (r4, b4)" by (metis surj_pair)
      have S: "AllocateSmall k b = (case (if ok then (r4, b4) else (None, b3)) of
          (Some node, b4) \<Rightarrow> Some (FinalizeAllocation node n b4) | (None, b4) \<Rightarrow> Some (allocate_from_heap n ?tot b4))"
        by (simp add: AllocateSmall_def ni p empty a full r(1) p4)
      have heap: "alloc_result lo live k b3 (allocate_from_heap n ?tot b3)"
        by (rule alloc_result_le [OF c(3) allocate_from_heap_result [OF r(2) n refl]])
      have "\<exists>r. AllocateSmall k b = Some r \<and> alloc_result lo live k b3 r"
      proof (cases rule: pop_result [OF r(2) c p4, case_names empty page])
        case empty
        then have "AllocateSmall k b = Some (allocate_from_heap n ?tot b3)" using S by (cases ok) simp_all
        then show ?thesis using heap by blast
      next
        case (page q)
        then have "AllocateSmall k b = Some (if ok then FinalizeAllocation q n b4 else allocate_from_heap n ?tot b3)"
          using S by (cases ok) simp_all
        then show ?thesis using heap page(2) by (cases ok) auto
      qed
      then show ?thesis using alloc_result_trans [OF r(3)] by blast
    qed
  qed
qed


text \<open>
  A large page is split at the requested size. What is left goes on the list of
  its size class as a page of its own; when less than a minimal page is left,
  that page is smaller than its class promises.
\<close>

definition clean_cut :: "nat \<Rightarrow> u64 \<Rightarrow> Buddy \<Rightarrow> bool" where
  "clean_cut i tot b \<longleftrightarrow> (case FindFirstFit i tot b of None \<Rightarrow> True
     | Some (p, b1) \<Rightarrow> p = 0 \<or> (let t = GetSize (bd_mem b1) p + sizeof_BuddyPage
         in t = tot \<or> tot + sizeof_BuddyPage + kMinSize \<le> t))"

definition clean_split :: "u64 \<Rightarrow> Buddy \<Rightarrow> bool" where
  "clean_split requested_size b \<longleftrightarrow> (let n = rounded_request requested_size
     in n \<le> kSmallThreshold \<or> clean_cut (GetLargePageListIndexForAlloc n) (n + sizeof_BuddyPage) b)"

lemma same_heaps_AddRemainder: "same_heaps b (AddRemainderToFreeList p t b)"
  by (simp add: AddRemainderToFreeList_def Let_def)

lemma AddRemainder_inv:
  assumes "buddy_inv lo b fs fl live raw" and room: "\<And>x. cov (unat p) (unat t) x + raw' x \<le> raw x"
    and "48 \<le> unat t" and "unat t < 2 ^ 63"
  shows "\<exists>fs' fl'. buddy_inv lo (AddRemainderToFreeList p t b) fs' fl' live raw' \<and> keeps live b (AddRemainderToFreeList p t b)"
proof -
  let ?d = "t - sizeof_BuddyPage"
  have d: "unat ?d = unat t - 16"
    using assms(3) by (subst unat_sub_no_underflow) (simp_all add: sizeof_BuddyPage_def word_le_nat_alt)
  have room': "\<And>x. cov (unat p) (16 + unat ?d) x + raw' x \<le> raw x" using room assms(3) by (simp add: d)
  have dl: "unat ?d < 2 ^ 63" using d assms(4) by simp
  show ?thesis
  proof (cases "?d \<le> kSmallThreshold")
    case True
    then have "unat ?d \<le> 16384" by (simp add: kSmallThreshold_def word_le_nat_alt)
    then have c: "GetSmallPageListIndexForFree ?d < 10" "2 ^ (GetSmallPageListIndexForFree ?d + 5) \<le> unat ?d"
      using small_class_free [of ?d] d assms(3) by simp_all
    show ?thesis using new_small_page [OF assms(1) room' dl c] True by (auto simp: AddRemainderToFreeList_def Let_def)
  next
    case False
    then show ?thesis using new_large_page [OF assms(1) room' dl large_class] by (auto simp: AddRemainderToFreeList_def Let_def GetLargePageListIndexForFree_def)
  qed
qed

definition tail_ok :: "u64 \<Rightarrow> u64 \<Rightarrow> bool" where
  "tail_ok tot t \<longleftrightarrow> t = tot \<or> tot + sizeof_BuddyPage + kMinSize \<le> t"

text \<open>The split: the front of the page stays in hand, the tail becomes a free page.\<close>

lemma cut_inv:
  fixes lo :: nat and b1 :: Buddy and live :: "u64 list" and m :: mem and p n tot :: u64 and hc :: "nat \<Rightarrow> nat"
  defines "pt \<equiv> GetSize m p + sizeof_BuddyPage"
  defines "b2 \<equiv> if pt > tot then AddRemainderToFreeList (p + tot) (pt - tot) b1 else b1"
  assumes inv: "buddy_inv lo b1 fs fl live (\<lambda>x. page_cov m p x + hc x)" and t: "unat tot = 16 + unat n" and n: "unat n \<le> 2 ^ 62"
    and fits: "unat tot \<le> 16 + unat (GetSize m p)" and "tail_ok tot pt"
  shows "\<exists>fs2 fl2. buddy_inv lo b2 fs2 fl2 live (\<lambda>x. cov (unat p) (unat tot) x + hc x) \<and> keeps live b1 b2 \<and> same_heaps b1 b2"
proof (cases "pt > tot")
  case False
  have "buddy_inv lo b1 fs fl live (\<lambda>x. cov (unat p) (unat tot) x + hc x)"
  proof (rule inv_raw [OF inv])
    show "cov (unat p) (unat tot) x + hc x \<le> page_cov m p x + hc x" for x
      unfolding page_cov_def using cov_mono [OF fits] by simp
  qed
  then show ?thesis using False by (auto simp: b2_def keeps_def same_heaps_def)
next
  case True
  let ?R = "pt - tot" and ?e = "unat p + 15 + unat (GetSize m p)"
  have pt: "unat pt = 16 + unat (GetSize m p)" unfolding pt_def by (rule unat_total)
  have R: "unat ?R = unat pt - unat tot" by (rule unat_sub_no_underflow) (use True in simp)
  have "tot + sizeof_BuddyPage + kMinSize \<le> pt" using assms(7) True by (auto simp: tail_ok_def)
  moreover have "unat (tot + sizeof_BuddyPage + kMinSize) = unat tot + 48"
    using t n by (simp add: unat_add_no_overflow sizeof_BuddyPage_def kMinSize_def)
  ultimately have R48: "48 \<le> unat ?R" using R by (simp add: word_le_nat_alt)
  have Rl: "unat ?R < 2 ^ 63" using R pt t GetSize_le [of m p] by simp
  have "?e < unat (bd_capacity b1)" using inv_inside [OF inv, of ?e] by (simp add: page_cov_def cov_def)
  then have "unat (p + tot) = unat p + unat tot" using inv_cap [OF inv] fits by (intro unat_add_no_overflow) simp
  then have room: "cov (unat (p + tot)) (unat ?R) x + (cov (unat p) (unat tot) x + hc x) \<le> page_cov m p x + hc x" for x
    using cov_split [of "unat p" "unat tot" "unat ?R" x] R pt fits by (simp add: page_cov_def)
  have "b2 = AddRemainderToFreeList (p + tot) ?R b1" using True by (simp add: b2_def)
  then show ?thesis using AddRemainder_inv [OF inv room R48 Rl] same_heaps_AddRemainder by metis
qed

lemma large_loop_result:
  assumes "buddy_ok lo b live" and "i < 6" and "32 \<le> unat n" "unat n \<le> 2 ^ 62" and "clean_cut i (n + sizeof_BuddyPage) b"
  shows "\<exists>r. large_loop k i n (n + sizeof_BuddyPage) b = Some r \<and> alloc_result lo live n b r"
proof (induction k)
  case 0
  then show ?case using allocate_from_heap_result [OF assms(1,3,4) refl] by auto
next
  case (Suc k)
  let ?tot = "n + sizeof_BuddyPage"
  obtain fs fl where inv: "buddy_inv lo b fs fl live (heaps_cov b)" and ok: "heap_ok (small_arena b)" "heap_ok (big_heap b)"
    using assms(1) by (auto simp: buddy_ok_def)
  have t: "unat ?tot = 16 + unat n" using assms(4) by (subst unat_add_no_overflow) (simp_all add: sizeof_BuddyPage_def)
  show ?case
  proof (cases rule: FindFirstFit_inv [OF inv assms(2), where req = ?tot, case_names none page])
    case none
    then show ?thesis using Suc by simp
  next
    case (page p b1 fl1)
    let ?pt = "GetSize (bd_mem b1) p + sizeof_BuddyPage"
    have pt: "unat ?pt = 16 + unat (GetSize (bd_mem b) p)" using page(6) by (simp add: unat_total)
    have hc: "heaps_cov b1 = heaps_cov b" using page(7,8) by (simp add: heaps_cov_def fun_eq_iff)
    let ?b2 = "if ?pt > ?tot then AddRemainderToFreeList (p + ?tot) (?pt - ?tot) b1 else b1"
    have L: "large_loop (Suc k) i n ?tot b = Some (FinalizeAllocation p n ?b2)" using page(1,2) by (simp add: Let_def)
    have "tail_ok ?tot ?pt" using assms(5) page(1,2) by (simp add: clean_cut_def tail_ok_def Let_def)
    then have "\<exists>fs2 fl2. buddy_inv lo ?b2 fs2 fl2 live (\<lambda>x. cov (unat p) (unat ?tot) x + heaps_cov b x) \<and> keeps live b1 ?b2 \<and> same_heaps b1 ?b2"
      unfolding page(6) by (rule cut_inv [OF page(4) t assms(4) page(3)])
    then obtain fs2 fl2 where k2: "buddy_inv lo ?b2 fs2 fl2 live (\<lambda>x. cov (unat p) (unat ?tot) x + heaps_cov b x)" "keeps live b1 ?b2" "same_heaps b1 ?b2"
      by blast
    have h2: "heaps_cov b = heaps_cov ?b2" "small_arena ?b2 = small_arena b" "big_heap ?b2 = big_heap b"
      using k2(3) page(7,8) by (simp_all add: same_heaps_def heaps_cov_def fun_eq_iff)
    have "alloc_result lo live n ?b2 (FinalizeAllocation p n ?b2)"
      by (rule finalize_result [OF k2(1) [unfolded h2(1)]]) (use h2(2,3) ok t assms(3,4) in simp_all)
    then have "alloc_result lo live n b (FinalizeAllocation p n ?b2)" by (rule alloc_result_trans [OF keeps_trans [OF page(5) k2(2)]])
    then show ?thesis unfolding L by blast
  qed
qed


text \<open>Rounding a request up to a multiple of 8.\<close>

lemma and_not_7: "unat (w :: u64) - 7 \<le> unat (w AND NOT 7) \<and> unat (w AND NOT 7) \<le> unat w"
proof -
  have t: "w AND 7 = take_bit 3 w" by (simp add: take_bit_eq_mask mask_eq_exp_minus_1)
  have "(w AND 7) + (w AND NOT 7) = (w AND 7) OR (w AND NOT 7)" by (rule disjunctive_add) (auto simp: bit_simps)
  also have "\<dots> = w" by (rule bit_word_eqI) (auto simp: bit_simps)
  finally have e: "w AND NOT 7 = w - take_bit 3 w" unfolding t by (simp add: algebra_simps)
  have u: "unat (take_bit 3 w) = unat w mod 8" unfolding unsigned_take_bit_eq by (simp add: take_bit_eq_mod)
  have "take_bit 3 w \<le> w" by (simp add: word_le_nat_alt u)
  then have "unat (w AND NOT 7) = unat w - unat w mod 8" unfolding e by (simp add: unat_sub_no_underflow u)
  then show ?thesis by simp
qed

lemma rounded_request_bounds:
  assumes "unat n \<le> 2 ^ 61"
  shows "n \<le> rounded_request n \<and> 32 \<le> unat (rounded_request n) \<and> unat (rounded_request n) \<le> 2 ^ 62"
proof -
  define r where "r = (if n < kMinSize then kMinSize else n)"
  have r: "unat n \<le> unat r" "32 \<le> unat r" "unat r \<le> 2 ^ 61" using assms by (auto simp: r_def kMinSize_def word_less_nat_alt word_le_nat_alt)
  have u: "unat (r + 7) = unat r + 7" using r(3) by (subst unat_add_no_overflow) simp_all
  have e: "rounded_request n = (r + 7) AND NOT 7" by (simp add: rounded_request_def r_def Let_def add.commute)
  have "unat (r + 7) - 7 \<le> unat (rounded_request n) \<and> unat (rounded_request n) \<le> unat (r + 7)" unfolding e by (rule and_not_7)
  then show ?thesis using r u by (simp add: word_le_nat_alt)
qed

lemma AllocateOffset_result:
  assumes "buddy_ok lo b live" and "unat n \<le> 2 ^ 61" and "clean_split n b"
  shows "\<exists>r. AllocateOffset n b = Some r \<and> alloc_result lo live n b r"
proof -
  let ?r = "rounded_request n"
  have r: "n \<le> ?r" "32 \<le> unat ?r" "unat ?r \<le> 2 ^ 62" using rounded_request_bounds [OF assms(2)] by blast+
  have "\<exists>r. AllocateOffset n b = Some r \<and> alloc_result lo live ?r b r"
  proof (cases "?r \<le> kSmallThreshold")
    case True
    then have "unat ?r \<le> 16384" by (simp add: kSmallThreshold_def word_le_nat_alt)
    then show ?thesis using AllocateSmall_result [OF assms(1)] True by (simp add: AllocateOffset_def)
  next
    case False
    then have "clean_cut (GetLargePageListIndexForAlloc ?r) (?r + sizeof_BuddyPage) b" using assms(3) by (simp add: clean_split_def Let_def)
    then show ?thesis using large_loop_result [OF assms(1) large_class r(2,3)] False
      by (simp add: AllocateOffset_def AllocateLarge_def Let_def)
  qed
  then show ?thesis using alloc_result_le [OF r(1)] by blast
qed

end
