(* ===== verification/Buddy_Compact.thy ===== *)
theory Buddy_Compact
  imports Buddy_Inv "HOL-Library.Multiset"
begin

text \<open>
  Compaction of the buddy allocator: \<^verbatim>\<open>Compact\<close> walks over the pages of the heap
  from low to high, moves every live page down to the first free byte, and
  records where it went in a \<^verbatim>\<open>ForwardingTable\<close>, whose \<^verbatim>\<open>Resolve\<close> is a binary search.
\<close>

section \<open>The forwarding table\<close>

type_synonym ForwardingTable = "(u64 \<times> u64) list"

definition Record :: "u64 \<Rightarrow> u64 \<Rightarrow> ForwardingTable \<Rightarrow> ForwardingTable" where
  "Record old_off new_off es = es @ [(old_off, new_off)]"

text \<open>The indices stay far below \<open>2 ^ 64\<close>, because a vector holds 16 bytes for each entry.\<close>

function resolve_loop :: "ForwardingTable \<Rightarrow> u64 \<Rightarrow> nat \<Rightarrow> nat \<Rightarrow> u64" where
  "resolve_loop es old_off lo hi =
     (if lo < hi
      then let mid = (lo + hi) div 2
           in if fst (es ! mid) = old_off then snd (es ! mid)
              else if fst (es ! mid) < old_off then resolve_loop es old_off (mid + 1) hi
              else resolve_loop es old_off lo mid
      else old_off)"
  by pat_completeness auto

termination
  by (relation "measure (\<lambda>(_, _, lo, hi). hi - lo)") auto

declare resolve_loop.simps [simp del]

definition Resolve :: "ForwardingTable \<Rightarrow> u64 \<Rightarrow> u64" where
  "Resolve es old_off = resolve_loop es old_off 0 (length es)"

definition ResolvePtr :: "ForwardingTable \<Rightarrow> u64 \<Rightarrow> u64" where
  "ResolvePtr es ptr = (if ptr = null_off then ptr else Resolve es ptr)"

text \<open>The reference: a linear lookup.\<close>

definition forward :: "ForwardingTable \<Rightarrow> u64 \<Rightarrow> u64" where
  "forward es x = (case map_of es x of None \<Rightarrow> x | Some y \<Rightarrow> y)"

section \<open>Compaction\<close>

partial_function (option) compact_loop ::
    "u64 \<Rightarrow> u64 \<Rightarrow> u64 \<Rightarrow> u64 \<Rightarrow> u64 \<Rightarrow> mem \<Rightarrow> ForwardingTable \<Rightarrow> (u64 \<times> mem \<times> ForwardingTable) option" where
  "compact_loop scan_end arena_tail_start arena_tail_end cursor write_pos m table =
     (if \<not> cursor < scan_end then Some (write_pos, m, table)
      else if cursor = arena_tail_start \<and> arena_tail_start < arena_tail_end
      then compact_loop scan_end arena_tail_start arena_tail_end arena_tail_end write_pos m table
      else let data_size = GetSize m cursor; blk_size = sizeof_BuddyPage + data_size
           in if \<not> IsFree m cursor
              then let old_user_off = cursor + sizeof_BuddyPage; new_user_off = write_pos + sizeof_BuddyPage;
                       m1 = (if write_pos \<noteq> cursor then memcpy m (unat write_pos) m (unat cursor) (unat blk_size) else m);
                       m2 = MarkAllocated write_pos m1
                   in compact_loop scan_end arena_tail_start arena_tail_end (cursor + blk_size) (write_pos + blk_size) m2
                        (Record old_user_off new_user_off table)
              else compact_loop scan_end arena_tail_start arena_tail_end (cursor + blk_size) write_pos m table)"

declare compact_loop.simps [code]

definition Compact :: "Buddy \<Rightarrow> (ForwardingTable \<times> Buddy) option" where
  "Compact b =
     (let scan_start = bd_this b + bd_data_start b + sizeof_BuddyPage; scan_end = hp_off (big_heap b);
          arena_tail_start = hp_off (small_arena b); arena_tail_end = hp_max (small_arena b)
      in case compact_loop scan_end arena_tail_start arena_tail_end scan_start scan_start (bd_mem b) [] of
           None \<Rightarrow> None
         | Some (write_pos, m, table) \<Rightarrow>
             Some (table, b\<lparr>bd_mem := m, small_pages := replicate kMaxSmallPages slist_Init,
               large_pages := replicate kMaxLargePages slist_Init, small_arena := ShmHeap_Init 0 0,
               big_heap := ShmHeap_Init write_pos (hp_max (big_heap b))\<rparr>))"

section \<open>Binary search is lookup\<close>

definition ascending :: "ForwardingTable \<Rightarrow> bool" where
  "ascending es \<longleftrightarrow> sorted_wrt (<) (map fst es)"

lemma ascending_less: "ascending es \<Longrightarrow> i < j \<Longrightarrow> j < length es \<Longrightarrow> fst (es ! i) < fst (es ! j)"
  unfolding ascending_def by (simp add: sorted_wrt_iff_nth_less)

lemma ascending_distinct: "ascending es \<Longrightarrow> distinct (map fst es)"
  by (simp add: ascending_def strict_sorted_iff)

lemma ascending_le: "ascending es \<Longrightarrow> i \<le> j \<Longrightarrow> j < length es \<Longrightarrow> fst (es ! i) \<le> fst (es ! j)"
  using ascending_less [of es i j] by (cases "i = j") simp_all

lemma resolve_loop_forward:
  assumes "ascending es" and "hi \<le> length es"
    and "\<forall>i < length es. fst (es ! i) = x \<longrightarrow> lo \<le> i \<and> i < hi"
  shows "resolve_loop es x lo hi = forward es x"
  using assms
proof (induction es x lo hi rule: resolve_loop.induct)
  case (1 es x lo hi)
  let ?mid = "(lo + hi) div 2"
  show ?case
  proof (cases "lo < hi")
    case False
    then have "x \<notin> fst ` set es" using 1(5) by (force simp: in_set_conv_nth)
    then have "map_of es x = None" by (simp add: map_of_eq_None_iff)
    then show ?thesis using False by (subst resolve_loop.simps) (simp add: forward_def)
  next
    case True
    then have mid: "lo \<le> ?mid" "?mid < hi" by auto
    consider "fst (es ! ?mid) = x" | "fst (es ! ?mid) < x" | "x < fst (es ! ?mid)" by (metis linorder_less_linear)
    then show ?thesis
    proof cases
      case 1
      then have "(x, snd (es ! ?mid)) \<in> set es" using mid \<open>hi \<le> length es\<close> by (metis in_set_conv_nth order_less_le_trans prod.collapse)
      then have "map_of es x = Some (snd (es ! ?mid))" using ascending_distinct [OF \<open>ascending es\<close>] by simp
      then show ?thesis using 1 True by (subst resolve_loop.simps) (simp add: forward_def Let_def)
    next
      case 2
      then have ne: "fst (es ! ?mid) \<noteq> x" by auto
      have "\<forall>i < length es. fst (es ! i) = x \<longrightarrow> ?mid + 1 \<le> i \<and> i < hi"
      proof (intro allI impI)
        fix i assume i: "i < length es" "fst (es ! i) = x"
        have "\<not> i \<le> ?mid"
        proof
          assume "i \<le> ?mid"
          then have "fst (es ! i) \<le> fst (es ! ?mid)" by (rule ascending_le [OF \<open>ascending es\<close>]) (use mid \<open>hi \<le> length es\<close> in simp)
          then show False using 2 i(2) by simp
        qed
        then show "?mid + 1 \<le> i \<and> i < hi" using 1(5) i by auto
      qed
      then have "resolve_loop es x (?mid + 1) hi = forward es x" using 1(1) [OF True refl] 2 1(3,4) by simp
      then show ?thesis using True 2 ne by (subst resolve_loop.simps) (simp add: Let_def)
    next
      case 3
      then have ne: "fst (es ! ?mid) \<noteq> x" "\<not> fst (es ! ?mid) < x" by auto
      have "\<forall>i < length es. fst (es ! i) = x \<longrightarrow> lo \<le> i \<and> i < ?mid"
      proof (intro allI impI)
        fix i assume i: "i < length es" "fst (es ! i) = x"
        have "\<not> ?mid \<le> i"
        proof
          assume "?mid \<le> i"
          then have "fst (es ! ?mid) \<le> fst (es ! i)" by (rule ascending_le [OF \<open>ascending es\<close>]) (rule i(1))
          then show False using 3 i(2) by simp
        qed
        then show "lo \<le> i \<and> i < ?mid" using 1(5) i by auto
      qed
      then have "resolve_loop es x lo ?mid = forward es x" using 1(2) [OF True refl] 3 1(3,4) mid by (simp add: not_less_iff_gr_or_eq)
      then show ?thesis by (subst resolve_loop.simps) (simp only: Let_def True ne if_True if_False)
    qed
  qed
qed

section \<open>What the walk does\<close>

text \<open>
  \<open>tiled m ts te c ps e\<close>: from \<open>c\<close> to \<open>e\<close> the heap is the pages \<open>ps\<close>, one after the
  other, but for the unused tail of the small arena from \<open>ts\<close> to \<open>te\<close>.
\<close>

definition skip_tail :: "u64 \<Rightarrow> u64 \<Rightarrow> u64 \<Rightarrow> u64" where
  "skip_tail ts te c = (if c = ts \<and> ts < te then te else c)"

fun tiled :: "mem \<Rightarrow> u64 \<Rightarrow> u64 \<Rightarrow> u64 \<Rightarrow> u64 list \<Rightarrow> u64 \<Rightarrow> bool" where
  "tiled m ts te c [] e \<longleftrightarrow> c = e \<or> c < e \<and> skip_tail ts te c = e"
| "tiled m ts te c (p # ps) e \<longleftrightarrow> p = skip_tail ts te c \<and> c < e \<and> p < e \<and>
     unat p + 16 + unat (GetSize m p) \<le> unat e \<and> tiled m ts te (p + (16 + GetSize m p)) ps e"

text \<open>The forwarding table and the end of the packed pages.\<close>

fun packed :: "mem \<Rightarrow> u64 \<Rightarrow> u64 list \<Rightarrow> ForwardingTable" where
  "packed m w [] = []"
| "packed m w (p # ps) = (if IsFree m p then packed m w ps else (p + 16, w + 16) # packed m (w + (16 + GetSize m p)) ps)"

fun packed_end :: "mem \<Rightarrow> u64 \<Rightarrow> u64 list \<Rightarrow> u64" where
  "packed_end m w [] = w"
| "packed_end m w (p # ps) = (if IsFree m p then packed_end m w ps else packed_end m (w + (16 + GetSize m p)) ps)"

definition moved :: "mem \<Rightarrow> mem \<Rightarrow> u64 \<times> u64 \<Rightarrow> bool" where
  "moved m m' e \<longleftrightarrow> (case e of (old_off, new_off) \<Rightarrow> GetSize m' (new_off - 16) = GetSize m (old_off - 16) \<and>
     (\<forall>i < unat (GetSize m (old_off - 16)). m' (unat new_off + i) = m (unat old_off + i)))"

lemma skip_tail_le: "c \<le> skip_tail ts te c"
  by (auto simp: skip_tail_def)

lemma skip_tail_again: "skip_tail ts te c \<noteq> ts \<or> \<not> ts < te"
  by (auto simp: skip_tail_def)

lemma compact_skip: "c < e \<Longrightarrow> compact_loop e ts te c w m tb = compact_loop e ts te (skip_tail ts te c) w m tb"
proof (cases "c = ts \<and> ts < te")
  case True
  assume "c < e"
  then show ?thesis using True by (subst compact_loop.simps) (simp add: skip_tail_def)
qed (simp only: skip_tail_def if_False)

lemma compact_done: "\<not> c < e \<Longrightarrow> compact_loop e ts te c w m tb = Some (w, m, tb)"
  by (subst compact_loop.simps) simp

lemma load64_shift: "(\<And>i. i < 8 \<Longrightarrow> m' (a + i) = m (b + i)) \<Longrightarrow> load64 m' a = load64 m b"
  unfolding load64_def by (rule arg_cong [of _ _ "\<lambda>xs. of_nat (le_val xs)"]) (simp del: upt_Suc)

lemma blk_size: "unat (16 + GetSize m p) = 16 + unat (GetSize m p)"
  using unat_total [of m p] by (simp add: sizeof_BuddyPage_def add.commute)

lemma IsFree_cong: "(\<And>x. unat p \<le> x \<Longrightarrow> x < unat p + 16 \<Longrightarrow> m' x = m x) \<Longrightarrow> IsFree m' p = IsFree m p"
  unfolding IsFree_def size_word_def by (subst load64_cong [of "unat p + 8" m' m]) auto

text \<open>Moving one page down.\<close>

definition move_page :: "u64 \<Rightarrow> u64 \<Rightarrow> mem \<Rightarrow> mem" where
  "move_page w p m = MarkAllocated w (if w \<noteq> p then memcpy m (unat w) m (unat p) (unat (sizeof_BuddyPage + GetSize m p)) else m)"

lemma move_page_spec:
  shows "x < unat w \<or> unat w + 16 + unat (GetSize m p) \<le> x \<Longrightarrow> move_page w p m x = m x"
    and "i < unat (GetSize m p) \<Longrightarrow> move_page w p m (unat w + 16 + i) = m (unat p + 16 + i)"
    and "GetSize (move_page w p m) w = GetSize m p"
proof -
  let ?m1 = "if w \<noteq> p then memcpy m (unat w) m (unat p) (unat (sizeof_BuddyPage + GetSize m p)) else m"
  have h: "hdr_only w ?m1 (move_page w p m)" by (simp add: move_page_def)
  have b: "unat (sizeof_BuddyPage + GetSize m p) = 16 + unat (GetSize m p)" using blk_size by (simp add: sizeof_BuddyPage_def)
  have c: "?m1 (unat w + i) = m (unat p + i)" if "i < 16 + unat (GetSize m p)" for i using that by (auto simp: memcpy_def b)
  show "move_page w p m x = m x" if "x < unat w \<or> unat w + 16 + unat (GetSize m p) \<le> x"
    using h that by (auto simp: hdr_only_def memcpy_def b)
  show "move_page w p m (unat w + 16 + i) = m (unat p + 16 + i)" if "i < unat (GetSize m p)"
    using h c [of "16 + i"] that by (simp add: hdr_only_def add.assoc)
  have "load64 ?m1 (unat w + 8) = load64 m (unat p + 8)"
  proof (rule load64_shift)
    fix i :: nat assume "i < 8"
    then show "?m1 (unat w + 8 + i) = m (unat p + 8 + i)" using c [of "8 + i"] by (simp add: add.assoc)
  qed
  then have "GetSize ?m1 w = GetSize m p" by (simp only: GetSize_def size_word_def)
  then show "GetSize (move_page w p m) w = GetSize m p" by (simp only: move_page_def GetSize_MarkAllocated)
qed

lemma compact_page:
  assumes "p < e" and "p \<noteq> ts \<or> \<not> ts < te"
  shows "compact_loop e ts te p w m tb =
    (if IsFree m p then compact_loop e ts te (p + (16 + GetSize m p)) w m tb
     else compact_loop e ts te (p + (16 + GetSize m p)) (w + (16 + GetSize m p)) (move_page w p m) (tb @ [(p + 16, w + 16)]))"
proof -
  have nt: "(p = ts \<and> ts < te) = False" using assms(2) by blast
  show ?thesis using assms(1)
    by (subst compact_loop.simps, cases "IsFree m p") (simp_all add: nt move_page_def Let_def Record_def sizeof_BuddyPage_def)
qed

lemma compact_loop_spec:
  assumes "tiled m ts te c ps e" and "unat e \<le> 2 ^ 62" and "w \<le> c" and "\<forall>x \<ge> unat c. m' x = m x"
  shows "\<exists>m''. compact_loop e ts te c w m' tb = Some (packed_end m w ps, m'', tb @ packed m w ps) \<and>
    (\<forall>x < unat w. m'' x = m' x) \<and> (\<forall>en \<in> set (packed m w ps). moved m m'' en)"
  using assms
proof (induction ps arbitrary: c w m' tb)
  case Nil
  then show ?case
  proof (cases "c = e")
    case False
    then have "c < e" "skip_tail ts te c = e" using Nil(1) by auto
    then show ?thesis using compact_skip [of c e ts te w m' tb] by (simp add: compact_done)
  qed (simp add: compact_done)
next
  case (Cons p ps)
  let ?c = "p + (16 + GetSize m p)" and ?w = "w + (16 + GetSize m p)"
  have p: "p = skip_tail ts te c" "c < e" "p < e" "unat p + 16 + unat (GetSize m p) \<le> unat e" "tiled m ts te ?c ps e"
    using Cons.prems(1) by auto
  have cp: "unat c \<le> unat p" "unat w \<le> unat p" using skip_tail_le [of c ts te] p(1) Cons.prems(3) by (auto simp: word_le_nat_alt)
  have uc: "unat ?c = unat p + 16 + unat (GetSize m p)" using p(4) Cons.prems(2) by (subst unat_add_no_overflow) (simp_all add: blk_size)
  have uw: "unat ?w = unat w + 16 + unat (GetSize m p)" using p(4) cp(2) Cons.prems(2) by (subst unat_add_no_overflow) (simp_all add: blk_size)
  have same: "GetSize m' p = GetSize m p" "IsFree m' p = IsFree m p"
    by (rule GetSize_cong, use Cons.prems(4) cp(1) in simp) (rule IsFree_cong, use Cons.prems(4) cp(1) in simp)
  have step: "compact_loop e ts te c w m' tb = (if IsFree m p then compact_loop e ts te ?c w m' tb
     else compact_loop e ts te ?c ?w (move_page w p m') (tb @ [(p + 16, w + 16)]))"
    using compact_skip [OF p(2), of ts te w m' tb] compact_page [OF p(3), of ts te w m' tb] skip_tail_again [of ts te c] p(1) same by simp
  show ?case
  proof (cases "IsFree m p")
    case True
    have "\<forall>x \<ge> unat ?c. m' x = m x" using Cons.prems(4) uc cp(1) by auto
    then show ?thesis using Cons.IH [OF p(5) Cons.prems(2), of w m' tb] True step uc cp by (simp add: word_le_nat_alt)
  next
    case False
    let ?m1 = "move_page w p m'" and ?tb = "tb @ [(p + 16, w + 16)]"
    note mv = move_page_spec [where m = m' and p = p and w = w, unfolded same]
    have "?m1 x = m x" if "unat ?c \<le> x" for x
    proof -
      have "unat w + 16 + unat (GetSize m p) \<le> x" using that uc cp(2) by simp
      then have "?m1 x = m' x" by (intro mv(1) disjI2)
      then show ?thesis using Cons.prems(4) that uc cp(1) by simp
    qed
    then obtain m'' where m'': "compact_loop e ts te ?c ?w ?m1 ?tb = Some (packed_end m ?w ps, m'', ?tb @ packed m ?w ps)"
      "\<forall>x < unat ?w. m'' x = ?m1 x" "\<forall>en \<in> set (packed m ?w ps). moved m m'' en"
      using Cons.IH [OF p(5) Cons.prems(2), of ?w ?m1 ?tb] uc uw cp(2) unfolding word_le_nat_alt by auto
    have low: "\<forall>x < unat w. m'' x = m' x" using m''(2) mv(1) uw by simp
    have "GetSize m'' w = GetSize m p" using mv(3) m''(2) uw GetSize_cong [of w m'' ?m1] by simp
    moreover have "m'' (unat (w + 16) + i) = m (unat (p + 16) + i)" if "i < unat (GetSize m p)" for i
    proof -
      have u: "unat (w + 16) = unat w + 16" "unat (p + 16) = unat p + 16"
        using p(4) cp(2) Cons.prems(2) by (subst unat_add_no_overflow, simp_all)+
      show ?thesis using m''(2) mv(2) [OF that] that uw Cons.prems(4) cp(1) by (simp add: u)
    qed
    ultimately have "moved m m'' (p + 16, w + 16)" by (simp add: moved_def)
    then show ?thesis using step False m'' low by simp
  qed
qed

lemma Resolve_forward: "ascending es \<Longrightarrow> Resolve es x = forward es x"
  unfolding Resolve_def by (rule resolve_loop_forward) simp_all

section \<open>The heap after compaction\<close>

definition live_in :: "mem \<Rightarrow> u64 list \<Rightarrow> u64 list" where
  "live_in m ps = filter (\<lambda>p. \<not> IsFree m p) ps"

lemma packed_fst: "map fst (packed m w ps) = map (\<lambda>p. p + 16) (live_in m ps)"
  by (induction ps arbitrary: w) (auto simp: live_in_def)

lemma tiled_after:
  assumes "tiled m ts te c ps e" and "unat e \<le> 2 ^ 62" and "p \<in> set ps"
  shows "unat c \<le> unat p \<and> unat (p + 16) = unat p + 16"
  using assms(1,3)
proof (induction ps arbitrary: c)
  case (Cons q ps)
  have q: "q = skip_tail ts te c" "unat q + 16 + unat (GetSize m q) \<le> unat e" "tiled m ts te (q + (16 + GetSize m q)) ps e"
    using Cons.prems(1) by auto
  have cq: "unat c \<le> unat q" using skip_tail_le [of c ts te] q(1) by (simp add: word_le_nat_alt)
  show ?case
  proof (cases "p = q")
    case True
    have "unat (q + 16) = unat q + 16" using q(2) assms(2) by (subst unat_add_no_overflow) simp_all
    then show ?thesis using True cq by simp
  next
    case False
    have "unat (q + (16 + GetSize m q)) = unat q + 16 + unat (GetSize m q)"
      using q(2) assms(2) by (subst unat_add_no_overflow) (simp_all add: blk_size)
    then show ?thesis using Cons.IH [OF q(3)] Cons.prems(2) False cq by auto
  qed
qed simp

lemma tiled_sorted:
  assumes "tiled m ts te c ps e" and "unat e \<le> 2 ^ 62"
  shows "sorted_wrt (\<lambda>p q. p + 16 < q + 16) ps"
  using assms(1)
proof (induction ps arbitrary: c)
  case (Cons q ps)
  have q: "unat q + 16 + unat (GetSize m q) \<le> unat e" "tiled m ts te (q + (16 + GetSize m q)) ps e" using Cons.prems by auto
  have u: "unat (q + (16 + GetSize m q)) = unat q + 16 + unat (GetSize m q)" "unat (q + 16) = unat q + 16"
    using q(1) assms(2) by (subst unat_add_no_overflow, simp_all add: blk_size)+
  have "q + 16 < p + 16" if "p \<in> set ps" for p
    using tiled_after [OF q(2) assms(2) that] u by (simp add: word_less_nat_alt)
  then show ?case using Cons.IH [OF q(2)] by simp
qed simp

lemma packed_ascending:
  assumes "tiled m ts te c ps e" and "unat e \<le> 2 ^ 62"
  shows "ascending (packed m w ps)"
proof -
  have "sorted_wrt (\<lambda>p q. p + 16 < q + 16) (live_in m ps)"
    unfolding live_in_def by (rule sorted_wrt_filter [OF tiled_sorted [OF assms]])
  then show ?thesis by (simp add: ascending_def packed_fst sorted_wrt_map)
qed

text \<open>The packed pages fill the heap from the first byte to the last without a gap.\<close>

lemma packed_cov:
  assumes "tiled m ts te c ps e" and "unat e \<le> 2 ^ 62" and "w \<le> c" and "\<forall>en \<in> set (packed m w ps). moved m m'' en"
  shows "unat w \<le> unat (packed_end m w ps) \<and> unat (packed_end m w ps) \<le> unat e \<and>
    (\<forall>x. pages_cov m'' (map (\<lambda>en. snd en - 16) (packed m w ps)) x = cov (unat w) (unat (packed_end m w ps) - unat w) x)"
  using assms(1,3,4)
proof (induction ps arbitrary: c w)
  case Nil
  then show ?case by (auto simp: cov_def word_le_nat_alt word_less_nat_alt)
next
  case (Cons p ps)
  let ?c = "p + (16 + GetSize m p)" and ?w = "w + (16 + GetSize m p)"
  have p: "p = skip_tail ts te c" "unat p + 16 + unat (GetSize m p) \<le> unat e" "tiled m ts te ?c ps e"
    using Cons.prems(1) by auto
  have cp: "unat w \<le> unat p" using skip_tail_le [of c ts te] p(1) Cons.prems(2) by (auto simp: word_le_nat_alt)
  have uc: "unat ?c = unat p + 16 + unat (GetSize m p)" using p(2) assms(2) by (subst unat_add_no_overflow) (simp_all add: blk_size)
  have uw: "unat ?w = unat w + 16 + unat (GetSize m p)" using p(2) cp assms(2) by (subst unat_add_no_overflow) (simp_all add: blk_size)
  show ?case
  proof (cases "IsFree m p")
    case True
    then show ?thesis using Cons.IH [OF p(3), of w] Cons.prems(3) uc cp by (simp add: word_le_nat_alt)
  next
    case False
    have ih: "unat ?w \<le> unat (packed_end m ?w ps)" "unat (packed_end m ?w ps) \<le> unat e"
      "pages_cov m'' (map (\<lambda>en. snd en - 16) (packed m ?w ps)) x = cov (unat ?w) (unat (packed_end m ?w ps) - unat ?w) x" for x
      using Cons.IH [OF p(3), of ?w] Cons.prems(3) False uc uw cp by (simp_all add: word_le_nat_alt)
    have g: "GetSize m'' w = GetSize m p" using Cons.prems(3) False by (simp add: moved_def)
    have "cov (unat w) (unat (packed_end m ?w ps) - unat w) x =
        cov (unat w) (16 + unat (GetSize m p)) x + cov (unat ?w) (unat (packed_end m ?w ps) - unat ?w) x" for x
      using cov_split [of "unat w" "16 + unat (GetSize m p)" "unat (packed_end m ?w ps) - unat ?w" x] ih(1) uw by (simp add: add.assoc)
    then show ?thesis using False ih uw g by (simp add: page_cov_def)
  qed
qed

text \<open>When compaction may run: the pages \<open>ps\<close> tile the heap, and those not free are the live ones.\<close>

definition compactable :: "Buddy \<Rightarrow> u64 list \<Rightarrow> u64 list \<Rightarrow> bool" where
  "compactable b live ps \<longleftrightarrow>
     (let scan_start = bd_this b + bd_data_start b + sizeof_BuddyPage
      in scan_start \<noteq> 0 \<and> scan_start \<le> hp_off (big_heap b) \<and> hp_max (big_heap b) \<le> bd_capacity b \<and>
         tiled (bd_mem b) (hp_off (small_arena b)) (hp_max (small_arena b)) scan_start ps (hp_off (big_heap b)) \<and>
         set (live_in (bd_mem b) ps) = set live)"

lemma pages_cov_mset: "mset ps = mset qs \<Longrightarrow> pages_cov m ps x = pages_cov m qs x"
  unfolding pages_cov_def by (metis mset_map sum_mset_sum_list)

lemma buddy_ok_mset:
  assumes "buddy_ok lo b live" and "mset live' = mset live"
  shows "buddy_ok lo b live'"
proof -
  obtain fs fl where inv: "buddy_inv lo b fs fl live (heaps_cov b)" and ok: "heap_ok (small_arena b)" "heap_ok (big_heap b)"
    using assms(1) by (auto simp: buddy_ok_def)
  have "buddy_inv lo b fs fl live' (heaps_cov b)"
  proof (rule inv_live [OF inv])
    show "\<forall>p \<in> set live'. 32 \<le> unat (GetSize (bd_mem b) p)"
      using inv_sizes [OF inv] mset_eq_setD [OF assms(2)] by (simp add: buddy_sizes_def)
    show "pages_cov (bd_mem b) live' x + heaps_cov b x \<le> pages_cov (bd_mem b) live x + heaps_cov b x" for x
      using pages_cov_mset [OF assms(2)] by simp
  qed
  then show ?thesis using ok by (rule buddy_okI)
qed


lemma forward_all: "distinct (map fst es) \<Longrightarrow> map (forward es) (map fst es) = map snd es"
proof (rule nth_equalityI, simp, goal_cases)
  case (1 i)
  then have "(fst (es ! i), snd (es ! i)) \<in> set es" by simp
  then have "map_of es (fst (es ! i)) = Some (snd (es ! i))" using 1(1) by simp
  then show ?case using 1(2) by (simp add: forward_def)
qed

lemma forward_mset:
  assumes "distinct (map fst es)" and "map fst es = map (\<lambda>p. p + 16) ps" and "distinct live" and "set ps = set live"
  shows "mset (map (\<lambda>p. forward es (p + 16) - 16) live) = mset (map (\<lambda>en. snd en - 16) es)"
proof -
  have "distinct ps" using assms(1,2) by (metis distinct_map)
  then have ps: "mset ps = mset live" using assms(3,4) by (simp add: set_eq_iff_mset_eq_distinct)
  have "map (\<lambda>en. snd en - 16) es = map (\<lambda>y. y - 16) (map (forward es) (map fst es))"
    unfolding forward_all [OF assms(1)] by simp
  also have "\<dots> = map (\<lambda>p. forward es (p + 16) - 16) ps" unfolding assms(2) by simp
  finally show ?thesis using ps by (simp add: mset_map)
qed

text \<open>An allocator whose live pages are packed below its heap.\<close>

lemma packed_ok:
  assumes cov: "\<And>x. pages_cov (bd_mem b) live x = cov (unat st) (unat w - unat st) x" and sizes: "\<forall>p \<in> set live. 32 \<le> unat (GetSize (bd_mem b) p)"
    and st: "st \<noteq> 0" "st \<le> w" "w \<le> mx" "mx \<le> bd_capacity b" and cap: "unat (bd_capacity b) \<le> 2 ^ 62"
    and b: "small_pages b = replicate 10 slist_Init" "large_pages b = replicate 6 slist_Init" "small_arena b = ShmHeap_Init 0 0" "big_heap b = ShmHeap_Init w mx"
  shows "buddy_ok 1 b live"
proof -
  have u: "0 < unat st" "unat st \<le> unat w" "unat w \<le> unat mx" "unat mx \<le> unat (bd_capacity b)"
    using st by (simp_all add: word_le_nat_alt unat_gt_0)
  have hc: "heaps_cov b x = cov (unat w) (unat mx - unat w) x" for x unfolding heaps_cov_def b(3,4) heap_cov_end by (simp add: heap_cov_def ShmHeap_Init_def)
  have sum: "owned (bd_mem b) (replicate 10 []) (replicate 6 []) live x + heaps_cov b x = cov (unat st) (unat mx - unat st) x" for x
    using cov_split [of "unat st" "unat w - unat st" "unat mx - unat w" x] u by (simp add: owned_def cov hc)
  have "buddy_inv 1 b (replicate 10 []) (replicate 6 []) live (heaps_cov b)"
    unfolding buddy_inv_def sum
  proof (intro conjI)
    show "buddy_lists b (replicate 10 []) (replicate 6 [])" by (simp add: buddy_lists_def b)
    show "buddy_sizes (bd_mem b) (replicate 10 []) live" using sizes by (simp add: buddy_sizes_def)
    show "\<forall>x. 0 < cov (unat st) (unat mx - unat st) x \<longrightarrow> 1 \<le> x \<and> x < unat (bd_capacity b)" using u by (auto simp: cov_def split: if_splits)
  qed (use cap in \<open>simp_all add: cov_def\<close>)
  moreover have "heap_ok (small_arena b)" "heap_ok (big_heap b)" using u cap by (simp_all add: b heap_ok_def ShmHeap_Init_def word_le_nat_alt)
  ultimately show ?thesis by (rule buddy_okI)
qed

lemma Compact_ok:
  assumes "buddy_ok lo b live" and "distinct live" and "compactable b live ps"
  shows "\<exists>tbl b'. Compact b = Some (tbl, b') \<and> bd_capacity b' = bd_capacity b \<and> ascending tbl \<and>
    buddy_ok 1 b' (map (\<lambda>p. forward tbl (p + 16) - 16) live) \<and>
    (\<forall>p \<in> set live. moved (bd_mem b) (bd_mem b') (p + 16, forward tbl (p + 16)))"
proof -
  define st e ts te m where d: "st = bd_this b + bd_data_start b + sizeof_BuddyPage" "e = hp_off (big_heap b)"
    "ts = hp_off (small_arena b)" "te = hp_max (small_arena b)" "m = bd_mem b"
  have c: "st \<noteq> 0" "st \<le> e" "hp_max (big_heap b) \<le> bd_capacity b" "tiled m ts te st ps e" "set (live_in m ps) = set live"
    using assms(3) by (simp_all add: compactable_def d Let_def)
  obtain fs fl where inv: "buddy_inv lo b fs fl live (heaps_cov b)" and ok: "heap_ok (small_arena b)" "heap_ok (big_heap b)"
    using assms(1) by (auto simp: buddy_ok_def)
  have mx: "e \<le> hp_max (big_heap b)" "unat (hp_max (big_heap b)) \<le> 2 ^ 62" using ok(2) by (auto simp: heap_ok_def d)
  then have e62: "unat e \<le> 2 ^ 62" by (simp add: word_le_nat_alt)
  let ?tbl = "packed m st ps" and ?w = "packed_end m st ps"
  obtain m'' where L: "compact_loop e ts te st st m [] = Some (?w, m'', ?tbl)" and mv: "\<forall>en \<in> set ?tbl. moved m m'' en"
    using compact_loop_spec [OF c(4) e62 order_refl, of m "[]"] by auto
  note pc = packed_cov [OF c(4) e62 order_refl mv]
  define b' where "b' = b\<lparr>bd_mem := m'', small_pages := replicate kMaxSmallPages slist_Init, large_pages := replicate kMaxLargePages slist_Init,
     small_arena := ShmHeap_Init 0 0, big_heap := ShmHeap_Init ?w (hp_max (big_heap b))\<rparr>"
  have C: "Compact b = Some (?tbl, b')" using L by (simp add: Compact_def d [symmetric] Let_def b'_def)
  note asc = packed_ascending [OF c(4) e62, of st]
  have olds: "set (map fst ?tbl) = (\<lambda>p. p + 16) ` set live" unfolding packed_fst c(5) [symmetric] by simp
  have sizes: "32 \<le> unat (GetSize m'' (snd en - 16))" if "en \<in> set ?tbl" for en
  proof -
    have "fst en \<in> set (map fst ?tbl)" using that by simp
    then have "fst en - 16 \<in> set live" unfolding olds by auto
    moreover have "GetSize m'' (snd en - 16) = GetSize m (fst en - 16)" using mv that by (cases en) (auto simp: moved_def)
    ultimately show ?thesis using inv_sizes [OF inv] by (simp add: buddy_sizes_def d)
  qed
  have "buddy_ok 1 b' (map (\<lambda>en. snd en - 16) ?tbl)"
    by (rule packed_ok [where st = st and w = ?w and mx = "hp_max (big_heap b)"])
      (use pc sizes c mx inv_cap [OF inv] in \<open>simp_all add: b'_def word_le_nat_alt kMaxSmallPages_def kMaxLargePages_def kSmallLog2_def kMinLog2_def kMaxLog2_def\<close>)
  moreover have "mset (map (\<lambda>p. forward ?tbl (p + 16) - 16) live) = mset (map (\<lambda>en. snd en - 16) ?tbl)"
    by (rule forward_mset [OF ascending_distinct [OF asc] packed_fst assms(2) c(5)])
  ultimately have "buddy_ok 1 b' (map (\<lambda>p. forward ?tbl (p + 16) - 16) live)" by (rule buddy_ok_mset)
  moreover have "moved m m'' (p + 16, forward ?tbl (p + 16))" if "p \<in> set live" for p
  proof -
    have "p + 16 \<in> set (map fst ?tbl)" unfolding olds by (rule imageI [OF that])
    then obtain en where en: "en \<in> set ?tbl" "fst en = p + 16" by auto
    have "map_of ?tbl (p + 16) = Some (snd en)" unfolding map_of_eq_Some_iff [OF ascending_distinct [OF asc]] en(2) [symmetric] using en(1) by simp
    then have "(p + 16, forward ?tbl (p + 16)) = en" using en(2) by (simp add: forward_def prod_eq_iff)
    then show ?thesis using mv en(1) by simp
  qed
  ultimately show ?thesis using C asc by (auto simp: b'_def d)
qed

section \<open>Properties\<close>

text \<open>
  C24. Binary search in the forwarding table is a plain lookup: on a table with
  ascending old offsets \<^verbatim>\<open>Resolve\<close> returns the entry of the offset, and the offset
  itself when there is none; null stays null.
\<close>

theorem Resolve_is_lookup:
  assumes "ascending es"
  shows "Resolve es x = forward es x \<and> ResolvePtr es x = (if x = null_off then x else forward es x)"
  using Resolve_forward [OF assms] by (simp add: ResolvePtr_def)

theorem Resolve_is_lookup_witness:
  "ascending [(16, 16), (80, 48), (200, 96)] \<and> Resolve [(16, 16), (80, 48), (200, 96)] 80 = 48 \<and> Resolve [(16, 16), (80, 48), (200, 96)] 81 = 81"
proof -
  have a: "ascending [(16, 16), (80, 48), (200, 96)]" by (simp add: ascending_def)
  show ?thesis using a Resolve_is_lookup [OF a, of 80] Resolve_is_lookup [OF a, of 81] by (simp add: forward_def)
qed

end
