(* ===== verification/Buddy_Run.thy ===== *)
theory Buddy_Run
  imports Buddy_Compact
begin

text \<open>
  Runs of the buddy allocator: after \<^verbatim>\<open>shm_init\<close> clients allocate, write into
  their blocks, reallocate and free in any order. A block is named by the offset
  the allocator returned.
\<close>

section \<open>Blocks\<close>

definition block_size :: "Buddy \<Rightarrow> u64 \<Rightarrow> nat" where
  "block_size b off = unat (GetSize (bd_mem b) (off - 16))"

definition in_block :: "Buddy \<Rightarrow> u64 \<Rightarrow> nat \<Rightarrow> bool" where
  "in_block b off x \<longleftrightarrow> unat off \<le> x \<and> x < unat off + block_size b off"

definition pages_of :: "u64 list \<Rightarrow> u64 list" where
  "pages_of bs = map (\<lambda>off. off - 16) bs"

lemma pages_of_simps [simp]: "pages_of [] = []" "pages_of (off # bs) = (off - 16) # pages_of bs"
  by (simp_all add: pages_of_def)

lemma pages_of_remove: "pages_of (remove1 off bs) = remove1 (off - 16) (pages_of bs)"
  by (induction bs) auto

lemma pages_of_mem: "off \<in> set bs \<Longrightarrow> off - 16 \<in> set (pages_of bs)"
  by (simp add: pages_of_def)

lemma pages_cov_remove: "p \<in> set ps \<Longrightarrow> page_cov m p x + pages_cov m (remove1 p ps) x = pages_cov m ps x"
  by (induction ps) auto

section \<open>Clients\<close>

lemma inv_take:
  assumes "buddy_inv lo b fs fl live raw" and "p \<in> set live"
  shows "buddy_inv lo b fs fl (remove1 p live) (\<lambda>x. page_cov (bd_mem b) p x + raw x)"
proof (rule inv_live [OF assms(1)])
  show "\<forall>q \<in> set (remove1 p live). 32 \<le> unat (GetSize (bd_mem b) q)"
    using inv_sizes [OF assms(1)] set_remove1_subset [of p live] by (auto simp: buddy_sizes_def)
  show "pages_cov (bd_mem b) (remove1 p live) x + (page_cov (bd_mem b) p x + raw x) \<le> pages_cov (bd_mem b) live x + raw x" for x
    using pages_cov_remove [OF assms(2), of "bd_mem b" x] by simp
qed

lemma inv_give:
  assumes "buddy_inv lo b fs fl (remove1 p live) (\<lambda>x. page_cov (bd_mem b) p x + raw x)" and "p \<in> set live"
    and "32 \<le> unat (GetSize (bd_mem b) p)"
  shows "buddy_inv lo b fs fl live raw"
proof (rule inv_live [OF assms(1)])
  have "set live = insert p (set (remove1 p live))" using assms(2) by (induction live) auto
  then show "\<forall>q \<in> set live. 32 \<le> unat (GetSize (bd_mem b) q)"
    using inv_sizes [OF assms(1)] assms(3) by (simp add: buddy_sizes_def)
  show "pages_cov (bd_mem b) live x + raw x \<le> pages_cov (bd_mem b) (remove1 p live) x + (page_cov (bd_mem b) p x + raw x)" for x
    using pages_cov_remove [OF assms(2), of "bd_mem b" x] by simp
qed

text \<open>Space that is no page may be overwritten freely.\<close>

lemma inv_write_raw:
  assumes "buddy_inv lo b fs fl live raw" and "\<And>x. raw x = 0 \<Longrightarrow> m' x = bd_mem b x"
  shows "buddy_inv lo (b\<lparr>bd_mem := m'\<rparr>) fs fl live raw" and "keeps live b (b\<lparr>bd_mem := m'\<rparr>)"
proof -
  have same: "m' x = bd_mem b x" if "q \<in> all_pages fs fl live" "unat q \<le> x" "x < unat q + 16" for q x
  proof -
    have "1 \<le> owned (bd_mem b) fs fl live x"
      using page_owned [OF that(1), of "bd_mem b" x] that(2,3) by (simp add: page_cov_def cov_def)
    then show ?thesis using inv_once [OF assms(1), of x] assms(2) by simp
  qed
  show "buddy_inv lo (b\<lparr>bd_mem := m'\<rparr>) fs fl live raw"
    by (rule inv_frame [OF assms(1)]) (intro ballI conjI GetSize_cong slist_next_cong same)
  have "m' x = bd_mem b x" if "0 < pages_cov (bd_mem b) live x" for x
    using live_raw_once [OF assms(1), of x] that assms(2) by simp
  then show "keeps live b (b\<lparr>bd_mem := m'\<rparr>)" by (simp add: keeps_def)
qed

lemma write_ok:
  assumes "buddy_ok lo b live" and "p \<in> set live"
    and w: "\<And>x. \<not> (unat p + 16 \<le> x \<and> x < unat p + 16 + unat (GetSize (bd_mem b) p)) \<Longrightarrow> m' x = bd_mem b x"
  shows "buddy_ok lo (b\<lparr>bd_mem := m'\<rparr>) live \<and> keeps (remove1 p live) b (b\<lparr>bd_mem := m'\<rparr>) \<and>
    GetSize m' p = GetSize (bd_mem b) p"
proof -
  obtain fs fl where inv: "buddy_inv lo b fs fl live (heaps_cov b)" and ok: "heap_ok (small_arena b)" "heap_ok (big_heap b)"
    using assms(1) by (auto simp: buddy_ok_def)
  let ?raw = "\<lambda>x. page_cov (bd_mem b) p x + heaps_cov b x" and ?b = "b\<lparr>bd_mem := m'\<rparr>"
  have g: "GetSize m' p = GetSize (bd_mem b) p" by (rule GetSize_cong) (rule w, simp)
  have "m' x = bd_mem b x" if "?raw x = 0" for x by (rule w) (use that in \<open>auto simp: page_cov_def cov_def\<close>)
  note k = inv_write_raw [OF inv_take [OF inv assms(2)] this]
  have "32 \<le> unat (GetSize (bd_mem b) p)" using inv_sizes [OF inv] assms(2) by (simp add: buddy_sizes_def)
  then have "buddy_inv lo ?b fs fl live (heaps_cov b)"
    by (intro inv_give [OF _ assms(2)]) (use k(1) g in \<open>simp_all add: page_cov_def\<close>)
  then have "buddy_inv lo ?b fs fl live (heaps_cov ?b)" by (simp add: heaps_cov_def [abs_def])
  then have "buddy_ok lo ?b live" by (rule buddy_okI) (use ok in simp_all)
  then show ?thesis using k(2) g by blast
qed

section \<open>Freeing\<close>

lemma Free_ok:
  assumes "buddy_ok lo b live" and "p \<in> set live"
  shows "buddy_ok lo (FreeOffset (p + 16) b) (remove1 p live) \<and> keeps (remove1 p live) b (FreeOffset (p + 16) b)"
proof -
  obtain fs fl where inv: "buddy_inv lo b fs fl live (heaps_cov b)" and ok: "heap_ok (small_arena b)" "heap_ok (big_heap b)"
    using assms(1) by (auto simp: buddy_ok_def)
  let ?live = "remove1 p live" and ?d = "GetSize (bd_mem b) p"
  define b1 where "b1 = b\<lparr>bd_mem := SetNext (MarkFree p (bd_mem b)) p null_off\<rparr>"
  have pin: "p \<in> all_pages fs fl live" using assms(2) by (simp add: all_pages_def)
  have d32: "32 \<le> unat ?d" using inv_sizes [OF inv] assms(2) by (simp add: buddy_sizes_def)
  have pe: "unat p + 16 + unat ?d \<le> 2 ^ 62" using page_inside(2) [OF inv pin] inv_cap [OF inv] by simp
  have "unat (p + 16) = unat p + 16" using pe by (subst unat_add_no_overflow) simp_all
  then have "unat (p + 16) \<noteq> unat null_off" using pe d32 by (simp add: null_off_def unat_max64)
  then have nn: "p + 16 \<noteq> null_off" by metis
  have h: "hdr_only p (bd_mem b) (bd_mem b1)" unfolding b1_def by (simp add: hdr_only_trans [OF hdr_only_writes(3,1)])
  have hd: "\<forall>x. cov (unat p) 16 x \<le> page_cov (bd_mem b) p x + heaps_cov b x" by (simp add: trans_le_add1 hdr_le_page)
  have k: "buddy_inv lo b1 fs fl ?live (\<lambda>x. page_cov (bd_mem b) p x + heaps_cov b x)" "keeps ?live b b1"
    using inv_hdr_keeps [OF inv_take [OF inv assms(2)] hd h] by (simp_all add: b1_def)
  have g: "GetSize (bd_mem b1) p = ?d" by (simp add: b1_def)
  have room: "page_cov (bd_mem b1) p x + heaps_cov b x \<le> page_cov (bd_mem b) p x + heaps_cov b x" for x by (simp add: page_cov_def g)
  have hc: "heaps_cov (small_emplace i p b1) = heaps_cov b" "heaps_cov (large_emplace i p b1) = heaps_cov b"
    "small_arena (small_emplace i p b1) = small_arena b" "big_heap (small_emplace i p b1) = big_heap b"
    "small_arena (large_emplace i p b1) = small_arena b" "big_heap (large_emplace i p b1) = big_heap b" for i
    by (simp_all add: heaps_cov_def fun_eq_iff small_emplace_def large_emplace_def b1_def split: prod.split)
  show ?thesis
  proof (cases "?d \<le> kSmallThreshold")
    case True
    let ?i = "GetSmallPageListIndexForFree ?d"
    have F: "FreeOffset (p + 16) b = small_emplace ?i p b1"
      using nn True by (simp add: FreeOffset_def FreeOffsetNoNullCheck_def sizeof_BuddyPage_def Let_def b1_def)
    have c: "?i < 10" "2 ^ (?i + 5) \<le> unat (GetSize (bd_mem b1) p)"
      using small_class_free [OF d32] True by (simp_all add: kSmallThreshold_def word_le_nat_alt g)
    note e = small_emplace_inv [OF k(1) room c]
    show ?thesis unfolding F using e keeps_trans [OF k(2)] ok by (auto simp: buddy_ok_def hc)
  next
    case False
    let ?i = "GetLargePageListIndexForFree ?d"
    have F: "FreeOffset (p + 16) b = large_emplace ?i p b1"
      using nn False by (simp add: FreeOffset_def FreeOffsetNoNullCheck_def sizeof_BuddyPage_def Let_def b1_def)
    note e = large_emplace_inv [OF k(1) room large_class [folded GetLargePageListIndexForFree_def]]
    show ?thesis unfolding F using e keeps_trans [OF k(2)] ok by (auto simp: buddy_ok_def hc)
  qed
qed


section \<open>Reallocation\<close>

lemma ok_distinct:
  assumes "buddy_ok lo b live"
  shows "distinct live"
proof -
  obtain fs fl where inv: "buddy_inv lo b fs fl live (heaps_cov b)" using assms by (auto simp: buddy_ok_def)
  show ?thesis by (rule pages_distinct [of "bd_mem b"]) (use live_raw_once [OF inv] in \<open>auto intro: add_leD1\<close>)
qed

lemma ok_page:
  assumes "buddy_ok lo b live" and "p \<in> set live"
  shows "lo \<le> unat p" and "unat (p + 16) = unat p + 16" and "unat p + 16 + unat (GetSize (bd_mem b) p) \<le> unat (bd_capacity b)"
    and "32 \<le> unat (GetSize (bd_mem b) p)"
proof -
  obtain fs fl where inv: "buddy_inv lo b fs fl live (heaps_cov b)" using assms(1) by (auto simp: buddy_ok_def)
  have pin: "p \<in> all_pages fs fl live" using assms(2) by (simp add: all_pages_def)
  show "lo \<le> unat p" by (rule page_inside [OF inv pin])
  show e: "unat p + 16 + unat (GetSize (bd_mem b) p) \<le> unat (bd_capacity b)" by (rule page_inside [OF inv pin])
  show "32 \<le> unat (GetSize (bd_mem b) p)" using inv_sizes [OF inv] assms(2) by (simp add: buddy_sizes_def)
  show "unat (p + 16) = unat p + 16" using e inv_cap [OF inv] by (subst unat_add_no_overflow) simp_all
qed

lemma ok_not_null:
  assumes "buddy_ok lo b live" and "p \<in> set live"
  shows "p + 16 \<noteq> null_off"
proof
  assume e: "p + 16 = null_off"
  have "unat (p + 16) = 18446744073709551615" unfolding e null_off_def by (simp add: unat_max64)
  then show False using ok_page(2-4) [OF assms] unat_less_2p64 [of "bd_capacity b"] by linarith
qed

lemma ok_disjoint:
  assumes "buddy_ok lo b live" and "p \<in> set live" "q \<in> set live" "p \<noteq> q"
  shows "unat p + (16 + unat (GetSize (bd_mem b) p)) \<le> unat q \<or> unat q + (16 + unat (GetSize (bd_mem b) q)) \<le> unat p"
proof -
  obtain fs fl where inv: "buddy_inv lo b fs fl live (heaps_cov b)" using assms(1) by (auto simp: buddy_ok_def)
  have "page_cov (bd_mem b) p x + page_cov (bd_mem b) q x \<le> 1" for x
    using page_cov_two [OF assms(2-4), of "bd_mem b" x] live_raw_once [OF inv, of x] by simp
  then show ?thesis unfolding page_cov_def by (intro cov_disjoint) simp_all
qed

lemma keeps_subset: "keeps live b b' \<Longrightarrow> keeps (remove1 p live) b b'"
  by (cases "p \<in> set live") (auto simp: keeps_def remove1_idem simp flip: pages_cov_remove)

lemma keeps_block:
  assumes "keeps live b b'" and "p \<in> set live" and "unat p \<le> x" and "x < unat p + 16 + unat (GetSize (bd_mem b) p)"
  shows "bd_mem b' x = bd_mem b x"
proof -
  have "1 \<le> page_cov (bd_mem b) p x" using assms(3,4) by (simp add: page_cov_def cov_def)
  then have "0 < pages_cov (bd_mem b) live x" using page_cov_le [OF assms(2), of "bd_mem b" x] by simp
  then show ?thesis using assms(1) by (simp add: keeps_def)
qed

lemma buddy_ok_remove:
  assumes "buddy_ok lo b live" and "p \<in> set live"
  shows "buddy_ok lo b (remove1 p live)"
proof -
  obtain fs fl where inv: "buddy_inv lo b fs fl live (heaps_cov b)" and ok: "heap_ok (small_arena b)" "heap_ok (big_heap b)"
    using assms(1) by (auto simp: buddy_ok_def)
  have "buddy_inv lo b fs fl (remove1 p live) (heaps_cov b)" by (rule inv_raw [OF inv_take [OF inv assms(2)]]) simp
  then show ?thesis using ok by (rule buddy_okI)
qed

definition realloc_result :: "nat \<Rightarrow> u64 list \<Rightarrow> u64 \<Rightarrow> u64 \<Rightarrow> Buddy \<Rightarrow> u64 \<times> Buddy \<Rightarrow> bool" where
  "realloc_result lo live p n b r \<longleftrightarrow> (case r of (off', b') \<Rightarrow> keeps (remove1 p live) b b' \<and>
     (off' = null_off \<and> buddy_ok lo b' live \<or>
      (\<exists>p'. off' = p' + 16 \<and> n \<le> GetSize (bd_mem b') p' \<and> buddy_ok lo b' (p' # remove1 p live) \<and>
        (\<forall>i < unat (GetSize (bd_mem b) p). bd_mem b' (unat p' + 16 + i) = bd_mem b (unat p + 16 + i)))))"

lemma buddy_ok_perm:
  assumes "buddy_ok lo b live" and "p \<in> set live"
  shows "buddy_ok lo b (p # remove1 p live)"
proof -
  obtain fs fl where inv: "buddy_inv lo b fs fl live (heaps_cov b)" and ok: "heap_ok (small_arena b)" "heap_ok (big_heap b)"
    using assms(1) by (auto simp: buddy_ok_def)
  have "buddy_inv lo b fs fl (p # remove1 p live) (heaps_cov b)"
  proof (rule inv_live [OF inv])
    show "\<forall>q \<in> set (p # remove1 p live). 32 \<le> unat (GetSize (bd_mem b) q)"
      using inv_sizes [OF inv] assms(2) set_remove1_subset [of p live] by (auto simp: buddy_sizes_def)
    show "pages_cov (bd_mem b) (p # remove1 p live) x + heaps_cov b x \<le> pages_cov (bd_mem b) live x + heaps_cov b x" for x
      using pages_cov_remove [OF assms(2), of "bd_mem b" x] by simp
  qed
  then show ?thesis using ok by (rule buddy_okI)
qed

lemma moved_result:
  assumes ok1: "buddy_ok lo b1 (p' # live)" and k1: "keeps live b b1" and p: "p \<in> set live"
    and n: "n \<le> GetSize (bd_mem b1) p'" and small: "GetSize (bd_mem b) p < n"
  shows "realloc_result lo live p n b (p' + 16, FreeOffset (p + 16)
    (b1\<lparr>bd_mem := memcpy (bd_mem b1) (unat (p' + 16)) (bd_mem b1) (unat (p + 16)) (unat (GetSize (bd_mem b) p))\<rparr>))"
proof -
  let ?n = "unat (GetSize (bd_mem b) p)"
  let ?m = "memcpy (bd_mem b1) (unat (p' + 16)) (bd_mem b1) (unat (p + 16)) ?n"
  let ?b2 = "b1\<lparr>bd_mem := ?m\<rparr>" and ?b3 = "FreeOffset (p + 16) (b1\<lparr>bd_mem := ?m\<rparr>)"
  have p': "unat (p' + 16) = unat p' + 16" "p' \<noteq> p" "p' \<notin> set live"
    using ok_page(2) [OF ok1] ok_distinct [OF ok1] p by auto
  have pu: "unat (p + 16) = unat p + 16" using ok_page(2) [OF ok1] p by simp
  have le: "?n \<le> unat (GetSize (bd_mem b1) p')" using n small by (simp add: word_le_nat_alt word_less_nat_alt)
  have w: "?m x = bd_mem b1 x" if "\<not> (unat p' + 16 \<le> x \<and> x < unat p' + 16 + unat (GetSize (bd_mem b1) p'))" for x
    using that le p'(1) by (auto simp: memcpy_def)
  have pin: "p' \<in> set (p' # live)" by simp
  have W: "buddy_ok lo ?b2 (p' # live)" "keeps live b1 ?b2" "GetSize ?m p' = GetSize (bd_mem b1) p'"
    using write_ok [OF ok1 pin w] by simp_all
  have F: "buddy_ok lo ?b3 (p' # remove1 p live)" "keeps (p' # remove1 p live) ?b2 ?b3"
    using Free_ok [OF W(1), of p] p p'(2) by simp_all
  have "keeps (remove1 p live) ?b2 ?b3" using keeps_subset [OF F(2), of p'] by simp
  then have K: "keeps (remove1 p live) b ?b3" by (rule keeps_trans [OF keeps_subset [OF k1] keeps_trans [OF keeps_subset [OF W(2)]]])
  have g3: "GetSize (bd_mem ?b3) p' = GetSize (bd_mem b1) p'" using keeps_GetSize [OF F(2), of p'] W(3) by simp
  have "bd_mem ?b3 (unat p' + 16 + i) = bd_mem b (unat p + 16 + i)" if "i < ?n" for i
  proof -
    have "bd_mem ?b3 (unat p' + 16 + i) = ?m (unat p' + 16 + i)"
      using keeps_block [OF F(2), of p' "unat p' + 16 + i"] that le W(3) by simp
    also have "\<dots> = bd_mem b1 (unat p + 16 + i)" using that p'(1) pu by (simp add: memcpy_def)
    also have "\<dots> = bd_mem b (unat p + 16 + i)" by (rule keeps_block [OF k1 p]) (use that in simp_all)
    finally show ?thesis .
  qed
  then show ?thesis using K F(1) g3 n by (auto simp: realloc_result_def)
qed

lemma ReallocateOffset_result:
  assumes ok: "buddy_ok lo b live" and p: "p \<in> set live" and "unat n \<le> 2 ^ 61" and "clean_split n b"
  shows "\<exists>r. ReallocateOffset (p + 16) n b = Some r \<and> realloc_result lo live p n b r"
proof -
  obtain r where r: "AllocateOffset n b = Some r" "alloc_result lo live n b r" using AllocateOffset_result [OF ok assms(3,4)] by blast
  obtain off b1 where rb: "r = (off, b1)" by (metis surj_pair)
  have k1: "keeps live b b1" using r(2) rb by (simp add: alloc_result_def)
  have nn: "p + 16 \<noteq> null_off" by (rule ok_not_null [OF ok p])
  have R: "ReallocateOffset (p + 16) n b = (if n \<le> GetSize (bd_mem b) p then Some (p + 16, b) else if off = null_off then Some (off, b1)
     else Some (off, FreeOffset (p + 16) (b1\<lparr>bd_mem := memcpy (bd_mem b1) (unat off) (bd_mem b1) (unat (p + 16)) (unat (GetSize (bd_mem b) p))\<rparr>)))"
    using nn r(1) rb by (simp add: ReallocateOffset_def sizeof_BuddyPage_def Let_def)
  consider "n \<le> GetSize (bd_mem b) p" | "\<not> n \<le> GetSize (bd_mem b) p" "off = null_off" "buddy_ok lo b1 live"
    | p' where "\<not> n \<le> GetSize (bd_mem b) p" "off \<noteq> null_off" "off = p' + 16" "n \<le> GetSize (bd_mem b1) p'" "buddy_ok lo b1 (p' # live)"
  proof -
    have "off = null_off \<and> buddy_ok lo b1 live \<or> (\<exists>p'. off = p' + 16 \<and> n \<le> GetSize (bd_mem b1) p' \<and> buddy_ok lo b1 (p' # live))"
      using r(2) rb by (simp add: alloc_result_def)
    then show thesis using that ok_not_null by (metis list.set_intros(1))
  qed
  then show ?thesis
  proof cases
    case 1
    then have "realloc_result lo live p n b (p + 16, b)"
      using buddy_ok_perm [OF ok p] by (auto simp: realloc_result_def keeps_def)
    then show ?thesis using R 1 by auto
  next
    case 2
    then have "realloc_result lo live p n b (off, b1)" using keeps_subset [OF k1] by (simp add: realloc_result_def)
    then show ?thesis using R 2 by auto
  next
    case 3
    then have "realloc_result lo live p n b (p' + 16, FreeOffset (p + 16)
      (b1\<lparr>bd_mem := memcpy (bd_mem b1) (unat (p' + 16)) (bd_mem b1) (unat (p + 16)) (unat (GetSize (bd_mem b) p))\<rparr>))"
      by (intro moved_result [OF 3(5) k1 p 3(4)]) simp
    then show ?thesis using R 3(1-3) by auto
  qed
qed


section \<open>Initialisation\<close>

text \<open>The region handed to \<^verbatim>\<open>shm_init\<close> lies in the backend and holds the allocator object and its first node.\<close>

definition good_region :: "u64 \<Rightarrow> u64 \<Rightarrow> Buddy \<Rightarrow> bool" where
  "good_region sz region_size b \<longleftrightarrow>
     (let r = (if region_size = 0 then bd_capacity b - bd_this b else region_size)
      in unat (bd_this b) + unat r \<le> unat (bd_capacity b) \<and> unat (bd_capacity b) \<le> 2 ^ 62 \<and> unat sz + 16 \<le> unat r)"

lemma fresh_fields: "bd_capacity (fresh_buddy m c t) = c" "bd_this (fresh_buddy m c t) = t" "bd_mem (fresh_buddy m c t) = m"
  "big_heap (fresh_buddy m c t) = ShmHeap_Init 0 0" "regions (fresh_buddy m c t) = slist_Init"
  by (simp_all add: fresh_buddy_def)

lemma shm_init_ok:
  assumes "good_region sz region_size (fresh_buddy m capacity this)"
    and "shm_init sz region_size (fresh_buddy m capacity this) = (True, b)"
  shows "buddy_ok 1 b [] \<and> bd_capacity b = capacity"
proof -
  define r where "r = (if region_size = 0 then capacity - this else region_size)"
  let ?reg = "this + sz" and ?rs = "r - sz"
  let ?start = "?reg + sizeof_BuddyPage" and ?left = "?rs - sizeof_BuddyPage"
  let ?m = "SetNext (set_size ?reg ?rs m) ?reg null_off"
  have g: "unat this + unat r \<le> unat capacity" "unat capacity \<le> 2 ^ 62" "unat sz + 16 \<le> unat r"
    using assms(1) by (simp_all add: good_region_def r_def Let_def fresh_fields cong: if_cong)
  have u: "unat ?reg = unat this + unat sz" using g by (subst unat_add_no_overflow) simp_all
  have v: "unat ?rs = unat r - unat sz" using g by (subst unat_sub_no_underflow) (simp_all add: word_le_nat_alt)
  have st: "unat ?start = unat this + unat sz + 16" using g u by (subst unat_add_no_overflow) (simp_all add: sizeof_BuddyPage_def)
  have lf: "unat ?left = unat r - unat sz - 16" using g v by (subst unat_sub_no_underflow) (simp_all add: sizeof_BuddyPage_def word_le_nat_alt)
  have le: "unat ?start + unat ?left \<le> 2 ^ 62" using g st lf by simp
  note h = heap_init [OF le]
  have nn: "?reg \<noteq> null_off"
  proof
    assume e: "?reg = null_off"
    have "unat ?reg = 2 ^ 64 - 1" unfolding e null_off_def by (simp add: unat_max64)
    then show False using u g by simp
  qed
  have nz: "?rs \<noteq> 0"
  proof
    assume e: "?rs = 0"
    have "unat ?rs = 0" unfolding e by simp
    then show False using v g by simp
  qed
  have B: "bd_mem b = ?m" "bd_capacity b = capacity" "small_pages b = replicate 10 slist_Init" "large_pages b = replicate 6 slist_Init"
    "small_arena b = ShmHeap_Init 0 0" "big_heap b = ShmHeap_Init ?start (?start + ?left)"
    using assms(2) nn nz unfolding shm_init_def Let_def fresh_fields r_def [symmetric]
    by (auto simp: Let_def fresh_fields Expand_def slist_emplace_def DivideArenaIntoPages_def
      ShmHeap_Init_def slist_Init_def kMaxSmallPages_def kMaxLargePages_def kSmallLog2_def kMinLog2_def kMaxLog2_def split: if_splits)
  have hc: "heaps_cov b = ext_cov ?start ?left" unfolding heaps_cov_def [abs_def] B h(1) by simp
  have ok: "heap_ok (big_heap b)" unfolding B by (rule h(2))
  have "buddy_inv 1 b (replicate 10 []) (replicate 6 []) [] (heaps_cov b)"
    unfolding buddy_inv_def hc
  proof (intro conjI)
    show "buddy_lists b (replicate 10 []) (replicate 6 [])" by (simp add: buddy_lists_def B)
    show "buddy_sizes (bd_mem b) (replicate 10 []) []" by (simp add: buddy_sizes_def)
    show "\<forall>x. 0 < owned (bd_mem b) (replicate 10 []) (replicate 6 []) [] x + ext_cov ?start ?left x \<longrightarrow> 1 \<le> x \<and> x < unat (bd_capacity b)"
      using st lf g by (auto simp: owned_def ext_cov_def cov_def B split: if_splits)
  qed (use g in \<open>simp_all add: B owned_def ext_cov_def cov_def\<close>)
  then have "buddy_ok 1 b []" by (rule buddy_okI) (simp_all add: ok B(5), simp add: heap_ok_def ShmHeap_Init_def)
  then show ?thesis using B(2) by blast
qed


section \<open>Runs\<close>

text \<open>
  The allocator serves every request, and a run may make any of them. Two things
  it never checks decide whether the run is safe: whether the free page that a
  large request takes is used up or leaves a rest of at least 48 bytes, and
  whether the pages tile the heap when it is compacted. The flag of
  \<open>buddy_run\<close> records whether they held so far; it restricts no step.
\<close>

definition clean_request :: "u64 \<Rightarrow> Buddy \<Rightarrow> bool" where
  "clean_request n b \<longleftrightarrow> unat n \<le> 2 ^ 61 \<and> clean_split n b"

inductive buddy_run :: "u64 \<Rightarrow> bool \<Rightarrow> Buddy \<Rightarrow> u64 list \<Rightarrow> bool" for sz where
  start: "good_region sz region_size (fresh_buddy m capacity this) \<Longrightarrow>
    shm_init sz region_size (fresh_buddy m capacity this) = (True, b) \<Longrightarrow> buddy_run sz True b []"
| alloc: "buddy_run sz c b bs \<Longrightarrow> AllocateOffset n b = Some (off, b') \<Longrightarrow> off \<noteq> null_off \<Longrightarrow>
    buddy_run sz (c \<and> clean_request n b) b' (off # bs)"
| alloc_fail: "buddy_run sz c b bs \<Longrightarrow> AllocateOffset n b = Some (off, b') \<Longrightarrow> off = null_off \<Longrightarrow>
    buddy_run sz (c \<and> clean_request n b) b' bs"
| client: "buddy_run sz c b bs \<Longrightarrow> off \<in> set bs \<Longrightarrow> (\<And>x. \<not> in_block b off x \<Longrightarrow> m' x = bd_mem b x) \<Longrightarrow>
    buddy_run sz c (b\<lparr>bd_mem := m'\<rparr>) bs"
| realloc: "buddy_run sz c b bs \<Longrightarrow> off \<in> set bs \<Longrightarrow> ReallocateOffset off n b = Some (off', b') \<Longrightarrow> off' \<noteq> null_off \<Longrightarrow>
    buddy_run sz (c \<and> clean_request n b) b' (off' # remove1 off bs)"
| realloc_fail: "buddy_run sz c b bs \<Longrightarrow> off \<in> set bs \<Longrightarrow> ReallocateOffset off n b = Some (off', b') \<Longrightarrow> off' = null_off \<Longrightarrow>
    buddy_run sz (c \<and> clean_request n b) b' bs"
| free: "buddy_run sz c b bs \<Longrightarrow> off \<in> set bs \<Longrightarrow> buddy_run sz c (FreeOffset off b) (remove1 off bs)"
| compact: "buddy_run sz c b bs \<Longrightarrow> Compact b = Some (tbl, b') \<Longrightarrow>
    buddy_run sz (c \<and> (\<exists>ps. compactable b (pages_of bs) ps)) b' (map (Resolve tbl) bs)"

lemma alloc_cases:
  assumes "alloc_result lo live n b (off, b')"
  obtains (fail) "off = null_off" "keeps live b b'" "buddy_ok lo b' live"
    | (block) "off \<noteq> null_off" "keeps live b b'" "n \<le> GetSize (bd_mem b') (off - 16)" "buddy_ok lo b' ((off - 16) # live)"
proof -
  have k: "keeps live b b'" using assms by (simp add: alloc_result_def)
  consider "off = null_off" "buddy_ok lo b' live" | p where "off = p + 16" "n \<le> GetSize (bd_mem b') p" "buddy_ok lo b' (p # live)"
    using assms unfolding alloc_result_def prod.case by blast
  then show thesis
  proof cases
    case 1
    then show thesis by (intro fail k)
  next
    case 2
    then have "off \<noteq> null_off" using ok_not_null [OF 2(3), of p] by simp
    then show thesis using 2 k by (intro block) simp_all
  qed
qed

lemma realloc_cases:
  assumes "realloc_result lo live p n b (off', b')"
  obtains (fail) "off' = null_off" "keeps (remove1 p live) b b'" "buddy_ok lo b' live"
    | (block) "off' \<noteq> null_off" "keeps (remove1 p live) b b'" "n \<le> GetSize (bd_mem b') (off' - 16)" "buddy_ok lo b' ((off' - 16) # remove1 p live)"
      "\<forall>i < unat (GetSize (bd_mem b) p). bd_mem b' (unat off' + i) = bd_mem b (unat p + 16 + i)"
proof -
  have k: "keeps (remove1 p live) b b'" using assms by (simp add: realloc_result_def)
  consider "off' = null_off" "buddy_ok lo b' live"
    | q where "off' = q + 16" "n \<le> GetSize (bd_mem b') q" "buddy_ok lo b' (q # remove1 p live)"
      "\<forall>i < unat (GetSize (bd_mem b) p). bd_mem b' (unat q + 16 + i) = bd_mem b (unat p + 16 + i)"
    using assms unfolding realloc_result_def prod.case by blast
  then show thesis
  proof cases
    case 1
    then show thesis by (intro fail k)
  next
    case 2
    then have "off' \<noteq> null_off" "unat off' = unat q + 16" using ok_not_null [OF 2(3), of q] ok_page(2) [OF 2(3), of q] by simp_all
    then show thesis using 2 k by (intro block) simp_all
  qed
qed

lemma Compact_run:
  assumes "buddy_ok lo b (pages_of bs)" and "compactable b (pages_of bs) ps"
  shows "\<exists>tbl b'. Compact b = Some (tbl, b') \<and> buddy_ok 1 b' (pages_of (map (Resolve tbl) bs)) \<and>
    (\<forall>off \<in> set bs. moved (bd_mem b) (bd_mem b') (off, Resolve tbl off))"
proof -
  obtain tbl b' where c: "Compact b = Some (tbl, b')" "ascending tbl" "buddy_ok 1 b' (map (\<lambda>p. forward tbl (p + 16) - 16) (pages_of bs))"
    "\<forall>p \<in> set (pages_of bs). moved (bd_mem b) (bd_mem b') (p + 16, forward tbl (p + 16))"
    using Compact_ok [OF assms(1) ok_distinct [OF assms(1)] assms(2)] by blast
  have "map (\<lambda>p. forward tbl (p + 16) - 16) (pages_of bs) = pages_of (map (Resolve tbl) bs)"
    by (simp add: pages_of_def Resolve_forward [OF c(2)])
  moreover have "moved (bd_mem b) (bd_mem b') (off, Resolve tbl off)" if "off \<in> set bs" for off
    using bspec [OF c(4) pages_of_mem [OF that]] by (simp add: Resolve_forward [OF c(2)])
  ultimately show ?thesis using c(1,3) by auto
qed

lemma buddy_run_ok_flag: "buddy_run sz c b bs \<Longrightarrow> c \<Longrightarrow> buddy_ok 1 b (pages_of bs)"
proof (induction rule: buddy_run.induct)
  case (start region_size m capacity this b)
  then show ?case using shm_init_ok [OF start.hyps] by simp
next
  case (alloc c b bs n off b')
  then have "alloc_result 1 (pages_of bs) n b (off, b')" using AllocateOffset_result [of 1 b "pages_of bs" n] by (simp add: clean_request_def)
  then show ?case by (cases rule: alloc_cases) (use alloc.hyps(3) in simp_all)
next
  case (alloc_fail c b bs n off b')
  then have "alloc_result 1 (pages_of bs) n b (off, b')" using AllocateOffset_result [of 1 b "pages_of bs" n] by (simp add: clean_request_def)
  then show ?case by (cases rule: alloc_cases) (use alloc_fail.hyps(3) in simp_all)
next
  case (client c b bs off m')
  note ok = client.IH [OF client.prems]
  have p: "off - 16 \<in> set (pages_of bs)" by (rule pages_of_mem [OF client.hyps(2)])
  have "unat off = unat (off - 16) + 16" using ok_page(2) [OF ok p] by simp
  then show ?case using write_ok [OF ok p, of m'] client.hyps(3) by (simp add: in_block_def block_size_def)
next
  case (realloc c b bs off n off' b')
  have p: "off - 16 \<in> set (pages_of bs)" by (rule pages_of_mem [OF realloc.hyps(2)])
  have "realloc_result 1 (pages_of bs) (off - 16) n b (off', b')"
    using ReallocateOffset_result [OF realloc.IH p, of n] realloc.hyps(3) realloc.prems by (simp add: clean_request_def)
  then show ?case by (cases rule: realloc_cases) (use realloc.hyps(4) in \<open>simp_all add: pages_of_remove\<close>)
next
  case (realloc_fail c b bs off n off' b')
  have p: "off - 16 \<in> set (pages_of bs)" by (rule pages_of_mem [OF realloc_fail.hyps(2)])
  have "realloc_result 1 (pages_of bs) (off - 16) n b (off', b')"
    using ReallocateOffset_result [OF realloc_fail.IH p, of n] realloc_fail.hyps(3) realloc_fail.prems by (simp add: clean_request_def)
  then show ?case by (cases rule: realloc_cases) (use realloc_fail.hyps(4) in simp_all)
next
  case (free c b bs off)
  then show ?case using Free_ok [OF free.IH [OF free.prems] pages_of_mem [OF free.hyps(2)]] by (simp add: pages_of_remove)
next
  case (compact c b bs tbl b')
  then obtain ps where "compactable b (pages_of bs) ps" and "c" by blast
  then show ?case using Compact_run [OF compact.IH] compact.hyps(2) by auto
qed

lemma buddy_run_ok: "buddy_run sz True b bs \<Longrightarrow> buddy_ok 1 b (pages_of bs)"
  by (rule buddy_run_ok_flag) simp_all

section \<open>Blocks of a run\<close>

lemma run_block:
  assumes "buddy_run sz True b bs" and "off \<in> set bs"
  shows "unat off = unat (off - 16) + 16" and "off - 16 \<in> set (pages_of bs)"
  using ok_page(2) [OF buddy_run_ok [OF assms(1)] pages_of_mem [OF assms(2)]] pages_of_mem [OF assms(2)] by simp_all

lemma blocks_apart:
  assumes "buddy_ok lo b (pages_of bs)" and "off \<in> set bs" "off' \<in> set bs" "off \<noteq> off'"
  shows "\<not> (in_block b off x \<and> in_block b off' x)"
proof -
  have p: "off - 16 \<in> set (pages_of bs)" "off' - 16 \<in> set (pages_of bs)" "off - 16 \<noteq> off' - 16" using pages_of_mem assms(2-4) by auto
  show ?thesis using ok_disjoint [OF assms(1) p] ok_page(2) [OF assms(1) p(1)] ok_page(2) [OF assms(1) p(2)]
    by (auto simp: in_block_def block_size_def)
qed

lemma keeps_blocks:
  assumes "keeps (pages_of bs) b b'" and "buddy_ok lo b (pages_of bs)" and "off \<in> set bs"
  shows "block_size b' off = block_size b off \<and> (\<forall>x. in_block b off x \<longrightarrow> bd_mem b' x = bd_mem b x)"
proof -
  have p: "off - 16 \<in> set (pages_of bs)" by (rule pages_of_mem [OF assms(3)])
  have u: "unat off = unat (off - 16) + 16" using ok_page(2) [OF assms(2) p] by simp
  have "block_size b' off = block_size b off" unfolding block_size_def keeps_GetSize [OF assms(1) p] ..
  moreover have "bd_mem b' x = bd_mem b x" if "in_block b off x" for x
    by (rule keeps_block [OF assms(1) p]) (use that u in \<open>simp_all add: in_block_def block_size_def\<close>)
  ultimately show ?thesis by blast
qed

lemma distinct_pages_of: "distinct (pages_of bs) \<Longrightarrow> distinct bs"
  by (simp add: pages_of_def distinct_map)




section \<open>A run in numbers\<close>

text \<open>Reading headers back through writes of other headers.\<close>

lemma hdr_reads:
  "apart 16 q p \<Longrightarrow> GetSize (set_size q v m) p = GetSize m p" "apart 16 q p \<Longrightarrow> GetSize (MarkFree q m) p = GetSize m p"
  "apart 16 q p \<Longrightarrow> GetSize (MarkAllocated q m) p = GetSize m p" "apart 16 q p \<Longrightarrow> GetSize (SetNext m q n) p = GetSize m p"
  "apart 16 q p \<Longrightarrow> slist_next (set_size q v m) p = slist_next m p" "apart 16 q p \<Longrightarrow> slist_next (MarkAllocated q m) p = slist_next m p"
  using hdr_only_apart hdr_only_writes by blast+

lemma ilog2_rec: "ilog2 (numeral k) = (if (numeral k :: nat) < 2 then 0 else Suc (ilog2 (numeral k div 2)))" "ilog2 (Suc 0) = 0"
  by (subst ilog2.simps, simp)+

lemma buddy_demo_requests: "rounded_request 20000 = 20000" "rounded_request 19984 = 19984" "rounded_request 32 = 32"
  "GetLargePageListIndexForAlloc 20000 = 0" "GetLargePageListIndexForAlloc 19984 = 0"
  by (simp_all add: rounded_request_def kMinSize_def GetLargePageListIndexForAlloc_def kSmallThreshold_def Let_def ilog2_rec
     kSmallLog2_def kMaxLog2_def)

lemma large_loop_none: "FindFirstFit i t b = Some (0, b) \<Longrightarrow> large_loop k i n t b = Some (allocate_from_heap n t b)"
  by (induction k) simp_all

lemma large_from_heap:
  assumes "sl_size (large_pages b ! 0) = 0" and "hp_off (big_heap b) \<noteq> 0" and "hp_off (big_heap b) + 20016 \<le> hp_max (big_heap b)"
  shows "AllocateOffset 20000 b = Some (hp_off (big_heap b) + 16,
      b\<lparr>bd_mem := MarkAllocated (hp_off (big_heap b)) (set_size (hp_off (big_heap b)) 20000 (bd_mem b)),
        big_heap := (big_heap b)\<lparr>hp_off := hp_off (big_heap b) + 20016\<rparr>\<rparr>)"
    and "clean_split 20000 b"
proof -
  have nf: "\<not> hp_max (big_heap b) < hp_off (big_heap b) + 20016" using assms(3) by simp
  have f: "FindFirstFit 0 20016 b = Some (0, b)" using assms(1) by (simp add: FindFirstFit_def slist_empty_def)
  then show "clean_split 20000 b" by (simp add: clean_split_def clean_cut_def buddy_demo_requests sizeof_BuddyPage_def Let_def)
  have "AllocateOffset 20000 b = Some (allocate_from_heap 20000 20016 b)"
    by (simp add: AllocateOffset_def AllocateLarge_def buddy_demo_requests kSmallThreshold_def sizeof_BuddyPage_def Let_def large_loop_none f)
  then show "AllocateOffset 20000 b = Some (hp_off (big_heap b) + 16,
      b\<lparr>bd_mem := MarkAllocated (hp_off (big_heap b)) (set_size (hp_off (big_heap b)) 20000 (bd_mem b)),
        big_heap := (big_heap b)\<lparr>hp_off := hp_off (big_heap b) + 20016\<rparr>\<rparr>)"
    using assms(2) nf by (simp add: allocate_from_heap_def ShmHeap_Allocate_def Let_def FinalizeAllocation_def sizeof_BuddyPage_def)
qed

definition buddy_demo_mem0 :: mem where "buddy_demo_mem0 = SetNext (set_size 1024 998976 (\<lambda>_. 0)) 1024 null_off"

definition buddy_demo0 :: Buddy where
  "buddy_demo0 = \<lparr>bd_mem = buddy_demo_mem0, bd_capacity = 1000000, bd_this = 0, bd_data_start = 1024, bd_region_size = 1000000,
     big_heap = \<lparr>hp_off = 1040, hp_max = 1000000\<rparr>, small_arena = \<lparr>hp_off = 0, hp_max = 0\<rparr>,
     small_pages = replicate 10 slist_Init, large_pages = replicate 6 slist_Init,
     regions = \<lparr>sl_size = 1, sl_head = 1024\<rparr>\<rparr>"

definition buddy_demo1 :: Buddy where
  "buddy_demo1 = buddy_demo0\<lparr>bd_mem := MarkAllocated 1040 (set_size 1040 20000 buddy_demo_mem0), big_heap := \<lparr>hp_off = 21056, hp_max = 1000000\<rparr>\<rparr>"

definition buddy_demo2 :: Buddy where
  "buddy_demo2 = buddy_demo1\<lparr>bd_mem := MarkAllocated 21056 (set_size 21056 20000 (bd_mem buddy_demo1)), big_heap := \<lparr>hp_off = 41072, hp_max = 1000000\<rparr>\<rparr>"

lemma buddy_demo_init: "good_region 1024 0 (fresh_buddy (\<lambda>_. 0) 1000000 0)" "shm_init 1024 0 (fresh_buddy (\<lambda>_. 0) 1000000 0) = (True, buddy_demo0)"
  by (simp add: good_region_def fresh_fields)
    (simp add: shm_init_def fresh_buddy_def Expand_def slist_emplace_def slist_Init_def DivideArenaIntoPages_def ShmHeap_Init_def
      kMaxSmallPages_def kMaxLargePages_def kSmallLog2_def kMinLog2_def kMaxLog2_def kMinSize_def sizeof_BuddyPage_def
      buddy_demo0_def buddy_demo_mem0_def Let_def null_off_def)

lemma buddy_demo_allocs: "AllocateOffset 20000 buddy_demo0 = Some (1056, buddy_demo1)" "clean_split 20000 buddy_demo0"
  "AllocateOffset 20000 buddy_demo1 = Some (21072, buddy_demo2)" "clean_split 20000 buddy_demo1"
  using large_from_heap [of buddy_demo0] large_from_heap [of buddy_demo1] by (simp_all add: buddy_demo0_def buddy_demo1_def buddy_demo2_def slist_Init_def)

lemma buddy_demo_clean: "clean_request 20000 buddy_demo0" "clean_request 20000 buddy_demo1"
  by (simp_all add: clean_request_def buddy_demo_allocs)

lemma buddy_demo1_run: "buddy_run 1024 True buddy_demo1 [1056]"
  using buddy_run.alloc [OF buddy_run.start [OF buddy_demo_init] buddy_demo_allocs(1)] by (simp add: null_off_def buddy_demo_clean)

lemma buddy_demo_run: "buddy_run 1024 True buddy_demo2 [21072, 1056]"
  using buddy_run.alloc [OF buddy_demo1_run buddy_demo_allocs(3)] by (simp add: null_off_def buddy_demo_clean)

lemma buddy_demo_sizes: "GetSize (bd_mem buddy_demo2) 1040 = 20000" "GetSize (bd_mem buddy_demo2) 21056 = 20000"
  by (simp_all add: buddy_demo2_def buddy_demo1_def hdr_reads apart_def)



definition buddy_demo3 :: Buddy where
  "buddy_demo3 = buddy_demo2\<lparr>bd_mem := SetNext (SetNext (MarkFree 1040 (bd_mem buddy_demo2)) 1040 null_off) 1040 null_off,
     large_pages := (replicate 6 slist_Init)[0 := \<lparr>sl_size = 1, sl_head = 1040\<rparr>]\<rparr>"

lemma buddy_demo_free: "FreeOffset 1056 buddy_demo2 = buddy_demo3"
proof -
  have l: "large_pages buddy_demo2 = replicate 6 slist_Init" by (simp add: buddy_demo2_def buddy_demo1_def buddy_demo0_def)
  show ?thesis
    by (simp add: FreeOffset_def FreeOffsetNoNullCheck_def null_off_def sizeof_BuddyPage_def buddy_demo_sizes Let_def kSmallThreshold_def
      GetLargePageListIndexForFree_def buddy_demo_requests large_emplace_def slist_emplace_def l buddy_demo3_def slist_Init_def)
qed

lemma buddy_demo3_reads: "GetSize (bd_mem buddy_demo3) 1040 = 20000" "slist_next (bd_mem buddy_demo3) 1040 = null_off"
  by (simp_all add: buddy_demo3_def buddy_demo_sizes)

definition buddy_demo4 :: Buddy where
  "buddy_demo4 = buddy_demo3\<lparr>bd_mem := MarkAllocated 1040 (set_size 1040 19984
       (SetNext (MarkFree 21040 (set_size 21040 0 (SetNext (bd_mem buddy_demo3) 21040 null_off))) 21040 null_off)),
     large_pages := (replicate 6 slist_Init)[0 := \<lparr>sl_size = 0, sl_head = null_off\<rparr>],
     small_pages := (replicate 10 slist_Init)[0 := \<lparr>sl_size = 1, sl_head = 21040\<rparr>]\<rparr>"

lemma buddy_demo3_fit: "FindFirstFit 0 20000 buddy_demo3 = Some (1040, buddy_demo3\<lparr>large_pages := (replicate 6 slist_Init)[0 := \<lparr>sl_size = 0, sl_head = null_off\<rparr>]\<rparr>)"
proof -
  have l: "large_pages buddy_demo3 = (replicate 6 slist_Init)[0 := \<lparr>sl_size = 1, sl_head = 1040\<rparr>]" by (simp add: buddy_demo3_def)
  have "find_fit_loop (bd_mem buddy_demo3) 20000 \<lparr>it_current = 1040, it_prev = null_off\<rparr> = Some \<lparr>it_current = 1040, it_prev = null_off\<rparr>"
    by (subst find_fit_loop.simps) (simp add: slist_end_def null_off_def buddy_demo3_reads sizeof_BuddyPage_def)
  then show ?thesis
    by (simp add: FindFirstFit_def l slist_empty_def slist_begin_def PopAt_def slist_end_def null_off_def buddy_demo3_reads Let_def)
qed

lemma buddy_demo4_alloc: "AllocateOffset 19984 buddy_demo3 = Some (1056, buddy_demo4)"
proof -
  have sp: "small_pages buddy_demo3 = replicate 10 slist_Init" by (simp add: buddy_demo3_def buddy_demo2_def buddy_demo1_def buddy_demo0_def)
  have "large_loop (Suc 5) 0 19984 20000 buddy_demo3 = Some (1056, buddy_demo4)"
    unfolding large_loop.simps(2)
    by (simp add: buddy_demo3_fit buddy_demo3_reads sizeof_BuddyPage_def AddRemainderToFreeList_def Let_def kSmallThreshold_def sp slist_Init_def
      GetSmallPageListIndexForFree_def kMinSize_def small_emplace_def slist_emplace_def new_free_page_def FinalizeAllocation_def buddy_demo4_def)
  then show ?thesis
    by (simp add: AllocateOffset_def AllocateLarge_def buddy_demo_requests kSmallThreshold_def sizeof_BuddyPage_def Let_def
      kMaxLargePages_def kMaxLog2_def kSmallLog2_def)
qed

definition buddy_demo5 :: Buddy where
  "buddy_demo5 = buddy_demo4\<lparr>bd_mem := MarkAllocated 21040 (set_size 21040 32 (bd_mem buddy_demo4)),
     small_pages := (replicate 10 slist_Init)[0 := \<lparr>sl_size = 0, sl_head = null_off\<rparr>]\<rparr>"

lemma buddy_demo5_alloc: "AllocateOffset 32 buddy_demo4 = Some (21056, buddy_demo5)"
proof -
  have sp: "small_pages buddy_demo4 = (replicate 10 slist_Init)[0 := \<lparr>sl_size = 1, sl_head = 21040\<rparr>]" by (simp add: buddy_demo4_def)
  have cp: "bd_capacity buddy_demo4 = 1000000" by (simp add: buddy_demo4_def buddy_demo3_def buddy_demo2_def buddy_demo1_def buddy_demo0_def)
  have nx: "slist_next (bd_mem buddy_demo4) 21040 = null_off" by (simp add: buddy_demo4_def hdr_reads apart_def)
  have "small_pop 0 buddy_demo4 = (Some 21040, buddy_demo4\<lparr>small_pages := (replicate 10 slist_Init)[0 := \<lparr>sl_size = 0, sl_head = null_off\<rparr>]\<rparr>)"
    by (simp add: small_pop_def slist_empty_def slist_pop_def sp cp nx null_off_def)
  then show ?thesis
    by (simp add: AllocateOffset_def AllocateSmall_def buddy_demo_requests kSmallThreshold_def GetSmallPageListIndexForAlloc_def kMinSize_def
      FinalizeAllocation_def sizeof_BuddyPage_def buddy_demo5_def)
qed

text \<open>
  Why the flag is needed. Two blocks of 20000 bytes are allocated, the first is
  freed, and 19984 bytes are allocated in its place. The 16 bytes left over become
  a free page of size 0 on the list of 32-byte pages, and the next small
  allocation is given 32 bytes there, on top of the second block.
\<close>

theorem buddy_split_overlaps:
  "\<exists>b c. buddy_run 1024 c b [21056, 1056, 21072] \<and> in_block b 21056 21080 \<and> in_block b 21072 21080"
proof -
  have "buddy_run 1024 True buddy_demo3 [21072]" using buddy_run.free [OF buddy_demo_run, of 1056] by (simp add: buddy_demo_free)
  from buddy_run.alloc [OF this buddy_demo4_alloc] obtain c where "buddy_run 1024 c buddy_demo4 [1056, 21072]" by (auto simp: null_off_def)
  from buddy_run.alloc [OF this buddy_demo5_alloc] obtain c' where r: "buddy_run 1024 c' buddy_demo5 [21056, 1056, 21072]" by (auto simp: null_off_def)
  have "GetSize (bd_mem buddy_demo5) 21056 = 20000"
    by (simp add: buddy_demo5_def buddy_demo4_def buddy_demo3_def buddy_demo2_def hdr_reads apart_def)
  moreover have "GetSize (bd_mem buddy_demo5) 21040 = 32" by (simp add: buddy_demo5_def)
  ultimately have "in_block buddy_demo5 21056 21080 \<and> in_block buddy_demo5 21072 21080" by (simp add: in_block_def block_size_def)
  then show ?thesis using r by blast
qed



text \<open>Compaction of the state in which the first of the two blocks has been freed.\<close>

lemma size_word_other: "apart 16 q p \<Longrightarrow> hdr_only q m m' \<Longrightarrow> size_word m' p = size_word m p"
  unfolding size_word_def by (rule load64_cong) (auto simp: hdr_only_def apart_def)

lemma IsFree_reads: "IsFree (MarkFree p m) p" "\<not> IsFree (MarkAllocated p m) p" "IsFree (SetNext m p n) p = IsFree m p"
proof -
  have "bit ((size_word m p OR kFreeMask) AND kFreeMask) 63" by (simp add: bit_simps bit_kFreeMask)
  then show "IsFree (MarkFree p m) p" by (auto simp: IsFree_def MarkFree_def)
  have "(size_word m p AND NOT kFreeMask) AND kFreeMask = 0" by (rule bit_word_eqI) (auto simp: bit_simps)
  then show "\<not> IsFree (MarkAllocated p m) p" by (simp add: IsFree_def MarkAllocated_def)
  show "IsFree (SetNext m p n) p = IsFree m p" by (simp add: IsFree_def size_word_def SetNext_def mem_simps)
qed

lemma IsFree_other: "apart 16 q p \<Longrightarrow> IsFree (MarkFree q m) p = IsFree m p" "apart 16 q p \<Longrightarrow> IsFree (SetNext m q n) p = IsFree m p"
  using size_word_other hdr_only_writes unfolding IsFree_def by metis+

lemma buddy_demo3_run: "buddy_run 1024 True buddy_demo3 [21072]"
  using buddy_run.free [OF buddy_demo_run, of 1056] by (simp add: buddy_demo_free)

lemma buddy_demo3_compactable: "compactable buddy_demo3 (pages_of [21072]) [1040, 21056]"
proof -
  have f: "IsFree (bd_mem buddy_demo3) 1040" "\<not> IsFree (bd_mem buddy_demo3) 21056"
    by (simp_all add: buddy_demo3_def buddy_demo2_def IsFree_reads IsFree_other apart_def)
  have g: "GetSize (bd_mem buddy_demo3) 21056 = 20000" by (simp add: buddy_demo3_def buddy_demo_sizes hdr_reads apart_def)
  have h: "bd_this buddy_demo3 = 0" "bd_data_start buddy_demo3 = 1024" "hp_off (big_heap buddy_demo3) = 41072" "hp_max (big_heap buddy_demo3) = 1000000"
    "hp_off (small_arena buddy_demo3) = 0" "hp_max (small_arena buddy_demo3) = 0" "bd_capacity buddy_demo3 = 1000000"
    by (simp_all add: buddy_demo3_def buddy_demo2_def buddy_demo1_def buddy_demo0_def)
  show ?thesis
    by (simp add: compactable_def h sizeof_BuddyPage_def Let_def skip_tail_def live_in_def f g buddy_demo3_reads)
qed



end
