(* ===== verification/Pool_Manager.thy ===== *)
theory Pool_Manager
  imports Chi_Types "HOL-Library.AList"
begin

text \<open>
  The pool manager of one node (pool\_manager.h, pool\_manager.cc): the table of
  pools with their containers and address maps, pool creation with its
  get-or-create rule and its roll-back on every failure, pool destruction, and
  the container lookups routing relies on. The handlers of the admin module
  that call it (\<^verbatim>\<open>GetOrCreatePool\<close>, \<^verbatim>\<open>DestroyPool\<close> of admin\_runtime.cc) are at the end.

  A container is an object behind a pointer; its state is in the object
  store. The workers a container has pinned task groups to are named by their identifiers. The code of a module is loaded at run time and is a parameter: its
  constructor, \<^verbatim>\<open>Init\<close> and \<^verbatim>\<open>Create\<close>, which may throw and, for \<^verbatim>\<open>Create\<close>, may call
  the pool manager again before it returns.
  A \<^verbatim>\<open>std::unordered_map\<close> is the association list of its entries in iteration order.
\<close>

type_synonym PoolId = UniqueId
type_synonym cptr = nat

record Container =
  cn_pool_id :: PoolId
  cn_pool_name :: string
  cn_container_id :: u32
  cn_plugged :: bool
  task_group_map :: "(64 word \<times> u32) list"

record PoolInfo =
  pi_pool_id :: PoolId
  pool_name :: string
  chimod_name :: string
  chimod_params :: string
  num_containers :: u32
  is_active :: bool
  containers :: "(u32 \<times> cptr) list"
  address_map :: "(u32 \<times> u32) list"
  static_container :: "cptr option"
  local_container :: "cptr option"

record PoolManager =
  is_initialized :: bool
  pool_metadata :: "(PoolId \<times> PoolInfo) list"
  next_pool_minor :: u32
  objects :: "cptr \<rightharpoonup> Container"

record CreateTask =
  ct_chimod_name :: string
  ct_pool_name :: string
  ct_chimod_params :: string
  ct_new_pool_id :: PoolId
  ct_do_compose :: bool
  ct_return_code :: u32

text \<open>
  What the pool manager calls outside its own code: the loaded modules, their
  constructor, the flag \<^verbatim>\<open>restart_\<close> of a deserialised pool configuration, whether
  \<^verbatim>\<open>Init\<close> or \<^verbatim>\<open>Restart\<close> throws, and a run of the module's \<^verbatim>\<open>Create\<close> (the exception, or the
  task as it left it). \<open>Inl ()\<close> is an exception.
\<close>

record pool_env =
  e_node :: u32
  e_num_hosts :: u32
  e_has_chimod :: "string \<Rightarrow> bool"
  e_new_container :: "string \<Rightarrow> PoolId \<Rightarrow> string \<Rightarrow> PoolManager \<Rightarrow> unit + cptr option"
  e_restart_flag :: "string \<Rightarrow> unit + bool"
  e_init_throws :: "cptr \<Rightarrow> bool"
  e_run_create :: "cptr \<Rightarrow> CreateTask \<Rightarrow> PoolManager \<Rightarrow> (unit + CreateTask) \<times> PoolManager"

definition PoolInfo_new :: "PoolId \<Rightarrow> string \<Rightarrow> string \<Rightarrow> string \<Rightarrow> u32 \<Rightarrow> PoolInfo" where
  "PoolInfo_new i pn cn params n =
     \<lparr>pi_pool_id = i, pool_name = pn, chimod_name = cn, chimod_params = params, num_containers = n, is_active = True,
      containers = [], address_map = [], static_container = None, local_container = None\<rparr>"

definition RecalculateLocalContainer :: "PoolInfo \<Rightarrow> PoolInfo" where
  "RecalculateLocalContainer i =
     (case containers i of
        c # _ \<Rightarrow> i\<lparr>local_container := Some (snd c)\<rparr>
      | [] \<Rightarrow> i\<lparr>local_container := static_container i\<rparr>)"

definition GetPoolInfo :: "PoolManager \<Rightarrow> PoolId \<Rightarrow> PoolInfo option" where
  "GetPoolInfo s p = (if is_initialized s then map_of (pool_metadata s) p else None)"

definition UpdatePoolMetadata :: "PoolId \<Rightarrow> PoolInfo \<Rightarrow> PoolManager \<Rightarrow> PoolManager" where
  "UpdatePoolMetadata p i s =
     (if is_initialized s then s\<lparr>pool_metadata := AList.update p i (pool_metadata s)\<rparr> else s)"

text \<open>A change made through the reference to the entry that a lookup found.\<close>

definition with_pool :: "PoolId \<Rightarrow> (PoolInfo \<Rightarrow> PoolInfo) \<Rightarrow> PoolManager \<Rightarrow> PoolManager" where
  "with_pool p f s =
     (case map_of (pool_metadata s) p of
        None \<Rightarrow> s
      | Some i \<Rightarrow> s\<lparr>pool_metadata := AList.update p (f i) (pool_metadata s)\<rparr>)"

definition erase_pool :: "PoolId \<Rightarrow> PoolManager \<Rightarrow> PoolManager" where
  "erase_pool p s = s\<lparr>pool_metadata := AList.delete p (pool_metadata s)\<rparr>"

section \<open>Containers\<close>

definition register_in :: "u32 \<Rightarrow> cptr \<Rightarrow> bool \<Rightarrow> PoolInfo \<Rightarrow> PoolInfo" where
  "register_in cid c is_static i =
     (let i = i\<lparr>containers := AList.update cid c (containers i)\<rparr>;
          i = (if is_static \<or> static_container i = None then i\<lparr>static_container := Some c\<rparr> else i)
      in if local_container i = None then i\<lparr>local_container := Some c\<rparr> else i)"

definition RegisterContainer :: "PoolId \<Rightarrow> u32 \<Rightarrow> cptr option \<Rightarrow> bool \<Rightarrow> PoolManager \<Rightarrow> bool \<times> PoolManager" where
  "RegisterContainer p cid c is_static s =
     (case c of
        None \<Rightarrow> (False, s)
      | Some c \<Rightarrow>
          if \<not> is_initialized s \<or> map_of (pool_metadata s) p = None then (False, s)
          else (True, with_pool p (register_in cid c is_static) s))"

definition unregister_in :: "u32 \<Rightarrow> cptr \<Rightarrow> PoolInfo \<Rightarrow> PoolInfo" where
  "unregister_in cid removed i =
     (let i = i\<lparr>containers := AList.delete cid (containers i)\<rparr>
      in if local_container i = Some removed then RecalculateLocalContainer i else i)"

definition UnregisterContainer :: "PoolId \<Rightarrow> u32 \<Rightarrow> PoolManager \<Rightarrow> bool \<times> PoolManager" where
  "UnregisterContainer p cid s =
     (if \<not> is_initialized s then (False, s)
      else case map_of (pool_metadata s) p of
          None \<Rightarrow> (False, s)
        | Some i \<Rightarrow> (case map_of (containers i) cid of
              None \<Rightarrow> (False, s)
            | Some c \<Rightarrow> (True, with_pool p (unregister_in cid c) s)))"

definition UnregisterAllContainers :: "PoolId \<Rightarrow> PoolManager \<Rightarrow> PoolManager" where
  "UnregisterAllContainers p s =
     (if is_initialized s
      then with_pool p (\<lambda>i. i\<lparr>containers := [], static_container := None, local_container := None\<rparr>) s
      else s)"

definition IsPlugged :: "PoolManager \<Rightarrow> cptr \<Rightarrow> bool" where
  "IsPlugged s c = (case objects s c of None \<Rightarrow> False | Some x \<Rightarrow> cn_plugged x)"

definition GetContainer :: "PoolManager \<Rightarrow> PoolId \<Rightarrow> u32 \<Rightarrow> cptr option \<times> bool" where
  "GetContainer s p cid =
     (if \<not> is_initialized s then (None, False)
      else case map_of (pool_metadata s) p of
          None \<Rightarrow> (None, False)
        | Some i \<Rightarrow>
            let c = (if cid \<noteq> kInvalidContainerId then map_of (containers i) cid else None);
                c = (if c = None then local_container i else c)
            in (c, (case c of None \<Rightarrow> False | Some x \<Rightarrow> IsPlugged s x)))"

definition GetContainerRaw :: "PoolManager \<Rightarrow> PoolId \<Rightarrow> u32 \<Rightarrow> cptr option" where
  "GetContainerRaw s p cid =
     (if \<not> is_initialized s then None
      else case map_of (pool_metadata s) p of None \<Rightarrow> None | Some i \<Rightarrow> map_of (containers i) cid)"

definition GetStaticContainer :: "PoolManager \<Rightarrow> PoolId \<Rightarrow> cptr option" where
  "GetStaticContainer s p =
     (if \<not> is_initialized s then None
      else case map_of (pool_metadata s) p of None \<Rightarrow> None | Some i \<Rightarrow> static_container i)"

text \<open>
  \<^verbatim>\<open>PlugContainer\<close> sets the flag and then spins until the container reports no work
  left; \<open>work k\<close> is the \<open>k\<close>-th reading of \<^verbatim>\<open>GetWorkRemaining\<close>, and the result counts the
  readings that were positive.
\<close>

partial_function (option) plug_wait :: "(nat \<Rightarrow> u64) \<Rightarrow> nat \<Rightarrow> nat option" where
  "plug_wait work k = (if 0 < work k then plug_wait work (k + 1) else Some k)"

definition set_plugged :: "cptr \<Rightarrow> PoolManager \<Rightarrow> PoolManager" where
  "set_plugged c s = s\<lparr>objects := (objects s)(c := map_option (\<lambda>x. x\<lparr>cn_plugged := True\<rparr>) (objects s c))\<rparr>"

definition PlugContainer :: "(nat \<Rightarrow> u64) \<Rightarrow> PoolId \<Rightarrow> u32 \<Rightarrow> PoolManager \<Rightarrow> PoolManager option" where
  "PlugContainer work p cid s =
     (case GetContainerRaw s p cid of
        None \<Rightarrow> Some s
      | Some c \<Rightarrow> (case plug_wait work 0 of None \<Rightarrow> None | Some _ \<Rightarrow> Some (set_plugged c s)))"

section \<open>Pools\<close>

definition HasPool :: "PoolManager \<Rightarrow> PoolId \<Rightarrow> bool" where
  "HasPool s p \<longleftrightarrow> is_initialized s \<and> map_of (pool_metadata s) p \<noteq> None"

definition HasContainer :: "PoolManager \<Rightarrow> PoolId \<Rightarrow> u32 \<Rightarrow> bool" where
  "HasContainer s p cid \<longleftrightarrow>
     is_initialized s \<and> (case map_of (pool_metadata s) p of None \<Rightarrow> False | Some i \<Rightarrow> map_of (containers i) cid \<noteq> None)"

definition FindPoolByName :: "PoolManager \<Rightarrow> string \<Rightarrow> PoolId" where
  "FindPoolByName s name =
     (if \<not> is_initialized s then UniqueId_GetNull
      else case find (\<lambda>e. pool_name (snd e) = name) (pool_metadata s) of
          Some e \<Rightarrow> fst e
        | None \<Rightarrow> UniqueId_GetNull)"

definition GetPoolCount :: "PoolManager \<Rightarrow> nat" where
  "GetPoolCount s = (if is_initialized s then length (pool_metadata s) else 0)"

definition GetAllPoolIds :: "PoolManager \<Rightarrow> PoolId list" where
  "GetAllPoolIds s = (if is_initialized s then map fst (pool_metadata s) else [])"

definition GeneratePoolId :: "pool_env \<Rightarrow> PoolManager \<Rightarrow> PoolId \<times> PoolManager" where
  "GeneratePoolId e s =
     (if \<not> is_initialized s then (UniqueId_GetNull, s)
      else (\<lparr>id_major = e_node e, id_minor = next_pool_minor s\<rparr>, s\<lparr>next_pool_minor := next_pool_minor s + 1\<rparr>))"

definition ValidatePoolParams :: "pool_env \<Rightarrow> string \<Rightarrow> string \<Rightarrow> PoolManager \<Rightarrow> bool" where
  "ValidatePoolParams e cn pn s \<longleftrightarrow> is_initialized s \<and> cn \<noteq> [] \<and> pn \<noteq> [] \<and> e_has_chimod e cn"

text \<open>The loop of \<^verbatim>\<open>InitAddressMap\<close>, from container \<open>k\<close> on.\<close>

function init_map_loop :: "u32 \<Rightarrow> u32 \<Rightarrow> (u32 \<times> u32) list \<Rightarrow> (u32 \<times> u32) list" where
  "init_map_loop k n m = (if k < n then init_map_loop (k + 1) n (AList.update k k m) else m)"
  by pat_completeness auto

termination init_map_loop
proof (relation "measure (\<lambda>(k, n, _). unat n - unat k)")
  fix k n :: u32 and m :: "(u32 \<times> u32) list"
  assume k: "k < n"
  then have "k \<noteq> - 1" using word_order.extremum_strict by blast
  then have "unat (k + 1) = Suc (unat k)" by (rule unat_plus_one)
  then show "((k + 1, n, AList.update k k m), (k, n, m)) \<in> measure (\<lambda>(k, n, _). unat n - unat k)"
    using k by (simp add: word_less_nat_alt)
qed simp

declare init_map_loop.simps [simp del]

definition InitAddressMap :: "PoolId \<Rightarrow> u32 \<Rightarrow> PoolManager \<Rightarrow> PoolManager" where
  "InitAddressMap p n s =
     (if is_initialized s then with_pool p (\<lambda>i. i\<lparr>address_map := init_map_loop 0 n []\<rparr>) s else s)"

definition container_Init :: "cptr \<Rightarrow> PoolId \<Rightarrow> string \<Rightarrow> u32 \<Rightarrow> PoolManager \<Rightarrow> PoolManager" where
  "container_Init c p pn cid s =
     s\<lparr>objects := (objects s)(c \<mapsto> \<lparr>cn_pool_id = p, cn_pool_name = pn, cn_container_id = cid, cn_plugged = False, task_group_map = []\<rparr>)\<rparr>"

definition DestroyContainer :: "cptr \<Rightarrow> PoolManager \<Rightarrow> PoolManager" where
  "DestroyContainer c s = s\<lparr>objects := (objects s)(c := None)\<rparr>"

text \<open>Unregister, destroy, erase: the way out when a created container fails.\<close>

definition create_rollback :: "pool_env \<Rightarrow> PoolId \<Rightarrow> cptr \<Rightarrow> PoolManager \<Rightarrow> PoolManager" where
  "create_rollback e p c s = erase_pool p (DestroyContainer c (snd (UnregisterContainer p (e_node e) s)))"

definition create_container :: "pool_env \<Rightarrow> CreateTask \<Rightarrow> PoolId \<Rightarrow> PoolManager \<Rightarrow> CreateTask \<times> PoolManager" where
  "create_container e t p s =
     (case e_new_container e (ct_chimod_name t) p (ct_pool_name t) s of
        Inl _ \<Rightarrow> (t, erase_pool p s)
      | Inr None \<Rightarrow> (t, erase_pool p s)
      | Inr (Some c) \<Rightarrow>
          (case (if ct_do_compose t then e_restart_flag e (ct_chimod_params t) else Inr False) of
             Inl _ \<Rightarrow> (t, create_rollback e p c s)
           | Inr is_restart \<Rightarrow>
               if e_init_throws e c then (t, create_rollback e p c s)
               else
                 let s = container_Init c p (ct_pool_name t) (e_node e) s;
                     (ok, s) = RegisterContainer p (e_node e) (Some c) True s
                 in if \<not> ok then (t, erase_pool p (DestroyContainer c s))
                    else (case e_run_create e c t s of
                        (Inl _, s) \<Rightarrow> (t, create_rollback e p c s)
                      | (Inr t, s) \<Rightarrow> if ct_return_code t \<noteq> 0 then (t, create_rollback e p c s) else (t, s))))"

definition CreatePool :: "pool_env \<Rightarrow> CreateTask \<Rightarrow> PoolManager \<Rightarrow> CreateTask \<times> PoolManager" where
  "CreatePool e t s =
     (if \<not> is_initialized s then (t, s)
      else if \<not> ValidatePoolParams e (ct_chimod_name t) (ct_pool_name t) s then (t, s)
      else
        let existing = FindPoolByName s (ct_pool_name t)
        in if \<not> UniqueId_IsNull existing then (t\<lparr>ct_new_pool_id := existing\<rparr>, s)
           else
             let p = ct_new_pool_id t
             in if UniqueId_IsNull p then (t, s)
                else if HasPool s p then (t, s)
                else
                  let i = PoolInfo_new p (ct_pool_name t) (ct_chimod_name t) (ct_chimod_params t) (e_num_hosts e);
                      s = UpdatePoolMetadata p i s;
                      s = InitAddressMap p (e_num_hosts e) s
                  in create_container e t p s)"

definition DestroyLocalPool :: "PoolId \<Rightarrow> PoolManager \<Rightarrow> bool \<times> PoolManager" where
  "DestroyLocalPool p s =
     (if \<not> is_initialized s then (False, s)
      else if \<not> HasPool s p then (False, s)
      else (True, UnregisterAllContainers p s))"

definition pm_DestroyPool :: "PoolId \<Rightarrow> PoolManager \<Rightarrow> PoolManager" where
  "pm_DestroyPool p s =
     (if \<not> is_initialized s then s
      else if map_of (pool_metadata s) p = None then s
      else let (ok, s) = DestroyLocalPool p s in if \<not> ok then s else erase_pool p s)"

definition GetContainerNodeId :: "PoolManager \<Rightarrow> PoolId \<Rightarrow> u32 \<Rightarrow> u32" where
  "GetContainerNodeId s p cid =
     (if \<not> is_initialized s then 0
      else case GetPoolInfo s p of
          None \<Rightarrow> 0
        | Some i \<Rightarrow> (case map_of (address_map i) cid of Some n \<Rightarrow> n | None \<Rightarrow> 0))"

definition UpdateContainerNodeMapping :: "PoolId \<Rightarrow> u32 \<Rightarrow> u32 \<Rightarrow> PoolManager \<Rightarrow> bool \<times> PoolManager" where
  "UpdateContainerNodeMapping p cid n s =
     (if \<not> is_initialized s then (False, s)
      else if map_of (pool_metadata s) p = None then (False, s)
      else (True, with_pool p (\<lambda>i. i\<lparr>address_map := AList.update cid n (address_map i)\<rparr>) s))"

definition kAdminPoolId :: PoolId where
  "kAdminPoolId = \<lparr>id_major = 1, id_minor = 0\<rparr>"

definition ServerInit :: "pool_env \<Rightarrow> PoolManager \<Rightarrow> bool \<times> PoolManager" where
  "ServerInit e s =
     (if is_initialized s then (True, s)
      else
        let s = s\<lparr>pool_metadata := [], is_initialized := True\<rparr>;
            t = \<lparr>ct_chimod_name = ''chimaera_admin'', ct_pool_name = ''admin'', ct_chimod_params = [],
                 ct_new_pool_id = kAdminPoolId, ct_do_compose = False, ct_return_code = 0\<rparr>;
            (t, s) = CreatePool e t s
        in (ct_return_code t = 0, s))"

definition Finalize :: "PoolManager \<Rightarrow> PoolManager" where
  "Finalize s = (if \<not> is_initialized s then s else s\<lparr>pool_metadata := [], is_initialized := False\<rparr>)"

section \<open>Admin handlers\<close>

record Admin =
  pools_created :: u32
  pools_destroyed :: u32

definition GetOrCreatePool :: "pool_env \<Rightarrow> CreateTask \<Rightarrow> Admin \<Rightarrow> PoolManager \<Rightarrow> CreateTask \<times> Admin \<times> PoolManager" where
  "GetOrCreatePool e t a s =
     (let (t, s) = CreatePool e (t\<lparr>ct_return_code := 0\<rparr>) s
      in if ct_return_code t \<noteq> 0 then (t, a, s)
         else (t\<lparr>ct_return_code := 0\<rparr>, a\<lparr>pools_created := pools_created a + 1\<rparr>, s))"

definition admin_DestroyPool :: "PoolId \<Rightarrow> Admin \<Rightarrow> PoolManager \<Rightarrow> u32 \<times> Admin \<times> PoolManager" where
  "admin_DestroyPool p a s =
     (if \<not> is_initialized s then (1, a, s)
      else (0, a\<lparr>pools_destroyed := pools_destroyed a + 1\<rparr>, pm_DestroyPool p s))"

text \<open>\<open>Some name\<close> for a \<^verbatim>\<open>GetOrCreatePool\<close> task with that pool name, \<open>None\<close> for every other method.\<close>

definition admin_ScheduleTask :: "PoolManager \<Rightarrow> string option \<Rightarrow> PoolQuery \<Rightarrow> PoolQuery" where
  "admin_ScheduleTask s method q =
     (case method of
        Some name \<Rightarrow>
          if \<not> UniqueId_IsNull (FindPoolByName s name) then PoolQuery_Local else PoolQuery_Broadcast neg_one_f
      | None \<Rightarrow> q)"

section \<open>The pool table\<close>

text \<open>
  One entry per pool: keyed by its identifier, which is not null, with a name no
  other entry has. An entry with containers has a static one, and tasks find a
  default container exactly when there is one to find.
\<close>

definition info_ok :: "PoolId \<Rightarrow> PoolInfo \<Rightarrow> bool" where
  "info_ok p i \<longleftrightarrow>
     pi_pool_id i = p \<and> \<not> UniqueId_IsNull p \<and> pool_name i \<noteq> [] \<and>
     distinct (map fst (containers i)) \<and> distinct (map fst (address_map i)) \<and>
     (containers i \<noteq> [] \<longrightarrow> static_container i \<noteq> None) \<and>
     (local_container i = None \<longleftrightarrow> static_container i = None) \<and>
     (\<forall>c. local_container i = Some c \<longrightarrow> c \<in> snd ` set (containers i) \<or> static_container i = Some c)"

definition pm_inv :: "PoolManager \<Rightarrow> bool" where
  "pm_inv s \<longleftrightarrow>
     distinct (map fst (pool_metadata s)) \<and>
     (\<forall>p i. map_of (pool_metadata s) p = Some i \<longrightarrow> info_ok p i) \<and>
     (\<forall>p q i j. map_of (pool_metadata s) p = Some i \<and> map_of (pool_metadata s) q = Some j \<and> pool_name i = pool_name j \<longrightarrow> p = q)"

abbreviation pool_of :: "PoolManager \<Rightarrow> PoolId \<Rightarrow> PoolInfo option" where
  "pool_of s p \<equiv> map_of (pool_metadata s) p"

definition keeps_pools :: "PoolManager \<Rightarrow> PoolManager \<Rightarrow> bool" where
  "keeps_pools s s' \<longleftrightarrow> is_initialized s' = is_initialized s \<and> (\<forall>q i. pool_of s q = Some i \<longrightarrow> pool_of s' q = Some i)"

lemma pm_invD: "pm_inv s \<Longrightarrow> pool_of s p = Some i \<Longrightarrow> info_ok p i"
  unfolding pm_inv_def by blast

lemma with_pool_lookup:
  "pool_of (with_pool p f s) q = (if q = p then map_option f (pool_of s p) else pool_of s q)"
  by (simp add: with_pool_def update_conv' split: option.split)

lemma with_pool_fields [simp]:
  "is_initialized (with_pool p f s) = is_initialized s" "objects (with_pool p f s) = objects s"
  "next_pool_minor (with_pool p f s) = next_pool_minor s"
  by (simp_all add: with_pool_def split: option.split)

lemma pm_inv_change:
  assumes "pm_inv s" and "distinct (map fst (pool_metadata s'))"
    and "\<And>q. pool_of s' q = (if q = p then r else pool_of s q)"
    and "\<And>i. r = Some i \<Longrightarrow> info_ok p i"
    and "\<And>i q j. r = Some i \<Longrightarrow> pool_of s q = Some j \<Longrightarrow> pool_name j = pool_name i \<Longrightarrow> q = p"
  shows "pm_inv s'"
proof -
  have "q1 = q2" if "pool_of s' q1 = Some i" "pool_of s' q2 = Some j" "pool_name i = pool_name j" for q1 q2 i j
    using that assms(1,3) assms(5) [of i q2 j] assms(5) [of j q1 i] unfolding pm_inv_def by (metis (full_types))
  moreover have "info_ok q i" if "pool_of s' q = Some i" for q i
    using that assms(1,3,4) unfolding pm_inv_def by (metis (full_types))
  ultimately show ?thesis using assms(2) unfolding pm_inv_def by blast
qed

lemma with_pool_inv:
  assumes "pm_inv s" and "\<And>i. pool_of s p = Some i \<Longrightarrow> info_ok p (f i) \<and> pool_name (f i) = pool_name i"
  shows "pm_inv (with_pool p f s)"
proof (rule pm_inv_change [OF assms(1), where p = p and r = "map_option f (pool_of s p)"])
  show "distinct (map fst (pool_metadata (with_pool p f s)))"
    using assms(1) by (simp add: with_pool_def pm_inv_def distinct_update split: option.split)
next
  fix i q j
  assume a: "map_option f (pool_of s p) = Some i" "pool_of s q = Some j" "pool_name j = pool_name i"
  then obtain i0 where "pool_of s p = Some i0" "i = f i0" by auto
  then show "q = p" using assms(1) assms(2) [of i0] a(2,3) unfolding pm_inv_def by metis
qed (use assms(2) in \<open>auto simp: with_pool_lookup\<close>)

lemma erase_pool_lookup: "pm_inv s \<Longrightarrow> pool_of (erase_pool p s) q = (if q = p then None else pool_of s q)"
  by (simp add: erase_pool_def delete_conv')

lemma erase_pool_inv: "pm_inv s \<Longrightarrow> pm_inv (erase_pool p s)"
  by (rule pm_inv_change [where p = p and r = None])
    (auto simp: erase_pool_lookup, simp add: erase_pool_def pm_inv_def distinct_delete)

lemma erase_pool_fields [simp]:
  "is_initialized (erase_pool p s) = is_initialized s"
  by (simp add: erase_pool_def)

lemma FindPoolByName_iff:
  assumes "pm_inv s" and "is_initialized s"
  shows "FindPoolByName s name = p \<and> \<not> UniqueId_IsNull p \<longleftrightarrow> (\<exists>i. pool_of s p = Some i \<and> pool_name i = name)"
proof -
  have d: "distinct (map fst (pool_metadata s))" using assms(1) by (simp add: pm_inv_def)
  have null: "UniqueId_IsNull UniqueId_GetNull" by (simp add: UniqueId_IsNull_def UniqueId_GetNull_def)
  show ?thesis
  proof (cases "find (\<lambda>e. pool_name (snd e) = name) (pool_metadata s)")
    case None
    then have "\<nexists>e. e \<in> set (pool_metadata s) \<and> pool_name (snd e) = name" by (simp add: find_None_iff)
    then have "\<nexists>i. pool_of s p = Some i \<and> pool_name i = name" using map_of_SomeD by fastforce
    then show ?thesis using None assms(2) null by (auto simp: FindPoolByName_def)
  next
    case (Some e)
    then have "e \<in> set (pool_metadata s)" "pool_name (snd e) = name"
      by (auto simp: find_Some_iff)
    then have e: "pool_of s (fst e) = Some (snd e)" "pool_name (snd e) = name" using d by auto
    then have "info_ok (fst e) (snd e)" using assms(1) unfolding pm_inv_def by blast
    then have "\<not> UniqueId_IsNull (fst e)" by (simp add: info_ok_def)
    moreover have "FindPoolByName s name = fst e" using Some assms(2) by (simp add: FindPoolByName_def)
    moreover have "p = fst e" if "pool_of s p = Some i" "pool_name i = name" for i
      using assms(1) that e unfolding pm_inv_def by metis
    ultimately show ?thesis using e by auto
  qed
qed

lemma update_new: "map_of al k = None \<Longrightarrow> AList.update k v al = al @ [(k, v)]"
  by (induction al) (auto split: if_splits)

text \<open>
  Registering under an identifier that is already taken, or replacing the static
  container, would leave the default container pointing at the replaced one; the
  callers never do either.
\<close>

lemma register_in_ok:
  assumes "info_ok p i" and "map_of (containers i) cid = None" and "\<not> st \<or> static_container i = None"
  shows "info_ok p (register_in cid c st i) \<and> pool_name (register_in cid c st i) = pool_name i"
proof -
  have "cid \<notin> fst ` set (containers i)" using assms(2) by (simp add: map_of_eq_None_iff)
  then show ?thesis using assms by (auto simp: register_in_def Let_def update_new info_ok_def)
qed

lemma unregister_in_ok:
  assumes "info_ok p i" and "map_of (containers i) cid = Some c"
  shows "info_ok p (unregister_in cid c i) \<and> pool_name (unregister_in cid c i) = pool_name i"
proof -
  have keep1: "x \<in> snd ` set (AList.delete cid (containers i))" if "(k, x) \<in> set (containers i)" "x \<noteq> c" for k x
  proof -
    have "map_of (containers i) k = Some x" using that assms(1) by (simp add: info_ok_def)
    then have "k \<noteq> cid" using that(2) assms(2) by auto
    then show ?thesis using that by (force simp: AList.delete_eq)
  qed
  have keep: "snd ` set (containers i) \<subseteq> insert c (snd ` set (AList.delete cid (containers i)))"
  proof
    fix x
    assume "x \<in> snd ` set (containers i)"
    then obtain k where "(k, x) \<in> set (containers i)" by auto
    then show "x \<in> insert c (snd ` set (AList.delete cid (containers i)))" using keep1 [of k x] by (cases "x = c") auto
  qed
  have ne: "containers i \<noteq> []" using assms(2) by auto
  let ?cs = "AList.delete cid (containers i)"
  have d: "distinct (map fst ?cs)" using assms(1) by (simp add: info_ok_def distinct_delete)
  show ?thesis
  proof (cases ?cs)
    case Nil
    then show ?thesis using assms(1) d ne keep
      by (auto simp: image_subset_iff unregister_in_def Let_def RecalculateLocalContainer_def info_ok_def)
  next
    case (Cons x xs)
    then show ?thesis using assms(1) d ne keep
      by (auto simp: image_subset_iff unregister_in_def Let_def RecalculateLocalContainer_def info_ok_def)
  qed
qed

section \<open>Operations keep the table well formed\<close>

lemma RegisterContainer_inv:
  assumes "pm_inv s" and "\<not> HasContainer s p cid" and "\<not> st \<or> GetStaticContainer s p = None"
  shows "pm_inv (snd (RegisterContainer p cid c st s))"
proof (cases c)
  case (Some x)
  have "info_ok p (register_in cid x st i) \<and> pool_name (register_in cid x st i) = pool_name i"
    if "pool_of s p = Some i" "is_initialized s" for i
    by (rule register_in_ok [OF pm_invD [OF assms(1)]]) (use assms(2,3) that in \<open>auto simp: HasContainer_def GetStaticContainer_def\<close>)
  then show ?thesis using assms(1) with_pool_inv [OF assms(1)] Some by (auto simp: RegisterContainer_def)
qed (use assms in \<open>simp add: RegisterContainer_def\<close>)

lemma UnregisterContainer_inv:
  assumes "pm_inv s"
  shows "pm_inv (snd (UnregisterContainer p cid s))"
proof -
  have "pm_inv (with_pool p (unregister_in cid c) s)" if "pool_of s p = Some i" "map_of (containers i) cid = Some c" for i c
    by (rule with_pool_inv [OF assms]) (use that unregister_in_ok [OF pm_invD [OF assms that(1)] that(2)] in simp)
  then show ?thesis using assms by (auto simp: UnregisterContainer_def split: option.split)
qed

lemma UnregisterContainer_frame:
  "q \<noteq> p \<Longrightarrow> pool_of (snd (UnregisterContainer p cid s)) q = pool_of s q"
  "is_initialized (snd (UnregisterContainer p cid s)) = is_initialized s"
  by (auto simp: UnregisterContainer_def with_pool_lookup split: option.split)

lemma UnregisterAllContainers_inv: "pm_inv s \<Longrightarrow> pm_inv (UnregisterAllContainers p s)"
  by (auto simp: UnregisterAllContainers_def info_ok_def intro!: with_pool_inv dest: pm_invD)

lemma UpdateContainerNodeMapping_inv: "pm_inv s \<Longrightarrow> pm_inv (snd (UpdateContainerNodeMapping p cid n s))"
  by (auto simp: UpdateContainerNodeMapping_def info_ok_def distinct_update intro!: with_pool_inv dest: pm_invD)

lemma objects_inv [simp]: "pm_inv (s\<lparr>objects := x\<rparr>) = pm_inv s"
  by (simp add: pm_inv_def)

lemma pm_DestroyPool_inv: "pm_inv s \<Longrightarrow> pm_inv (pm_DestroyPool p s)"
  by (auto simp: pm_DestroyPool_def DestroyLocalPool_def erase_pool_inv UnregisterAllContainers_inv)

text \<open>Destruction removes the pool and nothing else.\<close>

lemma pm_DestroyPool_lookup:
  assumes "pm_inv s" and "is_initialized s"
  shows "pool_of (pm_DestroyPool p s) q = (if q = p then None else pool_of s q)"
proof -
  have "pool_of (UnregisterAllContainers p s) q = pool_of s q" if "q \<noteq> p" for q
    using that by (simp add: UnregisterAllContainers_def with_pool_lookup)
  then show ?thesis using assms erase_pool_lookup [OF UnregisterAllContainers_inv [OF assms(1)]]
    by (simp add: pm_DestroyPool_def DestroyLocalPool_def HasPool_def)
qed

section \<open>Creating pools\<close>

lemma init_map_loop_lookup:
  "map_of (init_map_loop k n m) c = (if k \<le> c \<and> c < n then Some c else map_of m c)"
proof (induction k n m rule: init_map_loop.induct)
  case (1 k n m)
  show ?case
  proof (cases "k < n")
    case True
    then have "k \<noteq> - 1" using word_order.extremum_strict by blast
    then have "unat (k + 1) = Suc (unat k)" by (rule unat_plus_one)
    then have "k + 1 \<le> c \<longleftrightarrow> k \<le> c \<and> c \<noteq> k" by (auto simp: word_le_nat_alt word_less_nat_alt word_unat_eq_iff)
    then show ?thesis using True 1 by (subst init_map_loop.simps) (auto simp: update_conv')
  next
    case False
    then show ?thesis by (subst init_map_loop.simps) auto
  qed
qed

lemma init_map_loop_distinct: "distinct (map fst m) \<Longrightarrow> distinct (map fst (init_map_loop k n m))"
  by (induction k n m rule: init_map_loop.induct) (subst init_map_loop.simps, simp add: distinct_update)

text \<open>The entry a new pool starts from, before its container is registered.\<close>

definition fresh_info :: "pool_env \<Rightarrow> CreateTask \<Rightarrow> PoolInfo" where
  "fresh_info e t =
     (PoolInfo_new (ct_new_pool_id t) (ct_pool_name t) (ct_chimod_name t) (ct_chimod_params t) (e_num_hosts e))
       \<lparr>address_map := init_map_loop 0 (e_num_hosts e) []\<rparr>"

definition start_pool :: "pool_env \<Rightarrow> CreateTask \<Rightarrow> PoolManager \<Rightarrow> PoolManager" where
  "start_pool e t s =
     InitAddressMap (ct_new_pool_id t) (e_num_hosts e)
       (UpdatePoolMetadata (ct_new_pool_id t)
         (PoolInfo_new (ct_new_pool_id t) (ct_pool_name t) (ct_chimod_name t) (ct_chimod_params t) (e_num_hosts e)) s)"

definition creatable :: "pool_env \<Rightarrow> CreateTask \<Rightarrow> PoolManager \<Rightarrow> bool" where
  "creatable e t s \<longleftrightarrow>
     is_initialized s \<and> ValidatePoolParams e (ct_chimod_name t) (ct_pool_name t) s \<and>
     UniqueId_IsNull (FindPoolByName s (ct_pool_name t)) \<and> \<not> UniqueId_IsNull (ct_new_pool_id t) \<and>
     \<not> HasPool s (ct_new_pool_id t)"

lemma CreatePool_creatable: "creatable e t s \<Longrightarrow> CreatePool e t s = create_container e t (ct_new_pool_id t) (start_pool e t s)"
  by (simp add: CreatePool_def creatable_def start_pool_def Let_def)

lemma CreatePool_not_creatable: "\<not> creatable e t s \<Longrightarrow> snd (CreatePool e t s) = s"
  by (auto simp: CreatePool_def creatable_def Let_def)

lemma start_pool_lookup:
  assumes "creatable e t s"
  shows "pool_of (start_pool e t s) q = (if q = ct_new_pool_id t then Some (fresh_info e t) else pool_of s q)"
    and "is_initialized (start_pool e t s)"
  using assms
  by (auto simp: start_pool_def InitAddressMap_def UpdatePoolMetadata_def creatable_def with_pool_lookup fresh_info_def update_conv')

lemma start_pool_inv:
  assumes "pm_inv s" and "creatable e t s"
  shows "pm_inv (start_pool e t s)"
proof (rule pm_inv_change [OF assms(1) _ start_pool_lookup(1) [OF assms(2)]])
  show "distinct (map fst (pool_metadata (start_pool e t s)))"
    using assms by (simp add: start_pool_def InitAddressMap_def UpdatePoolMetadata_def creatable_def pm_inv_def with_pool_def distinct_update split: option.split)
next
  fix i assume "Some (fresh_info e t) = Some i"
  then show "info_ok (ct_new_pool_id t) i"
    using assms(2) by (auto simp: fresh_info_def PoolInfo_new_def info_ok_def creatable_def ValidatePoolParams_def init_map_loop_distinct)
next
  fix i q j
  assume a: "Some (fresh_info e t) = Some i" "pool_of s q = Some j" "pool_name j = pool_name i"
  then have "pool_name j = ct_pool_name t" by (auto simp: fresh_info_def PoolInfo_new_def)
  then show "q = ct_new_pool_id t"
    using FindPoolByName_iff [OF assms(1), of "ct_pool_name t" q] a(2) assms(2) by (auto simp: creatable_def)
qed

text \<open>
  The \<^verbatim>\<open>Create\<close> method of a module may create further pools; it does not change or
  remove the pools that exist.
\<close>

definition create_only_adds :: "pool_env \<Rightarrow> bool" where
  "create_only_adds e \<longleftrightarrow>
     (\<forall>c t s. pm_inv s \<and> is_initialized s \<longrightarrow>
        pm_inv (snd (e_run_create e c t s)) \<and> keeps_pools s (snd (e_run_create e c t s)))"

definition complete_info :: "pool_env \<Rightarrow> CreateTask \<Rightarrow> cptr \<Rightarrow> PoolInfo" where
  "complete_info e t c =
     (fresh_info e t)\<lparr>containers := [(e_node e, c)], static_container := Some c, local_container := Some c\<rparr>"

lemma keeps_poolsD: "keeps_pools s s' \<Longrightarrow> pool_of s q = Some i \<Longrightarrow> pool_of s' q = Some i"
  by (simp add: keeps_pools_def)

lemma create_rollback_spec:
  assumes "pm_inv s"
  shows "pm_inv (create_rollback e p c s)" and "is_initialized (create_rollback e p c s) = is_initialized s"
    and "pool_of (create_rollback e p c s) q = (if q = p then None else pool_of s q)"
proof -
  let ?u = "DestroyContainer c (snd (UnregisterContainer p (e_node e) s))"
  have u: "pm_inv ?u" using UnregisterContainer_inv [OF assms] by (simp add: DestroyContainer_def)
  show "pm_inv (create_rollback e p c s)" using erase_pool_inv [OF u] by (simp add: create_rollback_def)
  show "is_initialized (create_rollback e p c s) = is_initialized s"
    by (simp add: create_rollback_def DestroyContainer_def UnregisterContainer_frame)
  show "pool_of (create_rollback e p c s) q = (if q = p then None else pool_of s q)"
    using erase_pool_lookup [OF u] UnregisterContainer_frame(1) by (simp add: create_rollback_def DestroyContainer_def)
qed

text \<open>
  The container a creation gets from the module manager and initialises, if it
  gets one, and the state in which the module's \<^verbatim>\<open>Create\<close> runs: the pool is in
  the table and its container is registered.
\<close>

definition made :: "pool_env \<Rightarrow> CreateTask \<Rightarrow> PoolManager \<Rightarrow> cptr option" where
  "made e t s =
     (case e_new_container e (ct_chimod_name t) (ct_new_pool_id t) (ct_pool_name t) (start_pool e t s) of
        Inr (Some c) \<Rightarrow>
          if ct_do_compose t \<and> isl (e_restart_flag e (ct_chimod_params t)) \<or> e_init_throws e c then None else Some c
      | _ \<Rightarrow> None)"

definition registered :: "pool_env \<Rightarrow> CreateTask \<Rightarrow> cptr \<Rightarrow> PoolManager \<Rightarrow> PoolManager" where
  "registered e t c s =
     snd (RegisterContainer (ct_new_pool_id t) (e_node e) (Some c) True
       (container_Init c (ct_new_pool_id t) (ct_pool_name t) (e_node e) (start_pool e t s)))"

lemma registered_spec:
  assumes "pm_inv s" and "creatable e t s"
  shows "pm_inv (registered e t c s)" and "is_initialized (registered e t c s)"
    and "pool_of (registered e t c s) q =
      (if q = ct_new_pool_id t then Some (complete_info e t c) else pool_of s q)"
    and "RegisterContainer (ct_new_pool_id t) (e_node e) (Some c) True
       (container_Init c (ct_new_pool_id t) (ct_pool_name t) (e_node e) (start_pool e t s)) = (True, registered e t c s)"
proof -
  let ?p = "ct_new_pool_id t"
  let ?x = "container_Init c ?p (ct_pool_name t) (e_node e) (start_pool e t s)"
  note st = start_pool_lookup [OF assms(2)]
  have px: "pool_of ?x ?p = Some (fresh_info e t)" "pm_inv ?x" "is_initialized ?x"
    using st start_pool_inv [OF assms] by (simp_all add: container_Init_def)
  have reg: "RegisterContainer ?p (e_node e) (Some c) True ?x = (True, with_pool ?p (register_in (e_node e) c True) ?x)"
    using px by (simp add: RegisterContainer_def)
  then show "RegisterContainer ?p (e_node e) (Some c) True ?x = (True, registered e t c s)" by (simp add: registered_def)
  have "pm_inv (snd (RegisterContainer ?p (e_node e) (Some c) True ?x))"
    by (rule RegisterContainer_inv [OF px(2)]) (use px in \<open>auto simp: HasContainer_def GetStaticContainer_def fresh_info_def PoolInfo_new_def\<close>)
  then show "pm_inv (registered e t c s)" by (simp add: registered_def)
  show "is_initialized (registered e t c s)" using reg px by (simp add: registered_def)
  show "pool_of (registered e t c s) q = (if q = ?p then Some (complete_info e t c) else pool_of s q)"
    using reg st px by (simp add: registered_def with_pool_lookup register_in_def Let_def complete_info_def fresh_info_def PoolInfo_new_def container_Init_def)
qed

lemma create_container_made:
  assumes "made e t s = Some c" and "pm_inv s" and "creatable e t s"
  shows "create_container e t (ct_new_pool_id t) (start_pool e t s) =
    (case e_run_create e c t (registered e t c s) of
       (Inl _, z) \<Rightarrow> (t, create_rollback e (ct_new_pool_id t) c z)
     | (Inr t1, z) \<Rightarrow> if ct_return_code t1 \<noteq> 0 then (t1, create_rollback e (ct_new_pool_id t) c z) else (t1, z))"
proof -
  have "e_new_container e (ct_chimod_name t) (ct_new_pool_id t) (ct_pool_name t) (start_pool e t s) = Inr (Some c)"
    "\<not> (ct_do_compose t \<and> isl (e_restart_flag e (ct_chimod_params t)))" "\<not> e_init_throws e c"
    using assms(1) by (auto simp: made_def split: sum.splits option.splits if_splits)
  then show ?thesis using registered_spec(4) [OF assms(2,3), of c]
    by (auto simp: create_container_def Let_def split: sum.splits prod.splits)
qed

text \<open>A creation that gets no container is undone.\<close>

lemma create_container_none:
  assumes "made e t s = None" and "pm_inv s" and "creatable e t s"
    and "create_container e t (ct_new_pool_id t) (start_pool e t s) = (t', s')"
  shows "t' = t \<and> pm_inv s' \<and> is_initialized s' \<and> (\<forall>q. pool_of s' q = pool_of s q)"
proof -
  let ?p = "ct_new_pool_id t" and ?s = "start_pool e t s"
  have inv: "pm_inv ?s" "is_initialized ?s" using start_pool_inv [OF assms(2,3)] start_pool_lookup(2) [OF assms(3)] by simp_all
  have new: "pool_of s ?p = None" using assms(3) by (simp add: creatable_def HasPool_def)
  have look: "(if q = ?p then None else pool_of ?s q) = pool_of s q" for q
    using start_pool_lookup(1) [OF assms(3), of q] new by simp
  have er: "pm_inv (erase_pool ?p ?s)" "is_initialized (erase_pool ?p ?s)" "pool_of (erase_pool ?p ?s) q = pool_of s q" for q
    using erase_pool_inv [OF inv(1)] erase_pool_lookup [OF inv(1)] inv(2) look by simp_all
  have rb: "pm_inv (create_rollback e ?p c ?s)" "is_initialized (create_rollback e ?p c ?s)"
    "pool_of (create_rollback e ?p c ?s) q = pool_of s q" for c q
    using create_rollback_spec [OF inv(1), of e ?p c] inv(2) look by simp_all
  have "(t', s') = (t, erase_pool ?p ?s) \<or> (\<exists>c. (t', s') = (t, create_rollback e ?p c ?s))"
    using assms(1,4) by (auto simp: made_def create_container_def split: sum.splits option.splits if_splits)
  then show ?thesis using er rb by auto
qed

text \<open>
  CX. Pool creation is get-or-create, and its outcome on every branch is
  determined. It keeps the pool table well formed (identifiers and names unique)
  and never changes a pool that exists. A request that is refused (invalid
  parameters, a null or taken identifier) changes nothing; when the name is
  taken the task gets the existing identifier. Otherwise, when no container can
  be made or initialised, the table is as it was. When one is made, the
  module's \<^verbatim>\<open>Create\<close> runs with the pool registered and may itself create pools;
  the other pools are as it leaves them. If it succeeds the new pool is complete:
  found under its name, with one container on this node that is the static and
  the default container, and with container \<open>k\<close> addressed to node \<open>k\<close>. If it
  throws or returns an error, the new pool and its container are gone.
\<close>

theorem create_pool_correct:
  assumes "pm_inv s" and "is_initialized s" and "create_only_adds e" and "CreatePool e t s = (t', s')"
  shows "pm_inv s' \<and> keeps_pools s s' \<and>
    (if \<not> creatable e t s
     then s' = s \<and> t' = (if ValidatePoolParams e (ct_chimod_name t) (ct_pool_name t) s \<and>
                             \<not> UniqueId_IsNull (FindPoolByName s (ct_pool_name t))
                          then t\<lparr>ct_new_pool_id := FindPoolByName s (ct_pool_name t)\<rparr> else t)
     else case made e t s of
         None \<Rightarrow> t' = t \<and> (\<forall>q. pool_of s' q = pool_of s q)
       | Some c \<Rightarrow>
           (case e_run_create e c t (registered e t c s) of
              (res, z) \<Rightarrow> (\<forall>q. q \<noteq> ct_new_pool_id t \<longrightarrow> pool_of s' q = pool_of z q) \<and>
                (case res of
                   Inr t1 \<Rightarrow> t' = t1 \<and>
                     (if ct_return_code t1 = 0
                      then pool_of s' (ct_new_pool_id t) = Some (complete_info e t c) \<and>
                           FindPoolByName s' (ct_pool_name t) = ct_new_pool_id t \<and>
                           (\<forall>k. GetContainerNodeId s' (ct_new_pool_id t) k = (if k < e_num_hosts e then k else 0))
                      else pool_of s' (ct_new_pool_id t) = None \<and> objects s' c = None)
                 | Inl _ \<Rightarrow> t' = t \<and> pool_of s' (ct_new_pool_id t) = None \<and> objects s' c = None)))"
proof (cases "creatable e t s")
  case False
  then have "s' = s" using CreatePool_not_creatable [OF False] assms(4) by simp
  moreover have "t' = (if ValidatePoolParams e (ct_chimod_name t) (ct_pool_name t) s \<and>
       \<not> UniqueId_IsNull (FindPoolByName s (ct_pool_name t))
     then t\<lparr>ct_new_pool_id := FindPoolByName s (ct_pool_name t)\<rparr> else t)"
    using False assms(2,4) by (auto simp: CreatePool_def creatable_def Let_def split: if_splits)
  ultimately show ?thesis using False assms(1) by (simp add: keeps_pools_def)
next
  case True
  let ?p = "ct_new_pool_id t"
  have cc: "create_container e t ?p (start_pool e t s) = (t', s')" using CreatePool_creatable [OF True] assms(4) by simp
  have new: "pool_of s ?p = None" using True by (simp add: creatable_def HasPool_def)
  show ?thesis
  proof (cases "made e t s")
    case None
    then show ?thesis using create_container_none [OF None assms(1) True cc] True assms(2) by (simp add: keeps_pools_def)
  next
    case (Some c)
    obtain res z where run: "e_run_create e c t (registered e t c s) = (res, z)" by fastforce
    note rg = registered_spec [OF assms(1) True, of c]
    have z: "pm_inv z" "keeps_pools (registered e t c s) z"
      using assms(3) rg(1,2) run unfolding create_only_adds_def by (metis snd_conv)+
    have zi: "is_initialized z" using z(2) rg(2) by (simp add: keeps_pools_def)
    have zp: "pool_of z ?p = Some (complete_info e t c)" using keeps_poolsD [OF z(2)] rg(3) by simp
    have zk: "pool_of z q = Some i" if "pool_of s q = Some i" for q i
      using keeps_poolsD [OF z(2), of q i] rg(3) [of q] that new by (cases "q = ?p") simp_all
    note rb = create_rollback_spec [OF z(1), of e ?p c]
    have ob: "objects (create_rollback e ?p c z) c = None"
      by (simp add: create_rollback_def erase_pool_def DestroyContainer_def)
    have out: "(t', s') = (case res of Inl _ \<Rightarrow> (t, create_rollback e ?p c z)
        | Inr t1 \<Rightarrow> if ct_return_code t1 \<noteq> 0 then (t1, create_rollback e ?p c z) else (t1, z))"
      using create_container_made [OF Some assms(1) True] cc run by (cases res) simp_all
    have keep: "keeps_pools s (create_rollback e ?p c z)" "keeps_pools s z"
      using rb(2,3) zi zk new assms(2) by (auto simp: keeps_pools_def)
    have found: "FindPoolByName z (ct_pool_name t) = ?p" "\<forall>k. GetContainerNodeId z ?p k = (if k < e_num_hosts e then k else 0)"
      using FindPoolByName_iff [OF z(1) zi, of "ct_pool_name t" ?p] zp zi True
      by (auto simp: complete_info_def fresh_info_def PoolInfo_new_def GetContainerNodeId_def GetPoolInfo_def init_map_loop_lookup)
    show ?thesis
    proof (cases "\<exists>t1. res = Inr t1 \<and> ct_return_code t1 = 0")
      case True
      then show ?thesis using out z(1) keep zp found run Some \<open>creatable e t s\<close> by auto
    next
      case False
      then have "s' = create_rollback e ?p c z \<and> t' = (case res of Inl _ \<Rightarrow> t | Inr t1 \<Rightarrow> t1)" using out by (auto split: sum.splits if_splits)
      then show ?thesis using rb keep ob run Some \<open>creatable e t s\<close> False by (auto split: sum.splits)
    qed
  qed
qed

definition demo_pool_env :: pool_env where
  "demo_pool_env = \<lparr>e_node = 1, e_num_hosts = 2, e_has_chimod = (\<lambda>m. m = ''bdev''),
     e_new_container = (\<lambda>_ _ _ _. Inr (Some 7)), e_restart_flag = (\<lambda>_. Inr False), e_init_throws = (\<lambda>_. False),
     e_run_create = (\<lambda>c t s. (Inr t, s))\<rparr>"

definition demo_pm :: PoolManager where
  "demo_pm = \<lparr>is_initialized = True, pool_metadata = [], next_pool_minor = 5, objects = Map.empty\<rparr>"

definition demo_create :: CreateTask where
  "demo_create = \<lparr>ct_chimod_name = ''bdev'', ct_pool_name = ''p'', ct_chimod_params = [],
     ct_new_pool_id = \<lparr>id_major = 9, id_minor = 1\<rparr>, ct_do_compose = False, ct_return_code = 0\<rparr>"

lemma demo_pool_env_adds: "create_only_adds demo_pool_env"
  by (simp add: create_only_adds_def demo_pool_env_def keeps_pools_def)

lemma demo_pm_inv: "pm_inv demo_pm" "is_initialized demo_pm"
  by (simp_all add: pm_inv_def demo_pm_def)

theorem create_pool_correct_witness:
  "pm_inv demo_pm \<and> is_initialized demo_pm \<and> create_only_adds demo_pool_env \<and>
   (\<exists>t' s'. CreatePool demo_pool_env demo_create demo_pm = (t', s') \<and> pm_inv s' \<and>
      FindPoolByName s' ''p'' = \<lparr>id_major = 9, id_minor = 1\<rparr> \<and>
      GetContainerNodeId s' \<lparr>id_major = 9, id_minor = 1\<rparr> 1 = 1)"
proof -
  obtain t' s' where r: "CreatePool demo_pool_env demo_create demo_pm = (t', s')" by (metis surj_pair)
  have c: "creatable demo_pool_env demo_create demo_pm"
    by (simp add: creatable_def demo_pool_env_def demo_create_def demo_pm_def ValidatePoolParams_def FindPoolByName_def
        UniqueId_IsNull_def UniqueId_GetNull_def HasPool_def)
  have m: "made demo_pool_env demo_create demo_pm = Some 7" by (simp add: made_def demo_pool_env_def demo_create_def)
  have e: "e_run_create demo_pool_env 7 demo_create x = (Inr demo_create, x)" "e_num_hosts demo_pool_env = 2" for x
    by (simp_all add: demo_pool_env_def)
  have t: "ct_new_pool_id demo_create = \<lparr>id_major = 9, id_minor = 1\<rparr>" "ct_pool_name demo_create = ''p''" "ct_return_code demo_create = 0"
    by (simp_all add: demo_create_def)
  show ?thesis
    using create_pool_correct [OF demo_pm_inv demo_pool_env_adds r] r demo_pm_inv demo_pool_env_adds c by (simp add: m e t)
qed

text \<open>
  A creation that is refused (an unknown module, an empty name) or whose container
  cannot be made is reported as a success: the handler sees return code 0, counts the
  pool as created, and the task names a pool that does not exist.
\<close>

theorem refused_creation_reported_as_success:
  assumes "is_initialized s" and "\<not> ValidatePoolParams e (ct_chimod_name t) (ct_pool_name t) s"
  shows "GetOrCreatePool e t a s = (t\<lparr>ct_return_code := 0\<rparr>, a\<lparr>pools_created := pools_created a + 1\<rparr>, s)"
  using assms by (simp add: GetOrCreatePool_def CreatePool_def)

end
