(* ===== verification/Scheduler.thy ===== *)
theory Scheduler
  imports Pool_Manager
begin

text \<open>
  The default scheduler (default\_sched.h, default\_sched.cc): how workers are divided
  into roles and which worker a task is sent to, by its group, its kind and the
  size of its I/O. A worker is named by its identifier. The statistics a module
  reports for a method (\<^verbatim>\<open>GetTaskStats\<close>) are a parameter.
\<close>

record Task =
  tk_pool_id :: PoolId
  tk_method :: u32
  tk_query :: PoolQuery
  tk_group :: "64 word"
  tk_periodic :: bool
  tk_routed :: bool
  tk_force_net :: bool
  tk_has_run_ctx :: bool

definition TaskGroup_IsNull :: "64 word \<Rightarrow> bool" where
  "TaskGroup_IsNull g \<longleftrightarrow> g = - 1"

record DefaultScheduler =
  scheduler_worker :: "u32 option"
  io_workers :: "u32 list"
  net_worker :: "u32 option"
  gpu_worker :: "u32 option"
  next_io_idx :: u32

definition kLargeIOThreshold :: u64 where
  "kLargeIOThreshold = 4096"

text \<open>\<^verbatim>\<open>WorkOrchestrator::GetWorker\<close>: the worker with that identifier, when there are that many.\<close>

definition GetWorker :: "u32 \<Rightarrow> u32 \<Rightarrow> u32 option" where
  "GetWorker n w = (if w < n then Some w else None)"

text \<open>\<^verbatim>\<open>DivideWorkers\<close> for \<open>n\<close> workers, with the number of scheduling queues it sets.\<close>

definition DivideWorkers :: "u32 \<Rightarrow> DefaultScheduler \<Rightarrow> u32 \<times> DefaultScheduler" where
  "DivideWorkers n d =
     (1, d\<lparr>scheduler_worker := GetWorker n 0,
           io_workers := (if 2 < n then List.map_filter (GetWorker n \<circ> of_nat) [1..<unat (n - 1)] else []),
           net_worker := GetWorker n (n - 1),
           gpu_worker := (if 2 < n then GetWorker n (n - 2) else None)\<rparr>)"

definition net_method :: "u32 \<Rightarrow> bool" where
  "net_method m \<longleftrightarrow> m = 14 \<or> m = 15 \<or> m = 20 \<or> m = 21"

definition ClientMapTask :: "u32 \<Rightarrow> Task option \<Rightarrow> u32" where
  "ClientMapTask num_lanes t =
     (if num_lanes = 0 then 0
      else case t of
          Some t \<Rightarrow> if tk_pool_id t = kAdminPoolId \<and> net_method (tk_method t) then num_lanes - 1 else 0
        | None \<Rightarrow> 0)"

text \<open>
  \<^verbatim>\<open>RuntimeMapTask\<close> in its three parts: the pinned worker of the task's group, read under
  the read lock; the choice of a worker; and the pinning, under the write lock.
\<close>

definition group_of :: "Task \<Rightarrow> cptr option \<Rightarrow> cptr option" where
  "group_of t c = (if \<not> TaskGroup_IsNull (tk_group t) then c else None)"

definition pinned :: "PoolManager \<Rightarrow> cptr \<Rightarrow> 64 word \<Rightarrow> u32 option" where
  "pinned s c g = (case objects s c of None \<Rightarrow> None | Some x \<Rightarrow> map_of (task_group_map x) g)"

definition is_net_task :: "DefaultScheduler \<Rightarrow> Task \<Rightarrow> bool" where
  "is_net_task d t \<longleftrightarrow>
     tk_periodic t \<and> tk_pool_id t = kAdminPoolId \<and> net_method (tk_method t) \<and> net_worker d \<noteq> None"

definition select_worker ::
  "(cptr \<Rightarrow> u32 \<Rightarrow> u64) \<Rightarrow> u32 option \<Rightarrow> Task \<Rightarrow> PoolManager \<Rightarrow> DefaultScheduler \<Rightarrow> u32 option \<times> DefaultScheduler" where
  "select_worker io_size worker t s d =
     (let size = (case fst (GetContainer s (tk_pool_id t) (container_id (tk_query t))) of
                    None \<Rightarrow> 0
                  | Some c \<Rightarrow> io_size c (tk_method t));
          large = (io_workers d \<noteq> [] \<and> kLargeIOThreshold \<le> size);
          sel = (if large then Some (io_workers d ! (unat (next_io_idx d) mod length (io_workers d))) else None);
          d = (if large then d\<lparr>next_io_idx := next_io_idx d + 1\<rparr> else d);
          sel = (if sel = None then scheduler_worker d else sel);
          sel = (if sel = None then worker else sel)
      in (sel, d))"

definition pin_group :: "cptr \<Rightarrow> 64 word \<Rightarrow> u32 \<Rightarrow> PoolManager \<Rightarrow> PoolManager" where
  "pin_group c g w s =
     (case objects s c of
        None \<Rightarrow> s
      | Some x \<Rightarrow>
          if map_of (task_group_map x) g = None
          then s\<lparr>objects := (objects s)(c \<mapsto> x\<lparr>task_group_map := AList.update g w (task_group_map x)\<rparr>)\<rparr>
          else s)"

definition RuntimeMapTask ::
  "(cptr \<Rightarrow> u32 \<Rightarrow> u64) \<Rightarrow> u32 option \<Rightarrow> Task \<Rightarrow> cptr option \<Rightarrow> PoolManager \<Rightarrow> DefaultScheduler \<Rightarrow> u32 \<times> PoolManager \<times> DefaultScheduler" where
  "RuntimeMapTask io_size worker t container s d =
     (let grp = group_of t container
      in case (case grp of None \<Rightarrow> None | Some c \<Rightarrow> pinned s c (tk_group t)) of
          Some w \<Rightarrow> (w, s, d)
        | None \<Rightarrow>
            if is_net_task d t then (the (net_worker d), s, d)
            else
              let (sel, d) = select_worker io_size worker t s d
              in case sel of
                  Some w \<Rightarrow> (w, (case grp of None \<Rightarrow> s | Some c \<Rightarrow> pin_group c (tk_group t) w s), d)
                | None \<Rightarrow> (0, s, d))"

section \<open>Roles and affinity\<close>

text \<open>With at least three workers the roles cover all workers and the network worker does no other work.\<close>

lemma DivideWorkers_roles:
  assumes "2 < n" and "DivideWorkers n d = (q, d')"
  shows "scheduler_worker d' = Some 0" and "net_worker d' = Some (n - 1)"
    and "set (io_workers d') = {w. 0 < w \<and> w < n - 1}"
proof -
  have n: "unat (n - 1) = unat n - 1" "unat n < 2 ^ 32" "2 < unat n"
    using assms(1) unsigned_less [of n, where 'a = nat] by (auto simp: unat_sub word_less_nat_alt word_le_nat_alt)
  have d': "d' = snd (DivideWorkers n d)" using assms(2) by simp
  show "scheduler_worker d' = Some 0" using n by (simp add: d' DivideWorkers_def GetWorker_def word_less_nat_alt)
  show "net_worker d' = Some (n - 1)" using n by (simp add: d' DivideWorkers_def GetWorker_def word_less_nat_alt)
  have "GetWorker n (of_nat i) = Some (of_nat i)" if "i \<in> set [1..<unat (n - 1)]" for i
    using that n by (auto simp: GetWorker_def word_less_nat_alt unat_of_nat take_bit_eq_mod)
  then have "List.map_filter (GetWorker n \<circ> of_nat) [1..<unat (n - 1)] = map of_nat [1..<unat (n - 1)]"
    by (simp add: List.map_filter_def cong: map_cong filter_cong)
  then have "set (io_workers d') = of_nat ` {1..<unat (n - 1)}" using assms(1) by (simp add: d' DivideWorkers_def)
  also have "\<dots> = {w. 0 < w \<and> w < n - 1}"
  proof (intro set_eqI iffI)
    fix w :: u32 assume "w \<in> of_nat ` {1..<unat (n - 1)}"
    then show "w \<in> {w. 0 < w \<and> w < n - 1}" using n by (auto simp: word_less_nat_alt unat_of_nat take_bit_eq_mod)
  next
    fix w :: u32 assume "w \<in> {w. 0 < w \<and> w < n - 1}"
    then have "unat w \<in> {1..<unat (n - 1)}" by (auto simp: word_less_nat_alt)
    then show "w \<in> of_nat ` {1..<unat (n - 1)}" by (intro image_eqI [of w of_nat "unat w"]) simp_all
  qed
  finally show "set (io_workers d') = {w. 0 < w \<and> w < n - 1}" .
qed

text \<open>A pin is never changed or removed by mapping tasks.\<close>

lemma pin_group_pinned:
  "pinned (pin_group c g w s) c' g' =
     (if c' = c \<and> g' = g \<and> objects s c \<noteq> None \<and> pinned s c g = None then Some w else pinned s c' g')"
  by (auto simp: pin_group_def pinned_def update_conv' split: option.splits if_splits)

lemma RuntimeMapTask_keeps_pins:
  assumes "RuntimeMapTask io w0 t c s d = (w, s', d')" and "pinned s c' g = Some x"
  shows "pinned s' c' g = Some x"
  using assms by (auto simp: RuntimeMapTask_def Let_def pin_group_pinned split: option.splits if_splits prod.splits)

lemma RuntimeMapTask_pins:
  assumes "RuntimeMapTask io w0 t (Some c) s d = (w, s', d')" and "\<not> TaskGroup_IsNull (tk_group t)" and "objects s c \<noteq> None"
    and "\<not> is_net_task d t" and "scheduler_worker d \<noteq> None"
  shows "pinned s' c (tk_group t) = Some w"
  using assms
  by (auto simp: RuntimeMapTask_def Let_def group_of_def pin_group_pinned select_worker_def split: option.splits if_splits prod.splits)

lemma RuntimeMapTask_pinned:
  assumes "pinned s c (tk_group t) = Some w" and "\<not> TaskGroup_IsNull (tk_group t)"
  shows "RuntimeMapTask io w0 t (Some c) s d = (w, s, d)"
  using assms by (simp add: RuntimeMapTask_def group_of_def)

text \<open>A sequence of mapping decisions.\<close>

fun map_tasks ::
  "(cptr \<Rightarrow> u32 \<Rightarrow> u64) \<Rightarrow> (u32 option \<times> Task \<times> cptr option) list \<Rightarrow> PoolManager \<Rightarrow> DefaultScheduler \<Rightarrow> PoolManager \<times> DefaultScheduler" where
  "map_tasks io [] s d = (s, d)"
| "map_tasks io ((w0, t, c) # ts) s d = (let (_, s, d) = RuntimeMapTask io w0 t c s d in map_tasks io ts s d)"

lemma map_tasks_keeps_pins:
  "map_tasks io ts s d = (s', d') \<Longrightarrow> pinned s c g = Some x \<Longrightarrow> pinned s' c g = Some x"
  by (induction io ts s d rule: map_tasks.induct) (auto dest: RuntimeMapTask_keeps_pins split: prod.splits)


definition demo_sched :: DefaultScheduler where
  "demo_sched = \<lparr>scheduler_worker = Some 0, io_workers = [1, 2], net_worker = Some 3, gpu_worker = Some 2, next_io_idx = 0\<rparr>"

definition demo_grouped :: Task where
  "demo_grouped = \<lparr>tk_pool_id = \<lparr>id_major = 9, id_minor = 1\<rparr>, tk_method = 5, tk_query = PoolQuery_Local, tk_group = 3,
     tk_periodic = False, tk_routed = False, tk_force_net = False, tk_has_run_ctx = True\<rparr>"

definition demo_grouped_pm :: PoolManager where
  "demo_grouped_pm = container_Init 7 \<lparr>id_major = 9, id_minor = 1\<rparr> ''p'' 1 demo_pm"


text \<open>
  The affinity holds for mappings that do not overlap. When two workers map the
  first tasks of a group at the same time, both read the group as free before
  either pins it, both choose, and the loser keeps its own choice: the group is
  pinned to one worker and runs on two.
\<close>

theorem group_affinity_race:
  assumes "pinned s c g = None" and "objects s c \<noteq> None" and "w1 \<noteq> w2"
  shows "pinned (pin_group c g w2 (pin_group c g w1 s)) c g = Some w1"
  using assms by (simp add: pin_group_pinned)

end
