(* ===== verification/Routing.thy ===== *)
theory Routing
  imports Scheduler
begin

text \<open>
  Task routing (ipc\_manager.cc): the resolution of a pool query into the queries
  that are sent (\<^verbatim>\<open>ResolvePoolQuery\<close> and its cases), the local decision
  (\<^verbatim>\<open>IsTaskLocal\<close>, \<^verbatim>\<open>RouteLocal\<close>) and \<^verbatim>\<open>RouteTask\<close>; the node a resolved query is sent to
  (\<^verbatim>\<open>SendIn\<close> of admin\_runtime.cc), and the deliveries in a cluster that follow
  from a query, hop by hop.

  \<open>None\<close> is the trap of a division by zero. A module's \<^verbatim>\<open>ScheduleTask\<close> is a parameter.
\<close>

record route_env =
  r_node :: u64
  r_num_hosts :: nat
  r_neighborhood :: u32
  r_worker :: "u32 option"
  r_schedule :: "cptr \<Rightarrow> Task \<Rightarrow> PoolQuery"
  r_io_size :: "cptr \<Rightarrow> u32 \<Rightarrow> u64"

section \<open>Resolving queries\<close>

definition ResolveLocalQuery :: "PoolQuery \<Rightarrow> PoolQuery list" where
  "ResolveLocalQuery q = [q]"

definition ResolveDirectIdQuery :: "PoolManager \<Rightarrow> PoolQuery \<Rightarrow> PoolId \<Rightarrow> PoolQuery list" where
  "ResolveDirectIdQuery s q p =
     (let cid = container_id q
      in if HasContainer s p cid then [PoolQuery_Local]
         else [PoolQuery_Physical (GetContainerNodeId s p cid) neg_one_f])"

definition ResolveDirectHashQuery :: "route_env \<Rightarrow> PoolManager \<Rightarrow> PoolQuery \<Rightarrow> PoolId \<Rightarrow> PoolQuery list" where
  "ResolveDirectHashQuery e s q p =
     (case GetPoolInfo s p of
        None \<Rightarrow> [q]
      | Some i \<Rightarrow>
          if num_containers i = 0 then [q]
          else
            let cid = hash_value q mod num_containers i
            in if HasContainer s p cid then [PoolQuery_Local]
               else if ucast (GetContainerNodeId s p cid) = r_node e then [PoolQuery_Local]
               else [PoolQuery_DirectId cid neg_one_f])"

text \<open>The loop of \<^verbatim>\<open>ResolveRangeQuery\<close>: query \<open>i\<close> of \<open>n\<close>, starting at container \<open>cur\<close>.\<close>

function range_loop :: "u32 \<Rightarrow> u32 \<Rightarrow> u32 \<Rightarrow> u32 \<Rightarrow> u32 \<Rightarrow> PoolQuery list" where
  "range_loop i n per rest cur =
     (if i < n
      then let cnt = (if i < rest then per + 1 else per)
           in if 0 < cnt then PoolQuery_Range cur cnt neg_one_f # range_loop (i + 1) n per rest (cur + cnt)
              else range_loop (i + 1) n per rest cur
      else [])"
  by pat_completeness auto

lemma word_less_plus_one: "(i :: 'a::len word) < n \<Longrightarrow> unat (i + 1) = Suc (unat i)"
  by (rule unat_plus_one) (use word_order.extremum_strict in blast)

termination range_loop
  by (relation "measure (\<lambda>(i, n, _). unat n - unat i)") (auto simp: word_less_plus_one word_less_nat_alt)

declare range_loop.simps [simp del]

definition ResolveRangeQuery :: "route_env \<Rightarrow> PoolManager \<Rightarrow> PoolQuery \<Rightarrow> PoolId \<Rightarrow> PoolQuery list option" where
  "ResolveRangeQuery e s q p =
     (let off = range_offset q; cnt = range_count q
      in if cnt = 0 then Some []
         else if cnt = 1 then
           (if HasContainer s p off then Some [PoolQuery_Local]
            else if ucast (GetContainerNodeId s p off) = r_node e then Some [PoolQuery_Local]
            else Some [PoolQuery_DirectId off neg_one_f])
         else if r_neighborhood e = 0 then None
         else
           let nb = r_neighborhood e;
               ideal = (cnt + nb - 1) div nb;
               n = min ideal nb;
               n = (if n \<le> 1 then cnt else n)
           in Some (range_loop 0 n (cnt div n) (cnt mod n) off))"

definition ResolveBroadcastQuery :: "route_env \<Rightarrow> PoolManager \<Rightarrow> PoolQuery \<Rightarrow> PoolId \<Rightarrow> PoolQuery list option" where
  "ResolveBroadcastQuery e s q p =
     (case GetPoolInfo s p of
        None \<Rightarrow> Some [q]
      | Some i \<Rightarrow>
          if num_containers i = 0 then Some [q]
          else ResolveRangeQuery e s (PoolQuery_Range 0 (num_containers i) neg_one_f) p)"

definition ResolvePhysicalQuery :: "PoolQuery \<Rightarrow> PoolQuery list" where
  "ResolvePhysicalQuery q = [q]"

definition ResolvePoolQuery :: "route_env \<Rightarrow> PoolManager \<Rightarrow> PoolQuery \<Rightarrow> PoolId \<Rightarrow> PoolQuery list option" where
  "ResolvePoolQuery e s q p =
     (if UniqueId_IsNull p then Some []
      else map_option (map (SetReturnNode (ucast (r_node e))))
        (case routing_mode q of
           Local \<Rightarrow> Some (ResolveLocalQuery q)
         | Dynamic \<Rightarrow> Some (ResolveLocalQuery q)
         | DirectId \<Rightarrow> Some (ResolveDirectIdQuery s q p)
         | DirectHash \<Rightarrow> Some (ResolveDirectHashQuery e s q p)
         | Range_mode \<Rightarrow> ResolveRangeQuery e s q p
         | Broadcast \<Rightarrow> ResolveBroadcastQuery e s q p
         | Physical \<Rightarrow> Some (ResolvePhysicalQuery q)))"

section \<open>Routing a task\<close>

definition IsTaskLocal :: "route_env \<Rightarrow> Task \<Rightarrow> PoolQuery list \<Rightarrow> bool" where
  "IsTaskLocal e t qs =
     (if tk_force_net t then False
      else if r_num_hosts e = 1 then True
      else if length qs \<noteq> 1 then False
      else (case routing_mode (qs ! 0) of
              Local \<Rightarrow> True
            | Dynamic \<Rightarrow> True
            | Physical \<Rightarrow> ucast (query_node_id (qs ! 0)) = r_node e
            | _ \<Rightarrow> False))"

text \<open>
  What becomes of a task: nothing to do, no query resolved, run by the calling worker,
  put into the lane of a worker, put into the retry queue, forgotten (there is no
  retry queue to put it in), or handed to the network with the resolved queries.
\<close>

datatype route_result =
    AlreadyRouted
  | Unresolved
  | RunHere cptr
  | QueueTo u32 cptr
  | RetryLater
  | Forgotten
  | SendGlobal "PoolQuery list"

type_synonym route_state = "PoolManager \<times> DefaultScheduler"

definition RouteLocal :: "route_env \<Rightarrow> bool \<Rightarrow> Task \<Rightarrow> route_state \<Rightarrow> route_result \<times> Task \<times> route_state" where
  "RouteLocal e force_enqueue t sd =
     (let (s, d) = sd;
          t = t\<lparr>tk_routed := True\<rparr>;
          (c, is_plugged) = GetContainer s (tk_pool_id t) (container_id (tk_query t))
      in case c of
          None \<Rightarrow> (if tk_has_run_ctx t \<and> r_worker e \<noteq> None then RetryLater else Forgotten, t, s, d)
        | Some x \<Rightarrow>
            if is_plugged then (if tk_has_run_ctx t \<and> r_worker e \<noteq> None then RetryLater else Forgotten, t, s, d)
            else
              let (dest, s, d) = RuntimeMapTask (r_io_size e) (r_worker e) t c s d
              in if \<not> force_enqueue \<and> r_worker e = Some dest then (RunHere x, t, s, d)
                 else (QueueTo dest x, t, s, d))"

definition RouteGlobal :: "PoolQuery list \<Rightarrow> Task \<Rightarrow> route_result \<times> Task" where
  "RouteGlobal qs t = (SendGlobal qs, t\<lparr>tk_routed := True\<rparr>)"

definition RouteTask :: "route_env \<Rightarrow> bool \<Rightarrow> Task \<Rightarrow> route_state \<Rightarrow> (route_result \<times> Task \<times> route_state) option" where
  "RouteTask e force_enqueue t sd =
     (if tk_routed t then Some (AlreadyRouted, t, sd)
      else
        let s = fst sd;
            t = (case GetStaticContainer s (tk_pool_id t) of
                   Some c \<Rightarrow> if routing_mode (tk_query t) = Dynamic then t\<lparr>tk_query := r_schedule e c t\<rparr> else t
                 | None \<Rightarrow> t)
        in case ResolvePoolQuery e s (tk_query t) (tk_pool_id t) of
            None \<Rightarrow> None
          | Some [] \<Rightarrow> Some (Unresolved, t, sd)
          | Some qs \<Rightarrow>
              if IsTaskLocal e t qs then Some (RouteLocal e force_enqueue t sd)
              else (case RouteGlobal qs t of (r, t) \<Rightarrow> Some (r, t, sd)))"

text \<open>The node \<^verbatim>\<open>SendIn\<close> sends a replica with this query to; \<open>None\<close> when it refuses the query.\<close>

definition send_target :: "route_env \<Rightarrow> PoolManager \<Rightarrow> PoolId \<Rightarrow> PoolQuery \<Rightarrow> u64 option" where
  "send_target e s p q =
     (case routing_mode q of
        Local \<Rightarrow> Some (r_node e)
      | Physical \<Rightarrow> Some (ucast (query_node_id q))
      | DirectId \<Rightarrow> Some (ucast (GetContainerNodeId s p (container_id q)))
      | Range_mode \<Rightarrow> Some (ucast (GetContainerNodeId s p (range_offset q)))
      | Broadcast \<Rightarrow> None
      | DirectHash \<Rightarrow> None
      | Dynamic \<Rightarrow> None)"

section \<open>Splitting a range\<close>

text \<open>A range of containers cut into consecutive pieces.\<close>

fun tiles :: "u32 \<Rightarrow> (u32 \<times> u32) list \<Rightarrow> bool" where
  "tiles cur [] = True"
| "tiles cur ((off, cnt) # ps) \<longleftrightarrow> off = cur \<and> 0 < cnt \<and> tiles (cur + cnt) ps"

definition range_ids :: "u32 \<Rightarrow> u32 \<Rightarrow> u32 list" where
  "range_ids off cnt = map (\<lambda>i. off + of_nat i) [0..<unat cnt]"

definition range_queries :: "(u32 \<times> u32) list \<Rightarrow> PoolQuery list" where
  "range_queries ps = map (\<lambda>(off, cnt). PoolQuery_Range off cnt neg_one_f) ps"

lemma range_ids_split:
  assumes "unat a + unat b < 2 ^ 32"
  shows "range_ids off (a + b) = range_ids off a @ range_ids (off + a) b"
proof -
  have u: "unat (a + b) = unat a + unat b" using assms by (simp add: unat_add_no_overflow)
  have "[unat a..<unat a + unat b] = map (\<lambda>i. i + unat a) [0..<unat b]" by (simp add: map_add_upt add.commute)
  moreover have "[0..<unat a + unat b] = [0..<unat a] @ [unat a..<unat a + unat b]" by (rule upt_add_eq_append) simp
  ultimately show ?thesis by (simp add: range_ids_def u comp_def algebra_simps)
qed

lemma tiles_ids:
  assumes "tiles off ps" and "sum_list (map (unat \<circ> snd) ps) = unat cnt"
  shows "concat (map (\<lambda>(off, cnt). range_ids off cnt) ps) = range_ids off cnt"
  using assms
proof (induction ps arbitrary: off cnt)
  case Nil
  then show ?case by (simp add: range_ids_def)
next
  case (Cons x ps)
  obtain a where x: "x = (off, a)" "0 < a" "tiles (off + a) ps" using Cons.prems(1) by (cases x) auto
  have le: "unat a \<le> unat cnt" using Cons.prems(2) x(1) by simp
  have u: "unat (cnt - a) = unat cnt - unat a" using le by (simp add: unat_sub word_le_nat_alt)
  have "concat (map (\<lambda>(off, cnt). range_ids off cnt) ps) = range_ids (off + a) (cnt - a)"
    by (rule Cons.IH [OF x(3)]) (use Cons.prems(2) x(1) u in simp)
  moreover have "range_ids off (a + (cnt - a)) = range_ids off a @ range_ids (off + a) (cnt - a)"
    by (rule range_ids_split) (use u le unsigned_less [of cnt, where 'a = nat] in simp)
  ultimately show ?case using x(1) by simp
qed

text \<open>The loop cuts \<open>per\<close> (or \<open>per + 1\<close>, the first \<open>rest\<close> times) containers off, \<open>n\<close> times.\<close>

lemma range_loop_tiles:
  assumes "per \<noteq> 0" and "rest \<le> n" and "unat n * unat per + unat rest < 2 ^ 32" and "i \<le> n"
  shows "\<exists>ps. range_loop i n per rest cur = range_queries ps \<and> tiles cur ps \<and>
    sum_list (map (unat \<circ> snd) ps) = (unat n - unat i) * unat per + (unat rest - unat i) \<and>
    length ps = unat n - unat i"
  using assms(4)
proof (induction "unat n - unat i" arbitrary: i cur)
  case 0
  then have "\<not> i < n" by (simp add: word_less_nat_alt)
  moreover have "unat rest \<le> unat i" using 0 assms(2) by (simp add: word_le_nat_alt)
  ultimately show ?case using 0 by (intro exI [of _ "[]"]) (simp add: range_loop.simps range_queries_def)
next
  case (Suc k)
  then have "i < n" by (simp add: word_less_nat_alt)
  then have i: "i < n" "unat (i + 1) = Suc (unat i)" by (simp_all add: word_less_plus_one)
  define cnt where "cnt = (if i < rest then per + 1 else per)"
  have "unat per + 1 < 2 ^ 32" if "i < rest"
  proof -
    have "0 < unat n" "0 < unat rest" using i that by (auto simp: word_less_nat_alt)
    then have "unat per \<le> unat n * unat per" by (cases "unat n") auto
    then show ?thesis using assms(3) \<open>0 < unat rest\<close> by linarith
  qed
  then have cnt: "unat cnt = unat per + (if i < rest then 1 else 0)"
    by (simp add: cnt_def unat_add_no_overflow)
  then have pos: "0 < cnt" using assms(1) by (simp add: word_less_nat_alt unat_gt_0)
  have "k = unat n - unat (i + 1)" "i + 1 \<le> n" using Suc.hyps(2) i by (auto simp: word_le_nat_alt word_less_nat_alt)
  from Suc.hyps(1) [OF this, of "cur + cnt"] obtain ps where ps:
    "range_loop (i + 1) n per rest (cur + cnt) = range_queries ps" "tiles (cur + cnt) ps"
    "sum_list (map (unat \<circ> snd) ps) = (unat n - unat (i + 1)) * unat per + (unat rest - unat (i + 1))"
    "length ps = unat n - unat (i + 1)" by blast
  have "unat n - unat i = Suc (unat n - unat (i + 1))" using i by (simp add: word_less_nat_alt)
  then have "sum_list (map (unat \<circ> snd) ((cur, cnt) # ps)) = (unat n - unat i) * unat per + (unat rest - unat i)"
    using ps(3) cnt i by (auto simp: word_less_nat_alt)
  moreover have "range_loop i n per rest cur = range_queries ((cur, cnt) # ps)"
    using i(1) pos ps(1) by (subst range_loop.simps) (simp add: cnt_def [symmetric] range_queries_def Let_def)
  ultimately show ?case using ps(2,4) pos i by (intro exI [of _ "(cur, cnt) # ps"]) (simp add: word_less_nat_alt)
qed

lemma number_of_queries:
  fixes cnt nb :: u32
  defines "n \<equiv> min ((cnt + nb - 1) div nb) nb"
  assumes "2 \<le> cnt" and "nb \<noteq> 0"
  shows "2 \<le> (if n \<le> 1 then cnt else n)" and "(if n \<le> 1 then cnt else n) \<le> cnt"
proof -
  have "unat ((cnt + nb - 1) div nb) \<le> unat cnt"
  proof -
    have "unat (cnt + nb - 1) \<le> unat cnt + (unat nb - 1)"
    proof -
      have "cnt + nb - 1 = cnt + (nb - 1)" by simp
      moreover have "unat (cnt + (nb - 1)) \<le> unat cnt + unat (nb - 1)" by (simp add: unat_word_ariths)
      moreover have "unat (nb - 1) = unat nb - 1" using assms(3) by (simp add: unat_sub word_le_nat_alt unat_gt_0 Suc_leI)
      ultimately show ?thesis by (metis One_nat_def)
    qed
    moreover have "1 \<le> unat cnt" "1 \<le> unat nb" using assms(2,3) by (auto simp: word_le_nat_alt unat_gt_0 Suc_leI)
    then obtain c m where "unat cnt = Suc c" "unat nb = Suc m" by (metis Suc_le_D One_nat_def)
    then have "unat cnt + (unat nb - 1) \<le> unat cnt * unat nb" by simp
    ultimately have "unat (cnt + nb - 1) \<le> unat cnt * unat nb" by simp
    then have "unat (cnt + nb - 1) div unat nb \<le> unat cnt * unat nb div unat nb" by (rule div_le_mono)
    then show ?thesis using \<open>1 \<le> unat nb\<close> by (simp add: unat_div)
  qed
  then have "n \<le> cnt" by (simp add: n_def word_le_nat_alt min_def)
  then show "(if n \<le> 1 then cnt else n) \<le> cnt" by simp
  show "2 \<le> (if n \<le> 1 then cnt else n)" using assms(2) by (auto simp: word_le_nat_alt)
qed

lemma ResolveRangeQuery_tiles:
  assumes "2 \<le> range_count q" and "r_neighborhood e \<noteq> 0"
  shows "\<exists>ps. ResolveRangeQuery e s q p = Some (range_queries ps) \<and> tiles (range_offset q) ps \<and>
    sum_list (map (unat \<circ> snd) ps) = unat (range_count q) \<and> 2 \<le> length ps"
proof -
  let ?cnt = "range_count q" and ?nb = "r_neighborhood e"
  define n where "n = (if min ((?cnt + ?nb - 1) div ?nb) ?nb \<le> 1 then ?cnt else min ((?cnt + ?nb - 1) div ?nb) ?nb)"
  have n: "2 \<le> n" "n \<le> ?cnt" unfolding n_def by (rule number_of_queries [OF assms])+
  have un: "2 \<le> unat n" "unat n \<le> unat ?cnt" using n by (simp_all add: word_le_nat_alt)
  have div_mod: "unat n * unat (?cnt div n) + unat (?cnt mod n) = unat ?cnt" by (simp add: unat_div unat_mod)
  have per: "?cnt div n \<noteq> 0" using un by (auto simp: unat_eq_0 [symmetric] unat_div div_greater_zero_iff)
  have rest: "?cnt mod n \<le> n" using un by (simp add: word_le_nat_alt unat_mod)
  obtain ps where "range_loop 0 n (?cnt div n) (?cnt mod n) (range_offset q) = range_queries ps" "tiles (range_offset q) ps"
    "sum_list (map (unat \<circ> snd) ps) = unat ?cnt" "length ps = unat n"
    using range_loop_tiles [OF per rest, of 0 "range_offset q"] div_mod unsigned_less [of ?cnt, where 'a = nat] by auto
  moreover have "?cnt \<noteq> 0" "?cnt \<noteq> 1" using assms(1) by (auto simp: word_le_nat_alt)
  ultimately show ?thesis using un(1) assms(2) by (auto simp: ResolveRangeQuery_def Let_def n_def)
qed

lemma tiles_smaller:
  assumes "tiles off ps" and "2 \<le> length ps" and "(a, b) \<in> set ps"
  shows "unat b < sum_list (map (unat \<circ> snd) ps)"
proof -
  have pos: "0 < unat (snd x)" if "tiles off ps" "x \<in> set ps" for off ps and x :: "u32 \<times> u32"
    using that by (induction off ps rule: tiles.induct) (auto simp: word_less_nat_alt)
  obtain xs ys where ps: "ps = xs @ (a, b) # ys" using assms(3) by (meson split_list)
  then have "xs \<noteq> [] \<or> ys \<noteq> []" using assms(2) by auto
  then obtain y where y: "y \<in> set (xs @ ys)" by (metis append_is_Nil_conv hd_in_set)
  then have "unat (snd y) \<le> sum_list (map (unat \<circ> snd) (xs @ ys))" by (intro member_le_sum_list) auto
  moreover have "0 < unat (snd y)" using pos [OF assms(1)] y ps by auto
  moreover have "sum_list (map (unat \<circ> snd) ps) = unat b + sum_list (map (unat \<circ> snd) (xs @ ys))" by (simp add: ps)
  ultimately show ?thesis by linarith
qed

section \<open>Deliveries in a cluster\<close>

text \<open>
  The nodes of a cluster with their pool tables. A node that receives a task with
  query \<open>q\<close> routes it with \<^verbatim>\<open>RouteTask\<close>: it runs it on the container \<^verbatim>\<open>RouteLocal\<close> finds, or
  sends one copy per resolved query to the node \<^verbatim>\<open>SendIn\<close> names, which routes it again
  with that query. A received task has no network flag.
\<close>

record cluster_env =
  cl_nodes :: "u32 list"
  cl_state :: "u32 \<Rightarrow> PoolManager"
  cl_neighborhood :: u32

definition node_env :: "cluster_env \<Rightarrow> u32 \<Rightarrow> route_env" where
  "node_env E n = \<lparr>r_node = ucast n, r_num_hosts = length (cl_nodes E), r_neighborhood = cl_neighborhood E,
     r_worker = None, r_schedule = (\<lambda>_ t. tk_query t), r_io_size = (\<lambda>_ _. 0)\<rparr>"

definition received :: "PoolId \<Rightarrow> PoolQuery \<Rightarrow> Task" where
  "received p q = \<lparr>tk_pool_id = p, tk_method = 0, tk_query = q, tk_group = - 1, tk_periodic = False, tk_routed = False,
     tk_force_net = False, tk_has_run_ctx = True\<rparr>"

definition runs_at :: "cluster_env \<Rightarrow> u32 \<Rightarrow> PoolId \<Rightarrow> PoolQuery \<Rightarrow> (u32 \<times> cptr) list" where
  "runs_at E n p q =
     (case GetContainer (cl_state E n) p (container_id q) of
        (Some c, False) \<Rightarrow> [(n, c)]
      | _ \<Rightarrow> [])"

definition hop_target :: "cluster_env \<Rightarrow> u32 \<Rightarrow> PoolId \<Rightarrow> PoolQuery \<Rightarrow> u32 option" where
  "hop_target E n p q =
     (case send_target (node_env E n) (cl_state E n) p q of
        None \<Rightarrow> None
      | Some m \<Rightarrow> find (\<lambda>k. ucast k = m) (cl_nodes E))"

definition hops :: "cluster_env \<Rightarrow> u32 \<Rightarrow> PoolId \<Rightarrow> PoolQuery \<Rightarrow> PoolQuery list option" where
  "hops E n p q =
     (case ResolvePoolQuery (node_env E n) (cl_state E n) q p of
        None \<Rightarrow> None
      | Some qs \<Rightarrow> if IsTaskLocal (node_env E n) (received p q) qs then None else Some qs)"

definition runs_here :: "cluster_env \<Rightarrow> u32 \<Rightarrow> PoolId \<Rightarrow> PoolQuery \<Rightarrow> bool" where
  "runs_here E n p q =
     (case ResolvePoolQuery (node_env E n) (cl_state E n) q p of
        None \<Rightarrow> False
      | Some qs \<Rightarrow> qs \<noteq> [] \<and> IsTaskLocal (node_env E n) (received p q) qs)"

fun query_rank :: "u32 \<Rightarrow> PoolQuery \<Rightarrow> nat" where
  "query_rank n q =
     (case routing_mode q of
        Local \<Rightarrow> 0
      | Dynamic \<Rightarrow> 0
      | Physical \<Rightarrow> if query_node_id q = n then 0 else 1
      | DirectId \<Rightarrow> 2
      | DirectHash \<Rightarrow> 3
      | Range_mode \<Rightarrow> 3 + unat (range_count q)
      | Broadcast \<Rightarrow> 3 + 2 ^ 32)"

declare query_rank.simps [simp del]

lemma ucast_node [simp]: "(ucast a :: u64) = ucast b \<longleftrightarrow> a = (b :: u32)"
proof
  assume "(ucast a :: u64) = ucast b"
  then have "unat (ucast a :: u64) = unat (ucast b :: u64)" by simp
  moreover have "unat (ucast x :: u64) = unat x" for x :: u32
    using unsigned_less [of x, where 'a = nat] by (simp add: unsigned_ucast_eq take_bit_nat_eq_self)
  ultimately show "a = b" by (simp add: word_unat_eq_iff)
qed simp

lemma query_fields [simp]:
  "routing_mode (SetReturnNode r q) = routing_mode q" "container_id (SetReturnNode r q) = container_id q"
  "range_offset (SetReturnNode r q) = range_offset q" "range_count (SetReturnNode r q) = range_count q"
  "query_node_id (SetReturnNode r q) = query_node_id q" "hash_value (SetReturnNode r q) = hash_value q"
  "routing_mode PoolQuery_Local = Local"
  "routing_mode (PoolQuery_Physical x t) = Physical" "query_node_id (PoolQuery_Physical x t) = x"
  "routing_mode (PoolQuery_DirectId c t) = DirectId" "container_id (PoolQuery_DirectId c t) = c"
  "routing_mode (PoolQuery_DirectHash h t) = DirectHash" "hash_value (PoolQuery_DirectHash h t) = h"
  "container_id (PoolQuery_DirectHash h t) = 0"
  "routing_mode (PoolQuery_Range a b t) = Range_mode" "range_offset (PoolQuery_Range a b t) = a"
  "range_count (PoolQuery_Range a b t) = b" "container_id (PoolQuery_Range a b t) = 0"
  "routing_mode (PoolQuery_Broadcast t) = Broadcast" "container_id (PoolQuery_Broadcast t) = 0"
  by (simp_all add: SetReturnNode_def PoolQuery_Local_def PoolQuery_Physical_def PoolQuery_DirectId_def PoolQuery_DirectHash_def
      PoolQuery_Range_def PoolQuery_Broadcast_def PoolQuery_default_def)

lemma received_fields [simp]:
  "tk_force_net (received p q) = False" "tk_query (received p q) = q" "tk_pool_id (received p q) = p"
  "tk_routed (received p q) = False" "tk_has_run_ctx (received p q) = True"
  by (simp_all add: received_def)

lemma IsTaskLocal_received: "IsTaskLocal e (received p q) qs = IsTaskLocal e (received p q') qs"
  by (simp add: IsTaskLocal_def)

lemma node_env_fields [simp]:
  "r_node (node_env E n) = ucast n" "r_num_hosts (node_env E n) = length (cl_nodes E)"
  "r_neighborhood (node_env E n) = cl_neighborhood E" "r_worker (node_env E n) = None"
  by (simp_all add: node_env_def)

text \<open>Every hop makes the query simpler, whatever the tables of the nodes say.\<close>

lemma u32_small_cases: "(w :: u32) = 0 \<or> w = 1 \<or> 2 \<le> w"
proof -
  have "unat w = unat (0 :: u32) \<or> unat w = unat (1 :: u32) \<or> unat (2 :: u32) \<le> unat w" by simp linarith
  then show ?thesis by (simp only: word_unat_eq_iff word_le_nat_alt)
qed

lemma range_hop_rank:
  assumes "ResolveRangeQuery e s q p = Some qs" and "q' \<in> set qs" and "qs = [q'] \<Longrightarrow> routing_mode q' \<noteq> Local"
  shows "query_rank m (SetReturnNode r q') < 3 + unat (range_count q)"
proof -
  consider "range_count q = 0" | "range_count q = 1" | "2 \<le> range_count q" "r_neighborhood e = 0" | "2 \<le> range_count q" "r_neighborhood e \<noteq> 0"
    using u32_small_cases [of "range_count q"] by blast
  then show ?thesis
  proof cases
    case 3
    then have "range_count q \<noteq> 0" "range_count q \<noteq> 1" by (auto simp: word_le_nat_alt)
    then show ?thesis using 3 assms(1) by (simp add: ResolveRangeQuery_def Let_def)
  next
    case 4
    obtain ps where ps: "qs = range_queries ps" "tiles (range_offset q) ps"
      "sum_list (map (unat \<circ> snd) ps) = unat (range_count q)" "2 \<le> length ps"
      using ResolveRangeQuery_tiles [OF 4, of s p] assms(1) by auto
    obtain a b where ab: "(a, b) \<in> set ps" "q' = PoolQuery_Range a b neg_one_f" using assms(2) ps(1) by (auto simp: range_queries_def)
    then show ?thesis using tiles_smaller [OF ps(2,4) ab(1)] ps(3) by (simp add: query_rank.simps)
  qed (use assms in \<open>auto simp: ResolveRangeQuery_def Let_def query_rank.simps split: if_splits\<close>)
qed

lemma hops_decrease:
  assumes h: "hops E n p q = Some qs" and "q' \<in> set qs" and m: "hop_target E n p q' = Some m"
  shows "query_rank m q' < query_rank n q"
proof -
  let ?e = "node_env E n" and ?s = "cl_state E n"
  have rs: "ResolvePoolQuery ?e ?s q p = Some qs" "\<not> IsTaskLocal ?e (received p q) qs"
    using h by (auto simp: hops_def split: option.splits if_splits)
  have p: "\<not> UniqueId_IsNull p" using rs(1) assms(2) by (auto simp: ResolvePoolQuery_def)
  have hosts: "length (cl_nodes E) \<noteq> 1" using rs(2) by (auto simp: IsTaskLocal_def)
  have nl: "routing_mode q' \<noteq> Local" if "qs = [q']" using rs(2) hosts that by (auto simp: IsTaskLocal_def)
  show ?thesis
  proof (cases "routing_mode q")
    case Local
    then show ?thesis using rs p hosts by (auto simp: ResolvePoolQuery_def ResolveLocalQuery_def IsTaskLocal_def)
  next
    case Dynamic
    then show ?thesis using rs p hosts by (auto simp: ResolvePoolQuery_def ResolveLocalQuery_def IsTaskLocal_def)
  next
    case Physical
    then have "qs = [SetReturnNode (ucast (r_node ?e)) q]" using rs(1) p by (simp add: ResolvePoolQuery_def ResolvePhysicalQuery_def)
    then show ?thesis using Physical rs(2) hosts m assms(2)
      by (auto simp: IsTaskLocal_def query_rank.simps hop_target_def send_target_def find_Some_iff)
  next
    case DirectId
    then show ?thesis using rs p hosts assms(2)
      by (auto simp: ResolvePoolQuery_def ResolveDirectIdQuery_def IsTaskLocal_def query_rank.simps Let_def split: if_splits)
  next
    case DirectHash
    then show ?thesis using rs p hosts assms(2) m
      by (auto simp: ResolvePoolQuery_def ResolveDirectHashQuery_def IsTaskLocal_def query_rank.simps Let_def hop_target_def
          send_target_def split: if_splits option.splits)
  next
    case Range_mode
    then obtain r0 where r0: "ResolveRangeQuery ?e ?s q p = Some r0" "qs = map (SetReturnNode (ucast (r_node ?e))) r0"
      using rs(1) p by (auto simp: ResolvePoolQuery_def)
    then obtain x where x: "x \<in> set r0" "q' = SetReturnNode (ucast (r_node ?e)) x" using assms(2) by auto
    have "query_rank m q' < 3 + unat (range_count q)"
      unfolding x(2) by (rule range_hop_rank [OF r0(1) x(1)]) (use nl r0(2) x(2) in auto)
    then show ?thesis using Range_mode by (simp add: query_rank.simps)
  next
    case Broadcast
    then have "ResolveBroadcastQuery ?e ?s q p \<noteq> Some [q] \<or> q' = SetReturnNode (ucast (r_node ?e)) q"
      using rs(1) p assms(2) by (auto simp: ResolvePoolQuery_def)
    moreover have "q' \<noteq> SetReturnNode (ucast (r_node ?e)) q"
      using Broadcast m by (auto simp: hop_target_def send_target_def)
    moreover obtain r0 where b: "ResolveBroadcastQuery ?e ?s q p = Some r0" "qs = map (SetReturnNode (ucast (r_node ?e))) r0"
      using rs(1) p Broadcast by (auto simp: ResolvePoolQuery_def)
    ultimately obtain i :: PoolInfo where r0: "ResolveRangeQuery ?e ?s (PoolQuery_Range 0 (num_containers i) neg_one_f) p = Some r0"
      "qs = map (SetReturnNode (ucast (r_node ?e))) r0"
      by (auto simp: ResolveBroadcastQuery_def split: option.splits if_splits)
    then obtain x where x: "x \<in> set r0" "q' = SetReturnNode (ucast (r_node ?e)) x" using assms(2) by auto
    have "query_rank m q' < 3 + unat (range_count (PoolQuery_Range 0 (num_containers i) neg_one_f))"
      unfolding x(2) by (rule range_hop_rank [OF r0(1) x(1)]) (use nl r0(2) x(2) in auto)
    then show ?thesis using Broadcast unsigned_less [of "num_containers i", where 'a = nat] by (simp add: query_rank.simps)
  qed
qed

function deliver :: "cluster_env \<Rightarrow> u32 \<Rightarrow> PoolId \<Rightarrow> PoolQuery \<Rightarrow> (u32 \<times> cptr) list" where
  "deliver E n p q =
     (if runs_here E n p q then runs_at E n p q
      else case hops E n p q of
          None \<Rightarrow> []
        | Some qs \<Rightarrow>
            concat (map (\<lambda>q'. case hop_target E n p q' of None \<Rightarrow> [] | Some m \<Rightarrow> deliver E m p q') qs))"
  by pat_completeness auto

termination deliver
  by (relation "measure (\<lambda>(E, n, p, q). query_rank n q)") (auto simp: hops_decrease)

declare deliver.simps [simp del]

lemma deliver_here: "runs_here E n p q \<Longrightarrow> deliver E n p q = runs_at E n p q"
  by (simp add: deliver.simps)

lemma deliver_hops:
  assumes "hops E n p q = Some qs"
  shows "deliver E n p q = concat (map (\<lambda>q'. case hop_target E n p q' of None \<Rightarrow> [] | Some m \<Rightarrow> deliver E m p q') qs)"
proof -
  have "\<not> runs_here E n p q" using assms by (auto simp: runs_here_def hops_def split: option.splits if_splits)
  then show ?thesis using assms by (subst deliver.simps) simp
qed

lemma RouteTask_received:
  "RouteTask (node_env E n) b (received p q) sd =
     (case ResolvePoolQuery (node_env E n) (fst sd) q p of
        None \<Rightarrow> None
      | Some [] \<Rightarrow> Some (Unresolved, received p q, sd)
      | Some (y # ys) \<Rightarrow>
          if IsTaskLocal (node_env E n) (received p q) (y # ys) then Some (RouteLocal (node_env E n) b (received p q) sd)
          else Some (SendGlobal (y # ys), (received p q)\<lparr>tk_routed := True\<rparr>, sd))"
proof -
  have "(received p q)\<lparr>tk_query := r_schedule (node_env E n) c (received p q)\<rparr> = received p q" for c
    by (simp add: node_env_def received_def)
  then show ?thesis
    by (cases "GetStaticContainer (fst sd) p") (simp_all add: RouteTask_def Let_def RouteGlobal_def split: option.split list.split)
qed

text \<open>The deliveries follow \<^verbatim>\<open>RouteTask\<close> on every node.\<close>

lemma RouteTask_deliver:
  assumes "RouteTask (node_env E n) True (received p q) (cl_state E n, d) = Some (r, t', sd')"
  shows "case r of QueueTo w c \<Rightarrow> deliver E n p q = [(n, c)]
    | SendGlobal qs \<Rightarrow> hops E n p q = Some qs
    | _ \<Rightarrow> deliver E n p q = []"
proof -
  let ?e = "node_env E n" and ?s = "cl_state E n"
  obtain qs where qs: "ResolvePoolQuery ?e ?s q p = Some qs"
    using assms by (auto simp: RouteTask_received split: option.splits)
  show ?thesis
  proof (cases "qs = [] \<or> \<not> IsTaskLocal ?e (received p q) qs")
    case True
    have "\<not> runs_here E n p q" using qs True by (auto simp: runs_here_def)
    then have "deliver E n p q = [] \<or> hops E n p q = Some qs" using qs by (subst deliver.simps) (auto simp: hops_def)
    moreover have "qs = [] \<Longrightarrow> deliver E n p q = []" using \<open>\<not> runs_here E n p q\<close> qs by (subst deliver.simps) (auto simp: hops_def)
    ultimately show ?thesis using assms qs True by (auto simp: RouteTask_received RouteGlobal_def hops_def split: list.splits)
  next
    case False
    then have "runs_here E n p q" using qs by (simp add: runs_here_def)
    then have dl: "deliver E n p q = runs_at E n p q" by (rule deliver_here)
    obtain y ys where "qs = y # ys" using False by (cases qs) auto
    then have "RouteLocal ?e True (received p q) (?s, d) = (r, t', sd')"
      using assms qs False by (simp add: RouteTask_received)
    then show ?thesis
      by (auto simp: dl runs_at_def RouteLocal_def Let_def split: option.splits if_splits prod.splits)
  qed
qed

section \<open>Reaching every container\<close>

text \<open>A pool that has been created on every node of the cluster, node \<open>n\<close> holding container \<open>cp n\<close>.\<close>

definition pool_everywhere :: "cluster_env \<Rightarrow> (u32 \<Rightarrow> pool_env) \<Rightarrow> CreateTask \<Rightarrow> (u32 \<Rightarrow> cptr) \<Rightarrow> u32 \<Rightarrow> bool" where
  "pool_everywhere E env t cp K \<longleftrightarrow>
     set (cl_nodes E) = {n. n < K} \<and> distinct (cl_nodes E) \<and> cl_neighborhood E \<noteq> 0 \<and> \<not> UniqueId_IsNull (ct_new_pool_id t) \<and>
     (\<forall>n. n < K \<longrightarrow> e_node (env n) = n \<and> e_num_hosts (env n) = K \<and> is_initialized (cl_state E n) \<and>
        pool_of (cl_state E n) (ct_new_pool_id t) = Some (complete_info (env n) t (cp n)) \<and> \<not> IsPlugged (cl_state E n) (cp n))"

lemma find_member: "x \<in> set xs \<Longrightarrow> find (\<lambda>k. k = x) xs = Some x"
  by (induction xs) auto

lemma pool_everywhere_node:
  assumes "pool_everywhere E env t cp K" and "n < K"
  shows "\<exists>i. GetPoolInfo (cl_state E n) (ct_new_pool_id t) = Some i \<and> num_containers i = K"
    and "k < K \<Longrightarrow> GetContainerNodeId (cl_state E n) (ct_new_pool_id t) k = k"
    and "HasContainer (cl_state E n) (ct_new_pool_id t) k \<longleftrightarrow> k = n"
    and "GetContainer (cl_state E n) (ct_new_pool_id t) x = (Some (cp n), False)"
    and "find (\<lambda>k. (ucast k :: u64) = ucast n) (cl_nodes E) = Some n"
proof -
  note nd = assms(1) [unfolded pool_everywhere_def]
  have n: "e_node (env n) = n" "e_num_hosts (env n) = K" "is_initialized (cl_state E n)"
    "pool_of (cl_state E n) (ct_new_pool_id t) = Some (complete_info (env n) t (cp n))" "\<not> IsPlugged (cl_state E n) (cp n)"
    using nd assms(2) by auto
  show "\<exists>i. GetPoolInfo (cl_state E n) (ct_new_pool_id t) = Some i \<and> num_containers i = K"
    using n by (simp add: GetPoolInfo_def complete_info_def fresh_info_def PoolInfo_new_def)
  show "GetContainerNodeId (cl_state E n) (ct_new_pool_id t) k = k" if "k < K"
    using n that by (simp add: GetContainerNodeId_def GetPoolInfo_def complete_info_def fresh_info_def PoolInfo_new_def init_map_loop_lookup)
  show "HasContainer (cl_state E n) (ct_new_pool_id t) k \<longleftrightarrow> k = n"
    using n by (auto simp: HasContainer_def complete_info_def)
  show "GetContainer (cl_state E n) (ct_new_pool_id t) x = (Some (cp n), False)"
    using n by (simp add: GetContainer_def complete_info_def Let_def)
  have "find (\<lambda>k. k = n) (cl_nodes E) = Some n" using nd assms(2) by (intro find_member) blast
  then show "find (\<lambda>k. (ucast k :: u64) = ucast n) (cl_nodes E) = Some n" by simp
qed

lemma two_nodes:
  assumes "pool_everywhere E env t cp K" and "a < K" and "b < K" and "a \<noteq> b"
  shows "length (cl_nodes E) \<noteq> 1"
proof
  assume "length (cl_nodes E) = 1"
  then obtain x where "cl_nodes E = [x]" by (auto simp: length_Suc_conv)
  then have "{n. n < K} = {x}" using assms(1) by (simp add: pool_everywhere_def)
  then have "a = x" "b = x" using assms(2,3) by blast+
  then show False using assms(4) by simp
qed

lemma tiles_bounds:
  assumes "tiles off ps" and "unat off + sum_list (map (unat \<circ> snd) ps) < 2 ^ 32" and "(a, b) \<in> set ps"
  shows "0 < b" and "unat a + unat b \<le> unat off + sum_list (map (unat \<circ> snd) ps)"
proof -
  have "0 < b \<and> unat a + unat b \<le> unat off + sum_list (map (unat \<circ> snd) ps)"
    using assms
  proof (induction off ps rule: tiles.induct)
    case (2 cur off cnt ps)
    then have "unat (cur + cnt) = unat cur + unat cnt" by (simp add: unat_add_no_overflow)
    then show ?case using 2 by auto
  qed simp
  then show "0 < b" and "unat a + unat b \<le> unat off + sum_list (map (unat \<circ> snd) ps)" by auto
qed

lemma runs_at_everywhere:
  "pool_everywhere E env t cp K \<Longrightarrow> n < K \<Longrightarrow> runs_at E n (ct_new_pool_id t) q = [(n, cp n)]"
  by (simp add: runs_at_def pool_everywhere_node)

lemma range_ids_one: "range_ids off 1 = [off]"
  by (simp add: range_ids_def)

lemma deliver_DirectId:
  assumes ev: "pool_everywhere E env t cp K" and "k < K" and "routing_mode q = DirectId" and "container_id q = k"
  shows "deliver E k (ct_new_pool_id t) q = [(k, cp k)]"
proof -
  have "\<not> UniqueId_IsNull (ct_new_pool_id t)" using ev by (simp add: pool_everywhere_def)
  then have "runs_here E k (ct_new_pool_id t) q"
    using assms pool_everywhere_node(3) [OF ev assms(2)]
    by (simp add: runs_here_def ResolvePoolQuery_def ResolveDirectIdQuery_def IsTaskLocal_def)
  then show ?thesis using deliver_here runs_at_everywhere [OF ev assms(2)] by simp
qed

lemma deliver_range:
  assumes ev: "pool_everywhere E env t cp K"
  shows "n < K \<Longrightarrow> routing_mode q = Range_mode \<Longrightarrow> 0 < range_count q \<Longrightarrow> unat (range_offset q) + unat (range_count q) \<le> unat K \<Longrightarrow>
    deliver E n (ct_new_pool_id t) q = map (\<lambda>k. (k, cp k)) (range_ids (range_offset q) (range_count q))"
proof (induction "unat (range_count q)" arbitrary: n q rule: less_induct)
  case less
  let ?p = "ct_new_pool_id t" and ?e = "node_env E n" and ?s = "cl_state E n" and ?off = "range_offset q" and ?cnt = "range_count q"
  have p: "\<not> UniqueId_IsNull ?p" and nb: "cl_neighborhood E \<noteq> 0" using ev by (auto simp: pool_everywhere_def)
  note at = pool_everywhere_node [OF ev]
  have off: "?off < K" using less.prems(3,4) by (simp add: word_less_nat_alt)
  consider "?cnt = 1" | "2 \<le> ?cnt" using u32_small_cases [of ?cnt] less.prems(3) by auto
  then show ?case
  proof cases
    case 1
    show ?thesis
    proof (cases "?off = n")
      case True
      then have "runs_here E n ?p q"
        using 1 less.prems(1,2) p at(3) [OF less.prems(1)]
        by (simp add: runs_here_def ResolvePoolQuery_def ResolveRangeQuery_def IsTaskLocal_def Let_def)
      then show ?thesis using deliver_here runs_at_everywhere [OF ev less.prems(1)] True 1 by (simp add: range_ids_one)
    next
      case False
      let ?q = "SetReturnNode n (PoolQuery_DirectId ?off neg_one_f)"
      have res: "ResolvePoolQuery ?e ?s q ?p = Some [?q]"
        using 1 False less.prems(2) p at(3) [OF less.prems(1)] at(2) [OF less.prems(1) off]
        by (simp add: ResolvePoolQuery_def ResolveRangeQuery_def Let_def)
      have "length (cl_nodes E) \<noteq> 1" using two_nodes [OF ev off less.prems(1)] False by simp
      then have "hops E n ?p q = Some [?q]" using res by (simp add: hops_def IsTaskLocal_def)
      moreover have "hop_target E n ?p ?q = Some ?off"
        using at(2) [OF less.prems(1) off] at(5) [OF off] by (simp add: hop_target_def send_target_def)
      ultimately have "deliver E n ?p q = deliver E ?off ?p ?q" by (simp add: deliver_hops)
      then show ?thesis using deliver_DirectId [OF ev off, of ?q] 1 by (simp add: range_ids_one)
    qed
  next
    case 2
    obtain ps where ps: "ResolveRangeQuery ?e ?s q ?p = Some (range_queries ps)" "tiles ?off ps"
      "sum_list (map (unat \<circ> snd) ps) = unat ?cnt" "2 \<le> length ps"
      using ResolveRangeQuery_tiles [OF 2, of ?e ?s ?p] nb by auto
    let ?qs = "map (SetReturnNode n) (range_queries ps)"
    have "1 < K" "0 < K" using 2 less.prems(4) by (auto simp: word_less_nat_alt word_le_nat_alt)
    then have "length (cl_nodes E) \<noteq> 1" using two_nodes [OF ev, of 0 1] by simp
    then have h: "hops E n ?p q = Some ?qs"
      using ps less.prems(2) p by (simp add: hops_def ResolvePoolQuery_def IsTaskLocal_def range_queries_def)
    have piece: "(case hop_target E n ?p (SetReturnNode n (PoolQuery_Range a b neg_one_f)) of
        None \<Rightarrow> [] | Some m \<Rightarrow> deliver E m ?p (SetReturnNode n (PoolQuery_Range a b neg_one_f))) =
      map (\<lambda>k. (k, cp k)) (range_ids a b)" if ab: "(a, b) \<in> set ps" for a b
    proof -
      have "unat ?off + sum_list (map (unat \<circ> snd) ps) < 2 ^ 32"
        using less.prems(4) ps(3) unsigned_less [of K, where 'a = nat] by simp
      from tiles_bounds [OF ps(2) this ab] have b: "0 < b" "unat a + unat b \<le> unat K" using ps(3) less.prems(4) by auto
      then have a: "a < K" by (simp add: word_less_nat_alt)
      have sm: "unat b < unat ?cnt" using tiles_smaller [OF ps(2,4) ab] ps(3) by simp
      have "hop_target E n ?p (SetReturnNode n (PoolQuery_Range a b neg_one_f)) = Some a"
        using at(2) [OF less.prems(1) a] at(5) [OF a] by (simp add: hop_target_def send_target_def)
      then show ?thesis
        using less.hyps [of "SetReturnNode n (PoolQuery_Range a b neg_one_f)" a] sm a b by simp
    qed
    have "deliver E n ?p q = concat (map (\<lambda>(a, b). map (\<lambda>k. (k, cp k)) (range_ids a b)) ps)"
      unfolding deliver_hops [OF h] by (rule arg_cong [of _ _ concat]) (auto simp: range_queries_def comp_def piece)
    also have "\<dots> = map (\<lambda>k. (k, cp k)) (concat (map (\<lambda>(a, b). range_ids a b) ps))"
      by (simp add: map_concat comp_def case_prod_unfold)
    finally show ?thesis using tiles_ids [OF ps(2,3)] by simp
  qed
qed


definition demo_node_env :: "u32 \<Rightarrow> pool_env" where
  "demo_node_env n = demo_pool_env\<lparr>e_node := n, e_num_hosts := 2\<rparr>"

definition demo_cluster :: cluster_env where
  "demo_cluster = \<lparr>cl_nodes = [0, 1],
     cl_state = (\<lambda>n. demo_pm\<lparr>pool_metadata := [(ct_new_pool_id demo_create, complete_info (demo_node_env n) demo_create (unat n + 7))]\<rparr>),
     cl_neighborhood = 32\<rparr>"


text \<open>
  A container that shares its node with container 0 is out of reach of hashed and
  range queries. They carry container identifier 0, and \<^verbatim>\<open>RouteLocal\<close> looks the container
  up by that identifier instead of the one the query was resolved to: on a node that
  holds containers 0 and \<open>k\<close>, as after a recovery, a task hashed or broadcast to \<open>k\<close> runs
  on container 0, while a task sent to \<open>k\<close> by identifier runs on \<open>k\<close>.
\<close>

theorem second_container_unreachable:
  assumes "is_initialized (cl_state E a)" and "pool_of (cl_state E a) p = Some i" and "\<not> UniqueId_IsNull p"
    and "map_of (containers i) 0 = Some c0" and "map_of (containers i) k = Some ck" and "k \<noteq> 0"
    and "\<not> IsPlugged (cl_state E a) c0" and "\<not> IsPlugged (cl_state E a) ck"
    and "num_containers i \<noteq> 0" and "h mod num_containers i = k" and "k \<noteq> kInvalidContainerId"
  shows "deliver E a p (PoolQuery_DirectHash h tmo) = [(a, c0)] \<and>
    deliver E a p (PoolQuery_Range k 1 tmo) = [(a, c0)] \<and>
    deliver E a p (PoolQuery_DirectId k tmo) = [(a, ck)]"
proof -
  have hc: "HasContainer (cl_state E a) p k" using assms by (simp add: HasContainer_def)
  have z: "(0 :: u32) \<noteq> kInvalidContainerId" by (simp add: kInvalidContainerId_def)
  have "runs_at E a p (PoolQuery_DirectHash h tmo) = [(a, c0)]" "runs_at E a p (PoolQuery_Range k 1 tmo) = [(a, c0)]"
    "runs_at E a p (PoolQuery_DirectId k tmo) = [(a, ck)]"
    using assms z by (simp_all add: runs_at_def GetContainer_def Let_def)
  moreover have "runs_here E a p (PoolQuery_DirectHash h tmo)" "runs_here E a p (PoolQuery_Range k 1 tmo)" "runs_here E a p (PoolQuery_DirectId k tmo)"
    using assms hc by (simp_all add: runs_here_def ResolvePoolQuery_def ResolveDirectHashQuery_def ResolveRangeQuery_def ResolveDirectIdQuery_def
        GetPoolInfo_def IsTaskLocal_def Let_def)
  ultimately show ?thesis by (simp add: deliver_here)
qed

definition demo_recovered :: cluster_env where
  "demo_recovered = \<lparr>cl_nodes = [0, 1],
     cl_state = (\<lambda>n. demo_pm\<lparr>pool_metadata := [(ct_new_pool_id demo_create,
        (complete_info (demo_node_env n) demo_create 7)\<lparr>containers := [(0, 7), (1, 8)]\<rparr>)]\<rparr>),
     cl_neighborhood = 32\<rparr>"

theorem second_container_unreachable_witness:
  "deliver demo_recovered 0 (ct_new_pool_id demo_create) (PoolQuery_DirectHash 5 neg_one_f) = [(0, 7)] \<and>
   deliver demo_recovered 0 (ct_new_pool_id demo_create) (PoolQuery_DirectId 1 neg_one_f) = [(0, 8)]"
  using second_container_unreachable [of demo_recovered 0 "ct_new_pool_id demo_create"
      "(complete_info (demo_node_env 0) demo_create 7)\<lparr>containers := [(0, 7), (1, 8)]\<rparr>" 7 1 8 5 neg_one_f]
  by (simp add: demo_recovered_def demo_pm_def demo_create_def UniqueId_IsNull_def IsPlugged_def complete_info_def fresh_info_def
      PoolInfo_new_def demo_node_env_def kInvalidContainerId_def)

end
