(* ===== verification/Cluster.thy ===== *)
theory Cluster
  imports Chi_Types "HOL-Library.AList"
begin

text \<open>
  The nodes of the cluster as the runtime of one node sees them: \<^verbatim>\<open>Host\<close> and
  \<^verbatim>\<open>NodeState\<close> (types.h) and the host table of \<^verbatim>\<open>IpcManager\<close> (ipc\_manager.cc):
  lookup, liveness, the cached host vector, leader choice and node admission.

  A \<^verbatim>\<open>std::unordered_map\<close> is the association list of its entries in
  iteration order; an insertion puts the new entry at the end. Time is the
  reading of the steady clock in nanoseconds.
\<close>

type_synonym clock = int

datatype NodeState = kAlive | kProbeFailed | kSuspected | kDead

record Host =
  ip_address :: string
  host_id :: u64
  host_state :: NodeState
  state_changed_at :: clock

record DeadNodeEntry =
  dead_id :: u64
  detected_at :: clock

record Cluster =
  hostfile_map :: "(u64 \<times> Host) list"
  hosts_cache :: "Host list"
  hosts_cache_valid :: bool
  dead_nodes :: "DeadNodeEntry list"
  this_node :: u64
  self_fenced :: bool
  client_pool :: "string list"

definition Host_new :: "string \<Rightarrow> u64 \<Rightarrow> clock \<Rightarrow> Host" where
  "Host_new ip i now = \<lparr>ip_address = ip, host_id = i, host_state = kAlive, state_changed_at = now\<rparr>"

definition Host_IsAlive :: "Host \<Rightarrow> bool" where
  "Host_IsAlive h \<longleftrightarrow> host_state h = kAlive"

text \<open>
  \<^verbatim>\<open>LoadHostfile\<close>: without a hostfile the server address is node 0, otherwise the
  position of an address in the file is its node identifier. \<open>parsed\<close> is what the
  hostfile parser returns, \<open>None\<close> its exception.
\<close>

fun number_hosts :: "u64 \<Rightarrow> string list \<Rightarrow> clock \<Rightarrow> (u64 \<times> Host) list \<Rightarrow> (u64 \<times> Host) list" where
  "number_hosts off [] now m = m"
| "number_hosts off (ip # ips) now m = number_hosts (off + 1) ips now (AList.update off (Host_new ip off now) m)"

definition LoadHostfile :: "string \<Rightarrow> string \<Rightarrow> string list option \<Rightarrow> clock \<Rightarrow> Cluster \<Rightarrow> bool \<times> Cluster" where
  "LoadHostfile path server_addr parsed now c =
     (let c = c\<lparr>hostfile_map := [], hosts_cache_valid := False\<rparr>
      in if path = [] then (True, c\<lparr>hostfile_map := [(0, Host_new server_addr 0 now)]\<rparr>)
         else (case parsed of
             None \<Rightarrow> (False, c)
           | Some ips \<Rightarrow> (True, c\<lparr>hostfile_map := number_hosts 0 ips now []\<rparr>)))"

definition GetHost :: "Cluster \<Rightarrow> u64 \<Rightarrow> Host option" where
  "GetHost c n = map_of (hostfile_map c) n"

definition GetHostByIp :: "Cluster \<Rightarrow> string \<Rightarrow> Host option" where
  "GetHostByIp c ip = find (\<lambda>h. ip_address h = ip) (map snd (hostfile_map c))"

definition GetAllHosts :: "Cluster \<Rightarrow> Host list \<times> Cluster" where
  "GetAllHosts c =
     (if hosts_cache_valid c then (hosts_cache c, c)
      else (map snd (hostfile_map c), c\<lparr>hosts_cache := map snd (hostfile_map c), hosts_cache_valid := True\<rparr>))"

definition GetNumHosts :: "Cluster \<Rightarrow> nat" where
  "GetNumHosts c = length (hostfile_map c)"

definition IsAlive :: "Cluster \<Rightarrow> u64 \<Rightarrow> bool" where
  "IsAlive c n = (case map_of (hostfile_map c) n of None \<Rightarrow> False | Some h \<Rightarrow> host_state h = kAlive)"

definition GetNodeState :: "Cluster \<Rightarrow> u64 \<Rightarrow> NodeState" where
  "GetNodeState c n = (case map_of (hostfile_map c) n of None \<Rightarrow> kDead | Some h \<Rightarrow> host_state h)"

definition SetNodeState :: "u64 \<Rightarrow> NodeState \<Rightarrow> clock \<Rightarrow> Cluster \<Rightarrow> Cluster" where
  "SetNodeState n st now c =
     (case map_of (hostfile_map c) n of
        None \<Rightarrow> c
      | Some h \<Rightarrow> c\<lparr>hostfile_map := AList.update n (h\<lparr>host_state := st, state_changed_at := now\<rparr>) (hostfile_map c),
                    hosts_cache_valid := False\<rparr>)"

text \<open>The key of a cached connection: address and port.\<close>

definition client_key :: "string \<Rightarrow> nat \<Rightarrow> string" where
  "client_key ip port = ip @ '':'' @ to_string port"

definition SetDead :: "nat \<Rightarrow> u64 \<Rightarrow> clock \<Rightarrow> Cluster \<Rightarrow> Cluster" where
  "SetDead port n now c =
     (case map_of (hostfile_map c) n of
        None \<Rightarrow> c
      | Some h \<Rightarrow>
          if host_state h = kDead then c
          else let c = SetNodeState n kDead now c
               in c\<lparr>dead_nodes := dead_nodes c @ [\<lparr>dead_id = n, detected_at = now\<rparr>],
                    client_pool := removeAll (client_key (ip_address h) port) (client_pool c)\<rparr>)"

definition SetAlive :: "u64 \<Rightarrow> clock \<Rightarrow> Cluster \<Rightarrow> Cluster" where
  "SetAlive n now c =
     (case map_of (hostfile_map c) n of
        None \<Rightarrow> c
      | Some h \<Rightarrow>
          if host_state h = kAlive then c
          else let c = SetNodeState n kAlive now c
               in c\<lparr>dead_nodes := filter (\<lambda>d. dead_id d \<noteq> n) (dead_nodes c)\<rparr>)"

definition SetSelfFenced :: "bool \<Rightarrow> Cluster \<Rightarrow> Cluster" where
  "SetSelfFenced b c = c\<lparr>self_fenced := b\<rparr>"

definition u64_max :: u64 where
  "u64_max = - 1"

definition leader_step :: "u64 \<Rightarrow> Host \<Rightarrow> u64" where
  "leader_step l h = (if host_state h = kAlive \<and> host_id h < l then host_id h else l)"

definition GetLeaderNodeId :: "Cluster \<Rightarrow> u64" where
  "GetLeaderNodeId c =
     (let l = foldl leader_step u64_max (map snd (hostfile_map c))
      in if l = u64_max then 0 else l)"

definition IsLeader :: "Cluster \<Rightarrow> bool" where
  "IsLeader c \<longleftrightarrow> this_node c = GetLeaderNodeId c"

definition AddNode :: "string \<Rightarrow> clock \<Rightarrow> Cluster \<Rightarrow> u64 \<times> Cluster" where
  "AddNode ip now c =
     (case find (\<lambda>p. ip_address (snd p) = ip) (hostfile_map c) of
        Some p \<Rightarrow> (fst p, SetAlive (fst p) now c)
      | None \<Rightarrow>
          let n = of_nat (length (hostfile_map c))
          in (n, c\<lparr>hostfile_map := AList.update n (Host_new ip n now) (hostfile_map c), hosts_cache_valid := False\<rparr>))"

section \<open>Well-formed host tables\<close>

text \<open>
  Keys are the identifiers of their hosts and are numbered from 0, and the
  cached vector is the table while it is marked valid.
\<close>

definition cluster_inv :: "Cluster \<Rightarrow> bool" where
  "cluster_inv c \<longleftrightarrow>
     distinct (map fst (hostfile_map c)) \<and>
     (\<forall>(n, h) \<in> set (hostfile_map c). host_id h = n \<and> unat n < length (hostfile_map c)) \<and>
     (hosts_cache_valid c \<longrightarrow> hosts_cache c = map snd (hostfile_map c))"

lemma cluster_invD:
  assumes "cluster_inv c"
  shows "distinct (map fst (hostfile_map c))"
    and "map_of (hostfile_map c) n = Some h \<Longrightarrow> host_id h = n \<and> unat n < length (hostfile_map c)"
  using assms unfolding cluster_inv_def by (auto dest: map_of_SomeD)

lemma GetAllHosts_result:
  assumes "cluster_inv c"
  shows "fst (GetAllHosts c) = map snd (hostfile_map c)" and "cluster_inv (snd (GetAllHosts c))"
    and "hostfile_map (snd (GetAllHosts c)) = hostfile_map c"
  using assms by (auto simp: GetAllHosts_def cluster_inv_def)

lemma map_fst_update_present: "k \<in> fst ` set al \<Longrightarrow> map fst (AList.update k v al) = map fst al"
  by (simp add: AList.update_keys image_iff)

lemma length_update_present: "k \<in> fst ` set al \<Longrightarrow> length (AList.update k v al) = length al"
  using map_fst_update_present [of k al v] by (metis length_map)

lemma SetNodeState_inv:
  assumes "cluster_inv c"
  shows "cluster_inv (SetNodeState n st now c)"
proof (cases "map_of (hostfile_map c) n")
  case (Some h)
  let ?m = "AList.update n (h\<lparr>host_state := st, state_changed_at := now\<rparr>) (hostfile_map c)"
  have k: "n \<in> fst ` set (hostfile_map c)" using Some by (metis weak_map_of_SomeI option.distinct(1) map_of_eq_None_iff)
  have d: "distinct (map fst ?m)" using cluster_invD(1) [OF assms] by (simp add: distinct_update)
  have "host_id h' = n' \<and> unat n' < length ?m" if "(n', h') \<in> set ?m" for n' h'
  proof -
    have "map_of ?m n' = Some h'" using d that by simp
    then have "n' = n \<and> h' = h\<lparr>host_state := st, state_changed_at := now\<rparr> \<or> map_of (hostfile_map c) n' = Some h'"
      by (auto simp: update_conv' split: if_splits)
    then show ?thesis using cluster_invD(2) [OF assms] Some k by (auto simp: length_update_present)
  qed
  then show ?thesis using d Some by (auto simp: SetNodeState_def cluster_inv_def)
qed (use assms in \<open>simp add: SetNodeState_def\<close>)

lemma SetNodeState_state:
  "GetNodeState (SetNodeState n st now c) m =
     (if m = n \<and> map_of (hostfile_map c) n \<noteq> None then st else GetNodeState c m)"
  by (auto simp: SetNodeState_def GetNodeState_def update_conv' split: option.splits)

lemma hostfile_map_fields [simp]:
  "hostfile_map (c\<lparr>dead_nodes := d, client_pool := p\<rparr>) = hostfile_map c"
  "hostfile_map (c\<lparr>dead_nodes := d\<rparr>) = hostfile_map c"
  by simp_all

lemma cluster_inv_fields [simp]:
  "cluster_inv (c\<lparr>dead_nodes := d\<rparr>) = cluster_inv c"
  "cluster_inv (c\<lparr>client_pool := p\<rparr>) = cluster_inv c"
  "cluster_inv (c\<lparr>self_fenced := b\<rparr>) = cluster_inv c"
  by (simp_all add: cluster_inv_def)

lemma SetDead_inv: "cluster_inv c \<Longrightarrow> cluster_inv (SetDead port n now c)"
  by (simp add: SetDead_def Let_def SetNodeState_inv split: option.split)

lemma SetAlive_inv: "cluster_inv c \<Longrightarrow> cluster_inv (SetAlive n now c)"
  by (simp add: SetAlive_def Let_def SetNodeState_inv split: option.split)

lemma GetNodeState_fields [simp]:
  "GetNodeState (c\<lparr>dead_nodes := d\<rparr>) m = GetNodeState c m"
  "GetNodeState (c\<lparr>client_pool := p\<rparr>) m = GetNodeState c m"
  "GetNodeState (c\<lparr>self_fenced := b\<rparr>) m = GetNodeState c m"
  by (simp_all add: GetNodeState_def)

lemma SetDead_state:
  "GetNodeState (SetDead port n now c) m = (if m = n then kDead else GetNodeState c m)"
  by (auto simp: SetDead_def Let_def SetNodeState_def GetNodeState_def update_conv' split: option.split)

lemma SetAlive_state:
  "GetNodeState (SetAlive n now c) m = (if m = n \<and> map_of (hostfile_map c) n \<noteq> None then kAlive else GetNodeState c m)"
  by (auto simp: SetAlive_def Let_def SetNodeState_def GetNodeState_def update_conv' split: option.split)

lemma IsAlive_state: "IsAlive c n \<longleftrightarrow> GetNodeState c n = kAlive"
  by (simp add: IsAlive_def GetNodeState_def split: option.split)

lemma update_absent: "k \<notin> fst ` set al \<Longrightarrow> AList.update k v al = al @ [(k, v)]"
  by (induction al) auto

lemma AddNode_inv:
  assumes "cluster_inv c" and "length (hostfile_map c) < 2 ^ 64 - 1"
  shows "cluster_inv (snd (AddNode ip now c))"
proof (cases "find (\<lambda>p. ip_address (snd p) = ip) (hostfile_map c)")
  case None
  let ?n = "of_nat (length (hostfile_map c)) :: u64" and ?m = "hostfile_map c"
  have u: "unat ?n = length ?m" using assms(2) by (simp add: unat_of_nat take_bit_eq_mod)
  have new: "?n \<notin> fst ` set ?m" using assms(1) u unfolding cluster_inv_def by fastforce
  show ?thesis using assms(1) None new u
    by (auto simp: AddNode_def Let_def update_absent cluster_inv_def Host_new_def)
qed (simp_all add: AddNode_def SetAlive_inv assms)

section \<open>The leader\<close>

lemma leader_fold_start: "foldl leader_step l hs \<le> l"
proof (induction hs arbitrary: l)
  case (Cons g hs)
  have "leader_step l g \<le> l" by (auto simp: leader_step_def)
  with Cons [of "leader_step l g"] show ?case by (simp add: order_trans)
qed simp

lemma leader_fold_le: "h \<in> set hs \<Longrightarrow> host_state h = kAlive \<Longrightarrow> foldl leader_step l hs \<le> host_id h"
proof (induction hs arbitrary: l)
  case (Cons g hs)
  have "host_state g = kAlive \<Longrightarrow> leader_step l g \<le> host_id g" by (auto simp: leader_step_def not_less)
  with Cons leader_fold_start [of "leader_step l g" hs] show ?case by auto
qed simp

lemma leader_fold_in:
  "foldl leader_step l hs = l \<or> (\<exists>h \<in> set hs. host_state h = kAlive \<and> foldl leader_step l hs = host_id h)"
  by (induction hs arbitrary: l) (fastforce simp: leader_step_def)+

text \<open>
  The leader is the least identifier of a live node, so nodes that agree on who
  is alive agree on the leader.
\<close>

lemma leader_is_least_alive:
  assumes "cluster_inv c" and "length (hostfile_map c) < 2 ^ 64" and "GetNodeState c n = kAlive"
  shows "GetNodeState c (GetLeaderNodeId c) = kAlive" and "GetLeaderNodeId c \<le> n"
proof -
  let ?l = "foldl leader_step u64_max (map snd (hostfile_map c))"
  obtain h where h: "map_of (hostfile_map c) n = Some h" "host_state h = kAlive"
    using assms(3) by (auto simp: GetNodeState_def split: option.splits)
  have "(n, h) \<in> set (hostfile_map c)" using h(1) by (rule map_of_SomeD)
  then have "?l \<le> host_id h" by (intro leader_fold_le) (use h(2) in force)+
  moreover have n: "host_id h = n" "unat n < length (hostfile_map c)" using cluster_invD(2) [OF assms(1) h(1)] by auto
  moreover have "n \<noteq> u64_max" using n(2) assms(2) by (auto simp: u64_max_def unat_max64)
  ultimately have l: "?l \<le> n" "?l \<noteq> u64_max" by (auto simp: u64_max_def word_order.extremum_unique)
  then obtain g where g: "g \<in> set (map snd (hostfile_map c))" "host_state g = kAlive" "?l = host_id g"
    using leader_fold_in by metis
  then obtain m where m: "(m, g) \<in> set (hostfile_map c)" by auto
  then have "map_of (hostfile_map c) m = Some g" using cluster_invD(1) [OF assms(1)] by simp
  moreover have "host_id g = m" using cluster_invD(2) [OF assms(1)] calculation by blast
  ultimately show "GetNodeState c (GetLeaderNodeId c) = kAlive" and "GetLeaderNodeId c \<le> n"
    using l g by (simp_all add: GetLeaderNodeId_def Let_def GetNodeState_def)
qed

end
