(* ===== verification/Net_Tasks.thy ===== *)
theory Net_Tasks
  imports Routing Cluster Map_LL
begin

unbundle bit_operations_syntax

text \<open>
  Remote execution of tasks by the admin module (admin\_runtime.cc): replicas of a
  task are sent to other nodes (\<^verbatim>\<open>SendIn\<close>), run there (\<^verbatim>\<open>RecvIn\<close>, \<^verbatim>\<open>SendOut\<close>), and their
  results are collected until the task is complete (\<^verbatim>\<open>RecvOut\<close>). Replicas and
  results for dead nodes wait in retry queues (\<^verbatim>\<open>ProcessRetryQueues\<close>), which are flushed
  when a node restarts, and tasks time out (\<^verbatim>\<open>ScanSendMapTimeouts\<close>).

  A task lives behind its pointer, which is also its key in \<^verbatim>\<open>send_map_\<close>; its payload is
  of type \<open>'r\<close>. The transport, the aggregation a module defines and the value of a
  float are parameters; \<open>n_secs\<close> is the conversion of a clock difference to seconds.
\<close>

record 'r Replica =
  rp_key :: u64
  rp_id :: u32
  rp_pool :: PoolId
  rp_query :: PoolQuery
  rp_data :: 'r
  rp_rc :: u32

record 'r Remote =
  rt_key :: u64
  rt_replica :: u32
  rt_pool :: PoolId
  rt_query :: PoolQuery
  rt_data :: 'r

record 'r NetTask =
  nt_pool :: PoolId
  nt_query :: PoolQuery
  nt_has_ctx :: bool
  nt_queries :: "PoolQuery list"
  nt_subtasks :: "'r Replica option list"
  nt_completed :: u32
  nt_data :: 'r
  nt_rc :: u32
  nt_ended :: nat

record 'x RetryEntry =
  re_task :: 'x
  re_target :: u64
  re_at :: clock

record 'r Net =
  net_cluster :: Cluster
  send_map :: "(u64, u64) unordered_map_ll"
  recv_map :: "(u64, 'r Remote) unordered_map_ll"
  net_tasks :: "u64 \<Rightarrow> 'r NetTask option"
  send_in_retry :: "'r Replica RetryEntry list"
  send_out_retry :: "'r Remote RetryEntry list"
  sent_in :: "(u64 \<times> 'r Replica) list"
  sent_out :: "(u64 \<times> 'r Remote) list"
  dispatched :: "'r Remote list"

record 'r net_env =
  n_route :: route_env
  n_pm :: PoolManager
  n_hash :: "u64 \<Rightarrow> size_t"
  n_connect :: "u64 \<Rightarrow> bool"
  n_send :: "u64 \<Rightarrow> u64 \<Rightarrow> u32 \<Rightarrow> bool"
  n_port :: nat
  n_fval :: "u32 \<Rightarrow> real"
  n_secs :: "int \<Rightarrow> real"
  n_agg :: "'r \<Rightarrow> 'r \<Rightarrow> 'r"

definition kNetworkTimeoutRC :: u32 where
  "kNetworkTimeoutRC = - 1000"

definition kRetryTimeoutSec :: real where
  "kRetryTimeoutSec = 30"

text \<open>\<open>0.001f\<close> as a bit pattern.\<close>

definition milli_f :: u32 where
  "milli_f = 0x3A83126F"

definition upd_task :: "u64 \<Rightarrow> ('r NetTask \<Rightarrow> 'r NetTask) \<Rightarrow> 'r Net \<Rightarrow> 'r Net" where
  "upd_task k f s = s\<lparr>net_tasks := (net_tasks s)(k := map_option f (net_tasks s k))\<rparr>"

definition vec_resize :: "nat \<Rightarrow> 'x \<Rightarrow> 'x list \<Rightarrow> 'x list" where
  "vec_resize n d xs = take n xs @ replicate (n - length xs) d"

definition retry_in :: "'r Replica \<Rightarrow> u64 \<Rightarrow> clock \<Rightarrow> 'r Net \<Rightarrow> 'r Net" where
  "retry_in r n now s = s\<lparr>send_in_retry := send_in_retry s @ [\<lparr>re_task = r, re_target = n, re_at = now\<rparr>]\<rparr>"

definition retry_out :: "'r Remote \<Rightarrow> u64 \<Rightarrow> clock \<Rightarrow> 'r Net \<Rightarrow> 'r Net" where
  "retry_out r n now s = s\<lparr>send_out_retry := send_out_retry s @ [\<lparr>re_task = r, re_target = n, re_at = now\<rparr>]\<rparr>"

definition mark_dead :: "'r net_env \<Rightarrow> u64 \<Rightarrow> clock \<Rightarrow> 'r Net \<Rightarrow> 'r Net" where
  "mark_dead e n now s = s\<lparr>net_cluster := SetDead (n_port e) n now (net_cluster s)\<rparr>"

section \<open>Sending replicas\<close>

definition new_replica :: "'r net_env \<Rightarrow> u64 \<Rightarrow> 'r NetTask \<Rightarrow> nat \<Rightarrow> PoolQuery \<Rightarrow> 'r Replica" where
  "new_replica e k t i q =
     \<lparr>rp_key = k, rp_id = of_nat i, rp_pool = nt_pool t, rp_query = SetReturnNode (ucast (r_node (n_route e))) q,
      rp_data = nt_data t, rp_rc = nt_rc t\<rparr>"

text \<open>One iteration of the loop of \<^verbatim>\<open>SendIn\<close>.\<close>

definition send_replica :: "'r net_env \<Rightarrow> clock \<Rightarrow> u64 \<Rightarrow> 'r NetTask \<Rightarrow> nat \<Rightarrow> PoolQuery \<Rightarrow> 'r Net \<Rightarrow> 'r Net" where
  "send_replica e now k t i q s =
     (case send_target (n_route e) (n_pm e) (nt_pool t) q of
        None \<Rightarrow> s
      | Some n \<Rightarrow>
          if GetHost (net_cluster s) n = None then s
          else
            let r = new_replica e k t i q;
                s = upd_task k (\<lambda>t. t\<lparr>nt_subtasks := (nt_subtasks t)[i := Some r]\<rparr>) s
            in if \<not> IsAlive (net_cluster s) n then
                 (if 0 \<le> n_fval e (net_timeout (nt_query t)) \<and> n_fval e (net_timeout (nt_query t)) < n_fval e milli_f
                  then upd_task k (\<lambda>t. t\<lparr>nt_completed := nt_completed t + 1\<rparr>) s
                  else retry_in r n now s)
               else if \<not> n_connect e n then retry_in r n now (mark_dead e n now s)
               else if n_send e n k (of_nat i) then s\<lparr>sent_in := sent_in s @ [(n, r)]\<rparr>
               else retry_in r n now (mark_dead e n now s))"

fun send_replicas :: "'r net_env \<Rightarrow> clock \<Rightarrow> u64 \<Rightarrow> 'r NetTask \<Rightarrow> nat \<Rightarrow> PoolQuery list \<Rightarrow> 'r Net \<Rightarrow> 'r Net" where
  "send_replicas e now k t i [] s = s"
| "send_replicas e now k t i (q # qs) s = send_replicas e now k t (Suc i) qs (send_replica e now k t i q s)"

definition SendIn :: "'r net_env \<Rightarrow> clock \<Rightarrow> u64 \<Rightarrow> 'r Net \<Rightarrow> 'r Net" where
  "SendIn e now k s =
     (case net_tasks s k of
        None \<Rightarrow> s
      | Some t \<Rightarrow>
          if GetStaticContainer (n_pm e) (nt_pool t) = None then s
          else
            let s = s\<lparr>send_map := snd (ml_insert_or_assign (n_hash e) k k (send_map s))\<rparr>
            in if \<not> nt_has_ctx t then s
               else
                 let s = upd_task k (\<lambda>t. t\<lparr>nt_subtasks := vec_resize (length (nt_queries t)) None (nt_subtasks t)\<rparr>) s
                 in send_replicas e now k t 0 (nt_queries t) s)"

section \<open>Receiving tasks and sending results\<close>

definition recv_key :: "'r Remote \<Rightarrow> u64" where
  "recv_key r = rt_key r XOR (ucast (rt_replica r) * 0x9e3779b97f4a7c15)"

definition SendOut :: "'r net_env \<Rightarrow> clock \<Rightarrow> 'r Remote \<Rightarrow> 'r Net \<Rightarrow> 'r Net" where
  "SendOut e now r s =
     (if GetStaticContainer (n_pm e) (rt_pool r) = None then s
      else if ml_find (n_hash e) (recv_map s) (recv_key r) = None then s
      else
        let s = s\<lparr>recv_map := snd (ml_erase (n_hash e) (recv_key r) (recv_map s))\<rparr>;
            n = ucast (ret_node (rt_query r))
        in if \<not> IsAlive (net_cluster s) n then retry_out r n now s
           else if GetHost (net_cluster s) n = None then s
           else if \<not> n_connect e n then retry_out r n now (mark_dead e n now s)
           else if n_send e n (rt_key r) (rt_replica r) then s\<lparr>sent_out := sent_out s @ [(n, r)]\<rparr>
           else retry_out r n now (mark_dead e n now s))"

text \<open>
  \<^verbatim>\<open>FlushStaleStateForNode\<close>: entries for the node leave both queues; the task of a
  discarded replica counts it as completed.
\<close>

definition flush_one :: "'r net_env \<Rightarrow> 'r Replica RetryEntry \<Rightarrow> 'r Net \<Rightarrow> 'r Net" where
  "flush_one e x s =
     (case ml_find (n_hash e) (send_map s) (rp_key (re_task x)) of
        None \<Rightarrow> s
      | Some k \<Rightarrow> upd_task k (\<lambda>t. if nt_has_ctx t then t\<lparr>nt_completed := nt_completed t + 1\<rparr> else t) s)"

definition FlushStaleStateForNode :: "'r net_env \<Rightarrow> u64 \<Rightarrow> 'r Net \<Rightarrow> 'r Net" where
  "FlushStaleStateForNode e n s =
     (let s = foldl (\<lambda>s x. flush_one e x s) s (filter (\<lambda>x. re_target x = n) (send_in_retry s))
      in s\<lparr>send_in_retry := filter (\<lambda>x. re_target x \<noteq> n) (send_in_retry s),
           send_out_retry := filter (\<lambda>x. re_target x \<noteq> n) (send_out_retry s)\<rparr>)"

definition recv_one :: "'r net_env \<Rightarrow> clock \<Rightarrow> 'r Remote option \<Rightarrow> PoolId \<Rightarrow> 'r Net \<Rightarrow> 'r Net" where
  "recv_one e now loaded p s =
     (if GetStaticContainer (n_pm e) p = None then s
      else case loaded of
          None \<Rightarrow> s
        | Some r \<Rightarrow>
            let sender = ucast (ret_node (rt_query r));
                s = (if sender \<noteq> r_node (n_route e) \<and> GetNodeState (net_cluster s) sender = kDead
                     then (let s = FlushStaleStateForNode e sender s in s\<lparr>net_cluster := SetAlive sender now (net_cluster s)\<rparr>)
                     else s);
                s = s\<lparr>recv_map := snd (ml_insert_or_assign (n_hash e) (recv_key r) r (recv_map s))\<rparr>
            in s\<lparr>dispatched := dispatched s @ [r]\<rparr>)"

text \<open>\<^verbatim>\<open>RecvIn\<close> on the tasks of an archive: the pool of each, and what \<^verbatim>\<open>AllocLoadTask\<close> gives.\<close>

definition RecvIn :: "'r net_env \<Rightarrow> clock \<Rightarrow> (PoolId \<times> 'r Remote option) list \<Rightarrow> 'r Net \<Rightarrow> 'r Net" where
  "RecvIn e now infos s = foldl (\<lambda>s (p, l). recv_one e now l p s) s infos"

section \<open>Collecting results\<close>

record 'r Reply =
  ry_key :: u64
  ry_replica :: u32
  ry_data :: 'r

text \<open>The first pass of \<^verbatim>\<open>RecvOut\<close>: every reply is loaded into its replica, or the pass stops with a code.\<close>

fun load_replies :: "'r net_env \<Rightarrow> 'r Reply list \<Rightarrow> 'r Net \<Rightarrow> u32 \<times> 'r Net" where
  "load_replies e [] s = (0, s)"
| "load_replies e (y # ys) s =
     (case ml_find (n_hash e) (send_map s) (ry_key y) of
        None \<Rightarrow> (5, s)
      | Some k \<Rightarrow>
          (case net_tasks s k of
             None \<Rightarrow> (6, s)
           | Some t \<Rightarrow>
               if \<not> nt_has_ctx t then (6, s)
               else if length (nt_subtasks t) \<le> unat (ry_replica y) then (7, s)
               else if GetStaticContainer (n_pm e) (nt_pool t) = None then (8, s)
               else
                 load_replies e ys
                   (upd_task k (\<lambda>t. t\<lparr>nt_subtasks :=
                      (nt_subtasks t)[unat (ry_replica y) :=
                        map_option (\<lambda>r. r\<lparr>rp_data := ry_data y\<rparr>) (nt_subtasks t ! unat (ry_replica y))]\<rparr>) s)))"

text \<open>
  The second pass: results are aggregated and the task ends with its last replica. A
  replica that \<^verbatim>\<open>SendIn\<close> skipped has no copy of the task; the source dereferences its
  null pointer, here it contributes nothing.
\<close>

definition finish_task :: "'r NetTask \<Rightarrow> 'r NetTask" where
  "finish_task t = t\<lparr>nt_subtasks := [], nt_ended := nt_ended t + 1\<rparr>"

definition aggregate_reply :: "'r net_env \<Rightarrow> 'r Reply \<Rightarrow> 'r Net \<Rightarrow> 'r Net" where
  "aggregate_reply e y s =
     (case ml_find (n_hash e) (send_map s) (ry_key y) of
        None \<Rightarrow> s
      | Some k \<Rightarrow>
          (case net_tasks s k of
             None \<Rightarrow> s
           | Some t \<Rightarrow>
               if \<not> nt_has_ctx t \<or> length (nt_subtasks t) \<le> unat (ry_replica y) \<or> GetStaticContainer (n_pm e) (nt_pool t) = None then s
               else
                 let t = t\<lparr>nt_data := (case nt_subtasks t ! unat (ry_replica y) of
                                          None \<Rightarrow> nt_data t
                                        | Some r \<Rightarrow> n_agg e (nt_data t) (rp_data r)),
                           nt_completed := nt_completed t + 1\<rparr>
                 in if unat (nt_completed t) = length (nt_subtasks t)
                    then s\<lparr>net_tasks := (net_tasks s)(k \<mapsto> finish_task t),
                           send_map := snd (ml_erase (n_hash e) (ry_key y) (send_map s))\<rparr>
                    else s\<lparr>net_tasks := (net_tasks s)(k \<mapsto> t)\<rparr>))"

definition RecvOut :: "'r net_env \<Rightarrow> 'r Reply list \<Rightarrow> 'r Net \<Rightarrow> u32 \<times> 'r Net" where
  "RecvOut e ys s =
     (case load_replies e ys s of
        (rc, s) \<Rightarrow> if rc \<noteq> 0 then (rc, s) else (0, foldl (\<lambda>s y. aggregate_reply e y s) s ys))"

section \<open>Retries and timeouts\<close>

definition RetrySendToNode :: "'r net_env \<Rightarrow> 'r Replica \<Rightarrow> u64 \<Rightarrow> 'r Net \<Rightarrow> bool \<times> 'r Net" where
  "RetrySendToNode e r n s =
     (if GetHost (net_cluster s) n = None \<or> \<not> n_connect e n \<or> GetStaticContainer (n_pm e) (rp_pool r) = None
         \<or> \<not> n_send e n (rp_key r) (rp_id r)
      then (False, s)
      else (True, s\<lparr>sent_in := sent_in s @ [(n, r)]\<rparr>))"

definition RerouteRetryEntry :: "'r net_env \<Rightarrow> 'r Replica RetryEntry \<Rightarrow> u64" where
  "RerouteRetryEntry e x =
     (let q = rp_query (re_task x);
          cid = (case routing_mode q of
                   DirectId \<Rightarrow> Some (container_id q)
                 | Range_mode \<Rightarrow> Some (range_offset q)
                 | _ \<Rightarrow> None)
      in case cid of
          None \<Rightarrow> 0
        | Some c \<Rightarrow>
            let n = GetContainerNodeId (n_pm e) (rp_pool (re_task x)) c
            in if n \<noteq> 0 \<and> ucast n \<noteq> re_target x then ucast n else 0)"

definition entry_timeout :: "'r net_env \<Rightarrow> PoolQuery \<Rightarrow> real" where
  "entry_timeout e q = (if 0 \<le> n_fval e (net_timeout q) then n_fval e (net_timeout q) else kRetryTimeoutSec)"

definition fail_replica :: "'r Replica \<Rightarrow> 'r Net \<Rightarrow> 'r Net" where
  "fail_replica r s =
     upd_task (rp_key r) (\<lambda>t. t\<lparr>nt_subtasks := (nt_subtasks t)[unat (rp_id r) :=
        map_option (\<lambda>x. x\<lparr>rp_rc := kNetworkTimeoutRC\<rparr>) (nt_subtasks t ! unat (rp_id r))]\<rparr>) s"

fun retry_in_loop :: "'r net_env \<Rightarrow> clock \<Rightarrow> 'r Replica RetryEntry list \<Rightarrow> 'r Net \<Rightarrow> 'r Replica RetryEntry list \<times> 'r Net" where
  "retry_in_loop e now [] s = ([], s)"
| "retry_in_loop e now (x # xs) s =
     (if entry_timeout e (rp_query (re_task x)) \<le> n_secs e (now - re_at x)
      then retry_in_loop e now xs (fail_replica (re_task x) s)
      else if IsAlive (net_cluster s) (re_target x) then
        (case RetrySendToNode e (re_task x) (re_target x) s of
           (ok, s) \<Rightarrow> let (rest, s') = retry_in_loop e now xs s in (if ok then rest else x # rest, s'))
      else
        let n = RerouteRetryEntry e x
        in if n \<noteq> 0 \<and> IsAlive (net_cluster s) n then
             (case RetrySendToNode e (re_task x) n s of
                (ok, s) \<Rightarrow> let (rest, s') = retry_in_loop e now xs s in (if ok then rest else x\<lparr>re_target := n\<rparr> # rest, s'))
           else let (rest, s') = retry_in_loop e now xs s in (x # rest, s'))"

text \<open>
  The queue of results: a result whose node is back is handed to \<^verbatim>\<open>SendOut\<close>, which may
  append to the queue it is taken from.
\<close>

fun retry_out_loop :: "'r net_env \<Rightarrow> clock \<Rightarrow> 'r Remote RetryEntry list \<Rightarrow> 'r Net \<Rightarrow> 'r Remote RetryEntry list \<times> 'r Net" where
  "retry_out_loop e now [] s = ([], s)"
| "retry_out_loop e now (x # xs) s =
     (if entry_timeout e (rt_query (re_task x)) \<le> n_secs e (now - re_at x) then retry_out_loop e now xs s
      else if IsAlive (net_cluster s) (re_target x) then retry_out_loop e now xs (SendOut e now (re_task x) s)
      else let (rest, s') = retry_out_loop e now xs s in (x # rest, s'))"

definition ProcessRetryQueues :: "'r net_env \<Rightarrow> clock \<Rightarrow> 'r Net \<Rightarrow> 'r Net" where
  "ProcessRetryQueues e now s =
     (let (rest, s) = retry_in_loop e now (send_in_retry s) s;
          s = s\<lparr>send_in_retry := rest\<rparr>;
          q = send_out_retry s;
          (rest, s) = retry_out_loop e now q (s\<lparr>send_out_retry := []\<rparr>)
      in s\<lparr>send_out_retry := rest @ send_out_retry s\<rparr>)"

definition timed_out :: "'r net_env \<Rightarrow> clock \<Rightarrow> DeadNodeEntry list \<Rightarrow> 'r NetTask \<Rightarrow> bool" where
  "timed_out e now dead t \<longleftrightarrow>
     list_ex (\<lambda>q. routing_mode q = Physical \<and>
       (case map_of (rev (map (\<lambda>d. (dead_id d, detected_at d)) dead)) (ucast (query_node_id q)) of
          None \<Rightarrow> False
        | Some since \<Rightarrow> entry_timeout e (nt_query t) \<le> n_secs e (now - since))) (nt_queries t)"

definition scan_one :: "'r net_env \<Rightarrow> clock \<Rightarrow> DeadNodeEntry list \<Rightarrow> u64 \<Rightarrow> u64 \<Rightarrow> u64 list \<times> 'r Net \<Rightarrow> u64 list \<times> 'r Net" where
  "scan_one e now dead k v ks =
     (case net_tasks (snd ks) v of
        None \<Rightarrow> ks
      | Some t \<Rightarrow>
          if nt_has_ctx t \<and> timed_out e now dead t
          then (fst ks @ [k], upd_task v (\<lambda>t. t\<lparr>nt_rc := kNetworkTimeoutRC, nt_ended := nt_ended t + 1\<rparr>) (snd ks))
          else ks)"

definition erase_sent :: "'r net_env \<Rightarrow> u64 \<Rightarrow> 'r Net \<Rightarrow> 'r Net" where
  "erase_sent e k s = s\<lparr>send_map := snd (ml_erase (n_hash e) k (send_map s))\<rparr>"

definition ScanSendMapTimeouts :: "'r net_env \<Rightarrow> clock \<Rightarrow> 'r Net \<Rightarrow> 'r Net" where
  "ScanSendMapTimeouts e now s =
     (let dead = dead_nodes (net_cluster s)
      in if dead = [] then s
         else let (ks, s') = ml_for_each (scan_one e now dead) (send_map s) ([], s)
              in foldl (\<lambda>s k. erase_sent e k s) s' ks)"

text \<open>The periodic \<^verbatim>\<open>Send\<close>: retries, timeouts, then both queues of the network worker.\<close>

definition net_Send :: "'r net_env \<Rightarrow> clock \<Rightarrow> u64 list \<Rightarrow> 'r Remote list \<Rightarrow> 'r Net \<Rightarrow> 'r Net" where
  "net_Send e now ins outs s =
     (let s = ProcessRetryQueues e now s;
          s = ScanSendMapTimeouts e now s;
          s = foldl (\<lambda>s k. SendIn e now k s) s ins
      in foldl (\<lambda>s r. SendOut e now r s) s outs)"

definition GetWorkRemaining :: "'r Net \<Rightarrow> nat" where
  "GetWorkRemaining s = ml_size (send_map s) + ml_size (recv_map s)"

section \<open>A task and its replicas\<close>

lemma upd_task_simps [simp]:
  "net_tasks (upd_task k f s) j = (if j = k then map_option f (net_tasks s k) else net_tasks s j)"
  "send_map (upd_task k f s) = send_map s" "recv_map (upd_task k f s) = recv_map s" "net_cluster (upd_task k f s) = net_cluster s"
  "send_in_retry (upd_task k f s) = send_in_retry s" "send_out_retry (upd_task k f s) = send_out_retry s"
  "sent_in (upd_task k f s) = sent_in s" "sent_out (upd_task k f s) = sent_out s"
  by (simp_all add: upd_task_def)

text \<open>Task \<open>k\<close> waits for its \<open>N\<close> replicas, \<open>c\<close> of which are done.\<close>

definition waiting :: "'r net_env \<Rightarrow> u64 \<Rightarrow> nat \<Rightarrow> nat \<Rightarrow> 'r NetTask \<Rightarrow> 'r Net \<Rightarrow> bool" where
  "waiting e k N c t s \<longleftrightarrow>
     ml_inv (n_hash e) (send_map s) \<and> ml_find (n_hash e) (send_map s) k = Some k \<and> net_tasks s k = Some t \<and> nt_has_ctx t \<and>
     GetStaticContainer (n_pm e) (nt_pool t) \<noteq> None \<and> length (nt_subtasks t) = N \<and> unat (nt_completed t) = c \<and>
     N < 2 ^ 32 \<and> None \<notin> set (nt_subtasks t)"

definition others_same :: "'r net_env \<Rightarrow> u64 \<Rightarrow> 'r Net \<Rightarrow> 'r Net \<Rightarrow> bool" where
  "others_same e k s s' \<longleftrightarrow>
     (\<forall>j. j \<noteq> k \<longrightarrow> net_tasks s' j = net_tasks s j \<and> ml_find (n_hash e) (send_map s') j = ml_find (n_hash e) (send_map s) j)"

lemma others_same_refl: "others_same e k s s"
  by (simp add: others_same_def)

lemma others_same_trans: "others_same e k s s1 \<Longrightarrow> others_same e k s1 s2 \<Longrightarrow> others_same e k s s2"
  by (simp add: others_same_def)

lemma RecvOut_reply:
  assumes w: "waiting e k N c t s" and y: "ry_key y = k" "unat (ry_replica y) < N" and c: "c < N"
  shows "\<exists>t' s'. RecvOut e [y] s = (0, s') \<and> net_tasks s' k = Some t' \<and> nt_data t' = n_agg e (nt_data t) (ry_data y) \<and>
    others_same e k s s' \<and>
    (if Suc c = N then nt_ended t' = Suc (nt_ended t) \<and> ml_find (n_hash e) (send_map s') k = None \<and> ml_inv (n_hash e) (send_map s')
     else nt_ended t' = nt_ended t \<and> waiting e k N (Suc c) t' s')"
proof -
  let ?i = "unat (ry_replica y)"
  define t1 where "t1 = t\<lparr>nt_subtasks := (nt_subtasks t)[?i := map_option (\<lambda>r. r\<lparr>rp_data := ry_data y\<rparr>) (nt_subtasks t ! ?i)]\<rparr>"
  have d: "ml_inv (n_hash e) (send_map s)" "ml_find (n_hash e) (send_map s) k = Some k" "net_tasks s k = Some t" "nt_has_ctx t"
    "GetStaticContainer (n_pm e) (nt_pool t) \<noteq> None" "length (nt_subtasks t) = N" "unat (nt_completed t) = c" "N < 2 ^ 32"
    "None \<notin> set (nt_subtasks t)" using w by (simp_all add: waiting_def)
  obtain x where x: "GetStaticContainer (n_pm e) (nt_pool t) = Some x" using d(5) by blast
  obtain r where r: "nt_subtasks t ! ?i = Some r" using d(6,9) y(2) by (metis nth_mem option.exhaust)
  define t2 where "t2 = t1\<lparr>nt_data := n_agg e (nt_data t) (ry_data y), nt_completed := nt_completed t + 1\<rparr>"
  have "c + 1 < 2 ^ 32" using c d(8) by linarith
  then have c2: "unat (nt_completed t2) = Suc c" using d(7) by (simp add: t2_def unat_add_no_overflow)
  have len: "length (nt_subtasks t2) = N" "None \<notin> set (nt_subtasks t2)"
    using d(6,9) r y(2) by (auto simp: t2_def t1_def dest: set_update_subset_insert [THEN subsetD])
  define s1 where "s1 = upd_task k (\<lambda>t. t\<lparr>nt_subtasks := (nt_subtasks t)[?i := map_option (\<lambda>r. r\<lparr>rp_data := ry_data y\<rparr>) (nt_subtasks t ! ?i)]\<rparr>) s"
  have load: "load_replies e [y] s = (0, s1)" using d y by (simp add: s1_def)
  have s1: "net_tasks s1 k = Some t1" "send_map s1 = send_map s" "\<And>j. j \<noteq> k \<Longrightarrow> net_tasks s1 j = net_tasks s j"
    using d(3) by (simp_all add: s1_def t1_def)
  have sub: "nt_subtasks t1 ! ?i = Some (r\<lparr>rp_data := ry_data y\<rparr>)" "length (nt_subtasks t1) = N" "nt_has_ctx t1" "nt_pool t1 = nt_pool t"
    "nt_data t1 = nt_data t" "nt_completed t1 = nt_completed t" using r y(2) d by (simp_all add: t1_def)
  have ag: "aggregate_reply e y s1 =
      (if Suc c = N then s1\<lparr>net_tasks := (net_tasks s1)(k \<mapsto> finish_task t2), send_map := snd (ml_erase (n_hash e) k (send_map s))\<rparr>
       else s1\<lparr>net_tasks := (net_tasks s1)(k \<mapsto> t2)\<rparr>)"
    using d y s1 sub c2 len(1) x by (simp add: aggregate_reply_def Let_def t2_def)
  have ro: "RecvOut e [y] s = (0, aggregate_reply e y s1)" using load by (simp add: RecvOut_def)
  show ?thesis
  proof (cases "Suc c = N")
    case True
    then show ?thesis using ro ag s1 ml_find_erase [OF d(1)] ml_inv_erase [OF d(1)]
      by (auto simp: others_same_def finish_task_def t2_def t1_def)
  next
    case False
    then show ?thesis using ro ag s1 d c2 len by (auto simp: others_same_def waiting_def t2_def t1_def)
  qed
qed

fun recv_all :: "'r net_env \<Rightarrow> 'r Reply list \<Rightarrow> 'r Net \<Rightarrow> 'r Net" where
  "recv_all e [] s = s"
| "recv_all e (y # ys) s = recv_all e ys (snd (RecvOut e [y] s))"

lemma replies_complete:
  assumes "waiting e k N c t s" and "c + length ys \<le> N" and "c < N" and "\<And>y. y \<in> set ys \<Longrightarrow> ry_key y = k \<and> unat (ry_replica y) < N"
  shows "\<exists>t'. net_tasks (recv_all e ys s) k = Some t' \<and> nt_data t' = foldl (n_agg e) (nt_data t) (map ry_data ys) \<and>
    nt_ended t' = nt_ended t + (if c + length ys = N then 1 else 0) \<and>
    ml_find (n_hash e) (send_map (recv_all e ys s)) k = (if c + length ys = N then None else Some k) \<and>
    others_same e k s (recv_all e ys s)"
  using assms
proof (induction ys arbitrary: c t s)
  case Nil
  then show ?case by (simp add: waiting_def others_same_refl)
next
  case (Cons y ys)
  obtain t' s' where r: "RecvOut e [y] s = (0, s')" "net_tasks s' k = Some t'" "nt_data t' = n_agg e (nt_data t) (ry_data y)"
    "others_same e k s s'"
    "if Suc c = N then nt_ended t' = Suc (nt_ended t) \<and> ml_find (n_hash e) (send_map s') k = None \<and> ml_inv (n_hash e) (send_map s')
     else nt_ended t' = nt_ended t \<and> waiting e k N (Suc c) t' s'"
    using RecvOut_reply [OF Cons.prems(1) _ _ Cons.prems(3), of y] Cons.prems(4) by auto
  show ?case
  proof (cases "Suc c = N")
    case True
    then have "ys = []" using Cons.prems(2) by (cases ys) auto
    then show ?thesis using r True by auto
  next
    case False
    then have w: "waiting e k N (Suc c) t' s'" "nt_ended t' = nt_ended t" using r(5) by auto
    have "\<exists>t''. net_tasks (recv_all e ys s') k = Some t'' \<and> nt_data t'' = foldl (n_agg e) (nt_data t') (map ry_data ys) \<and>
      nt_ended t'' = nt_ended t' + (if Suc c + length ys = N then 1 else 0) \<and>
      ml_find (n_hash e) (send_map (recv_all e ys s')) k = (if Suc c + length ys = N then None else Some k) \<and>
      others_same e k s' (recv_all e ys s')"
      by (rule Cons.IH [OF w(1)]) (use Cons.prems False in auto)
    then show ?thesis using r w(2) others_same_trans [OF r(4)] by auto
  qed
qed

text \<open>A query whose node is known and alive and takes the replica.\<close>

definition reachable_query :: "'r net_env \<Rightarrow> Cluster \<Rightarrow> u64 \<Rightarrow> 'r NetTask \<Rightarrow> nat \<Rightarrow> PoolQuery \<Rightarrow> u64 \<Rightarrow> bool" where
  "reachable_query e c k t i q n \<longleftrightarrow>
     send_target (n_route e) (n_pm e) (nt_pool t) q = Some n \<and> GetHost c n \<noteq> None \<and> IsAlive c n \<and> n_connect e n \<and>
     n_send e n k (of_nat i)"

fun replicas_from :: "'r net_env \<Rightarrow> u64 \<Rightarrow> 'r NetTask \<Rightarrow> nat \<Rightarrow> PoolQuery list \<Rightarrow> 'r Replica list" where
  "replicas_from e k t i [] = []"
| "replicas_from e k t i (q # qs) = new_replica e k t i q # replicas_from e k t (Suc i) qs"

lemma length_replicas_from [simp]: "length (replicas_from e k t i qs) = length qs"
  by (induction qs arbitrary: i) auto

lemma send_replicas_all:
  assumes "net_tasks s k = Some u" and "nt_subtasks u = pre @ replicate (length qs) None" and "length pre = i"
    and "length ns = length qs" and "\<And>j. j < length qs \<Longrightarrow> reachable_query e (net_cluster s) k t (i + j) (qs ! j) (ns ! j)"
  shows "\<exists>s'. send_replicas e now k t i qs s = s' \<and>
    net_tasks s' k = Some (u\<lparr>nt_subtasks := pre @ map Some (replicas_from e k t i qs)\<rparr>) \<and>
    sent_in s' = sent_in s @ zip ns (replicas_from e k t i qs) \<and> send_map s' = send_map s \<and>
    (\<forall>j. j \<noteq> k \<longrightarrow> net_tasks s' j = net_tasks s j) \<and> send_in_retry s' = send_in_retry s \<and> net_cluster s' = net_cluster s"
  using assms
proof (induction qs arbitrary: i ns pre u s)
  case (Cons q qs)
  obtain n ms where ns: "ns = n # ms" using Cons.prems(4) by (cases ns) auto
  let ?r = "new_replica e k t i q"
  let ?u = "u\<lparr>nt_subtasks := (pre @ [Some ?r]) @ replicate (length qs) None\<rparr>"
  have q: "reachable_query e (net_cluster s) k t i q n" using Cons.prems(5) [of 0] ns by simp
  have "(nt_subtasks u)[i := Some ?r] = (pre @ [Some ?r]) @ replicate (length qs) None"
    using Cons.prems(2,3) by (simp add: list_update_append)
  then have step: "send_replica e now k t i q s = (upd_task k (\<lambda>_. ?u) s)\<lparr>sent_in := sent_in s @ [(n, ?r)]\<rparr>"
    using q Cons.prems(1) by (auto simp: send_replica_def reachable_query_def Let_def upd_task_def fun_upd_def fun_eq_iff)
  define s1 where "s1 = send_replica e now k t i q s"
  have s1: "net_tasks s1 k = Some ?u" "net_cluster s1 = net_cluster s" "sent_in s1 = sent_in s @ [(n, ?r)]" "send_map s1 = send_map s"
    "send_in_retry s1 = send_in_retry s" "\<And>j. j \<noteq> k \<Longrightarrow> net_tasks s1 j = net_tasks s j"
    using Cons.prems(1) by (simp_all add: s1_def step)
  have reach: "reachable_query e (net_cluster s1) k t (Suc i + j) (qs ! j) (ms ! j)" if "j < length qs" for j
    using Cons.prems(5) [of "Suc j"] that ns s1(2) by simp
  obtain s' where s': "send_replicas e now k t (Suc i) qs s1 = s'"
    "net_tasks s' k = Some (?u\<lparr>nt_subtasks := (pre @ [Some ?r]) @ map Some (replicas_from e k t (Suc i) qs)\<rparr>)"
    "sent_in s' = sent_in s1 @ zip ms (replicas_from e k t (Suc i) qs)" "send_map s' = send_map s1"
    "\<forall>j. j \<noteq> k \<longrightarrow> net_tasks s' j = net_tasks s1 j" "send_in_retry s' = send_in_retry s1" "net_cluster s' = net_cluster s1"
    using Cons.IH [OF s1(1), of "pre @ [Some ?r]" "Suc i" ms] reach Cons.prems(3,4) ns by auto
  show ?case using s' s1 ns by (simp add: s1_def [symmetric])
qed simp

lemma None_notin_map_Some [simp]: "None \<notin> set (map Some xs)"
  by auto

text \<open>
  C14. A remote task completes exactly once, with the results of its replicas. When
  the nodes of all its \<open>N\<close> queries take their replica, one replica is sent per query, to
  the node the address table names; the task stays pending through the first \<open>N - 1\<close>
  replies, ends with the \<open>N\<close>-th, its data being the aggregate of the replies in the
  order of their arrival, and leaves the send map then. Other tasks are not affected.
\<close>

theorem remote_task_completes_once:
  assumes "net_tasks s k = Some t" and "nt_has_ctx t" and "GetStaticContainer (n_pm e) (nt_pool t) \<noteq> None"
    and "nt_subtasks t = []" and "nt_completed t = 0" and "ml_inv (n_hash e) (send_map s)"
    and "0 < length (nt_queries t)" and "length (nt_queries t) < 2 ^ 32" and "length ns = length (nt_queries t)"
    and "\<And>i. i < length (nt_queries t) \<Longrightarrow> reachable_query e (net_cluster s) k t i (nt_queries t ! i) (ns ! i)"
    and "\<And>y. y \<in> set ys \<Longrightarrow> ry_key y = k \<and> unat (ry_replica y) < length (nt_queries t)"
    and "length ys \<le> length (nt_queries t)"
  shows "sent_in (SendIn e now k s) = sent_in s @ zip ns (replicas_from e k t 0 (nt_queries t)) \<and>
    (\<exists>t'. net_tasks (recv_all e ys (SendIn e now k s)) k = Some t' \<and>
      nt_data t' = foldl (n_agg e) (nt_data t) (map ry_data ys) \<and>
      nt_ended t' = nt_ended t + (if length ys = length (nt_queries t) then 1 else 0) \<and>
      ml_find (n_hash e) (send_map (recv_all e ys (SendIn e now k s))) k = (if length ys = length (nt_queries t) then None else Some k) \<and>
      others_same e k s (recv_all e ys (SendIn e now k s)))"
proof -
  let ?N = "length (nt_queries t)" and ?m = "snd (ml_insert_or_assign (n_hash e) k k (send_map s))"
  define s0 where "s0 = upd_task k (\<lambda>t. t\<lparr>nt_subtasks := vec_resize (length (nt_queries t)) None (nt_subtasks t)\<rparr>) (s\<lparr>send_map := ?m\<rparr>)"
  let ?u = "t\<lparr>nt_subtasks := replicate ?N None\<rparr>"
  have "net_tasks s0 k = Some ?u" using assms(1,4) by (simp add: s0_def vec_resize_def)
  moreover have "net_cluster s0 = net_cluster s" "sent_in s0 = sent_in s" "send_map s0 = ?m" "\<And>j. j \<noteq> k \<Longrightarrow> net_tasks s0 j = net_tasks s j"
    by (simp_all add: s0_def)
  moreover have si: "SendIn e now k s = send_replicas e now k t 0 (nt_queries t) s0"
    using assms(1-3) by (auto simp: SendIn_def Let_def s0_def)
  ultimately obtain s1 where s1: "SendIn e now k s = s1"
    "net_tasks s1 k = Some (?u\<lparr>nt_subtasks := map Some (replicas_from e k t 0 (nt_queries t))\<rparr>)"
    "sent_in s1 = sent_in s @ zip ns (replicas_from e k t 0 (nt_queries t))" "send_map s1 = ?m" "\<And>j. j \<noteq> k \<Longrightarrow> net_tasks s1 j = net_tasks s j"
    using send_replicas_all [of s0 k ?u "[]" "nt_queries t" 0 ns e t now] assms(9,10) by auto
  let ?t = "?u\<lparr>nt_subtasks := map Some (replicas_from e k t 0 (nt_queries t))\<rparr>"
  have "waiting e k ?N 0 ?t s1"
    using assms(2,3,5,6,8) s1(2,4) ll.lookup_upd [OF assms(6)] ll.invar_upd [OF assms(6)] by (simp add: waiting_def)
  from replies_complete [OF this, of ys] assms(7,11,12)
  have "\<exists>t'. net_tasks (recv_all e ys s1) k = Some t' \<and> nt_data t' = foldl (n_agg e) (nt_data t) (map ry_data ys) \<and>
      nt_ended t' = nt_ended t + (if length ys = ?N then 1 else 0) \<and>
      ml_find (n_hash e) (send_map (recv_all e ys s1)) k = (if length ys = ?N then None else Some k) \<and> others_same e k s1 (recv_all e ys s1)"
    by auto
  moreover have "others_same e k s s1" using s1(4,5) ll.lookup_upd [OF assms(6)] by (simp add: others_same_def)
  ultimately show ?thesis using s1(1,3) others_same_trans by blast
qed

section \<open>Results that are lost, tasks that never end\<close>

text \<open>
  A result that could not be returned is never returned. \<^verbatim>\<open>SendOut\<close> takes the task
  out of \<^verbatim>\<open>recv_map_\<close> before it finds the node dead and queues the result; when the node is
  alive again the retry calls \<^verbatim>\<open>SendOut\<close>, which does not find the task, returns, and the
  entry is dropped. Nothing is ever sent.
\<close>

theorem retried_result_is_lost:
  assumes "ml_inv (n_hash e) (recv_map s)" and "ml_find (n_hash e) (recv_map s) (recv_key r) \<noteq> None"
    and "GetStaticContainer (n_pm e) (rt_pool r) \<noteq> None" and "\<not> IsAlive (net_cluster s) (ucast (ret_node (rt_query r)))"
    and "send_in_retry s = []" and "send_out_retry s = []" and "IsAlive c (ucast (ret_node (rt_query r)))"
  shows "map re_task (send_out_retry (SendOut e now r s)) = [r] \<and>
    sent_out (ProcessRetryQueues e now' ((SendOut e now r s)\<lparr>net_cluster := c\<rparr>)) = sent_out s \<and>
    send_out_retry (ProcessRetryQueues e now' ((SendOut e now r s)\<lparr>net_cluster := c\<rparr>)) = []"
proof -
  let ?m = "snd (ml_erase (n_hash e) (recv_key r) (recv_map s))"
  define s1 where "s1 = SendOut e now r s"
  obtain x where x: "GetStaticContainer (n_pm e) (rt_pool r) = Some x" using assms(3) by blast
  have s1: "s1 = retry_out r (ucast (ret_node (rt_query r))) now (s\<lparr>recv_map := ?m\<rparr>)"
    using assms(2,4) x by (auto simp: s1_def SendOut_def Let_def)
  have gone: "ml_find (n_hash e) ?m (recv_key r) = None" using ml_find_erase [OF assms(1)] by simp
  have so: "SendOut e now' r (s1\<lparr>net_cluster := c, send_in_retry := [], send_out_retry := []\<rparr>) =
      s1\<lparr>net_cluster := c, send_in_retry := [], send_out_retry := []\<rparr>"
    using gone x by (simp add: SendOut_def s1 retry_out_def)
  show ?thesis
    using assms(5,6,7) so by (simp add: s1_def [symmetric] ProcessRetryQueues_def s1 retry_out_def)
qed

lemma SendOut_frame [simp]:
  "net_tasks (SendOut e now r s) = net_tasks s" "send_map (SendOut e now r s) = send_map s" "send_in_retry (SendOut e now r s) = send_in_retry s"
  by (simp_all add: SendOut_def Let_def retry_out_def mark_dead_def)

lemma retry_out_loop_frame:
  "net_tasks (snd (retry_out_loop e now xs s)) = net_tasks s \<and> send_map (snd (retry_out_loop e now xs s)) = send_map s \<and>
   send_in_retry (snd (retry_out_loop e now xs s)) = send_in_retry s"
  by (induction e now xs s rule: retry_out_loop.induct) (auto simp: Let_def split: prod.splits)

lemma ProcessRetryQueues_frame:
  assumes "send_in_retry s = []"
  shows "net_tasks (ProcessRetryQueues e now s) = net_tasks s \<and> send_map (ProcessRetryQueues e now s) = send_map s \<and>
    send_in_retry (ProcessRetryQueues e now s) = []"
  using retry_out_loop_frame [of e now "send_out_retry s" "s\<lparr>send_in_retry := [], send_out_retry := []\<rparr>"] assms
  by (simp add: ProcessRetryQueues_def Let_def case_prod_unfold)

lemma scan_frame:
  assumes "net_tasks (snd a) k = Some t" and "\<not> timed_out e now dead t" and "k \<notin> set (fst a)"
    and "\<And>j v. (j, v) \<in> set xs \<Longrightarrow> j = k \<Longrightarrow> v = k"
  shows "net_tasks (snd (foldl (\<lambda>a x. scan_one e now dead (fst x) (snd x) a) a xs)) k = Some t \<and>
    k \<notin> set (fst (foldl (\<lambda>a x. scan_one e now dead (fst x) (snd x) a) a xs)) \<and>
    send_map (snd (foldl (\<lambda>a x. scan_one e now dead (fst x) (snd x) a) a xs)) = send_map (snd a) \<and>
    send_in_retry (snd (foldl (\<lambda>a x. scan_one e now dead (fst x) (snd x) a) a xs)) = send_in_retry (snd a)"
  using assms
proof (induction xs arbitrary: a)
  case (Cons x xs)
  let ?b = "scan_one e now dead (fst x) (snd x) a"
  have "fst x = k \<Longrightarrow> snd x = k" using Cons.prems(4) [of "fst x" "snd x"] by (metis list.set_intros(1) prod.collapse)
  then have "net_tasks (snd ?b) k = Some t" "k \<notin> set (fst ?b)" "send_map (snd ?b) = send_map (snd a)" "send_in_retry (snd ?b) = send_in_retry (snd a)"
    using Cons.prems(1-3) by (auto simp: scan_one_def split: option.split)
  then show ?case using Cons.IH [of ?b] Cons.prems(2,4) by simp
qed simp

lemma erase_all_sent:
  assumes "ml_inv (n_hash e) (send_map s)"
  shows "ml_inv (n_hash e) (send_map (foldl (\<lambda>s k. erase_sent e k s) s ks)) \<and>
    ml_find (n_hash e) (send_map (foldl (\<lambda>s k. erase_sent e k s) s ks)) j = (if j \<in> set ks then None else ml_find (n_hash e) (send_map s) j) \<and>
    net_tasks (foldl (\<lambda>s k. erase_sent e k s) s ks) = net_tasks s \<and> send_in_retry (foldl (\<lambda>s k. erase_sent e k s) s ks) = send_in_retry s"
  using assms
proof (induction ks arbitrary: s)
  case (Cons x ks)
  have "ml_inv (n_hash e) (send_map (erase_sent e x s))" using ll.invar_del [OF Cons.prems] by (simp add: erase_sent_def)
  from Cons.IH [OF this] show ?case using ll.lookup_del [OF Cons.prems] by (simp add: erase_sent_def)
qed simp

lemma ScanSendMapTimeouts_frame:
  assumes "ml_inv (n_hash e) (send_map s)" and "ml_find (n_hash e) (send_map s) k = Some k" and "net_tasks s k = Some t"
    and "\<And>dead. \<not> timed_out e now dead t"
  shows "ml_inv (n_hash e) (send_map (ScanSendMapTimeouts e now s)) \<and>
    ml_find (n_hash e) (send_map (ScanSendMapTimeouts e now s)) k = Some k \<and> net_tasks (ScanSendMapTimeouts e now s) k = Some t \<and>
    send_in_retry (ScanSendMapTimeouts e now s) = send_in_retry s"
proof (cases "dead_nodes (net_cluster s) = []")
  case False
  let ?d = "dead_nodes (net_cluster s)"
  let ?r = "foldl (\<lambda>a x. scan_one e now ?d (fst x) (snd x) a) ([], s) (ml_entries (send_map s))"
  have "v = k" if "(j, v) \<in> set (ml_entries (send_map s))" "j = k" for j v
    using that ll.in_entries_iff [OF assms(1)] assms(2) by auto
  then have fr: "net_tasks (snd ?r) k = Some t" "k \<notin> set (fst ?r)" "send_map (snd ?r) = send_map s" "send_in_retry (snd ?r) = send_in_retry s"
    using scan_frame [of "([], s)" k t e now ?d "ml_entries (send_map s)"] assms(3,4) by simp_all
  have "ScanSendMapTimeouts e now s = foldl (\<lambda>s k. erase_sent e k s) (snd ?r) (fst ?r)"
    using False by (simp add: ScanSendMapTimeouts_def ml_for_each_entries case_prod_unfold Let_def)
  then show ?thesis using erase_all_sent [of e "snd ?r" "fst ?r" k] fr assms(1,2) by simp
qed (use assms in \<open>simp add: ScanSendMapTimeouts_def\<close>)

lemma not_timed_out: "list_all (\<lambda>q. routing_mode q \<noteq> Physical) (nt_queries t) \<Longrightarrow> \<not> timed_out e now dead t"
  by (induction "nt_queries t") (auto simp: timed_out_def list_ex_iff list_all_iff)

text \<open>
  C39. A task whose last outstanding replica is discarded never ends. When a node
  that was marked dead is heard of again, the replicas queued for it are dropped and
  counted as completed, but only a reply ends a task: if the dropped replica was the
  last one, the task has all its replicas counted, no reply left to come and no queue
  entry, and stays in the send map unfinished through every later run of \<^verbatim>\<open>Send\<close>,
  unless one of its queries names a node directly.
\<close>

theorem discarded_last_replica_hangs:
  assumes "waiting e k N (N - 1) t s" and "0 < N" and "send_in_retry s = [x]" and "rp_key (re_task x) = k"
    and "re_target x = ucast (ret_node (rt_query r))" and "ucast (ret_node (rt_query r)) \<noteq> r_node (n_route e)"
    and "GetNodeState (net_cluster s) (ucast (ret_node (rt_query r))) = kDead" and "GetStaticContainer (n_pm e) p \<noteq> None"
    and "list_all (\<lambda>q. routing_mode q \<noteq> Physical) (nt_queries t)"
  shows "\<exists>t'. net_tasks (foldl (\<lambda>s now. net_Send e now [] [] s) (RecvIn e now [(p, Some r)] s) clocks) k = Some t' \<and>
    unat (nt_completed t') = length (nt_subtasks t') \<and> nt_ended t' = nt_ended t \<and>
    ml_find (n_hash e) (send_map (foldl (\<lambda>s now. net_Send e now [] [] s) (RecvIn e now [(p, Some r)] s) clocks)) k = Some k"
proof -
  let ?t = "t\<lparr>nt_completed := nt_completed t + 1\<rparr>"
  define s1 where "s1 = RecvIn e now [(p, Some r)] s"
  have w: "ml_inv (n_hash e) (send_map s)" "ml_find (n_hash e) (send_map s) k = Some k" "net_tasks s k = Some t" "nt_has_ctx t"
    "length (nt_subtasks t) = N" "unat (nt_completed t) = N - 1" "N < 2 ^ 32" using assms(1) by (simp_all add: waiting_def)
  have "unat (nt_completed t + 1) = N" using w(6,7) assms(2) by (simp add: unat_add_no_overflow)
  then have full: "unat (nt_completed ?t) = length (nt_subtasks ?t)" using w(5) by simp
  have s1: "ml_inv (n_hash e) (send_map s1)" "ml_find (n_hash e) (send_map s1) k = Some k" "net_tasks s1 k = Some ?t" "send_in_retry s1 = []"
    using assms(3-8) w(1-4) by (auto simp: s1_def RecvIn_def recv_one_def FlushStaleStateForNode_def flush_one_def Let_def)
  have nt: "\<not> timed_out e now dead ?t" for now dead using not_timed_out [of ?t] assms(9) by simp
  have "ml_inv (n_hash e) (send_map s') \<and> ml_find (n_hash e) (send_map s') k = Some k \<and> net_tasks s' k = Some ?t \<and> send_in_retry s' = []"
    if "s' = foldl (\<lambda>s now. net_Send e now [] [] s) s1 clocks" for s'
    using that s1
  proof (induction clocks arbitrary: s' rule: rev_induct)
    case (snoc now clocks)
    let ?u = "foldl (\<lambda>s now. net_Send e now [] [] s) s1 clocks"
    note u = snoc.IH [OF refl snoc.prems(2-5)]
    have "net_Send e now [] [] ?u = ScanSendMapTimeouts e now (ProcessRetryQueues e now ?u)" by (simp add: net_Send_def Let_def)
    then show ?case
      using u ProcessRetryQueues_frame [of ?u e now] ScanSendMapTimeouts_frame [of e "ProcessRetryQueues e now ?u" k ?t now] nt snoc.prems(1)
      by simp
  qed simp
  then show ?thesis using full by (auto simp: s1_def)
qed

text \<open>
  The key of a received task combines the sender's task pointer with the replica
  number and not the sender itself. Replicas of two nodes with equal pointers share an
  entry of \<^verbatim>\<open>recv_map_\<close>, and once the result of one is sent the result of the other is not.
\<close>

theorem colliding_result_is_lost:
  assumes "rt_key r1 = rt_key r2" and "rt_replica r1 = rt_replica r2" and "ml_inv (n_hash e) (recv_map s)"
    and "GetStaticContainer (n_pm e) (rt_pool r1) \<noteq> None"
  shows "SendOut e now' r2 (SendOut e now r1 s) = SendOut e now r1 s"
proof -
  have "recv_key r2 = recv_key r1" using assms(1,2) by (simp add: recv_key_def)
  moreover have "ml_find (n_hash e) (recv_map (SendOut e now r1 s)) (recv_key r1) = None"
    using assms(3,4) ml_find_erase [OF assms(3)] by (auto simp: SendOut_def Let_def retry_out_def mark_dead_def)
  ultimately show ?thesis by (simp add: SendOut_def [of e now' r2])
qed

section \<open>A cluster of two nodes\<close>

definition demo_net_env :: "nat net_env" where
  "demo_net_env = \<lparr>n_route = node_env demo_cluster 0, n_pm = cl_state demo_cluster 0, n_hash = (\<lambda>k. k), n_connect = (\<lambda>_. True),
     n_send = (\<lambda>_ _ _. True), n_port = 5555, n_fval = (\<lambda>b. if b = neg_one_f then - 1 else 0), n_secs = (\<lambda>d. of_int d / 1000000000),
     n_agg = (+)\<rparr>"

definition demo_hosts :: "NodeState \<Rightarrow> Cluster" where
  "demo_hosts st = \<lparr>hostfile_map = [(0, Host_new ''a'' 0 0), (1, (Host_new ''b'' 1 0)\<lparr>host_state := st\<rparr>)], hosts_cache = [],
     hosts_cache_valid = False, dead_nodes = [], this_node = 0, self_fenced = False, client_pool = []\<rparr>"

definition demo_origin :: "nat NetTask" where
  "demo_origin = \<lparr>nt_pool = ct_new_pool_id demo_create, nt_query = PoolQuery_Broadcast neg_one_f, nt_has_ctx = True,
     nt_queries = [PoolQuery_Range 0 1 neg_one_f, PoolQuery_Range 1 1 neg_one_f], nt_subtasks = [], nt_completed = 0, nt_data = 0,
     nt_rc = 0, nt_ended = 0\<rparr>"

definition demo_net :: "nat Net" where
  "demo_net = \<lparr>net_cluster = demo_hosts kAlive, send_map = ml_create 4, recv_map = ml_create 4,
     net_tasks = (\<lambda>k. if k = 100 then Some demo_origin else None), send_in_retry = [], send_out_retry = [], sent_in = [], sent_out = [],
     dispatched = []\<rparr>"

lemma demo_map_inv: "ml_inv h (ml_create 4)"
  by (rule ml_inv_create) simp

lemma demo_static: "GetStaticContainer (n_pm demo_net_env) (ct_new_pool_id demo_create) = Some 7"
  by (simp add: demo_net_env_def GetStaticContainer_def demo_cluster_def demo_pm_def complete_info_def)

theorem remote_task_completes_once_witness:
  "\<exists>t'. net_tasks (recv_all demo_net_env [\<lparr>ry_key = 100, ry_replica = 1, ry_data = 5\<rparr>, \<lparr>ry_key = 100, ry_replica = 0, ry_data = 7\<rparr>]
      (SendIn demo_net_env 0 100 demo_net)) 100 = Some t' \<and> nt_data t' = 12 \<and> nt_ended t' = 1"
proof -
  let ?e = demo_net_env and ?t = demo_origin and ?p = "ct_new_pool_id demo_create"
  have nodes: "GetContainerNodeId (n_pm ?e) ?p 0 = 0" "GetContainerNodeId (n_pm ?e) ?p 1 = 1"
    by (simp_all add: demo_net_env_def demo_cluster_def GetContainerNodeId_def GetPoolInfo_def demo_pm_def complete_info_def fresh_info_def
        PoolInfo_new_def init_map_loop_lookup demo_node_env_def)
  have r: "reachable_query ?e (net_cluster demo_net) 100 ?t i (nt_queries ?t ! i) ([0, 1] ! i)" if "i < length (nt_queries ?t)" for i
  proof -
    have "i = 0 \<or> i = 1" using that by (auto simp: demo_origin_def)
    then show ?thesis using nodes
      by (auto simp: reachable_query_def demo_origin_def send_target_def demo_net_def demo_hosts_def GetHost_def IsAlive_def Host_new_def
          demo_net_env_def)
  qed
  define ys where "ys = [\<lparr>ry_key = 100, ry_replica = 1, ry_data = 5\<rparr>, \<lparr>ry_key = 100, ry_replica = 0, ry_data = 7 :: nat\<rparr>]"
  have y: "ry_key y = 100 \<and> unat (ry_replica y) < length (nt_queries ?t)" if "y \<in> set ys" for y
    using that by (auto simp: ys_def demo_origin_def)
  have st: "GetStaticContainer (n_pm ?e) (nt_pool ?t) \<noteq> None" using demo_static by (simp add: demo_origin_def)
  have t: "net_tasks demo_net 100 = Some ?t" "nt_has_ctx ?t" "nt_subtasks ?t = []" "nt_completed ?t = 0" "0 < length (nt_queries ?t)"
    "length (nt_queries ?t) < 2 ^ 32" "length [0, 1 :: u64] = length (nt_queries ?t)" "length ys \<le> length (nt_queries ?t)"
    by (simp_all add: demo_net_def demo_origin_def ys_def)
  have m: "ml_inv (n_hash ?e) (send_map demo_net)" by (simp add: demo_net_def demo_map_inv)
  have "\<exists>t'. net_tasks (recv_all ?e ys (SendIn ?e 0 100 demo_net)) 100 = Some t' \<and> nt_data t' = foldl (n_agg ?e) (nt_data ?t) (map ry_data ys) \<and>
      nt_ended t' = nt_ended ?t + (if length ys = length (nt_queries ?t) then 1 else 0)"
    using remote_task_completes_once [OF t(1,2) st t(3,4) m t(5-7) r y t(8)] by blast
  then show ?thesis by (simp add: ys_def demo_origin_def demo_net_env_def)
qed

definition demo_remote :: "nat Remote" where
  "demo_remote = \<lparr>rt_key = 9, rt_replica = 0, rt_pool = ct_new_pool_id demo_create, rt_query = SetReturnNode 1 PoolQuery_Local, rt_data = 3\<rparr>"

definition demo_net_dead :: "nat Net" where
  "demo_net_dead = demo_net\<lparr>net_cluster := demo_hosts kDead,
     recv_map := snd (ml_insert_or_assign (n_hash demo_net_env) (recv_key demo_remote) demo_remote (ml_create 4))\<rparr>"

lemma demo_ret_node: "ucast (ret_node (rt_query demo_remote)) = (1 :: u64)"
  by (simp add: demo_remote_def SetReturnNode_def)

theorem retried_result_is_lost_witness:
  "sent_out (ProcessRetryQueues demo_net_env 5 ((SendOut demo_net_env 0 demo_remote demo_net_dead)\<lparr>net_cluster := demo_hosts kAlive\<rparr>)) = [] \<and>
   send_out_retry (ProcessRetryQueues demo_net_env 5 ((SendOut demo_net_env 0 demo_remote demo_net_dead)\<lparr>net_cluster := demo_hosts kAlive\<rparr>)) = []"
proof -
  have "ml_inv (n_hash demo_net_env) (recv_map demo_net_dead)" "ml_find (n_hash demo_net_env) (recv_map demo_net_dead) (recv_key demo_remote) \<noteq> None"
    by (simp_all add: demo_net_dead_def ll.invar_upd [OF demo_map_inv] ll.lookup_upd [OF demo_map_inv])
  moreover have "\<not> IsAlive (net_cluster demo_net_dead) 1" "IsAlive (demo_hosts kAlive) 1"
    by (simp_all add: demo_net_dead_def demo_hosts_def IsAlive_def Host_new_def)
  moreover have "rt_pool demo_remote = ct_new_pool_id demo_create" "send_in_retry demo_net_dead = []" "send_out_retry demo_net_dead = []"
    "sent_out demo_net_dead = []" by (simp_all add: demo_remote_def demo_net_dead_def demo_net_def)
  ultimately show ?thesis
    using retried_result_is_lost [of demo_net_env demo_net_dead demo_remote "demo_hosts kAlive" 0 5] demo_ret_node demo_static by simp
qed

definition demo_pending :: "nat Net" where
  "demo_pending = demo_net\<lparr>net_cluster := demo_hosts kDead,
     send_map := snd (ml_insert_or_assign (n_hash demo_net_env) 100 100 (ml_create 4)),
     net_tasks := (\<lambda>k. if k = 100 then Some (demo_origin\<lparr>nt_queries := [PoolQuery_Range 1 1 neg_one_f],
        nt_subtasks := [Some (new_replica demo_net_env 100 demo_origin 0 (PoolQuery_Range 1 1 neg_one_f))]\<rparr>) else None),
     send_in_retry := [\<lparr>re_task = new_replica demo_net_env 100 demo_origin 0 (PoolQuery_Range 1 1 neg_one_f), re_target = 1, re_at = 0\<rparr>]\<rparr>"

theorem discarded_last_replica_hangs_witness:
  "\<exists>t'. net_tasks (foldl (\<lambda>s now. net_Send demo_net_env now [] [] s)
      (RecvIn demo_net_env 1 [(ct_new_pool_id demo_create, Some demo_remote)] demo_pending) [100000000000]) 100 = Some t' \<and>
    unat (nt_completed t') = length (nt_subtasks t') \<and> nt_ended t' = 0"
proof -
  let ?t = "demo_origin\<lparr>nt_queries := [PoolQuery_Range 1 1 neg_one_f],
        nt_subtasks := [Some (new_replica demo_net_env 100 demo_origin 0 (PoolQuery_Range 1 1 neg_one_f))]\<rparr>"
  have "waiting demo_net_env 100 1 (1 - 1) ?t demo_pending"
    using demo_static
    by (simp add: waiting_def demo_pending_def demo_origin_def ll.invar_upd [OF demo_map_inv] ll.lookup_upd [OF demo_map_inv])
  moreover have "GetNodeState (net_cluster demo_pending) 1 = kDead" "r_node (n_route demo_net_env) = 0"
    by (simp_all add: demo_pending_def demo_hosts_def GetNodeState_def Host_new_def demo_net_env_def)
  ultimately show ?thesis
    using discarded_last_replica_hangs [of demo_net_env 100 1 ?t demo_pending
        "\<lparr>re_task = new_replica demo_net_env 100 demo_origin 0 (PoolQuery_Range 1 1 neg_one_f), re_target = 1, re_at = 0\<rparr>"
        demo_remote "ct_new_pool_id demo_create" 1 "[100000000000]"] demo_ret_node demo_static
    by (auto simp: demo_pending_def new_replica_def demo_origin_def)
qed

end
