(* ===== verification/Address_Wal.thy ===== *)
theory Address_Wal
  imports Pool_Manager "HOL-Library.Multiset"
begin

text \<open>
  The write-ahead log of the address tables (pool\_manager.cc): one file per pool and
  node in the log directory, a record per change of a container's node, and the
  replay of all files after a restart. The admin handler \<^verbatim>\<open>ChangeAddressTable\<close>
  (admin\_runtime.cc) logs a change and then applies it.

  The directory is the list of its files in the order in which the iterator gives
  them. A record is the object representation of its fields on a little-endian machine.
\<close>

type_synonym wal_dir = "(string \<times> u8 list) list"

record WalEntry =
  we_timestamp :: u64
  we_pool :: PoolId
  we_container :: u32
  we_old :: u32
  we_new :: u32

definition wal_name :: "PoolId \<Rightarrow> u32 \<Rightarrow> string" where
  "wal_name p node =
     ''domain_table.'' @ to_string (unat (id_major p)) @ ''.'' @ to_string (unat (id_minor p)) @ ''.'' @ to_string (unat node) @ ''.bin''"

definition wal_bytes :: "WalEntry \<Rightarrow> u8 list" where
  "wal_bytes x =
     le_bytes 8 (unat (we_timestamp x)) @ le_bytes 4 (unat (id_major (we_pool x))) @ le_bytes 4 (unat (id_minor (we_pool x))) @
     le_bytes 4 (unat (we_container x)) @ le_bytes 4 (unat (we_old x)) @ le_bytes 4 (unat (we_new x))"

text \<open>
  \<^verbatim>\<open>WriteAddressTableWAL\<close>: the record is appended to the file of the pool, which is
  made when it does not exist; \<open>opens\<close> is false when the file cannot be opened.
\<close>

definition WriteAddressTableWAL :: "bool \<Rightarrow> u32 \<Rightarrow> WalEntry \<Rightarrow> wal_dir \<Rightarrow> wal_dir" where
  "WriteAddressTableWAL opens node x d =
     (if \<not> opens then d
      else
        let f = wal_name (we_pool x) node;
            old = (case map_of d f of None \<Rightarrow> [] | Some b \<Rightarrow> b)
        in AList.update f (old @ wal_bytes x) d)"

text \<open>The fields are read one after the other; a read that runs past the end fails and ends the file.\<close>

definition read_fields :: "u8 list \<Rightarrow> WalEntry" where
  "read_fields b =
     \<lparr>we_timestamp = of_nat (le_val (take 8 b)),
      we_pool = \<lparr>id_major = of_nat (le_val (take 4 (drop 8 b))), id_minor = of_nat (le_val (take 4 (drop 12 b)))\<rparr>,
      we_container = of_nat (le_val (take 4 (drop 16 b))), we_old = of_nat (le_val (take 4 (drop 20 b))),
      we_new = of_nat (le_val (take 4 (drop 24 b)))\<rparr>"

function replay_file :: "u8 list \<Rightarrow> PoolManager \<Rightarrow> PoolManager" where
  "replay_file b s =
     (if length b < 28 then s
      else let x = read_fields b
           in replay_file (drop 28 b) (snd (UpdateContainerNodeMapping (we_pool x) (we_container x) (we_new x) s)))"
  by pat_completeness auto

termination replay_file
  by (relation "measure (\<lambda>(b, _). length b)") auto

declare replay_file.simps [simp del]

definition is_bin :: "string \<Rightarrow> bool" where
  "is_bin f \<longleftrightarrow> 4 < length f \<and> drop (length f - 4) f = ''.bin''"

text \<open>\<^verbatim>\<open>ReplayAddressTableWAL\<close>; \<open>None\<close> when there is no log directory. A file with no content is one that cannot be opened.\<close>

definition ReplayAddressTableWAL :: "wal_dir option \<Rightarrow> PoolManager \<Rightarrow> PoolManager" where
  "ReplayAddressTableWAL d s =
     (case d of
        None \<Rightarrow> s
      | Some fs \<Rightarrow> foldl (\<lambda>s (f, b). if is_bin f then replay_file b s else s) s fs)"

definition ChangeAddressTable :: "bool \<Rightarrow> u32 \<Rightarrow> u64 \<Rightarrow> PoolId \<Rightarrow> u32 \<Rightarrow> u32 \<Rightarrow> PoolManager \<times> wal_dir \<Rightarrow> u32 \<times> PoolManager \<times> wal_dir" where
  "ChangeAddressTable opens node timestamp p cid new sd =
     (let (s, d) = sd;
          old = GetContainerNodeId s p cid;
          d = WriteAddressTableWAL opens node
                \<lparr>we_timestamp = timestamp, we_pool = p, we_container = cid, we_old = old, we_new = new\<rparr> d;
          (ok, s) = UpdateContainerNodeMapping p cid new s
      in (if ok then 0 else 1, s, d))"

section \<open>Records and files\<close>

lemma length_wal_bytes [simp]: "length (wal_bytes x) = 28"
  by (simp add: wal_bytes_def)

lemma read_fields_wal_bytes: "read_fields (wal_bytes x @ b) = x"
  by (simp add: read_fields_def wal_bytes_def codec_simps)

lemma replay_file_record:
  "replay_file (wal_bytes x @ b) s = replay_file b (snd (UpdateContainerNodeMapping (we_pool x) (we_container x) (we_new x) s))"
  by (subst replay_file.simps) (simp add: read_fields_wal_bytes Let_def)

definition apply_entry :: "PoolManager \<Rightarrow> WalEntry \<Rightarrow> PoolManager" where
  "apply_entry s x = snd (UpdateContainerNodeMapping (we_pool x) (we_container x) (we_new x) s)"

lemma replay_file_records:
  assumes "length torn < 28"
  shows "replay_file (concat (map wal_bytes xs) @ torn) s = foldl apply_entry s xs"
proof (induction xs arbitrary: s)
  case Nil
  then show ?case using assms by (simp add: replay_file.simps)
qed (simp add: replay_file_record apply_entry_def)

text \<open>The files of different pools have different names, all of them with the extension replay looks for.\<close>

lemma wal_name_inj: "wal_name p n = wal_name q n \<longleftrightarrow> p = q"
proof
  assume "wal_name p n = wal_name q n"
  then have "to_string (unat (id_major p)) @ CHR ''.'' # (to_string (unat (id_minor p)) @ CHR ''.'' # (to_string (unat n) @ ''.bin'')) =
    to_string (unat (id_major q)) @ CHR ''.'' # (to_string (unat (id_minor q)) @ CHR ''.'' # (to_string (unat n) @ ''.bin''))"
    by (simp add: wal_name_def)
  then have "to_string (unat (id_major p)) = to_string (unat (id_major q))" "to_string (unat (id_minor p)) = to_string (unat (id_minor q))"
    using append_dot_inj to_string_no_dot by blast+
  then show "p = q" by (simp add: to_string_inj word_unat_eq_iff)
qed simp

lemma is_bin_wal_name: "is_bin (wal_name p n)"
  by (simp add: is_bin_def wal_name_def)

section \<open>Replay\<close>

text \<open>The address table as a partial function.\<close>

definition addr :: "PoolManager \<Rightarrow> PoolId \<Rightarrow> u32 \<Rightarrow> u32 option" where
  "addr s p c = (case map_of (pool_metadata s) p of None \<Rightarrow> None | Some i \<Rightarrow> map_of (address_map i) c)"

lemma UpdateContainerNodeMapping_addr:
  "addr (snd (UpdateContainerNodeMapping p c n s)) q k =
     (if q = p \<and> k = c \<and> is_initialized s \<and> map_of (pool_metadata s) p \<noteq> None then Some n else addr s q k)"
  by (auto simp: UpdateContainerNodeMapping_def addr_def with_pool_lookup update_conv' split: option.split)

lemma UpdateContainerNodeMapping_pools:
  "is_initialized (snd (UpdateContainerNodeMapping p c n s)) = is_initialized s"
  "map_of (pool_metadata (snd (UpdateContainerNodeMapping p c n s))) q = None \<longleftrightarrow> map_of (pool_metadata s) q = None"
  by (auto simp: UpdateContainerNodeMapping_def with_pool_lookup)

text \<open>
  What a client of the address tables may rely on: an update changes one mapping of a
  known pool and does nothing for an unknown one, and which pools are known stays.
\<close>

locale node_table =
  fixes tbl :: "'s \<Rightarrow> 'p \<Rightarrow> 'c \<Rightarrow> 'n option" and known :: "'s \<Rightarrow> 'p \<Rightarrow> bool" and upd :: "'p \<Rightarrow> 'c \<Rightarrow> 'n \<Rightarrow> 's \<Rightarrow> 's"
  assumes upd_known: "known (upd p c n s) q = known s q"
    and upd_tbl: "tbl (upd p c n s) q k = (if q = p \<and> k = c \<and> known s p then Some n else tbl s q k)"
begin

definition upds :: "'s \<Rightarrow> ('p \<times> 'c \<times> 'n) list \<Rightarrow> 's" where
  "upds = foldl (\<lambda>s (p, c, n). upd p c n s)"

lemma upds_simps [simp]: "upds s [] = s" "upds s ((p, c, n) # xs) = upds (upd p c n s) xs"
  by (simp_all add: upds_def)

lemma upds_known: "known (upds s xs) q = known s q"
proof (induction xs arbitrary: s)
  case (Cons x xs)
  then show ?case by (cases x) (simp add: upd_known)
qed simp

text \<open>The table of a pool after a list of updates is that of the updates of this pool, from an equal table.\<close>

lemma upds_pool:
  assumes "known s p = known t p" and "tbl s p = tbl t p"
  shows "tbl (upds s xs) p = tbl (upds t (filter (\<lambda>x. fst x = p) xs)) p"
  using assms
proof (induction xs arbitrary: s t)
  case (Cons x xs)
  obtain q c n where x: "x = (q, c, n)" by (cases x)
  have "tbl (upd q c n s) p = (if q = p then tbl (upd q c n t) p else tbl t p)"
    using Cons.prems by (auto simp: upd_tbl fun_eq_iff)
  then show ?case
    using Cons.IH [of "upd q c n s" "if q = p then upd q c n t else t"] Cons.prems x by (simp add: upd_known split: if_splits)
qed simp

end

interpretation pm_table: node_table addr HasPool "\<lambda>p c n s. snd (UpdateContainerNodeMapping p c n s)"
  by unfold_locales (auto simp: HasPool_def UpdateContainerNodeMapping_pools UpdateContainerNodeMapping_addr)

lemma apply_entries_upds: "foldl apply_entry s xs = pm_table.upds s (map (\<lambda>x. (we_pool x, we_container x, we_new x)) xs)"
  by (induction xs arbitrary: s) (simp_all add: apply_entry_def)

lemma apply_entries_addr:
  assumes "HasPool s p = HasPool t p" and "addr s p = addr t p"
  shows "addr (foldl apply_entry s xs) p = addr (foldl apply_entry t (filter (\<lambda>x. we_pool x = p) xs)) p"
  using pm_table.upds_pool [OF assms] by (simp add: apply_entries_upds filter_map comp_def)

text \<open>A sequence of changes on one node, from an empty log.\<close>

fun change_all :: "u32 \<Rightarrow> (u64 \<times> PoolId \<times> u32 \<times> u32) list \<Rightarrow> PoolManager \<times> wal_dir \<Rightarrow> PoolManager \<times> wal_dir" where
  "change_all node [] sd = sd"
| "change_all node ((ts, p, cid, new) # cs) sd = change_all node cs (snd (ChangeAddressTable True node ts p cid new sd))"

text \<open>The log holds exactly the entries \<open>xs\<close>, in order, each in the file of its pool.\<close>

definition wal_logged :: "u32 \<Rightarrow> WalEntry list \<Rightarrow> wal_dir \<Rightarrow> bool" where
  "wal_logged node xs d \<longleftrightarrow>
     (\<exists>ps. distinct ps \<and> we_pool ` set xs \<subseteq> set ps \<and>
       d = map (\<lambda>p. (wal_name p node, concat (map wal_bytes (filter (\<lambda>x. we_pool x = p) xs)))) ps)"

lemma map_of_wal_files:
  assumes "distinct ps"
  shows "map_of (map (\<lambda>p. (wal_name p node, g p)) ps) (wal_name q node) = (if q \<in> set ps then Some (g q) else None)"
  using assms by (induction ps) (auto simp: wal_name_inj)

lemma update_wal_files:
  assumes "distinct ps"
  shows "AList.update (wal_name q node) v (map (\<lambda>p. (wal_name p node, g p)) ps) =
    map (\<lambda>p. (wal_name p node, if p = q then v else g p)) (if q \<in> set ps then ps else ps @ [q])"
  using assms
proof (induction ps)
  case (Cons p ps)
  have "map (\<lambda>p'. (wal_name p' node, if p' = p then v else g p')) ps = map (\<lambda>p. (wal_name p node, g p)) ps"
    using Cons.prems by auto
  then show ?case using Cons by (auto simp: wal_name_inj)
qed simp

lemma WriteAddressTableWAL_logged:
  assumes "wal_logged node xs d"
  shows "wal_logged node (xs @ [x]) (WriteAddressTableWAL True node x d)"
proof -
  define g where "g ys p = concat (map wal_bytes (filter (\<lambda>x. we_pool x = p) ys))" for ys p
  obtain ps where ps: "distinct ps" "we_pool ` set xs \<subseteq> set ps" "d = map (\<lambda>p. (wal_name p node, g xs p)) ps"
    using assms by (auto simp: wal_logged_def g_def)
  have g: "g (xs @ [x]) p = (if p = we_pool x then g xs p @ wal_bytes x else g xs p)" for p by (simp add: g_def)
  have emp: "q \<notin> set ps \<Longrightarrow> g xs q = []" for q using ps(2) by (auto simp: g_def filter_empty_conv)
  let ?q = "we_pool x" and ?ps = "if we_pool x \<in> set ps then ps else ps @ [we_pool x]"
  have "WriteAddressTableWAL True node x d = map (\<lambda>p. (wal_name p node, if p = ?q then g xs ?q @ wal_bytes x else g xs p)) ?ps"
    using emp by (simp add: WriteAddressTableWAL_def Let_def ps(3) map_of_wal_files [OF ps(1)] update_wal_files [OF ps(1)])
  also have "\<dots> = map (\<lambda>p. (wal_name p node, g (xs @ [x]) p)) ?ps" by (simp add: g)
  finally show ?thesis unfolding wal_logged_def using ps(1,2) by (intro exI [of _ ?ps]) (auto simp: g_def)
qed

lemma change_all_wal_logged:
  assumes "wal_logged node xs d" and "s = foldl apply_entry s0 xs" and "change_all node cs (s, d) = (s', d')"
  shows "\<exists>ys. wal_logged node ys d' \<and> s' = foldl apply_entry s0 ys"
  using assms
proof (induction node cs "(s, d)" arbitrary: s d xs rule: change_all.induct)
  case (2 node ts p cid new cs)
  define x where "x = \<lparr>we_timestamp = ts, we_pool = p, we_container = cid, we_old = GetContainerNodeId s p cid, we_new = new\<rparr>"
  have step: "snd (ChangeAddressTable True node ts p cid new (s, d)) = (apply_entry s x, WriteAddressTableWAL True node x d)"
    by (simp add: ChangeAddressTable_def Let_def x_def apply_entry_def case_prod_unfold)
  have rest: "change_all node cs (apply_entry s x, WriteAddressTableWAL True node x d) = (s', d')" using "2.prems"(3) step by simp
  have "apply_entry s x = foldl apply_entry s0 (xs @ [x])" using "2.prems"(2) by simp
  from "2.hyps" [OF step WriteAddressTableWAL_logged [OF "2.prems"(1), of x] this rest] show ?case .
qed auto

lemma replay_files:
  assumes "\<And>f b. (f, b) \<in> set fs \<Longrightarrow> is_bin f \<and> (\<exists>torn. length torn < 28 \<and> b = concat (map wal_bytes (g f)) @ torn)"
  shows "foldl (\<lambda>s (f, b). if is_bin f then replay_file b s else s) s fs = foldl apply_entry s (concat (map (g \<circ> fst) fs))"
  using assms
proof (induction fs arbitrary: s)
  case (Cons x fs)
  obtain f b where x: "x = (f, b)" by (cases x)
  obtain torn where "length torn < 28" "b = concat (map wal_bytes (g f)) @ torn" "is_bin f" using Cons.prems [of f b] x by auto
  moreover have "foldl (\<lambda>s (f, b). if is_bin f then replay_file b s else s) t fs = foldl apply_entry t (concat (map (g \<circ> fst) fs))" for t
    by (rule Cons.IH) (rule Cons.prems, simp)
  ultimately show ?case using x by (simp add: replay_file_records comp_def)
qed simp

lemma filter_concat_files:
  assumes "distinct fl"
  shows "filter (\<lambda>x. we_pool x = p) (concat (map (\<lambda>f. filter (\<lambda>x. wal_name (we_pool x) node = f) ys) fl)) =
    (if wal_name p node \<in> set fl then filter (\<lambda>x. we_pool x = p) ys else [])"
  using assms
proof (induction fl)
  case (Cons f fl)
  have "filter (\<lambda>x. we_pool x = p) (filter (\<lambda>x. wal_name (we_pool x) node = f) ys) =
      (if f = wal_name p node then filter (\<lambda>x. we_pool x = p) ys else [])"
    by (induction ys) (auto simp: wal_name_inj)
  then show ?case using Cons by auto
qed simp

text \<open>
  C20. The log restores the address tables. After any sequence of changes made on a
  node, replaying its log on pools with the tables they started from gives the tables
  the changes left, whatever order the directory lists the files in, and with a torn
  record of fewer than 28 bytes at the end of any file.
\<close>

theorem address_table_replay:
  assumes "change_all node cs (s, []) = (s', d)" and "is_initialized s0 = is_initialized s" and "addr s0 = addr s"
    and "\<And>p. GetPoolInfo s0 p = None \<longleftrightarrow> GetPoolInfo s p = None" and "is_initialized s"
    and "mset d' = mset (map (\<lambda>(f, b). (f, b @ torn f)) d)" and "\<And>f. length (torn f) < 28"
  shows "addr (ReplayAddressTableWAL (Some d') s0) = addr s'"
proof
  fix p
  have "wal_logged node [] []" by (simp add: wal_logged_def)
  moreover have "s = foldl apply_entry s []" by simp
  ultimately obtain ys where ys: "wal_logged node ys d" "s' = foldl apply_entry s ys" using change_all_wal_logged [OF _ _ assms(1)] by blast
  then obtain ps where ps: "distinct ps" "we_pool ` set ys \<subseteq> set ps"
    "d = map (\<lambda>p. (wal_name p node, concat (map wal_bytes (filter (\<lambda>x. we_pool x = p) ys)))) ps" by (auto simp: wal_logged_def)
  define g where "g f = filter (\<lambda>x. wal_name (we_pool x) node = f) ys" for f
  have g: "g (wal_name q node) = filter (\<lambda>x. we_pool x = q) ys" for q by (simp add: g_def wal_name_inj)
  have "set d' = set (map (\<lambda>(f, b). (f, b @ torn f)) d)" by (rule mset_eq_setD [OF assms(6)])
  then have sd: "set d' = (\<lambda>q. (wal_name q node, concat (map wal_bytes (g (wal_name q node))) @ torn (wal_name q node))) ` set ps"
    by (simp add: ps(3) g image_image)
  have "is_bin f \<and> (\<exists>t. length t < 28 \<and> b = concat (map wal_bytes (g f)) @ t)" if fb: "(f, b) \<in> set d'" for f b
  proof -
    obtain q where "f = wal_name q node" "b = concat (map wal_bytes (g f)) @ torn f" using fb sd by auto
    then show ?thesis using assms(7) [of f] is_bin_wal_name by blast
  qed
  then have rep: "ReplayAddressTableWAL (Some d') s0 = foldl apply_entry s0 (concat (map (g \<circ> fst) d'))"
    using replay_files [of d' g s0] by (simp add: ReplayAddressTableWAL_def)
  have names: "mset (map fst d') = mset (map (\<lambda>q. wal_name q node) ps)"
    using arg_cong [OF assms(6), of "image_mset fst"] by (simp add: ps(3) comp_def case_prod_unfold image_mset.compositionality)
  have "distinct (map (\<lambda>q. wal_name q node) ps)" using ps(1) by (simp add: distinct_map inj_on_def wal_name_inj)
  then have "distinct (map fst d')" using names mset_eq_imp_distinct_iff by blast
  then have "filter (\<lambda>x. we_pool x = p) (concat (map (g \<circ> fst) d')) =
      (if wal_name p node \<in> set (map fst d') then filter (\<lambda>x. we_pool x = p) ys else [])"
    using filter_concat_files [of "map fst d'" p node ys] by (simp add: g_def comp_def)
  moreover have "set (map fst d') = set (map (\<lambda>q. wal_name q node) ps)" by (rule mset_eq_setD [OF names])
  then have "wal_name p node \<in> set (map fst d') \<longleftrightarrow> p \<in> set ps" by (auto simp: wal_name_inj)
  moreover have "p \<notin> set ps \<Longrightarrow> filter (\<lambda>x. we_pool x = p) ys = []" using ps(2) by (auto simp: filter_empty_conv)
  ultimately have fl: "filter (\<lambda>x. we_pool x = p) (concat (map (g \<circ> fst) d')) = filter (\<lambda>x. we_pool x = p) ys" by auto
  have pools: "HasPool s0 p = HasPool s p" using assms(2,4,5) by (simp add: GetPoolInfo_def HasPool_def split: if_splits)
  have "addr (foldl apply_entry s0 (concat (map (g \<circ> fst) d'))) p = addr (foldl apply_entry s (filter (\<lambda>x. we_pool x = p) ys)) p"
    using apply_entries_addr [OF pools, of "concat (map (g \<circ> fst) d')"] assms(3) fl by simp
  also have "\<dots> = addr (foldl apply_entry s ys) p" using apply_entries_addr [of s p s ys] by simp
  finally show "addr (ReplayAddressTableWAL (Some d') s0) p = addr s' p" using rep ys(2) by simp
qed

definition demo_wal_pm :: PoolManager where
  "demo_wal_pm = demo_pm\<lparr>pool_metadata := [(ct_new_pool_id demo_create, complete_info demo_pool_env demo_create 7)]\<rparr>"

theorem address_table_replay_witness:
  "addr (ReplayAddressTableWAL (Some (snd (change_all 1 [(10, ct_new_pool_id demo_create, 0, 1)] (demo_wal_pm, [])))) demo_wal_pm)
     (ct_new_pool_id demo_create) 0 = Some 1"
proof -
  obtain s' d where r: "change_all 1 [(10, ct_new_pool_id demo_create, 0, 1)] (demo_wal_pm, []) = (s', d)" by (metis surj_pair)
  have "addr s' (ct_new_pool_id demo_create) 0 = Some 1"
    using r by (auto simp: ChangeAddressTable_def Let_def case_prod_unfold UpdateContainerNodeMapping_addr demo_wal_pm_def demo_pm_def)
  moreover have "addr (ReplayAddressTableWAL (Some d) demo_wal_pm) = addr s'"
    using address_table_replay [OF r, of demo_wal_pm d "\<lambda>_. []"] by (simp add: demo_wal_pm_def demo_pm_def)
  ultimately show ?thesis using r by simp
qed

end
