(* ===== verification/Node_Recovery.thy ===== *)
theory Node_Recovery
  imports Address_Wal Cluster
begin

text \<open>
  Containers that change their node, as the admin module moves them
  (admin\_runtime.cc): after a node died (\<^verbatim>\<open>ComputeRecoveryPlan\<close>, \<^verbatim>\<open>TriggerRecovery\<close>,
  \<^verbatim>\<open>RecoverContainers\<close>), by migration (\<^verbatim>\<open>MigrateContainers\<close>), and the two handlers that
  change the set of nodes (\<^verbatim>\<open>AddNode\<close>, \<^verbatim>\<open>AnnounceShutdown\<close>).

  \<^verbatim>\<open>ScheduleRecover\<close>, the constructor of a module and the outcome of a broadcast are
  parameters. \<^verbatim>\<open>Recover\<close>, \<^verbatim>\<open>Expand\<close> and \<^verbatim>\<open>Migrate\<close> are the base class versions, which no
  module overrides: \<^verbatim>\<open>Init\<close>, and twice nothing.
\<close>

record RecoveryAssignment =
  ra_pool_id :: PoolId
  ra_chimod_name :: string
  ra_pool_name :: string
  ra_chimod_params :: string
  ra_container_id :: u32
  ra_dest_node_id :: u32
  ra_dead_node_id :: u32

record MigrateInfo =
  mi_pool_id :: PoolId
  mi_container_id :: u32
  mi_dest :: u32

section \<open>The recovery plan\<close>

text \<open>The destination of one container and the next round-robin index; \<open>sched\<close> is \<^verbatim>\<open>ScheduleRecover\<close>.\<close>

definition recovery_dest :: "(cptr \<Rightarrow> u32) \<Rightarrow> u64 list \<Rightarrow> PoolInfo \<Rightarrow> nat \<Rightarrow> u32 \<times> nat" where
  "recovery_dest sched alive i rr =
     (let d = (case local_container i of Some c \<Rightarrow> sched c | None \<Rightarrow> - 1)
      in if d = - 1 then (ucast (alive ! (rr mod length alive)), rr + 1) else (d, rr))"

fun plan_pool :: "(cptr \<Rightarrow> u32) \<Rightarrow> u64 list \<Rightarrow> u64 \<Rightarrow> PoolId \<Rightarrow> PoolInfo \<Rightarrow> (u32 \<times> u32) list \<Rightarrow> nat \<Rightarrow> RecoveryAssignment list \<times> nat" where
  "plan_pool sched alive dead p i [] rr = ([], rr)"
| "plan_pool sched alive dead p i ((cid, n) # m) rr =
     (if n = ucast dead
      then
        let (d, rr) = recovery_dest sched alive i rr;
            ra = \<lparr>ra_pool_id = p, ra_chimod_name = chimod_name i, ra_pool_name = pool_name i, ra_chimod_params = chimod_params i,
                  ra_container_id = cid, ra_dest_node_id = d, ra_dead_node_id = ucast dead\<rparr>;
            (ras, rr) = plan_pool sched alive dead p i m rr
        in (ra # ras, rr)
      else plan_pool sched alive dead p i m rr)"

fun plan_pools :: "(cptr \<Rightarrow> u32) \<Rightarrow> u64 list \<Rightarrow> u64 \<Rightarrow> PoolManager \<Rightarrow> PoolId list \<Rightarrow> nat \<Rightarrow> RecoveryAssignment list" where
  "plan_pools sched alive dead s [] rr = []"
| "plan_pools sched alive dead s (p # ps) rr =
     (case GetPoolInfo s p of
        None \<Rightarrow> plan_pools sched alive dead s ps rr
      | Some i \<Rightarrow>
          let (ras, rr) = plan_pool sched alive dead p i (address_map i) rr
          in ras @ plan_pools sched alive dead s ps rr)"

definition ComputeRecoveryPlan :: "(cptr \<Rightarrow> u32) \<Rightarrow> Cluster \<Rightarrow> PoolManager \<Rightarrow> u64 \<Rightarrow> RecoveryAssignment list" where
  "ComputeRecoveryPlan sched c s dead =
     (let alive = map host_id (filter Host_IsAlive (fst (GetAllHosts c)))
      in if alive = [] then [] else plan_pools sched alive dead s (GetAllPoolIds s) 0)"

text \<open>
  \<^verbatim>\<open>TriggerRecovery\<close>; the first result is the broadcast it sends, if it sends one, and
  \<open>initiated\<close> the set \<^verbatim>\<open>recovery_initiated_\<close>.
\<close>

definition TriggerRecovery ::
  "(cptr \<Rightarrow> u32) \<Rightarrow> Cluster \<Rightarrow> PoolManager \<Rightarrow> u64 \<Rightarrow> u64 list \<Rightarrow> RecoveryAssignment list option \<times> u64 list" where
  "TriggerRecovery sched c s dead initiated =
     (if \<not> IsLeader c then (None, initiated)
      else if dead \<in> set initiated then (None, initiated)
      else
        let initiated = initiated @ [dead]
        in if self_fenced c then (None, initiated)
           else
             let ras = ComputeRecoveryPlan sched c s dead
             in if ras = [] then (None, initiated) else (Some ras, initiated))"

section \<open>Recovery on every node\<close>

text \<open>
  What a node needs to recover containers: its identifier, the constructors of the
  modules, whether the log opens, and the clock reading of the \<open>k\<close>-th log write.
  An exception of a constructor or of \<^verbatim>\<open>Init\<close> leaves the handler (\<open>None\<close>).
\<close>

record recovery_env =
  re_pool :: pool_env
  re_opens :: bool
  re_clock :: "nat \<Rightarrow> u64"

definition recover_one ::
  "recovery_env \<Rightarrow> u64 \<Rightarrow> u64 \<Rightarrow> RecoveryAssignment \<Rightarrow> u32 \<times> PoolManager \<times> wal_dir \<Rightarrow> (u32 \<times> PoolManager \<times> wal_dir) option" where
  "recover_one e self now ra st =
     (let (num, s, d) = st;
          s = snd (UpdateContainerNodeMapping (ra_pool_id ra) (ra_container_id ra) (ra_dest_node_id ra) s);
          d = WriteAddressTableWAL (re_opens e) (ucast self)
                \<lparr>we_timestamp = now, we_pool = ra_pool_id ra, we_container = ra_container_id ra,
                 we_old = ra_dead_node_id ra, we_new = ra_dest_node_id ra\<rparr> d
      in if ucast (ra_dest_node_id ra) \<noteq> self then Some (num, s, d)
         else (case e_new_container (re_pool e) (ra_chimod_name ra) (ra_pool_id ra) (ra_pool_name ra) s of
             Inl _ \<Rightarrow> None
           | Inr None \<Rightarrow> Some (num, s, d)
           | Inr (Some c) \<Rightarrow>
               if e_init_throws (re_pool e) c then None
               else
                 let s = container_Init c (ra_pool_id ra) (ra_pool_name ra) (ra_container_id ra) s;
                     s = snd (RegisterContainer (ra_pool_id ra) (ra_container_id ra) (Some c) False s)
                 in Some (num + 1, s, d)))"

fun recover_loop ::
  "recovery_env \<Rightarrow> u64 \<Rightarrow> nat \<Rightarrow> RecoveryAssignment list \<Rightarrow> u32 \<times> PoolManager \<times> wal_dir \<Rightarrow> (u32 \<times> PoolManager \<times> wal_dir) option" where
  "recover_loop e self k [] st = Some st"
| "recover_loop e self k (ra # ras) st =
     (case recover_one e self (re_clock e k) ra st of
        None \<Rightarrow> None
      | Some st \<Rightarrow> recover_loop e self (k + 1) ras st)"

definition RecoverContainers ::
  "recovery_env \<Rightarrow> u64 \<Rightarrow> RecoveryAssignment list \<Rightarrow> PoolManager \<times> wal_dir \<Rightarrow> (u32 \<times> PoolManager \<times> wal_dir) option" where
  "RecoverContainers e self ras sd = recover_loop e self 0 ras (0, sd)"

section \<open>Migration\<close>

text \<open>
  One migration. \<open>work\<close> are the readings of the work left on the container, \<open>report\<close>
  the return code of the broadcast given that of this node's own \<^verbatim>\<open>ChangeAddressTable\<close>.
  \<open>None\<close>: the wait for the container's work does not end.
\<close>

definition migrate_one ::
  "(MigrateInfo \<Rightarrow> nat \<Rightarrow> u64) \<Rightarrow> (MigrateInfo \<Rightarrow> u32 \<Rightarrow> u32) \<Rightarrow> bool \<Rightarrow> u32 \<Rightarrow> u64 \<Rightarrow> MigrateInfo \<Rightarrow>
   u32 \<times> PoolManager \<times> wal_dir \<Rightarrow> (u32 \<times> PoolManager \<times> wal_dir) option" where
  "migrate_one work report opens node now mi st =
     (let (num, s, d) = st
      in case PlugContainer (work mi) (mi_pool_id mi) (mi_container_id mi) s of
           None \<Rightarrow> None
         | Some s \<Rightarrow>
             let (rc, s, d) = ChangeAddressTable opens node now (mi_pool_id mi) (mi_container_id mi) (mi_dest mi) (s, d)
             in if report mi rc \<noteq> 0 then Some (num, s, d)
                else
                  let s = snd (UnregisterContainer (mi_pool_id mi) (mi_container_id mi) s)
                  in Some (num + 1, s, d))"

fun MigrateContainers ::
  "(MigrateInfo \<Rightarrow> nat \<Rightarrow> u64) \<Rightarrow> (MigrateInfo \<Rightarrow> u32 \<Rightarrow> u32) \<Rightarrow> bool \<Rightarrow> u32 \<Rightarrow> (nat \<Rightarrow> u64) \<Rightarrow> nat \<Rightarrow> MigrateInfo list \<Rightarrow>
   u32 \<times> PoolManager \<times> wal_dir \<Rightarrow> (u32 \<times> PoolManager \<times> wal_dir) option" where
  "MigrateContainers work report opens node clk k [] st = Some st"
| "MigrateContainers work report opens node clk k (mi # mis) st =
     (case migrate_one work report opens node (clk k) mi st of
        None \<Rightarrow> None
      | Some st \<Rightarrow> MigrateContainers work report opens node clk (k + 1) mis st)"

section \<open>Nodes that come and go\<close>

definition admin_AddNode :: "string \<Rightarrow> clock \<Rightarrow> Cluster \<Rightarrow> u32 \<times> u64 \<times> Cluster" where
  "admin_AddNode ip now c = (let (n, c) = AddNode ip now c in (0, n, c))"

definition AnnounceShutdown ::
  "(cptr \<Rightarrow> u32) \<Rightarrow> nat \<Rightarrow> clock \<Rightarrow> PoolManager \<Rightarrow> u64 \<Rightarrow> Cluster \<times> u64 list \<Rightarrow> RecoveryAssignment list option \<times> Cluster \<times> u64 list" where
  "AnnounceShutdown sched port now s dead ci =
     (let (c, initiated) = ci;
          c = SetDead port dead now c
      in if IsLeader c
         then let (b, initiated) = TriggerRecovery sched c s dead initiated in (b, c, initiated)
         else (None, c, initiated))"

section \<open>Containers after a recovery\<close>

lemma register_in_fields [simp]:
  "address_map (register_in cid c st i) = address_map i" "containers (register_in cid c st i) = AList.update cid c (containers i)"
  by (simp_all add: register_in_def Let_def)

lemma RegisterContainer_tables:
  "addr (snd (RegisterContainer p cid c st s)) = addr s"
  "is_initialized (snd (RegisterContainer p cid c st s)) = is_initialized s"
  "pool_of (snd (RegisterContainer p cid c st s)) q = None \<longleftrightarrow> pool_of s q = None"
  by (auto simp: RegisterContainer_def addr_def with_pool_lookup fun_eq_iff split: option.split)

lemma RegisterContainer_has:
  assumes "is_initialized s" and "pool_of s p \<noteq> None"
  shows "HasContainer (snd (RegisterContainer p cid (Some c) st s)) q k \<longleftrightarrow> HasContainer s q k \<or> (q = p \<and> k = cid)"
  using assms by (auto simp: RegisterContainer_def HasContainer_def with_pool_lookup update_conv' split: option.split)

lemma UpdateContainerNodeMapping_has:
  "HasContainer (snd (UpdateContainerNodeMapping p cid n s)) q k = HasContainer s q k"
  by (auto simp: UpdateContainerNodeMapping_def HasContainer_def with_pool_lookup split: option.split)

lemma container_Init_tables [simp]:
  "addr (container_Init c p pn cid s) = addr s" "is_initialized (container_Init c p pn cid s) = is_initialized s"
  "pool_metadata (container_Init c p pn cid s) = pool_metadata s"
  "HasContainer (container_Init c p pn cid s) q k = HasContainer s q k"
  by (simp_all add: container_Init_def addr_def HasContainer_def fun_eq_iff)

text \<open>The modules of a node can make the containers that recovery asks for.\<close>

definition makes_containers :: "recovery_env \<Rightarrow> bool" where
  "makes_containers e \<longleftrightarrow>
     (\<forall>cn p pn s. \<exists>c. e_new_container (re_pool e) cn p pn s = Inr (Some c) \<and> \<not> e_init_throws (re_pool e) c)"

text \<open>Two nodes know the same pools with the same address tables.\<close>

definition same_tables :: "PoolManager \<Rightarrow> PoolManager \<Rightarrow> bool" where
  "same_tables s s' \<longleftrightarrow>
     is_initialized s' = is_initialized s \<and> (\<forall>q. pool_of s' q = None \<longleftrightarrow> pool_of s q = None) \<and> addr s' = addr s"

text \<open>The address table a list of assignments leaves.\<close>

definition assign_addr :: "(PoolId \<Rightarrow> u32 \<Rightarrow> u32 option) \<Rightarrow> RecoveryAssignment \<Rightarrow> PoolId \<Rightarrow> u32 \<Rightarrow> u32 option" where
  "assign_addr f ra = f(ra_pool_id ra := (f (ra_pool_id ra))(ra_container_id ra \<mapsto> ra_dest_node_id ra))"

definition ra_keys :: "RecoveryAssignment list \<Rightarrow> (PoolId \<times> u32) set" where
  "ra_keys ras = (\<lambda>ra. (ra_pool_id ra, ra_container_id ra)) ` set ras"

lemma ra_keys_simps [simp]:
  "ra_keys [] = {}" "ra_keys (ra # ras) = insert (ra_pool_id ra, ra_container_id ra) (ra_keys ras)"
  "ra_keys (ras @ ras') = ra_keys ras \<union> ra_keys ras'"
  by (auto simp: ra_keys_def)

lemma recover_one_spec:
  assumes "makes_containers e" and "is_initialized s" and "pool_of s (ra_pool_id ra) \<noteq> None"
  shows "\<exists>num' s' d'. recover_one e self now ra (num, s, d) = Some (num', s', d') \<and> is_initialized s' \<and>
    (\<forall>q. pool_of s' q = None \<longleftrightarrow> pool_of s q = None) \<and> addr s' = assign_addr (addr s) ra \<and>
    (\<forall>q k. HasContainer s' q k \<longleftrightarrow>
       HasContainer s q k \<or> (q = ra_pool_id ra \<and> k = ra_container_id ra \<and> ucast (ra_dest_node_id ra) = self))"
proof -
  let ?s = "snd (UpdateContainerNodeMapping (ra_pool_id ra) (ra_container_id ra) (ra_dest_node_id ra) s)"
  obtain c where c: "e_new_container (re_pool e) (ra_chimod_name ra) (ra_pool_id ra) (ra_pool_name ra) ?s = Inr (Some c)"
    "\<not> e_init_throws (re_pool e) c" using assms(1) unfolding makes_containers_def by blast
  have "addr ?s = assign_addr (addr s) ra"
    using assms(2,3) by (auto simp: UpdateContainerNodeMapping_addr assign_addr_def fun_eq_iff)
  moreover have "is_initialized ?s" "pool_of ?s (ra_pool_id ra) \<noteq> None"
    using assms(2,3) by (simp_all add: UpdateContainerNodeMapping_pools)
  ultimately show ?thesis
    using c by (auto simp: recover_one_def Let_def RegisterContainer_tables RegisterContainer_has
        UpdateContainerNodeMapping_has UpdateContainerNodeMapping_pools)
qed

lemma recover_loop_spec:
  assumes "makes_containers e" and "is_initialized s" and "\<forall>ra \<in> set ras. pool_of s (ra_pool_id ra) \<noteq> None"
    and "\<forall>q k n. (q, k) \<in> K \<and> addr s q k = Some n \<and> ucast n = self \<longrightarrow> HasContainer s q k"
  shows "\<exists>num' s' d'. recover_loop e self j ras (num, s, d) = Some (num', s', d') \<and> is_initialized s' \<and>
    addr s' = foldl assign_addr (addr s) ras \<and>
    (\<forall>q k n. (q, k) \<in> K \<union> ra_keys ras \<and> addr s' q k = Some n \<and> ucast n = self \<longrightarrow> HasContainer s' q k)"
  using assms
proof (induction ras arbitrary: s j num d K)
  case (Cons ra ras)
  obtain num1 s1 d1 where one: "recover_one e self (re_clock e j) ra (num, s, d) = Some (num1, s1, d1)" "is_initialized s1"
    "\<forall>q. pool_of s1 q = None \<longleftrightarrow> pool_of s q = None" "addr s1 = assign_addr (addr s) ra"
    "\<forall>q k. HasContainer s1 q k \<longleftrightarrow>
       HasContainer s q k \<or> (q = ra_pool_id ra \<and> k = ra_container_id ra \<and> ucast (ra_dest_node_id ra) = self)"
    using recover_one_spec [OF Cons.prems(1,2), of ra self "re_clock e j" num d] Cons.prems(3) by auto
  let ?K = "insert (ra_pool_id ra, ra_container_id ra) K"
  have pools: "\<forall>ra \<in> set ras. pool_of s1 (ra_pool_id ra) \<noteq> None" using Cons.prems(3) one(3) by simp
  have K: "HasContainer s1 q k" if a: "(q, k) \<in> ?K" "addr s1 q k = Some n" "ucast n = self" for q k n
    using a Cons.prems(4) one(4,5) by (auto simp: assign_addr_def split: if_splits)
  obtain num' s' d' where rest: "recover_loop e self (j + 1) ras (num1, s1, d1) = Some (num', s', d')" "is_initialized s'"
    "addr s' = foldl assign_addr (addr s1) ras"
    "\<forall>q k n. (q, k) \<in> ?K \<union> ra_keys ras \<and> addr s' q k = Some n \<and> ucast n = self \<longrightarrow> HasContainer s' q k"
    using Cons.IH [OF Cons.prems(1) one(2) pools, of ?K "j + 1" num1 d1] K by blast
  have "\<forall>q k n. (q, k) \<in> K \<union> ra_keys (ra # ras) \<and> addr s' q k = Some n \<and> ucast n = self \<longrightarrow> HasContainer s' q k"
    using rest(4) by (simp add: insert_commute Un_insert_right)
  moreover have "addr s' = foldl assign_addr (addr s) (ra # ras)" using rest(3) one(4) by simp
  moreover have "recover_loop e self j (ra # ras) (num, s, d) = Some (num', s', d')" using rest(1) one(1) by simp
  ultimately show ?case using rest(2) by blast
qed (simp add: ra_keys_def)

lemma assign_addr_other: "(q, k) \<notin> ra_keys ras \<Longrightarrow> foldl assign_addr f ras q k = f q k"
  by (induction ras arbitrary: f) (auto simp: ra_keys_def assign_addr_def)

lemma assign_addr_dest:
  assumes "(q, k) \<in> ra_keys ras"
  shows "\<exists>ra \<in> set ras. foldl assign_addr f ras q k = Some (ra_dest_node_id ra)"
  using assms
proof (induction ras arbitrary: f rule: rev_induct)
  case (snoc ra ras)
  then show ?case by (cases "q = ra_pool_id ra \<and> k = ra_container_id ra") (auto simp: ra_keys_def assign_addr_def)
qed (simp add: ra_keys_def)

section \<open>The plan covers the dead node\<close>

definition live_dest :: "(cptr \<Rightarrow> u32) \<Rightarrow> u64 list \<Rightarrow> u32 \<Rightarrow> bool" where
  "live_dest sched alive n \<longleftrightarrow> n \<in> ucast ` set alive \<or> (n \<noteq> - 1 \<and> (\<exists>x. sched x = n))"

lemma recovery_dest_live: "alive \<noteq> [] \<Longrightarrow> live_dest sched alive (fst (recovery_dest sched alive i rr))"
  by (auto simp: recovery_dest_def live_dest_def Let_def intro!: imageI nth_mem split: option.splits)

lemma plan_pool_spec:
  assumes "alive \<noteq> []" and "plan_pool sched alive dead p i m rr = (ras, rr')"
  shows "ra_keys ras = Pair p ` fst ` {x \<in> set m. snd x = ucast dead} \<and> (\<forall>ra \<in> set ras. live_dest sched alive (ra_dest_node_id ra))"
  using assms(2)
proof (induction m arbitrary: rr ras rr')
  case (Cons x m)
  obtain k n where x: "x = (k, n)" by (cases x)
  show ?case
  proof (cases "n = ucast dead")
    case True
    obtain d rr1 where d: "recovery_dest sched alive i rr = (d, rr1)" by (metis surj_pair)
    obtain ras1 rr2 where rest: "plan_pool sched alive dead p i m rr1 = (ras1, rr2)" by (metis surj_pair)
    have "live_dest sched alive d" using recovery_dest_live [OF assms(1), of sched i rr] d by simp
    moreover have "{y \<in> set (x # m). snd y = ucast dead} = insert x {y \<in> set m. snd y = ucast dead}" using x True by auto
    then have "Pair p ` fst ` {y \<in> set (x # m). snd y = ucast dead} = insert (p, k) (ra_keys ras1)" using Cons.IH [OF rest] x by simp
    moreover have "ra_keys ras = insert (p, k) (ra_keys ras1)" "ra_dest_node_id ` set ras = insert d (ra_dest_node_id ` set ras1)"
      using Cons.prems x True d rest by auto
    ultimately show ?thesis using Cons.IH [OF rest] by (metis (no_types, lifting) imageI imageE insertE)
  next
    case False
    then have "{y \<in> set (x # m). snd y = ucast dead} = {y \<in> set m. snd y = ucast dead}" using x by auto
    then show ?thesis using Cons.IH [of rr ras rr'] Cons.prems x False by simp
  qed
qed (simp add: ra_keys_def)

lemma address_map_addr:
  assumes "pm_inv s" and "pool_of s p = Some i"
  shows "k \<in> fst ` {x \<in> set (address_map i). snd x = n} \<longleftrightarrow> addr s p k = Some n"
proof -
  have "distinct (map fst (address_map i))" using pm_invD [OF assms] by (simp add: info_ok_def)
  then show ?thesis using assms(2) by (force simp: addr_def image_iff)
qed

lemma plan_pools_spec:
  assumes "alive \<noteq> []" and "pm_inv s" and "is_initialized s"
  shows "ra_keys (plan_pools sched alive dead s ps rr) = {(p, k). p \<in> set ps \<and> addr s p k = Some (ucast dead)} \<and>
    (\<forall>ra \<in> set (plan_pools sched alive dead s ps rr). live_dest sched alive (ra_dest_node_id ra))"
proof (induction ps arbitrary: rr)
  case (Cons p ps)
  show ?case
  proof (cases "pool_of s p")
    case None
    then show ?thesis using Cons [of rr] assms(3) by (auto simp: GetPoolInfo_def addr_def)
  next
    case (Some i)
    obtain ras rr1 where r: "plan_pool sched alive dead p i (address_map i) rr = (ras, rr1)" by (metis surj_pair)
    have "ra_keys ras = {(q, k). q = p \<and> addr s q k = Some (ucast dead)}"
      using plan_pool_spec [OF assms(1) r] address_map_addr [OF assms(2) Some] by auto
    then show ?thesis
      using Cons [of rr1] plan_pool_spec [OF assms(1) r] Some r assms(3) by (auto simp: GetPoolInfo_def)
  qed
qed (simp add: ra_keys_def)

lemma addr_in_pools: "is_initialized s \<Longrightarrow> addr s p k = Some n \<Longrightarrow> p \<in> set (GetAllPoolIds s)"
  by (auto simp: GetAllPoolIds_def addr_def dest: map_of_SomeD split: option.splits intro: rev_image_eqI)

lemma live_nodes_nonempty:
  assumes "cluster_inv c" and "GetNodeState c live = kAlive"
  shows "map host_id (filter Host_IsAlive (fst (GetAllHosts c))) \<noteq> []"
proof -
  obtain h where h: "map_of (hostfile_map c) live = Some h" "host_state h = kAlive"
    using assms(2) by (auto simp: GetNodeState_def split: option.splits)
  then show ?thesis
    using map_of_SomeD [OF h(1)] by (force simp: GetAllHosts_result(1) [OF assms(1)] Host_IsAlive_def filter_empty_conv)
qed

lemma plan_keys:
  assumes "pm_inv s" and "is_initialized s" and "cluster_inv c" and "GetNodeState c live = kAlive"
  shows "ra_keys (ComputeRecoveryPlan sched c s dead) = {(p, k). addr s p k = Some (ucast dead)}"
  using plan_pools_spec [OF live_nodes_nonempty [OF assms(3,4)] assms(1,2), of sched dead "GetAllPoolIds s" 0]
    addr_in_pools [OF assms(2)] live_nodes_nonempty [OF assms(3,4)]
  unfolding ComputeRecoveryPlan_def Let_def by (simp del: map_is_Nil_conv) blast

lemma recovery_plan_moves:
  assumes "pm_inv s" and "is_initialized s" and "cluster_inv c" and "length (hostfile_map c) < 2 ^ 32"
    and "GetNodeState c live = kAlive" and "GetNodeState c dead \<noteq> kAlive"
    and "\<And>x. sched x \<noteq> - 1 \<Longrightarrow> GetNodeState c (ucast (sched x)) = kAlive"
  shows "\<exists>t. (\<forall>q k. if addr s q k = Some (ucast dead) then \<exists>n. t q k = Some n \<and> GetNodeState c (ucast n) = kAlive
                    else t q k = addr s q k) \<and>
    (\<forall>e self s0 d. makes_containers e \<and> same_tables s s0 \<longrightarrow>
       (\<exists>num s' d'. RecoverContainers e self (ComputeRecoveryPlan sched c s dead) (s0, d) = Some (num, s', d') \<and> addr s' = t \<and>
          (\<forall>q k n. addr s q k = Some (ucast dead) \<and> t q k = Some n \<and> ucast n = self \<longrightarrow> HasContainer s' q k)))"
proof -
  let ?alive = "map host_id (filter Host_IsAlive (fst (GetAllHosts c)))" and ?plan = "ComputeRecoveryPlan sched c s dead"
  have state: "GetNodeState c (ucast (ucast n :: u32)) = kAlive" if n: "n \<in> set ?alive" for n
  proof -
    obtain m h where h: "(m, h) \<in> set (hostfile_map c)" "host_state h = kAlive" "host_id h = n"
      using n by (auto simp: GetAllHosts_result(1) [OF assms(3)] Host_IsAlive_def)
    then have "map_of (hostfile_map c) m = Some h" using cluster_invD(1) [OF assms(3)] by simp
    moreover from this have "m = n" "unat n < 2 ^ 32" using cluster_invD(2) [OF assms(3)] h(3) assms(4) by fastforce+
    moreover from this(2) have "ucast (ucast n :: u32) = n" by (simp add: word_unat_eq_iff unsigned_ucast_eq unsigned_take_bit_eq take_bit_nat_eq_self)
    ultimately show ?thesis using h(2) by (simp add: GetNodeState_def)
  qed
  note ne = live_nodes_nonempty [OF assms(3,5)] and keys = plan_keys [OF assms(1-3,5), of sched dead]
  have plan: "?plan = plan_pools sched ?alive dead s (GetAllPoolIds s) 0" using ne by (simp add: ComputeRecoveryPlan_def Let_def)
  have dest: "GetNodeState c (ucast (ra_dest_node_id ra)) = kAlive" if "ra \<in> set ?plan" for ra
  proof -
    have "live_dest sched ?alive (ra_dest_node_id ra)"
      using that plan_pools_spec [OF ne assms(1,2), of sched dead "GetAllPoolIds s" 0] unfolding plan by blast
    then show ?thesis unfolding live_dest_def
    proof (elim disjE imageE conjE exE)
      show ?thesis if "ra_dest_node_id ra = ucast n" "n \<in> set ?alive" for n :: u64 using state [OF that(2)] that(1) by simp
    next
      show ?thesis if "ra_dest_node_id ra \<noteq> - 1" "sched x = ra_dest_node_id ra" for x using assms(7) [of x] that by simp
    qed
  qed
  show ?thesis
  proof (intro exI [of _ "foldl assign_addr (addr s) ?plan"] conjI allI impI)
    fix q k
    show "if addr s q k = Some (ucast dead) then \<exists>n. foldl assign_addr (addr s) ?plan q k = Some n \<and> GetNodeState c (ucast n) = kAlive
      else foldl assign_addr (addr s) ?plan q k = addr s q k"
      using assign_addr_other [of q k ?plan "addr s"] assign_addr_dest [of q k ?plan "addr s"] keys dest by (auto split: if_split)
  next
    fix e self s0 d
    assume a: "makes_containers e \<and> same_tables s s0"
    have "pool_of s0 (ra_pool_id ra) \<noteq> None" if "ra \<in> set ?plan" for ra
    proof -
      have "(ra_pool_id ra, ra_container_id ra) \<in> ra_keys ?plan" using that by (simp add: ra_keys_def)
      then have "pool_of s (ra_pool_id ra) \<noteq> None" using keys by (auto simp: addr_def split: option.splits)
      then show ?thesis using a by (simp add: same_tables_def)
    qed
    moreover have "is_initialized s0" "addr s0 = addr s" using a assms(2) by (simp_all add: same_tables_def)
    ultimately obtain num s' d' where r: "recover_loop e self 0 ?plan (0, s0, d) = Some (num, s', d')"
      "addr s' = foldl assign_addr (addr s) ?plan"
      "\<forall>q k n. (q, k) \<in> {} \<union> ra_keys ?plan \<and> addr s' q k = Some n \<and> ucast n = self \<longrightarrow> HasContainer s' q k"
      using recover_loop_spec [of e s0 ?plan "{}" self 0 0 d] a by auto
    then show "\<exists>num s' d'. RecoverContainers e self ?plan (s0, d) = Some (num, s', d') \<and>
        addr s' = foldl assign_addr (addr s) ?plan \<and>
        (\<forall>q k n. addr s q k = Some (ucast dead) \<and> foldl assign_addr (addr s) ?plan q k = Some n \<and> ucast n = self \<longrightarrow> HasContainer s' q k)"
      using keys by (intro exI [of _ num] exI [of _ s'] exI [of _ d']) (simp add: RecoverContainers_def)
  qed
qed

text \<open>
  C15. Recovery moves every container of a dead node to a live one and touches no
  other. The plan the leader broadcasts determines one new address table \<open>t\<close>: it is the
  old one except that each container on the dead node is mapped to a live node. Every
  node that knows the same pools and runs the plan ends with \<open>t\<close>, and holds each container
  that \<open>t\<close> moved to it.
\<close>

theorem recovery_moves_containers:
  assumes "pm_inv s" and "is_initialized s" and "cluster_inv c" and "length (hostfile_map c) < 2 ^ 32"
    and "GetNodeState c live = kAlive" and "GetNodeState c dead \<noteq> kAlive"
    and "\<And>x. sched x \<noteq> - 1 \<Longrightarrow> GetNodeState c (ucast (sched x)) = kAlive"
  shows "\<exists>t. (\<forall>q k. if addr s q k = Some (ucast dead) then \<exists>n. t q k = Some n \<and> GetNodeState c (ucast n) = kAlive
                    else t q k = addr s q k) \<and>
    (\<forall>e self s0 d. makes_containers e \<and> same_tables s s0 \<longrightarrow>
       (\<exists>num s' d'. RecoverContainers e self (ComputeRecoveryPlan sched c s dead) (s0, d) = Some (num, s', d') \<and> addr s' = t \<and>
          (\<forall>q k n. addr s q k = Some (ucast dead) \<and> t q k = Some n \<and> ucast n = self \<longrightarrow> HasContainer s' q k)))"
  by (rule recovery_plan_moves [OF assms(1-6)]) (rule assms(7))

definition demo_survivors :: Cluster where
  "demo_survivors = \<lparr>hostfile_map = [(0, \<lparr>ip_address = ''a'', host_id = 0, host_state = kAlive, state_changed_at = 0\<rparr>),
     (1, \<lparr>ip_address = ''b'', host_id = 1, host_state = kDead, state_changed_at = 5\<rparr>)],
     hosts_cache = [], hosts_cache_valid = False, dead_nodes = [], this_node = 0, self_fenced = False, client_pool = []\<rparr>"

definition demo_recovery_env :: recovery_env where
  "demo_recovery_env = \<lparr>re_pool = demo_pool_env, re_opens = True, re_clock = of_nat\<rparr>"

lemma demo_wal_pm_inv: "pm_inv demo_wal_pm" "is_initialized demo_wal_pm" "addr demo_wal_pm (ct_new_pool_id demo_create) 1 = Some 1"
proof -
  have init: "init_map_loop 0 2 [] = [(0, 0), (1, 1)]" by (subst init_map_loop.simps, simp)+
  show "pm_inv demo_wal_pm" "is_initialized demo_wal_pm" "addr demo_wal_pm (ct_new_pool_id demo_create) 1 = Some 1"
    by (auto simp: demo_wal_pm_def demo_pm_def pm_inv_def info_ok_def addr_def complete_info_def fresh_info_def PoolInfo_new_def
        demo_pool_env_def demo_create_def UniqueId_IsNull_def UniqueId_GetNull_def init)
qed

theorem recovery_moves_containers_witness:
  "\<exists>num s' d'. RecoverContainers demo_recovery_env 0 (ComputeRecoveryPlan (\<lambda>_. - 1) demo_survivors demo_wal_pm 1) (demo_wal_pm, []) =
     Some (num, s', d') \<and> addr s' (ct_new_pool_id demo_create) 1 = Some 0 \<and> HasContainer s' (ct_new_pool_id demo_create) 1"
proof -
  have c: "cluster_inv demo_survivors" "length (hostfile_map demo_survivors) < 2 ^ 32" "GetNodeState demo_survivors 0 = kAlive"
    "GetNodeState demo_survivors 1 \<noteq> kAlive" by (simp_all add: demo_survivors_def cluster_inv_def GetNodeState_def)
  have live: "GetNodeState demo_survivors n = kAlive \<longleftrightarrow> n = 0" for n by (simp add: demo_survivors_def GetNodeState_def)
  have e: "makes_containers demo_recovery_env" "same_tables demo_wal_pm demo_wal_pm"
    by (simp_all add: makes_containers_def demo_recovery_env_def demo_pool_env_def same_tables_def)
  obtain t where
    all: "\<forall>q k. if addr demo_wal_pm q k = Some (ucast (1 :: u64)) then \<exists>n. t q k = Some n \<and> GetNodeState demo_survivors (ucast n) = kAlive
          else t q k = addr demo_wal_pm q k" and
    run: "\<forall>e self s0 d. makes_containers e \<and> same_tables demo_wal_pm s0 \<longrightarrow>
       (\<exists>num s' d'. RecoverContainers e self (ComputeRecoveryPlan (\<lambda>_. - 1) demo_survivors demo_wal_pm 1) (s0, d) = Some (num, s', d') \<and>
          addr s' = t \<and> (\<forall>q k n. addr demo_wal_pm q k = Some (ucast (1 :: u64)) \<and> t q k = Some n \<and> ucast n = self \<longrightarrow> HasContainer s' q k))"
    by (rule exE [OF recovery_moves_containers [OF demo_wal_pm_inv(1,2) c, of "\<lambda>_. - 1"]]) (simp, blast)
  obtain n :: u32 where n: "t (ct_new_pool_id demo_create) 1 = Some n" "ucast n = (0 :: u64)"
    using all [rule_format, of "ct_new_pool_id demo_create" 1] demo_wal_pm_inv(3) live by auto
  have "n = 0" using n(2) unsigned_less [of n, where 'a = nat] by (simp add: word_unat_eq_iff unsigned_ucast_eq take_bit_nat_eq_self)
  obtain num s' d' where r: "RecoverContainers demo_recovery_env 0 (ComputeRecoveryPlan (\<lambda>_. - 1) demo_survivors demo_wal_pm 1)
      (demo_wal_pm, []) = Some (num, s', d')" "addr s' = t"
    "\<forall>q k n. addr demo_wal_pm q k = Some (ucast (1 :: u64)) \<and> t q k = Some n \<and> ucast n = (0 :: u64) \<longrightarrow> HasContainer s' q k"
    using run [rule_format, of demo_recovery_env demo_wal_pm 0 "[]"] e by blast
  have "HasContainer s' (ct_new_pool_id demo_create) 1"
    using r(3) [rule_format, of "ct_new_pool_id demo_create" 1 n] demo_wal_pm_inv(3) n by simp
  then show ?thesis using r(1,2) n(1) \<open>n = 0\<close> by auto
qed

text \<open>
  The set of nodes whose recovery has begun never shrinks, and a node enters it even
  when the leader is fenced and sends nothing: recovery of that node is never sent, not
  even after the fence is lifted, and neither is recovery from a second failure of a
  node that came back.
\<close>

theorem recovery_initiated_once:
  assumes "dead \<in> set initiated"
  shows "TriggerRecovery sched c s dead initiated = (None, initiated)"
  using assms by (simp add: TriggerRecovery_def)

theorem fenced_recovery_is_never_sent:
  assumes "IsLeader c" and "self_fenced c" and "TriggerRecovery sched c s dead initiated = (b, initiated')"
  shows "b = None \<and> fst (TriggerRecovery sched' c' s' dead initiated') = None"
  using assms by (auto simp: TriggerRecovery_def Let_def split: if_splits)

section \<open>Migration\<close>

text \<open>
  A container that migrates leaves the table of its source and is mapped to its
  destination; when the broadcast fails it stays where it is, plugged for good.
\<close>

lemma set_plugged_tables [simp]:
  "pool_metadata (set_plugged c s) = pool_metadata s" "is_initialized (set_plugged c s) = is_initialized s"
  by (simp_all add: set_plugged_def)

lemma PlugContainer_tables:
  assumes "PlugContainer work p cid s = Some s'"
  shows "pool_metadata s' = pool_metadata s" and "is_initialized s' = is_initialized s"
  using assms by (auto simp: PlugContainer_def split: option.splits)

lemma unregister_in_fields [simp]:
  "address_map (unregister_in cid c i) = address_map i" "containers (unregister_in cid c i) = AList.delete cid (containers i)"
  by (simp_all add: unregister_in_def RecalculateLocalContainer_def Let_def split: list.split)

lemma UnregisterContainer_has:
  assumes "is_initialized s"
  shows "HasContainer (snd (UnregisterContainer p cid s)) q k \<longleftrightarrow> HasContainer s q k \<and> \<not> (q = p \<and> k = cid)"
  using assms by (auto simp: UnregisterContainer_def HasContainer_def with_pool_lookup delete_conv' split: option.split)

lemma UnregisterContainer_addr: "addr (snd (UnregisterContainer p cid s)) = addr s"
  by (auto simp: UnregisterContainer_def addr_def with_pool_lookup fun_eq_iff split: option.split)

theorem migrated_container_leaves_source:
  assumes "is_initialized s" and "pool_of s (mi_pool_id mi) \<noteq> None" and "report mi 0 = 0"
    and "migrate_one work report opens node now mi (num, s, d) = Some (num', s', d')"
  shows "num' = num + 1 \<and> addr s' (mi_pool_id mi) (mi_container_id mi) = Some (mi_dest mi) \<and>
    \<not> HasContainer s' (mi_pool_id mi) (mi_container_id mi)"
proof -
  obtain s1 where s1: "PlugContainer (work mi) (mi_pool_id mi) (mi_container_id mi) s = Some s1"
    using assms(4) by (auto simp: migrate_one_def split: option.splits)
  let ?s2 = "snd (UpdateContainerNodeMapping (mi_pool_id mi) (mi_container_id mi) (mi_dest mi) s1)"
  have i: "is_initialized s1" "pool_of s1 (mi_pool_id mi) \<noteq> None" using PlugContainer_tables [OF s1] assms(1,2) by simp_all
  then have "fst (UpdateContainerNodeMapping (mi_pool_id mi) (mi_container_id mi) (mi_dest mi) s1)"
    by (simp add: UpdateContainerNodeMapping_def)
  then have "num' = num + 1" "s' = snd (UnregisterContainer (mi_pool_id mi) (mi_container_id mi) ?s2)"
    using assms(3,4) s1 by (auto simp: migrate_one_def ChangeAddressTable_def Let_def case_prod_unfold)
  then show ?thesis
    using i by (simp add: UnregisterContainer_addr UpdateContainerNodeMapping_addr UnregisterContainer_has
        UpdateContainerNodeMapping_pools)
qed

end
