(* ===== verification/Swim.thy ===== *)
theory Swim
  imports Node_Recovery
begin

text \<open>
  The failure detector of the admin module (admin\_runtime.cc): \<^verbatim>\<open>HeartbeatProbe\<close>, run
  periodically, probes one node per run, asks helpers about a node that does not
  answer, suspects a node no helper reaches, and declares a suspected node dead after
  a timeout; \<^verbatim>\<open>ProbeRequest\<close> is the helper's side.

  A future is known by its probe, since no two pending probes are equal: \<open>w_answered\<close> and
  \<open>w_result\<close> tell what has come back when a run looks at it. \<open>w_now\<close> is the clock reading
  a run starts with and \<open>w_late\<close> the later readings of that run; \<open>w_secs\<close> converts a clock
  difference to seconds. \<open>w_shuffle\<close> is the random order of the helpers. A run is not
  interleaved with other tasks while \<^verbatim>\<open>TriggerRecovery\<close> waits for its broadcast.
\<close>

record Probe =
  pr_target :: u64
  pr_sent :: clock

record IndirectProbe =
  ip_target :: u64
  ip_helper :: u64
  ip_sent :: clock

record Swim =
  sw_cluster :: Cluster
  pending_direct :: "Probe list"
  pending_indirect :: "IndirectProbe list"
  round_robin_idx :: nat
  recovery_initiated :: "u64 list"

record swim_env =
  w_now :: clock
  w_late :: clock
  w_secs :: "int \<Rightarrow> real"
  w_answered :: "Probe \<Rightarrow> bool"
  w_result :: "IndirectProbe \<Rightarrow> int option"
  w_shuffle :: "u64 list \<Rightarrow> u64 list"
  w_port :: nat
  w_pm :: PoolManager
  w_sched :: "cptr \<Rightarrow> u32"

definition kDirectProbeTimeoutSec :: real where "kDirectProbeTimeoutSec = 5"
definition kIndirectProbeTimeoutSec :: real where "kIndirectProbeTimeoutSec = 3"
definition kIndirectProbeHelpers :: nat where "kIndirectProbeHelpers = 3"
definition kSuspicionTimeoutSec :: real where "kSuspicionTimeoutSec = 10"

section \<open>A run of the detector\<close>

text \<open>The helpers for a target, from the live nodes other than this one and the target.\<close>

definition helpers :: "swim_env \<Rightarrow> u64 \<Rightarrow> Cluster \<Rightarrow> u64 list" where
  "helpers e target c =
     (let candidates = map host_id (filter (\<lambda>h. host_id h \<noteq> this_node c \<and> host_id h \<noteq> target \<and> Host_IsAlive h) (fst (GetAllHosts c)))
      in take (min kIndirectProbeHelpers (length candidates)) (w_shuffle e candidates))"

text \<open>1. Pending direct probes: the probes that stay, the new indirect probes, the hosts.\<close>

fun direct_loop :: "swim_env \<Rightarrow> Probe list \<Rightarrow> IndirectProbe list \<Rightarrow> Cluster \<Rightarrow> Probe list \<times> IndirectProbe list \<times> Cluster" where
  "direct_loop e [] ind c = ([], ind, c)"
| "direct_loop e (p # ps) ind c =
     (if w_answered e p then direct_loop e ps ind (SetNodeState (pr_target p) kAlive (w_late e) c)
      else if kDirectProbeTimeoutSec < w_secs e (w_now e - pr_sent p) then
        let c = SetNodeState (pr_target p) kProbeFailed (w_late e) c;
            new = map (\<lambda>h. \<lparr>ip_target = pr_target p, ip_helper = h, ip_sent = w_late e\<rparr>) (helpers e (pr_target p) c);
            c = snd (GetAllHosts c)
        in direct_loop e ps (ind @ new) c
      else let (ps, ind, c) = direct_loop e ps ind c in (p # ps, ind, c))"

text \<open>A failed indirect probe has been erased; the target is suspected when it was the last one.\<close>

definition indirect_failed :: "swim_env \<Rightarrow> u64 \<Rightarrow> IndirectProbe list \<Rightarrow> Cluster \<Rightarrow> Cluster" where
  "indirect_failed e target left c =
     (if \<not> (\<exists>p \<in> set left. ip_target p = target) \<and> GetNodeState c target = kProbeFailed
      then SetNodeState target kSuspected (w_late e) c else c)"

text \<open>2. Pending indirect probes, with those already passed over in \<open>kept\<close>; a success ends the loop.\<close>

fun indirect_loop :: "swim_env \<Rightarrow> IndirectProbe list \<Rightarrow> IndirectProbe list \<Rightarrow> Cluster \<Rightarrow> IndirectProbe list \<times> Cluster" where
  "indirect_loop e kept [] c = (kept, c)"
| "indirect_loop e kept (p # ps) c =
     (case w_result e p of
        Some r \<Rightarrow>
          if r = 0 then (filter (\<lambda>x. ip_target x \<noteq> ip_target p) (kept @ p # ps), SetNodeState (ip_target p) kAlive (w_late e) c)
          else indirect_loop e kept ps (indirect_failed e (ip_target p) (kept @ ps) c)
      | None \<Rightarrow>
          if kIndirectProbeTimeoutSec < w_secs e (w_now e - ip_sent p)
          then indirect_loop e kept ps (indirect_failed e (ip_target p) (kept @ ps) c)
          else indirect_loop e (kept @ [p]) ps c)"

text \<open>3. Suspicion timeouts; the broadcasts of the recoveries are collected in order.\<close>

fun suspicion_loop :: "swim_env \<Rightarrow> Host list \<Rightarrow> Cluster \<Rightarrow> u64 list \<Rightarrow> RecoveryAssignment list list \<times> Cluster \<times> u64 list" where
  "suspicion_loop e [] c ini = ([], c, ini)"
| "suspicion_loop e (h # hs) c ini =
     (if host_state h = kSuspected \<and> kSuspicionTimeoutSec \<le> w_secs e (w_now e - state_changed_at h)
      then
        let c = SetDead (w_port e) (host_id h) (w_late e) c;
            (b, ini) = TriggerRecovery (w_sched e) c (w_pm e) (host_id h) ini;
            (bs, c, ini) = suspicion_loop e hs c ini
        in ((case b of None \<Rightarrow> bs | Some x \<Rightarrow> x # bs), c, ini)
      else suspicion_loop e hs c ini)"

text \<open>4. A node that sees a majority of the others suspected or dead fences itself.\<close>

definition self_fence :: "Cluster \<Rightarrow> Cluster" where
  "self_fence c =
     (let others = filter (\<lambda>h. host_id h \<noteq> this_node c) (fst (GetAllHosts c));
          bad = filter (\<lambda>h. host_state h = kSuspected \<or> host_state h = kDead) others;
          c = snd (GetAllHosts c)
      in if 0 < length others \<and> length others < length bad * 2
         then (if \<not> self_fenced c then SetSelfFenced True c else c)
         else (if self_fenced c then SetSelfFenced False c else c))"

text \<open>5. The next direct probe, round robin.\<close>

definition probe_next :: "swim_env \<Rightarrow> Swim \<Rightarrow> Swim" where
  "probe_next e s =
     (let (hosts, c) = GetAllHosts (sw_cluster s);
          s = s\<lparr>sw_cluster := c\<rparr>
      in if 1 < length hosts then
           (case find (\<lambda>i. let h = hosts ! i in host_id h \<noteq> this_node c \<and> host_state h \<noteq> kDead \<and> host_state h \<noteq> kSuspected \<and>
                               host_state h \<noteq> kProbeFailed \<and> \<not> (\<exists>p \<in> set (pending_direct s). pr_target p = host_id h))
                      (map (\<lambda>i. (round_robin_idx s + i) mod length hosts) [0..<length hosts]) of
              None \<Rightarrow> s
            | Some i \<Rightarrow> s\<lparr>pending_direct := pending_direct s @ [\<lparr>pr_target = host_id (hosts ! i), pr_sent = w_late e\<rparr>],
                         round_robin_idx := (i + 1) mod length hosts\<rparr>)
         else s)"

definition HeartbeatProbe :: "swim_env \<Rightarrow> Swim \<Rightarrow> RecoveryAssignment list list \<times> Swim" where
  "HeartbeatProbe e s =
     (let (dir, ind, c) = direct_loop e (pending_direct s) (pending_indirect s) (sw_cluster s);
          (ind, c) = indirect_loop e [] ind c;
          (hosts, c) = GetAllHosts c;
          (bs, c, ini) = suspicion_loop e hosts c (recovery_initiated s);
          c = self_fence c;
          s = s\<lparr>sw_cluster := c, pending_direct := dir, pending_indirect := ind, recovery_initiated := ini\<rparr>
      in (bs, probe_next e s))"

text \<open>
  \<^verbatim>\<open>ProbeRequest\<close>: the helper polls its own probe, \<open>came k\<close> and \<open>elapsed k\<close> the \<open>k\<close>-th
  readings of the future and of the time since the start.
\<close>

partial_function (option) probe_wait :: "(nat \<Rightarrow> bool) \<Rightarrow> (nat \<Rightarrow> real) \<Rightarrow> nat \<Rightarrow> nat option" where
  "probe_wait came elapsed k =
     (if came k then Some k
      else if kIndirectProbeTimeoutSec \<le> elapsed k then Some k
      else probe_wait came elapsed (k + 1))"

definition ProbeRequest :: "(nat \<Rightarrow> bool) \<Rightarrow> (nat \<Rightarrow> real) \<Rightarrow> int option" where
  "ProbeRequest came elapsed =
     (case probe_wait came elapsed 0 of
        None \<Rightarrow> None
      | Some k \<Rightarrow> Some (if came (k + 1) then 0 else - 1))"

text \<open>A helper always answers: once three seconds have passed it gives up.\<close>

lemma probe_wait_returns:
  assumes "kIndirectProbeTimeoutSec \<le> elapsed k" and "j \<le> k"
  shows "\<exists>i. probe_wait came elapsed j = Some i \<and> j \<le> i \<and> i \<le> k"
  using assms(2)
proof (induction "k - j" arbitrary: j)
  case 0
  then show ?case using assms(1) by (subst probe_wait.simps) simp
next
  case (Suc d)
  show ?case
  proof (cases "came j \<or> kIndirectProbeTimeoutSec \<le> elapsed j")
    case True
    then show ?thesis using Suc.prems by (subst probe_wait.simps) auto
  next
    case False
    have "d = k - (j + 1)" "j + 1 \<le> k" using Suc(2) by simp_all
    then obtain i where "probe_wait came elapsed (j + 1) = Some i" "j + 1 \<le> i" "i \<le> k" using Suc(1) [of "j + 1"] by blast
    then show ?thesis using False by (subst probe_wait.simps) auto
  qed
qed

lemma ProbeRequest_returns: "kIndirectProbeTimeoutSec \<le> elapsed k \<Longrightarrow> ProbeRequest came elapsed \<in> {Some 0, Some (- 1)}"
  using probe_wait_returns [of elapsed k 0 came] by (auto simp: ProbeRequest_def split: if_splits)

section \<open>What a run does to the hosts\<close>

abbreviation host_in :: "Cluster \<Rightarrow> u64 \<Rightarrow> NodeState \<Rightarrow> bool" where
  "host_in c n st \<equiv> (\<exists>h. GetHost c n = Some h \<and> host_state h = st)"

lemma SetNodeState_host:
  "GetHost (SetNodeState n st now c) m =
     (if m = n then map_option (\<lambda>h. h\<lparr>host_state := st, state_changed_at := now\<rparr>) (GetHost c n) else GetHost c m)"
  by (simp add: SetNodeState_def GetHost_def update_conv' split: option.split)

lemma SetNodeState_this [simp]: "this_node (SetNodeState n st now c) = this_node c"
  by (simp add: SetNodeState_def split: option.split)

lemma SetDead_host:
  "m \<noteq> n \<Longrightarrow> GetHost (SetDead port n now c) m = GetHost c m"
  "GetHost c n = Some h \<Longrightarrow> host_in (SetDead port n now c) n kDead"
  by (auto simp: SetDead_def GetHost_def SetNodeState_def Let_def update_conv' split: option.split)

lemma SetDead_this [simp]: "this_node (SetDead port n now c) = this_node c"
  by (simp add: SetDead_def Let_def split: option.split)

lemma GetAllHosts_host [simp]: "GetHost (snd (GetAllHosts c)) = GetHost c" "this_node (snd (GetAllHosts c)) = this_node c"
  by (simp_all add: GetAllHosts_def GetHost_def fun_eq_iff)

lemma GetNodeState_host: "GetNodeState c n = st \<and> st \<noteq> kDead \<longleftrightarrow> host_in c n st \<and> st \<noteq> kDead"
  by (auto simp: GetNodeState_def GetHost_def split: option.splits)

text \<open>The probe has failed in this run.\<close>

definition direct_fails :: "swim_env \<Rightarrow> Probe \<Rightarrow> bool" where
  "direct_fails e p \<longleftrightarrow> \<not> w_answered e p \<and> kDirectProbeTimeoutSec < w_secs e (w_now e - pr_sent p)"

definition indirect_fails :: "swim_env \<Rightarrow> IndirectProbe \<Rightarrow> bool" where
  "indirect_fails e p \<longleftrightarrow>
     (case w_result e p of Some r \<Rightarrow> r \<noteq> 0 | None \<Rightarrow> kIndirectProbeTimeoutSec < w_secs e (w_now e - ip_sent p))"

lemma direct_loop_spec:
  assumes "direct_loop e ps ind c = (ps', ind', c')" and "cluster_inv c"
    and "distinct (map pr_target ps)" and "\<forall>p \<in> set ps. host_in c (pr_target p) kAlive"
  shows "cluster_inv c' \<and> this_node c' = this_node c \<and> ps' = filter (\<lambda>p. \<not> w_answered e p \<and> \<not> direct_fails e p) ps \<and>
    (\<forall>n. n \<notin> pr_target ` set ps \<longrightarrow> GetHost c' n = GetHost c n) \<and>
    (\<forall>p \<in> set ps. host_in c' (pr_target p) (if direct_fails e p then kProbeFailed else kAlive)) \<and>
    (\<exists>new. ind' = ind @ new \<and> (\<forall>q \<in> set new. ip_sent q = w_late e \<and> (\<exists>p \<in> set ps. direct_fails e p \<and> pr_target p = ip_target q)))"
  using assms
proof (induction e ps ind c arbitrary: ps' rule: direct_loop.induct)
  case (2 e p ps ind c)
  have d: "distinct (map pr_target ps)" "pr_target p \<notin> pr_target ` set ps" using "2.prems"(3) by auto
  have al: "\<forall>q \<in> set ps. host_in (SetNodeState (pr_target p) st t c) (pr_target q) kAlive" for st t
  proof
    fix q assume q: "q \<in> set ps"
    then have "pr_target q \<noteq> pr_target p" using d(2) by (metis imageI)
    then show "host_in (SetNodeState (pr_target p) st t c) (pr_target q) kAlive" using q "2.prems"(4) by (simp add: SetNodeState_host)
  qed
  consider (ans) "w_answered e p" | (fail) "\<not> w_answered e p" "direct_fails e p" | (wait) "\<not> w_answered e p" "\<not> direct_fails e p" by blast
  then show ?case
  proof cases
    case ans
    let ?c = "SetNodeState (pr_target p) kAlive (w_late e) c"
    have "direct_loop e ps ind ?c = (ps', ind', c')" using "2.prems"(1) ans by simp
    from "2.IH"(1) [OF ans this SetNodeState_inv [OF "2.prems"(2)] d(1) al] show ?thesis
      using ans d(2) "2.prems"(4) by (auto simp: SetNodeState_host direct_fails_def)
  next
    case fail
    let ?c = "SetNodeState (pr_target p) kProbeFailed (w_late e) c"
    let ?new = "map (\<lambda>h. \<lparr>ip_target = pr_target p, ip_helper = h, ip_sent = w_late e\<rparr>) (helpers e (pr_target p) ?c)"
    have to: "kDirectProbeTimeoutSec < w_secs e (w_now e - pr_sent p)" using fail by (simp add: direct_fails_def)
    have r: "direct_loop e ps (ind @ ?new) (snd (GetAllHosts ?c)) = (ps', ind', c')" using "2.prems"(1) fail to by (simp add: Let_def)
    have i: "cluster_inv (snd (GetAllHosts ?c))" by (rule GetAllHosts_result(2) [OF SetNodeState_inv [OF "2.prems"(2)]])
    have al': "\<forall>q \<in> set ps. host_in (snd (GetAllHosts ?c)) (pr_target q) kAlive" using al by simp
    note IH = "2.IH"(2) [OF fail(1) to refl refl refl r i d(1) al']
    then obtain new where new: "ind' = (ind @ ?new) @ new"
      "\<forall>q \<in> set new. ip_sent q = w_late e \<and> (\<exists>p \<in> set ps. direct_fails e p \<and> pr_target p = ip_target q)" by blast
    have "\<exists>new. ind' = ind @ new \<and>
        (\<forall>q \<in> set new. ip_sent q = w_late e \<and> (\<exists>p \<in> set (p # ps). direct_fails e p \<and> pr_target p = ip_target q))"
      by (rule exI [of _ "?new @ new"]) (use new fail in auto)
    moreover have "host_in c' (pr_target p) kProbeFailed" using IH d(2) "2.prems"(4) by (auto simp: SetNodeState_host)
    ultimately show ?thesis using IH fail by (auto simp: SetNodeState_host)
  next
    case wait
    obtain ps1 ind1 c1 where r: "direct_loop e ps ind c = (ps1, ind1, c1)" by (cases "direct_loop e ps ind c")
    have nto: "\<not> kDirectProbeTimeoutSec < w_secs e (w_now e - pr_sent p)" using wait by (simp add: direct_fails_def)
    have eq: "ps' = p # ps1" "ind' = ind1" "c' = c1" using "2.prems"(1) wait nto r by auto
    have "\<forall>q \<in> set ps. host_in c (pr_target q) kAlive" using "2.prems"(4) by simp
    from "2.IH"(3) [OF wait(1) nto r [folded eq(2,3)] "2.prems"(2) d(1) this] show ?thesis
      using wait d(2) "2.prems"(4) eq by auto
  qed
qed simp

text \<open>The second loop: hosts without a probe are left alone, a host is suspected only with its last probe.\<close>

lemma indirect_failed_spec:
  assumes "cluster_inv c" and "\<forall>p \<in> set left. host_in c (ip_target p) kProbeFailed" and "host_in c n kProbeFailed"
  shows "cluster_inv (indirect_failed e n left c)" and "this_node (indirect_failed e n left c) = this_node c"
    and "\<forall>p \<in> set left. host_in (indirect_failed e n left c) (ip_target p) kProbeFailed"
    and "m \<noteq> n \<Longrightarrow> GetHost (indirect_failed e n left c) m = GetHost c m"
    and "n \<in> ip_target ` set left \<Longrightarrow> indirect_failed e n left c = c"
    and "n \<notin> ip_target ` set left \<Longrightarrow>
      \<exists>h. GetHost (indirect_failed e n left c) n = Some h \<and> host_state h = kSuspected \<and> state_changed_at h = w_late e"
proof -
  have "GetNodeState c n = kProbeFailed" using assms(3) by (auto simp: GetNodeState_def GetHost_def)
  moreover have "(\<exists>p \<in> set left. ip_target p = n) \<longleftrightarrow> n \<in> ip_target ` set left" by auto
  ultimately have f: "indirect_failed e n left c = (if n \<in> ip_target ` set left then c else SetNodeState n kSuspected (w_late e) c)"
    by (simp add: indirect_failed_def)
  show "cluster_inv (indirect_failed e n left c)" "this_node (indirect_failed e n left c) = this_node c"
    "m \<noteq> n \<Longrightarrow> GetHost (indirect_failed e n left c) m = GetHost c m"
    "n \<in> ip_target ` set left \<Longrightarrow> indirect_failed e n left c = c"
    "n \<notin> ip_target ` set left \<Longrightarrow>
      \<exists>h. GetHost (indirect_failed e n left c) n = Some h \<and> host_state h = kSuspected \<and> state_changed_at h = w_late e"
    using assms(1,3) by (auto simp: f SetNodeState_inv SetNodeState_host)
  show "\<forall>p \<in> set left. host_in (indirect_failed e n left c) (ip_target p) kProbeFailed"
    using assms(2) by (auto simp: f SetNodeState_host)
qed

lemma indirect_loop_step:
  "indirect_loop e kept (p # ps) c =
     (if w_result e p = Some 0 then (filter (\<lambda>x. ip_target x \<noteq> ip_target p) (kept @ p # ps), SetNodeState (ip_target p) kAlive (w_late e) c)
      else if indirect_fails e p then indirect_loop e kept ps (indirect_failed e (ip_target p) (kept @ ps) c)
      else indirect_loop e (kept @ [p]) ps c)"
  by (simp add: indirect_fails_def split: option.split)

declare indirect_loop.simps(2) [simp del]

abbreviation failed_targets :: "Cluster \<Rightarrow> IndirectProbe list \<Rightarrow> bool" where
  "failed_targets c ps \<equiv> (\<forall>p \<in> set ps. host_in c (ip_target p) kProbeFailed)"

lemma indirect_loop_induct [consumes 3, case_names nil succ fail wait]:
  assumes "indirect_loop e kept ps c = (ind, c')" and "cluster_inv c" and "failed_targets c (kept @ ps)"
    and nil: "\<And>kept c. cluster_inv c \<Longrightarrow> failed_targets c kept \<Longrightarrow> P kept [] c kept c"
    and succ: "\<And>kept p ps c. cluster_inv c \<Longrightarrow> failed_targets c (kept @ p # ps) \<Longrightarrow> w_result e p = Some 0 \<Longrightarrow>
      P kept (p # ps) c (filter (\<lambda>x. ip_target x \<noteq> ip_target p) (kept @ p # ps)) (SetNodeState (ip_target p) kAlive (w_late e) c)"
    and fail: "\<And>kept p ps c ind c'. cluster_inv c \<Longrightarrow> failed_targets c (kept @ p # ps) \<Longrightarrow> w_result e p \<noteq> Some 0 \<Longrightarrow>
      indirect_fails e p \<Longrightarrow> P kept ps (indirect_failed e (ip_target p) (kept @ ps) c) ind c' \<Longrightarrow> P kept (p # ps) c ind c'"
    and wait: "\<And>kept p ps c ind c'. cluster_inv c \<Longrightarrow> failed_targets c (kept @ p # ps) \<Longrightarrow> w_result e p \<noteq> Some 0 \<Longrightarrow>
      \<not> indirect_fails e p \<Longrightarrow> P (kept @ [p]) ps c ind c' \<Longrightarrow> P kept (p # ps) c ind c'"
  shows "P kept ps c ind c'"
  using assms(1-3)
proof (induction ps arbitrary: kept c)
  case Nil
  then show ?case using nil by simp
next
  case (Cons p ps)
  have p: "host_in c (ip_target p) kProbeFailed" and l: "failed_targets c (kept @ ps)" using Cons.prems(3) by auto
  note f = indirect_failed_spec(1,3) [OF Cons.prems(2) l p, where e = e]
  consider (succ) "w_result e p = Some 0" | (fail) "w_result e p \<noteq> Some 0" "indirect_fails e p"
    | (wait) "w_result e p \<noteq> Some 0" "\<not> indirect_fails e p" by blast
  then show ?case
  proof cases
    case succ
    then show ?thesis using assms(5) [OF Cons.prems(2,3) succ] Cons.prems(1) by (simp add: indirect_loop_step)
  next
    case fail
    then have "indirect_loop e kept ps (indirect_failed e (ip_target p) (kept @ ps) c) = (ind, c')"
      using Cons.prems(1) by (simp add: indirect_loop_step)
    from assms(6) [OF Cons.prems(2,3) fail Cons.IH [OF this f]] show ?thesis .
  next
    case wait
    then have "indirect_loop e (kept @ [p]) ps c = (ind, c')" using Cons.prems(1) by (simp add: indirect_loop_step)
    from assms(7) [OF Cons.prems(2,3) wait Cons.IH [OF this Cons.prems(2)]] Cons.prems(3) show ?thesis by simp
  qed
qed

lemma indirect_loop_inv:
  assumes "indirect_loop e kept ps c = (ind, c')" and "cluster_inv c" and "failed_targets c (kept @ ps)"
  shows "cluster_inv c' \<and> this_node c' = this_node c \<and> set ind \<subseteq> set (kept @ ps) \<and> failed_targets c' ind"
  using assms
proof (induction rule: indirect_loop_induct)
  case (succ kept p ps c)
  then show ?case by (auto simp: SetNodeState_inv SetNodeState_host)
next
  case (fail kept p ps c ind c')
  then show ?case using indirect_failed_spec(2) [OF fail(1), of "kept @ ps" "ip_target p" e] by auto
qed auto

lemma indirect_loop_frame:
  assumes "indirect_loop e kept ps c = (ind, c')" and "cluster_inv c" and "failed_targets c (kept @ ps)"
  shows "n \<notin> ip_target ` set ps \<longrightarrow> GetHost c' n = GetHost c n"
  using assms
proof (induction rule: indirect_loop_induct)
  case (fail kept p ps c ind c')
  then show ?case using indirect_failed_spec(4) [OF fail(1), of "kept @ ps" "ip_target p" n e] by auto
qed (auto simp: SetNodeState_host)

text \<open>A host with no good word from a helper keeps a pending probe or is suspected as of this run.\<close>

definition suspected_by :: "Cluster \<Rightarrow> u64 \<Rightarrow> clock \<Rightarrow> bool" where
  "suspected_by c n t \<longleftrightarrow> (\<exists>h. GetHost c n = Some h \<and> host_state h = kSuspected \<and> state_changed_at h \<le> t)"

lemma indirect_loop_unhelped:
  assumes "indirect_loop e kept ps c = (ind, c')" and "cluster_inv c" and "failed_targets c (kept @ ps)"
    and "\<And>p. ip_target p = n \<Longrightarrow> w_result e p \<noteq> Some 0"
  shows "(n \<in> ip_target ` set (kept @ ps) \<longrightarrow> n \<in> ip_target ` set ind \<or> suspected_by c' n (w_late e)) \<and>
    (n \<notin> ip_target ` set (kept @ ps) \<longrightarrow> GetHost c' n = GetHost c n)"
  using assms(1-3)
proof (induction rule: indirect_loop_induct)
  case (succ kept p ps c)
  then have "ip_target p \<noteq> n" using assms(4) by blast
  then show ?case by (auto simp: SetNodeState_host)
next
  case (fail kept p ps c ind c')
  note f = indirect_failed_spec [OF fail(1), of "kept @ ps" "ip_target p"]
  have pr: "failed_targets c (kept @ ps)" "host_in c (ip_target p) kProbeFailed" using fail(2) by auto
  show ?case
  proof (cases "n = ip_target p \<and> n \<notin> ip_target ` set (kept @ ps)")
    case True
    then show ?thesis using f(6) [OF pr, of e] fail(5) by (auto simp: suspected_by_def)
  next
    case False
    then show ?thesis using f(4) [OF pr, of n e] f(5) [OF pr, of e] fail(5) by auto
  qed
qed auto

text \<open>When all its probes have failed and no helper ends the loop early, the host is suspected.\<close>

lemma indirect_loop_all_failed:
  assumes "indirect_loop e kept ps c = (ind, c')" and "cluster_inv c" and "failed_targets c (kept @ ps)"
    and "\<And>p. w_result e p \<noteq> Some 0"
  shows "(\<forall>p \<in> set ps. ip_target p = n \<longrightarrow> indirect_fails e p) \<and> n \<notin> ip_target ` set kept \<longrightarrow> n \<notin> ip_target ` set ind"
  using assms(1-3)
proof (induction rule: indirect_loop_induct)
  case (succ kept p ps c)
  then show ?case using assms(4) by blast
qed auto

text \<open>The third loop, on a snapshot of the hosts: exactly those suspected long enough die.\<close>

definition expired :: "swim_env \<Rightarrow> Host \<Rightarrow> bool" where
  "expired e h \<longleftrightarrow> host_state h = kSuspected \<and> kSuspicionTimeoutSec \<le> w_secs e (w_now e - state_changed_at h)"

lemma suspicion_loop_spec:
  assumes "suspicion_loop e hs c ini = (bs, c', ini')" and "cluster_inv c" and "\<forall>h \<in> set hs. GetHost c (host_id h) = Some h"
    and "distinct (map host_id hs)"
  shows "cluster_inv c' \<and> this_node c' = this_node c \<and>
    (\<forall>n. (\<forall>h \<in> set hs. host_id h = n \<longrightarrow> \<not> expired e h) \<longrightarrow> GetHost c' n = GetHost c n) \<and>
    (\<forall>h \<in> set hs. expired e h \<longrightarrow> host_in c' (host_id h) kDead)"
  using assms
proof (induction hs arbitrary: c ini bs)
  case (Cons h hs)
  have d: "h' \<in> set hs \<Longrightarrow> host_id h' \<noteq> host_id h" for h' using Cons.prems(4) by (metis distinct.simps(2) imageI list.set_map list.simps(9))
  show ?case
  proof (cases "expired e h")
    case True
    let ?c = "SetDead (w_port e) (host_id h) (w_late e) c"
    obtain b ini1 where b: "TriggerRecovery (w_sched e) ?c (w_pm e) (host_id h) ini = (b, ini1)" by (metis surj_pair)
    obtain bs1 c1 ini2 where r: "suspicion_loop e hs ?c ini1 = (bs1, c1, ini2)" by (metis surj_pair)
    have r': "suspicion_loop e hs ?c ini1 = (bs1, c', ini')" using Cons.prems(1) True b r by (auto simp: expired_def Let_def)
    have snap: "\<forall>h' \<in> set hs. GetHost ?c (host_id h') = Some h'" using Cons.prems(3) d by (simp add: SetDead_host(1))
    note IH = Cons.IH [OF r' SetDead_inv [OF Cons.prems(2)] snap]
    have dead: "host_in ?c (host_id h) kDead" using Cons.prems(3) by (intro SetDead_host(2)) simp
    have "GetHost c' (host_id h) = GetHost ?c (host_id h)" using IH Cons.prems(4) d by auto
    then have "host_in c' (host_id h) kDead" using dead by simp
    moreover have "GetHost c' n = GetHost c n" if "\<forall>h' \<in> set (h # hs). host_id h' = n \<longrightarrow> \<not> expired e h'" for n
      using that True IH Cons.prems(4) SetDead_host(1) [of n "host_id h"] by auto
    ultimately show ?thesis using IH Cons.prems(4) by auto
  next
    case False
    then have "suspicion_loop e hs c ini = (bs, c', ini')" using Cons.prems(1) by (auto simp: expired_def)
    from Cons.IH [OF this Cons.prems(2)] Cons.prems(3,4) False show ?thesis by auto
  qed
qed simp

lemma snapshot_hosts:
  assumes "cluster_inv c"
  shows "\<forall>h \<in> set (fst (GetAllHosts c)). GetHost c (host_id h) = Some h" and "distinct (map host_id (fst (GetAllHosts c)))"
    and "GetHost c n = Some h \<longleftrightarrow> h \<in> set (fst (GetAllHosts c)) \<and> host_id h = n"
proof -
  have ids: "map host_id (map snd (hostfile_map c)) = map fst (hostfile_map c)"
    using assms by (auto simp: cluster_inv_def)
  show "distinct (map host_id (fst (GetAllHosts c)))"
    unfolding GetAllHosts_result(1) [OF assms] ids by (rule cluster_invD(1) [OF assms])
  have g: "GetHost c m = Some x \<longleftrightarrow> (m, x) \<in> set (hostfile_map c)" for m x
    using cluster_invD(1) [OF assms] by (simp add: GetHost_def)
  have i: "(m, x) \<in> set (hostfile_map c) \<Longrightarrow> host_id x = m" for m x using assms by (auto simp: cluster_inv_def)
  show "\<forall>h \<in> set (fst (GetAllHosts c)). GetHost c (host_id h) = Some h"
    unfolding GetAllHosts_result(1) [OF assms] using g i by auto
  show "GetHost c n = Some h \<longleftrightarrow> h \<in> set (fst (GetAllHosts c)) \<and> host_id h = n"
    unfolding GetAllHosts_result(1) [OF assms] using g [of n h] i by force
qed

lemma self_fence_host [simp]: "GetHost (self_fence c) = GetHost c" "this_node (self_fence c) = this_node c"
  by (simp_all add: self_fence_def Let_def SetSelfFenced_def) (simp_all add: GetHost_def fun_eq_iff GetAllHosts_def)

lemma self_fence_inv: "cluster_inv c \<Longrightarrow> cluster_inv (self_fence c)"
  by (simp add: self_fence_def Let_def SetSelfFenced_def GetAllHosts_result(2))

section \<open>The invariant of the detector\<close>

text \<open>
  At most one direct probe is pending for a node, and only for a node that counts as
  alive; indirect probes are pending only for a node whose direct probe failed.
\<close>

definition swim_inv :: "Swim \<Rightarrow> bool" where
  "swim_inv s \<longleftrightarrow>
     cluster_inv (sw_cluster s) \<and> distinct (map pr_target (pending_direct s)) \<and>
     (\<forall>p \<in> set (pending_direct s). host_in (sw_cluster s) (pr_target p) kAlive) \<and>
     failed_targets (sw_cluster s) (pending_indirect s)"

lemma probe_next_spec:
  assumes "swim_inv s"
  shows "swim_inv (probe_next e s)" and "GetHost (sw_cluster (probe_next e s)) = GetHost (sw_cluster s)"
    and "pending_indirect (probe_next e s) = pending_indirect s"
    and "\<forall>p \<in> set (pending_direct (probe_next e s)). p \<in> set (pending_direct s) \<or> (pr_sent p = w_late e \<and> host_in (sw_cluster s) (pr_target p) kAlive)"
proof -
  let ?hs = "fst (GetAllHosts (sw_cluster s))" and ?c = "snd (GetAllHosts (sw_cluster s))"
  let ?ok = "\<lambda>i. let h = ?hs ! i in host_id h \<noteq> this_node ?c \<and> host_state h \<noteq> kDead \<and> host_state h \<noteq> kSuspected \<and>
                  host_state h \<noteq> kProbeFailed \<and> \<not> (\<exists>p \<in> set (pending_direct s). pr_target p = host_id h)"
  let ?is = "map (\<lambda>i. (round_robin_idx s + i) mod length ?hs) [0..<length ?hs]"
  have c: "cluster_inv (sw_cluster s)" "cluster_inv ?c" using assms by (auto simp: swim_inv_def GetAllHosts_result(2))
  consider (none) "probe_next e s = s\<lparr>sw_cluster := ?c\<rparr>"
    | (some) i where "find ?ok ?is = Some i" "1 < length ?hs" "probe_next e s = s\<lparr>sw_cluster := ?c, pending_direct := pending_direct s @
        [\<lparr>pr_target = host_id (?hs ! i), pr_sent = w_late e\<rparr>], round_robin_idx := (i + 1) mod length ?hs\<rparr>"
    by (cases "1 < length ?hs"; cases "find ?ok ?is") (auto simp: probe_next_def case_prod_unfold Let_def)
  then have "swim_inv (probe_next e s) \<and> GetHost (sw_cluster (probe_next e s)) = GetHost (sw_cluster s) \<and>
    pending_indirect (probe_next e s) = pending_indirect s \<and>
    (\<forall>p \<in> set (pending_direct (probe_next e s)). p \<in> set (pending_direct s) \<or>
       (pr_sent p = w_late e \<and> host_in (sw_cluster s) (pr_target p) kAlive))"
  proof cases
    case none
    then show ?thesis using assms c by (simp add: none swim_inv_def)
  next
    case (some i)
    obtain j where j: "?ok i" "j < length ?is" "i = ?is ! j" using some(1) unfolding find_Some_iff by blast
    have "i = (round_robin_idx s + j) mod length ?hs" using j(2,3) by simp
    moreover have "0 < length ?hs" using some(2) by linarith
    ultimately have i: "?ok i" "i < length ?hs" using j(1) mod_less_divisor by blast+
    let ?h = "?hs ! i"
    have "GetHost (sw_cluster s) (host_id ?h) = Some ?h" using snapshot_hosts(1) [OF c(1)] i(2) by simp
    moreover have "host_state ?h = kAlive" using i(1) by (cases "host_state ?h") (auto simp: Let_def)
    ultimately have h: "host_in (sw_cluster s) (host_id ?h) kAlive" by blast
    have new: "host_id ?h \<notin> pr_target ` set (pending_direct s)" using i(1) by (auto simp: Let_def)
    have "swim_inv (probe_next e s)" using assms c h new by (auto simp: some(3) swim_inv_def)
    then show ?thesis using h by (simp add: some(3))
  qed
  then show "swim_inv (probe_next e s)" and "GetHost (sw_cluster (probe_next e s)) = GetHost (sw_cluster s)"
    and "pending_indirect (probe_next e s) = pending_indirect s"
    and "\<forall>p \<in> set (pending_direct (probe_next e s)). p \<in> set (pending_direct s) \<or>
       (pr_sent p = w_late e \<and> host_in (sw_cluster s) (pr_target p) kAlive)"
    by blast+
qed

text \<open>The stages of a run, with the states between them.\<close>

lemma HeartbeatProbe_stages:
  assumes "swim_inv s" and "HeartbeatProbe e s = (bs, s')"
  obtains ind1 c1 ind2 c2 s4 where
    "direct_loop e (pending_direct s) (pending_indirect s) (sw_cluster s) =
       (filter (\<lambda>p. \<not> w_answered e p \<and> \<not> direct_fails e p) (pending_direct s), ind1, c1)"
    "indirect_loop e [] ind1 c1 = (ind2, c2)" "cluster_inv c1" "cluster_inv c2" "failed_targets c1 ind1" "swim_inv s4"
    "\<forall>n. (\<forall>h. GetHost c2 n = Some h \<longrightarrow> \<not> expired e h) \<longrightarrow> GetHost (sw_cluster s4) n = GetHost c2 n"
    "\<forall>n h. GetHost c2 n = Some h \<and> expired e h \<longrightarrow> host_in (sw_cluster s4) n kDead"
    "pending_direct s4 = filter (\<lambda>p. \<not> w_answered e p \<and> \<not> direct_fails e p) (pending_direct s)" "pending_indirect s4 = ind2"
    "s' = probe_next e s4"
proof -
  obtain dir ind1 c1 where one: "direct_loop e (pending_direct s) (pending_indirect s) (sw_cluster s) = (dir, ind1, c1)" by (metis surj_pair)
  obtain ind2 c2 where two: "indirect_loop e [] ind1 c1 = (ind2, c2)" by (metis surj_pair)
  let ?hs = "fst (GetAllHosts c2)" and ?c2 = "snd (GetAllHosts c2)"
  obtain bs1 c3 ini where three: "suspicion_loop e ?hs ?c2 (recovery_initiated s) = (bs1, c3, ini)" by (metis surj_pair)
  define s4 where "s4 = s\<lparr>sw_cluster := self_fence c3, pending_direct := dir, pending_indirect := ind2, recovery_initiated := ini\<rparr>"
  have s': "s' = probe_next e s4" using assms(2) one two three by (simp add: HeartbeatProbe_def s4_def case_prod_unfold Let_def)
  have inv: "cluster_inv (sw_cluster s)" "distinct (map pr_target (pending_direct s))"
    "\<forall>p \<in> set (pending_direct s). host_in (sw_cluster s) (pr_target p) kAlive" "failed_targets (sw_cluster s) (pending_indirect s)"
    using assms(1) by (auto simp: swim_inv_def)
  note d = direct_loop_spec [OF one inv(1-3)]
  then obtain new where new: "ind1 = pending_indirect s @ new"
    "\<forall>q \<in> set new. ip_sent q = w_late e \<and> (\<exists>p \<in> set (pending_direct s). direct_fails e p \<and> pr_target p = ip_target q)" by blast
  have f1: "failed_targets c1 ind1"
  proof
    fix q assume "q \<in> set ind1"
    then consider "q \<in> set (pending_indirect s)" | p where "p \<in> set (pending_direct s)" "direct_fails e p" "pr_target p = ip_target q"
      using new by auto
    then show "host_in c1 (ip_target q) kProbeFailed"
    proof cases
      case 1
      then have "ip_target q \<notin> pr_target ` set (pending_direct s)" using inv(3,4) by fastforce
      then show ?thesis using d inv(4) 1 by auto
    next
      case (2 p)
      then show ?thesis using d by (metis (full_types))
    qed
  qed
  have i: "cluster_inv c2" "failed_targets c2 ind2" "set ind2 \<subseteq> set ind1" using indirect_loop_inv [OF two] d f1 by auto
  have snap: "\<forall>h \<in> set ?hs. GetHost ?c2 (host_id h) = Some h" using snapshot_hosts(1) [OF i(1)] by simp
  note su = suspicion_loop_spec [OF three GetAllHosts_result(2) [OF i(1)] snap snapshot_hosts(2) [OF i(1)]]
  have keep: "GetHost c3 n = GetHost c2 n" if "\<forall>h. GetHost c2 n = Some h \<longrightarrow> \<not> expired e h" for n
  proof -
    have "\<forall>h \<in> set ?hs. host_id h = n \<longrightarrow> \<not> expired e h" using that snapshot_hosts(1) [OF i(1)] by blast
    then show ?thesis using su by simp
  qed
  have dies: "host_in c3 n kDead" if "GetHost c2 n = Some h" "expired e h" for n h
    using su that snapshot_hosts(3) [OF i(1), of n h] by auto
  have live: "host_in c3 n st" if "host_in c2 n st" "st \<noteq> kSuspected" for n st
    using keep [of n] that by (auto simp: expired_def)
  have alive: "host_in c2 (pr_target p) kAlive" if p: "p \<in> set dir" for p
  proof -
    have q: "p \<in> set (pending_direct s)" "\<not> direct_fails e p" using p d by auto
    then have a: "host_in c1 (pr_target p) kAlive" using d by (metis (full_types))
    then have "pr_target p \<notin> ip_target ` set ind1" using f1 by fastforce
    then show ?thesis using a indirect_loop_frame [OF two, of "pr_target p"] d f1 by auto
  qed
  have "distinct (map pr_target dir)" using d inv(2) by (simp add: distinct_map_filter)
  then have "swim_inv s4" using alive live i(2) su by (auto simp: swim_inv_def s4_def self_fence_inv)
  moreover have "\<forall>n. (\<forall>h. GetHost c2 n = Some h \<longrightarrow> \<not> expired e h) \<longrightarrow> GetHost (sw_cluster s4) n = GetHost c2 n"
    using keep by (simp add: s4_def)
  moreover have "\<forall>n h. GetHost c2 n = Some h \<and> expired e h \<longrightarrow> host_in (sw_cluster s4) n kDead" using dies by (simp add: s4_def)
  moreover have "dir = filter (\<lambda>p. \<not> w_answered e p \<and> \<not> direct_fails e p) (pending_direct s)" "cluster_inv c1" using d by auto
  ultimately show ?thesis using that [of ind1 c1 ind2 c2 s4] one two i(1) f1 s' by (simp add: s4_def)
qed

lemma HeartbeatProbe_inv: "swim_inv s \<Longrightarrow> swim_inv (snd (HeartbeatProbe e s))"
  by (metis HeartbeatProbe_stages probe_next_spec(1) surj_pair snd_conv)

fun swim_run :: "swim_env list \<Rightarrow> Swim \<Rightarrow> Swim" where
  "swim_run [] s = s"
| "swim_run (e # es) s = swim_run es (snd (HeartbeatProbe e s))"

lemma swim_run_append: "swim_run (es @ fs) s = swim_run fs (swim_run es s)"
  by (induction es arbitrary: s) simp_all

lemma swim_run_inv: "swim_inv s \<Longrightarrow> swim_inv (swim_run es s)"
  by (induction es arbitrary: s) (simp_all add: HeartbeatProbe_inv)

lemma swim_run_keeps:
  assumes "\<And>e s. e \<in> set es \<Longrightarrow> swim_inv s \<Longrightarrow> P s \<Longrightarrow> P (snd (HeartbeatProbe e s))" and "swim_inv s" and "P s"
  shows "P (swim_run es s)"
  using assms by (induction es arbitrary: s) (simp_all add: HeartbeatProbe_inv)

text \<open>A node with no probe pending keeps its entry, unless its suspicion expires.\<close>

lemma HeartbeatProbe_unprobed:
  assumes "swim_inv s" and "n \<notin> pr_target ` set (pending_direct s)" and "n \<notin> ip_target ` set (pending_indirect s)"
  shows "n \<notin> ip_target ` set (pending_indirect (snd (HeartbeatProbe e s)))"
    and "(\<forall>h. GetHost (sw_cluster s) n = Some h \<longrightarrow> \<not> expired e h) \<Longrightarrow>
      GetHost (sw_cluster (snd (HeartbeatProbe e s))) n = GetHost (sw_cluster s) n"
    and "GetHost (sw_cluster s) n = Some h \<Longrightarrow> expired e h \<Longrightarrow> host_in (sw_cluster (snd (HeartbeatProbe e s))) n kDead"
    and "\<not> host_in (sw_cluster s) n kAlive \<Longrightarrow> n \<notin> pr_target ` set (pending_direct (snd (HeartbeatProbe e s)))"
proof -
  obtain bs s' where r: "HeartbeatProbe e s = (bs, s')" by (metis surj_pair)
  obtain ind1 c1 ind2 c2 s4 where st:
    "direct_loop e (pending_direct s) (pending_indirect s) (sw_cluster s) =
       (filter (\<lambda>p. \<not> w_answered e p \<and> \<not> direct_fails e p) (pending_direct s), ind1, c1)"
    "indirect_loop e [] ind1 c1 = (ind2, c2)" "cluster_inv c1" "cluster_inv c2" "failed_targets c1 ind1" "swim_inv s4"
    "\<forall>n. (\<forall>h. GetHost c2 n = Some h \<longrightarrow> \<not> expired e h) \<longrightarrow> GetHost (sw_cluster s4) n = GetHost c2 n"
    "\<forall>n h. GetHost c2 n = Some h \<and> expired e h \<longrightarrow> host_in (sw_cluster s4) n kDead"
    "pending_direct s4 = filter (\<lambda>p. \<not> w_answered e p \<and> \<not> direct_fails e p) (pending_direct s)" "pending_indirect s4 = ind2"
    "s' = probe_next e s4" by (rule HeartbeatProbe_stages [OF assms(1) r])
  note d = direct_loop_spec [OF st(1)]
  have inv: "cluster_inv (sw_cluster s)" "distinct (map pr_target (pending_direct s))"
    "\<forall>p \<in> set (pending_direct s). host_in (sw_cluster s) (pr_target p) kAlive" using assms(1) by (auto simp: swim_inv_def)
  obtain new where new: "ind1 = pending_indirect s @ new"
    "\<forall>q \<in> set new. ip_sent q = w_late e \<and> (\<exists>p \<in> set (pending_direct s). direct_fails e p \<and> pr_target p = ip_target q)"
    using d [OF inv] by blast
  have n1: "n \<notin> ip_target ` set ind1" using assms(2,3) new by force
  have c1: "GetHost c1 n = GetHost (sw_cluster s) n" using d [OF inv] assms(2) by blast
  have c2: "GetHost c2 n = GetHost (sw_cluster s) n" using indirect_loop_frame [OF st(2,3), of n] st(5) n1 c1 by simp
  note pn = probe_next_spec [OF st(6), of e]
  show "n \<notin> ip_target ` set (pending_indirect (snd (HeartbeatProbe e s)))"
    using n1 indirect_loop_inv [OF st(2,3)] st(5,10,11) pn(3) r by auto
  show "GetHost (sw_cluster (snd (HeartbeatProbe e s))) n = GetHost (sw_cluster s) n"
    if "\<forall>h. GetHost (sw_cluster s) n = Some h \<longrightarrow> \<not> expired e h"
    using that c2 st(7,11) pn(2) r by simp
  show dead: "host_in (sw_cluster (snd (HeartbeatProbe e s))) n kDead" if "GetHost (sw_cluster s) n = Some h" "expired e h" for h
    using that c2 st(8,11) pn(2) r by simp
  show "n \<notin> pr_target ` set (pending_direct (snd (HeartbeatProbe e s)))" if na: "\<not> host_in (sw_cluster s) n kAlive"
  proof
    assume "n \<in> pr_target ` set (pending_direct (snd (HeartbeatProbe e s)))"
    then have "host_in (sw_cluster s4) n kAlive" using pn(4) assms(2) st(9,11) r by auto
    moreover have "\<not> host_in (sw_cluster s4) n kAlive"
    proof (cases "\<exists>h. GetHost (sw_cluster s) n = Some h \<and> expired e h")
      case True
      then have "host_in (sw_cluster s4) n kDead" using c2 st(8) by simp
      then show ?thesis by auto
    next
      case False
      then show ?thesis using na c2 st(7) by simp
    qed
    ultimately show False by blast
  qed
qed

section \<open>Helpers\<close>

lemma helpers_none:
  assumes "cluster_inv c" and "\<forall>m. host_in c m kAlive \<longrightarrow> m = this_node c \<or> m = n"
  shows "helpers e n c = []"
proof -
  have "filter (\<lambda>h. host_id h \<noteq> this_node c \<and> host_id h \<noteq> n \<and> Host_IsAlive h) (fst (GetAllHosts c)) = []"
    using assms(2) snapshot_hosts(1) [OF assms(1)] by (auto simp: filter_empty_conv Host_IsAlive_def)
  then show ?thesis by (simp add: helpers_def)
qed

lemma helpers_some:
  assumes "cluster_inv c" and "host_in c m kAlive" and "m \<noteq> this_node c" and "m \<noteq> n" and "\<And>xs. length (w_shuffle e xs) = length xs"
  shows "helpers e n c \<noteq> []"
proof -
  obtain h where h: "GetHost c m = Some h" "host_state h = kAlive" using assms(2) by blast
  then have "h \<in> set (fst (GetAllHosts c))" "host_id h = m" using snapshot_hosts(3) [OF assms(1)] by auto
  then have "h \<in> set (filter (\<lambda>h. host_id h \<noteq> this_node c \<and> host_id h \<noteq> n \<and> Host_IsAlive h) (fst (GetAllHosts c)))" (is "h \<in> set ?hs")
    using h(2) assms(3,4) by (simp add: Host_IsAlive_def)
  then have "0 < length (map host_id ?hs)" by (cases ?hs) auto
  then have "0 < length (take (min 3 (length (map host_id ?hs))) (w_shuffle e (map host_id ?hs)))" using assms(5) by simp
  then show ?thesis unfolding helpers_def Let_def kIndirectProbeHelpers_def length_greater_0_conv .
qed

lemma direct_loop_grows: "set ind \<subseteq> set (fst (snd (direct_loop e ps ind c)))"
proof (induction ps arbitrary: ind c)
  case (Cons p ps)
  show ?case using Cons [of ind] Cons [of "ind @ new" for new] by (simp add: Let_def case_prod_unfold)
qed simp

lemma direct_loop_lonely:
  assumes "direct_loop e ps ind c = (ps', ind', c')" and "cluster_inv c" and "\<forall>m. host_in c m kAlive \<longrightarrow> m = this_node c \<or> m = n"
    and "\<forall>p \<in> set ps. host_in c (pr_target p) kAlive" and "distinct (map pr_target ps)"
  shows "n \<in> ip_target ` set ind' \<longleftrightarrow> n \<in> ip_target ` set ind"
  using assms
proof (induction ps arbitrary: ind c ps')
  case (Cons p ps)
  have d: "distinct (map pr_target ps)" "q \<in> set ps \<Longrightarrow> pr_target q \<noteq> pr_target p" for q
    using Cons.prems(5) by (auto, metis imageI)
  have al: "\<forall>q \<in> set ps. host_in (SetNodeState (pr_target p) st t c) (pr_target q) kAlive" for st t
    using Cons.prems(4) d(2) by (auto simp: SetNodeState_host)
  have lo: "\<forall>m. host_in (SetNodeState (pr_target p) st t c) m kAlive \<longrightarrow> m = this_node c \<or> m = n" for st t
    using Cons.prems(3,4) by (auto simp: SetNodeState_host)
  consider (ans) "w_answered e p" | (fail) "\<not> w_answered e p" "kDirectProbeTimeoutSec < w_secs e (w_now e - pr_sent p)"
    | (wait) "\<not> w_answered e p" "\<not> kDirectProbeTimeoutSec < w_secs e (w_now e - pr_sent p)" by blast
  then show ?case
  proof cases
    case ans
    then have "direct_loop e ps ind (SetNodeState (pr_target p) kAlive (w_late e) c) = (ps', ind', c')" using Cons.prems(1) by simp
    from Cons.IH [OF this SetNodeState_inv [OF Cons.prems(2)] _ al d(1)] lo show ?thesis by simp
  next
    case fail
    let ?c = "SetNodeState (pr_target p) kProbeFailed (w_late e) c"
    let ?new = "map (\<lambda>h. \<lparr>ip_target = pr_target p, ip_helper = h, ip_sent = w_late e\<rparr>) (helpers e (pr_target p) ?c)"
    have i: "cluster_inv ?c" by (rule SetNodeState_inv [OF Cons.prems(2)])
    have r: "direct_loop e ps (ind @ ?new) (snd (GetAllHosts ?c)) = (ps', ind', c')" using Cons.prems(1) fail by (simp add: Let_def)
    have "n \<in> ip_target ` set ind' \<longleftrightarrow> n \<in> ip_target ` set (ind @ ?new)"
      using Cons.IH [OF r GetAllHosts_result(2) [OF i]] al d(1) lo by simp
    moreover have "n \<notin> ip_target ` set ?new"
    proof (cases "pr_target p = n")
      case True
      then show ?thesis using helpers_none [OF i, of n e] lo by simp
    qed auto
    ultimately show ?thesis by auto
  next
    case wait
    obtain ps1 where r: "direct_loop e ps ind c = (ps1, ind', c')"
      using Cons.prems(1) wait by (cases "direct_loop e ps ind c") auto
    then show ?thesis using Cons.IH [OF r Cons.prems(2,3)] Cons.prems(4) d(1) by simp
  qed
qed simp

lemma direct_loop_asks:
  assumes "direct_loop e ps ind c = (ps', ind', c')" and "cluster_inv c" and "distinct (map pr_target ps)"
    and "p \<in> set ps" and "direct_fails e p" and "host_in c m kAlive" and "m \<noteq> this_node c" and "m \<noteq> pr_target p"
    and "\<forall>q \<in> set ps. pr_target q = m \<longrightarrow> \<not> direct_fails e q" and "\<And>xs. length (w_shuffle e xs) = length xs"
  shows "pr_target p \<in> ip_target ` set ind'"
  using assms(1-9)
proof (induction ps arbitrary: ind c ps')
  case (Cons q ps)
  have d: "distinct (map pr_target ps)" using Cons.prems(3) by simp
  have m: "\<forall>q \<in> set ps. pr_target q = m \<longrightarrow> \<not> direct_fails e q" using Cons.prems(9) by simp
  consider (ans) "w_answered e q" | (fail) "direct_fails e q" | (wait) "\<not> w_answered e q" "\<not> direct_fails e q" by blast
  then show ?case
  proof cases
    case ans
    let ?c = "SetNodeState (pr_target q) kAlive (w_late e) c"
    have r: "direct_loop e ps ind ?c = (ps', ind', c')" using Cons.prems(1) ans by simp
    have "p \<in> set ps" using Cons.prems(4,5) ans by (auto simp: direct_fails_def)
    moreover have "host_in ?c m kAlive" using Cons.prems(6) by (auto simp: SetNodeState_host)
    ultimately show ?thesis using Cons.IH [OF r SetNodeState_inv [OF Cons.prems(2)] d] Cons.prems(5,7,8) m by simp
  next
    case fail
    let ?c = "SetNodeState (pr_target q) kProbeFailed (w_late e) c"
    let ?new = "map (\<lambda>h. \<lparr>ip_target = pr_target q, ip_helper = h, ip_sent = w_late e\<rparr>) (helpers e (pr_target q) ?c)"
    have r: "direct_loop e ps (ind @ ?new) (snd (GetAllHosts ?c)) = (ps', ind', c')"
      using Cons.prems(1) fail by (simp add: Let_def direct_fails_def)
    have i: "cluster_inv ?c" by (rule SetNodeState_inv [OF Cons.prems(2)])
    have mq: "m \<noteq> pr_target q" using Cons.prems(9) fail by auto
    have al: "host_in ?c m kAlive" using Cons.prems(6) mq by (simp add: SetNodeState_host)
    show ?thesis
    proof (cases "p = q")
      case True
      have "helpers e (pr_target q) ?c \<noteq> []" by (rule helpers_some [OF i al _ mq assms(10)]) (use Cons.prems(7) in simp)
      then have "pr_target q \<in> ip_target ` set ?new" by (cases "helpers e (pr_target q) ?c") auto
      then show ?thesis using direct_loop_grows [of "ind @ ?new" e ps "snd (GetAllHosts ?c)"] r True by auto
    next
      case False
      then show ?thesis using Cons.IH [OF r GetAllHosts_result(2) [OF i] d] Cons.prems(4,5,7,8) al m by simp
    qed
  next
    case wait
    obtain ps1 where r: "direct_loop e ps ind c = (ps1, ind', c')"
      using Cons.prems(1) wait by (cases "direct_loop e ps ind c") (auto simp: direct_fails_def)
    have "p \<in> set ps" using Cons.prems(4,5) wait by auto
    then show ?thesis using Cons.IH [OF r Cons.prems(2) d _ Cons.prems(5-8) m] by simp
  qed
qed simp

section \<open>Detection\<close>

lemma HeartbeatProbe_responsive:
  assumes "swim_inv s" and "host_in (sw_cluster s) n kAlive" and "\<And>p. pr_target p = n \<Longrightarrow> \<not> direct_fails e p"
  shows "host_in (sw_cluster (snd (HeartbeatProbe e s))) n kAlive"
proof -
  obtain bs s' where r: "HeartbeatProbe e s = (bs, s')" by (metis surj_pair)
  show ?thesis
  proof (rule HeartbeatProbe_stages [OF assms(1) r])
    fix ind1 c1 ind2 c2 s4
    assume st: "direct_loop e (pending_direct s) (pending_indirect s) (sw_cluster s) =
         (filter (\<lambda>p. \<not> w_answered e p \<and> \<not> direct_fails e p) (pending_direct s), ind1, c1)"
      "indirect_loop e [] ind1 c1 = (ind2, c2)" "cluster_inv c1" "failed_targets c1 ind1" "swim_inv s4"
      "\<forall>n. (\<forall>h. GetHost c2 n = Some h \<longrightarrow> \<not> expired e h) \<longrightarrow> GetHost (sw_cluster s4) n = GetHost c2 n" "s' = probe_next e s4"
    have d: "\<forall>n. n \<notin> pr_target ` set (pending_direct s) \<longrightarrow> GetHost c1 n = GetHost (sw_cluster s) n"
      "\<forall>p \<in> set (pending_direct s). host_in c1 (pr_target p) (if direct_fails e p then kProbeFailed else kAlive)"
      using direct_loop_spec [OF st(1)] assms(1) by (auto simp: swim_inv_def)
    have a1: "host_in c1 n kAlive"
    proof (cases "n \<in> pr_target ` set (pending_direct s)")
      case True
      then obtain p where "p \<in> set (pending_direct s)" "pr_target p = n" by auto
      then show ?thesis using d(2) assms(3) by (metis (full_types))
    qed (use d(1) assms(2) in simp)
    then have "n \<notin> ip_target ` set ind1" using st(4) by fastforce
    then have "host_in c2 n kAlive" using indirect_loop_frame [OF st(2,3), of n] st(4) a1 by simp
    then have "host_in (sw_cluster s4) n kAlive" using st(6) by (auto simp: expired_def)
    then show ?thesis using r st(7) probe_next_spec(2) [OF st(5), of e] by simp
  qed
qed


text \<open>The states of a node on its way from a failed probe to its death.\<close>

definition failing :: "u64 \<Rightarrow> clock \<Rightarrow> clock \<Rightarrow> Swim \<Rightarrow> bool" where
  "failing n t1 t2 s \<longleftrightarrow>
     n \<notin> pr_target ` set (pending_direct s) \<and>
     (host_in (sw_cluster s) n kProbeFailed \<and> n \<in> ip_target ` set (pending_indirect s) \<and>
        (\<forall>q \<in> set (pending_indirect s). ip_target q = n \<longrightarrow> ip_sent q \<le> t1) \<or>
      n \<notin> ip_target ` set (pending_indirect s) \<and> (suspected_by (sw_cluster s) n t2 \<or> host_in (sw_cluster s) n kDead))"

definition unresponsive :: "swim_env \<Rightarrow> u64 \<Rightarrow> bool" where
  "unresponsive e n \<longleftrightarrow> (\<forall>p. pr_target p = n \<longrightarrow> \<not> w_answered e p) \<and> (\<forall>p. ip_target p = n \<longrightarrow> w_result e p \<noteq> Some 0)"

text \<open>From the probes that are pending after the first stage of a run to its end.\<close>

lemma failing_stages:
  assumes "indirect_loop e [] ind1 c1 = (ind2, c2)" and "cluster_inv c1" and "failed_targets c1 ind1" and "swim_inv s4"
    and "\<forall>n. (\<forall>h. GetHost c2 n = Some h \<longrightarrow> \<not> expired e h) \<longrightarrow> GetHost (sw_cluster s4) n = GetHost c2 n"
    and "\<forall>n h. GetHost c2 n = Some h \<and> expired e h \<longrightarrow> host_in (sw_cluster s4) n kDead"
    and "pending_indirect s4 = ind2" and "n \<notin> pr_target ` set (pending_direct s4)"
    and "unresponsive e n" and "w_late e \<le> t2" and "n \<in> ip_target ` set ind1" and "\<forall>q \<in> set ind1. ip_target q = n \<longrightarrow> ip_sent q \<le> t1"
  shows "failing n t1 t2 (probe_next e s4)"
    and "(\<And>p. w_result e p \<noteq> Some 0) \<Longrightarrow> \<forall>q \<in> set ind1. ip_target q = n \<longrightarrow> indirect_fails e q \<Longrightarrow>
      n \<notin> ip_target ` set (pending_indirect (probe_next e s4))"
proof -
  have f: "failed_targets c1 ([] @ ind1)" using assms(3) by simp
  note inv = indirect_loop_inv [OF assms(1,2) f] and pn = probe_next_spec [OF assms(4), of e]
  have un: "n \<in> ip_target ` set ind2 \<or> suspected_by c2 n (w_late e)"
    using indirect_loop_unhelped [OF assms(1,2) f, of n] assms(9,11) by (simp add: unresponsive_def)
  have dir: "n \<notin> pr_target ` set (pending_direct (probe_next e s4))" if "\<not> host_in (sw_cluster s4) n kAlive"
    using pn(4) assms(8) that by auto
  show "failing n t1 t2 (probe_next e s4)"
  proof (cases "n \<in> ip_target ` set ind2")
    case True
    then have "host_in c2 n kProbeFailed" using inv by auto
    then have h: "host_in (sw_cluster s4) n kProbeFailed" using assms(5) by (auto simp: expired_def)
    moreover from h have "\<not> host_in (sw_cluster s4) n kAlive" by auto
    ultimately show ?thesis using True dir pn(2,3) assms(7,12) inv by (auto simp: failing_def)
  next
    case False
    then have s: "suspected_by c2 n (w_late e)" using un by blast
    then obtain h where h: "GetHost c2 n = Some h" "host_state h = kSuspected" "state_changed_at h \<le> w_late e"
      by (auto simp: suspected_by_def)
    have res: "suspected_by (sw_cluster s4) n t2 \<or> host_in (sw_cluster s4) n kDead"
    proof (cases "expired e h")
      case True
      then show ?thesis using assms(6) h(1) by blast
    next
      case False
      then have "GetHost (sw_cluster s4) n = Some h" using assms(5) h(1) by simp
      then show ?thesis using h assms(10) by (auto simp: suspected_by_def)
    qed
    then have "\<not> host_in (sw_cluster s4) n kAlive" by (auto simp: suspected_by_def)
    then show ?thesis using res False dir pn(2,3) assms(7) by (auto simp: failing_def suspected_by_def)
  qed
  show "n \<notin> ip_target ` set (pending_indirect (probe_next e s4))"
    if "\<And>p. w_result e p \<noteq> Some 0" "\<forall>q \<in> set ind1. ip_target q = n \<longrightarrow> indirect_fails e q"
    using indirect_loop_all_failed [OF assms(1,2) f that(1), of n] that(2) pn(3) assms(7) by simp
qed

text \<open>A node out of probes moves only from suspected to dead.\<close>

definition condemned :: "u64 \<Rightarrow> clock \<Rightarrow> Swim \<Rightarrow> bool" where
  "condemned n t2 s \<longleftrightarrow> n \<notin> pr_target ` set (pending_direct s) \<and> n \<notin> ip_target ` set (pending_indirect s) \<and>
     (suspected_by (sw_cluster s) n t2 \<or> host_in (sw_cluster s) n kDead)"

lemma HeartbeatProbe_condemned:
  assumes "swim_inv s" and "condemned n t2 s"
  shows "condemned n t2 (snd (HeartbeatProbe e s))"
    and "(\<And>t. t \<le> t2 \<Longrightarrow> kSuspicionTimeoutSec \<le> w_secs e (w_now e - t)) \<Longrightarrow>
      host_in (sw_cluster (snd (HeartbeatProbe e s))) n kDead"
    and "host_in (sw_cluster s) n kDead \<Longrightarrow> host_in (sw_cluster (snd (HeartbeatProbe e s))) n kDead"
proof -
  have np: "n \<notin> pr_target ` set (pending_direct s)" "n \<notin> ip_target ` set (pending_indirect s)"
    and sd: "suspected_by (sw_cluster s) n t2 \<or> host_in (sw_cluster s) n kDead" using assms(2) by (auto simp: condemned_def)
  note u = HeartbeatProbe_unprobed [OF assms(1) np, where e = e]
  obtain h where h: "GetHost (sw_cluster s) n = Some h"
    "host_state h = kSuspected \<and> state_changed_at h \<le> t2 \<or> host_state h = kDead" using sd by (auto simp: suspected_by_def)
  have na: "\<not> host_in (sw_cluster s) n kAlive" using h by auto
  have keep: "GetHost (sw_cluster (snd (HeartbeatProbe e s))) n = Some h" if "\<not> expired e h" using u(2) h(1) that by simp
  have die: "host_in (sw_cluster (snd (HeartbeatProbe e s))) n kDead" if "expired e h" using u(3) [OF h(1) that] .
  have "suspected_by (sw_cluster (snd (HeartbeatProbe e s))) n t2 \<or> host_in (sw_cluster (snd (HeartbeatProbe e s))) n kDead"
    using keep die h(2) by (cases "expired e h") (auto simp: suspected_by_def)
  then show "condemned n t2 (snd (HeartbeatProbe e s))" using u(1) u(4) [OF na] by (simp add: condemned_def)
  show "host_in (sw_cluster (snd (HeartbeatProbe e s))) n kDead"
    if "\<And>t. t \<le> t2 \<Longrightarrow> kSuspicionTimeoutSec \<le> w_secs e (w_now e - t)"
  proof (cases "expired e h")
    case False
    then have "host_state h = kDead" using h(2) that by (auto simp: expired_def)
    then show ?thesis using keep [OF False] by blast
  qed (rule die)
  show "host_in (sw_cluster (snd (HeartbeatProbe e s))) n kDead" if "host_in (sw_cluster s) n kDead"
    using keep that h(1) by (auto simp: expired_def)
qed

lemma HeartbeatProbe_failing:
  assumes "swim_inv s" and "failing n t1 t2 s" and "unresponsive e n" and "w_late e \<le> t2"
  shows "failing n t1 t2 (snd (HeartbeatProbe e s))"
    and "(\<And>p. w_result e p \<noteq> Some 0) \<Longrightarrow> (\<And>t. t \<le> t1 \<Longrightarrow> kIndirectProbeTimeoutSec < w_secs e (w_now e - t)) \<Longrightarrow>
      condemned n t2 (snd (HeartbeatProbe e s))"
proof -
  have *: "failing n t1 t2 (snd (HeartbeatProbe e s)) \<and>
    ((\<forall>p. w_result e p \<noteq> Some 0) \<and> (\<forall>t \<le> t1. kIndirectProbeTimeoutSec < w_secs e (w_now e - t)) \<longrightarrow>
      condemned n t2 (snd (HeartbeatProbe e s)))"
  proof (cases "n \<in> ip_target ` set (pending_indirect s)")
    case False
    then have "condemned n t2 s" using assms(2) by (auto simp: failing_def condemned_def)
    from HeartbeatProbe_condemned(1) [OF assms(1) this] show ?thesis by (auto simp: failing_def condemned_def)
  next
    case True
    then have f: "n \<notin> pr_target ` set (pending_direct s)" "\<forall>q \<in> set (pending_indirect s). ip_target q = n \<longrightarrow> ip_sent q \<le> t1"
      using assms(2) by (auto simp: failing_def)
    obtain bs s' where r: "HeartbeatProbe e s = (bs, s')" by (metis surj_pair)
    show ?thesis
    proof (rule HeartbeatProbe_stages [OF assms(1) r])
      fix ind1 c1 ind2 c2 s4
      assume st: "direct_loop e (pending_direct s) (pending_indirect s) (sw_cluster s) =
           (filter (\<lambda>p. \<not> w_answered e p \<and> \<not> direct_fails e p) (pending_direct s), ind1, c1)"
        "indirect_loop e [] ind1 c1 = (ind2, c2)" "cluster_inv c1" "failed_targets c1 ind1" "swim_inv s4"
        "\<forall>n. (\<forall>h. GetHost c2 n = Some h \<longrightarrow> \<not> expired e h) \<longrightarrow> GetHost (sw_cluster s4) n = GetHost c2 n"
        "\<forall>n h. GetHost c2 n = Some h \<and> expired e h \<longrightarrow> host_in (sw_cluster s4) n kDead"
        "pending_direct s4 = filter (\<lambda>p. \<not> w_answered e p \<and> \<not> direct_fails e p) (pending_direct s)" "pending_indirect s4 = ind2"
        "s' = probe_next e s4"
      obtain new where new: "ind1 = pending_indirect s @ new" "\<forall>q \<in> set new. \<exists>p \<in> set (pending_direct s). pr_target p = ip_target q"
      proof -
        have "cluster_inv (sw_cluster s)" "distinct (map pr_target (pending_direct s))"
          "\<forall>p \<in> set (pending_direct s). host_in (sw_cluster s) (pr_target p) kAlive" using assms(1) by (auto simp: swim_inv_def)
        from direct_loop_spec [OF st(1) this] that show ?thesis by blast
      qed
      have i1: "n \<in> ip_target ` set ind1" "\<forall>q \<in> set ind1. ip_target q = n \<longrightarrow> ip_sent q \<le> t1" using True f new by (auto, metis imageI)
      have nd: "n \<notin> pr_target ` set (pending_direct s4)" using f(1) st(8) by auto
      note fs = failing_stages [OF st(2-7,9) nd assms(3,4) i1]
      have "condemned n t2 (probe_next e s4)"
        if a: "\<forall>p. w_result e p \<noteq> Some 0" "\<forall>t \<le> t1. kIndirectProbeTimeoutSec < w_secs e (w_now e - t)"
      proof -
        have "\<forall>q \<in> set ind1. ip_target q = n \<longrightarrow> indirect_fails e q" using a i1(2) by (auto simp: indirect_fails_def split: option.split)
        then show ?thesis using fs a(1) by (auto simp: condemned_def failing_def)
      qed
      then show ?thesis using fs(1) r st(10) by simp
    qed
  qed
  then show "failing n t1 t2 (snd (HeartbeatProbe e s))" by blast
  show "condemned n t2 (snd (HeartbeatProbe e s))"
    if "\<And>p. w_result e p \<noteq> Some 0" "\<And>t. t \<le> t1 \<Longrightarrow> kIndirectProbeTimeoutSec < w_secs e (w_now e - t)"
    using * that by blast
qed

lemma HeartbeatProbe_asks:
  assumes "swim_inv s" and "p \<in> set (pending_direct s)" and "direct_fails e p" and "unresponsive e (pr_target p)"
    and "host_in (sw_cluster s) m kAlive" and "m \<noteq> this_node (sw_cluster s)" and "m \<noteq> pr_target p"
    and "\<forall>q \<in> set (pending_direct s). pr_target q = m \<longrightarrow> \<not> direct_fails e q" and "\<And>xs. length (w_shuffle e xs) = length xs"
    and "w_late e \<le> t2"
  shows "failing (pr_target p) (w_late e) t2 (snd (HeartbeatProbe e s))"
proof -
  obtain bs s' where r: "HeartbeatProbe e s = (bs, s')" by (metis surj_pair)
  show ?thesis
  proof (rule HeartbeatProbe_stages [OF assms(1) r])
    fix ind1 c1 ind2 c2 s4
    assume st: "direct_loop e (pending_direct s) (pending_indirect s) (sw_cluster s) =
         (filter (\<lambda>p. \<not> w_answered e p \<and> \<not> direct_fails e p) (pending_direct s), ind1, c1)"
      "indirect_loop e [] ind1 c1 = (ind2, c2)" "cluster_inv c1" "failed_targets c1 ind1" "swim_inv s4"
      "\<forall>n. (\<forall>h. GetHost c2 n = Some h \<longrightarrow> \<not> expired e h) \<longrightarrow> GetHost (sw_cluster s4) n = GetHost c2 n"
      "\<forall>n h. GetHost c2 n = Some h \<and> expired e h \<longrightarrow> host_in (sw_cluster s4) n kDead"
      "pending_direct s4 = filter (\<lambda>p. \<not> w_answered e p \<and> \<not> direct_fails e p) (pending_direct s)" "pending_indirect s4 = ind2"
      "s' = probe_next e s4"
    have inv: "cluster_inv (sw_cluster s)" "distinct (map pr_target (pending_direct s))"
      "\<forall>p \<in> set (pending_direct s). host_in (sw_cluster s) (pr_target p) kAlive" "failed_targets (sw_cluster s) (pending_indirect s)"
      using assms(1) by (auto simp: swim_inv_def)
    obtain new where new: "ind1 = pending_indirect s @ new" "\<forall>q \<in> set new. ip_sent q = w_late e"
      using direct_loop_spec [OF st(1) inv(1-3)] by blast
    have "pr_target p \<in> ip_target ` set ind1"
      by (rule direct_loop_asks [OF st(1) inv(1,2) assms(2,3,5-8) assms(9)])
    moreover have "pr_target p \<notin> ip_target ` set (pending_indirect s)" using inv(3,4) assms(2) by fastforce
    then have "\<forall>q \<in> set ind1. ip_target q = pr_target p \<longrightarrow> ip_sent q \<le> w_late e" using new by (auto, metis imageI)
    moreover have "pr_target p \<notin> pr_target ` set (pending_direct s4)"
    proof
      assume "pr_target p \<in> pr_target ` set (pending_direct s4)"
      then obtain q where "q \<in> set (pending_direct s)" "pr_target q = pr_target p" "\<not> direct_fails e q" using st(8) by auto
      then show False using inv(2) assms(2,3) by (metis distinct_map inj_onD)
    qed
    ultimately show ?thesis using failing_stages(1) [OF st(2-7,9) _ assms(4,10)] r st(10) by simp
  qed
qed

text \<open>
  C16. A crashed node is declared dead. Its direct probe has timed out, some other live
  node can be asked, and it answers nobody from then on; then after a run three seconds
  later in which no helper reports a success, and a run ten seconds after that, it is
  dead, whatever other runs lie in between, and stays dead.
\<close>

theorem crashed_node_declared_dead:
  assumes "swim_inv s" and "p \<in> set (pending_direct s)" and "direct_fails e1 p"
    and "GetNodeState (sw_cluster s) m = kAlive" and "m \<noteq> this_node (sw_cluster s)" and "m \<noteq> pr_target p"
    and "\<And>q. q \<in> set (pending_direct s) \<Longrightarrow> pr_target q = m \<Longrightarrow> \<not> direct_fails e1 q"
    and "\<And>xs. length (w_shuffle e1 xs) = length xs"
    and "\<And>e. e \<in> set (e1 # es @ [e2]) \<Longrightarrow> unresponsive e (pr_target p) \<and> w_late e \<le> t2"
    and "\<And>q. w_result e2 q \<noteq> Some 0"
    and "\<And>t. t \<le> w_late e1 \<Longrightarrow> kIndirectProbeTimeoutSec < w_secs e2 (w_now e2 - t)"
    and "\<And>t. t \<le> t2 \<Longrightarrow> kSuspicionTimeoutSec \<le> w_secs e3 (w_now e3 - t)"
  shows "GetNodeState (sw_cluster (swim_run (e1 # es @ e2 # fs @ e3 # gs) s)) (pr_target p) = kDead"
proof -
  let ?n = "pr_target p" and ?s1 = "snd (HeartbeatProbe e1 s)"
  have m: "host_in (sw_cluster s) m kAlive" using assms(4) GetNodeState_host [of "sw_cluster s" m kAlive] by simp
  have i1: "swim_inv ?s1" by (rule HeartbeatProbe_inv [OF assms(1)])
  have "failing ?n (w_late e1) t2 ?s1"
    using assms(7,9) by (intro HeartbeatProbe_asks [OF assms(1-3) _ m assms(5,6) _ assms(8)]) auto
  then have f2: "failing ?n (w_late e1) t2 (swim_run es ?s1)"
  proof (rule swim_run_keeps [OF _ i1, rotated 1])
    fix e s assume "e \<in> set es" "swim_inv s" "failing ?n (w_late e1) t2 s"
    then show "failing ?n (w_late e1) t2 (snd (HeartbeatProbe e s))" using assms(9) [of e] by (intro HeartbeatProbe_failing(1)) auto
  qed
  let ?s2 = "swim_run es ?s1"
  have i2: "swim_inv ?s2" by (rule swim_run_inv [OF i1])
  have "condemned ?n t2 (snd (HeartbeatProbe e2 ?s2))"
    using assms(9) [of e2] by (intro HeartbeatProbe_failing(2) [OF i2 f2] assms(10,11)) auto
  then have c3: "condemned ?n t2 (swim_run fs (snd (HeartbeatProbe e2 ?s2)))"
    by (rule swim_run_keeps [OF _ HeartbeatProbe_inv [OF i2], rotated 1]) (rule HeartbeatProbe_condemned(1))
  let ?s3 = "swim_run fs (snd (HeartbeatProbe e2 ?s2))"
  have i3: "swim_inv ?s3" by (rule swim_run_inv [OF HeartbeatProbe_inv [OF i2]])
  have "condemned ?n t2 (snd (HeartbeatProbe e3 ?s3)) \<and> host_in (sw_cluster (snd (HeartbeatProbe e3 ?s3))) ?n kDead"
    using HeartbeatProbe_condemned(1,2) [OF i3 c3, of e3] assms(12) by blast
  then have "condemned ?n t2 (swim_run gs (snd (HeartbeatProbe e3 ?s3))) \<and> host_in (sw_cluster (swim_run gs (snd (HeartbeatProbe e3 ?s3)))) ?n kDead"
    by (rule swim_run_keeps [OF _ HeartbeatProbe_inv [OF i3], rotated 1]) (use HeartbeatProbe_condemned(1,3) in blast)
  then show ?thesis by (auto simp: swim_run_append GetNodeState_def GetHost_def)
qed

text \<open>
  C40. A failure that nobody else can confirm is never detected. When the direct probe of
  a node times out and no other live node can be asked, as in a cluster of two, the
  node stays in the state of a failed probe for ever: it is neither suspected nor
  declared dead, so its containers are not recovered, and it is never probed again,
  even if it is back.
\<close>

theorem lone_failure_never_detected:
  assumes "swim_inv s" and "p \<in> set (pending_direct s)" and "direct_fails e p"
    and "\<And>m. GetNodeState (sw_cluster s) m = kAlive \<Longrightarrow> m = this_node (sw_cluster s) \<or> m = pr_target p"
  shows "GetNodeState (sw_cluster (swim_run (e # es) s)) (pr_target p) = kProbeFailed \<and>
    pr_target p \<notin> pr_target ` set (pending_direct (swim_run (e # es) s)) \<and>
    pr_target p \<notin> ip_target ` set (pending_indirect (swim_run (e # es) s))"
proof -
  let ?n = "pr_target p"
  define stuck where "stuck s \<longleftrightarrow> host_in (sw_cluster s) ?n kProbeFailed \<and> ?n \<notin> pr_target ` set (pending_direct s) \<and>
    ?n \<notin> ip_target ` set (pending_indirect s)" for s :: Swim
  have inv: "cluster_inv (sw_cluster s)" "distinct (map pr_target (pending_direct s))"
    "\<forall>p \<in> set (pending_direct s). host_in (sw_cluster s) (pr_target p) kAlive" "failed_targets (sw_cluster s) (pending_indirect s)"
    using assms(1) by (auto simp: swim_inv_def)
  obtain bs s' where r: "HeartbeatProbe e s = (bs, s')" by (metis surj_pair)
  have "stuck s'"
  proof (rule HeartbeatProbe_stages [OF assms(1) r])
    fix ind1 c1 ind2 c2 s4
    assume st: "direct_loop e (pending_direct s) (pending_indirect s) (sw_cluster s) =
         (filter (\<lambda>p. \<not> w_answered e p \<and> \<not> direct_fails e p) (pending_direct s), ind1, c1)"
      "indirect_loop e [] ind1 c1 = (ind2, c2)" "cluster_inv c1" "failed_targets c1 ind1" "swim_inv s4"
      "\<forall>n. (\<forall>h. GetHost c2 n = Some h \<longrightarrow> \<not> expired e h) \<longrightarrow> GetHost (sw_cluster s4) n = GetHost c2 n"
      "pending_direct s4 = filter (\<lambda>p. \<not> w_answered e p \<and> \<not> direct_fails e p) (pending_direct s)" "pending_indirect s4 = ind2"
      "s' = probe_next e s4"
    have lone: "\<forall>m. host_in (sw_cluster s) m kAlive \<longrightarrow> m = this_node (sw_cluster s) \<or> m = ?n"
      using assms(4) GetNodeState_host [of "sw_cluster s" _ kAlive] by blast
    have "?n \<notin> ip_target ` set (pending_indirect s)" using inv(3,4) assms(2) by fastforce
    then have n1: "?n \<notin> ip_target ` set ind1" using direct_loop_lonely [OF st(1) inv(1) lone inv(3,2)] by simp
    have "host_in c1 ?n kProbeFailed" using direct_loop_spec [OF st(1) inv(1-3)] assms(2,3) by (metis (full_types))
    then have "host_in c2 ?n kProbeFailed" using indirect_loop_frame [OF st(2,3), of ?n] st(4) n1 by simp
    then have h4: "host_in (sw_cluster s4) ?n kProbeFailed" using st(6) by (auto simp: expired_def)
    have "?n \<notin> pr_target ` set (pending_direct s4)"
    proof
      assume "?n \<in> pr_target ` set (pending_direct s4)"
      then obtain q where "q \<in> set (pending_direct s4)" "pr_target q = ?n" by auto
      then have "host_in (sw_cluster s4) ?n kAlive" using st(5) unfolding swim_inv_def by metis
      then show False using h4 by auto
    qed
    moreover have "\<not> host_in (sw_cluster s4) ?n kAlive" using h4 by auto
    ultimately show "stuck s'"
      using h4 n1 st(8,9) probe_next_spec(2-4) [OF st(5), of e] indirect_loop_inv [OF st(2,3)] st(4) by (auto simp: stuck_def)
  qed
  moreover have "stuck (snd (HeartbeatProbe e s))" if "swim_inv s" "stuck s" for e s
  proof -
    have np: "?n \<notin> pr_target ` set (pending_direct s)" "?n \<notin> ip_target ` set (pending_indirect s)" using that(2) by (auto simp: stuck_def)
    have "\<not> host_in (sw_cluster s) ?n kAlive" "\<forall>h. GetHost (sw_cluster s) ?n = Some h \<longrightarrow> \<not> expired e h"
      using that(2) by (auto simp: stuck_def expired_def)
    then show ?thesis using HeartbeatProbe_unprobed(1,2,4) [OF that(1) np, where e = e] that(2) by (simp add: stuck_def)
  qed
  ultimately have "stuck (swim_run es s')"
    using HeartbeatProbe_inv [OF assms(1), of e] r by (intro swim_run_keeps [where P = stuck]) simp_all
  then show ?thesis using r by (auto simp: stuck_def GetNodeState_def GetHost_def)
qed

section \<open>From detection to recovery\<close>

lemma SetNodeState_shape:
  assumes "cluster_inv c"
  shows "length (hostfile_map (SetNodeState n st now c)) = length (hostfile_map c)" "self_fenced (SetNodeState n st now c) = self_fenced c"
proof -
  have "map_of (hostfile_map c) n = Some h \<Longrightarrow> n \<in> fst ` set (hostfile_map c)" for h by (auto dest: map_of_SomeD intro: rev_image_eqI)
  then show "length (hostfile_map (SetNodeState n st now c)) = length (hostfile_map c)" "self_fenced (SetNodeState n st now c) = self_fenced c"
    by (auto simp: SetNodeState_def length_update_present split: option.split)
qed

lemma SetDead_shape:
  assumes "cluster_inv c"
  shows "length (hostfile_map (SetDead port n now c)) = length (hostfile_map c)" "self_fenced (SetDead port n now c) = self_fenced c"
  using SetNodeState_shape [OF assms] by (auto simp: SetDead_def Let_def split: option.split)

lemma GetAllHosts_shape [simp]:
  "hostfile_map (snd (GetAllHosts c)) = hostfile_map c" "self_fenced (snd (GetAllHosts c)) = self_fenced c"
  by (simp_all add: GetAllHosts_def)

lemma direct_loop_shape:
  assumes "direct_loop e ps ind c = (ps', ind', c')" and "cluster_inv c"
  shows "length (hostfile_map c') = length (hostfile_map c) \<and> self_fenced c' = self_fenced c"
  using assms
proof (induction ps arbitrary: ind c ps')
  case (Cons p ps)
  let ?c = "\<lambda>st. SetNodeState (pr_target p) st (w_late e) c"
  have i: "cluster_inv (?c st)" "cluster_inv (snd (GetAllHosts (?c st)))" for st
    using Cons.prems(2) by (simp_all add: SetNodeState_inv GetAllHosts_result(2))
  note sh = SetNodeState_shape [OF Cons.prems(2), of "pr_target p" _ "w_late e"]
  show ?case
    using Cons.prems(1) Cons.IH [OF _ i(1)] Cons.IH [OF _ i(2)] Cons.IH [OF _ Cons.prems(2)] sh
    by (auto simp: Let_def split: if_splits prod.splits)
qed simp

lemma indirect_loop_shape:
  assumes "indirect_loop e kept ps c = (ind, c')" and "cluster_inv c" and "failed_targets c (kept @ ps)"
  shows "length (hostfile_map c') = length (hostfile_map c) \<and> self_fenced c' = self_fenced c"
  using assms
proof (induction rule: indirect_loop_induct)
  case (succ kept p ps c)
  then show ?case by (simp add: SetNodeState_shape)
next
  case (fail kept p ps c ind c')
  then show ?case by (auto simp: indirect_failed_def SetNodeState_shape split: if_splits)
qed simp_all

lemma least_node_leads:
  assumes "cluster_inv c" and "length (hostfile_map c) < 2 ^ 64" and "host_in c 0 kAlive" and "this_node c = 0"
  shows "IsLeader c"
  using leader_is_least_alive(2) [OF assms(1,2), of 0] assms(3,4) by (auto simp: GetNodeState_def GetHost_def IsLeader_def word_le_0_iff)

text \<open>A leader that is not fenced broadcasts a plan for every node whose suspicion expires, once.\<close>

lemma suspicion_loop_broadcasts:
  assumes "suspicion_loop e hs c ini = (bs, c', ini')" and "cluster_inv c" and "\<forall>h \<in> set hs. GetHost c (host_id h) = Some h"
    and "distinct (map host_id hs)" and "h \<in> set hs" and "expired e h" and "host_id h \<notin> set ini"
    and "length (hostfile_map c) < 2 ^ 32" and "host_in c 0 kAlive" and "this_node c = 0" and "\<not> self_fenced c"
    and "\<And>c. cluster_inv c \<Longrightarrow> host_in c 0 kAlive \<Longrightarrow> ComputeRecoveryPlan (w_sched e) c (w_pm e) (host_id h) \<noteq> []"
  shows "\<exists>c0. cluster_inv c0 \<and> host_in c0 0 kAlive \<and> host_in c0 (host_id h) kDead \<and> length (hostfile_map c0) = length (hostfile_map c) \<and>
    (\<forall>n. host_in c0 n kAlive \<longrightarrow> host_in c n kAlive) \<and> ComputeRecoveryPlan (w_sched e) c0 (w_pm e) (host_id h) \<in> set bs"
  using assms(1-11)
proof (induction hs arbitrary: c ini bs)
  case (Cons g hs)
  have d: "h' \<in> set hs \<Longrightarrow> host_id h' \<noteq> host_id g" for h' using Cons.prems(4) by (metis distinct.simps(2) imageI list.set_map list.simps(9))
  show ?case
  proof (cases "expired e g")
    case True
    let ?c = "SetDead (w_port e) (host_id g) (w_late e) c"
    obtain b ini1 where b: "TriggerRecovery (w_sched e) ?c (w_pm e) (host_id g) ini = (b, ini1)" by (metis surj_pair)
    obtain bs1 c1 ini2 where r: "suspicion_loop e hs ?c ini1 = (bs1, c1, ini2)" by (metis surj_pair)
    have r': "suspicion_loop e hs ?c ini1 = (bs1, c', ini')" and bs: "bs = (case b of None \<Rightarrow> bs1 | Some x \<Rightarrow> x # bs1)"
      using Cons.prems(1) True b r by (auto simp: expired_def Let_def)
    have g: "GetHost c (host_id g) = Some g" using Cons.prems(3) by simp
    have i: "cluster_inv ?c" by (rule SetDead_inv [OF Cons.prems(2)])
    have g0: "host_id g \<noteq> 0" using g Cons.prems(9) True by (auto simp: expired_def)
    have z: "host_in ?c 0 kAlive" using Cons.prems(9) g0 SetDead_host(1) [of 0 "host_id g"] by auto
    have dead: "host_in ?c (host_id g) kDead" by (rule SetDead_host(2) [OF g])
    have al: "host_in ?c n kAlive \<Longrightarrow> host_in c n kAlive" for n using SetDead_host(1) [of n "host_id g"] dead by (cases "n = host_id g") auto
    have sh: "length (hostfile_map ?c) = length (hostfile_map c)" "\<not> self_fenced ?c" "this_node ?c = 0"
      using SetDead_shape [OF Cons.prems(2)] Cons.prems(10,11) by simp_all
    have snap: "\<forall>h' \<in> set hs. GetHost ?c (host_id h') = Some h'" using Cons.prems(3) d by (simp add: SetDead_host(1))
    show ?thesis
    proof (cases "h = g")
      case hg: True
      have "length (hostfile_map ?c) < 2 ^ 64" using Cons.prems(8) sh(1) by simp
      then have "IsLeader ?c" by (rule least_node_leads [OF i _ z sh(3)])
      then have "b = Some (ComputeRecoveryPlan (w_sched e) ?c (w_pm e) (host_id h))"
        using b Cons.prems(7) sh(2) assms(12) [OF i z] hg by (auto simp: TriggerRecovery_def Let_def)
      then show ?thesis using i z dead sh(1) al bs hg by (intro exI [of _ ?c]) auto
    next
      case False
      then have h: "h \<in> set hs" using Cons.prems(5) by simp
      have "set ini1 \<subseteq> insert (host_id g) (set ini)" using b by (auto simp: TriggerRecovery_def Let_def split: if_splits)
      then have "host_id h \<notin> set ini1" using Cons.prems(7) d [OF h] by auto
      then obtain c0 where "cluster_inv c0" "host_in c0 0 kAlive" "host_in c0 (host_id h) kDead"
        "length (hostfile_map c0) = length (hostfile_map ?c)" "\<forall>n. host_in c0 n kAlive \<longrightarrow> host_in ?c n kAlive"
        "ComputeRecoveryPlan (w_sched e) c0 (w_pm e) (host_id h) \<in> set bs1"
        using Cons.IH [OF r' i snap _ h Cons.prems(6)] Cons.prems(4,8) z sh by auto
      moreover have "set bs1 \<subseteq> set bs" using bs by (auto split: option.split)
      ultimately show ?thesis using sh(1) al by (intro exI [of _ c0]) auto
    qed
  next
    case False
    then have "suspicion_loop e hs c ini = (bs, c', ini')" "h \<in> set hs" using Cons.prems(1,5,6) by (auto simp: expired_def)
    then show ?thesis using Cons.IH [of c ini bs] Cons.prems by simp
  qed
qed simp

text \<open>What the first two stages of a run leave of a node without probes.\<close>

lemma run_hosts_unprobed:
  assumes "swim_inv s" and "direct_loop e (pending_direct s) (pending_indirect s) (sw_cluster s) = (dir, ind1, c1)"
    and "indirect_loop e [] ind1 c1 = (ind2, c2)"
    and "n \<notin> pr_target ` set (pending_direct s)" and "n \<notin> ip_target ` set (pending_indirect s)"
  shows "GetHost c2 n = GetHost (sw_cluster s) n" and "cluster_inv c2" and "this_node c2 = this_node (sw_cluster s)"
    and "length (hostfile_map c2) = length (hostfile_map (sw_cluster s))" and "self_fenced c2 = self_fenced (sw_cluster s)"
proof -
  obtain bs s' where r: "HeartbeatProbe e s = (bs, s')" by (metis surj_pair)
  have inv: "cluster_inv (sw_cluster s)" "distinct (map pr_target (pending_direct s))"
    "\<forall>p \<in> set (pending_direct s). host_in (sw_cluster s) (pr_target p) kAlive" using assms(1) by (auto simp: swim_inv_def)
  have f: "cluster_inv c1" "failed_targets c1 ind1"
    using HeartbeatProbe_stages [OF assms(1) r, of "cluster_inv c1 \<and> failed_targets c1 ind1"] assms(2) by auto
  obtain new where new: "ind1 = pending_indirect s @ new" "\<forall>q \<in> set new. \<exists>p \<in> set (pending_direct s). pr_target p = ip_target q"
    using direct_loop_spec [OF assms(2) inv] by blast
  have d: "GetHost c1 n = GetHost (sw_cluster s) n" "this_node c1 = this_node (sw_cluster s)"
    using direct_loop_spec [OF assms(2) inv] assms(4) by auto
  have "n \<notin> ip_target ` set ind1" using assms(4,5) new by force
  then show "GetHost c2 n = GetHost (sw_cluster s) n" using indirect_loop_frame [OF assms(3) f(1), of n] f(2) d(1) by simp
  show "cluster_inv c2" "this_node c2 = this_node (sw_cluster s)" using indirect_loop_inv [OF assms(3) f(1)] f(2) d(2) by auto
  show "length (hostfile_map c2) = length (hostfile_map (sw_cluster s))" "self_fenced c2 = self_fenced (sw_cluster s)"
    using indirect_loop_shape [OF assms(3) f(1)] f(2) direct_loop_shape [OF assms(2) inv(1)] by auto
qed

section \<open>Concrete runs\<close>

definition demo_host :: "u64 \<Rightarrow> Host" where
  "demo_host n = \<lparr>ip_address = to_string (unat n), host_id = n, host_state = kAlive, state_changed_at = 0\<rparr>"

definition demo_swim :: "u64 list \<Rightarrow> Swim" where
  "demo_swim ns = \<lparr>sw_cluster = \<lparr>hostfile_map = map (\<lambda>n. (n, demo_host n)) ns, hosts_cache = [], hosts_cache_valid = False,
       dead_nodes = [], this_node = 0, self_fenced = False, client_pool = []\<rparr>,
     pending_direct = [\<lparr>pr_target = 1, pr_sent = 0\<rparr>], pending_indirect = [], round_robin_idx = 0, recovery_initiated = []\<rparr>"

definition demo_swim_env :: "clock \<Rightarrow> swim_env" where
  "demo_swim_env now = \<lparr>w_now = now, w_late = now, w_secs = (\<lambda>d. real_of_int d / 1000000000), w_answered = (\<lambda>p. pr_target p \<noteq> 1),
     w_result = (\<lambda>_. None), w_shuffle = (\<lambda>xs. xs), w_port = 0, w_pm = demo_pm, w_sched = (\<lambda>_. - 1)\<rparr>"

lemma demo_swim_inv: "swim_inv (demo_swim [0, 1, 2])" "swim_inv (demo_swim [0, 1])"
  by (simp_all add: swim_inv_def demo_swim_def cluster_inv_def demo_host_def GetHost_def)

lemma demo_swim_state:
  "GetNodeState (sw_cluster (demo_swim [0, 1, 2])) n = (if n \<in> {0, 1, 2} then kAlive else kDead)"
  "GetNodeState (sw_cluster (demo_swim [0, 1])) n = (if n \<in> {0, 1} then kAlive else kDead)"
  by (auto simp: demo_swim_def GetNodeState_def demo_host_def)

lemmas demo_swim_simps = demo_swim_def GetNodeState_def demo_host_def demo_swim_env_def direct_fails_def unresponsive_def
  kDirectProbeTimeoutSec_def kIndirectProbeTimeoutSec_def kSuspicionTimeoutSec_def


theorem crashed_node_declared_dead_witness:
  "GetNodeState (sw_cluster (swim_run [demo_swim_env 6000000000, demo_swim_env 10000000000, demo_swim_env 25000000000]
     (demo_swim [0, 1, 2]))) 1 = kDead"
proof -
  have "GetNodeState (sw_cluster (swim_run (demo_swim_env 6000000000 # [] @ demo_swim_env 10000000000 # [] @ demo_swim_env 25000000000 # [])
      (demo_swim [0, 1, 2]))) (pr_target \<lparr>pr_target = 1, pr_sent = 0\<rparr>) = kDead"
    by (rule crashed_node_declared_dead [OF demo_swim_inv(1), where m = 2 and ?t2.0 = 10000000000])
      (auto simp: demo_swim_simps)
  then show ?thesis by simp
qed

theorem lone_failure_never_detected_witness:
  "GetNodeState (sw_cluster (swim_run [demo_swim_env 6000000000, demo_swim_env 10000000000, demo_swim_env 25000000000]
     (demo_swim [0, 1]))) 1 = kProbeFailed"
proof -
  have "GetNodeState (sw_cluster (swim_run [demo_swim_env 6000000000, demo_swim_env 10000000000, demo_swim_env 25000000000]
      (demo_swim [0, 1]))) (pr_target \<lparr>pr_target = 1, pr_sent = 0\<rparr>) = kProbeFailed"
    by (rule conjunct1 [OF lone_failure_never_detected [OF demo_swim_inv(2)]])
      (auto simp: demo_swim_simps split: if_splits)
  then show ?thesis by simp
qed

end
