(* ===== verification/Spec2Isabelle.thy ===== *)
theory Spec2Isabelle
  imports Map_LL Bdev_IO Txn_Log Locks Ring_Buffer Cte_Wal Cte_Flush Cte_Tags Buddy_Run Net_Tasks Swim
begin

text \<open>
  A verification of the core of IOWarp: the distributed task runtime Chimaera
  (src/context-runtime), the block device module and the admin module that run on it,
  the context transfer engine CTE that stores blobs on block devices
  (src/context-transfer-engine), and the shared memory library they are built from
  (src/context-transport-primitives).

  \<^bold>\<open>How the parts work together.\<close> A client puts a task into a shared memory queue
  (\<open>Ring_Buffer\<close>, memory from \<open>Buddy\<close>). The runtime of the node resolves the task's pool
  query to containers and nodes (\<open>Routing\<close>) by the pool and address tables
  (\<open>Pool_Manager\<close>), picks a worker (\<open>Scheduler\<close>) or hands replicas of the task to the
  network (\<open>Net_Tasks\<close>). The task is a handler of a module: of the engine (\<open>Cte_Core\<close>,
  \<open>Cte_Manage\<close>, \<open>Cte_Recovery\<close>, \<open>Cte_Flush\<close>), which places blobs (\<open>Dpe\<close>), keeps them in blocks
  (\<open>Cte_Blocks\<close>) and logs its changes (\<open>Txn_Log\<close>), of a block device (\<open>Bdev_Alloc\<close>, \<open>Bdev_IO\<close>),
  or of the admin module, which watches the other nodes (\<open>Cluster\<close>, \<open>Swim\<close>) and moves the
  containers of a dead node (\<open>Node_Recovery\<close>, \<open>Address_Wal\<close>).

  \<^bold>\<open>Shared memory library.\<close>
  \<^item> \<open>Prelude\<close>: machine types, flat memory with \<^verbatim>\<open>memcpy\<close>, decimal printing, byte encodings,
    and the collections \<open>word_simps\<close>, \<open>mem_simps\<close> and \<open>codec_simps\<close>.
  \<^item> \<open>Map_LL\<close>: unordered\_map\_ll.h, a vector of buckets. Every sequence of calls answers as a
    finite map; the laws of a map are the locale \<open>dict\<close>, interpreted on the bucket structure.
  \<^item> \<open>Ring_Buffer\<close>: ring\_buffer.h. Sequentially a list with a capacity (locale
    \<open>bounded_queue\<close>); the blocking multi-producer variant is a FIFO queue in every
    interleaving of its atomic accesses; what the circular and growing variants lose.
  \<^item> \<open>Locks\<close>: mutex.h, rwlock.h, comutex.h, corwlock.h. Mutual exclusion and order of the
    ticket mutex, exclusion of writers, and the races of the reader-writer locks.
  \<^item> \<open>Slist\<close>, \<open>Buddy\<close>, \<open>Buddy_Inv\<close>, \<open>Buddy_Compact\<close>, \<open>Buddy_Run\<close>: slist\_pre.h, heap.h and
    buddy\_allocator.h on the bytes of a backend. The invariant says that every byte has at
    most one owner; live blocks are disjoint and keep their bytes in every run of
    allocations, reallocations, frees, client writes and compactions.

  \<^bold>\<open>Block devices\<close> (modules/bdev, bdev\_runtime.cc).
  \<^item> \<open>Bdev_Alloc\<close>: \<^verbatim>\<open>WorkerBlockMap\<close>, \<^verbatim>\<open>GlobalBlockMap\<close>, \<^verbatim>\<open>Heap\<close>, \<^verbatim>\<open>AllocateBlocks\<close>, \<^verbatim>\<open>FreeBlocks\<close>. Blocks
    held by clients are disjoint in every run.
  \<^item> \<open>Bdev_IO\<close>: \<^verbatim>\<open>Create\<close>, \<^verbatim>\<open>WriteToRam\<close>, \<^verbatim>\<open>ReadFromRam\<close>, \<^verbatim>\<open>WriteToFile\<close>, \<^verbatim>\<open>ReadFromFile\<close>, \<^verbatim>\<open>GetStats\<close>. What a
    client wrote to blocks it holds is what it reads.

  \<^bold>\<open>Context transfer engine\<close> (core\_runtime.cc, core\_tasks.h, core\_dpe.cc, transaction\_log.h).
  \<^item> \<open>Cte_Types\<close>: targets, tags, blobs, blocks, keys, telemetry, configuration.
  \<^item> \<open>Dpe\<close>: the three placement engines; which targets they return and in which order.
  \<^item> \<open>Cte_Blocks\<close>: \<^verbatim>\<open>ModifyExistingData\<close> and \<^verbatim>\<open>ReadData\<close> over the operations of a device client;
    the laws of that client are the locale \<open>block_device\<close>.
  \<^item> \<open>Cte_Core\<close>, \<open>Cte_Manage\<close>: the handlers of blobs, targets, tags, queries and telemetry;
    the state is the record of the tables of \<^verbatim>\<open>Runtime\<close>.
  \<^item> \<open>Cte_Inv\<close>, \<open>Cte_Frame\<close>: the invariant over any device (locale \<open>cte_device\<close>, which extends
    \<open>block_device\<close>) and what each handler leaves alone.
  \<^item> \<open>Cte_Ram\<close>: the device client wired to \<open>Bdev_Alloc\<close> and \<open>Bdev_IO\<close>; \<open>cte_device\<close> is interpreted
    on it, so that the engine's lemmas hold for the real device.
  \<^item> \<open>Cte_Store\<close>: the engine refines a map from keys to byte strings. \<open>Cte_Tags\<close>: names and
    identifiers of tags.
  \<^item> \<open>Txn_Log\<close>: the log format (locale \<open>field\<close>, one interpretation per field type), round trips,
    and what a crash leaves. \<open>Cte_Recovery\<close>: snapshot, restore, replay, \<^verbatim>\<open>Create\<close>, \<^verbatim>\<open>Destroy\<close>.
    \<open>Cte_Wal\<close>: the handlers and the replay of their records agree. \<open>Cte_Flush\<close>: \<^verbatim>\<open>FlushData\<close>
    moves volatile data and keeps it.

  \<^bold>\<open>Runtime and admin module.\<close>
  \<^item> \<open>Chi_Types\<close>: types.h, types.cc, pool\_query.h, pool\_query.cc: identifiers and routing
    descriptors with their encodings.
  \<^item> \<open>Cluster\<close>: the host table of ipc\_manager.cc; the leader is the least live node.
  \<^item> \<open>Pool_Manager\<close>: pool\_manager.h, pool\_manager.cc and the admin handlers of pools. On every
    branch of \<^verbatim>\<open>CreatePool\<close>, failures and exceptions included, the table keeps its invariant.
  \<^item> \<open>Address_Wal\<close>: the log of the address tables; replay restores them. Clients see the table
    through the locale \<open>node_table\<close>, interpreted on the pool manager.
  \<^item> \<open>Scheduler\<close>: default\_sched.cc; tasks of one group stay on one worker.
  \<^item> \<open>Routing\<close>: \<^verbatim>\<open>RouteTask\<close> and the \<^verbatim>\<open>Resolve\<close> functions of ipc\_manager.cc; a broadcast reaches
    every container exactly once.
  \<^item> \<open>Net_Tasks\<close>: \<^verbatim>\<open>SendIn\<close>, \<^verbatim>\<open>SendOut\<close>, \<^verbatim>\<open>RecvIn\<close>, \<^verbatim>\<open>RecvOut\<close>, the retry queues and timeouts of
    admin\_runtime.cc; a remote task completes once, with all answers.
  \<^item> \<open>Node_Recovery\<close>: \<^verbatim>\<open>ComputeRecoveryPlan\<close>, \<^verbatim>\<open>TriggerRecovery\<close>, \<^verbatim>\<open>RecoverContainers\<close>,
    \<^verbatim>\<open>MigrateContainers\<close>, \<^verbatim>\<open>AnnounceShutdown\<close>; recovery empties a dead node and agrees on all nodes.
  \<^item> \<open>Swim\<close>: \<^verbatim>\<open>HeartbeatProbe\<close>, \<^verbatim>\<open>ProbeRequest\<close>; a node that answers is never declared dead, a crashed
    one is, and what happens with no helper. This theory joins the two: a node whose
    suspicion expires on the leader is marked dead and its containers move.

  \<^bold>\<open>Conventions.\<close> Machine integers keep their width; a time stamp of the steady clock is an
  integer. A float is its bit pattern, or a real where only its order matters. A
  \<^verbatim>\<open>std::unordered_map\<close> is the association list of its entries in iteration order. An exception
  is a left summand or \<open>None\<close>, as the theory says. A handler runs from start to end; only
  the locks and the ring buffer are modelled at the level of single atomic accesses.
  Code outside the repository (the asynchronous I/O backend, the transport, hash functions,
  \<^verbatim>\<open>std::sort\<close> and \<^verbatim>\<open>std::shuffle\<close>, the parsers of configuration files) and code a module
  supplies at run time are parameters.

  \<^bold>\<open>Loops.\<close> Most loops are recursions with a measure. The file transfers of \<open>Bdev_IO\<close> carry fuel,
  since they need not end: \<open>WriteToFile_hangs\<close> is such a case, and the round trip shows that
  with queue depth 1 one round per block is enough. \<open>find_fit_loop\<close> of the allocator, \<open>plug_wait\<close>
  and \<open>probe_wait\<close> are partial functions; that they return is shown for lists the invariant
  describes and for a clock that passes the timeout.

  \<^bold>\<open>Not modelled.\<close> Threads, event loops and coroutine scheduling (worker.cc), sockets and
  ZeroMQ, shared memory segments, loading of modules, configuration files, client
  libraries, language bindings, the file system adapters, the compressor, the assimilation
  and exploration engines, GPU code, monitoring reports, generated dispatch code, and the
  container templates that mirror the standard library (vector, string): they are calls into
  the operating system or other libraries, or glue around what is modelled. Also not
  modelled: interleaving of handlers at their suspension points, failures of allocation,
  and memory orders weaker than sequential consistency.
\<close>



definition demo_suspect :: Swim where
  "demo_suspect = \<lparr>sw_cluster = \<lparr>hostfile_map = [(0, demo_host 0), (1, (demo_host 1)\<lparr>host_state := kSuspected\<rparr>)], hosts_cache = [],
       hosts_cache_valid = False, dead_nodes = [], this_node = 0, self_fenced = False, client_pool = []\<rparr>,
     pending_direct = [], pending_indirect = [], round_robin_idx = 0, recovery_initiated = []\<rparr>"

definition demo_suspect_env :: swim_env where
  "demo_suspect_env = (demo_swim_env 10000000000)\<lparr>w_pm := demo_wal_pm\<rparr>"


end
